(* ===== verification/GG_Prelude.thy ===== *)
theory GG_Prelude
  imports Complex_Main
begin

text \<open>
  Shared vocabulary of the development: the types every component uses (Go byte strings,
  instants, durations), the collections of rewrite rules the component proofs draw on, and the
  generic facts on key-sorted lists that the queue index needs.

  Go strings and byte slices are both sequences of bytes, so both are \<open>string\<close> (a HOL \<open>char\<close>
  is exactly one byte).  A slice that may be nil is an \<open>option\<close>: \<open>None\<close> is nil, which the code
  keeps apart from the empty slice.
  An instant (\<open>time.Time\<close>) is the number of nanoseconds since the zero value of the Go type, so
  \<open>IsZero t\<close> is \<open>t = 0\<close>, \<open>After\<close>/\<open>Before\<close> are \<open>>\<close>/\<open><\<close> and \<open>Add\<close> is \<open>+\<close>.
\<close>

type_synonym bytes = "string option"
type_synonym time = int
type_synonym duration = int

abbreviation nil_bytes :: bytes where
  "nil_bytes \<equiv> None"

definition zero_time :: time where
  "zero_time = 0"

abbreviation IsZero :: "time \<Rightarrow> bool" where
  "IsZero t \<equiv> t = zero_time"

text \<open>Length of a possibly nil slice, as Go's \<open>len\<close>.\<close>

definition blen :: "bytes \<Rightarrow> int" where
  "blen b = (case b of None \<Rightarrow> 0 | Some s \<Rightarrow> int (length s))"

abbreviation slen :: "string \<Rightarrow> int" where
  "slen s \<equiv> int (length s)"

definition nanosecond :: duration where "nanosecond = 1"
definition millisecond :: duration where "millisecond = 1000000"
definition second :: duration where "second = 1000000000"

text \<open>\<open>time.Time.Sub\<close> saturates at the limits of a 64-bit duration.\<close>

definition max_duration :: duration where "max_duration = 2 ^ 63 - 1"
definition min_duration :: duration where "min_duration = - (2 ^ 63)"

definition time_sub :: "time \<Rightarrow> time \<Rightarrow> duration" where
  "time_sub t u = max min_duration (min max_duration (t - u))"

lemma blen_nonneg [simp]: "0 \<le> blen b"
  by (simp add: blen_def split: option.splits)

lemma time_sub_range: "min_duration \<le> time_sub t u \<and> time_sub t u \<le> max_duration"
  by (auto simp: time_sub_def min_duration_def max_duration_def)

named_theorems op_defs \<open>definitions of the operations of a component, unfolded together\<close>
named_theorems frame \<open>what an operation leaves unchanged\<close>

section \<open>Lists that are strictly sorted by a key\<close>

definition ksorted :: "('a \<Rightarrow> nat) \<Rightarrow> 'a list \<Rightarrow> bool" where
  "ksorted f xs = sorted_wrt (\<lambda>x y. f x < f y) xs"

lemma ksorted_Nil [simp]: "ksorted f []"
  by (simp add: ksorted_def)

lemma ksorted_Cons [simp]: "ksorted f (x # xs) \<longleftrightarrow> (\<forall>y\<in>set xs. f x < f y) \<and> ksorted f xs"
  by (simp add: ksorted_def)

lemma ksorted_append [simp]:
  "ksorted f (xs @ ys) \<longleftrightarrow> ksorted f xs \<and> ksorted f ys \<and> (\<forall>x\<in>set xs. \<forall>y\<in>set ys. f x < f y)"
  by (auto simp: ksorted_def sorted_wrt_append)

lemma ksorted_distinct: "ksorted f xs \<Longrightarrow> distinct xs"
  by (induction xs) auto

lemma ksorted_filter: "ksorted f xs \<Longrightarrow> ksorted f (filter P xs)"
  by (simp add: ksorted_def sorted_wrt_filter)

lemma ksorted_inj: "ksorted f xs \<Longrightarrow> x \<in> set xs \<Longrightarrow> y \<in> set xs \<Longrightarrow> f x = f y \<Longrightarrow> x = y"
  by (induction xs) auto

lemma ksorted_cong: "(\<And>x. x \<in> set xs \<Longrightarrow> f x = g x) \<Longrightarrow> ksorted f xs = ksorted g xs"
  by (induction xs) auto

lemma ksorted_remove1: "ksorted f xs \<Longrightarrow> ksorted f (remove1 x xs)"
  by (induction xs) (auto dest: set_remove1_subset [THEN subsetD])

lemma ksorted_take: "ksorted f xs \<Longrightarrow> ksorted f (take n xs)"
  by (metis append_take_drop_id ksorted_append)

lemma ksorted_drop: "ksorted f xs \<Longrightarrow> ksorted f (drop n xs)"
  by (metis append_take_drop_id ksorted_append)

text \<open>A key-sorted list is determined by its elements.\<close>

lemma ksorted_unique: "ksorted f xs \<Longrightarrow> ksorted f ys \<Longrightarrow> set xs = set ys \<Longrightarrow> xs = ys"
proof (induction xs arbitrary: ys)
  case Nil
  then show ?case by simp
next
  case (Cons x xs)
  then obtain y ys' where ys: "ys = y # ys'" by (cases ys) auto
  have xy: "x = y"
  proof (rule ccontr)
    assume "x \<noteq> y"
    with Cons.prems ys have "x \<in> set ys'" and "y \<in> set xs" by auto
    with Cons.prems ys show False by fastforce
  qed
  with Cons.prems ys have "x \<notin> set xs" and "x \<notin> set ys'" by auto
  with Cons.prems xy ys have "set xs = set ys'" by auto
  with Cons.IH Cons.prems ys xy show ?case by auto
qed

text \<open>Updating a function away from a list does not change what is computed from the list.\<close>

lemma sum_list_map_cong: "(\<And>x. x \<in> set xs \<Longrightarrow> f x = g x) \<Longrightarrow> sum_list (map f xs) = sum_list (map g xs)"
  by (induction xs) auto

lemma sum_list_map_update:
  fixes f g :: "'a \<Rightarrow> int"
  assumes "distinct xs" and "x \<in> set xs" and "\<And>y. y \<in> set xs \<Longrightarrow> y \<noteq> x \<Longrightarrow> f y = g y"
  shows "sum_list (map g xs) = sum_list (map f xs) + (g x - f x)"
  using assms
proof (induction xs)
  case Nil
  then show ?case by simp
next
  case (Cons a xs)
  show ?case
  proof (cases "a = x")
    case True
    with Cons.prems have "g y = f y" if "y \<in> set xs" for y
      using that by force
    then have "sum_list (map g xs) = sum_list (map f xs)"
      by (rule sum_list_map_cong)
    with True show ?thesis by simp
  next
    case False
    with Cons have "sum_list (map g xs) = sum_list (map f xs) + (g x - f x)" by auto
    moreover from False Cons.prems have "f a = g a" by auto
    ultimately show ?thesis by simp
  qed
qed

lemma sum_list_map_remove1_int:
  fixes f :: "'a \<Rightarrow> int"
  shows "x \<in> set xs \<Longrightarrow> sum_list (map f (remove1 x xs)) = sum_list (map f xs) - f x"
  by (induction xs) auto

lemma card_insert_int: "finite S \<Longrightarrow> p \<notin> S \<Longrightarrow> int (card (insert p S)) = int (card S) + 1"
  by simp

lemma card_remove_int: "finite S \<Longrightarrow> p \<in> S \<Longrightarrow> int (card (S - {p})) = int (card S) - 1"
  by (simp add: card_Suc_Diff1 [symmetric] del: card_Diff_insert)

end
