(* ===== verification/GG_Errors.thy ===== *)
theory GG_Errors
  imports GG_Prelude
begin

text \<open>
  Go error values as the library builds and inspects them.  A package-level variable made with
  \<open>errors.New\<close> is a \<open>sentinel\<close>; \<open>fmt.Errorf\<close> with \<open>%w\<close> verbs (and \<open>errors.Join\<close>) is
  \<open>EWrap\<close> with the wrapped errors in order; the structured error types of the library
  (\<open>retry.permanentError\<close>, \<open>dlq.BlockedError\<close>, \<open>breaker.OpenError\<close>, \<open>breaker.BulkheadError\<close>,
  \<open>goguard.CircuitError\<close>, \<open>goguard.DeferredError\<close>) are constructors of their own, and so is a \<open>net.Error\<close> of the
  network with what its \<open>Timeout\<close> answers.  \<open>errors_Is\<close> and the \<open>as_\<dots>\<close> functions walk the tree the way
  \<open>errors.Is\<close> and \<open>errors.As\<close> of the standard library do: the value itself first, then what it
  unwraps to, left to right.
\<close>

datatype BreakerState = StateClosed | StateOpen | StateHalfOpen

datatype sentinel =
    ErrInvalidRecord | ErrNotFound | ErrLeaseLost | ErrNotParked | ErrFull | ErrClosed
  | ErrInvalidRequest | ErrCorrupt | ErrStoreFailed | ErrDiskLow
  | ErrOpen | ErrBulkhead
  | ErrPipelineMismatch | ErrUnknownStep | ErrCannotSkipForward | ErrStepUndone
  | ErrUnboundTopic | ErrUnstorable | ErrStoreNotDurable | ErrBrokersDown
  | errTorn | errBadFrame | errBadEntry | io_EOF | errTransientRead | ErrTampered | ErrSignerRequired | ErrUnsignedLog
  | os_ErrNotExist | io_ErrUnexpectedEOF
  | ErrDeferred | ErrUnknownEndpoint
  | ErrInvalidKey | ErrUnknownKey | ErrMalformed | ErrDecrypt | ErrBadSignature
  | Canceled | DeadlineExceeded

datatype gerror =
    EVar sentinel
  | EText string
  | EWrap string "gerror list"
  | EPermanent gerror
  | EBlocked string gerror bool
  | EOpen string BreakerState
  | EBulkhead string
  | ECircuit string BreakerState gerror bool
  | EDeferred string gerror
  | ENet string bool

fun errors_Is :: "gerror \<Rightarrow> sentinel \<Rightarrow> bool" where
  "errors_Is (EVar s) t = (s = t)"
| "errors_Is (EText _) t = False"
| "errors_Is (EWrap _ es) t = list_ex (\<lambda>e. errors_Is e t) es"
| "errors_Is (EPermanent e) t = errors_Is e t"
| "errors_Is (EBlocked _ e _) t = errors_Is e t"
| "errors_Is (EOpen _ _) t = (t = ErrOpen)"
| "errors_Is (EBulkhead _) t = (t = ErrBulkhead)"
| "errors_Is (ECircuit _ _ e _) t = errors_Is e t"
| "errors_Is (EDeferred _ e) t = (t = ErrDeferred \<or> errors_Is e t)"
| "errors_Is (ENet _ _) t = False"

text \<open>The first value of a list for which a function answers.\<close>

fun first_some :: "('a \<Rightarrow> 'b option) \<Rightarrow> 'a list \<Rightarrow> 'b option" where
  "first_some f [] = None"
| "first_some f (x # xs) = (case f x of Some y \<Rightarrow> Some y | None \<Rightarrow> first_some f xs)"

lemma first_some_cong [fundef_cong]:
  "xs = ys \<Longrightarrow> (\<And>x. x \<in> set ys \<Longrightarrow> f x = g x) \<Longrightarrow> first_some f xs = first_some g ys"
  by (induction ys arbitrary: xs) (auto split: option.splits)

text \<open>\<open>errors.As(err, &be)\<close> with a \<open>*BlockedError\<close> target: dependency, cause and refund flag.\<close>

fun as_blocked :: "gerror \<Rightarrow> (string \<times> gerror \<times> bool) option" where
  "as_blocked (EBlocked d e r) = Some (d, e, r)"
| "as_blocked (EWrap _ es) = first_some as_blocked es"
| "as_blocked (EPermanent e) = as_blocked e"
| "as_blocked (ECircuit _ _ e _) = as_blocked e"
| "as_blocked (EDeferred _ e) = as_blocked e"
| "as_blocked _ = None"

text \<open>\<open>errors.As(err, &oe)\<close> with a \<open>*breaker.OpenError\<close> target.\<close>

fun as_open :: "gerror \<Rightarrow> (string \<times> BreakerState) option" where
  "as_open (EOpen n s) = Some (n, s)"
| "as_open (EWrap _ es) = first_some as_open es"
| "as_open (EPermanent e) = as_open e"
| "as_open (EBlocked _ e _) = as_open e"
| "as_open (ECircuit _ _ e _) = as_open e"
| "as_open (EDeferred _ e) = as_open e"
| "as_open _ = None"

text \<open>\<open>errors.As(err, &p)\<close> with a \<open>*permanentError\<close> target succeeds (\<open>retry.IsPermanent\<close>).\<close>

fun has_permanent :: "gerror \<Rightarrow> bool" where
  "has_permanent (EPermanent _) = True"
| "has_permanent (EWrap _ es) = list_ex has_permanent es"
| "has_permanent (EBlocked _ e _) = has_permanent e"
| "has_permanent (ECircuit _ _ e _) = has_permanent e"
| "has_permanent (EDeferred _ e) = has_permanent e"
| "has_permanent _ = False"

text \<open>
  \<open>errors.As(err, &ce)\<close> with a \<open>*goguard.CircuitError\<close> target, and with a \<open>net.Error\<close> target: \<open>context.DeadlineExceeded\<close>
  is one too.
\<close>

fun as_circuit :: "gerror \<Rightarrow> (string \<times> BreakerState \<times> gerror \<times> bool) option" where
  "as_circuit (ECircuit h s e r) = Some (h, s, e, r)"
| "as_circuit (EWrap _ es) = first_some as_circuit es"
| "as_circuit (EPermanent e) = as_circuit e"
| "as_circuit (EBlocked _ e _) = as_circuit e"
| "as_circuit (EDeferred _ e) = as_circuit e"
| "as_circuit _ = None"

fun as_net :: "gerror \<Rightarrow> bool option" where
  "as_net (ENet _ timeout) = Some timeout"
| "as_net (EVar s) = (if s = DeadlineExceeded then Some True else None)"
| "as_net (EWrap _ es) = first_some as_net es"
| "as_net (EPermanent e) = as_net e"
| "as_net (EBlocked _ e _) = as_net e"
| "as_net (ECircuit _ _ e _) = as_net e"
| "as_net (EDeferred _ e) = as_net e"
| "as_net _ = None"

text \<open>A success or an error result, as a Go \<open>error\<close> return value.\<close>

type_synonym goerr = "gerror option"

abbreviation ok :: goerr where "ok \<equiv> None"

lemma first_some_None: "first_some f xs = None \<longleftrightarrow> (\<forall>x\<in>set xs. f x = None)"
  by (induction xs) (auto split: option.splits)

lemma as_open_is_open: "as_open e \<noteq> None \<Longrightarrow> errors_Is e ErrOpen"
  by (induction e rule: as_open.induct) (auto simp: first_some_None list_ex_iff)

end
