(* ===== verification/GG_Retry.thy ===== *)
theory GG_Retry
  imports GG_Errors
begin

text \<open>
  Package \<open>retry\<close>: backoff functions, the retry budget, and \<open>Do\<close>, the retry loop.
  Durations are integers (nanoseconds); the overflow guard of \<open>Exponential\<close> is written out and
  proved to keep every delay inside a signed 64-bit duration.  The budget's \<open>float64\<close> tokens are
  rationals.  Randomness (\<open>rand.Int64N\<close>) is an argument.
\<close>

section \<open>Backoff\<close>

type_synonym Backoff = "int \<Rightarrow> duration"

definition Constant :: "duration \<Rightarrow> Backoff" where
  "Constant d = (\<lambda>_. d)"

text \<open>The doubling loop of \<open>Exponential\<close>: \<open>n\<close> is the number of iterations left.\<close>

fun exp_loop :: "duration \<Rightarrow> nat \<Rightarrow> duration \<Rightarrow> duration" where
  "exp_loop mx 0 d = d"
| "exp_loop mx (Suc n) d =
     (if 0 < mx \<and> mx \<le> d then d
      else if 2 ^ 62 div 2 < d then d
      else exp_loop mx n (d * 2))"

definition Exponential :: "duration \<Rightarrow> duration \<Rightarrow> Backoff" where
  "Exponential base mx = (\<lambda>attempt.
     if attempt < 1 \<or> base \<le> 0 then 0
     else let d = exp_loop mx (nat (attempt - 1)) base
          in if 0 < mx \<and> mx < d then mx else d)"

text \<open>
  \<open>Jitter\<close>: \<open>draw\<close> stands for \<open>rand.Int64N\<close>, which returns a number in \<open>[0, n)\<close> for its
  argument \<open>n\<close>.
\<close>

definition Jitter :: "(int \<Rightarrow> int) \<Rightarrow> Backoff \<Rightarrow> rat \<Rightarrow> Backoff" where
  "Jitter draw b fraction =
     (if fraction \<le> 0 then b
      else let fr = (if 1 < fraction then 1 else fraction)
           in (\<lambda>attempt.
                let d = b attempt
                in if d \<le> 0 then d
                   else let spread = \<lfloor>of_int d * fr\<rfloor>
                        in d - spread + draw (spread + 1)))"

lemma exp_loop_pos: "0 < d \<Longrightarrow> 0 < exp_loop mx n d"
  by (induction mx n d rule: exp_loop.induct) auto

lemma exp_loop_ge: "0 < d \<Longrightarrow> d \<le> exp_loop mx n d"
  by (induction mx n d rule: exp_loop.induct) (auto split: if_splits)

lemma exp_loop_upper: "0 < d \<Longrightarrow> exp_loop mx n d \<le> max d (2 ^ 62)"
proof (induction mx n d rule: exp_loop.induct)
  case (2 mx n d)
  then show ?case by (auto simp: max_def split: if_splits)
qed simp

lemma exp_loop_le_power: "0 < d \<Longrightarrow> exp_loop mx n d \<le> d * 2 ^ n"
proof (induction mx n d rule: exp_loop.induct)
  case (2 mx n d)
  have "(1::int) \<le> 2 * 2 ^ n" using one_le_power [of "2::int" "Suc n"] by simp
  then have "d \<le> d * (2 * 2 ^ n)" using "2.prems" by (simp add: mult_le_cancel_left1)
  with 2 show ?case by (auto simp: algebra_simps)
qed simp

lemma exp_loop_mono: "0 < d \<Longrightarrow> exp_loop mx n d \<le> exp_loop mx (Suc n) d"
proof (induction mx n d rule: exp_loop.induct)
  case (1 mx d)
  then show ?case by simp
next
  case (2 mx n d)
  show ?case
  proof (cases "(0 < mx \<and> mx \<le> d) \<or> 2 ^ 62 div 2 < d")
    case True
    then have "exp_loop mx (Suc k) d = d" for k by auto
    then show ?thesis by simp
  next
    case False
    then have unfold: "exp_loop mx (Suc k) d = exp_loop mx k (d * 2)" for k by auto
    from 2 False have "exp_loop mx n (d * 2) \<le> exp_loop mx (Suc n) (d * 2)" by auto
    then show ?thesis by (simp only: unfold)
  qed
qed

lemma exp_loop_exact:
  "0 < d \<Longrightarrow> d * 2 ^ n \<le> 2 ^ 62 \<Longrightarrow> (\<not> (0 < mx \<and> mx \<le> exp_loop mx n d)) \<Longrightarrow> exp_loop mx n d = d * 2 ^ n"
proof (induction mx n d rule: exp_loop.induct)
  case (2 mx n d)
  have "d * 2 \<le> d * 2 * 2 ^ n" using "2.prems"(1) by (simp add: mult_le_cancel_left1)
  with "2.prems"(2) have "d * 2 \<le> 2 ^ 62" by (simp add: algebra_simps)
  then have small: "\<not> 2 ^ 62 div 2 < d" by simp
  show ?case
  proof (cases "0 < mx \<and> mx \<le> d")
    case True
    with "2.prems"(3) show ?thesis by simp
  next
    case False
    with small have "exp_loop mx (Suc n) d = exp_loop mx n (d * 2)"
      by (metis exp_loop.simps(2))
    with 2 False small show ?thesis by (simp add: algebra_simps)
  qed
qed simp

section \<open>Budget\<close>

text \<open>A nil \<open>*Budget\<close> is \<open>None\<close>.\<close>

record Budget =
  tokens :: rat
  bmax :: rat
  ratio :: rat

definition NewBudget :: "rat \<Rightarrow> int \<Rightarrow> Budget" where
  "NewBudget r burst =
     (let b = (if burst < 1 then 1 else burst)
      in \<lparr>tokens = of_int b, bmax = of_int b, ratio = r\<rparr>)"

definition Deposit :: "Budget option \<Rightarrow> Budget option" where
  "Deposit b = (case b of None \<Rightarrow> None
     | Some b \<Rightarrow> let t = tokens b + ratio b
                in Some (b\<lparr>tokens := if bmax b < t then bmax b else t\<rparr>))"

definition TryWithdraw :: "Budget option \<Rightarrow> bool \<times> Budget option" where
  "TryWithdraw b = (case b of None \<Rightarrow> (True, None)
     | Some b \<Rightarrow> if tokens b < 1 then (False, Some b)
                else (True, Some (b\<lparr>tokens := tokens b - 1\<rparr>)))"

section \<open>Classifying errors\<close>

definition Permanent :: "goerr \<Rightarrow> goerr" where
  "Permanent e = map_option EPermanent e"

definition IsPermanent :: "goerr \<Rightarrow> bool" where
  "IsPermanent e = (case e of None \<Rightarrow> False | Some e \<Rightarrow> has_permanent e)"

text \<open>
  \<open>DefaultRetryable\<close>.  The only error of the library with a \<open>NonRetryable\<close> method is
  \<open>*breaker.OpenError\<close>, whose method answers true.
\<close>

definition DefaultRetryable :: "goerr \<Rightarrow> bool" where
  "DefaultRetryable e = (case e of None \<Rightarrow> False
     | Some x \<Rightarrow> \<not> (IsPermanent e \<or> errors_Is x Canceled) \<and> as_open x = None)"

definition unwrapPermanent :: "gerror \<Rightarrow> gerror" where
  "unwrapPermanent e = (case e of EPermanent x \<Rightarrow> x | _ \<Rightarrow> e)"

definition IsOutage :: "goerr \<Rightarrow> bool" where
  "IsOutage e = (e \<noteq> None \<and> \<not> IsPermanent e)"

text \<open>\<open>FromHTTP\<close>: a response is its status code and the host of its request (empty if unknown).\<close>

definition FromHTTP :: "(int \<times> string) option \<Rightarrow> goerr \<Rightarrow> goerr" where
  "FromHTTP resp err =
     (if err \<noteq> None then err
      else case resp of
        None \<Rightarrow> Some (EText ''retry: no response and no error'')
      | Some (code, host) \<Rightarrow>
          if code < 400 then ok
          else if code = 408 \<or> code = 425 \<or> code = 429 \<or> 500 \<le> code
            then Some (EText (host @ '' answered''))
          else Permanent (Some (EText (host @ '' answered''))))"

section \<open>The retry loop\<close>

text \<open>
  What \<open>Do\<close> interacts with is a world \<open>'w\<close>: calling \<open>fn\<close>, asking \<open>ctx.Err()\<close> and waiting on
  the backoff timer (\<open>True\<close>: the context ended first).  The \<open>OnRetry\<close> calls are collected in
  order as (attempt, delay, error).
\<close>

record Policy =
  MaxRetries :: int
  BackoffOf :: "Backoff option"
  Retryable :: "(goerr \<Rightarrow> bool) option"

record 'w retry_env =
  run_fn :: "'w \<Rightarrow> goerr \<times> 'w"
  ctx_done :: "'w \<Rightarrow> bool"
  wait_timer :: "duration \<Rightarrow> 'w \<Rightarrow> bool \<times> 'w"

type_synonym retry_log = "(int \<times> duration \<times> gerror) list"

function do_loop ::
  "'w retry_env \<Rightarrow> Policy \<Rightarrow> (goerr \<Rightarrow> bool) \<Rightarrow> int \<Rightarrow> Budget option \<Rightarrow> 'w \<Rightarrow>
   goerr \<times> retry_log \<times> Budget option \<times> 'w" where
  "do_loop env p retryable attempt bud w =
     (case run_fn env w of
        (None, w1) \<Rightarrow> (ok, [], bud, w1)
      | (Some err, w1) \<Rightarrow>
          (if ctx_done env w1 \<or> MaxRetries p \<le> attempt \<or> \<not> retryable (Some err)
           then (Some (unwrapPermanent err), [], bud, w1)
           else (case TryWithdraw bud of
             (False, bud1) \<Rightarrow> (Some (unwrapPermanent err), [], bud1, w1)
           | (True, bud1) \<Rightarrow>
              (let delay = (case BackoffOf p of None \<Rightarrow> 0 | Some f \<Rightarrow> f (attempt + 1));
                   entry = (attempt + 1, delay, err);
                   stopped = (if 0 < delay then wait_timer env delay w1 else (False, w1))
               in if fst stopped then (Some (unwrapPermanent err), [entry], bud1, snd stopped)
                  else (let rest = do_loop env p retryable (attempt + 1) bud1 (snd stopped)
                        in (fst rest, entry # fst (snd rest), snd (snd rest)))))))"
  by pat_completeness auto
termination
  by (relation "measure (\<lambda>(env, p, r, attempt, bud, w). nat (MaxRetries p - attempt))") auto

declare do_loop.simps [simp del]

definition Do ::
  "'w retry_env \<Rightarrow> Policy \<Rightarrow> Budget option \<Rightarrow> 'w \<Rightarrow> goerr \<times> retry_log \<times> Budget option \<times> 'w" where
  "Do env p bud w =
     do_loop env p (case Retryable p of None \<Rightarrow> DefaultRetryable | Some f \<Rightarrow> f) 0 (Deposit bud) w"


section \<open>What the loop guarantees\<close>

lemma Deposit_None [simp]: "Deposit None = None"
  by (simp add: Deposit_def)

lemma TryWithdraw_None [simp]: "TryWithdraw None = (True, None)"
  by (simp add: TryWithdraw_def)

text \<open>One round of the loop, once \<open>fn\<close> has failed and a retry is allowed.\<close>

definition retry_delay :: "Policy \<Rightarrow> int \<Rightarrow> duration" where
  "retry_delay p a = (case BackoffOf p of None \<Rightarrow> 0 | Some f \<Rightarrow> f (a + 1))"

definition retry_wait :: "'w retry_env \<Rightarrow> duration \<Rightarrow> 'w \<Rightarrow> bool \<times> 'w" where
  "retry_wait env d w = (if 0 < d then wait_timer env d w else (False, w))"

definition may_retry :: "'w retry_env \<Rightarrow> Policy \<Rightarrow> (goerr \<Rightarrow> bool) \<Rightarrow> int \<Rightarrow> gerror \<Rightarrow> 'w \<Rightarrow> bool" where
  "may_retry env p ret a err w \<longleftrightarrow> \<not> ctx_done env w \<and> a < MaxRetries p \<and> ret (Some err)"

lemma do_loop_success:
  "run_fn env w = (ok, w1) \<Longrightarrow> do_loop env p ret a bud w = (ok, [], bud, w1)"
  by (simp add: do_loop.simps [of env p ret a bud w])

lemma do_loop_giveup:
  "run_fn env w = (Some err, w1) \<Longrightarrow> \<not> may_retry env p ret a err w1 \<Longrightarrow>
   do_loop env p ret a bud w = (Some (unwrapPermanent err), [], bud, w1)"
  by (auto simp: do_loop.simps [of env p ret a bud w] may_retry_def)

lemma do_loop_no_budget:
  "run_fn env w = (Some err, w1) \<Longrightarrow> may_retry env p ret a err w1 \<Longrightarrow> TryWithdraw bud = (False, b1) \<Longrightarrow>
   do_loop env p ret a bud w = (Some (unwrapPermanent err), [], b1, w1)"
  by (auto simp: do_loop.simps [of env p ret a bud w] may_retry_def)

lemma do_loop_interrupted:
  "run_fn env w = (Some err, w1) \<Longrightarrow> may_retry env p ret a err w1 \<Longrightarrow> TryWithdraw bud = (True, b1) \<Longrightarrow>
   retry_wait env (retry_delay p a) w1 = (True, w2) \<Longrightarrow>
   do_loop env p ret a bud w = (Some (unwrapPermanent err), [(a + 1, retry_delay p a, err)], b1, w2)"
  by (auto simp: do_loop.simps [of env p ret a bud w] may_retry_def retry_delay_def retry_wait_def Let_def
      split: if_splits)

lemma do_loop_again:
  "run_fn env w = (Some err, w1) \<Longrightarrow> may_retry env p ret a err w1 \<Longrightarrow> TryWithdraw bud = (True, b1) \<Longrightarrow>
   retry_wait env (retry_delay p a) w1 = (False, w2) \<Longrightarrow>
   do_loop env p ret (a + 1) b1 w2 = (r, lg, bud', w') \<Longrightarrow>
   do_loop env p ret a bud w = (r, (a + 1, retry_delay p a, err) # lg, bud', w')"
  by (auto simp: do_loop.simps [of env p ret a bud w] may_retry_def retry_delay_def retry_wait_def Let_def
      split: if_splits)

text \<open>Induction over a run of the loop, one case per way a round can end.\<close>

lemma do_loop_induct [consumes 1, case_names success giveup no_budget interrupted again]:
  assumes run: "do_loop env p ret a bud w = (r, lg, bud', w')"
    and success: "\<And>a bud w w1. run_fn env w = (ok, w1) \<Longrightarrow> P a bud w ok [] bud w1"
    and giveup: "\<And>a bud w err w1. run_fn env w = (Some err, w1) \<Longrightarrow> \<not> may_retry env p ret a err w1 \<Longrightarrow>
      P a bud w (Some (unwrapPermanent err)) [] bud w1"
    and no_budget: "\<And>a bud w err w1 b1. run_fn env w = (Some err, w1) \<Longrightarrow> may_retry env p ret a err w1 \<Longrightarrow>
      TryWithdraw bud = (False, b1) \<Longrightarrow> P a bud w (Some (unwrapPermanent err)) [] b1 w1"
    and interrupted: "\<And>a bud w err w1 b1 w2. run_fn env w = (Some err, w1) \<Longrightarrow> may_retry env p ret a err w1 \<Longrightarrow>
      TryWithdraw bud = (True, b1) \<Longrightarrow> P a bud w (Some (unwrapPermanent err)) [(a + 1, retry_delay p a, err)] b1 w2"
    and again: "\<And>a bud w err w1 b1 w2 r lg bud' w'. run_fn env w = (Some err, w1) \<Longrightarrow>
      may_retry env p ret a err w1 \<Longrightarrow> TryWithdraw bud = (True, b1) \<Longrightarrow>
      P (a + 1) b1 w2 r lg bud' w' \<Longrightarrow> P a bud w r ((a + 1, retry_delay p a, err) # lg) bud' w'"
  shows "P a bud w r lg bud' w'"
  using run
proof (induction "nat (MaxRetries p - a)" arbitrary: a bud w r lg bud' w' rule: less_induct)
  case less
  obtain o1 w1 where fn: "run_fn env w = (o1, w1)" by fastforce
  obtain okw b1 where tw: "TryWithdraw bud = (okw, b1)" by fastforce
  obtain st w2 where wt: "retry_wait env (retry_delay p a) w1 = (st, w2)" by fastforce
  consider "o1 = None" | err where "o1 = Some err" "\<not> may_retry env p ret a err w1"
    | err where "o1 = Some err" "may_retry env p ret a err w1" "\<not> okw"
    | err where "o1 = Some err" "may_retry env p ret a err w1" "okw" "st"
    | err where "o1 = Some err" "may_retry env p ret a err w1" "okw" "\<not> st"
    by (cases o1) auto
  then show ?case
  proof cases
    case 1
    then show ?thesis using less.prems fn success do_loop_success [of env w w1 p ret a bud] by auto
  next
    case (2 err)
    then show ?thesis using less.prems fn giveup do_loop_giveup [of env w err w1 p ret a bud] by auto
  next
    case (3 err)
    then show ?thesis
      using less.prems fn tw no_budget do_loop_no_budget [of env w err w1 p ret a bud b1] by auto
  next
    case (4 err)
    then show ?thesis
      using less.prems fn tw wt interrupted do_loop_interrupted [of env w err w1 p ret a bud b1 w2] by auto
  next
    case (5 err)
    obtain r2 lg2 b2 w3 where rest: "do_loop env p ret (a + 1) b1 w2 = (r2, lg2, b2, w3)"
      by (metis prod.collapse)
    have "P (a + 1) b1 w2 r2 lg2 b2 w3"
      using 5 rest by (intro less.hyps) (auto simp: may_retry_def)
    then show ?thesis
      using less.prems again 5 fn tw wt rest do_loop_again [of env w err w1 p ret a bud b1 w2 r2 lg2 b2 w3]
      by auto
  qed
qed

lemma do_loop_log_bound:
  "do_loop env p ret a bud w = (r, lg, bud', w') \<Longrightarrow> int (length lg) \<le> max 0 (MaxRetries p - a)"
  by (induction rule: do_loop_induct) (auto simp: may_retry_def)

lemma do_loop_log_numbers:
  "do_loop env p ret a bud w = (r, lg, bud', w') \<Longrightarrow> i < length lg \<Longrightarrow> fst (lg ! i) = a + 1 + int i"
proof (induction arbitrary: i rule: do_loop_induct)
  case (again a bud w err w1 b1 w2 r lg bud' w')
  then show ?case by (cases i) auto
qed auto

lemma do_loop_log_retryable:
  "do_loop env p ret a bud w = (r, lg, bud', w') \<Longrightarrow> \<forall>(n, d, e) \<in> set lg. ret (Some e)"
  by (induction rule: do_loop_induct) (auto simp: may_retry_def)

lemma do_loop_result:
  "do_loop env p ret a bud w = (r, lg, bud', w') \<Longrightarrow>
   \<exists>v. r = map_option unwrapPermanent (fst (run_fn env v))"
  by (induction rule: do_loop_induct) (metis fst_conv option.map)+

lemma TryWithdraw_Some:
  assumes "TryWithdraw (Some b) = (g, bud')"
  obtains c where "bud' = Some c" "bmax c = bmax b" "ratio c = ratio b"
    "tokens c = tokens b - (if g then 1 else 0)" "0 \<le> tokens b \<longrightarrow> 0 \<le> tokens c"
proof (cases "tokens b < 1")
  case True
  with assms that [of b] show ?thesis by (auto simp: TryWithdraw_def)
next
  case False
  with assms that [of "b\<lparr>tokens := tokens b - 1\<rparr>"] show ?thesis by (auto simp: TryWithdraw_def)
qed

lemma do_loop_budget:
  "do_loop env p ret a bud w = (r, lg, bud', w') \<Longrightarrow> bud = Some b \<Longrightarrow> 0 \<le> tokens b \<Longrightarrow>
   \<exists>b'. bud' = Some b' \<and> tokens b' = tokens b - of_nat (length lg) \<and> 0 \<le> tokens b'
     \<and> bmax b' = bmax b \<and> ratio b' = ratio b"
proof (induction arbitrary: b rule: do_loop_induct)
  case (no_budget a bud w err w1 b1)
  from no_budget.hyps(3) no_budget.prems show ?case
    by (auto elim: TryWithdraw_Some)
next
  case (interrupted a bud w err w1 b1 w2)
  from interrupted.hyps(3) interrupted.prems show ?case
    by (auto elim: TryWithdraw_Some)
next
  case (again a bud w err w1 b1 w2 r lg bud' w')
  from again.hyps(3) again.prems obtain c where "b1 = Some c" "tokens c = tokens b - 1"
    "0 \<le> tokens c" "bmax c = bmax b" "ratio c = ratio b"
    by (auto elim: TryWithdraw_Some)
  with again.IH [of c] show ?case by auto
qed auto

text \<open>A sequence of \<open>Do\<close> calls that share one budget, with the number of retries made in all.\<close>

fun do_many ::
  "('w retry_env \<times> Policy \<times> 'w) list \<Rightarrow> Budget option \<Rightarrow> nat \<times> Budget option" where
  "do_many [] bud = (0, bud)"
| "do_many ((env, p, w) # cs) bud =
     (let out = Do env p bud w;
          rest = do_many cs (fst (snd (snd out)))
      in (length (fst (snd out)) + fst rest, snd rest))"

lemma Deposit_Some:
  assumes "0 \<le> tokens b" and "0 \<le> ratio b" and "tokens b \<le> bmax b"
  obtains c where "Deposit (Some b) = Some c" "0 \<le> tokens c" "tokens c \<le> tokens b + ratio b"
    "tokens c \<le> bmax c" "bmax c = bmax b" "ratio c = ratio b"
  using assms by (auto simp: Deposit_def Let_def)

lemma do_many_budget:
  "0 \<le> tokens b \<Longrightarrow> 0 \<le> ratio b \<Longrightarrow> tokens b \<le> bmax b \<Longrightarrow>
   of_nat (fst (do_many cs (Some b))) \<le> tokens b + ratio b * of_nat (length cs)"
proof (induction cs arbitrary: b)
  case Nil
  then show ?case by simp
next
  case (Cons c cs)
  obtain env p w where c: "c = (env, p, w)" by (cases c) auto
  from Cons.prems obtain d where d: "Deposit (Some b) = Some d" "0 \<le> tokens d"
    "tokens d \<le> tokens b + ratio b" "tokens d \<le> bmax d" "bmax d = bmax b" "ratio d = ratio b"
    by (rule Deposit_Some)
  obtain r lg bud' w' where run: "Do env p (Some b) w = (r, lg, bud', w')" by (metis prod.collapse)
  from do_loop_budget [OF run [unfolded Do_def d(1)] refl d(2)] obtain b' where
    b': "bud' = Some b'" "tokens b' = tokens d - of_nat (length lg)" "0 \<le> tokens b'"
      "bmax b' = bmax d" "ratio b' = ratio d" by auto
  have "tokens b' \<le> bmax b'" using b' d by auto
  with Cons.IH [of b'] b' d Cons.prems
  have "of_nat (fst (do_many cs bud')) \<le> tokens b' + ratio b * of_nat (length cs)" by simp
  moreover have "fst (do_many (c # cs) (Some b)) = length lg + fst (do_many cs bud')"
    by (simp add: c run Let_def)
  moreover have "ratio b * of_nat (length (c # cs)) = ratio b + ratio b * of_nat (length cs)"
    by (simp add: algebra_simps)
  ultimately show ?case using b'(2) d(3) by (simp only: of_nat_add)
qed

section \<open>Properties\<close>

lemma Exponential_step: "1 \<le> n \<Longrightarrow> 0 < base \<Longrightarrow>
  Exponential base mx n = (if 0 < mx \<and> mx < exp_loop mx (nat (n - 1)) base then mx
                           else exp_loop mx (nat (n - 1)) base)"
  by (simp add: Exponential_def Let_def)

text \<open>
  The exponential backoff never overflows a signed 64-bit duration, never exceeds a positive cap,
  is positive, grows with the attempt number, and is exactly \<open>base * 2^(n-1)\<close> cut at the cap as
  long as that product stays within the overflow guard.
\<close>

theorem Exponential_bounds:
  assumes "0 < base" and "base < 2 ^ 63" and "mx < 2 ^ 63" and "1 \<le> n"
  shows "0 < Exponential base mx n \<and> Exponential base mx n < 2 ^ 63
    \<and> (0 < mx \<longrightarrow> Exponential base mx n \<le> mx)
    \<and> Exponential base mx n \<le> Exponential base mx (n + 1)
    \<and> (base * 2 ^ nat (n - 1) \<le> 2 ^ 62 \<longrightarrow>
      Exponential base mx n = (if 0 < mx then min mx (base * 2 ^ nat (n - 1)) else base * 2 ^ nat (n - 1)))"
proof -
  let ?k = "nat (n - 1)"
  let ?e = "exp_loop mx ?k base"
  have k': "nat (n + 1 - 1) = Suc ?k" using assms(4) by simp
  note step = Exponential_step [OF assms(4) assms(1), of mx]
  have step': "Exponential base mx (n + 1) =
      (if 0 < mx \<and> mx < exp_loop mx (Suc ?k) base then mx else exp_loop mx (Suc ?k) base)"
    using Exponential_step [of "n + 1" base mx] assms(1,4) unfolding k' by simp
  have pos: "0 < ?e" by (rule exp_loop_pos [OF assms(1)])
  have mono: "?e \<le> exp_loop mx (Suc ?k) base" by (rule exp_loop_mono [OF assms(1)])
  have "Exponential base mx n < 2 ^ 63"
    using step exp_loop_upper [OF assms(1), of mx ?k] assms(2,3) by (auto simp: max_def split: if_splits)
  moreover have "Exponential base mx n \<le> Exponential base mx (n + 1)"
    using step step' mono by (auto split: if_splits)
  moreover have "Exponential base mx n = (if 0 < mx then min mx (base * 2 ^ ?k) else base * 2 ^ ?k)"
    if fits: "base * 2 ^ ?k \<le> 2 ^ 62"
  proof (cases "0 < mx \<and> mx \<le> ?e")
    case True
    with step exp_loop_le_power [OF assms(1), of mx ?k] show ?thesis by auto
  next
    case False
    with exp_loop_exact [OF assms(1) fits] have "?e = base * 2 ^ ?k" by blast
    with False step show ?thesis by auto
  qed
  ultimately show ?thesis using step pos by auto
qed

theorem Exponential_bounds_witness:
  "0 < Exponential 100 1000 3 \<and> Exponential 100 1000 3 < 2 ^ 63 \<and> Exponential 100 1000 3 = 400"
  using Exponential_bounds [of 100 1000 3] by (simp add: eval_nat_numeral)

text \<open>
  A call of \<open>Do\<close> terminates with the outcome of one of its calls of \<open>fn\<close> (a permanent marker
  at the top stripped, so it succeeds only if \<open>fn\<close> did), retries at most \<open>MaxRetries\<close> times,
  numbers the retries 1, 2, ..., and never retries an error its policy calls not retryable.
\<close>

theorem Do_outcome:
  "case Do env p bud w of (r, lg, bud', w') \<Rightarrow>
     (\<exists>v. r = map_option unwrapPermanent (fst (run_fn env v)))
   \<and> int (length lg) \<le> max 0 (MaxRetries p)
   \<and> list_all (\<lambda>i. fst (lg ! i) = int i + 1) [0..<length lg]
   \<and> list_all (\<lambda>(n, d, e). (case Retryable p of None \<Rightarrow> DefaultRetryable | Some f \<Rightarrow> f) (Some e)) lg"
proof -
  obtain r lg bud' w' where run: "Do env p bud w = (r, lg, bud', w')" by (metis prod.collapse)
  note loop = run [unfolded Do_def]
  from do_loop_result [OF loop] do_loop_log_bound [OF loop] do_loop_log_retryable [OF loop]
    do_loop_log_numbers [OF loop]
  show ?thesis by (auto simp: run list_all_iff algebra_simps)
qed

text \<open>
  Retries never multiply load: over any sequence of \<open>Do\<close> calls sharing a fresh budget, the
  total number of retries is at most the burst plus \<open>ratio\<close> per call.
\<close>

theorem retry_budget_bound:
  assumes "0 \<le> r"
  shows "of_nat (fst (do_many cs (Some (NewBudget r burst)))) \<le> of_int (max 1 burst) + r * of_nat (length cs)"
proof -
  have "0 \<le> tokens (NewBudget r burst)" "ratio (NewBudget r burst) = r"
    "tokens (NewBudget r burst) \<le> bmax (NewBudget r burst)"
    "tokens (NewBudget r burst) = of_int (max 1 burst)"
    by (auto simp: NewBudget_def Let_def max_def)
  with do_many_budget [of "NewBudget r burst" cs] assms show ?thesis by simp
qed

definition failing_env :: "nat retry_env" where
  "failing_env = \<lparr>run_fn = (\<lambda>n. (Some (EText ''down''), Suc n)), ctx_done = (\<lambda>_. False),
                  wait_timer = (\<lambda>d n. (False, n))\<rparr>"

theorem retry_budget_bound_witness:
  "of_nat (fst (do_many [(failing_env, \<lparr>MaxRetries = 5, BackoffOf = None, Retryable = None\<rparr>, 0)]
     (Some (NewBudget (1 / 2) 2)))) \<le> (2 + 1 / 2 :: rat)"
  using retry_budget_bound [of "1 / 2"
      "[(failing_env, \<lparr>MaxRetries = 5, BackoffOf = None, Retryable = None\<rparr>, 0)]" 2]
  by (simp add: max_def)

end
