(* ===== verification/GG_Record.thy ===== *)
theory GG_Record
  imports GG_Errors
begin

text \<open>
  The dead-letter record (\<open>dlq/record.go\<close>) and the request types of the store interface
  (\<open>dlq/store.go\<close>): what a record holds, its size estimate, its validation, and how record
  identifiers are derived.  SHA-256 and the source of random bytes are arguments.
\<close>

section \<open>Records\<close>

text \<open>\<open>State\<close> is an int in Go: values other than the three named ones are possible on input.\<close>

datatype State = Pending | Leased | Parked | OtherState int

definition State_String :: "State \<Rightarrow> string" where
  "State_String s = (case s of Pending \<Rightarrow> ''pending'' | Leased \<Rightarrow> ''leased'' | Parked \<Rightarrow> ''parked''
     | OtherState _ \<Rightarrow> ''unknown'')"

record Header =
  hKey :: string
  hValue :: bytes

record Source =
  sKind :: string
  sName :: string
  sPartition :: int
  sOffset :: int

text \<open>
  \<open>rSeq\<close> (uint64 in Go) is a \<open>nat\<close>: it is only ever incremented, once per append.
\<close>

record Record =
  rID :: string
  rSeq :: nat
  rState :: State
  rSource :: Source
  rKey :: bytes
  rValue :: bytes
  rHeaders :: "Header list"
  rOrderKey :: string
  rBlockedOn :: string
  rAttempts :: int
  rFirstFailed :: time
  rLastFailed :: time
  rNextAttempt :: time
  rLastError :: string
  rCheckpoint :: bytes
  rSchemaVersion :: int

definition CurrentSchema :: int where "CurrentSchema = 1"
definition maxIDLen :: int where "maxIDLen = 256"

definition zero_source :: Source where
  "zero_source = \<lparr>sKind = '''', sName = '''', sPartition = 0, sOffset = 0\<rparr>"

definition zero_record :: Record where
  "zero_record = \<lparr>rID = '''', rSeq = 0, rState = Pending, rSource = zero_source, rKey = None, rValue = None,
     rHeaders = [], rOrderKey = '''', rBlockedOn = '''', rAttempts = 0, rFirstFailed = zero_time,
     rLastFailed = zero_time, rNextAttempt = zero_time, rLastError = '''', rCheckpoint = None,
     rSchemaVersion = 0\<rparr>"

definition headers_size :: "Header list \<Rightarrow> int" where
  "headers_size hs = sum_list (map (\<lambda>h. slen (hKey h) + blen (hValue h)) hs)"

definition Size :: "Record \<Rightarrow> int" where
  "Size r = slen (rID r) + blen (rKey r) + blen (rValue r) + blen (rCheckpoint r) + slen (rOrderKey r)
     + slen (rBlockedOn r) + slen (rLastError r) + slen (sKind (rSource r)) + slen (sName (rSource r)) + 64
     + headers_size (rHeaders r)"

definition cloneBytes :: "bytes \<Rightarrow> bytes" where
  "cloneBytes b = (case b of None \<Rightarrow> None | Some s \<Rightarrow> Some ([] @ s))"

definition Clone :: "Record \<Rightarrow> Record" where
  "Clone r = r\<lparr>rKey := cloneBytes (rKey r), rValue := cloneBytes (rValue r),
     rCheckpoint := cloneBytes (rCheckpoint r),
     rHeaders := map (\<lambda>h. \<lparr>hKey = hKey h, hValue = cloneBytes (hValue h)\<rparr>) (rHeaders r)\<rparr>"

definition Validate :: "Record \<Rightarrow> goerr" where
  "Validate r =
     (if rID r = '''' \<or> maxIDLen < slen (rID r)
      then Some (EWrap ''id must be 1 to 256 bytes'' [EVar ErrInvalidRecord])
      else if rAttempts r < 0 then Some (EWrap ''negative attempts'' [EVar ErrInvalidRecord])
      else if rState r = Leased
      then Some (EWrap ''a record cannot be appended already leased'' [EVar ErrInvalidRecord])
      else ok)"

lemma cloneBytes_id [simp]: "cloneBytes b = b"
  by (simp add: cloneBytes_def split: option.splits)

lemma Clone_id [simp]: "Clone r = r"
  by (simp add: Clone_def map_idI)

lemma headers_size_nonneg: "0 \<le> headers_size hs"
  by (induction hs) (auto simp: headers_size_def)

lemma Size_pos: "64 \<le> Size r"
  using headers_size_nonneg [of "rHeaders r"] blen_nonneg by (simp add: Size_def)

text \<open>The size estimate reads none of the bookkeeping fields.\<close>

lemma Size_frame [simp]:
  "Size (r\<lparr>rState := s\<rparr>) = Size r"
  "Size (r\<lparr>rAttempts := a\<rparr>) = Size r"
  "Size (r\<lparr>rSeq := n\<rparr>) = Size r"
  "Size (r\<lparr>rNextAttempt := t\<rparr>) = Size r"
  "Size (r\<lparr>rLastFailed := t\<rparr>) = Size r"
  "Size (r\<lparr>rFirstFailed := t\<rparr>) = Size r"
  "Size (r\<lparr>rSchemaVersion := v\<rparr>) = Size r"
  by (simp_all add: Size_def)

section \<open>Identifiers\<close>

definition hexdigit :: "nat \<Rightarrow> char" where
  "hexdigit n = ''0123456789abcdef'' ! n"

text \<open>\<open>hex.Encode\<close>: two lower-case digits per byte.\<close>

definition hexEncode :: "string \<Rightarrow> string" where
  "hexEncode bs = concat (map (\<lambda>c. [hexdigit (of_char c div 16), hexdigit (of_char c mod 16)]) bs)"

text \<open>\<open>newToken\<close>: \<open>draw\<close> is the 16 bytes \<open>crypto/rand\<close> returned.\<close>

definition newToken :: "string \<Rightarrow> string" where
  "newToken draw = hexEncode draw"

text \<open>\<open>binary.BigEndian.PutUint64\<close>.\<close>

fun be_bytes :: "nat \<Rightarrow> nat \<Rightarrow> string" where
  "be_bytes 0 n = []"
| "be_bytes (Suc k) n = be_bytes k (n div 256) @ [char_of (n mod 256)]"

definition be64 :: "nat \<Rightarrow> string" where
  "be64 n = be_bytes 8 n"

definition formatUUID :: "string \<Rightarrow> string" where
  "formatUUID b = hexEncode (take 4 b) @ ''-'' @ hexEncode (take 2 (drop 4 b)) @ ''-''
     @ hexEncode (take 2 (drop 6 b)) @ ''-'' @ hexEncode (take 2 (drop 8 b)) @ ''-'' @ hexEncode (drop 10 b)"

text \<open>The bytes \<open>DeterministicID\<close> feeds to the hash: every part behind its length.\<close>

definition id_input :: "string list \<Rightarrow> string" where
  "id_input parts = concat (map (\<lambda>p. be64 (length p mod 2 ^ 64) @ p) parts)"

text \<open>\<open>b[i] = b[i]&mask | bits\<close> on one byte of the digest, for the version and variant fields.\<close>

definition stamp :: "nat \<Rightarrow> nat \<Rightarrow> nat \<Rightarrow> string \<Rightarrow> string" where
  "stamp i modulus bits b = b[i := char_of (of_char (b ! i) mod modulus + bits)]"

definition DeterministicID :: "(string \<Rightarrow> string) \<Rightarrow> string list \<Rightarrow> string" where
  "DeterministicID sha256 parts =
     formatUUID (stamp 8 64 128 (stamp 6 16 128 (take 16 (sha256 (id_input parts)))))"

text \<open>
  \<open>NewID\<close> (UUIDv7): \<open>ms\<close> is the Unix time in milliseconds and \<open>draw\<close> the 10 bytes
  \<open>crypto/rand\<close> returned for \<open>b[6:]\<close>.
\<close>

definition NewID :: "nat \<Rightarrow> string \<Rightarrow> string" where
  "NewID ms draw = formatUUID (stamp 8 64 128 (stamp 6 16 112 (be_bytes 6 ms @ draw)))"

text \<open>\<open>strconv.FormatInt(n, 10)\<close>.\<close>

fun dec_digits :: "nat \<Rightarrow> string" where
  "dec_digits n = (if n < 10 then [char_of (48 + n)] else dec_digits (n div 10) @ [char_of (48 + n mod 10)])"

declare dec_digits.simps [simp del]

definition FormatInt :: "int \<Rightarrow> string" where
  "FormatInt i = (if i < 0 then ''-'' @ dec_digits (nat (- i)) else dec_digits (nat i))"

definition KafkaID :: "(string \<Rightarrow> string) \<Rightarrow> string \<Rightarrow> int \<Rightarrow> int \<Rightarrow> string" where
  "KafkaID sha256 topic part off =
     DeterministicID sha256 [''kafka'', topic, FormatInt part, FormatInt off]"

definition KafkaIDIn :: "(string \<Rightarrow> string) \<Rightarrow> string \<Rightarrow> string \<Rightarrow> int \<Rightarrow> int \<Rightarrow> string" where
  "KafkaIDIn sha256 namespace topic part off =
     (if namespace = '''' then KafkaID sha256 topic part off
      else DeterministicID sha256 [''kafka'', namespace, topic, FormatInt part, FormatInt off])"

section \<open>Requests\<close>

record LeaseRequest =
  lrBlockedOn :: string
  lrSkip :: "string list"
  lrMax :: int
  lrTTL :: duration

definition validateLease :: "LeaseRequest \<Rightarrow> goerr" where
  "validateLease req =
     (if lrMax req < 1 \<or> lrTTL req \<le> 0
      then Some (EWrap ''Max must be at least 1 and TTL positive'' [EVar ErrInvalidRequest]) else ok)"

record Lease =
  lRecord :: Record
  lToken :: string
  lUntil :: time

record NackOptions =
  nDelay :: duration
  nErr :: string
  nBlockedOn :: string
  nRefund :: bool

record RequeueOptions =
  qReplaceCheckpoint :: bool
  qCheckpoint :: bytes

record ParkedQuery =
  pqAfter :: nat
  pqLimit :: int

record StoreStats =
  stPending :: int
  stLeased :: int
  stParked :: int
  stBytes :: int
  stOldestPending :: duration
  stOldestParked :: duration
  stBlockedKeys :: int
  stByDependency :: "string \<rightharpoonup> int"

definition StoreStats_Total :: "StoreStats \<Rightarrow> int" where
  "StoreStats_Total s = stPending s + stLeased s + stParked s"

section \<open>Identifiers separate what they name\<close>

lemma length_be_bytes [simp]: "length (be_bytes k n) = k"
  by (induction k arbitrary: n) auto

lemma char_of_inj:
  fixes a b :: nat
  assumes "a < 256" and "b < 256"
  shows "(char_of a :: char) = char_of b \<longleftrightarrow> a = b"
proof
  assume "(char_of a :: char) = char_of b"
  then have "(of_char (char_of a :: char) :: nat) = of_char (char_of b :: char)" by simp
  with assms show "a = b" by simp
qed simp

lemma be_bytes_inj: "n < 256 ^ k \<Longrightarrow> m < 256 ^ k \<Longrightarrow> be_bytes k n = be_bytes k m \<Longrightarrow> n = m"
proof (induction k arbitrary: n m)
  case 0
  then show ?case by simp
next
  case (Suc k)
  have "n div 256 < 256 ^ k" and "m div 256 < 256 ^ k"
    using Suc.prems(1,2) by (auto simp: less_mult_imp_div_less mult.commute)
  moreover from Suc.prems(3) have "be_bytes k (n div 256) = be_bytes k (m div 256)"
    and "char_of (n mod 256) = (char_of (m mod 256) :: char)" by auto
  ultimately have "n div 256 = m div 256" and "n mod 256 = m mod 256"
    using Suc.IH by (auto simp: char_of_inj)
  then show ?case by (metis div_mult_mod_eq)
qed

lemma be64_inj: "n < 2 ^ 64 \<Longrightarrow> m < 2 ^ 64 \<Longrightarrow> be64 n = be64 m \<Longrightarrow> n = m"
  unfolding be64_def by (rule be_bytes_inj [of n 8 m]) auto

lemma id_input_inj:
  "\<forall>p\<in>set ps. length p < 2 ^ 64 \<Longrightarrow> \<forall>q\<in>set qs. length q < 2 ^ 64 \<Longrightarrow> id_input ps = id_input qs \<Longrightarrow> ps = qs"
proof (induction ps arbitrary: qs)
  case Nil
  then show ?case by (cases qs) (auto simp: id_input_def be64_def dest: arg_cong [of _ _ length])
next
  case (Cons p ps)
  then obtain q qs' where qs: "qs = q # qs'"
    by (cases qs) (auto simp: id_input_def be64_def dest: arg_cong [of _ _ length])
  from Cons.prems(3) qs have eq: "be64 (length p mod 2 ^ 64) @ p @ id_input ps = be64 (length q mod 2 ^ 64) @ q @ id_input qs'"
    by (simp add: id_input_def)
  then have "be64 (length p mod 2 ^ 64) = be64 (length q mod 2 ^ 64)" and rest: "p @ id_input ps = q @ id_input qs'"
    by (auto simp: be64_def append_eq_append_conv)
  with Cons.prems(1,2) qs have "length p = length q"
    using be64_inj [of "length p" "length q"] by simp
  with rest have "p = q" and "id_input ps = id_input qs'" by auto
  with Cons qs show ?case by auto
qed

lemma dec_digits_snoc: "10 \<le> n \<Longrightarrow> dec_digits n = dec_digits (n div 10) @ [char_of (48 + n mod 10)]"
  by (subst dec_digits.simps) simp

lemma dec_digits_small: "n < 10 \<Longrightarrow> dec_digits n = [char_of (48 + n)]"
  by (subst dec_digits.simps) simp

lemma dec_digits_nonempty [simp]: "dec_digits n \<noteq> []" "[] \<noteq> dec_digits n"
  by (subst dec_digits.simps, simp)+

lemma dec_digits_inj: "dec_digits n = dec_digits m \<Longrightarrow> n = m"
proof (induction n arbitrary: m rule: dec_digits.induct)
  case (1 n)
  show ?case
  proof (cases "n < 10")
    case True
    with "1.prems" show ?thesis
      by (cases "m < 10") (auto simp: dec_digits_small dec_digits_snoc char_of_inj)
  next
    case False
    with "1.prems" have m: "10 \<le> m"
      by (cases "m < 10") (auto simp: dec_digits_small dec_digits_snoc)
    with False "1.prems" have "dec_digits (n div 10) = dec_digits (m div 10)"
      and "n mod 10 = m mod 10" by (auto simp: dec_digits_snoc char_of_inj)
    with False "1.IH" have "n div 10 = m div 10" by auto
    with \<open>n mod 10 = m mod 10\<close> show ?thesis by (metis div_mult_mod_eq)
  qed
qed

lemma dec_digits_no_minus: "CHR ''-'' \<notin> set (dec_digits n)"
proof (induction n rule: dec_digits.induct)
  case (1 n)
  have "(CHR ''-'' :: char) \<noteq> char_of (48 + k)" if "k < 10" for k :: nat
  proof
    assume "(CHR ''-'' :: char) = char_of (48 + k)"
    then have "of_char (CHR ''-'' :: char) = (48 + k) mod 256" by simp
    with that show False by simp
  qed
  with 1 show ?case
    by (cases "n < 10") (auto simp: dec_digits_small dec_digits_snoc)
qed

lemma FormatInt_inj: "FormatInt a = FormatInt b \<Longrightarrow> a = b"
  using dec_digits_no_minus
  by (auto simp: FormatInt_def split: if_splits dest!: dec_digits_inj) (metis list.set_intros(1))+

lemma FormatInt_length: "length (dec_digits n) \<le> Suc n"
proof (induction n rule: dec_digits.induct)
  case (1 n)
  show ?case
  proof (cases "n < 10")
    case False
    with 1 have "length (dec_digits (n div 10)) \<le> Suc (n div 10)" by simp
    moreover have "Suc (n div 10) \<le> n" using False by arith
    ultimately show ?thesis using False by (simp add: dec_digits_snoc)
  qed (simp add: dec_digits_small)
qed

end
