(* ===== verification/GG_Machine.thy ===== *)
theory GG_Machine
  imports GG_Record "HOL-Library.AList"
begin

text \<open>
  The queue's state machine (\<open>dlq/machine.go\<close>), operation by operation.

  A Go \<open>*memItem\<close> is a pointer: the same item hangs in the \<open>items\<close> map, the \<open>order\<close> list, its
  order-key list and its group or the parked list, and a change through one is seen through all.
  The model therefore keeps an explicit heap: a pointer is a number, \<open>heap\<close> gives the item it
  points to, and the lists hold pointers.  A \<open>*list.Element\<close> (\<open>el\<close>, \<open>gel\<close>, \<open>hint\<close>) is the
  pointer it carries, because an item occurs at most once in a list; a \<open>*group\<close> held by an item is
  the group's dependency name.  \<open>items\<close> is an association list so that \<open>len(m.items)\<close> computes.
  Go iterates a map in an unspecified order: the operations that range over \<open>groups\<close> take that
  order as an argument, and what they return is shown not to depend on it.
\<close>

section \<open>State\<close>

type_synonym ptr = nat

record blobRef =
  brKind :: nat
  brSigned :: bool
  brSnap :: bool
  brFile :: nat
  brOff :: int
  brN :: int

definition zero_ref :: blobRef where
  "zero_ref = \<lparr>brKind = 0, brSigned = False, brSnap = False, brFile = 0, brOff = 0, brN = 0\<rparr>"

record limits =
  maxRecords :: int
  maxBytes :: int
  maxRecordBytes :: int

record memItem =
  irec :: Record
  token :: string
  leaseUntil :: time
  isize :: int
  bodyRef :: blobRef
  ckptRef :: blobRef
  bodyN :: int
  ckptN :: int
  grp :: "string option"
  reserved :: bool
  ver :: nat

definition zero_item :: memItem where
  "zero_item = \<lparr>irec = zero_record, token = '''', leaseUntil = zero_time, isize = 0, bodyRef = zero_ref,
     ckptRef = zero_ref, bodyN = 0, ckptN = 0, grp = None, reserved = False, ver = 0\<rparr>"

record group =
  dep :: string
  gitems :: "ptr list"
  hint :: "ptr option"
  wake :: time

record machine =
  lim :: limits
  items :: "(string \<times> ptr) list"
  order :: "ptr list"
  byKey :: "string \<rightharpoonup> ptr list"
  seq :: nat
  mbytes :: int
  groups :: "string \<rightharpoonup> group"
  parked :: "ptr list"
  parkedHint :: "ptr option"
  counts :: "State \<Rightarrow> int"
  heap :: "ptr \<Rightarrow> memItem"
  nextPtr :: ptr

definition maxWakeSkew :: duration where "maxWakeSkew = second"
definition maxParkedPageBytes :: int where "maxParkedPageBytes = 32 * 2 ^ 20"

definition newMachine :: "limits \<Rightarrow> machine" where
  "newMachine l = \<lparr>lim = l, items = [], order = [], byKey = Map.empty, seq = 0, mbytes = 0,
     groups = Map.empty, parked = [], parkedHint = None, counts = (\<lambda>_. 0), heap = (\<lambda>_. zero_item),
     nextPtr = 0\<rparr>"

text \<open>Reading and writing through a pointer.\<close>

abbreviation rec_at :: "machine \<Rightarrow> ptr \<Rightarrow> Record" where
  "rec_at m p \<equiv> irec (heap m p)"

abbreviation seq_at :: "machine \<Rightarrow> ptr \<Rightarrow> nat" where
  "seq_at m p \<equiv> rSeq (irec (heap m p))"

abbreviation state_at :: "machine \<Rightarrow> ptr \<Rightarrow> State" where
  "state_at m p \<equiv> rState (irec (heap m p))"

definition upd_item :: "(memItem \<Rightarrow> memItem) \<Rightarrow> ptr \<Rightarrow> machine \<Rightarrow> machine" where
  "upd_item f p m = m\<lparr>heap := (heap m)(p := f (heap m p))\<rparr>"

definition upd_rec :: "(Record \<Rightarrow> Record) \<Rightarrow> ptr \<Rightarrow> machine \<Rightarrow> machine" where
  "upd_rec f p m = upd_item (\<lambda>it. it\<lparr>irec := f (irec it)\<rparr>) p m"

definition lookup :: "machine \<Rightarrow> string \<Rightarrow> ptr option" where
  "lookup m k = map_of (items m) k"

definition unlease :: "ptr \<Rightarrow> machine \<Rightarrow> machine" where
  "unlease p m = upd_item (\<lambda>it. it\<lparr>token := '''', leaseUntil := zero_time\<rparr>) p m"

section \<open>The index\<close>

text \<open>\<open>container/list\<close>: the element after one, and insertion after one.\<close>

fun list_next :: "'a list \<Rightarrow> 'a \<Rightarrow> 'a option" where
  "list_next [] h = None"
| "list_next (x # xs) h = (if x = h then (case xs of [] \<Rightarrow> None | y # _ \<Rightarrow> Some y) else list_next xs h)"

fun insert_after :: "'a \<Rightarrow> 'a \<Rightarrow> 'a list \<Rightarrow> 'a list" where
  "insert_after x h [] = []"
| "insert_after x h (y # ys) = (if y = h then y # x # ys else y # insert_after x h ys)"

definition InsertAfter :: "'a \<Rightarrow> 'a \<Rightarrow> 'a list \<Rightarrow> 'a list \<times> 'a option" where
  "InsertAfter x h l = (if h \<in> set l then (insert_after x h l, Some x) else (l, None))"

text \<open>
  \<open>insertOrdered\<close> returns the list and the new hint.  The walk from the back stops at the last
  element whose sequence number is not greater.
\<close>

definition insertOrdered :: "(ptr \<Rightarrow> nat) \<Rightarrow> ptr list \<Rightarrow> ptr \<Rightarrow> ptr option \<Rightarrow> ptr list \<times> ptr option" where
  "insertOrdered sq l p h =
     (let s = sq p;
          slow = (case l of
             [] \<Rightarrow> (p # l, Some p)
           | f # _ \<Rightarrow> if s < sq f then (p # l, Some p)
                      else (case find (\<lambda>e. \<not> s < sq e) (rev l) of
                              None \<Rightarrow> (p # l, Some p)
                            | Some e \<Rightarrow> InsertAfter p e l))
      in case h of
           None \<Rightarrow> slow
         | Some h' \<Rightarrow>
             if sq h' < s \<and> (case list_next l h' of None \<Rightarrow> True | Some n \<Rightarrow> s < sq n)
             then InsertAfter p h' l else slow)"

definition clear_wake :: "string \<Rightarrow> machine \<Rightarrow> machine" where
  "clear_wake d m = (case groups m d of None \<Rightarrow> m
     | Some g \<Rightarrow> m\<lparr>groups := (groups m)(d \<mapsto> g\<lparr>wake := zero_time\<rparr>)\<rparr>)"

definition add_count :: "State \<Rightarrow> int \<Rightarrow> machine \<Rightarrow> machine" where
  "add_count s n m = m\<lparr>counts := (counts m)(s := counts m s + n)\<rparr>"

definition link :: "ptr \<Rightarrow> machine \<Rightarrow> machine" where
  "link p m0 =
     (let m = add_count (state_at m0 p) 1 m0 in
      if state_at m p = Parked
      then (let (l, h) = insertOrdered (seq_at m) (parked m) p (parkedHint m)
            in upd_item (\<lambda>it. it\<lparr>grp := None\<rparr>) p (m\<lparr>parked := l, parkedHint := h\<rparr>))
      else (let d = rBlockedOn (rec_at m p);
                g = (case groups m d of Some g \<Rightarrow> g
                     | None \<Rightarrow> \<lparr>dep = d, gitems = [], hint = None, wake = zero_time\<rparr>);
                (l, h) = insertOrdered (seq_at m) (gitems g) p (hint g)
            in upd_item (\<lambda>it. it\<lparr>grp := Some d\<rparr>) p
                 (m\<lparr>groups := (groups m)(d \<mapsto> g\<lparr>gitems := l, hint := h, wake := zero_time\<rparr>)\<rparr>)))"

definition unlink :: "ptr \<Rightarrow> machine \<Rightarrow> machine" where
  "unlink p m0 =
     (let m = add_count (state_at m0 p) (- 1) m0 in
      upd_item (\<lambda>it. it\<lparr>grp := None\<rparr>) p
       (case grp (heap m p) of
          Some d \<Rightarrow>
            (case groups m d of
               None \<Rightarrow> m
             | Some g \<Rightarrow>
                 (let g' = g\<lparr>hint := (if hint g = Some p then None else hint g),
                             gitems := remove1 p (gitems g), wake := zero_time\<rparr>
                  in if gitems g' = [] then m\<lparr>groups := (groups m)(dep g := None)\<rparr>
                     else m\<lparr>groups := (groups m)(d \<mapsto> g')\<rparr>))
        | None \<Rightarrow> m\<lparr>parkedHint := (if parkedHint m = Some p then None else parkedHint m),
                    parked := remove1 p (parked m)\<rparr>))"

definition move :: "ptr \<Rightarrow> State \<Rightarrow> string \<Rightarrow> machine \<Rightarrow> machine" where
  "move p s d m0 =
     (let m = upd_item (\<lambda>it. it\<lparr>ver := Suc (ver it)\<rparr>) p m0 in
      case grp (heap m p) of
        Some gd \<Rightarrow>
          if s \<noteq> Parked \<and> rBlockedOn (rec_at m p) = d
          then clear_wake gd
                 (upd_rec (\<lambda>r. r\<lparr>rState := s\<rparr>) p (add_count s 1 (add_count (state_at m p) (- 1) m)))
          else link p (upd_rec (\<lambda>r. r\<lparr>rState := s, rBlockedOn := d\<rparr>) p (unlink p m))
      | None \<Rightarrow> link p (upd_rec (\<lambda>r. r\<lparr>rState := s, rBlockedOn := d\<rparr>) p (unlink p m)))"

section \<open>Appending\<close>

datatype prepared = PrepErr gerror | PrepDup | PrepNew Record

definition len_items :: "machine \<Rightarrow> int" where
  "len_items m = int (length (items m))"

definition prepare :: "machine \<Rightarrow> Record \<Rightarrow> time \<Rightarrow> prepared" where
  "prepare m r now =
     (case Validate r of
        Some e \<Rightarrow> PrepErr e
      | None \<Rightarrow>
         (if rState r \<noteq> Pending \<and> rState r \<noteq> Parked
          then PrepErr (EWrap ''unknown state'' [EVar ErrInvalidRecord])
          else if 0 < maxRecordBytes (lim m) \<and> maxRecordBytes (lim m) < Size r
          then PrepErr (EWrap ''record is too large'' [EVar ErrInvalidRecord])
          else if lookup m (rID r) \<noteq> None then PrepDup
          else if 0 < maxRecords (lim m) \<and> maxRecords (lim m) \<le> len_items m then PrepErr (EVar ErrFull)
          else if 0 < maxBytes (lim m) \<and> maxBytes (lim m) < mbytes m + Size r then PrepErr (EVar ErrFull)
          else
            (let r1 = (Clone r)\<lparr>rSeq := seq m + 1\<rparr>;
                 r2 = (if IsZero (rFirstFailed r1) then r1\<lparr>rFirstFailed := now\<rparr> else r1);
                 r3 = (if IsZero (rLastFailed r2) then r2\<lparr>rLastFailed := rFirstFailed r2\<rparr> else r2);
                 r4 = (if rSchemaVersion r3 = 0 then r3\<lparr>rSchemaVersion := CurrentSchema\<rparr> else r3)
             in PrepNew r4)))"

text \<open>What \<open>insert\<close> and \<open>insertOffloaded\<close> share: a new item \<open>it\<close> enters every structure.\<close>

definition enter :: "memItem \<Rightarrow> machine \<Rightarrow> machine" where
  "enter it m =
     (let p = nextPtr m;
          r = irec it;
          m1 = m\<lparr>nextPtr := Suc p, heap := (heap m)(p := it), order := order m @ [p],
                 items := AList.update (rID r) p (items m)\<rparr>;
          m2 = link p m1;
          m3 = (if rOrderKey r = '''' then m2
                else m2\<lparr>byKey := (byKey m2)(rOrderKey r \<mapsto>
                       (case byKey m2 (rOrderKey r) of None \<Rightarrow> [] | Some l \<Rightarrow> l) @ [p])\<rparr>)
      in m3\<lparr>mbytes := mbytes m3 + isize it, seq := (if seq m3 < rSeq r then rSeq r else seq m3)\<rparr>)"

definition machine_insert :: "Record \<Rightarrow> machine \<Rightarrow> machine" where
  "machine_insert r m =
     (if lookup m (rID r) \<noteq> None then m
      else enter (zero_item\<lparr>irec := r, isize := Size r\<rparr>) m)"

definition bodySize :: "Record \<Rightarrow> int" where
  "bodySize r = blen (rKey r) + blen (rValue r) + headers_size (rHeaders r)"

definition insertOffloaded :: "Record \<Rightarrow> blobRef \<Rightarrow> machine \<Rightarrow> machine" where
  "insertOffloaded r body m =
     (if lookup m (rID r) \<noteq> None then m
      else enter (zero_item\<lparr>isize := Size r, bodyRef := body, bodyN := bodySize r, ckptN := blen (rCheckpoint r),
                    ckptRef := (if rCheckpoint r \<noteq> None then body else zero_ref),
                    irec := r\<lparr>rKey := None, rValue := None, rHeaders := [], rCheckpoint := None\<rparr>\<rparr>) m)"

section \<open>Leasing\<close>

text \<open>
  The item at the head of an order key's list.  Go indexes the list directly; it is never empty for
  the key of a stored item.
\<close>

definition key_head :: "machine \<Rightarrow> string \<Rightarrow> ptr option" where
  "key_head m k = (case byKey m k of Some (q # _) \<Rightarrow> Some q | _ \<Rightarrow> None)"

definition eligible :: "machine \<Rightarrow> ptr \<Rightarrow> time \<Rightarrow> bool" where
  "eligible m p now =
     (let it = heap m p; r = irec it in
      if reserved it then False
      else if rState r = Parked then False
      else if rState r = Pending \<and> now < rNextAttempt r then False
      else if rState r = Leased \<and> now < leaseUntil it then False
      else if rOrderKey r \<noteq> '''' \<and> key_head m (rOrderKey r) \<noteq> Some p then False
      else True)"

text \<open>When an item that is not eligible could become so by the passing of time.\<close>

definition due_time :: "machine \<Rightarrow> ptr \<Rightarrow> time" where
  "due_time m p = (case state_at m p of Pending \<Rightarrow> rNextAttempt (rec_at m p)
     | Leased \<Rightarrow> leaseUntil (heap m p) | _ \<Rightarrow> zero_time)"

fun scan_loop :: "machine \<Rightarrow> time \<Rightarrow> int \<Rightarrow> ptr list \<Rightarrow> ptr list \<Rightarrow> time \<Rightarrow> ptr list \<times> time" where
  "scan_loop m now mx [] out nxt = (out, nxt)"
| "scan_loop m now mx (p # ps) out nxt =
     (if eligible m p now
      then (let out' = out @ [p] in
            if int (length out') = mx then (out', nxt) else scan_loop m now mx ps out' nxt)
      else (let t = due_time m p in
            scan_loop m now mx ps out
              (if now < t \<and> (IsZero nxt \<or> t < nxt) then t else nxt)))"

definition scanGroup :: "string \<Rightarrow> time \<Rightarrow> int \<Rightarrow> machine \<Rightarrow> ptr list \<times> machine" where
  "scanGroup d now mx m =
     (case groups m d of
        None \<Rightarrow> ([], m)
      | Some g \<Rightarrow>
          (let (out, nxt) = scan_loop m now mx (gitems g) [] zero_time;
               limit = now + maxWakeSkew
           in if out = []
              then ([], m\<lparr>groups := (groups m)(d \<mapsto>
                     g\<lparr>wake := (if IsZero nxt \<or> limit < nxt then limit else nxt)\<rparr>)\<rparr>)
              else (out, m)))"

text \<open>\<open>consider\<close> of \<open>selectLease\<close>, for one dependency.\<close>

definition consider_group ::
  "time \<Rightarrow> LeaseRequest \<Rightarrow> string \<Rightarrow> ptr list list \<times> machine \<Rightarrow> ptr list list \<times> machine" where
  "consider_group now req d acc =
     (let (lists, m) = acc in
      case groups m d of
        None \<Rightarrow> acc
      | Some g \<Rightarrow>
          if d \<in> set (lrSkip req) then acc
          else if \<not> IsZero (wake g) \<and> now < wake g then acc
          else (let (out, m') = scanGroup d now (lrMax req) m
                in if out = [] then (lists, m') else (lists @ [out], m')))"

text \<open>The index of the list whose head has the lowest sequence number, the first one on a tie.\<close>

fun best_list :: "(ptr \<Rightarrow> nat) \<Rightarrow> ptr list list \<Rightarrow> nat option" where
  "best_list sq [] = None"
| "best_list sq (l # ls) =
     (case best_list sq ls of
        None \<Rightarrow> if l = [] then None else Some 0
      | Some i \<Rightarrow> if l \<noteq> [] \<and> sq (hd l) \<le> sq (hd (ls ! i)) then Some 0 else Some (Suc i))"

fun merge_lists :: "(ptr \<Rightarrow> nat) \<Rightarrow> nat \<Rightarrow> ptr list list \<Rightarrow> ptr list" where
  "merge_lists sq 0 ls = []"
| "merge_lists sq (Suc n) ls =
     (case best_list sq ls of
        None \<Rightarrow> []
      | Some i \<Rightarrow> hd (ls ! i) # merge_lists sq n (ls[i := tl (ls ! i)]))"

text \<open>\<open>ks\<close> is the order in which Go happens to range over \<open>m.groups\<close>.\<close>

definition selectLease :: "string list \<Rightarrow> time \<Rightarrow> LeaseRequest \<Rightarrow> machine \<Rightarrow> ptr list \<times> machine" where
  "selectLease ks now req m =
     (let (lists, m') = (if lrBlockedOn req \<noteq> '''' then consider_group now req (lrBlockedOn req) ([], m)
                         else fold (consider_group now req) ks ([], m))
      in (merge_lists (seq_at m') (nat (lrMax req)) lists, m'))"

definition reserve :: "ptr \<Rightarrow> machine \<Rightarrow> machine" where
  "reserve p m = upd_item (\<lambda>it. it\<lparr>reserved := True\<rparr>) p m"

definition unreserve :: "ptr \<Rightarrow> machine \<Rightarrow> machine" where
  "unreserve p m =
     (if \<not> reserved (heap m p) then m
      else (let m' = upd_item (\<lambda>it. it\<lparr>reserved := False\<rparr>) p m
            in case grp (heap m' p) of None \<Rightarrow> m' | Some d \<Rightarrow> clear_wake d m'))"

text \<open>One round of \<open>grant\<close>; \<open>tok\<close> is the fresh token.\<close>

definition grant_one :: "ptr \<Rightarrow> string \<Rightarrow> time \<Rightarrow> duration \<Rightarrow> machine \<Rightarrow> machine" where
  "grant_one p tok now ttl m =
     upd_rec (\<lambda>r. r\<lparr>rAttempts := rAttempts r + 1\<rparr>) p
       (move p Leased (rBlockedOn (rec_at m p))
         (upd_item (\<lambda>it. it\<lparr>token := tok, leaseUntil := now + ttl\<rparr>) p m))"

fun grant :: "ptr list \<Rightarrow> string list \<Rightarrow> time \<Rightarrow> duration \<Rightarrow> machine \<Rightarrow> Lease list \<times> machine" where
  "grant (p # ps) (draw # draws) now ttl m =
     (let m' = grant_one p (newToken draw) now ttl m;
          l = \<lparr>lRecord = Clone (rec_at m' p), lToken = token (heap m' p), lUntil = leaseUntil (heap m' p)\<rparr>;
          (ls, m'') = grant ps draws now ttl m'
      in (l # ls, m''))"
| "grant _ _ now ttl m = ([], m)"

definition held :: "machine \<Rightarrow> string \<Rightarrow> string \<Rightarrow> gerror + ptr" where
  "held m i tok =
     (case lookup m i of
        None \<Rightarrow> Inl (EVar ErrNotFound)
      | Some p \<Rightarrow>
          if state_at m p \<noteq> Leased \<or> token (heap m p) = '''' \<or> token (heap m p) \<noteq> tok
          then Inl (EVar ErrLeaseLost) else Inr p)"

section \<open>Settling\<close>

definition resize :: "ptr \<Rightarrow> machine \<Rightarrow> machine" where
  "resize p m =
     (let it = heap m p; n = Size (irec it) + bodyN it + ckptN it
      in upd_item (\<lambda>it. it\<lparr>isize := n\<rparr>) p (m\<lparr>mbytes := mbytes m + (n - isize it)\<rparr>))"

definition machine_remove :: "ptr \<Rightarrow> machine \<Rightarrow> machine" where
  "machine_remove p m0 =
     (let m1 = unlink p (upd_item (\<lambda>it. it\<lparr>ver := Suc (ver it)\<rparr>) p m0);
          r = rec_at m1 p;
          m2 = m1\<lparr>order := remove1 p (order m1), items := AList.delete (rID r) (items m1),
                  mbytes := mbytes m1 - isize (heap m1 p)\<rparr>
      in if rOrderKey r = '''' then m2
         else (let k = rOrderKey r;
                   l = (case byKey m2 k of None \<Rightarrow> [] | Some l \<Rightarrow> l);
                   l' = remove1 p l;
                   m3 = (if l \<noteq> [] \<and> hd l = p \<and> l' \<noteq> []
                         then (case grp (heap m2 (hd l')) of None \<Rightarrow> m2 | Some d \<Rightarrow> clear_wake d m2)
                         else m2)
               in m3\<lparr>byKey := (if l' = [] then (byKey m3)(k := None) else (byKey m3)(k \<mapsto> l'))\<rparr>))"

definition checkCheckpoint :: "machine \<Rightarrow> ptr \<Rightarrow> bytes \<Rightarrow> goerr" where
  "checkCheckpoint m p cp =
     (let it = heap m p; grow = blen cp - blen (rCheckpoint (irec it)) - ckptN it in
      if 0 < maxBytes (lim m) \<and> 0 < grow \<and> maxBytes (lim m) < mbytes m + grow then Some (EVar ErrFull)
      else if 0 < maxRecordBytes (lim m) \<and> maxRecordBytes (lim m) < isize it + grow
      then Some (EWrap ''checkpoint would exceed the record size limit'' [EVar ErrInvalidRecord])
      else ok)"

definition setCheckpoint :: "ptr \<Rightarrow> bytes \<Rightarrow> machine \<Rightarrow> machine" where
  "setCheckpoint p cp m =
     resize p (upd_item (\<lambda>it. it\<lparr>ver := Suc (ver it), irec := (irec it)\<lparr>rCheckpoint := cloneBytes cp\<rparr>,
                                 ckptRef := zero_ref, ckptN := 0\<rparr>) p m)"

definition setCheckpointRef :: "ptr \<Rightarrow> int \<Rightarrow> blobRef \<Rightarrow> machine \<Rightarrow> machine" where
  "setCheckpointRef p n ref m =
     resize p (upd_item (\<lambda>it. it\<lparr>ver := Suc (ver it), irec := (irec it)\<lparr>rCheckpoint := None\<rparr>,
                                 ckptRef := ref, ckptN := n\<rparr>) p m)"

definition applyNack :: "ptr \<Rightarrow> time \<Rightarrow> time \<Rightarrow> string \<Rightarrow> string \<Rightarrow> bool \<Rightarrow> machine \<Rightarrow> machine" where
  "applyNack p failedAt nxt errText blockedOn refund m =
     (let d = (if blockedOn \<noteq> '''' then blockedOn else rBlockedOn (rec_at m p))
      in resize p (unlease p
           (upd_rec (\<lambda>r. (if refund \<and> 0 < rAttempts r then r\<lparr>rAttempts := rAttempts r - 1\<rparr> else r)
                          \<lparr>rLastFailed := failedAt, rNextAttempt := nxt, rLastError := errText\<rparr>) p
             (move p Pending d m))))"

definition applyRelease :: "ptr \<Rightarrow> machine \<Rightarrow> machine" where
  "applyRelease p m =
     unlease p (upd_rec (\<lambda>r. if 0 < rAttempts r then r\<lparr>rAttempts := rAttempts r - 1\<rparr> else r) p
       (move p Pending (rBlockedOn (rec_at m p)) m))"

definition applyPark :: "ptr \<Rightarrow> time \<Rightarrow> string \<Rightarrow> machine \<Rightarrow> machine" where
  "applyPark p failedAt reason m =
     resize p (unlease p (upd_rec (\<lambda>r. r\<lparr>rLastFailed := failedAt, rLastError := reason\<rparr>) p
       (move p Parked (rBlockedOn (rec_at m p)) m)))"

definition applyRequeue :: "ptr \<Rightarrow> bool \<Rightarrow> bytes \<Rightarrow> machine \<Rightarrow> machine" where
  "applyRequeue p replace cp m =
     (let m' = upd_rec (\<lambda>r. r\<lparr>rAttempts := 0, rNextAttempt := zero_time\<rparr>) p
                 (move p Pending (rBlockedOn (rec_at m p)) m)
      in if replace then setCheckpoint p cp m' else m')"

section \<open>Inspection\<close>

fun parked_loop :: "machine \<Rightarrow> nat \<Rightarrow> int \<Rightarrow> ptr list \<Rightarrow> ptr list \<Rightarrow> int \<Rightarrow> ptr list" where
  "parked_loop m after limit [] out b = out"
| "parked_loop m after limit (p # ps) out b =
     (if \<not> int (length out) < limit then out
      else if seq_at m p \<le> after then parked_loop m after limit ps out b
      else if out \<noteq> [] \<and> maxParkedPageBytes < b + isize (heap m p) then out
      else parked_loop m after limit ps (out @ [p]) (b + isize (heap m p)))"

definition parkedItems :: "machine \<Rightarrow> nat \<Rightarrow> int \<Rightarrow> ptr list" where
  "parkedItems m after limit0 =
     (let limit1 = (if limit0 \<le> 0 then 100 else limit0);
          limit = (if 1000 < limit1 then 1000 else limit1)
      in parked_loop m after limit (parked m) [] 0)"

definition parkedList :: "machine \<Rightarrow> nat \<Rightarrow> int \<Rightarrow> Record list" where
  "parkedList m after limit = map (\<lambda>p. Clone (rec_at m p)) (parkedItems m after limit)"

definition hasOrderKey :: "machine \<Rightarrow> string \<Rightarrow> bool" where
  "hasOrderKey m k \<longleftrightarrow> k \<noteq> '''' \<and> (case byKey m k of None \<Rightarrow> False | Some l \<Rightarrow> l \<noteq> [])"

text \<open>The oldest pending item, ranging over the groups in the order \<open>ks\<close>.\<close>

definition oldest_step :: "machine \<Rightarrow> string \<Rightarrow> ptr option \<Rightarrow> ptr option" where
  "oldest_step m d oldest =
     (case groups m d of None \<Rightarrow> oldest
      | Some g \<Rightarrow>
         (case find (\<lambda>p. state_at m p = Pending) (gitems g) of
            None \<Rightarrow> oldest
          | Some p \<Rightarrow> (case oldest of None \<Rightarrow> Some p
                       | Some q \<Rightarrow> if seq_at m p < seq_at m q then Some p else Some q)))"

definition machine_stats :: "string list \<Rightarrow> machine \<Rightarrow> time \<Rightarrow> StoreStats" where
  "machine_stats ks m now =
     \<lparr>stPending = counts m Pending, stLeased = counts m Leased, stParked = counts m Parked,
      stBytes = mbytes m,
      stOldestPending = (case fold (oldest_step m) ks None of None \<Rightarrow> 0
                         | Some p \<Rightarrow> time_sub now (rFirstFailed (rec_at m p))),
      stOldestParked = (case parked m of [] \<Rightarrow> 0 | p # _ \<Rightarrow> time_sub now (rFirstFailed (rec_at m p))),
      stBlockedKeys = int (length (filter (\<lambda>p. rOrderKey (rec_at m p) \<noteq> '''' \<and>
                             key_head m (rOrderKey (rec_at m p)) = Some p) (parked m))),
      stByDependency = (\<lambda>d. if d = '''' then None else map_option (\<lambda>g. int (length (gitems g))) (groups m d))\<rparr>"

section \<open>Replay\<close>

definition with_item :: "(ptr \<Rightarrow> machine \<Rightarrow> machine) \<Rightarrow> string \<Rightarrow> machine \<Rightarrow> machine" where
  "with_item f i m = (case lookup m i of None \<Rightarrow> m | Some p \<Rightarrow> f p m)"

definition replayLease :: "string \<Rightarrow> machine \<Rightarrow> machine" where
  "replayLease i m = with_item (\<lambda>p m. move p Leased (rBlockedOn (rec_at m p))
     (upd_rec (\<lambda>r. r\<lparr>rAttempts := rAttempts r + 1\<rparr>) p m)) i m"

definition replayAck :: "string \<Rightarrow> machine \<Rightarrow> machine" where
  "replayAck i m = with_item machine_remove i m"

definition replayNack :: "string \<Rightarrow> time \<Rightarrow> time \<Rightarrow> string \<Rightarrow> string \<Rightarrow> bool \<Rightarrow> machine \<Rightarrow> machine" where
  "replayNack i failedAt nxt errText blockedOn refund m =
     with_item (\<lambda>p m. applyNack p failedAt nxt errText blockedOn refund m) i m"

definition replayRelease :: "string \<Rightarrow> machine \<Rightarrow> machine" where
  "replayRelease i m = with_item applyRelease i m"

definition replayPark :: "string \<Rightarrow> time \<Rightarrow> string \<Rightarrow> machine \<Rightarrow> machine" where
  "replayPark i failedAt reason m = with_item (\<lambda>p m. applyPark p failedAt reason m) i m"

definition replayDiscard :: "string \<Rightarrow> machine \<Rightarrow> machine" where
  "replayDiscard i m = with_item (\<lambda>p m. if state_at m p = Parked then machine_remove p m else m) i m"

definition end_lease :: "ptr \<Rightarrow> machine \<Rightarrow> machine" where
  "end_lease p m = (if state_at m p = Leased
     then unlease p (move p Pending (rBlockedOn (rec_at m p)) m) else m)"

definition endReplay :: "machine \<Rightarrow> machine" where
  "endReplay m = fold end_lease (order m) m"

end
