(* ===== verification/GG_Machine_Wf.thy ===== *)
theory GG_Machine_Wf
  imports GG_Machine
begin

text \<open>
  The well-formedness invariant of the queue's state machine and its preservation: every index
  (groups, parked list, order-key lists, counters, byte total, wake times) agrees with the items in
  \<open>order\<close>.  The index is described over a set \<open>A\<close> of linked items, so that the half-way states
  inside \<open>move\<close> and \<open>remove\<close> (an item taken out of its group and not yet put back) are covered.
\<close>

section \<open>Ordered insertion\<close>

lemma list_next_split: "distinct (xs @ h # ys) \<Longrightarrow> list_next (xs @ h # ys) h = (case ys of [] \<Rightarrow> None | y # _ \<Rightarrow> Some y)"
  by (induction xs) auto

lemma insert_after_split: "h \<notin> set xs \<Longrightarrow> insert_after x h (xs @ h # ys) = xs @ h # x # ys"
  by (induction xs) auto

lemma InsertAfter_sorted:
  assumes l: "ksorted sq (xs @ h # ys)" and h: "sq h < sq p" and ys: "\<forall>y\<in>set ys. sq p < sq y"
  shows "ksorted sq (fst (InsertAfter p h (xs @ h # ys)))"
    and "set (fst (InsertAfter p h (xs @ h # ys))) = insert p (set (xs @ h # ys))"
    and "snd (InsertAfter p h (xs @ h # ys)) = Some p"
proof -
  have "h \<notin> set xs" using ksorted_distinct [OF l] by auto
  then have ia: "InsertAfter p h (xs @ h # ys) = (xs @ h # p # ys, Some p)"
    by (simp add: InsertAfter_def insert_after_split)
  have "\<forall>x\<in>set xs. sq x < sq p" using l h by fastforce
  then show "ksorted sq (fst (InsertAfter p h (xs @ h # ys)))" using l h ys ia by auto
  show "set (fst (InsertAfter p h (xs @ h # ys))) = insert p (set (xs @ h # ys))" using ia by auto
  show "snd (InsertAfter p h (xs @ h # ys)) = Some p" using ia by simp
qed

lemma find_last:
  "find P (rev l) = Some e \<Longrightarrow> \<exists>xs ys. l = xs @ e # ys \<and> P e \<and> (\<forall>y\<in>set ys. \<not> P y)"
proof (induction l rule: rev_induct)
  case (snoc x l)
  show ?case
  proof (cases "P x")
    case True
    with snoc.prems show ?thesis by (intro exI [of _ l] exI [of _ "[]"]) auto
  next
    case False
    with snoc obtain xs ys where "l = xs @ e # ys" "P e" "\<forall>y\<in>set ys. \<not> P y" by auto
    with False show ?thesis by (intro exI [of _ xs] exI [of _ "ys @ [x]"]) auto
  qed
qed simp

lemma ksorted_tail_above:
  "ksorted sq (xs @ h # ys) \<Longrightarrow> (case ys of [] \<Rightarrow> True | y # _ \<Rightarrow> (s::nat) < sq y) \<Longrightarrow> \<forall>y\<in>set ys. s < sq y"
  by (cases ys) (auto intro: less_trans)

text \<open>
  Whatever its hint, \<open>insertOrdered\<close> puts the item at its place in sequence order: the hint only
  saves the walk.
\<close>

lemma insertOrdered_spec:
  assumes l: "ksorted sq l" and fresh: "\<forall>q\<in>set l. sq q \<noteq> sq p" and h: "\<forall>h'. h = Some h' \<longrightarrow> h' \<in> set l"
  shows "ksorted sq (fst (insertOrdered sq l p h)) \<and> set (fst (insertOrdered sq l p h)) = insert p (set l)
    \<and> snd (insertOrdered sq l p h) = Some p"
proof -
  define slow where "slow = (case l of [] \<Rightarrow> (p # l, Some p)
     | f # _ \<Rightarrow> if sq p < sq f then (p # l, Some p)
                else (case find (\<lambda>e. \<not> sq p < sq e) (rev l) of None \<Rightarrow> (p # l, Some p) | Some e \<Rightarrow> InsertAfter p e l))"
  have slow: "ksorted sq (fst slow) \<and> set (fst slow) = insert p (set l) \<and> snd slow = Some p"
  proof (cases "l = [] \<or> sq p < sq (hd l)")
    case True
    with l show ?thesis by (cases l) (auto simp: slow_def intro: less_trans)
  next
    case False
    then obtain f fs where lf: "l = f # fs" and "\<not> sq p < sq f" by (cases l) auto
    then have "find (\<lambda>e. \<not> sq p < sq e) (rev l) \<noteq> None" by (auto simp: find_None_iff)
    then obtain e where e: "find (\<lambda>e. \<not> sq p < sq e) (rev l) = Some e" by auto
    from find_last [OF e] obtain xs ys where split: "l = xs @ e # ys" "\<not> sq p < sq e" "\<forall>y\<in>set ys. sq p < sq y"
      by auto
    with fresh have "sq e < sq p" by (auto simp: not_less le_less)
    with InsertAfter_sorted [of sq xs e ys p] l split have "ksorted sq (fst (InsertAfter p e l))
      \<and> set (fst (InsertAfter p e l)) = insert p (set l) \<and> snd (InsertAfter p e l) = Some p" by auto
    moreover have "slow = InsertAfter p e l" using False e lf by (simp add: slow_def)
    ultimately show ?thesis by simp
  qed
  show ?thesis
  proof (cases "\<exists>h'. h = Some h' \<and> sq h' < sq p \<and> (case list_next l h' of None \<Rightarrow> True | Some n \<Rightarrow> sq p < sq n)")
    case True
    then obtain h' where h': "h = Some h'" "sq h' < sq p" "case list_next l h' of None \<Rightarrow> True | Some n \<Rightarrow> sq p < sq n"
      by auto
    with h obtain xs ys where split: "l = xs @ h' # ys" by (metis split_list)
    have "case ys of [] \<Rightarrow> True | y # _ \<Rightarrow> sq p < sq y"
      using h'(3) list_next_split [of xs h' ys] ksorted_distinct [OF l] unfolding split by (cases ys) auto
    then have "\<forall>y\<in>set ys. sq p < sq y" using ksorted_tail_above [of sq xs h' ys "sq p"] l split by simp
    then have "ksorted sq (fst (InsertAfter p h' l)) \<and> set (fst (InsertAfter p h' l)) = insert p (set l)
      \<and> snd (InsertAfter p h' l) = Some p"
      using InsertAfter_sorted [of sq xs h' ys p] l h'(2) unfolding split by blast
    moreover have "insertOrdered sq l p h = InsertAfter p h' l"
      using h' by (simp add: insertOrdered_def Let_def)
    ultimately show ?thesis by simp
  next
    case False
    then have "insertOrdered sq l p h = slow"
      by (cases h) (auto simp: insertOrdered_def slow_def Let_def)
    with slow show ?thesis by simp
  qed
qed

lemmas insertOrdered_sorted = insertOrdered_spec [THEN conjunct1]
lemmas insertOrdered_set = insertOrdered_spec [THEN conjunct2, THEN conjunct1]
lemmas insertOrdered_hint = insertOrdered_spec [THEN conjunct2, THEN conjunct2]

section \<open>The invariant\<close>

definition in_group :: "machine \<Rightarrow> string \<Rightarrow> ptr \<Rightarrow> bool" where
  "in_group m d p \<longleftrightarrow> state_at m p \<noteq> Parked \<and> rBlockedOn (rec_at m p) = d"

definition list_ok :: "(ptr \<Rightarrow> nat) \<Rightarrow> ptr list \<Rightarrow> ptr option \<Rightarrow> ptr set \<Rightarrow> bool" where
  "list_ok sq l h A \<longleftrightarrow> ksorted sq l \<and> set l = A \<and> (\<forall>x. h = Some x \<longrightarrow> x \<in> A)"

definition group_ok :: "machine \<Rightarrow> ptr set \<Rightarrow> string \<Rightarrow> bool" where
  "group_ok m A d = (case groups m d of
       None \<Rightarrow> {p \<in> A. in_group m d p} = {}
     | Some g \<Rightarrow> dep g = d \<and> gitems g \<noteq> [] \<and> list_ok (seq_at m) (gitems g) (hint g) {p \<in> A. in_group m d p})"

definition index_ok :: "machine \<Rightarrow> ptr set \<Rightarrow> bool" where
  "index_ok m A \<longleftrightarrow>
     (\<forall>d. group_ok m A d)
   \<and> list_ok (seq_at m) (parked m) (parkedHint m) {p \<in> A. state_at m p = Parked}
   \<and> (\<forall>s. counts m s = int (card {p \<in> A. state_at m p = s}))
   \<and> (\<forall>p\<in>A. grp (heap m p) = (if state_at m p = Parked then None else Some (rBlockedOn (rec_at m p))))"

text \<open>
  A cached wake time is sound for an item if the item cannot be leased before it.
\<close>

definition wake_ok :: "machine \<Rightarrow> ptr set \<Rightarrow> bool" where
  "wake_ok m X \<longleftrightarrow> (\<forall>d g p now. groups m d = Some g \<longrightarrow> wake g \<noteq> zero_time \<longrightarrow> now < wake g \<longrightarrow>
     p \<in> set (gitems g) \<longrightarrow> p \<notin> X \<longrightarrow> \<not> eligible m p now)"

definition order_ok :: "machine \<Rightarrow> bool" where
  "order_ok m \<longleftrightarrow> ksorted (seq_at m) (order m)
   \<and> (\<forall>p\<in>set (order m). seq_at m p \<le> seq m \<and> p < nextPtr m \<and> state_at m p \<in> {Pending, Leased, Parked})
   \<and> (\<forall>i p. lookup m i = Some p \<longleftrightarrow> p \<in> set (order m) \<and> rID (rec_at m p) = i)
   \<and> distinct (map fst (items m)) \<and> length (items m) = length (order m)"

definition key_ok :: "machine \<Rightarrow> string \<Rightarrow> bool" where
  "key_ok m k = (case byKey m k of
       None \<Rightarrow> k = '''' \<or> {p \<in> set (order m). rOrderKey (rec_at m p) = k} = {}
     | Some l \<Rightarrow> k \<noteq> '''' \<and> l \<noteq> [] \<and> ksorted (seq_at m) l
                \<and> set l = {p \<in> set (order m). rOrderKey (rec_at m p) = k})"

definition size_ok :: "machine \<Rightarrow> ptr \<Rightarrow> bool" where
  "size_ok m p \<longleftrightarrow> isize (heap m p) = Size (rec_at m p) + bodyN (heap m p) + ckptN (heap m p)"

text \<open>
  Well-formed except possibly for the size and the wake time of the items in \<open>X\<close>, which an operation
  has touched and not finished with.
\<close>

definition wfx :: "machine \<Rightarrow> ptr set \<Rightarrow> bool" where
  "wfx m X \<longleftrightarrow> order_ok m \<and> (\<forall>k. key_ok m k) \<and> mbytes m = sum_list (map (\<lambda>p. isize (heap m p)) (order m))
   \<and> (\<forall>p\<in>set (order m) - X. size_ok m p) \<and> index_ok m (set (order m)) \<and> wake_ok m X"

definition wf :: "machine \<Rightarrow> bool" where
  "wf m \<longleftrightarrow> wfx m {}"

lemma wfx_mono: "wfx m X \<Longrightarrow> X \<subseteq> Y \<Longrightarrow> wfx m Y"
  unfolding wfx_def wake_ok_def by blast

lemma wf_wfx: "wf m \<Longrightarrow> wfx m X"
  unfolding wf_def by (rule wfx_mono) auto

lemma wf_newMachine: "wf (newMachine l)"
  by (simp add: wf_def wfx_def newMachine_def order_ok_def key_ok_def index_ok_def group_ok_def list_ok_def
      wake_ok_def lookup_def)

section \<open>What the index operations touch\<close>

lemma upd_item_sel [simp]:
  "heap (upd_item f p m) = (heap m)(p := f (heap m p))"
  "order (upd_item f p m) = order m" "items (upd_item f p m) = items m" "byKey (upd_item f p m) = byKey m"
  "seq (upd_item f p m) = seq m" "mbytes (upd_item f p m) = mbytes m" "groups (upd_item f p m) = groups m"
  "parked (upd_item f p m) = parked m" "parkedHint (upd_item f p m) = parkedHint m"
  "counts (upd_item f p m) = counts m" "lim (upd_item f p m) = lim m" "nextPtr (upd_item f p m) = nextPtr m"
  by (simp_all add: upd_item_def)

lemma upd_rec_sel [simp]:
  "heap (upd_rec f p m) = (heap m)(p := (heap m p)\<lparr>irec := f (rec_at m p)\<rparr>)"
  "order (upd_rec f p m) = order m" "items (upd_rec f p m) = items m" "byKey (upd_rec f p m) = byKey m"
  "seq (upd_rec f p m) = seq m" "mbytes (upd_rec f p m) = mbytes m" "groups (upd_rec f p m) = groups m"
  "parked (upd_rec f p m) = parked m" "parkedHint (upd_rec f p m) = parkedHint m"
  "counts (upd_rec f p m) = counts m" "lim (upd_rec f p m) = lim m" "nextPtr (upd_rec f p m) = nextPtr m"
  by (simp_all add: upd_rec_def)

lemma add_count_sel [simp]:
  "heap (add_count s n m) = heap m" "order (add_count s n m) = order m" "items (add_count s n m) = items m"
  "byKey (add_count s n m) = byKey m" "seq (add_count s n m) = seq m" "mbytes (add_count s n m) = mbytes m"
  "groups (add_count s n m) = groups m" "parked (add_count s n m) = parked m"
  "parkedHint (add_count s n m) = parkedHint m" "lim (add_count s n m) = lim m"
  "nextPtr (add_count s n m) = nextPtr m" "counts (add_count s n m) = (counts m)(s := counts m s + n)"
  by (simp_all add: add_count_def)

lemma clear_wake_sel [simp]:
  "heap (clear_wake d m) = heap m" "order (clear_wake d m) = order m" "items (clear_wake d m) = items m"
  "byKey (clear_wake d m) = byKey m" "seq (clear_wake d m) = seq m" "mbytes (clear_wake d m) = mbytes m"
  "parked (clear_wake d m) = parked m" "parkedHint (clear_wake d m) = parkedHint m"
  "lim (clear_wake d m) = lim m" "nextPtr (clear_wake d m) = nextPtr m" "counts (clear_wake d m) = counts m"
  by (simp_all add: clear_wake_def split: option.splits)

lemma clear_wake_groups:
  "groups (clear_wake d m) e = (if e = d then map_option (\<lambda>g. g\<lparr>wake := zero_time\<rparr>) (groups m e) else groups m e)"
  by (auto simp: clear_wake_def split: option.splits)

lemma link_sel [simp]:
  "order (link p m) = order m" "items (link p m) = items m" "byKey (link p m) = byKey m"
  "seq (link p m) = seq m" "mbytes (link p m) = mbytes m" "lim (link p m) = lim m" "nextPtr (link p m) = nextPtr m"
  "counts (link p m) = (counts m)(state_at m p := counts m (state_at m p) + 1)"
  by (simp_all add: link_def Let_def split: prod.splits)

lemma link_heap:
  "heap (link p m) = (heap m)(p := (heap m p)\<lparr>grp := (if state_at m p = Parked then None
                                                    else Some (rBlockedOn (rec_at m p)))\<rparr>)"
  by (simp add: link_def Let_def split: prod.splits)

definition group_or_new :: "machine \<Rightarrow> string \<Rightarrow> group" where
  "group_or_new m d = (case groups m d of Some g \<Rightarrow> g
     | None \<Rightarrow> \<lparr>dep = d, gitems = [], hint = None, wake = zero_time\<rparr>)"

lemma link_parked: "state_at m p = Parked \<Longrightarrow>
  groups (link p m) = groups m \<and> parked (link p m) = fst (insertOrdered (seq_at m) (parked m) p (parkedHint m))
  \<and> parkedHint (link p m) = snd (insertOrdered (seq_at m) (parked m) p (parkedHint m))"
  by (simp add: link_def Let_def split: prod.splits)

lemma link_group: "state_at m p \<noteq> Parked \<Longrightarrow> d = rBlockedOn (rec_at m p) \<Longrightarrow> g = group_or_new m d \<Longrightarrow>
  parked (link p m) = parked m \<and> parkedHint (link p m) = parkedHint m
  \<and> groups (link p m) = (groups m)(d \<mapsto> g\<lparr>gitems := fst (insertOrdered (seq_at m) (gitems g) p (hint g)),
       hint := snd (insertOrdered (seq_at m) (gitems g) p (hint g)), wake := zero_time\<rparr>)"
  by (simp add: link_def Let_def group_or_new_def split: prod.splits)

lemma unlink_sel [simp]:
  "order (unlink p m) = order m" "items (unlink p m) = items m" "byKey (unlink p m) = byKey m"
  "seq (unlink p m) = seq m" "mbytes (unlink p m) = mbytes m" "lim (unlink p m) = lim m"
  "nextPtr (unlink p m) = nextPtr m"
  "counts (unlink p m) = (counts m)(state_at m p := counts m (state_at m p) - 1)"
  by (simp_all add: unlink_def Let_def split: option.splits)

lemma unlink_heap: "heap (unlink p m) = (heap m)(p := (heap m p)\<lparr>grp := None\<rparr>)"
  by (simp add: unlink_def Let_def split: option.splits)

lemma link_fields [simp]:
  "rec_at (link p m) q = rec_at m q" "rec_at (unlink p m) q = rec_at m q"
  by (simp_all add: link_heap unlink_heap)

lemma unlink_parked: "grp (heap m p) = None \<Longrightarrow>
  groups (unlink p m) = groups m \<and> parked (unlink p m) = remove1 p (parked m)
  \<and> parkedHint (unlink p m) = (if parkedHint m = Some p then None else parkedHint m)"
  by (simp add: unlink_def Let_def)

lemma unlink_group: "grp (heap m p) = Some d \<Longrightarrow> groups m d = Some g \<Longrightarrow> dep g = d \<Longrightarrow>
  parked (unlink p m) = parked m \<and> parkedHint (unlink p m) = parkedHint m
  \<and> groups (unlink p m) = (groups m)(d := (if remove1 p (gitems g) = [] then None
       else Some (g\<lparr>hint := (if hint g = Some p then None else hint g), gitems := remove1 p (gitems g),
                    wake := zero_time\<rparr>)))"
  by (simp add: unlink_def Let_def)

section \<open>Linking and unlinking keep the index\<close>

lemma in_group_cong: "rState (rec_at m p) = rState (rec_at m' p) \<Longrightarrow>
  rBlockedOn (rec_at m p) = rBlockedOn (rec_at m' p) \<Longrightarrow> in_group m d p = in_group m' d p"
  by (simp add: in_group_def)

lemma list_ok_cong: "A = B \<Longrightarrow> (\<And>p. p \<in> A \<Longrightarrow> sq p = sq' p) \<Longrightarrow> list_ok sq l h A = list_ok sq' l h B"
  unfolding list_ok_def by (metis ksorted_cong)

lemma list_ok_insert:
  assumes "list_ok sq l h A" and "p \<notin> A" and "\<forall>q\<in>A. sq q \<noteq> sq p"
  shows "list_ok sq (fst (insertOrdered sq l p h)) (snd (insertOrdered sq l p h)) (insert p A)"
  using insertOrdered_spec [of sq l p h] assms by (auto simp: list_ok_def)

lemma list_ok_remove:
  assumes "list_ok sq l h A"
  shows "list_ok sq (remove1 p l) (if h = Some p then None else h) (A - {p})"
  using assms ksorted_distinct [of sq l] by (auto simp: list_ok_def ksorted_remove1)

text \<open>The index depends on the heap only through four fields of the linked items.\<close>

lemma index_ok_cong:
  assumes "groups m = groups m'" "parked m = parked m'" "parkedHint m = parkedHint m'" "counts m = counts m'"
    and item: "\<And>p. p \<in> A \<Longrightarrow> seq_at m p = seq_at m' p \<and> state_at m p = state_at m' p
       \<and> rBlockedOn (rec_at m p) = rBlockedOn (rec_at m' p) \<and> grp (heap m p) = grp (heap m' p)"
  shows "index_ok m A = index_ok m' A"
proof -
  have "{p \<in> A. in_group m d p} = {p \<in> A. in_group m' d p}" for d
    using item by (auto simp: in_group_def)
  moreover have "{p \<in> A. state_at m p = s} = {p \<in> A. state_at m' p = s}" for s
    using item by auto
  moreover have "list_ok (seq_at m) l h {p \<in> A. P p} = list_ok (seq_at m') l h {p \<in> A. P p}" for l h P
    using item by (intro list_ok_cong) auto
  ultimately show ?thesis
    using assms by (simp add: index_ok_def group_ok_def cong: option.case_cong)
qed

lemma index_ok_group: "index_ok m A \<Longrightarrow> group_ok m A d"
  by (simp add: index_ok_def)

lemma index_ok_parked: "index_ok m A \<Longrightarrow> list_ok (seq_at m) (parked m) (parkedHint m) {p \<in> A. state_at m p = Parked}"
  by (simp add: index_ok_def)

lemma index_ok_counts: "index_ok m A \<Longrightarrow> counts m s = int (card {p \<in> A. state_at m p = s})"
  by (simp add: index_ok_def)

lemma index_ok_grp: "index_ok m A \<Longrightarrow> p \<in> A \<Longrightarrow>
  grp (heap m p) = (if state_at m p = Parked then None else Some (rBlockedOn (rec_at m p)))"
  by (simp add: index_ok_def)

lemma group_ok_new: "group_ok m A d \<Longrightarrow>
  dep (group_or_new m d) = d \<and> list_ok (seq_at m) (gitems (group_or_new m d)) (hint (group_or_new m d)) {p \<in> A. in_group m d p}"
  by (auto simp: group_ok_def group_or_new_def list_ok_def split: option.splits)

lemma Collect_insert: "{x \<in> insert p A. P x} = (if P p then insert p {x \<in> A. P x} else {x \<in> A. P x})"
  by auto

lemma Collect_remove: "{x \<in> A - {p}. P x} = {x \<in> A. P x} - {p}"
  by auto

lemma link_in_group [simp]: "in_group (link p m) d q = in_group m d q"
  by (simp add: in_group_def)

lemma unlink_in_group [simp]: "in_group (unlink p m) d q = in_group m d q"
  by (simp add: in_group_def)

lemma link_index:
  assumes idx: "index_ok m A" and fin: "finite A" and p: "p \<notin> A"
    and fresh: "\<forall>q\<in>A. seq_at m q \<noteq> seq_at m p"
  shows "index_ok (link p m) (insert p A)"
  unfolding index_ok_def
proof (intro conjI allI ballI)
  fix d
  let ?B = "{q \<in> A. in_group m d q}"
  show "group_ok (link p m) (insert p A) d"
  proof (cases "in_group m d p")
    case True
    define g where "g = group_or_new m d"
    from True have st: "state_at m p \<noteq> Parked" and d: "rBlockedOn (rec_at m p) = d"
      by (auto simp: in_group_def)
    have "list_ok (seq_at m) (gitems g) (hint g) ?B" "dep g = d"
      using group_ok_new [OF index_ok_group [OF idx]] by (auto simp: g_def)
    then have "list_ok (seq_at m) (fst (insertOrdered (seq_at m) (gitems g) p (hint g)))
        (snd (insertOrdered (seq_at m) (gitems g) p (hint g))) (insert p ?B)" "dep g = d"
      using p fresh by (auto intro: list_ok_insert)
    then show ?thesis
      using link_group [OF st d [symmetric] g_def] True
      by (auto simp: group_ok_def Collect_insert list_ok_def)
  next
    case False
    then have "groups (link p m) d = groups m d"
      using link_parked [of m p] link_group [of m p] by (cases "state_at m p = Parked") (auto simp: in_group_def)
    with index_ok_group [OF idx, of d] False show ?thesis
      by (simp add: group_ok_def Collect_insert del: insert_iff split: option.splits)
  qed
next
  show "list_ok (seq_at (link p m)) (parked (link p m)) (parkedHint (link p m))
      {q \<in> insert p A. state_at (link p m) q = Parked}"
  proof (cases "state_at m p = Parked")
    case True
    with list_ok_insert [OF index_ok_parked [OF idx], of p] p fresh link_parked [OF True]
    show ?thesis by (simp add: Collect_insert del: insert_iff)
  next
    case False
    with index_ok_parked [OF idx] link_group [OF False refl refl] show ?thesis
      by (simp add: Collect_insert del: insert_iff)
  qed
next
  fix s
  have "(if state_at m p = s then counts m s + 1 else counts m s)
      = int (card (if state_at m p = s then insert p {q \<in> A. state_at m q = s} else {q \<in> A. state_at m q = s}))"
    using index_ok_counts [OF idx, of s] card_insert_int [of "{q \<in> A. state_at m q = s}" p] fin p by auto
  then show "counts (link p m) s = int (card {q \<in> insert p A. state_at (link p m) q = s})"
    by (auto simp: Collect_insert simp del: insert_iff split: if_splits)
next
  fix q
  assume "q \<in> insert p A"
  then show "grp (heap (link p m) q) =
      (if state_at (link p m) q = Parked then None else Some (rBlockedOn (rec_at (link p m) q)))"
    using index_ok_grp [OF idx, of q] by (auto simp: link_heap)
qed

lemma unlink_index:
  assumes idx: "index_ok m A" and fin: "finite A" and p: "p \<in> A"
  shows "index_ok (unlink p m) (A - {p})"
  unfolding index_ok_def
proof (intro conjI allI ballI)
  fix d
  let ?B = "{q \<in> A. in_group m d q}"
  show "group_ok (unlink p m) (A - {p}) d"
  proof (cases "in_group m d p")
    case True
    then have gr: "grp (heap m p) = Some d" using index_ok_grp [OF idx p] by (auto simp: in_group_def)
    from True p index_ok_group [OF idx, of d] obtain g where g: "groups m d = Some g" "dep g = d"
        "list_ok (seq_at m) (gitems g) (hint g) ?B"
      by (auto simp: group_ok_def split: option.splits)
    note l' = list_ok_remove [OF g(3), of p]
    then have "set (remove1 p (gitems g)) = ?B - {p}" by (simp add: list_ok_def)
    then have "remove1 p (gitems g) = [] \<longleftrightarrow> ?B - {p} = {}" by (metis set_empty)
    with l' unlink_group [OF gr g(1,2)] g(2) show ?thesis
      by (simp add: group_ok_def Collect_remove del: Diff_iff Diff_eq_empty_iff)
  next
    case False
    then have "groups (unlink p m) d = groups m d"
    proof (cases "state_at m p = Parked")
      case True
      with unlink_parked [of m p] index_ok_grp [OF idx p] show ?thesis by simp
    next
      case st: False
      define e where "e = rBlockedOn (rec_at m p)"
      have "in_group m e p" "e \<noteq> d" using st False by (auto simp: in_group_def e_def)
      with p index_ok_group [OF idx, of e] obtain g where "groups m e = Some g" "dep g = e"
        by (auto simp: group_ok_def split: option.splits)
      with unlink_group [of m p e g] index_ok_grp [OF idx p] st \<open>e \<noteq> d\<close> show ?thesis by (simp add: e_def)
    qed
    moreover have "?B - {p} = ?B" using False by auto
    ultimately show ?thesis
      using index_ok_group [OF idx, of d] by (simp add: group_ok_def Collect_remove del: Diff_iff split: option.splits)
  qed
next
  show "list_ok (seq_at (unlink p m)) (parked (unlink p m)) (parkedHint (unlink p m))
      {q \<in> A - {p}. state_at (unlink p m) q = Parked}"
  proof (cases "state_at m p = Parked")
    case True
    with unlink_parked [of m p] index_ok_grp [OF idx p] list_ok_remove [OF index_ok_parked [OF idx], of p]
    show ?thesis by (simp add: Collect_remove del: Diff_iff)
  next
    case False
    define e where "e = rBlockedOn (rec_at m p)"
    have "in_group m e p" using False by (auto simp: in_group_def e_def)
    with p index_ok_group [OF idx, of e] obtain g where "groups m e = Some g" "dep g = e"
      by (auto simp: group_ok_def split: option.splits)
    with unlink_group [of m p e g] index_ok_grp [OF idx p] False
    have "parked (unlink p m) = parked m \<and> parkedHint (unlink p m) = parkedHint m" by (simp add: e_def)
    moreover have "{q \<in> A - {p}. state_at m q = Parked} = {q \<in> A. state_at m q = Parked}" using False by auto
    ultimately show ?thesis using index_ok_parked [OF idx] by simp
  qed
next
  fix s
  have "(if state_at m p = s then counts m s - 1 else counts m s) = int (card ({q \<in> A. state_at m q = s} - {p}))"
    using index_ok_counts [OF idx, of s] card_remove_int [of "{q \<in> A. state_at m q = s}" p] fin p
    by (auto simp del: card_Diff_insert)
  then show "counts (unlink p m) s = int (card {q \<in> A - {p}. state_at (unlink p m) q = s})"
    by (auto simp: Collect_remove simp del: Diff_iff card_Diff_insert split: if_splits)
next
  fix q
  assume "q \<in> A - {p}"
  then show "grp (heap (unlink p m) q) =
      (if state_at (unlink p m) q = Parked then None else Some (rBlockedOn (rec_at (unlink p m) q)))"
    using index_ok_grp [OF idx, of q] by (auto simp: unlink_heap)
qed

end
