(* ===== verification/GG_Machine_Ops.thy ===== *)
theory GG_Machine_Ops
  imports GG_Machine_Wf
begin

text \<open>
  Every operation of the state machine keeps the invariant: the building blocks first (a write to an
  item, \<open>move\<close>, \<open>resize\<close>), then the operations composed of them.
\<close>

section \<open>Building blocks\<close>

definition awake :: "machine \<Rightarrow> ptr \<Rightarrow> bool" where
  "awake m p \<longleftrightarrow> (\<forall>d g. groups m d = Some g \<longrightarrow> p \<in> set (gitems g) \<longrightarrow> wake g = zero_time)"

lemma eligible_cong:
  "byKey m = byKey m' \<Longrightarrow> reserved (heap m p) = reserved (heap m' p) \<Longrightarrow> rec_at m p = rec_at m' p \<Longrightarrow>
   leaseUntil (heap m p) = leaseUntil (heap m' p) \<Longrightarrow> eligible m p now = eligible m' p now"
  by (simp add: eligible_def key_head_def Let_def)

lemma wake_ok_close: "wake_ok m X \<Longrightarrow> awake m p \<Longrightarrow> wake_ok m (X - {p})"
  unfolding wake_ok_def awake_def by blast

lemma wake_ok_poke: "wake_ok m X \<Longrightarrow> p \<in> X \<Longrightarrow> wake_ok (upd_item f p m) X"
  unfolding wake_ok_def by (auto simp: eligible_def key_head_def Let_def split: if_splits)

lemma awake_poke [simp]: "awake (upd_item f q m) p = awake m p" "awake (upd_rec h q m) p = awake m p"
  by (simp_all add: awake_def)

lemma link_eligible: "eligible (link p m) q now = eligible m q now"
  by (rule eligible_cong) (auto simp: link_heap)

lemma unlink_eligible: "eligible (unlink p m) q now = eligible m q now"
  by (rule eligible_cong) (auto simp: unlink_heap)

lemma link_groups_cases:
  "groups (link p m) d = Some g \<Longrightarrow> wake g \<noteq> zero_time \<Longrightarrow> groups m d = Some g"
  using link_parked [of m p] link_group [of m p, OF _ refl refl]
  by (cases "state_at m p = Parked") (auto split: if_splits)

lemma link_wake: "wake_ok m X \<Longrightarrow> wake_ok (link p m) X"
  unfolding wake_ok_def link_eligible by (blast dest: link_groups_cases)

lemma unlinked_in_no_group:
  "index_ok m A \<Longrightarrow> p \<notin> A \<Longrightarrow> groups m d = Some g \<Longrightarrow> p \<notin> set (gitems g)"
  using index_ok_group [of m A d] by (auto simp: group_ok_def list_ok_def)

lemma link_awake: "index_ok m A \<Longrightarrow> p \<notin> A \<Longrightarrow> awake (link p m) p"
  unfolding awake_def by (metis link_groups_cases unlinked_in_no_group)

lemma unlink_groups_cases:
  assumes "index_ok m A" and "p \<in> A" and "groups (unlink p m) d = Some g" and "wake g \<noteq> zero_time"
  shows "groups m d = Some g"
proof (cases "state_at m p = Parked")
  case True
  with unlink_parked [of m p] index_ok_grp [OF assms(1,2)] assms(3) show ?thesis by simp
next
  case False
  define e where "e = rBlockedOn (rec_at m p)"
  have "in_group m e p" using False by (auto simp: in_group_def e_def)
  with assms(2) index_ok_group [OF assms(1), of e] obtain g' where "groups m e = Some g'" "dep g' = e"
    by (auto simp: group_ok_def split: option.splits)
  with unlink_group [of m p e g'] index_ok_grp [OF assms(1,2)] False assms(3,4) show ?thesis
    by (auto simp: e_def split: if_splits)
qed

lemma unlink_wake: "index_ok m A \<Longrightarrow> p \<in> A \<Longrightarrow> wake_ok m X \<Longrightarrow> wake_ok (unlink p m) X"
  unfolding wake_ok_def unlink_eligible by (meson unlink_groups_cases)

lemma order_ok_upd:
  assumes "order_ok m" "order m' = order m" "items m' = items m" "seq m' = seq m" "nextPtr m' = nextPtr m"
    and "\<And>p. p \<in> set (order m) \<Longrightarrow> seq_at m' p = seq_at m p \<and> rID (rec_at m' p) = rID (rec_at m p)
      \<and> state_at m' p \<in> {Pending, Leased, Parked}"
  shows "order_ok m'"
proof -
  have "ksorted (seq_at m') (order m) = ksorted (seq_at m) (order m)"
    using assms(6) by (intro ksorted_cong) auto
  with assms show ?thesis by (auto simp: order_ok_def lookup_def)
qed

lemma key_ok_upd:
  assumes "key_ok m k" "order m' = order m" "byKey m' = byKey m"
    and item: "\<And>p. p \<in> set (order m) \<Longrightarrow> seq_at m' p = seq_at m p \<and> rOrderKey (rec_at m' p) = rOrderKey (rec_at m p)"
  shows "key_ok m' k"
proof -
  have eq: "{p \<in> set (order m). rOrderKey (rec_at m' p) = k} = {p \<in> set (order m). rOrderKey (rec_at m p) = k}"
    using item by auto
  have "ksorted (seq_at m') l = ksorted (seq_at m) l" if "set l \<subseteq> set (order m)" for l
    using that item by (intro ksorted_cong) auto
  with assms(1-3) eq show ?thesis by (auto simp: key_ok_def split: option.splits)
qed

text \<open>A write to an item that keeps what the indexes read.\<close>

definition keeps_core :: "(memItem \<Rightarrow> memItem) \<Rightarrow> memItem \<Rightarrow> bool" where
  "keeps_core f it \<longleftrightarrow> rSeq (irec (f it)) = rSeq (irec it) \<and> rID (irec (f it)) = rID (irec it)
     \<and> rState (irec (f it)) = rState (irec it) \<and> rBlockedOn (irec (f it)) = rBlockedOn (irec it)
     \<and> rOrderKey (irec (f it)) = rOrderKey (irec it) \<and> grp (f it) = grp it \<and> isize (f it) = isize it"

lemma wfxD:
  assumes "wfx m X"
  shows "order_ok m" "key_ok m k" "mbytes m = sum_list (map (\<lambda>p. isize (heap m p)) (order m))"
    "index_ok m (set (order m))" "wake_ok m X" "p \<in> set (order m) \<Longrightarrow> p \<notin> X \<Longrightarrow> size_ok m p"
  using assms by (auto simp: wfx_def)

lemma order_state: "order_ok m \<Longrightarrow> p \<in> set (order m) \<Longrightarrow> state_at m p \<in> {Pending, Leased, Parked}"
  by (simp add: order_ok_def)

lemma wfx_poke:
  assumes m: "wfx m X" and p: "p \<in> X" and core: "keeps_core f (heap m p)"
  shows "wfx (upd_item f p m) X"
  unfolding wfx_def
proof (intro conjI allI ballI)
  note D = wfxD [OF m]
  show "order_ok (upd_item f p m)"
    using core order_state [OF D(1)] by (intro order_ok_upd [OF D(1)]) (auto simp: keeps_core_def)
  show "key_ok (upd_item f p m) k" for k
    using core by (intro key_ok_upd [OF D(2)]) (auto simp: keeps_core_def)
  show "mbytes (upd_item f p m) = sum_list (map (\<lambda>q. isize (heap (upd_item f p m) q)) (order (upd_item f p m)))"
    using D(3) core by (auto simp: keeps_core_def intro!: sum_list_map_cong)
  show "size_ok (upd_item f p m) q" if "q \<in> set (order (upd_item f p m)) - X" for q
    using D(6) [of q] that p by (auto simp: size_ok_def)
  have "index_ok m (set (order m)) = index_ok (upd_item f p m) (set (order m))"
    using core by (intro index_ok_cong) (auto simp: keeps_core_def)
  with D(4) show "index_ok (upd_item f p m) (set (order (upd_item f p m)))" by simp
  show "wake_ok (upd_item f p m) X" by (rule wake_ok_poke [OF D(5) p])
qed

lemma wfx_close:
  assumes "wfx m X" and "awake m p" and "size_ok m p"
  shows "wfx m (X - {p})"
  using assms wake_ok_close [of m X p] unfolding wfx_def by blast

section \<open>\<open>move\<close>\<close>

definition moved :: "State \<Rightarrow> string \<Rightarrow> memItem \<Rightarrow> memItem" where
  "moved s d it = it\<lparr>ver := Suc (ver it), irec := (irec it)\<lparr>rState := s, rBlockedOn := d\<rparr>,
                     grp := (if s = Parked then None else Some d)\<rparr>"

definition move_slow :: "ptr \<Rightarrow> State \<Rightarrow> string \<Rightarrow> machine \<Rightarrow> machine" where
  "move_slow p s d m = link p (upd_rec (\<lambda>r. r\<lparr>rState := s, rBlockedOn := d\<rparr>) p
     (unlink p (upd_item (\<lambda>it. it\<lparr>ver := Suc (ver it)\<rparr>) p m)))"

definition move_fast :: "ptr \<Rightarrow> State \<Rightarrow> string \<Rightarrow> machine \<Rightarrow> machine" where
  "move_fast p s gd m = clear_wake gd (upd_rec (\<lambda>r. r\<lparr>rState := s\<rparr>) p
     (add_count s 1 (add_count (state_at m p) (- 1) (upd_item (\<lambda>it. it\<lparr>ver := Suc (ver it)\<rparr>) p m))))"

lemma move_eq:
  "move p s d m = (case grp (heap m p) of
      Some gd \<Rightarrow> if s \<noteq> Parked \<and> rBlockedOn (rec_at m p) = d then move_fast p s gd m else move_slow p s d m
    | None \<Rightarrow> move_slow p s d m)"
  by (simp add: move_def move_slow_def move_fast_def Let_def split: option.splits)

lemma move_sel [simp]:
  "order (move p s d m) = order m" "items (move p s d m) = items m" "byKey (move p s d m) = byKey m"
  "seq (move p s d m) = seq m" "mbytes (move p s d m) = mbytes m" "lim (move p s d m) = lim m"
  "nextPtr (move p s d m) = nextPtr m"
  by (simp_all add: move_eq move_slow_def move_fast_def split: option.splits)

lemma move_slow_heap: "heap (move_slow p s d m) = (heap m)(p := moved s d (heap m p))"
  by (auto simp: move_slow_def link_heap unlink_heap moved_def)

lemma move_fast_heap:
  assumes "grp (heap m p) = Some d" and "rBlockedOn (rec_at m p) = d" and "s \<noteq> Parked"
  shows "heap (move_fast p s d m) = (heap m)(p := moved s d (heap m p))"
proof -
  have "(rec_at m p)\<lparr>rBlockedOn := d\<rparr> = rec_at m p" using assms(2) by auto
  moreover have "(heap m p)\<lparr>grp := Some d\<rparr> = heap m p" using assms(1) by auto
  ultimately show ?thesis using assms(3) by (cases "heap m p", cases "rec_at m p") (auto simp: move_fast_def moved_def)
qed

lemma move_slow_index:
  assumes idx: "index_ok m (set (order m))" and p: "p \<in> set (order m)" and srt: "ksorted (seq_at m) (order m)"
  shows "index_ok (move_slow p s d m) (set (order m)) \<and> awake (move_slow p s d m) p
    \<and> (wake_ok m X \<longrightarrow> wake_ok (move_slow p s d m) (insert p X))"
proof -
  let ?A = "set (order m)"
  define m1 where "m1 = upd_item (\<lambda>it. it\<lparr>ver := Suc (ver it)\<rparr>) p m"
  define m2 where "m2 = unlink p m1"
  define m3 where "m3 = upd_rec (\<lambda>r. r\<lparr>rState := s, rBlockedOn := d\<rparr>) p m2"
  have slow: "move_slow p s d m = link p m3" by (simp add: move_slow_def m1_def m2_def m3_def)
  have i1: "index_ok m1 ?A"
    using idx index_ok_cong [of m m1 ?A] by (simp add: m1_def)
  have i2: "index_ok m2 (?A - {p})"
    using unlink_index [OF i1 _ p] by (simp add: m2_def)
  have "index_ok m2 (?A - {p}) = index_ok m3 (?A - {p})"
    by (rule index_ok_cong) (auto simp: m3_def)
  with i2 have i3: "index_ok m3 (?A - {p})" by simp
  have seqs: "seq_at m3 q = seq_at m q" for q by (auto simp: m3_def m2_def m1_def)
  have fresh: "\<forall>q\<in>?A - {p}. seq_at m3 q \<noteq> seq_at m3 p"
    using ksorted_inj [OF srt] p by (auto simp: seqs)
  have "index_ok (link p m3) (insert p (?A - {p}))"
    using link_index [OF i3 _ _ fresh] by simp
  moreover have "wake_ok (link p m3) (insert p X)" if w: "wake_ok m X"
  proof -
    have "wake_ok m (insert p X)" using w by (auto simp: wake_ok_def)
    then have "wake_ok m1 (insert p X)" unfolding m1_def by (rule wake_ok_poke) simp
    then have "wake_ok m2 (insert p X)" unfolding m2_def by (rule unlink_wake [OF i1 p])
    then have "wake_ok m3 (insert p X)" unfolding m3_def upd_rec_def by (rule wake_ok_poke) simp
    then show ?thesis by (rule link_wake)
  qed
  ultimately show ?thesis using p link_awake [OF i3] by (simp add: slow insert_absorb)
qed

lemma move_fast_groups:
  "groups (move_fast p s d m) e = map_option (\<lambda>g. if e = d then g\<lparr>wake := zero_time\<rparr> else g) (groups m e)"
  by (cases "groups m e") (auto simp: move_fast_def clear_wake_groups)

lemma move_fast_awake:
  assumes idx: "index_ok m (set (order m))" and dep: "rBlockedOn (rec_at m p) = d"
  shows "awake (move_fast p s d m) p"
  unfolding awake_def
proof (intro allI impI)
  fix e g
  assume g: "groups (move_fast p s d m) e = Some g" "p \<in> set (gitems g)"
  then obtain g0 where g0: "groups m e = Some g0" "p \<in> set (gitems g0)"
    by (auto simp: move_fast_groups split: if_splits)
  then have "in_group m e p" using index_ok_group [OF idx, of e] by (auto simp: group_ok_def list_ok_def)
  with dep g g0 show "wake g = zero_time" by (auto simp: in_group_def move_fast_groups)
qed

lemma move_fast_wake:
  assumes w: "wake_ok m X" and fast: "grp (heap m p) = Some d" "rBlockedOn (rec_at m p) = d" "s \<noteq> Parked"
  shows "wake_ok (move_fast p s d m) (insert p X)"
  unfolding wake_ok_def
proof (intro allI impI)
  fix e g q now
  assume g: "groups (move_fast p s d m) e = Some g" "wake g \<noteq> zero_time" "now < wake g"
    "q \<in> set (gitems g)" "q \<notin> insert p X"
  then have "groups m e = Some g" by (auto simp: move_fast_groups split: if_splits)
  with w g have "\<not> eligible m q now" by (auto simp: wake_ok_def)
  moreover have "eligible (move_fast p s d m) q now = eligible m q now"
    using g(5) fast by (intro eligible_cong) (auto simp: move_fast_heap move_fast_def)
  ultimately show "\<not> eligible (move_fast p s d m) q now" by simp
qed

lemma move_fast_index:
  assumes idx: "index_ok m (set (order m))" and p: "p \<in> set (order m)" and srt: "ksorted (seq_at m) (order m)"
    and fast: "grp (heap m p) = Some d" "rBlockedOn (rec_at m p) = d" "s \<noteq> Parked"
  shows "index_ok (move_fast p s d m) (set (order m))"
proof -
  let ?A = "set (order m)" and ?f = "move_fast p s d m" and ?s = "move_slow p s d m"
  have st: "state_at m p \<noteq> Parked" using index_ok_grp [OF idx p] fast(1) by (auto split: if_splits)
  have slow: "index_ok ?s ?A" using move_slow_index [OF idx p srt] by blast
  have hp: "heap ?f = heap ?s"
    unfolding move_fast_heap [OF fast] move_slow_heap ..
  have same: "in_group ?f e q = in_group m e q" for e q
    using st fast by (auto simp: in_group_def move_fast_heap moved_def)
  have park: "state_at ?f q = Parked \<longleftrightarrow> state_at m q = Parked" for q
    using st fast by (auto simp: move_fast_heap moved_def)
  have seqs: "seq_at ?f = seq_at m"
    using fast by (auto simp: move_fast_heap moved_def)
  have "group_ok ?f ?A e" for e
    using index_ok_group [OF idx, of e]
    by (auto simp: group_ok_def move_fast_groups same seqs [simplified] list_ok_def split: option.splits)
  moreover have "list_ok (seq_at ?f) (parked ?f) (parkedHint ?f) {q \<in> ?A. state_at ?f q = Parked}"
    using index_ok_parked [OF idx] unfolding park seqs by (simp add: move_fast_def)
  moreover have "counts ?f t = int (card {q \<in> ?A. state_at ?f q = t})" for t
  proof -
    have "counts ?f = counts ?s" by (auto simp: move_fast_def move_slow_def)
    then show ?thesis using index_ok_counts [OF slow, of t] by (simp add: hp)
  qed
  moreover have "grp (heap ?f q) = (if state_at ?f q = Parked then None else Some (rBlockedOn (rec_at ?f q)))"
    if "q \<in> ?A" for q
    using index_ok_grp [OF slow that] by (simp add: hp)
  ultimately show ?thesis by (simp add: index_ok_def)
qed

text \<open>
  \<open>move\<close> as its callers see it: the item gets the new state and dependency and sits in the right
  place of the index, its group will be scanned, and nothing else changes.
\<close>

lemma move_cases:
  assumes idx: "index_ok m (set (order m))" and p: "p \<in> set (order m)"
  obtains (fast) "grp (heap m p) = Some d" "rBlockedOn (rec_at m p) = d" "s \<noteq> Parked"
      "move p s d m = move_fast p s d m"
    | (slow) "move p s d m = move_slow p s d m"
proof (cases "s \<noteq> Parked \<and> rBlockedOn (rec_at m p) = d \<and> grp (heap m p) \<noteq> None")
  case True
  then show thesis using index_ok_grp [OF idx p] fast by (auto simp: move_eq split: if_splits)
next
  case False
  then show thesis by (intro slow) (auto simp: move_eq split: option.splits)
qed

lemma move_heap:
  assumes "index_ok m (set (order m))" and "p \<in> set (order m)"
  shows "heap (move p s d m) = (heap m)(p := moved s d (heap m p))"
  by (rule move_cases [OF assms, of d s]) (simp_all add: move_fast_heap move_slow_heap)

lemma move_index:
  assumes "index_ok m (set (order m))" and "p \<in> set (order m)" and "ksorted (seq_at m) (order m)"
  shows "index_ok (move p s d m) (set (order m)) \<and> awake (move p s d m) p
    \<and> (wake_ok m X \<longrightarrow> wake_ok (move p s d m) (insert p X))"
  by (rule move_cases [OF assms(1,2), of d s])
    (simp_all add: move_slow_index [OF assms] move_fast_index [OF assms] move_fast_awake [OF assms(1)] move_fast_wake)

lemma moved_sel [simp]:
  "rSeq (irec (moved s d it)) = rSeq (irec it)" "rID (irec (moved s d it)) = rID (irec it)"
  "rOrderKey (irec (moved s d it)) = rOrderKey (irec it)" "rState (irec (moved s d it)) = s"
  "rBlockedOn (irec (moved s d it)) = d" "isize (moved s d it) = isize it"
  "reserved (moved s d it) = reserved it" "token (moved s d it) = token it"
  "leaseUntil (moved s d it) = leaseUntil it" "bodyN (moved s d it) = bodyN it" "ckptN (moved s d it) = ckptN it"
  "irec (moved s d it) = (irec it)\<lparr>rState := s, rBlockedOn := d\<rparr>"
  by (simp_all add: moved_def)

lemma order_ksorted: "order_ok m \<Longrightarrow> ksorted (seq_at m) (order m)"
  by (simp add: order_ok_def)

lemma wfx_move:
  assumes m: "wfx m X" and p: "p \<in> set (order m)" and s: "s \<in> {Pending, Leased, Parked}"
  shows "wfx (move p s d m) (insert p X)" and "awake (move p s d m) p"
    and "heap (move p s d m) = (heap m)(p := moved s d (heap m p))"
proof -
  note D = wfxD [OF m]
  note hp = move_heap [OF D(4) p]
  note mi = move_index [OF D(4) p order_ksorted [OF D(1)], of s d X]
  show "heap (move p s d m) = (heap m)(p := moved s d (heap m p))" by (rule hp)
  show "awake (move p s d m) p" using mi by blast
  have "order_ok (move p s d m)"
    using order_state [OF D(1)] s by (intro order_ok_upd [OF D(1)]) (auto simp: hp)
  moreover have "key_ok (move p s d m) k" for k
    by (intro key_ok_upd [OF D(2)]) (auto simp: hp)
  moreover have "mbytes (move p s d m) = sum_list (map (\<lambda>q. isize (heap (move p s d m) q)) (order m))"
    using D(3) by (auto simp: hp intro!: sum_list_map_cong)
  moreover have "size_ok (move p s d m) q" if "q \<in> set (order m) - insert p X" for q
    using D(6) [of q] that by (auto simp: size_ok_def hp)
  ultimately show "wfx (move p s d m) (insert p X)" using mi D(5) by (simp add: wfx_def)
qed

lemma size_ok_move:
  assumes "wfx m X" and "p \<in> set (order m)" and "size_ok m p"
  shows "size_ok (move p s (rBlockedOn (rec_at m p)) m) p"
  using assms(3) by (simp add: size_ok_def move_heap [OF wfxD(4) [OF assms(1)] assms(2)] Size_def)

section \<open>\<open>resize\<close>\<close>

lemma resize_sel [simp]:
  "order (resize p m) = order m" "items (resize p m) = items m" "byKey (resize p m) = byKey m"
  "seq (resize p m) = seq m" "lim (resize p m) = lim m" "nextPtr (resize p m) = nextPtr m"
  "groups (resize p m) = groups m" "parked (resize p m) = parked m" "parkedHint (resize p m) = parkedHint m"
  "counts (resize p m) = counts m"
  "rec_at (resize p m) q = rec_at m q" "token (heap (resize p m) q) = token (heap m q)"
  "leaseUntil (heap (resize p m) q) = leaseUntil (heap m q)" "grp (heap (resize p m) q) = grp (heap m q)"
  "reserved (heap (resize p m) q) = reserved (heap m q)"
  by (auto simp: resize_def Let_def)

lemma wfx_resize_gen:
  assumes m: "wfx m (insert p Y)" and p: "p \<in> set (order m)" and wk: "wake_ok m Y"
  shows "wfx (resize p m) Y"
proof -
  note D = wfxD [OF m]
  let ?m = "resize p m"
  have "eligible ?m q now = eligible m q now" for q now
    by (rule eligible_cong) auto
  then have "wake_ok ?m Y" using wk by (simp add: wake_ok_def)
  moreover have "order_ok ?m"
    using order_state [OF D(1)] by (intro order_ok_upd [OF D(1)]) auto
  moreover have "key_ok ?m k" for k
    by (intro key_ok_upd [OF D(2)]) auto
  moreover have "mbytes ?m = sum_list (map (\<lambda>q. isize (heap ?m q)) (order m))"
  proof -
    have "sum_list (map (\<lambda>q. isize (heap ?m q)) (order m)) =
        sum_list (map (\<lambda>q. isize (heap m q)) (order m)) + (isize (heap ?m p) - isize (heap m p))"
      using p ksorted_distinct [OF order_ksorted [OF D(1)]]
      by (intro sum_list_map_update) (auto simp: resize_def Let_def)
    then show ?thesis using D(3) by (simp add: resize_def Let_def)
  qed
  moreover have "size_ok ?m q" if "q \<in> set (order m) - Y" for q
    using D(6) [of q] that by (auto simp: size_ok_def resize_def Let_def)
  moreover have "index_ok ?m (set (order m))"
    using D(4) index_ok_cong [of m ?m "set (order m)"] by simp
  ultimately show ?thesis by (simp add: wfx_def)
qed

lemma wf_resize:
  assumes "wfx m {p}" and "p \<in> set (order m)" and "awake m p"
  shows "wf (resize p m)"
  unfolding wf_def using assms wake_ok_close [of m "{p}" p] wfxD(5) [OF assms(1)]
  by (intro wfx_resize_gen) auto

section \<open>Settling operations\<close>

lemma unlease_eq: "unlease p m = upd_item (\<lambda>it. it\<lparr>token := '''', leaseUntil := zero_time\<rparr>) p m"
  by (simp add: unlease_def)

lemma unlease_sel [simp]:
  "order (unlease p m) = order m" "rec_at (unlease p m) q = rec_at m q" "awake (unlease p m) q = awake m q"
  "size_ok (unlease p m) q = size_ok m q" "seq (unlease p m) = seq m" "lookup (unlease p m) = lookup m"
  "lim (unlease p m) = lim m" "items (unlease p m) = items m"
  by (auto simp: unlease_def size_ok_def lookup_def fun_eq_iff)

lemma wfx_unlease: "wfx m X \<Longrightarrow> p \<in> X \<Longrightarrow> wfx (unlease p m) X"
  unfolding unlease_eq by (rule wfx_poke) (auto simp: keeps_core_def)

definition keeps_rec :: "(Record \<Rightarrow> Record) \<Rightarrow> Record \<Rightarrow> bool" where
  "keeps_rec f r \<longleftrightarrow> rSeq (f r) = rSeq r \<and> rID (f r) = rID r \<and> rState (f r) = rState r
      \<and> rBlockedOn (f r) = rBlockedOn r \<and> rOrderKey (f r) = rOrderKey r"

lemma wfx_upd_rec:
  assumes "wfx m X" and "p \<in> X" and "keeps_rec f (rec_at m p)"
  shows "wfx (upd_rec f p m) X"
  unfolding upd_rec_def using assms by (intro wfx_poke) (auto simp: keeps_core_def keeps_rec_def)

lemma wf_move_then:
  assumes "wf m" and "p \<in> set (order m)" and "s \<in> {Pending, Leased, Parked}"
  shows "wfx (move p s d m) {p}" and "awake (move p s d m) p"
  using wfx_move [OF wf_wfx [OF assms(1), of "{}"] assms(2,3), of d] by auto

lemma wf_size: "wf m \<Longrightarrow> p \<in> set (order m) \<Longrightarrow> size_ok m p"
  by (auto simp: wf_def wfx_def)

lemma wf_applyNack:
  assumes "wf m" and "p \<in> set (order m)"
  shows "wf (applyNack p failedAt nxt errText blockedOn refund m)"
proof -
  define d where "d = (if blockedOn \<noteq> '''' then blockedOn else rBlockedOn (rec_at m p))"
  define m1 where "m1 = move p Pending d m"
  have "wfx m1 {p}" "awake m1 p" "order m1 = order m"
    using wf_move_then [OF assms, of Pending d] by (auto simp: m1_def)
  then have "wf (resize p (unlease p (upd_rec f p m1)))" if "keeps_rec f (rec_at m1 p)" for f
    using that assms(2) by (intro wf_resize wfx_unlease wfx_upd_rec) auto
  then show ?thesis
    unfolding applyNack_def d_def [symmetric] Let_def m1_def [symmetric] by (simp add: keeps_rec_def)
qed

lemma wf_applyPark:
  assumes "wf m" and "p \<in> set (order m)"
  shows "wf (applyPark p failedAt reason m)"
  unfolding applyPark_def using assms(2) wf_move_then [OF assms, of Parked]
  by (intro wf_resize wfx_unlease wfx_upd_rec) (auto simp: keeps_rec_def)

lemma size_ok_upd_rec: "size_ok m p \<Longrightarrow> Size (f (rec_at m p)) = Size (rec_at m p) \<Longrightarrow> size_ok (upd_rec f p m) p"
  by (simp add: size_ok_def)

lemma wf_move_same_dep:
  assumes "wf m" and "p \<in> set (order m)"
  shows "size_ok (move p s (rBlockedOn (rec_at m p)) m) p"
  using size_ok_move [OF wf_wfx [OF assms(1), of "{}"] assms(2) wf_size [OF assms]] .

lemma wf_close: "wfx m {p} \<Longrightarrow> awake m p \<Longrightarrow> size_ok m p \<Longrightarrow> wf m"
  using wfx_close [of m "{p}" p] by (simp add: wf_def)

lemma wf_applyRelease:
  assumes "wf m" and "p \<in> set (order m)"
  shows "wf (applyRelease p m)"
  unfolding applyRelease_def
  using wf_move_then [OF assms, of Pending] wf_move_same_dep [OF assms, of Pending]
  by (intro wf_close [of _ p] wfx_unlease wfx_upd_rec) (auto simp: keeps_rec_def intro!: size_ok_upd_rec)

text \<open>A checkpoint does not move an item, so its group's wake time stays sound.\<close>

lemma wf_set_ckpt:
  assumes m: "wf m" and p: "p \<in> set (order m)"
  shows "wf (resize p (upd_item (\<lambda>it. it\<lparr>ver := v it, irec := (irec it)\<lparr>rCheckpoint := c it\<rparr>,
                                        ckptRef := r it, ckptN := n it\<rparr>) p m))"
    (is "wf (resize p ?m)")
  unfolding wf_def
proof (rule wfx_resize_gen)
  have "eligible ?m q now = eligible m q now" for q now
    by (simp add: eligible_def key_head_def Let_def)
  then show "wake_ok ?m {}" using m by (simp add: wf_def wfx_def wake_ok_def)
  show "wfx ?m {p}" using wf_wfx [OF m] by (intro wfx_poke) (auto simp: keeps_core_def)
  show "p \<in> set (order ?m)" using p by simp
qed

lemma wf_setCheckpoint:
  assumes "wf m" and "p \<in> set (order m)"
  shows "wf (setCheckpoint p cp m)" and "wf (setCheckpointRef p n ref m)"
  using wf_set_ckpt [OF assms] by (simp_all add: setCheckpoint_def setCheckpointRef_def)

lemma wf_applyRequeue:
  assumes "wf m" and "p \<in> set (order m)"
  shows "wf (applyRequeue p replace cp m)"
proof -
  define m1 where "m1 = upd_rec (\<lambda>r. r\<lparr>rAttempts := 0, rNextAttempt := zero_time\<rparr>) p
     (move p Pending (rBlockedOn (rec_at m p)) m)"
  have "wf m1"
    unfolding m1_def using wf_move_then [OF assms, of Pending] wf_move_same_dep [OF assms, of Pending]
    by (intro wf_close [of _ p] wfx_upd_rec) (auto simp: keeps_rec_def intro!: size_ok_upd_rec)
  moreover have "order m1 = order m" by (simp add: m1_def)
  ultimately show ?thesis
    using wf_setCheckpoint assms(2) by (simp add: applyRequeue_def m1_def [symmetric] Let_def)
qed

lemma wf_grant_one:
  assumes m: "wf m" and p: "p \<in> set (order m)"
  shows "wf (grant_one p tok now ttl m)"
proof -
  define m1 where "m1 = upd_item (\<lambda>it. it\<lparr>token := tok, leaseUntil := now + ttl\<rparr>) p m"
  have m1: "wfx m1 {p}" "p \<in> set (order m1)" "rec_at m1 p = rec_at m p" "size_ok m1 p"
    using wf_wfx [OF m, of "{p}"] p wf_size [OF m p]
    by (auto simp: m1_def keeps_core_def size_ok_def intro!: wfx_poke)
  then show ?thesis
    unfolding grant_one_def m1_def [symmetric] m1(3) [symmetric]
    using wfx_move [OF m1(1,2), of Leased] size_ok_move [OF m1(1,2,4), of Leased]
    by (intro wf_close [of _ p] wfx_upd_rec) (auto simp: keeps_rec_def intro!: size_ok_upd_rec)
qed

lemma grant_one_sel [simp]:
  "order (grant_one p tok now ttl m) = order m" "items (grant_one p tok now ttl m) = items m"
  "byKey (grant_one p tok now ttl m) = byKey m" "seq (grant_one p tok now ttl m) = seq m"
  "lim (grant_one p tok now ttl m) = lim m" "mbytes (grant_one p tok now ttl m) = mbytes m"
  by (simp_all add: grant_one_def)

lemma wf_grant:
  "wf m \<Longrightarrow> set ps \<subseteq> set (order m) \<Longrightarrow> wf (snd (grant ps draws now ttl m)) \<and> order (snd (grant ps draws now ttl m)) = order m"
  by (induction ps draws now ttl m rule: grant.induct) (auto simp: Let_def wf_grant_one split: prod.splits)

section \<open>Reservations\<close>

lemma clear_wake_group: "group_ok (clear_wake d m) A e = group_ok m A e"
  by (cases "groups m e") (auto simp: group_ok_def clear_wake_groups in_group_def)

lemma clear_wake_index: "index_ok (clear_wake d m) A = index_ok m A"
  by (simp add: index_ok_def clear_wake_group)

lemma clear_wake_wake: "wake_ok m X \<Longrightarrow> wake_ok (clear_wake d m) X"
proof -
  have "eligible (clear_wake d m) p now = eligible m p now" for p now
    by (rule eligible_cong) auto
  then show "wake_ok m X \<Longrightarrow> wake_ok (clear_wake d m) X"
    by (auto simp: wake_ok_def clear_wake_groups split: if_splits)
qed

lemma wfx_clear_wake:
  assumes m: "wfx m X"
  shows "wfx (clear_wake d m) X"
proof -
  note D = wfxD [OF m]
  have "order_ok (clear_wake d m)"
    using order_state [OF D(1)] by (intro order_ok_upd [OF D(1)]) auto
  moreover have "key_ok (clear_wake d m) k" for k
    by (intro key_ok_upd [OF D(2)]) auto
  ultimately show ?thesis
    using D clear_wake_wake by (auto simp: wfx_def clear_wake_index size_ok_def)
qed

lemma wf_reserve:
  assumes m: "wf m"
  shows "wf (reserve p m)"
proof -
  define m1 where "m1 = reserve p m"
  have sel: "groups m1 = groups m" "order m1 = order m" by (simp_all add: m1_def reserve_def)
  have "eligible m1 q now \<Longrightarrow> eligible m q now" for q now
    by (auto simp: m1_def reserve_def eligible_def key_head_def Let_def split: if_splits)
  then have "wake_ok m1 {}" using m unfolding wf_def wfx_def wake_ok_def sel by blast
  moreover have "wfx m1 {p}"
    unfolding m1_def reserve_def using wf_wfx [OF m] by (intro wfx_poke) (auto simp: keeps_core_def)
  moreover have "size_ok m1 p" if "p \<in> set (order m)"
    using wf_size [OF m that] by (simp add: m1_def reserve_def size_ok_def)
  ultimately show ?thesis unfolding m1_def [symmetric] by (auto simp: wf_def wfx_def sel)
qed

lemma wf_unreserve: "wf m \<Longrightarrow> wf (unreserve p m)"
proof -
  assume m: "wf m"
  define m1 where "m1 = upd_item (\<lambda>it. it\<lparr>reserved := False\<rparr>) p m"
  define m2 where "m2 = (case grp (heap m1 p) of None \<Rightarrow> m1 | Some d \<Rightarrow> clear_wake d m1)"
  have m1: "wfx m1 {p}" unfolding m1_def using wf_wfx [OF m] by (intro wfx_poke) (auto simp: keeps_core_def)
  then have m2: "wfx m2 {p}" by (simp add: m2_def wfx_clear_wake split: option.splits)
  have "awake m2 p"
    unfolding awake_def
  proof (intro allI impI)
    fix d g
    assume g: "groups m2 d = Some g" "p \<in> set (gitems g)"
    then obtain g1 where g1: "groups m1 d = Some g1" "p \<in> set (gitems g1)"
      by (auto simp: m2_def clear_wake_groups split: option.splits if_splits)
    then have "in_group m1 d p" "p \<in> set (order m1)"
      using index_ok_group [OF wfxD(4) [OF m1], of d] by (auto simp: group_ok_def list_ok_def)
    then have "grp (heap m1 p) = Some d"
      using index_ok_grp [OF wfxD(4) [OF m1], of p] by (simp add: in_group_def)
    with g show "wake g = zero_time" by (auto simp: m2_def clear_wake_groups)
  qed
  moreover have "size_ok m2 p" if "p \<in> set (order m2)"
    using wf_size [OF m, of p] that by (auto simp: m2_def m1_def size_ok_def split: option.splits)
  moreover from \<open>awake m2 p\<close> have "wake_ok m2 {}" using wake_ok_close [OF wfxD(5) [OF m2], of p] by simp
  ultimately have "wf m2" using m2 by (auto simp: wf_def wfx_def)
  then show ?thesis using m by (simp add: unreserve_def m1_def [symmetric] m2_def [symmetric] Let_def)
qed

section \<open>Entering and leaving the queue\<close>

lemma key_head_some:
  assumes "key_ok m k" and "p \<in> set (order m)" and "rOrderKey (rec_at m p) = k" and "k \<noteq> ''''"
  obtains l where "byKey m k = Some l" "l \<noteq> []" "ksorted (seq_at m) l" "p \<in> set l"
    "set l = {p \<in> set (order m). rOrderKey (rec_at m p) = k}"
  using assms by (auto simp: key_ok_def split: option.splits)

lemma enter_sel:
  fixes m it
  defines "p \<equiv> nextPtr m"
  shows "order (enter it m) = order m @ [p]" "items (enter it m) = AList.update (rID (irec it)) p (items m)"
    "nextPtr (enter it m) = Suc p" "mbytes (enter it m) = mbytes m + isize it"
    "seq (enter it m) = max (seq m) (rSeq (irec it))" "lim (enter it m) = lim m"
    "rec_at (enter it m) p = irec it" "q \<noteq> p \<Longrightarrow> heap (enter it m) q = heap m q"
    "isize (heap (enter it m) p) = isize it" "bodyN (heap (enter it m) p) = bodyN it"
    "ckptN (heap (enter it m) p) = ckptN it"
    "byKey (enter it m) = (if rOrderKey (irec it) = '''' then byKey m else (byKey m)(rOrderKey (irec it) \<mapsto>
        (case byKey m (rOrderKey (irec it)) of None \<Rightarrow> [] | Some l \<Rightarrow> l) @ [p]))"
  by (simp_all add: enter_def p_def link_heap Let_def max_def)

lemma AList_update_new: "k \<notin> fst ` set al \<Longrightarrow> AList.update k v al = al @ [(k, v)]"
  by (induction al) auto

lemma enter_lookup:
  assumes "lookup m (rID (irec it)) = None"
  shows "lookup (enter it m) i = (if i = rID (irec it) then Some (nextPtr m) else lookup m i)"
    and "length (items (enter it m)) = Suc (length (items m))"
    and "distinct (map fst (items m)) \<Longrightarrow> distinct (map fst (items (enter it m)))"
proof -
  have new: "AList.update (rID (irec it)) (nextPtr m) (items m) = items m @ [(rID (irec it), nextPtr m)]"
    using assms by (simp add: lookup_def map_of_eq_None_iff AList_update_new)
  show "lookup (enter it m) i = (if i = rID (irec it) then Some (nextPtr m) else lookup m i)"
    by (simp add: lookup_def enter_sel update_conv')
  show "length (items (enter it m)) = Suc (length (items m))" by (simp add: enter_sel new)
  show "distinct (map fst (items m)) \<Longrightarrow> distinct (map fst (items (enter it m)))"
    by (simp add: enter_sel distinct_update)
qed



definition ready :: "memItem \<Rightarrow> machine \<Rightarrow> bool" where
  "ready it m \<longleftrightarrow> lookup m (rID (irec it)) = None \<and> seq m < rSeq (irec it)
     \<and> rState (irec it) \<in> {Pending, Leased, Parked} \<and> isize it = Size (irec it) + bodyN it + ckptN it"

definition entering :: "memItem \<Rightarrow> machine \<Rightarrow> machine" where
  "entering it m = m\<lparr>nextPtr := Suc (nextPtr m), heap := (heap m)(nextPtr m := it), order := order m @ [nextPtr m],
     items := AList.update (rID (irec it)) (nextPtr m) (items m)\<rparr>"

lemma enter_link:
  "groups (enter it m) = groups (link (nextPtr m) (entering it m))"
  "parked (enter it m) = parked (link (nextPtr m) (entering it m))"
  "parkedHint (enter it m) = parkedHint (link (nextPtr m) (entering it m))"
  "counts (enter it m) = counts (link (nextPtr m) (entering it m))"
  "heap (enter it m) = heap (link (nextPtr m) (entering it m))"
  by (simp_all add: enter_def entering_def Let_def)

lemma fresh_ptr: "order_ok m \<Longrightarrow> nextPtr m \<notin> set (order m)"
  by (auto simp: order_ok_def)

lemma enter_index:
  assumes m: "wf m" and new: "seq m < rSeq (irec it)"
  shows "index_ok (enter it m) (set (order (enter it m)))"
proof -
  let ?p = "nextPtr m" and ?m1 = "entering it m" and ?A = "set (order m)"
  note D = wfxD [OF m [unfolded wf_def]]
  have p: "?p \<notin> ?A" by (rule fresh_ptr [OF D(1)])
  have "index_ok m ?A = index_ok ?m1 ?A"
    using p by (intro index_ok_cong) (auto simp: entering_def)
  moreover have "\<forall>q\<in>?A. seq_at ?m1 q \<noteq> seq_at ?m1 ?p"
    using D(1) new p by (auto simp: order_ok_def entering_def)
  ultimately have "index_ok (link ?p ?m1) (insert ?p ?A)"
    using D(4) p by (intro link_index) auto
  moreover have "index_ok (enter it m) (insert ?p ?A) = index_ok (link ?p ?m1) (insert ?p ?A)"
    by (intro index_ok_cong) (auto simp: enter_link)
  ultimately show ?thesis by (simp add: enter_sel)
qed

lemma enter_eligible:
  assumes m: "wf m" and q: "q \<in> set (order m)"
  shows "eligible (enter it m) q now = eligible m q now"
proof -
  note D = wfxD [OF m [unfolded wf_def]]
  have hp: "heap (enter it m) q = heap m q" using fresh_ptr [OF D(1)] q by (intro enter_sel) auto
  have "key_head (enter it m) (rOrderKey (rec_at m q)) = key_head m (rOrderKey (rec_at m q))"
    if k: "rOrderKey (rec_at m q) \<noteq> ''''"
  proof -
    from key_head_some [OF D(2) q refl k] obtain l where l: "byKey m (rOrderKey (rec_at m q)) = Some l" "l \<noteq> []"
      by blast
    then obtain x xs where "l = x # xs" by (cases l) auto
    with l show ?thesis
      by (cases "rOrderKey (rec_at m q) = rOrderKey (irec it)") (auto simp: key_head_def enter_sel(12))
  qed
  then show ?thesis
    by (cases "rOrderKey (rec_at m q) = ''''") (simp_all add: eligible_def hp Let_def)
qed

lemma enter_wake:
  assumes m: "wf m"
  shows "wake_ok (enter it m) {}"
  unfolding wake_ok_def
proof (intro allI impI)
  fix d g q now
  assume g: "groups (enter it m) d = Some g" "wake g \<noteq> zero_time" "now < wake g" "q \<in> set (gitems g)"
  note D = wfxD [OF m [unfolded wf_def]]
  from g have "groups (entering it m) d = Some g" using link_groups_cases [of "nextPtr m" "entering it m" d g] by (simp add: enter_link(1))
  then have g0: "groups m d = Some g" by (simp add: entering_def)
  with g(4) index_ok_group [OF D(4), of d] have "q \<in> set (order m)" by (auto simp: group_ok_def list_ok_def)
  then have "eligible (enter it m) q now = eligible m q now" by (rule enter_eligible [OF m])
  moreover have "\<not> eligible m q now" using D(5) g g0 unfolding wake_ok_def by blast
  ultimately show "\<not> eligible (enter it m) q now" by simp
qed

lemma wf_enter:
  assumes m: "wf m" and r: "ready it m"
  shows "wf (enter it m)"
proof -
  note D = wfxD [OF m [unfolded wf_def]]
  let ?p = "nextPtr m" and ?m = "enter it m"
  have p: "?p \<notin> set (order m)" by (rule fresh_ptr [OF D(1)])
  then have hp: "heap ?m q = heap m q" if "q \<in> set (order m)" for q using that by (intro enter_sel) auto
  have seqs: "ksorted (seq_at ?m) (order m)"
    using order_ksorted [OF D(1)] ksorted_cong [of "order m" "seq_at ?m" "seq_at m"] by (simp add: hp)
  have below: "seq_at m q \<le> seq m" if "q \<in> set (order m)" for q using D(1) that by (simp add: order_ok_def)
  have new: "seq m < rSeq (irec it)" "lookup m (rID (irec it)) = None" "isize it = Size (irec it) + bodyN it + ckptN it"
    "rState (irec it) \<in> {Pending, Leased, Parked}" using r by (auto simp: ready_def)
  have lt: "seq_at m q < rSeq (irec it)" if "q \<in> set (order m)" for q using below [OF that] new(1) by simp
  have "order_ok ?m"
    unfolding order_ok_def
  proof (intro conjI allI ballI)
    show "ksorted (seq_at ?m) (order ?m)" using seqs lt by (auto simp: enter_sel hp)
    show "distinct (map fst (items ?m))" "length (items ?m) = length (order ?m)"
      using enter_lookup [OF new(2)] D(1) by (auto simp: order_ok_def enter_sel(1))
    show "lookup ?m i = Some q \<longleftrightarrow> q \<in> set (order ?m) \<and> rID (rec_at ?m q) = i" for i q
    proof -
      have old: "lookup m j = Some q \<longleftrightarrow> q \<in> set (order m) \<and> rID (rec_at m q) = j" for j
        using D(1) by (simp add: order_ok_def)
      show ?thesis
        using old [of i] old [of "rID (irec it)"] new(2) p
        by (cases "q = ?p") (auto simp: enter_lookup [OF new(2)] enter_sel)
    qed
    fix q assume "q \<in> set (order ?m)"
    then show "seq_at ?m q \<le> seq ?m" "q < nextPtr ?m" "state_at ?m q \<in> {Pending, Leased, Parked}"
      using D(1) new(4) by (auto simp: order_ok_def enter_sel hp le_max_iff_disj less_SucI)
  qed
  moreover have "key_ok ?m k" for k
  proof -
    have srt: "ksorted (seq_at ?m) l = ksorted (seq_at m) l" if "set l \<subseteq> set (order m)" for l
      using that by (intro ksorted_cong) (auto simp: hp)
    show ?thesis
    proof (cases "k \<noteq> '''' \<and> k = rOrderKey (irec it)")
      case True
      with D(2) [of k] lt p srt show ?thesis
        by (cases "byKey m k") (auto simp: key_ok_def enter_sel hp)
    next
      case False
      then have "byKey ?m k = byKey m k"
        "k \<noteq> '''' \<Longrightarrow> {q \<in> set (order ?m). rOrderKey (rec_at ?m q) = k} = {q \<in> set (order m). rOrderKey (rec_at m q) = k}"
        by (auto simp: enter_sel hp)
      with D(2) [of k] srt show ?thesis
        by (cases "byKey m k") (auto simp: key_ok_def)
    qed
  qed
  moreover have "sum_list (map (\<lambda>q. isize (heap ?m q)) (order m)) = sum_list (map (\<lambda>q. isize (heap m q)) (order m))"
    by (intro sum_list_map_cong) (simp add: hp)
  then have "mbytes ?m = sum_list (map (\<lambda>q. isize (heap ?m q)) (order ?m))"
    using D(3) by (simp add: enter_sel)
  moreover have "size_ok ?m q" if "q \<in> set (order ?m)" for q
    using that D(6) [of q] new(3) by (auto simp: size_ok_def enter_sel hp)
  ultimately show ?thesis using enter_index [OF m new(1)] enter_wake [OF m] by (simp add: wf_def wfx_def)
qed

lemma headers_size_Nil [simp]: "headers_size [] = 0"
  by (simp add: headers_size_def)

lemma wf_machine_insert:
  assumes "wf m" and "seq m < rSeq r" and "rState r \<in> {Pending, Leased, Parked}"
  shows "wf (machine_insert r m)"
  unfolding machine_insert_def using assms by (auto intro!: wf_enter simp: ready_def zero_item_def)

lemma wf_insertOffloaded:
  assumes "wf m" and "seq m < rSeq r" and "rState r \<in> {Pending, Leased, Parked}"
  shows "wf (insertOffloaded r body m)"
  unfolding insertOffloaded_def using assms
  by (auto intro!: wf_enter simp: ready_def zero_item_def Size_def bodySize_def blen_def)

lemma length_AList_delete:
  "distinct (map fst al) \<Longrightarrow> k \<in> fst ` set al \<Longrightarrow> Suc (length (AList.delete k al)) = length al"
proof (induction al)
  case (Cons a al)
  show ?case
  proof (cases "fst a = k")
    case True
    with Cons.prems have "k \<notin> fst ` set al" by auto
    then have "AList.delete k al = al" by (simp add: AList.delete_idem)
    with True show ?thesis by (cases a) (simp add: AList.delete_eq)
  next
    case False
    with Cons show ?thesis by (cases a) (auto simp: AList.delete_eq)
  qed
qed simp

definition leaving :: "ptr \<Rightarrow> machine \<Rightarrow> machine" where
  "leaving p m = unlink p (upd_item (\<lambda>it. it\<lparr>ver := Suc (ver it)\<rparr>) p m)"

lemma leaving_sel [simp]:
  "order (leaving p m) = order m" "items (leaving p m) = items m" "byKey (leaving p m) = byKey m"
  "seq (leaving p m) = seq m" "mbytes (leaving p m) = mbytes m" "lim (leaving p m) = lim m"
  "nextPtr (leaving p m) = nextPtr m" "rec_at (leaving p m) q = rec_at m q"
  "isize (heap (leaving p m) q) = isize (heap m q)" "q \<noteq> p \<Longrightarrow> heap (leaving p m) q = heap m q"
  by (simp_all add: leaving_def unlink_heap)

lemma leaving_index:
  assumes m: "wf m" and p: "p \<in> set (order m)"
  shows "index_ok (leaving p m) (set (order m) - {p})" and "wake_ok (leaving p m) {p}"
proof -
  note D = wfxD [OF wf_wfx [OF m, of "{p}"]]
  let ?m1 = "upd_item (\<lambda>it. it\<lparr>ver := Suc (ver it)\<rparr>) p m"
  have i: "index_ok ?m1 (set (order m))" using D(4) index_ok_cong [of m ?m1 "set (order m)"] by simp
  then show "index_ok (leaving p m) (set (order m) - {p})" using p by (auto simp: leaving_def intro: unlink_index)
  have "wake_ok ?m1 {p}" by (rule wake_ok_poke [OF D(5)]) simp
  then show "wake_ok (leaving p m) {p}" unfolding leaving_def by (rule unlink_wake [OF i p])
qed

definition key_rest :: "ptr \<Rightarrow> machine \<Rightarrow> ptr list" where
  "key_rest p m = remove1 p (case byKey m (rOrderKey (rec_at m p)) of None \<Rightarrow> [] | Some l \<Rightarrow> l)"

lemma remove_sel:
  "order (machine_remove p m) = remove1 p (order m)"
  "items (machine_remove p m) = AList.delete (rID (rec_at m p)) (items m)"
  "mbytes (machine_remove p m) = mbytes m - isize (heap m p)"
  "seq (machine_remove p m) = seq m" "lim (machine_remove p m) = lim m" "nextPtr (machine_remove p m) = nextPtr m"
  "heap (machine_remove p m) = heap (leaving p m)" "parked (machine_remove p m) = parked (leaving p m)"
  "parkedHint (machine_remove p m) = parkedHint (leaving p m)" "counts (machine_remove p m) = counts (leaving p m)"
  "byKey (machine_remove p m) = (if rOrderKey (rec_at m p) = '''' then byKey m
     else (byKey m)(rOrderKey (rec_at m p) := (if key_rest p m = [] then None else Some (key_rest p m))))"
  by (simp_all add: machine_remove_def leaving_def [symmetric] Let_def key_rest_def split: option.splits)

definition succ_group :: "ptr \<Rightarrow> machine \<Rightarrow> string option" where
  "succ_group p m = (if rOrderKey (rec_at m p) \<noteq> '''' \<and> key_head m (rOrderKey (rec_at m p)) = Some p \<and> key_rest p m \<noteq> []
     then grp (heap (leaving p m) (hd (key_rest p m))) else None)"

lemma remove_groups:
  "groups (machine_remove p m) e = (if succ_group p m = Some e
     then map_option (\<lambda>g. g\<lparr>wake := zero_time\<rparr>) (groups (leaving p m) e) else groups (leaving p m) e)"
proof -
  let ?l = "case byKey m (rOrderKey (rec_at m p)) of None \<Rightarrow> [] | Some l \<Rightarrow> l"
  have hd: "?l \<noteq> [] \<and> hd ?l = p \<longleftrightarrow> key_head m (rOrderKey (rec_at m p)) = Some p"
    by (auto simp: key_head_def split: option.splits list.splits)
  then show ?thesis
    by (auto simp: machine_remove_def leaving_def [symmetric] Let_def key_rest_def succ_group_def clear_wake_groups clear_wake_def
        split: option.splits)
qed

lemma remove_index:
  assumes m: "wf m" and p: "p \<in> set (order m)"
  shows "index_ok (machine_remove p m) (set (order m) - {p})"
proof -
  let ?m1 = "case succ_group p m of None \<Rightarrow> leaving p m | Some d \<Rightarrow> clear_wake d (leaving p m)"
  have "index_ok ?m1 (set (order m) - {p})"
    using leaving_index(1) [OF m p] by (simp add: clear_wake_index split: option.splits)
  moreover have "groups (machine_remove p m) = groups ?m1"
    by (rule ext) (auto simp: remove_groups clear_wake_groups split: option.splits)
  then have "index_ok (machine_remove p m) (set (order m) - {p}) = index_ok ?m1 (set (order m) - {p})"
    by (intro index_ok_cong) (auto simp: remove_sel split: option.splits)
  ultimately show ?thesis by simp
qed

lemma remove_key_head:
  assumes m: "wf m" and p: "p \<in> set (order m)" and k: "k \<noteq> ''''"
    and h: "key_head (machine_remove p m) k = Some q" "key_head m k \<noteq> Some q"
  shows "k = rOrderKey (rec_at m p) \<and> key_head m k = Some p \<and> key_rest p m \<noteq> [] \<and> hd (key_rest p m) = q"
proof (cases "k = rOrderKey (rec_at m p)")
  case False
  then show ?thesis using h by (simp add: key_head_def remove_sel split: if_splits)
next
  case True
  obtain l where l: "byKey m k = Some l" "l \<noteq> []" using key_head_some [OF wfxD(2) [OF m [unfolded wf_def]] p True [symmetric] k] by blast
  then obtain x xs where "l = x # xs" by (cases l) auto
  with True l h k show ?thesis
    by (cases "remove1 p l") (auto simp: key_head_def remove_sel key_rest_def split: if_splits)
qed

lemma remove_wake:
  assumes m: "wf m" and p: "p \<in> set (order m)"
  shows "wake_ok (machine_remove p m) {}"
  unfolding wake_ok_def
proof (intro allI impI notI)
  fix d g q now
  assume g: "groups (machine_remove p m) d = Some g" "wake g \<noteq> zero_time" "now < wake g" "q \<in> set (gitems g)"
    and el: "eligible (machine_remove p m) q now"
  note idx = remove_index [OF m p]
  from g(4) index_ok_group [OF idx, of d] g(1) have q: "q \<in> set (order m)" "q \<noteq> p" "in_group (machine_remove p m) d q"
    by (auto simp: group_ok_def list_ok_def)
  then have grp: "grp (heap (leaving p m) q) = Some d"
    using index_ok_grp [OF idx, of q] by (auto simp: in_group_def remove_sel)
  from g(1,2) have g0: "groups (leaving p m) d = Some g" and ns: "succ_group p m \<noteq> Some d"
    by (auto simp: remove_groups split: if_splits)
  have hq: "heap (machine_remove p m) q = heap m q" using q by (simp add: remove_sel)
  have "\<not> eligible (leaving p m) q now"
    using leaving_index(2) [OF m p] g0 g q(2) unfolding wake_ok_def by blast
  moreover have "eligible (leaving p m) q now = eligible m q now" using q(2) by (intro eligible_cong) simp_all
  ultimately have nel: "\<not> eligible m q now" by simp
  let ?k = "rOrderKey (rec_at m q)"
  from el nel have "?k \<noteq> ''''" "key_head (machine_remove p m) ?k = Some q" "key_head m ?k \<noteq> Some q"
    by (auto simp: eligible_def hq Let_def split: if_splits)
  from remove_key_head [OF m p this] grp ns \<open>?k \<noteq> ''''\<close> show False by (auto simp: succ_group_def)
qed

lemma remove_lookup:
  assumes "order_ok m" and "p \<in> set (order m)"
  shows "lookup (machine_remove p m) i = (if i = rID (rec_at m p) then None else lookup m i)"
  by (simp add: lookup_def remove_sel delete_conv')

lemma remove_order_ok:
  assumes m: "order_ok m" and p: "p \<in> set (order m)"
  shows "order_ok (machine_remove p m)"
  unfolding order_ok_def
proof (intro conjI allI ballI)
  have rec: "rec_at (machine_remove p m) q = rec_at m q" for q by (simp add: remove_sel)
  have d: "distinct (order m)" using ksorted_distinct [OF order_ksorted [OF m]] .
  show "ksorted (seq_at (machine_remove p m)) (order (machine_remove p m))"
    using ksorted_remove1 [OF order_ksorted [OF m]] by (simp add: remove_sel)
  show "lookup (machine_remove p m) i = Some q \<longleftrightarrow> q \<in> set (order (machine_remove p m)) \<and> rID (rec_at (machine_remove p m) q) = i"
    for i q
  proof -
    have l: "lookup m j = Some x \<longleftrightarrow> x \<in> set (order m) \<and> rID (rec_at m x) = j" for j x
      using m by (simp add: order_ok_def)
    from l [of "rID (rec_at m p)" p] p have "lookup m (rID (rec_at m p)) = Some p" by simp
    with l [of i q] d show ?thesis by (auto simp: remove_lookup [OF m p] rec remove_sel)
  qed
  show "distinct (map fst (items (machine_remove p m)))"
    using m by (simp add: remove_sel distinct_delete order_ok_def)
  have "rID (rec_at m p) \<in> fst ` set (items m)"
    using m p by (metis (mono_tags, lifting) lookup_def map_of_eq_None_iff option.distinct(1) order_ok_def)
  from length_AList_delete [OF _ this] m p show "length (items (machine_remove p m)) = length (order (machine_remove p m))"
    by (simp add: order_ok_def remove_sel length_remove1)
  fix q assume "q \<in> set (order (machine_remove p m))"
  then have "q \<in> set (order m)" using set_remove1_subset by (fastforce simp: remove_sel)
  with m show "seq_at (machine_remove p m) q \<le> seq (machine_remove p m)" "q < nextPtr (machine_remove p m)"
    "state_at (machine_remove p m) q \<in> {Pending, Leased, Parked}" by (auto simp: order_ok_def remove_sel)
qed

lemma remove_key_ok:
  assumes m: "wf m" and p: "p \<in> set (order m)"
  shows "key_ok (machine_remove p m) k"
proof -
  note D = wfxD [OF m [unfolded wf_def]]
  have d: "set (remove1 p (order m)) = set (order m) - {p}"
    using ksorted_distinct [OF order_ksorted [OF D(1)]] by simp
  show ?thesis
  proof (cases "k \<noteq> '''' \<and> k = rOrderKey (rec_at m p)")
    case True
    then have k: "rOrderKey (rec_at m p) = k" "k \<noteq> ''''" by auto
    obtain l where l: "byKey m k = Some l" "ksorted (seq_at m) l"
        "set l = {q \<in> set (order m). rOrderKey (rec_at m q) = k}"
      by (rule key_head_some [OF D(2) p k])
    then have st: "set (remove1 p l) = {q \<in> set (order m) - {p}. rOrderKey (rec_at m q) = k}"
      using ksorted_distinct [OF l(2)] by auto
    moreover have rest: "key_rest p m = remove1 p l" using True l by (simp add: key_rest_def)
    moreover from st have "remove1 p l = [] \<longleftrightarrow> {q \<in> set (order m) - {p}. rOrderKey (rec_at m q) = k} = {}"
      by (metis set_empty)
    moreover have "byKey (machine_remove p m) k = (if remove1 p l = [] then None else Some (remove1 p l))"
      using k rest by (auto simp: remove_sel)
    ultimately show ?thesis
      using k ksorted_remove1 [OF l(2), of p] d unfolding key_ok_def remove_sel(1,7) leaving_sel
      by (cases "remove1 p l = []") simp_all
  next
    case False
    then have "byKey (machine_remove p m) k = byKey m k" by (auto simp: remove_sel)
    moreover have "k \<noteq> '''' \<Longrightarrow> {q \<in> set (order m) - {p}. rOrderKey (rec_at m q) = k} = {q \<in> set (order m). rOrderKey (rec_at m q) = k}"
      using False by auto
    ultimately show ?thesis using D(2) [of k] d by (auto simp: key_ok_def remove_sel split: option.splits)
  qed
qed

lemma wf_machine_remove:
  assumes m: "wf m" and p: "p \<in> set (order m)"
  shows "wf (machine_remove p m)"
proof -
  note D = wfxD [OF m [unfolded wf_def]]
  have d: "set (order (machine_remove p m)) = set (order m) - {p}"
    using ksorted_distinct [OF order_ksorted [OF D(1)]] by (simp add: remove_sel)
  have "mbytes (machine_remove p m) = sum_list (map (\<lambda>q. isize (heap (machine_remove p m) q)) (order (machine_remove p m)))"
    using D(3) p by (simp add: remove_sel sum_list_map_remove1_int)
  moreover have "size_ok (machine_remove p m) q" if "q \<in> set (order (machine_remove p m))" for q
    using D(6) [of q] that d by (auto simp: size_ok_def remove_sel)
  ultimately show ?thesis
    using remove_order_ok [OF D(1) p] remove_key_ok [OF m p] remove_index [OF m p] remove_wake [OF m p] d
    by (simp add: wf_def wfx_def)
qed

section \<open>Replay\<close>

lemma lookup_order: "wf m \<Longrightarrow> lookup m i = Some p \<Longrightarrow> p \<in> set (order m) \<and> rID (rec_at m p) = i"
  by (auto simp: wf_def wfx_def order_ok_def)

lemma order_lookup: "wf m \<Longrightarrow> p \<in> set (order m) \<Longrightarrow> lookup m (rID (rec_at m p)) = Some p"
  by (auto simp: wf_def wfx_def order_ok_def)

lemma wf_with_item:
  assumes "wf m" and "\<And>p. p \<in> set (order m) \<Longrightarrow> wf (f p m)"
  shows "wf (with_item f i m)"
  using assms lookup_order [OF assms(1)] by (auto simp: with_item_def split: option.splits)

lemma wf_replayLease:
  assumes m: "wf m"
  shows "wf (replayLease i m)"
  unfolding replayLease_def
proof (rule wf_with_item [OF m])
  fix p assume p: "p \<in> set (order m)"
  define m1 where "m1 = upd_rec (\<lambda>r. r\<lparr>rAttempts := rAttempts r + 1\<rparr>) p m"
  have 1: "wfx m1 {p}" "p \<in> set (order m1)" "size_ok m1 p"
    using wf_wfx [OF m, of "{p}"] p wf_size [OF m p]
    by (auto simp: m1_def keeps_rec_def Size_def intro!: wfx_upd_rec size_ok_upd_rec)
  have "rBlockedOn (rec_at m1 p) = rBlockedOn (rec_at m p)" by (simp add: m1_def)
  with 1 show "wf (move p Leased (rBlockedOn (rec_at m p)) (upd_rec (\<lambda>r. r\<lparr>rAttempts := rAttempts r + 1\<rparr>) p m))"
    unfolding m1_def [symmetric] using wfx_move [OF 1(1,2), of Leased] size_ok_move [OF 1, of Leased] by (intro wf_close [of _ p]) auto
qed

lemma wf_replay:
  assumes "wf m"
  shows "wf (replayAck i m)" and "wf (replayNack i t nxt e b rf m)" and "wf (replayRelease i m)"
    and "wf (replayPark i t e m)" and "wf (replayDiscard i m)"
  unfolding replayAck_def replayNack_def replayRelease_def replayPark_def replayDiscard_def
  by (auto intro!: wf_with_item assms wf_machine_remove wf_applyNack wf_applyRelease wf_applyPark)

lemma wf_end_lease:
  assumes m: "wf m" and p: "p \<in> set (order m)"
  shows "wf (end_lease p m) \<and> order (end_lease p m) = order m"
  using wf_move_then [OF assms, of Pending] wf_move_same_dep [OF assms, of Pending] m
  by (auto simp: end_lease_def intro!: wf_close [of _ p] wfx_unlease)

lemma wf_end_leases: "wf m \<Longrightarrow> set ps \<subseteq> set (order m) \<Longrightarrow> wf (fold end_lease ps m) \<and> order (fold end_lease ps m) = order m"
  by (induction ps arbitrary: m) (auto simp: wf_end_lease)

lemma wf_endReplay: "wf m \<Longrightarrow> wf (endReplay m)"
  by (simp add: endReplay_def wf_end_leases)

lemma held_order:
  assumes "wf m" and "held m i tok = Inr p"
  shows "p \<in> set (order m)" "rID (rec_at m p) = i" "state_at m p = Leased" "token (heap m p) = tok" "tok \<noteq> ''''"
    "lookup m i = Some p"
  using assms lookup_order [OF assms(1)] by (auto simp: held_def split: option.splits if_splits)

end
