(* ===== verification/GG_Select.thy ===== *)
theory GG_Select
  imports GG_Machine_Ops
begin

text \<open>
  Which records a lease call gets.  \<open>selectLease\<close> scans one list per dependency, skips the groups
  whose cached wake time has not come, cuts every scan off at the number wanted, and merges the
  results by sequence number.  Here it is shown to return what a plain walk over the whole queue in
  sequence order would: the first eligible records of the dependencies asked for, whatever the
  caches hold and in whatever order Go ranges over the map of groups.
\<close>

section \<open>Scanning one group\<close>

lemma scan_loop_picks:
  assumes "int (length out) < mx"
  shows "fst (scan_loop m now mx ps out nxt) =
    out @ take (nat mx - length out) (filter (\<lambda>p. eligible m p now) ps)"
  using assms
proof (induction m now mx ps out nxt rule: scan_loop.induct)
  case (2 m now mx p ps out nxt)
  show ?case
  proof (cases "eligible m p now")
    case True
    have n: "nat mx - length out = Suc (nat mx - length (out @ [p]))" using 2(3) by auto
    show ?thesis
    proof (cases "int (length (out @ [p])) = mx")
      case full: True
      then have "nat mx - length (out @ [p]) = 0" by simp
      with True full n show ?thesis by simp
    next
      case False
      with 2 True n show ?thesis by simp
    qed
  next
    case False
    with 2 show ?thesis by (simp add: Let_def)
  qed
qed simp

text \<open>With nothing eligible, the time returned is no later than the next one at which an item falls due.\<close>

lemma scan_loop_next:
  assumes "\<forall>p\<in>set ps. \<not> eligible m p now" and "0 \<le> now" and "nxt = zero_time \<or> now < nxt"
  shows "(let r = snd (scan_loop m now mx ps [] nxt) in
     (r = zero_time \<or> now < r) \<and> (nxt \<noteq> zero_time \<longrightarrow> r \<noteq> zero_time \<and> r \<le> nxt)
     \<and> (\<forall>p\<in>set ps. now < due_time m p \<longrightarrow> r \<noteq> zero_time \<and> r \<le> due_time m p))"
  using assms
proof (induction ps arbitrary: nxt)
  case (Cons p ps)
  define nxt' where "nxt' = (if now < due_time m p \<and> (IsZero nxt \<or> due_time m p < nxt) then due_time m p else nxt)"
  have step: "scan_loop m now mx (p # ps) [] nxt = scan_loop m now mx ps [] nxt'"
    using Cons.prems(1) by (simp add: nxt'_def Let_def)
  have "nxt' = zero_time \<or> now < nxt'" using Cons.prems(3) by (auto simp: nxt'_def)
  from Cons.IH [OF _ Cons.prems(2) this] Cons.prems(1)
  have ih: "let r = snd (scan_loop m now mx ps [] nxt') in
     (r = zero_time \<or> now < r) \<and> (nxt' \<noteq> zero_time \<longrightarrow> r \<noteq> zero_time \<and> r \<le> nxt')
     \<and> (\<forall>p\<in>set ps. now < due_time m p \<longrightarrow> r \<noteq> zero_time \<and> r \<le> due_time m p)" by simp
  have "nxt \<noteq> zero_time \<longrightarrow> nxt' \<noteq> zero_time \<and> nxt' \<le> nxt"
    and "now < due_time m p \<longrightarrow> nxt' \<noteq> zero_time \<and> nxt' \<le> due_time m p"
    using Cons.prems(2) by (auto simp: nxt'_def zero_time_def)
  with ih show ?case unfolding step Let_def by fastforce
qed simp

lemma not_eligible_until_due:
  assumes "\<not> eligible m p now" and "state_at m p \<in> {Pending, Leased}"
    and "now < due_time m p \<longrightarrow> t \<le> due_time m p" and "now' < t"
  shows "\<not> eligible m p now'"
proof (cases "now < due_time m p")
  case True
  with assms(2-4) show ?thesis by (auto simp: eligible_def due_time_def Let_def)
next
  case False
  with assms(1,2) show ?thesis by (auto simp: eligible_def due_time_def Let_def split: if_splits)
qed

section \<open>Wake times are a cache\<close>

definition set_wake :: "string \<Rightarrow> time \<Rightarrow> machine \<Rightarrow> machine" where
  "set_wake d t m = (case groups m d of None \<Rightarrow> m | Some g \<Rightarrow> m\<lparr>groups := (groups m)(d \<mapsto> g\<lparr>wake := t\<rparr>)\<rparr>)"

definition same_queue :: "machine \<Rightarrow> machine \<Rightarrow> bool" where
  "same_queue m m' \<longleftrightarrow> heap m' = heap m \<and> order m' = order m \<and> items m' = items m \<and> byKey m' = byKey m
     \<and> seq m' = seq m \<and> mbytes m' = mbytes m \<and> parked m' = parked m \<and> parkedHint m' = parkedHint m
     \<and> counts m' = counts m \<and> lim m' = lim m \<and> nextPtr m' = nextPtr m \<and> dom (groups m') = dom (groups m)"

lemma same_queue_refl [simp]: "same_queue m m"
  by (simp add: same_queue_def)

lemma same_queue_trans: "same_queue m1 m2 \<Longrightarrow> same_queue m2 m3 \<Longrightarrow> same_queue m1 m3"
  by (simp add: same_queue_def)

lemma same_queue_eligible: "same_queue m m' \<Longrightarrow> eligible m' p now = eligible m p now"
  by (intro eligible_cong) (simp_all add: same_queue_def)

lemma set_wake_sel [simp]:
  "heap (set_wake d t m) = heap m" "order (set_wake d t m) = order m" "items (set_wake d t m) = items m"
  "byKey (set_wake d t m) = byKey m" "seq (set_wake d t m) = seq m" "mbytes (set_wake d t m) = mbytes m"
  "parked (set_wake d t m) = parked m" "parkedHint (set_wake d t m) = parkedHint m"
  "lim (set_wake d t m) = lim m" "nextPtr (set_wake d t m) = nextPtr m" "counts (set_wake d t m) = counts m"
  by (simp_all add: set_wake_def split: option.splits)

lemma set_wake_groups:
  "groups (set_wake d t m) e = (if e = d then map_option (\<lambda>g. g\<lparr>wake := t\<rparr>) (groups m e) else groups m e)"
  by (auto simp: set_wake_def split: option.splits)

lemma set_wake_same: "same_queue m (set_wake d t m)"
  by (auto simp: same_queue_def dom_def set_wake_groups)

lemma set_wake_index: "index_ok (set_wake d t m) A = index_ok m A"
proof -
  have "group_ok (set_wake d t m) A e = group_ok m A e" for e
    by (cases "groups m e") (auto simp: group_ok_def set_wake_groups in_group_def)
  then show ?thesis by (simp add: index_ok_def)
qed

lemma wf_set_wake:
  assumes m: "wf m" and t: "\<And>g p now. groups m d = Some g \<Longrightarrow> now < t \<Longrightarrow> p \<in> set (gitems g) \<Longrightarrow> \<not> eligible m p now"
  shows "wf (set_wake d t m)"
proof -
  note D = wfxD [OF m [unfolded wf_def]]
  have "order_ok (set_wake d t m)"
    using order_state [OF D(1)] by (intro order_ok_upd [OF D(1)]) auto
  moreover have "key_ok (set_wake d t m) k" for k
    by (intro key_ok_upd [OF D(2)]) auto
  moreover have "wake_ok (set_wake d t m) {}"
    using D(5) t same_queue_eligible [OF set_wake_same]
    by (auto simp: wake_ok_def set_wake_groups split: if_splits)
  ultimately show ?thesis
    using D by (simp add: wf_def wfx_def set_wake_index size_ok_def)
qed

section \<open>The records of one dependency\<close>

definition picked :: "machine \<Rightarrow> time \<Rightarrow> LeaseRequest \<Rightarrow> string \<Rightarrow> ptr list" where
  "picked m now req d = (if d \<in> set (lrSkip req) then []
     else take (nat (lrMax req)) (filter (\<lambda>p. eligible m p now \<and> in_group m d p) (order m)))"

lemma same_queue_picked: "same_queue m m' \<Longrightarrow> picked m' now req d = picked m now req d"
  by (simp add: picked_def same_queue_eligible in_group_def) (simp add: same_queue_def)

lemma group_items:
  assumes m: "wf m" and g: "groups m d = Some g"
  shows "gitems g = filter (in_group m d) (order m)"
proof (rule ksorted_unique)
  note D = wfxD [OF m [unfolded wf_def]]
  show "ksorted (seq_at m) (filter (in_group m d) (order m))" by (rule ksorted_filter [OF order_ksorted [OF D(1)]])
  show "ksorted (seq_at m) (gitems g)" "set (gitems g) = set (filter (in_group m d) (order m))"
    using index_ok_group [OF D(4), of d] g by (auto simp: group_ok_def list_ok_def)
qed

lemma no_group:
  assumes m: "wf m" and g: "groups m d = None"
  shows "filter (in_group m d) (order m) = []"
  using index_ok_group [OF wfxD(4) [OF m [unfolded wf_def]], of d] g by (auto simp: group_ok_def filter_empty_conv)

lemma scan_items: "filter (\<lambda>p. eligible m p now) (filter (in_group m d) xs) = filter (\<lambda>p. eligible m p now \<and> in_group m d p) xs"
  by (simp add: conj_commute)

lemma scanGroup_spec:
  assumes m: "wf m" and now: "0 \<le> now" and mx: "1 \<le> mx" and g: "groups m d = Some g"
  shows "fst (scanGroup d now mx m) = take (nat mx) (filter (\<lambda>p. eligible m p now \<and> in_group m d p) (order m))
    \<and> wf (snd (scanGroup d now mx m)) \<and> same_queue m (snd (scanGroup d now mx m))"
proof -
  obtain out nxt where sl: "scan_loop m now mx (gitems g) [] zero_time = (out, nxt)" by fastforce
  let ?F = "filter (\<lambda>p. eligible m p now \<and> in_group m d p) (order m)"
  have out: "out = take (nat mx) ?F"
    using scan_loop_picks [of "[]" mx m now "gitems g" zero_time] mx unfolding sl
    by (simp add: group_items [OF m g] conj_commute)
  show ?thesis
  proof (cases "out = []")
    case False
    with m sl out g show ?thesis by (simp add: scanGroup_def)
  next
    case True
    define t where "t = (if IsZero nxt \<or> now + maxWakeSkew < nxt then now + maxWakeSkew else nxt)"
    from True out mx have none: "\<forall>p\<in>set (gitems g). \<not> eligible m p now"
      by (auto simp: group_items [OF m g] filter_empty_conv)
    from scan_loop_next [OF this now, of zero_time mx] sl
    have nxt: "\<forall>p\<in>set (gitems g). now < due_time m p \<longrightarrow> nxt \<noteq> zero_time \<and> nxt \<le> due_time m p" by simp
    have "wf (set_wake d t m)"
    proof (rule wf_set_wake [OF m])
      fix g' p now'
      assume a: "groups m d = Some g'" "now' < t" "p \<in> set (gitems g')"
      with g have p: "p \<in> set (gitems g)" by simp
      then have "state_at m p \<in> {Pending, Leased}"
        using order_state [OF wfxD(1) [OF m [unfolded wf_def]], of p] by (auto simp: group_items [OF m g] in_group_def)
      moreover have "now < due_time m p \<longrightarrow> t \<le> due_time m p" using nxt p by (auto simp: t_def)
      moreover have "\<not> eligible m p now" using none p by blast
      ultimately show "\<not> eligible m p now'" using not_eligible_until_due a(2) by blast
    qed
    moreover have "snd (scanGroup d now mx m) = set_wake d t m"
      using sl g True by (simp add: scanGroup_def t_def set_wake_def Let_def)
    moreover have "fst (scanGroup d now mx m) = []" using sl g True by (simp add: scanGroup_def Let_def)
    ultimately show ?thesis using True out set_wake_same by simp
  qed
qed

lemma consider_group_spec:
  assumes m: "wf m" and now: "0 \<le> now" and mx: "1 \<le> lrMax req"
  shows "fst (consider_group now req d (acc, m)) = acc @ filter (\<lambda>l. l \<noteq> []) [picked m now req d]
    \<and> wf (snd (consider_group now req d (acc, m))) \<and> same_queue m (snd (consider_group now req d (acc, m)))"
proof (cases "groups m d")
  case None
  then have "picked m now req d = []"
    using no_group [OF m None] by (auto simp: picked_def filter_empty_conv)
  with None m show ?thesis by (simp add: consider_group_def)
next
  case (Some g)
  consider (skip) "d \<in> set (lrSkip req)" | (asleep) "d \<notin> set (lrSkip req)" "wake g \<noteq> zero_time" "now < wake g"
    | (scan) "d \<notin> set (lrSkip req)" "\<not> (wake g \<noteq> zero_time \<and> now < wake g)" by blast
  then show ?thesis
  proof cases
    case skip
    with Some m show ?thesis by (simp add: consider_group_def picked_def)
  next
    case asleep
    then have "\<forall>p\<in>set (gitems g). \<not> eligible m p now"
      using wfxD(5) [OF m [unfolded wf_def]] Some unfolding wake_ok_def by blast
    then have "picked m now req d = []"
      by (auto simp: picked_def filter_empty_conv group_items [OF m Some])
    with asleep Some m show ?thesis by (simp add: consider_group_def)
  next
    case scan
    obtain out m' where s: "scanGroup d now (lrMax req) m = (out, m')" by fastforce
    with scanGroup_spec [OF m now mx Some] scan(1)
    have "out = picked m now req d" "wf m'" "same_queue m m'" by (simp_all add: picked_def)
    with scan Some s show ?thesis by (auto simp: consider_group_def)
  qed
qed

lemma consider_fold:
  assumes "wf m" and "0 \<le> now" and "1 \<le> lrMax req"
  shows "fst (fold (consider_group now req) ks (acc, m)) = acc @ filter (\<lambda>l. l \<noteq> []) (map (picked m now req) ks)
    \<and> wf (snd (fold (consider_group now req) ks (acc, m)))
    \<and> same_queue m (snd (fold (consider_group now req) ks (acc, m)))"
  using assms
proof (induction ks arbitrary: acc m)
  case (Cons d ks)
  obtain acc' m' where s: "consider_group now req d (acc, m) = (acc', m')" by fastforce
  with consider_group_spec [OF Cons.prems, of d acc]
  have 1: "acc' = acc @ filter (\<lambda>l. l \<noteq> []) [picked m now req d]" "wf m'" "same_queue m m'" by simp_all
  from Cons.IH [OF 1(2) Cons.prems(2,3), of acc'] 1 same_queue_trans [OF 1(3)] same_queue_picked [OF 1(3)]
  show ?case by (simp add: s)
qed simp

section \<open>Merging by sequence number\<close>

lemma best_list_None: "best_list sq ls = None \<longleftrightarrow> (\<forall>l\<in>set ls. l = [])"
  by (induction ls) (auto split: option.splits)

lemma best_list_Some:
  "best_list sq ls = Some i \<Longrightarrow> i < length ls \<and> ls ! i \<noteq> [] \<and> (\<forall>l\<in>set ls. l \<noteq> [] \<longrightarrow> sq (hd (ls ! i)) \<le> sq (hd l))"
proof (induction ls arbitrary: i)
  case (Cons l ls)
  show ?case
  proof (cases "best_list sq ls")
    case None
    with Cons.prems show ?thesis by (auto simp: best_list_None split: if_splits)
  next
    case (Some j)
    with Cons.IH [OF Some] Cons.prems show ?thesis
      by (auto split: if_splits intro: le_trans)
  qed
qed simp

lemma Union_update:
  "i < length ls \<Longrightarrow> ls ! i = x # xs \<Longrightarrow> distinct (concat ls) \<Longrightarrow>
   (\<Union>l\<in>set (ls[i := xs]). set l) = (\<Union>l\<in>set ls. set l) - {x} \<and> distinct (concat (ls[i := xs]))"
proof (induction ls arbitrary: i)
  case (Cons l ls)
  show ?case
  proof (cases i)
    case 0
    with Cons.prems show ?thesis by auto
  next
    case (Suc j)
    with Cons.prems have IH: "(\<Union>l\<in>set (ls[j := xs]). set l) = (\<Union>l\<in>set ls. set l) - {x}" "distinct (concat (ls[j := xs]))"
      using Cons.IH [of j] by auto
    have "x # xs \<in> set ls" using Cons.prems Suc nth_mem [of j ls] by simp
    with Cons.prems have x: "x \<notin> set l" by fastforce
    then show ?thesis using Suc Cons.prems IH by auto
  qed
qed simp

text \<open>\<open>M\<close> is the merge: key-sorted, with the elements of all the lists.\<close>

lemma merge_lists_take:
  assumes "ksorted sq M" and "set M = (\<Union>l\<in>set ls. set l)" and "\<forall>l\<in>set ls. ksorted sq l" and "distinct (concat ls)"
  shows "merge_lists sq n ls = take n M"
  using assms
proof (induction n arbitrary: ls M)
  case (Suc n)
  show ?case
  proof (cases "best_list sq ls")
    case None
    then have "set M = {}" unfolding Suc.prems(2) by (auto simp: best_list_None)
    with None show ?thesis by simp
  next
    case (Some i)
    note b = best_list_Some [OF Some]
    then obtain x xs where x: "ls ! i = x # xs" by (cases "ls ! i") auto
    have "x \<in> set M" using Suc.prems(2) b x nth_mem [of i ls] by fastforce
    then obtain y M' where M: "M = y # M'" by (cases M) auto
    have "y \<in> (\<Union>l\<in>set ls. set l)" using Suc.prems(2) M by (metis list.set_intros(1))
    then obtain l where l: "l \<in> set ls" "y \<in> set l" by auto
    from l(2) obtain z zs where z: "l = z # zs" by (cases l) auto
    with l(1) Suc.prems(3) have "ksorted sq (z # zs)" by blast
    with l(2) z have "sq z \<le> sq y" by (auto intro: less_imp_le)
    moreover have "sq x \<le> sq z" using b x l z by fastforce
    ultimately have "sq x \<le> sq y" by simp
    with Suc.prems(1) M \<open>x \<in> set M\<close> have xy: "x = y" by auto
    have "ksorted sq xs" using Suc.prems(3) b x nth_mem [of i ls] by fastforce
    then have "\<forall>l\<in>set (ls[i := xs]). ksorted sq l"
      using Suc.prems(3) set_update_subset_insert [of ls i xs] by auto
    moreover have "set M' = (\<Union>l\<in>set (ls[i := xs]). set l)"
      using Union_update [of i ls x xs] b x Suc.prems M xy ksorted_distinct [OF Suc.prems(1)] by auto
    ultimately have "merge_lists sq n (ls[i := xs]) = take n M'"
      using Suc.IH Suc.prems(1,4) M Union_update [of i ls x xs] b x by auto
    with Some x xy M show ?thesis by simp
  qed
qed simp

lemma take_filter_mem: "x \<in> set (take n xs) \<Longrightarrow> Q x \<Longrightarrow> x \<in> set (take n (filter Q xs))"
proof (induction xs arbitrary: n)
  case (Cons y xs)
  show ?case
  proof (cases n)
    case (Suc k)
    have "set (take k (filter Q xs)) \<subseteq> set (take n (filter Q xs))"
      using Suc by (intro set_take_subset_set_take) simp
    with Suc Cons show ?thesis by auto
  qed (use Cons.prems in simp)
qed simp

lemma take_filter_all: "set (take n xs) \<subseteq> S \<Longrightarrow> take n (filter (\<lambda>x. x \<in> S) xs) = take n xs"
proof (induction xs arbitrary: n)
  case (Cons y xs)
  then show ?case by (cases n) auto
qed simp

section \<open>What a lease call selects\<close>

definition wanted :: "machine \<Rightarrow> time \<Rightarrow> LeaseRequest \<Rightarrow> ptr \<Rightarrow> bool" where
  "wanted m now req p \<longleftrightarrow> eligible m p now \<and> rBlockedOn (rec_at m p) \<notin> set (lrSkip req)
     \<and> (lrBlockedOn req = '''' \<or> rBlockedOn (rec_at m p) = lrBlockedOn req)"

lemma eligible_not_parked: "eligible m p now \<Longrightarrow> state_at m p \<noteq> Parked"
  by (auto simp: eligible_def Let_def split: if_splits)

definition dep_of :: "machine \<Rightarrow> ptr \<Rightarrow> string" where
  "dep_of m p = rBlockedOn (rec_at m p)"

lemma picked_filter:
  assumes "F = filter (wanted m now req) (order m)" and "lrBlockedOn req = '''' \<or> lrBlockedOn req = d"
  shows "picked m now req d = take (nat (lrMax req)) (filter (\<lambda>p. dep_of m p = d) F)"
proof -
  have "filter (\<lambda>p. dep_of m p = d) F = (if d \<in> set (lrSkip req) then []
      else filter (\<lambda>p. eligible m p now \<and> in_group m d p) (order m))"
    using assms(2)
    by (auto simp: assms(1) wanted_def in_group_def dep_of_def filter_empty_conv eligible_not_parked
        intro!: filter_cong)
  then show ?thesis by (simp add: picked_def)
qed

text \<open>Cutting each dependency's list off at the number wanted loses nothing of the merged prefix.\<close>

lemma merge_picked:
  assumes srt: "ksorted sq F" and ds: "distinct ds" and all: "\<forall>p\<in>set F. f p \<in> set ds"
  shows "merge_lists sq n (filter (\<lambda>l. l \<noteq> []) (map (\<lambda>d. take n (filter (\<lambda>p. f p = d) F)) ds)) = take n F"
proof -
  let ?L = "\<lambda>d. take n (filter (\<lambda>p. f p = d) F)"
  let ?ls = "filter (\<lambda>l. l \<noteq> []) (map ?L ds)"
  let ?S = "\<Union>l\<in>set ?ls. set l"
  have L: "set (?L d) \<subseteq> {p \<in> set F. f p = d}" for d using set_take_subset by fastforce
  have "merge_lists sq n ?ls = take n (filter (\<lambda>p. p \<in> ?S) F)"
  proof (rule merge_lists_take)
    show "ksorted sq (filter (\<lambda>p. p \<in> ?S) F)" by (rule ksorted_filter [OF srt])
    show "\<forall>l\<in>set ?ls. ksorted sq l" by (auto intro!: ksorted_take ksorted_filter srt)
    have "?S \<subseteq> set F" using L by fastforce
    then show "set (filter (\<lambda>p. p \<in> ?S) F) = ?S" by auto
    show "distinct (concat ?ls)"
      using ds ksorted_distinct [OF srt] L
      by (induction ds) (fastforce simp: distinct_take dest: in_set_takeD)+
  qed
  also have "\<dots> = take n F"
  proof (rule take_filter_all, rule subsetI)
    fix x assume x: "x \<in> set (take n F)"
    then have "f x \<in> set ds" using all by (auto dest: in_set_takeD)
    moreover have "x \<in> set (?L (f x))" using x by (rule take_filter_mem) simp
    moreover from this have "?L (f x) \<noteq> []" by fastforce
    ultimately have "?L (f x) \<in> set ?ls" "x \<in> set (?L (f x))" by auto
    then show "x \<in> ?S" by blast
  qed
  finally show ?thesis .
qed

lemma selectLease_spec:
  assumes m: "wf m" and now: "0 \<le> now" and mx: "1 \<le> lrMax req"
    and ks: "distinct ks" "set ks = dom (groups m)"
  shows "fst (selectLease ks now req m) = take (nat (lrMax req)) (filter (wanted m now req) (order m))
    \<and> wf (snd (selectLease ks now req m)) \<and> same_queue m (snd (selectLease ks now req m))"
proof -
  let ?F = "filter (wanted m now req) (order m)"
  define ds where "ds = (if lrBlockedOn req = '''' then ks else [lrBlockedOn req])"
  obtain ls m' where f: "fold (consider_group now req) ds ([], m) = (ls, m')" by fastforce
  with consider_fold [OF m now mx, of ds "[]"]
  have ls: "ls = filter (\<lambda>l. l \<noteq> []) (map (picked m now req) ds)" and m': "wf m'" "same_queue m m'" by simp_all
  have "map (picked m now req) ds = map (\<lambda>d. take (nat (lrMax req)) (filter (\<lambda>p. dep_of m p = d) ?F)) ds"
    by (intro map_cong refl picked_filter) (auto simp: ds_def split: if_splits)
  moreover have "merge_lists (seq_at m) (nat (lrMax req))
      (filter (\<lambda>l. l \<noteq> []) (map (\<lambda>d. take (nat (lrMax req)) (filter (\<lambda>p. dep_of m p = d) ?F)) ds)) = take (nat (lrMax req)) ?F"
  proof (rule merge_picked)
    show "ksorted (seq_at m) ?F" by (rule ksorted_filter [OF order_ksorted [OF wfxD(1) [OF m [unfolded wf_def]]]])
    show "distinct ds" using ks by (simp add: ds_def)
    have "dep_of m p \<in> dom (groups m)" if "p \<in> set ?F" for p
    proof -
      have "p \<in> set (filter (in_group m (dep_of m p)) (order m))"
        using that by (auto simp: in_group_def dep_of_def wanted_def eligible_not_parked)
      with no_group [OF m, of "dep_of m p"] show ?thesis by (cases "groups m (dep_of m p)") auto
    qed
    then show "\<forall>p\<in>set ?F. dep_of m p \<in> set ds" using ks by (auto simp: ds_def wanted_def dep_of_def)
  qed
  moreover have "seq_at m' = seq_at m" using m'(2) by (simp add: same_queue_def)
  moreover have "selectLease ks now req m = (merge_lists (seq_at m') (nat (lrMax req)) ls, m')"
    using f by (simp add: selectLease_def ds_def split: if_splits)
  ultimately show ?thesis using ls m' by (simp del: map_eq_conv filter_filter)
qed

section \<open>Statistics\<close>

text \<open>The per-group search for the oldest pending record finds the first pending one of the queue.\<close>

lemma find_filter: "find P xs = (case filter P xs of [] \<Rightarrow> None | x # _ \<Rightarrow> Some x)"
  by (induction xs) auto

definition min_seq :: "(ptr \<Rightarrow> nat) \<Rightarrow> ptr option \<Rightarrow> ptr set \<Rightarrow> bool" where
  "min_seq sq x A = (case x of None \<Rightarrow> A = {} | Some p \<Rightarrow> p \<in> A \<and> (\<forall>q\<in>A. sq p \<le> sq q))"

lemma min_seq_hd:
  assumes "ksorted sq xs"
  shows "min_seq sq (find P xs) {p \<in> set xs. P p}"
proof -
  have "ksorted sq (filter P xs)" by (rule ksorted_filter [OF assms])
  moreover have "{p \<in> set xs. P p} = set (filter P xs)" by auto
  ultimately show ?thesis
    by (cases "filter P xs") (auto simp: min_seq_def find_filter simp del: set_filter intro: less_imp_le)
qed

lemma min_seq_unique:
  assumes "ksorted sq xs" and "A \<subseteq> set xs" and "min_seq sq x A" and "min_seq sq y A"
  shows "x = y"
proof (cases x)
  case None
  with assms(3,4) show ?thesis by (cases y) (auto simp: min_seq_def)
next
  case (Some p)
  with assms(3,4) obtain q where "y = Some q" by (cases y) (auto simp: min_seq_def)
  with Some assms ksorted_inj [OF assms(1), of p q] show ?thesis by (auto simp: min_seq_def intro: antisym)
qed

lemma oldest_step_min:
  assumes m: "wf m" and old: "min_seq (seq_at m) old {p \<in> set (order m). state_at m p = Pending \<and> dep_of m p \<in> Ds}"
  shows "min_seq (seq_at m) (oldest_step m d old) {p \<in> set (order m). state_at m p = Pending \<and> dep_of m p \<in> insert d Ds}"
proof -
  let ?B = "{p \<in> set (order m). state_at m p = Pending \<and> dep_of m p = d}"
  have U: "{p \<in> set (order m). state_at m p = Pending \<and> dep_of m p \<in> insert d Ds}
      = {p \<in> set (order m). state_at m p = Pending \<and> dep_of m p \<in> Ds} \<union> ?B" by auto
  show ?thesis
  proof (cases "groups m d")
    case None
    from no_group [OF m None] have "?B = {}" by (auto simp: filter_empty_conv in_group_def dep_of_def)
    then have "{p \<in> set (order m). state_at m p = Pending \<and> dep_of m p \<in> Ds} \<union> ?B
        = {p \<in> set (order m). state_at m p = Pending \<and> dep_of m p \<in> Ds}" by blast
    then show ?thesis using old None by (simp only: U) (simp add: oldest_step_def)
  next
    case (Some g)
    have "ksorted (seq_at m) (gitems g)"
      unfolding group_items [OF m Some] by (rule ksorted_filter [OF order_ksorted [OF wfxD(1) [OF m [unfolded wf_def]]]])
    from min_seq_hd [OF this, of "\<lambda>p. state_at m p = Pending"]
    have "min_seq (seq_at m) (find (\<lambda>p. state_at m p = Pending) (gitems g)) ?B"
      by (rule back_subst [of "min_seq (seq_at m) _"]) (auto simp: group_items [OF m Some] in_group_def dep_of_def)
    then show ?thesis unfolding U using old Some
      by (auto simp: oldest_step_def min_seq_def split: option.splits intro: le_trans less_imp_le)
  qed
qed

lemma oldest_pending:
  assumes m: "wf m" and ks: "set ks = dom (groups m)"
  shows "fold (oldest_step m) ks None = find (\<lambda>p. state_at m p = Pending) (order m)"
proof -
  let ?A = "{p \<in> set (order m). state_at m p = Pending}"
  note D = wfxD [OF m [unfolded wf_def]]
  have step: "min_seq (seq_at m) (fold (oldest_step m) xs old) {p \<in> set (order m). state_at m p = Pending \<and> dep_of m p \<in> Ds \<union> set xs}"
    if "min_seq (seq_at m) old {p \<in> set (order m). state_at m p = Pending \<and> dep_of m p \<in> Ds}" for xs old Ds
    using that
  proof (induction xs arbitrary: old Ds)
    case (Cons d xs)
    from Cons.IH [OF oldest_step_min [OF m Cons.prems, of d]] show ?case by simp
  qed simp
  have "dep_of m p \<in> set ks" if "p \<in> ?A" for p
  proof -
    have "p \<in> set (filter (in_group m (dep_of m p)) (order m))"
      using that by (auto simp: in_group_def dep_of_def)
    with no_group [OF m, of "dep_of m p"] ks show ?thesis by (cases "groups m (dep_of m p)") auto
  qed
  then have "{p \<in> set (order m). state_at m p = Pending \<and> dep_of m p \<in> {} \<union> set ks} = ?A" by auto
  moreover have "min_seq (seq_at m) None {p \<in> set (order m). state_at m p = Pending \<and> dep_of m p \<in> {}}"
    by (simp add: min_seq_def)
  from step [OF this] have "min_seq (seq_at m) (fold (oldest_step m) ks None)
      {p \<in> set (order m). state_at m p = Pending \<and> dep_of m p \<in> {} \<union> set ks}" .
  ultimately have "min_seq (seq_at m) (fold (oldest_step m) ks None) ?A" by simp
  moreover have "min_seq (seq_at m) (find (\<lambda>p. state_at m p = Pending) (order m)) ?A"
    by (rule min_seq_hd [OF order_ksorted [OF D(1)]])
  ultimately show ?thesis by (intro min_seq_unique [OF order_ksorted [OF D(1)], of ?A]) auto
qed

text \<open>The parked list is the parked part of the queue, so its head is the oldest parked record.\<close>

lemma parked_items:
  assumes m: "wf m"
  shows "parked m = filter (\<lambda>p. state_at m p = Parked) (order m)"
proof (rule ksorted_unique)
  note D = wfxD [OF m [unfolded wf_def]]
  show "ksorted (seq_at m) (filter (\<lambda>p. state_at m p = Parked) (order m))"
    by (rule ksorted_filter [OF order_ksorted [OF D(1)]])
  show "ksorted (seq_at m) (parked m)" "set (parked m) = set (filter (\<lambda>p. state_at m p = Parked) (order m))"
    using index_ok_parked [OF D(4)] by (auto simp: list_ok_def)
qed

lemma counts_length:
  assumes m: "wf m"
  shows "counts m s = int (length (filter (\<lambda>p. state_at m p = s) (order m)))"
proof -
  note D = wfxD [OF m [unfolded wf_def]]
  have "distinct (filter (\<lambda>p. state_at m p = s) (order m))"
    using ksorted_distinct [OF order_ksorted [OF D(1)]] by simp
  from distinct_card [OF this] have "card {p \<in> set (order m). state_at m p = s} = length (filter (\<lambda>p. state_at m p = s) (order m))"
    by simp
  with index_ok_counts [OF D(4), of s] show ?thesis by simp
qed

end
