(* ===== verification/GG_Queue.thy ===== *)
theory GG_Queue
  imports GG_Select
begin

text \<open>
  What a dead-letter queue is, without its indexes: a list of entries in sequence order, each a record
  with its lease token and expiry.  Every operation is a plain walk over that list.  The state machine
  of \<open>dlq/machine.go\<close>, with its heap, groups, hints, counters and cached wake times, is shown to
  implement this specification: \<open>queue_of\<close> maps a machine to a queue, and running an operation on the
  machine and abstracting is the same as abstracting and running the operation of the specification.
\<close>

section \<open>Specification\<close>

record entry =
  eRec :: Record
  eToken :: string
  eUntil :: time

record queue =
  qLim :: limits
  qEntries :: "entry list"
  qSeq :: nat

abbreviation eID :: "entry \<Rightarrow> string" where
  "eID e \<equiv> rID (eRec e)"

abbreviation eKey :: "entry \<Rightarrow> string" where
  "eKey e \<equiv> rOrderKey (eRec e)"

definition q_find :: "queue \<Rightarrow> string \<Rightarrow> entry option" where
  "q_find q i = find (\<lambda>e. eID e = i) (qEntries q)"

definition q_bytes :: "queue \<Rightarrow> int" where
  "q_bytes q = sum_list (map (\<lambda>e. Size (eRec e)) (qEntries q))"

text \<open>Change the entry with a given identifier; drop it.\<close>

definition q_upd :: "string \<Rightarrow> (entry \<Rightarrow> entry) \<Rightarrow> queue \<Rightarrow> queue" where
  "q_upd i f q = q\<lparr>qEntries := map (\<lambda>e. if eID e = i then f e else e) (qEntries q)\<rparr>"

definition q_remove :: "string \<Rightarrow> queue \<Rightarrow> queue" where
  "q_remove i q = q\<lparr>qEntries := filter (\<lambda>e. eID e \<noteq> i) (qEntries q)\<rparr>"

definition q_add :: "Record \<Rightarrow> queue \<Rightarrow> queue" where
  "q_add r q = q\<lparr>qEntries := qEntries q @ [\<lparr>eRec = r, eToken = '''', eUntil = zero_time\<rparr>],
                 qSeq := max (qSeq q) (rSeq r)\<rparr>"

text \<open>An entry may be worked on: not parked, its retry time or lease expiry has come.\<close>

definition e_due :: "time \<Rightarrow> entry \<Rightarrow> bool" where
  "e_due now e = (case rState (eRec e) of
       Pending \<Rightarrow> rNextAttempt (eRec e) \<le> now
     | Leased \<Rightarrow> eUntil e \<le> now
     | Parked \<Rightarrow> False
     | OtherState _ \<Rightarrow> True)"

definition e_wanted :: "LeaseRequest \<Rightarrow> entry \<Rightarrow> bool" where
  "e_wanted req e \<longleftrightarrow> rBlockedOn (eRec e) \<notin> set (lrSkip req)
     \<and> (lrBlockedOn req = '''' \<or> rBlockedOn (eRec e) = lrBlockedOn req)"

text \<open>Walk the queue in order; \<open>seen\<close> holds the order keys already met, whose later entries must wait.\<close>

fun q_offers :: "time \<Rightarrow> LeaseRequest \<Rightarrow> string set \<Rightarrow> entry list \<Rightarrow> entry list" where
  "q_offers now req seen [] = []"
| "q_offers now req seen (e # es) =
     (if e_due now e \<and> e_wanted req e \<and> (eKey e = '''' \<or> eKey e \<notin> seen)
      then e # q_offers now req (insert (eKey e) seen) es
      else q_offers now req (insert (eKey e) seen) es)"

definition q_select :: "time \<Rightarrow> LeaseRequest \<Rightarrow> queue \<Rightarrow> string list" where
  "q_select now req q = map eID (take (nat (lrMax req)) (q_offers now req {} (qEntries q)))"

definition e_grant :: "string \<Rightarrow> time \<Rightarrow> duration \<Rightarrow> entry \<Rightarrow> entry" where
  "e_grant tok now ttl e = \<lparr>eRec = (eRec e)\<lparr>rState := Leased, rAttempts := rAttempts (eRec e) + 1\<rparr>,
     eToken = tok, eUntil = now + ttl\<rparr>"

fun q_grant :: "string list \<Rightarrow> string list \<Rightarrow> time \<Rightarrow> duration \<Rightarrow> queue \<Rightarrow> Lease list \<times> queue" where
  "q_grant (i # is) (draw # draws) now ttl q =
     (let q' = q_upd i (e_grant (newToken draw) now ttl) q;
          (ls, q'') = q_grant is draws now ttl q'
      in ((case q_find q' i of None \<Rightarrow> [] | Some e \<Rightarrow> [\<lparr>lRecord = eRec e, lToken = eToken e, lUntil = eUntil e\<rparr>]) @ ls, q''))"
| "q_grant _ _ now ttl q = ([], q)"

definition e_nack :: "time \<Rightarrow> time \<Rightarrow> string \<Rightarrow> string \<Rightarrow> bool \<Rightarrow> entry \<Rightarrow> entry" where
  "e_nack failedAt nxt errText blockedOn refund e = \<lparr>eRec = (eRec e)\<lparr>rState := Pending,
       rBlockedOn := (if blockedOn \<noteq> '''' then blockedOn else rBlockedOn (eRec e)),
       rAttempts := (if refund \<and> 0 < rAttempts (eRec e) then rAttempts (eRec e) - 1 else rAttempts (eRec e)),
       rLastFailed := failedAt, rNextAttempt := nxt, rLastError := errText\<rparr>, eToken = '''', eUntil = zero_time\<rparr>"

definition e_release :: "entry \<Rightarrow> entry" where
  "e_release e = \<lparr>eRec = (eRec e)\<lparr>rState := Pending,
       rAttempts := (if 0 < rAttempts (eRec e) then rAttempts (eRec e) - 1 else rAttempts (eRec e))\<rparr>,
     eToken = '''', eUntil = zero_time\<rparr>"

definition e_park :: "time \<Rightarrow> string \<Rightarrow> entry \<Rightarrow> entry" where
  "e_park failedAt reason e = \<lparr>eRec = (eRec e)\<lparr>rState := Parked, rLastFailed := failedAt, rLastError := reason\<rparr>,
     eToken = '''', eUntil = zero_time\<rparr>"

definition e_requeue :: "bool \<Rightarrow> bytes \<Rightarrow> entry \<Rightarrow> entry" where
  "e_requeue replace cp e = e\<lparr>eRec := (eRec e)\<lparr>rState := Pending, rAttempts := 0, rNextAttempt := zero_time,
     rCheckpoint := (if replace then cp else rCheckpoint (eRec e))\<rparr>\<rparr>"

definition e_checkpoint :: "bytes \<Rightarrow> entry \<Rightarrow> entry" where
  "e_checkpoint cp e = e\<lparr>eRec := (eRec e)\<lparr>rCheckpoint := cp\<rparr>\<rparr>"

section \<open>Abstraction\<close>

definition entry_at :: "machine \<Rightarrow> ptr \<Rightarrow> entry" where
  "entry_at m p = \<lparr>eRec = rec_at m p, eToken = token (heap m p), eUntil = leaseUntil (heap m p)\<rparr>"

definition queue_of :: "machine \<Rightarrow> queue" where
  "queue_of m = \<lparr>qLim = lim m, qEntries = map (entry_at m) (order m), qSeq = seq m\<rparr>"

text \<open>A machine whose payloads are all in memory and that holds no reservation, as a memory store's is.\<close>

definition in_memory :: "machine \<Rightarrow> bool" where
  "in_memory m \<longleftrightarrow> (\<forall>p\<in>set (order m). \<not> reserved (heap m p) \<and> bodyN (heap m p) = 0 \<and> ckptN (heap m p) = 0)"

lemma entry_at_sel [simp]:
  "eRec (entry_at m p) = rec_at m p" "eToken (entry_at m p) = token (heap m p)"
  "eUntil (entry_at m p) = leaseUntil (heap m p)"
  by (simp_all add: entry_at_def)

lemma abs_sel [simp]:
  "qLim (queue_of m) = lim m" "qEntries (queue_of m) = map (entry_at m) (order m)" "qSeq (queue_of m) = seq m"
  by (simp_all add: queue_of_def)

lemma abs_eqI: "lim m = lim m' \<Longrightarrow> seq m = seq m' \<Longrightarrow> order m = order m' \<Longrightarrow>
  (\<And>p. p \<in> set (order m') \<Longrightarrow> entry_at m p = entry_at m' p) \<Longrightarrow> queue_of m = queue_of m'"
  by (simp add: queue_of_def)

lemma order_id_inj: "wf m \<Longrightarrow> p \<in> set (order m) \<Longrightarrow> q \<in> set (order m) \<Longrightarrow> rID (rec_at m p) = rID (rec_at m q) \<Longrightarrow> p = q"
  using order_lookup by (metis option.inject)

lemma abs_find:
  assumes m: "wf m"
  shows "q_find (queue_of m) i = map_option (entry_at m) (lookup m i)"
proof (cases "lookup m i")
  case None
  then have "\<forall>p\<in>set (order m). rID (rec_at m p) \<noteq> i" using order_lookup [OF m] by fastforce
  then show ?thesis using None by (auto simp: q_find_def find_None_iff)
next
  case (Some p)
  note p = lookup_order [OF m Some]
  then have "q_find (queue_of m) i \<noteq> None" by (auto simp: q_find_def find_None_iff)
  then obtain e where e: "q_find (queue_of m) i = Some e" by blast
  then have "e \<in> set (qEntries (queue_of m)) \<and> eID e = i"
    unfolding q_find_def find_Some_iff by (metis nth_mem)
  then have ei: "e \<in> entry_at m ` set (order m)" "eID e = i" by simp_all
  from ei(1) obtain q where q: "e = entry_at m q" "q \<in> set (order m)" by (rule imageE)
  with ei(2) have "rID (rec_at m q) = i" by simp
  with p q order_id_inj [OF m, of p q] have "p = q" by simp
  with e Some q(1) show ?thesis by simp
qed

lemma abs_bytes:
  assumes "wf m" and "in_memory m"
  shows "mbytes m = q_bytes (queue_of m)"
proof -
  have "sum_list (map (\<lambda>p. isize (heap m p)) (order m)) = sum_list (map (\<lambda>p. Size (rec_at m p)) (order m))"
    using assms wf_size [OF assms(1)] by (intro sum_list_map_cong) (auto simp: in_memory_def size_ok_def)
  with wfxD(3) [OF assms(1) [unfolded wf_def]] show ?thesis by (simp add: q_bytes_def o_def)
qed

text \<open>An operation that writes through one pointer is an update of one entry.\<close>

lemma abs_upd:
  assumes m: "wf m" and p: "p \<in> set (order m)" and "lim m' = lim m" "seq m' = seq m" "order m' = order m"
    and "\<And>q. q \<in> set (order m) \<Longrightarrow> q \<noteq> p \<Longrightarrow> entry_at m' q = entry_at m q"
    and "entry_at m' p = f (entry_at m p)"
  shows "queue_of m' = q_upd (rID (rec_at m p)) f (queue_of m)"
proof -
  have "entry_at m' q = (if rID (rec_at m q) = rID (rec_at m p) then f (entry_at m q) else entry_at m q)"
    if "q \<in> set (order m)" for q
    using assms(6,7) order_id_inj [OF m p that] that by (cases "q = p") auto
  with assms(3-5) show ?thesis by (simp add: q_upd_def queue_of_def)
qed

section \<open>Operations on one item\<close>

text \<open>\<open>acts p f m m'\<close>: going from \<open>m\<close> to \<open>m'\<close> changes the entry at \<open>p\<close> by \<open>f\<close> and no other.\<close>

definition acts :: "ptr \<Rightarrow> (entry \<Rightarrow> entry) \<Rightarrow> machine \<Rightarrow> machine \<Rightarrow> bool" where
  "acts p f m m' \<longleftrightarrow> order m' = order m \<and> lim m' = lim m \<and> seq m' = seq m \<and> items m' = items m \<and> byKey m' = byKey m
   \<and> (\<forall>q. entry_at m' q = (if q = p then f (entry_at m q) else entry_at m q))
   \<and> (\<forall>q. reserved (heap m' q) = reserved (heap m q) \<and> bodyN (heap m' q) = bodyN (heap m q)
        \<and> ckptN (heap m' q) \<in> {0, ckptN (heap m q)})"

lemma acts_comp: "acts p f m m1 \<Longrightarrow> acts p g m1 m2 \<Longrightarrow> acts p (g \<circ> f) m m2"
  unfolding acts_def by (intro conjI allI) (auto, metis)

lemma acts_cong: "acts p f m m' \<Longrightarrow> f (entry_at m p) = g (entry_at m p) \<Longrightarrow> acts p g m m'"
  unfolding acts_def by simp

lemma acts_upd_item:
  assumes "\<And>q. reserved (f (heap m p)) = reserved (heap m p)" "bodyN (f (heap m p)) = bodyN (heap m p)"
    "ckptN (f (heap m p)) \<in> {0, ckptN (heap m p)}"
  shows "acts p (\<lambda>e. \<lparr>eRec = irec (f (heap m p)), eToken = token (f (heap m p)), eUntil = leaseUntil (f (heap m p))\<rparr>)
    m (upd_item f p m)"
  using assms by (auto simp: acts_def entry_at_def)

lemma acts_upd_rec: "acts p (\<lambda>e. e\<lparr>eRec := f (eRec e)\<rparr>) m (upd_rec f p m)"
  by (auto simp: acts_def entry_at_def)

lemma acts_unlease: "acts p (\<lambda>e. e\<lparr>eToken := '''', eUntil := zero_time\<rparr>) m (unlease p m)"
  by (auto simp: acts_def entry_at_def unlease_def)

lemma acts_resize: "acts p (\<lambda>e. e) m (resize p m)"
  by (auto simp: acts_def entry_at_def resize_def Let_def)

lemma acts_move:
  assumes "wf m" and "p \<in> set (order m)"
  shows "acts p (\<lambda>e. e\<lparr>eRec := (eRec e)\<lparr>rState := s, rBlockedOn := d\<rparr>\<rparr>) m (move p s d m)"
  using move_heap [OF wfxD(4) [OF assms(1) [unfolded wf_def]] assms(2), of s d]
  by (auto simp: acts_def entry_at_def)

lemma acts_applyNack:
  assumes "wf m" and "p \<in> set (order m)"
  shows "acts p (e_nack failedAt nxt errText blockedOn refund) m (applyNack p failedAt nxt errText blockedOn refund m)"
  unfolding applyNack_def Let_def
  by (rule acts_cong, rule acts_comp [OF acts_comp [OF acts_comp [OF acts_move [OF assms] acts_upd_rec] acts_unlease] acts_resize])
    (auto simp: e_nack_def entry_at_def)

lemma acts_applyRelease:
  assumes "wf m" and "p \<in> set (order m)"
  shows "acts p e_release m (applyRelease p m)"
  unfolding applyRelease_def
  by (rule acts_cong, rule acts_comp [OF acts_comp [OF acts_move [OF assms] acts_upd_rec] acts_unlease])
    (auto simp: e_release_def entry_at_def)

lemma acts_applyPark:
  assumes "wf m" and "p \<in> set (order m)"
  shows "acts p (e_park failedAt reason) m (applyPark p failedAt reason m)"
  unfolding applyPark_def
  by (rule acts_cong, rule acts_comp [OF acts_comp [OF acts_comp [OF acts_move [OF assms] acts_upd_rec] acts_unlease] acts_resize])
    (auto simp: e_park_def entry_at_def)

lemma acts_setCheckpoint: "acts p (e_checkpoint cp) m (setCheckpoint p cp m)"
  unfolding setCheckpoint_def
  by (rule acts_cong, rule acts_comp [OF acts_upd_item acts_resize]) (auto simp: e_checkpoint_def entry_at_def)

lemma acts_applyRequeue:
  assumes "wf m" and "p \<in> set (order m)"
  shows "acts p (e_requeue replace cp) m (applyRequeue p replace cp m)"
proof -
  note a = acts_comp [OF acts_move [OF assms, where s = Pending and d = "rBlockedOn (rec_at m p)"]
      acts_upd_rec [of p "\<lambda>r. r\<lparr>rAttempts := 0, rNextAttempt := zero_time\<rparr>"]]
  show ?thesis
    unfolding applyRequeue_def Let_def
    by (cases replace) (auto intro!: acts_cong [OF acts_comp [OF a acts_setCheckpoint]] acts_cong [OF a]
        simp: e_requeue_def e_checkpoint_def entry_at_def)
qed

lemma acts_grant_one:
  assumes m: "wf m" and p: "p \<in> set (order m)"
  shows "acts p (e_grant tok now ttl) m (grant_one p tok now ttl m)"
proof -
  let ?m = "upd_item (\<lambda>it. it\<lparr>token := tok, leaseUntil := now + ttl\<rparr>) p m"
  have "wfx ?m {p}" using wf_wfx [OF m] by (intro wfx_poke) (auto simp: keeps_core_def)
  from move_heap [OF wfxD(4) [OF this], of p Leased "rBlockedOn (rec_at m p)"] p
  have "acts p (\<lambda>e. e\<lparr>eRec := (eRec e)\<lparr>rState := Leased, rBlockedOn := rBlockedOn (rec_at m p)\<rparr>\<rparr>) ?m
      (move p Leased (rBlockedOn (rec_at m p)) ?m)"
    by (auto simp: acts_def entry_at_def)
  note a = acts_comp [OF acts_comp [OF acts_upd_item this] acts_upd_rec]
  show ?thesis
    unfolding grant_one_def by (rule acts_cong [OF a]) (auto simp: e_grant_def entry_at_def)
qed

lemma acts_in_memory: "acts p f m m' \<Longrightarrow> in_memory m \<Longrightarrow> in_memory m'"
  by (auto simp: acts_def in_memory_def)

lemma acts_queue_of: "acts p f m m' \<Longrightarrow> wf m \<Longrightarrow> p \<in> set (order m) \<Longrightarrow> queue_of m' = q_upd (rID (rec_at m p)) f (queue_of m)"
  by (rule abs_upd) (auto simp: acts_def)

section \<open>Entering and leaving\<close>

lemma queue_of_remove:
  assumes m: "wf m" and p: "p \<in> set (order m)"
  shows "queue_of (machine_remove p m) = q_remove (rID (rec_at m p)) (queue_of m)"
    and "in_memory m \<Longrightarrow> in_memory (machine_remove p m)"
proof -
  have d: "distinct (order m)" using ksorted_distinct [OF order_ksorted [OF wfxD(1) [OF m [unfolded wf_def]]]] .
  have "filter (\<lambda>q. rID (rec_at m q) \<noteq> rID (rec_at m p)) (order m) = filter (\<lambda>q. q \<noteq> p) (order m)"
    using order_id_inj [OF m _ p] by (auto intro!: filter_cong)
  then have "remove1 p (order m) = filter (\<lambda>q. rID (rec_at m q) \<noteq> rID (rec_at m p)) (order m)"
    using d by (simp add: distinct_remove1_removeAll removeAll_filter_not_eq eq_commute [of p] cong: filter_cong)
  moreover have "entry_at (machine_remove p m) q = entry_at m q" if "q \<in> set (remove1 p (order m))" for q
    using that d by (simp add: entry_at_def remove_sel)
  ultimately show "queue_of (machine_remove p m) = q_remove (rID (rec_at m p)) (queue_of m)"
    by (simp add: queue_of_def q_remove_def remove_sel filter_map o_def)
  show "in_memory m \<Longrightarrow> in_memory (machine_remove p m)"
    using d by (auto simp: in_memory_def remove_sel)
qed

lemma queue_of_insert:
  assumes m: "wf m" and new: "lookup m (rID r) = None"
  shows "queue_of (machine_insert r m) = q_add r (queue_of m)"
    and "in_memory m \<Longrightarrow> in_memory (machine_insert r m)"
proof -
  let ?it = "zero_item\<lparr>irec := r, isize := Size r\<rparr>" and ?p = "nextPtr m"
  have e: "machine_insert r m = enter ?it m" using new by (simp add: machine_insert_def)
  have p: "?p \<notin> set (order m)" by (rule fresh_ptr [OF wfxD(1) [OF m [unfolded wf_def]]])
  then have hq: "heap (enter ?it m) q = heap m q" if "q \<in> set (order m)" for q using that by (intro enter_sel) auto
  have tk: "token (heap (enter ?it m) ?p) = ''''" "leaseUntil (heap (enter ?it m) ?p) = zero_time"
    "\<not> reserved (heap (enter ?it m) ?p)" "bodyN (heap (enter ?it m) ?p) = 0" "ckptN (heap (enter ?it m) ?p) = 0"
    by (simp_all add: enter_def Let_def link_heap zero_item_def)
  show "queue_of (machine_insert r m) = q_add r (queue_of m)"
    by (simp add: e queue_of_def q_add_def enter_sel hq entry_at_def tk)
  show "in_memory m \<Longrightarrow> in_memory (machine_insert r m)"
    using tk by (auto simp: e in_memory_def enter_sel(1) hq)
qed

section \<open>Leasing\<close>

text \<open>An item heads its order key's list iff no earlier item of the queue has that key.\<close>

lemma key_head_first:
  assumes m: "wf m" and o: "order m = xs @ p # ys" and k: "rOrderKey (rec_at m p) \<noteq> ''''"
  shows "key_head m (rOrderKey (rec_at m p)) = Some p \<longleftrightarrow> (\<forall>q\<in>set xs. rOrderKey (rec_at m q) \<noteq> rOrderKey (rec_at m p))"
proof -
  let ?k = "rOrderKey (rec_at m p)"
  note D = wfxD [OF m [unfolded wf_def]]
  have p: "p \<in> set (order m)" using o by simp
  obtain l where l: "byKey m ?k = Some l" "ksorted (seq_at m) l" "set l = {q \<in> set (order m). rOrderKey (rec_at m q) = ?k}"
    by (rule key_head_some [OF D(2) p refl k])
  have "l = filter (\<lambda>q. rOrderKey (rec_at m q) = ?k) (order m)"
    using l by (intro ksorted_unique [OF l(2) ksorted_filter [OF order_ksorted [OF D(1)]]]) auto
  then have l': "l = filter (\<lambda>q. rOrderKey (rec_at m q) = ?k) xs @ p # filter (\<lambda>q. rOrderKey (rec_at m q) = ?k) ys"
    using o by simp
  have "p \<notin> set xs" using ksorted_distinct [OF order_ksorted [OF D(1)]] o by simp
  then show ?thesis
    by (cases "filter (\<lambda>q. rOrderKey (rec_at m q) = ?k) xs")
      (auto simp: key_head_def l(1) l' filter_empty_conv filter_eq_Cons_iff)
qed

lemma eligible_entry:
  assumes m: "wf m" and im: "in_memory m" and o: "order m = xs @ p # ys"
  shows "eligible m p now \<longleftrightarrow> e_due now (entry_at m p)
    \<and> (rOrderKey (rec_at m p) = '''' \<or> rOrderKey (rec_at m p) \<notin> set (map (\<lambda>q. rOrderKey (rec_at m q)) xs))"
proof -
  have p: "p \<in> set (order m)" using o by simp
  then have "\<not> reserved (heap m p)" using im by (simp add: in_memory_def)
  moreover have "state_at m p \<in> {Pending, Leased, Parked}" using order_state [OF wfxD(1) [OF m [unfolded wf_def]] p] .
  moreover have "key_head m (rOrderKey (rec_at m p)) = Some p \<longleftrightarrow> rOrderKey (rec_at m p) \<notin> set (map (\<lambda>q. rOrderKey (rec_at m q)) xs)"
    if "rOrderKey (rec_at m p) \<noteq> ''''"
    unfolding key_head_first [OF m o that] by (auto simp: image_iff eq_commute [of "rOrderKey (rec_at m p)"])
  ultimately show ?thesis
    by (cases "rOrderKey (rec_at m p) = ''''") (auto simp: eligible_def e_due_def Let_def)
qed

lemma offers_wanted:
  assumes m: "wf m" and im: "in_memory m"
  shows "order m = xs @ ys \<Longrightarrow> q_offers now req (set (map (\<lambda>q. rOrderKey (rec_at m q)) xs)) (map (entry_at m) ys)
    = map (entry_at m) (filter (wanted m now req) ys)"
proof (induction ys arbitrary: xs)
  case (Cons p ys)
  from Cons.prems have "order m = (xs @ [p]) @ ys" by simp
  from Cons.IH [OF this] eligible_entry [OF m im Cons.prems] show ?case
    by (auto simp: wanted_def e_wanted_def)
qed simp

lemma select_refines:
  assumes m: "wf m" and im: "in_memory m" and now: "0 \<le> now" and mx: "1 \<le> lrMax req"
    and ks: "distinct ks" "set ks = dom (groups m)"
  shows "q_select now req (queue_of m) = map (\<lambda>p. rID (rec_at m p)) (fst (selectLease ks now req m))"
  using offers_wanted [OF m im, of "[]" "order m" now req] selectLease_spec [OF m now mx ks]
  by (simp add: q_select_def take_map o_def)

lemma same_queue_of: "same_queue m m' \<Longrightarrow> queue_of m' = queue_of m \<and> (in_memory m' = in_memory m)"
  by (auto simp: same_queue_def queue_of_def in_memory_def entry_at_def)

lemma q_grant_refines:
  assumes "wf m" and "in_memory m" and "set ps \<subseteq> set (order m)"
  shows "q_grant (map (\<lambda>p. rID (rec_at m p)) ps) draws now ttl (queue_of m)
      = (fst (grant ps draws now ttl m), queue_of (snd (grant ps draws now ttl m)))
    \<and> wf (snd (grant ps draws now ttl m)) \<and> in_memory (snd (grant ps draws now ttl m))"
  using assms
proof (induction ps draws now ttl m rule: grant.induct)
  case (1 p ps draw draws now ttl m)
  define m' where "m' = grant_one p (newToken draw) now ttl m"
  from 1(4) have p: "p \<in> set (order m)" by simp
  note a = acts_grant_one [OF 1(2) p, of "newToken draw" now ttl, folded m'_def]
  have m': "wf m'" "in_memory m'" "order m' = order m"
    using wf_grant_one [OF 1(2) p] acts_in_memory [OF a 1(3)] a by (auto simp: m'_def acts_def)
  have ids: "rID (rec_at m' q) = rID (rec_at m q)" for q
    using a by (cases "q = p") (auto simp: acts_def e_grant_def entry_at_def dest!: spec [of _ q])
  have q': "queue_of m' = q_upd (rID (rec_at m p)) (e_grant (newToken draw) now ttl) (queue_of m)"
    by (rule acts_queue_of [OF a 1(2) p])
  have "q_find (queue_of m') (rID (rec_at m p)) = Some (entry_at m' p)"
    using abs_find [OF m'(1)] order_lookup [OF m'(1), of p] p ids m'(3) by simp
  moreover have "q_grant (map (\<lambda>p. rID (rec_at m' p)) ps) draws now ttl (queue_of m')
      = (fst (grant ps draws now ttl m'), queue_of (snd (grant ps draws now ttl m')))
    \<and> wf (snd (grant ps draws now ttl m')) \<and> in_memory (snd (grant ps draws now ttl m'))"
    using 1(1) [OF m'_def refl m'(1,2)] 1(4) m'(3) by simp
  ultimately show ?case
    unfolding list.map grant.simps q_grant.simps Let_def m'_def [symmetric] q' [symmetric] ids
    by (cases "grant ps draws now ttl m'") simp
qed auto

end
