(* ===== verification/GG_Store.thy ===== *)
theory GG_Store
  imports GG_Record
begin

text \<open>
  The contract of \<open>dlq.Store\<close> (\<open>dlq/store.go\<close>) that the pipelines, the consumer and the redrive
  workers rely on, as a locale.  \<open>content\<close> gives the record stored under an identifier.  A call takes
  an environment \<open>'e\<close>: its context's error, the clock reading, the tokens drawn, and whatever else
  an implementation reads.
\<close>

text \<open>What no operation of a store may change in a record it keeps: the payload and the place in the order.\<close>

definition same_payload :: "Record \<Rightarrow> Record \<Rightarrow> bool" where
  "same_payload r r' \<longleftrightarrow> rID r' = rID r \<and> rSource r' = rSource r \<and> rKey r' = rKey r \<and> rValue r' = rValue r
     \<and> rHeaders r' = rHeaders r \<and> rOrderKey r' = rOrderKey r"

lemma same_payload_refl [simp]: "same_payload r r"
  by (simp add: same_payload_def)

lemma same_payload_trans: "same_payload r r' \<Longrightarrow> same_payload r' r'' \<Longrightarrow> same_payload r r''"
  by (simp add: same_payload_def)

text \<open>What a successful append stores: the record given, numbered and with its defaults filled in.\<close>

definition stored_as :: "Record \<Rightarrow> Record \<Rightarrow> bool" where
  "stored_as r r' \<longleftrightarrow> same_payload r r' \<and> rState r' = rState r \<and> rBlockedOn r' = rBlockedOn r
     \<and> rAttempts r' = rAttempts r \<and> rCheckpoint r' = rCheckpoint r \<and> rLastError r' = rLastError r"

type_synonym content = "string \<Rightarrow> Record option"

definition keeps :: "content \<Rightarrow> content \<Rightarrow> bool" where
  "keeps c c' \<longleftrightarrow> (\<forall>i r. c i = Some r \<longrightarrow> (\<exists>r'. c' i = Some r' \<and> same_payload r r'))"

lemma keeps_refl [simp]: "keeps c c"
  by (simp add: keeps_def)

lemma keeps_trans: "keeps c c' \<Longrightarrow> keeps c' c'' \<Longrightarrow> keeps c c''"
  unfolding keeps_def by (meson same_payload_trans)

locale append_store =
  fixes inv :: "'s \<Rightarrow> bool"
    and content :: "'s \<Rightarrow> content"
    and append_op :: "'e \<Rightarrow> Record \<Rightarrow> 's \<Rightarrow> goerr \<times> 's"
  assumes append_inv: "inv s \<Longrightarrow> append_op e r s = (res, s') \<Longrightarrow> inv s'"
    and append_error: "inv s \<Longrightarrow> append_op e r s = (Some err, s') \<Longrightarrow> content s' = content s"
    and append_known: "inv s \<Longrightarrow> append_op e r s = (ok, s') \<Longrightarrow> content s (rID r) = Some r0 \<Longrightarrow>
      content s' = content s"
    and append_new: "inv s \<Longrightarrow> append_op e r s = (ok, s') \<Longrightarrow> content s (rID r) = None \<Longrightarrow>
      \<exists>r'. stored_as r r' \<and> content s' = (content s)(rID r \<mapsto> r')"
begin

text \<open>Whatever an append answers, nothing stored before is lost or altered.\<close>

lemma append_keeps:
  assumes "inv s" and "append_op e r s = (res, s')"
  shows "inv s' \<and> (\<forall>i r0. content s i = Some r0 \<longrightarrow> content s' i = Some r0)"
proof (cases res)
  case None
  with assms show ?thesis
    using append_inv append_new [of s e r s'] append_known [of s e r s'] by (cases "content s (rID r)") auto
qed (use assms append_inv append_error in auto)

text \<open>A nil error means the record is in the store, whether it was new or a redelivery.\<close>

lemma append_ok_stored:
  assumes "inv s" and "append_op e r s = (ok, s')"
  shows "content s' (rID r) \<noteq> None"
  using assms append_new [of s e r s'] append_known [of s e r s'] by (cases "content s (rID r)") auto

end

locale dlq_store = append_store inv content append_op
  for inv :: "'s \<Rightarrow> bool"
    and content :: "'s \<Rightarrow> content"
    and append_op :: "'e \<Rightarrow> Record \<Rightarrow> 's \<Rightarrow> goerr \<times> 's" +
  fixes env_ok :: "'e \<Rightarrow> 's \<Rightarrow> bool"
    and lease_op :: "'e \<Rightarrow> LeaseRequest \<Rightarrow> 's \<Rightarrow> (gerror + Lease list) \<times> 's"
    and ack_op :: "'e \<Rightarrow> string \<Rightarrow> string \<Rightarrow> 's \<Rightarrow> goerr \<times> 's"
    and nack_op :: "'e \<Rightarrow> string \<Rightarrow> string \<Rightarrow> NackOptions \<Rightarrow> 's \<Rightarrow> goerr \<times> 's"
    and release_op :: "'e \<Rightarrow> string \<Rightarrow> string \<Rightarrow> 's \<Rightarrow> goerr \<times> 's"
    and park_op :: "'e \<Rightarrow> string \<Rightarrow> string \<Rightarrow> string \<Rightarrow> 's \<Rightarrow> goerr \<times> 's"
    and checkpoint_op :: "'e \<Rightarrow> string \<Rightarrow> string \<Rightarrow> bytes \<Rightarrow> 's \<Rightarrow> goerr \<times> 's"
  assumes lease_law: "inv s \<Longrightarrow> env_ok e s \<Longrightarrow> lease_op e req s = (lres, s') \<Longrightarrow>
      inv s' \<and> keeps (content s) (content s') \<and> keeps (content s') (content s)"
    and lease_granted: "inv s \<Longrightarrow> env_ok e s \<Longrightarrow> lease_op e req s = (Inr ls, s') \<Longrightarrow> l \<in> set ls \<Longrightarrow>
      content s' (rID (lRecord l)) = Some (lRecord l) \<and> rState (lRecord l) = Leased"
    and lease_shape: "inv s \<Longrightarrow> env_ok e s \<Longrightarrow> lease_op e req s = (Inr ls, s') \<Longrightarrow>
      length ls \<le> nat (lrMax req) \<and> distinct (map (\<lambda>l. rID (lRecord l)) ls) \<and> (\<forall>l \<in> set ls. rBlockedOn (lRecord l) \<notin> set (lrSkip req))"
    and ack_law: "inv s \<Longrightarrow> ack_op e i t s = (res, s') \<Longrightarrow>
      inv s' \<and> content s' = (if res = ok then (content s)(i := None) else content s)"
    and nack_law: "inv s \<Longrightarrow> nack_op e i t opts s = (res, s') \<Longrightarrow>
      inv s' \<and> keeps (content s) (content s') \<and> keeps (content s') (content s)
      \<and> (res = ok \<longrightarrow> (\<exists>r. content s' i = Some r \<and> rState r = Pending))"
    and release_law: "inv s \<Longrightarrow> release_op e i t s = (res, s') \<Longrightarrow>
      inv s' \<and> keeps (content s) (content s') \<and> keeps (content s') (content s)
      \<and> (res = ok \<longrightarrow> (\<exists>r. content s' i = Some r \<and> rState r = Pending))"
    and park_law: "inv s \<Longrightarrow> park_op e i t why s = (res, s') \<Longrightarrow>
      inv s' \<and> keeps (content s) (content s') \<and> keeps (content s') (content s)
      \<and> (res = ok \<longrightarrow> (\<exists>r. content s' i = Some r \<and> rState r = Parked))"
    and checkpoint_law: "inv s \<Longrightarrow> checkpoint_op e i t cp s = (res, s') \<Longrightarrow>
      inv s' \<and> keeps (content s) (content s') \<and> keeps (content s') (content s)
      \<and> (res = ok \<longrightarrow> (\<exists>r. content s' i = Some r \<and> rCheckpoint r = cp))"

end
