(* ===== verification/GG_Memory.thy ===== *)
theory GG_Memory
  imports GG_Queue GG_Store
begin

text \<open>
  The in-memory store (\<open>dlq/memory.go\<close>): the state machine behind a lock and a closed flag.  Each
  method is one critical section, so a call is a function of the state.  A call's environment holds
  what it reads from outside: the error of its context, the clock, the order in which Go ranges over
  the map of groups, and the random bytes of the tokens it draws.
\<close>

section \<open>The store\<close>

record call_env =
  ctxErr :: goerr
  clockNow :: time
  mapOrder :: "string list"
  tokenDraws :: "string list"

record MemoryOptions =
  moMaxRecords :: int
  moMaxBytes :: int
  moMaxRecordBytes :: int

record MemoryStore =
  msMachine :: machine
  msClosed :: bool

definition DefaultMemoryMaxBytes :: int where "DefaultMemoryMaxBytes = 512 * 2 ^ 20"

definition NewMemoryStore :: "MemoryOptions \<Rightarrow> MemoryStore" where
  "NewMemoryStore opts =
     (let mb = (if moMaxBytes opts = 0 then DefaultMemoryMaxBytes else moMaxBytes opts)
      in \<lparr>msMachine = newMachine \<lparr>maxRecords = moMaxRecords opts, maxBytes = mb,
                                 maxRecordBytes = moMaxRecordBytes opts\<rparr>, msClosed = False\<rparr>)"

definition ms_begin :: "call_env \<Rightarrow> MemoryStore \<Rightarrow> goerr" where
  "ms_begin e s = (case ctxErr e of Some err \<Rightarrow> Some err
                   | None \<Rightarrow> if msClosed s then Some (EVar ErrClosed) else ok)"

definition set_machine :: "MemoryStore \<Rightarrow> machine \<Rightarrow> MemoryStore" where
  "set_machine s m = s\<lparr>msMachine := m\<rparr>"

definition ms_Append :: "call_env \<Rightarrow> Record \<Rightarrow> MemoryStore \<Rightarrow> goerr \<times> MemoryStore" where
  "ms_Append e r s =
     (case ms_begin e s of
        Some err \<Rightarrow> (Some err, s)
      | None \<Rightarrow>
         (case prepare (msMachine s) r (clockNow e) of
            PrepErr err \<Rightarrow> (Some err, s)
          | PrepDup \<Rightarrow> (ok, s)
          | PrepNew r' \<Rightarrow> (ok, set_machine s (machine_insert r' (msMachine s)))))"

definition ms_Lease :: "call_env \<Rightarrow> LeaseRequest \<Rightarrow> MemoryStore \<Rightarrow> (gerror + Lease list) \<times> MemoryStore" where
  "ms_Lease e req s =
     (case validateLease req of
        Some err \<Rightarrow> (Inl err, s)
      | None \<Rightarrow>
         (case ms_begin e s of
            Some err \<Rightarrow> (Inl err, s)
          | None \<Rightarrow>
             (let now = clockNow e;
                  (ps, m1) = selectLease (mapOrder e) now req (msMachine s);
                  (ls, m2) = grant ps (tokenDraws e) now (lrTTL req) m1
              in (Inr ls, set_machine s m2))))"

definition ms_Checkpoint :: "call_env \<Rightarrow> string \<Rightarrow> string \<Rightarrow> bytes \<Rightarrow> MemoryStore \<Rightarrow> goerr \<times> MemoryStore" where
  "ms_Checkpoint e i tok cp s =
     (case ms_begin e s of
        Some err \<Rightarrow> (Some err, s)
      | None \<Rightarrow>
         (case held (msMachine s) i tok of
            Inl err \<Rightarrow> (Some err, s)
          | Inr p \<Rightarrow>
             (case checkCheckpoint (msMachine s) p cp of
                Some err \<Rightarrow> (Some err, s)
              | None \<Rightarrow> (ok, set_machine s (setCheckpoint p cp (msMachine s))))))"

definition ms_Ack :: "call_env \<Rightarrow> string \<Rightarrow> string \<Rightarrow> MemoryStore \<Rightarrow> goerr \<times> MemoryStore" where
  "ms_Ack e i tok s =
     (case ms_begin e s of
        Some err \<Rightarrow> (Some err, s)
      | None \<Rightarrow>
         (case held (msMachine s) i tok of
            Inl err \<Rightarrow> (Some err, s)
          | Inr p \<Rightarrow> (ok, set_machine s (machine_remove p (msMachine s)))))"

definition ms_Nack :: "call_env \<Rightarrow> string \<Rightarrow> string \<Rightarrow> NackOptions \<Rightarrow> MemoryStore \<Rightarrow> goerr \<times> MemoryStore" where
  "ms_Nack e i tok opts s =
     (case ms_begin e s of
        Some err \<Rightarrow> (Some err, s)
      | None \<Rightarrow>
         (case held (msMachine s) i tok of
            Inl err \<Rightarrow> (Some err, s)
          | Inr p \<Rightarrow>
             (let now = clockNow e
              in (ok, set_machine s (applyNack p now (now + nDelay opts) (nErr opts) (nBlockedOn opts) (nRefund opts) (msMachine s))))))"

definition ms_Release :: "call_env \<Rightarrow> string \<Rightarrow> string \<Rightarrow> MemoryStore \<Rightarrow> goerr \<times> MemoryStore" where
  "ms_Release e i tok s =
     (case ms_begin e s of
        Some err \<Rightarrow> (Some err, s)
      | None \<Rightarrow>
         (case held (msMachine s) i tok of
            Inl err \<Rightarrow> (Some err, s)
          | Inr p \<Rightarrow> (ok, set_machine s (applyRelease p (msMachine s)))))"

definition ms_Park :: "call_env \<Rightarrow> string \<Rightarrow> string \<Rightarrow> string \<Rightarrow> MemoryStore \<Rightarrow> goerr \<times> MemoryStore" where
  "ms_Park e i tok reason s =
     (case ms_begin e s of
        Some err \<Rightarrow> (Some err, s)
      | None \<Rightarrow>
         (case held (msMachine s) i tok of
            Inl err \<Rightarrow> (Some err, s)
          | Inr p \<Rightarrow> (ok, set_machine s (applyPark p (clockNow e) reason (msMachine s)))))"

definition ms_parked :: "machine \<Rightarrow> string \<Rightarrow> gerror + ptr" where
  "ms_parked m i =
     (case lookup m i of
        None \<Rightarrow> Inl (EVar ErrNotFound)
      | Some p \<Rightarrow> if state_at m p \<noteq> Parked then Inl (EVar ErrNotParked) else Inr p)"

definition ms_RequeueWith :: "call_env \<Rightarrow> string \<Rightarrow> RequeueOptions \<Rightarrow> MemoryStore \<Rightarrow> goerr \<times> MemoryStore" where
  "ms_RequeueWith e i opts s =
     (case ms_begin e s of
        Some err \<Rightarrow> (Some err, s)
      | None \<Rightarrow>
         (case ms_parked (msMachine s) i of
            Inl err \<Rightarrow> (Some err, s)
          | Inr p \<Rightarrow>
             (case (if qReplaceCheckpoint opts then checkCheckpoint (msMachine s) p (qCheckpoint opts) else ok) of
                Some err \<Rightarrow> (Some err, s)
              | None \<Rightarrow> (ok, set_machine s (applyRequeue p (qReplaceCheckpoint opts) (qCheckpoint opts) (msMachine s))))))"

definition ms_Requeue :: "call_env \<Rightarrow> string \<Rightarrow> MemoryStore \<Rightarrow> goerr \<times> MemoryStore" where
  "ms_Requeue e i s = ms_RequeueWith e i \<lparr>qReplaceCheckpoint = False, qCheckpoint = None\<rparr> s"

definition ms_Get :: "call_env \<Rightarrow> string \<Rightarrow> MemoryStore \<Rightarrow> gerror + Record" where
  "ms_Get e i s =
     (case ms_begin e s of
        Some err \<Rightarrow> Inl err
      | None \<Rightarrow>
         (case lookup (msMachine s) i of
            None \<Rightarrow> Inl (EVar ErrNotFound)
          | Some p \<Rightarrow> Inr (Clone (rec_at (msMachine s) p))))"

definition ms_Parked :: "call_env \<Rightarrow> ParkedQuery \<Rightarrow> MemoryStore \<Rightarrow> gerror + Record list" where
  "ms_Parked e q s =
     (case ms_begin e s of
        Some err \<Rightarrow> Inl err
      | None \<Rightarrow> Inr (parkedList (msMachine s) (pqAfter q) (pqLimit q)))"

definition ms_Discard :: "call_env \<Rightarrow> string \<Rightarrow> MemoryStore \<Rightarrow> goerr \<times> MemoryStore" where
  "ms_Discard e i s =
     (case ms_begin e s of
        Some err \<Rightarrow> (Some err, s)
      | None \<Rightarrow>
         (case ms_parked (msMachine s) i of
            Inl err \<Rightarrow> (Some err, s)
          | Inr p \<Rightarrow> (ok, set_machine s (machine_remove p (msMachine s)))))"

definition ms_HasOrderKey :: "call_env \<Rightarrow> string \<Rightarrow> MemoryStore \<Rightarrow> gerror + bool" where
  "ms_HasOrderKey e k s =
     (case ms_begin e s of Some err \<Rightarrow> Inl err | None \<Rightarrow> Inr (hasOrderKey (msMachine s) k))"

definition ms_Stats :: "call_env \<Rightarrow> MemoryStore \<Rightarrow> gerror + StoreStats" where
  "ms_Stats e s =
     (case ms_begin e s of Some err \<Rightarrow> Inl err
      | None \<Rightarrow> Inr (machine_stats (mapOrder e) (msMachine s) (clockNow e)))"

definition ms_Close :: "MemoryStore \<Rightarrow> MemoryStore" where
  "ms_Close s = s\<lparr>msClosed := True\<rparr>"

section \<open>The specification of a store call\<close>

text \<open>One constructor per method that can change a store.\<close>

datatype store_op =
    OpAppend Record
  | OpLease LeaseRequest
  | OpCheckpoint string string bytes
  | OpAck string string
  | OpNack string string NackOptions
  | OpRelease string string
  | OpPark string string string
  | OpRequeueWith string RequeueOptions
  | OpDiscard string

datatype store_res = RErr goerr | RLeases "gerror + Lease list"

definition ms_step :: "call_env \<Rightarrow> store_op \<Rightarrow> MemoryStore \<Rightarrow> store_res \<times> MemoryStore" where
  "ms_step e op s = (case op of
      OpAppend r \<Rightarrow> apfst RErr (ms_Append e r s)
    | OpLease req \<Rightarrow> apfst RLeases (ms_Lease e req s)
    | OpCheckpoint i tok cp \<Rightarrow> apfst RErr (ms_Checkpoint e i tok cp s)
    | OpAck i tok \<Rightarrow> apfst RErr (ms_Ack e i tok s)
    | OpNack i tok opts \<Rightarrow> apfst RErr (ms_Nack e i tok opts s)
    | OpRelease i tok \<Rightarrow> apfst RErr (ms_Release e i tok s)
    | OpPark i tok reason \<Rightarrow> apfst RErr (ms_Park e i tok reason s)
    | OpRequeueWith i opts \<Rightarrow> apfst RErr (ms_RequeueWith e i opts s)
    | OpDiscard i \<Rightarrow> apfst RErr (ms_Discard e i s))"

text \<open>A record with its sequence number and the defaults of its time stamps and schema version.\<close>

definition filled :: "Record \<Rightarrow> nat \<Rightarrow> time \<Rightarrow> Record" where
  "filled r n now = r\<lparr>rSeq := n,
     rFirstFailed := (if IsZero (rFirstFailed r) then now else rFirstFailed r),
     rLastFailed := (if IsZero (rLastFailed r) then (if IsZero (rFirstFailed r) then now else rFirstFailed r)
                     else rLastFailed r),
     rSchemaVersion := (if rSchemaVersion r = 0 then CurrentSchema else rSchemaVersion r)\<rparr>"

definition q_prepare :: "queue \<Rightarrow> Record \<Rightarrow> time \<Rightarrow> prepared" where
  "q_prepare q r now =
     (if Validate r \<noteq> ok then PrepErr (the (Validate r))
      else if rState r \<noteq> Pending \<and> rState r \<noteq> Parked then PrepErr (EWrap ''unknown state'' [EVar ErrInvalidRecord])
      else if 0 < maxRecordBytes (qLim q) \<and> maxRecordBytes (qLim q) < Size r
      then PrepErr (EWrap ''record is too large'' [EVar ErrInvalidRecord])
      else if q_find q (rID r) \<noteq> None then PrepDup
      else if 0 < maxRecords (qLim q) \<and> maxRecords (qLim q) \<le> int (length (qEntries q)) \<or>
              0 < maxBytes (qLim q) \<and> maxBytes (qLim q) < q_bytes q + Size r then PrepErr (EVar ErrFull)
      else PrepNew (filled r (qSeq q + 1) now))"

definition q_held :: "queue \<Rightarrow> string \<Rightarrow> string \<Rightarrow> gerror + entry" where
  "q_held q i tok = (case q_find q i of
       None \<Rightarrow> Inl (EVar ErrNotFound)
     | Some e \<Rightarrow> if rState (eRec e) = Leased \<and> eToken e = tok \<and> tok \<noteq> '''' then Inr e else Inl (EVar ErrLeaseLost))"

definition q_parked :: "queue \<Rightarrow> string \<Rightarrow> gerror + entry" where
  "q_parked q i = (case q_find q i of
       None \<Rightarrow> Inl (EVar ErrNotFound)
     | Some e \<Rightarrow> if rState (eRec e) = Parked then Inr e else Inl (EVar ErrNotParked))"

definition q_room :: "queue \<Rightarrow> entry \<Rightarrow> bytes \<Rightarrow> goerr" where
  "q_room q e cp =
     (let grow = blen cp - blen (rCheckpoint (eRec e)) in
      if 0 < maxBytes (qLim q) \<and> 0 < grow \<and> maxBytes (qLim q) < q_bytes q + grow then Some (EVar ErrFull)
      else if 0 < maxRecordBytes (qLim q) \<and> maxRecordBytes (qLim q) < Size (eRec e) + grow
      then Some (EWrap ''checkpoint would exceed the record size limit'' [EVar ErrInvalidRecord])
      else ok)"

definition q_settle :: "gerror + entry \<Rightarrow> (queue \<Rightarrow> goerr \<times> queue) \<Rightarrow> queue \<Rightarrow> store_res \<times> queue" where
  "q_settle h f q = (case h of Inl err \<Rightarrow> (RErr (Some err), q) | Inr _ \<Rightarrow> apfst RErr (f q))"

definition q_checked :: "goerr \<Rightarrow> (queue \<Rightarrow> queue) \<Rightarrow> queue \<Rightarrow> goerr \<times> queue" where
  "q_checked c f q = (case c of Some err \<Rightarrow> (Some err, q) | None \<Rightarrow> (ok, f q))"

definition q_step :: "call_env \<Rightarrow> store_op \<Rightarrow> queue \<Rightarrow> store_res \<times> queue" where
  "q_step e op q = (case op of
      OpAppend r \<Rightarrow> (case q_prepare q r (clockNow e) of
          PrepErr err \<Rightarrow> (RErr (Some err), q) | PrepDup \<Rightarrow> (RErr ok, q) | PrepNew r' \<Rightarrow> (RErr ok, q_add r' q))
    | OpLease req \<Rightarrow> (case validateLease req of Some err \<Rightarrow> (RLeases (Inl err), q)
        | None \<Rightarrow> apfst (RLeases \<circ> Inr) (q_grant (q_select (clockNow e) req q) (tokenDraws e) (clockNow e) (lrTTL req) q))
    | OpCheckpoint i tok cp \<Rightarrow> q_settle (q_held q i tok)
        (q_checked (case q_held q i tok of Inr en \<Rightarrow> q_room q en cp | Inl _ \<Rightarrow> ok) (q_upd i (e_checkpoint cp))) q
    | OpAck i tok \<Rightarrow> q_settle (q_held q i tok) (q_checked ok (q_remove i)) q
    | OpNack i tok opts \<Rightarrow> q_settle (q_held q i tok)
        (q_checked ok (q_upd i (e_nack (clockNow e) (clockNow e + nDelay opts) (nErr opts) (nBlockedOn opts) (nRefund opts)))) q
    | OpRelease i tok \<Rightarrow> q_settle (q_held q i tok) (q_checked ok (q_upd i e_release)) q
    | OpPark i tok reason \<Rightarrow> q_settle (q_held q i tok) (q_checked ok (q_upd i (e_park (clockNow e) reason))) q
    | OpRequeueWith i opts \<Rightarrow> q_settle (q_parked q i)
        (q_checked (case q_parked q i of Inr en \<Rightarrow> (if qReplaceCheckpoint opts then q_room q en (qCheckpoint opts) else ok) | Inl _ \<Rightarrow> ok)
          (q_upd i (e_requeue (qReplaceCheckpoint opts) (qCheckpoint opts)))) q
    | OpDiscard i \<Rightarrow> q_settle (q_parked q i) (q_checked ok (q_remove i)) q)"

section \<open>The invariant of the store\<close>

definition ms_ok :: "MemoryStore \<Rightarrow> bool" where
  "ms_ok s \<longleftrightarrow> wf (msMachine s) \<and> in_memory (msMachine s)"

text \<open>The clock is past Go's zero time; a range over the map of groups visits every group once.\<close>

definition ms_env :: "call_env \<Rightarrow> MemoryStore \<Rightarrow> bool" where
  "ms_env e s \<longleftrightarrow> 0 \<le> clockNow e \<and> distinct (mapOrder e) \<and> set (mapOrder e) = dom (groups (msMachine s))"

abbreviation ms_queue :: "MemoryStore \<Rightarrow> queue" where
  "ms_queue s \<equiv> queue_of (msMachine s)"

lemma set_machine_sel [simp]: "msMachine (set_machine s m) = m" "msClosed (set_machine s m) = msClosed s"
  by (simp_all add: set_machine_def)

lemma ms_ok_new: "ms_ok (NewMemoryStore opts)"
  by (simp add: ms_ok_def NewMemoryStore_def wf_newMachine Let_def) (simp add: in_memory_def newMachine_def)

text \<open>What a method that settles one held item does, once for all of them.\<close>

lemma held_refines:
  assumes "wf m"
  shows "q_held (queue_of m) i tok = (case held m i tok of Inl err \<Rightarrow> Inl err | Inr p \<Rightarrow> Inr (entry_at m p))"
  by (auto simp: q_held_def abs_find [OF assms] held_def split: option.splits)

lemma parked_refines:
  assumes "wf m"
  shows "q_parked (queue_of m) i = (case ms_parked m i of Inl err \<Rightarrow> Inl err | Inr p \<Rightarrow> Inr (entry_at m p))"
  by (auto simp: q_parked_def abs_find [OF assms] ms_parked_def split: option.splits)

lemma ms_parked_order:
  assumes "wf m" and "ms_parked m i = Inr p"
  shows "p \<in> set (order m)" "rID (rec_at m p) = i" "state_at m p = Parked" "lookup m i = Some p"
  using assms lookup_order [OF assms(1)] by (auto simp: ms_parked_def split: option.splits if_splits)

lemma room_refines:
  assumes "wf m" and "in_memory m" and "p \<in> set (order m)"
  shows "q_room (queue_of m) (entry_at m p) cp = checkCheckpoint m p cp"
  using assms abs_bytes [OF assms(1,2)] wf_size [OF assms(1,3)]
  by (simp add: q_room_def checkCheckpoint_def Let_def in_memory_def size_ok_def)

lemma fill_in:
  "(let r1 = (Clone r)\<lparr>rSeq := n\<rparr>;
        r2 = (if IsZero (rFirstFailed r1) then r1\<lparr>rFirstFailed := now\<rparr> else r1);
        r3 = (if IsZero (rLastFailed r2) then r2\<lparr>rLastFailed := rFirstFailed r2\<rparr> else r2);
        r4 = (if rSchemaVersion r3 = 0 then r3\<lparr>rSchemaVersion := CurrentSchema\<rparr> else r3)
    in PrepNew r4) = PrepNew (filled r n now)"
  by (cases r) (simp add: Let_def filled_def)

lemma filled_sel [simp]:
  "rID (filled r n now) = rID r" "rSeq (filled r n now) = n" "rState (filled r n now) = rState r"
  "stored_as r (filled r n now)" "Size (filled r n now) = Size r"
  by (simp_all add: filled_def stored_as_def same_payload_def)

lemma prepare_refines:
  assumes "wf m" and "in_memory m"
  shows "q_prepare (queue_of m) r now = prepare m r now"
proof -
  have "length (order m) = length (items m)" using wfxD(1) [OF assms(1) [unfolded wf_def]] by (simp add: order_ok_def)
  then show ?thesis
    using abs_bytes [OF assms] abs_find [OF assms(1), of "rID r"]
    unfolding q_prepare_def prepare_def fill_in
    by (cases "Validate r") (simp_all add: len_items_def)
qed

lemma prepare_dup: "prepare m r now = PrepDup \<Longrightarrow> lookup m (rID r) \<noteq> None"
  unfolding prepare_def fill_in by (simp only: prepared.distinct split: option.splits if_split_asm) simp_all

lemma prepare_new:
  assumes "prepare m r now = PrepNew r'"
  shows "lookup m (rID r) = None" "rID r' = rID r" "rSeq r' = seq m + 1" "rState r' = rState r"
    "rState r' \<in> {Pending, Parked}" "stored_as r r'" "Size r' = Size r" "Validate r = ok"
    "0 < maxRecordBytes (lim m) \<Longrightarrow> Size r \<le> maxRecordBytes (lim m)"
    "0 < maxRecords (lim m) \<Longrightarrow> len_items m < maxRecords (lim m)"
    "0 < maxBytes (lim m) \<Longrightarrow> mbytes m + Size r \<le> maxBytes (lim m)"
proof -
  have D: "r' = filled r (seq m + 1) now \<and> Validate r = ok \<and> \<not> (rState r \<noteq> Pending \<and> rState r \<noteq> Parked)
    \<and> \<not> (0 < maxRecordBytes (lim m) \<and> maxRecordBytes (lim m) < Size r) \<and> lookup m (rID r) = None
    \<and> \<not> (0 < maxRecords (lim m) \<and> maxRecords (lim m) \<le> len_items m)
    \<and> \<not> (0 < maxBytes (lim m) \<and> maxBytes (lim m) < mbytes m + Size r)"
    using assms unfolding prepare_def fill_in
    by (simp only: prepared.distinct prepared.inject split: option.splits if_split_asm) simp_all
  then show "lookup m (rID r) = None" "rID r' = rID r" "rSeq r' = seq m + 1" "rState r' = rState r"
    "rState r' \<in> {Pending, Parked}" "stored_as r r'" "Size r' = Size r" "Validate r = ok"
    "0 < maxRecordBytes (lim m) \<Longrightarrow> Size r \<le> maxRecordBytes (lim m)"
    "0 < maxRecords (lim m) \<Longrightarrow> len_items m < maxRecords (lim m)"
    "0 < maxBytes (lim m) \<Longrightarrow> mbytes m + Size r \<le> maxBytes (lim m)"
    by auto
qed

section \<open>Refinement\<close>

definition implements :: "store_res \<times> MemoryStore \<Rightarrow> store_res \<times> queue \<Rightarrow> bool" where
  "implements c a \<longleftrightarrow> fst c = fst a \<and> ms_queue (snd c) = snd a \<and> ms_ok (snd c)"

lemma implements_same [simp]: "implements (r, s) (r', ms_queue s) \<longleftrightarrow> r = r' \<and> ms_ok s"
  by (auto simp: implements_def)

definition ms_open :: "call_env \<Rightarrow> MemoryStore \<Rightarrow> bool" where
  "ms_open e s \<longleftrightarrow> ms_begin e s = ok"

text \<open>A call on a held item: \<open>g\<close> is what it does to the machine, \<open>f\<close> what the specification does to the entry.\<close>

lemma implements_upd:
  assumes s: "ms_ok s" and p: "p \<in> set (order (msMachine s))" "rID (rec_at (msMachine s) p) = i"
    and a: "acts p f (msMachine s) m'" and w: "wf m'"
  shows "implements (RErr ok, set_machine s m') (RErr ok, q_upd i f (ms_queue s))"
  using s acts_queue_of [OF a _ p(1)] acts_in_memory [OF a] w p(2) by (simp add: implements_def ms_ok_def)

lemma implements_remove:
  assumes s: "ms_ok s" and p: "p \<in> set (order (msMachine s))" "rID (rec_at (msMachine s) p) = i"
  shows "implements (RErr ok, set_machine s (machine_remove p (msMachine s))) (RErr ok, q_remove i (ms_queue s))"
  using s queue_of_remove [OF _ p(1)] wf_machine_remove [OF _ p(1)] p(2) by (simp add: implements_def ms_ok_def)

lemma Append_refines:
  assumes s: "ms_ok s" and opn: "ms_open e s"
  shows "implements (ms_step e (OpAppend r) s) (q_step e (OpAppend r) (ms_queue s))"
proof -
  let ?m = "msMachine s"
  from s have m: "wf ?m" "in_memory ?m" by (auto simp: ms_ok_def)
  show ?thesis
  proof (cases "prepare ?m r (clockNow e)")
    case (PrepNew r')
    note P = prepare_new [OF PrepNew]
    have "wf (machine_insert r' ?m)" using m P by (intro wf_machine_insert) auto
    moreover have "lookup ?m (rID r') = None" using P by simp
    ultimately have "implements (RErr ok, set_machine s (machine_insert r' ?m)) (RErr ok, q_add r' (ms_queue s))"
      using m queue_of_insert [of ?m r'] by (simp add: implements_def ms_ok_def)
    with PrepNew opn show ?thesis
      by (simp add: ms_step_def q_step_def ms_Append_def ms_open_def prepare_refines [OF m])
  qed (use s opn in \<open>simp_all add: ms_step_def q_step_def ms_Append_def ms_open_def prepare_refines [OF m]\<close>)
qed

lemma Lease_refines:
  assumes s: "ms_ok s" and opn: "ms_open e s" and env: "ms_env e s"
  shows "implements (ms_step e (OpLease req) s) (q_step e (OpLease req) (ms_queue s))"
proof (cases "validateLease req")
  case (Some err)
  with s show ?thesis by (simp add: ms_step_def q_step_def ms_Lease_def)
next
  case None
  let ?m = "msMachine s"
  obtain ps m1 where sel: "selectLease (mapOrder e) (clockNow e) req ?m = (ps, m1)" by fastforce
  obtain ls m2 where gr: "grant ps (tokenDraws e) (clockNow e) (lrTTL req) m1 = (ls, m2)" by fastforce
  from s have m: "wf ?m" "in_memory ?m" by (auto simp: ms_ok_def)
  from env have E: "0 \<le> clockNow e" "distinct (mapOrder e)" "set (mapOrder e) = dom (groups ?m)" by (auto simp: ms_env_def)
  from None have mx: "1 \<le> lrMax req" by (simp add: validateLease_def split: if_splits)
  from selectLease_spec [OF m(1) E(1) mx E(2,3)] sel
  have ps: "ps = take (nat (lrMax req)) (filter (wanted ?m (clockNow e) req) (order ?m))" "wf m1" "same_queue ?m m1" by simp_all
  from select_refines [OF m E(1) mx E(2,3)] sel
  have q: "q_select (clockNow e) req (ms_queue s) = map (\<lambda>p. rID (rec_at m1 p)) ps"
    using ps(3) by (simp add: same_queue_def)
  have "set ps \<subseteq> set (order m1)" using ps by (auto simp: same_queue_def dest: in_set_takeD)
  with q_grant_refines [OF ps(2), of ps "tokenDraws e" "clockNow e" "lrTTL req"] same_queue_of [OF ps(3)] m(2) gr
  have "q_grant (map (\<lambda>p. rID (rec_at m1 p)) ps) (tokenDraws e) (clockNow e) (lrTTL req) (ms_queue s) = (ls, queue_of m2)"
    "wf m2" "in_memory m2" by auto
  with None opn sel gr q show ?thesis
    by (simp add: ms_step_def q_step_def ms_Lease_def ms_open_def implements_def ms_ok_def)
qed

lemma settle_refines:
  assumes s: "ms_ok s" and opn: "ms_open e s"
  shows "implements (ms_step e (OpAck i tok) s) (q_step e (OpAck i tok) (ms_queue s))"
    and "implements (ms_step e (OpNack i tok opts) s) (q_step e (OpNack i tok opts) (ms_queue s))"
    and "implements (ms_step e (OpRelease i tok) s) (q_step e (OpRelease i tok) (ms_queue s))"
    and "implements (ms_step e (OpPark i tok why) s) (q_step e (OpPark i tok why) (ms_queue s))"
    and "implements (ms_step e (OpCheckpoint i tok cp) s) (q_step e (OpCheckpoint i tok cp) (ms_queue s))"
proof -
  let ?m = "msMachine s"
  from s have m: "wf ?m" "in_memory ?m" by (auto simp: ms_ok_def)
  note R = held_refines [OF m(1), of i tok]
  have *: "implements (ms_step e (OpAck i tok) s) (q_step e (OpAck i tok) (ms_queue s))
    \<and> implements (ms_step e (OpNack i tok opts) s) (q_step e (OpNack i tok opts) (ms_queue s))
    \<and> implements (ms_step e (OpRelease i tok) s) (q_step e (OpRelease i tok) (ms_queue s))
    \<and> implements (ms_step e (OpPark i tok why) s) (q_step e (OpPark i tok why) (ms_queue s))
    \<and> implements (ms_step e (OpCheckpoint i tok cp) s) (q_step e (OpCheckpoint i tok cp) (ms_queue s))"
  proof (cases "held ?m i tok")
    case (Inl err)
    with s opn R show ?thesis
      by (simp add: ms_step_def q_step_def ms_open_def ms_Ack_def ms_Nack_def ms_Release_def ms_Park_def ms_Checkpoint_def q_settle_def)
  next
    case (Inr p)
    note p = held_order(1,2) [OF m(1) Inr]
    note I = implements_upd [OF s p] implements_remove [OF s p]
    have "implements (RErr ok, set_machine s (setCheckpoint p cp ?m)) (RErr ok, q_upd i (e_checkpoint cp) (ms_queue s))"
      by (rule I(1) [OF acts_setCheckpoint wf_setCheckpoint(1) [OF m(1) p(1)]])
    moreover have "implements (RErr ok, set_machine s (applyRelease p ?m)) (RErr ok, q_upd i e_release (ms_queue s))"
      by (rule I(1) [OF acts_applyRelease [OF m(1) p(1)] wf_applyRelease [OF m(1) p(1)]])
    ultimately show ?thesis
      using opn Inr R s I(1) [OF acts_applyNack [OF m(1) p(1)] wf_applyNack [OF m(1) p(1)]]
        I(1) [OF acts_applyPark [OF m(1) p(1)] wf_applyPark [OF m(1) p(1)]] I(2) room_refines [OF m p(1), of cp]
      by (cases "checkCheckpoint ?m p cp")
        (simp_all add: ms_step_def q_step_def ms_open_def ms_Ack_def ms_Nack_def ms_Release_def ms_Park_def ms_Checkpoint_def
          q_settle_def q_checked_def Let_def)
  qed
  then show "implements (ms_step e (OpAck i tok) s) (q_step e (OpAck i tok) (ms_queue s))"
    "implements (ms_step e (OpNack i tok opts) s) (q_step e (OpNack i tok opts) (ms_queue s))"
    "implements (ms_step e (OpRelease i tok) s) (q_step e (OpRelease i tok) (ms_queue s))"
    "implements (ms_step e (OpPark i tok why) s) (q_step e (OpPark i tok why) (ms_queue s))"
    "implements (ms_step e (OpCheckpoint i tok cp) s) (q_step e (OpCheckpoint i tok cp) (ms_queue s))" by blast+
qed

lemma parked_op_refines:
  assumes s: "ms_ok s" and opn: "ms_open e s"
  shows "implements (ms_step e (OpDiscard i) s) (q_step e (OpDiscard i) (ms_queue s))"
    and "implements (ms_step e (OpRequeueWith i opts) s) (q_step e (OpRequeueWith i opts) (ms_queue s))"
proof -
  let ?m = "msMachine s"
  from s have m: "wf ?m" "in_memory ?m" by (auto simp: ms_ok_def)
  note R = parked_refines [OF m(1), of i]
  have "implements (ms_step e (OpDiscard i) s) (q_step e (OpDiscard i) (ms_queue s))
    \<and> implements (ms_step e (OpRequeueWith i opts) s) (q_step e (OpRequeueWith i opts) (ms_queue s))"
  proof (cases "ms_parked ?m i")
    case (Inl err)
    with s opn R show ?thesis
      by (simp add: ms_step_def q_step_def ms_open_def ms_Discard_def ms_RequeueWith_def q_settle_def)
  next
    case (Inr p)
    note p = ms_parked_order(1,2) [OF m(1) Inr]
    show ?thesis
      using opn Inr R s implements_remove [OF s p] room_refines [OF m p(1), of "qCheckpoint opts"]
        implements_upd [OF s p acts_applyRequeue [OF m(1) p(1)] wf_applyRequeue [OF m(1) p(1)]]
      by (cases "qReplaceCheckpoint opts"; cases "checkCheckpoint ?m p (qCheckpoint opts)")
        (simp_all add: ms_step_def q_step_def ms_open_def ms_Discard_def ms_RequeueWith_def q_settle_def q_checked_def)
  qed
  then show "implements (ms_step e (OpDiscard i) s) (q_step e (OpDiscard i) (ms_queue s))"
    "implements (ms_step e (OpRequeueWith i opts) s) (q_step e (OpRequeueWith i opts) (ms_queue s))" by blast+
qed

lemma step_refines:
  assumes "ms_ok s" and "ms_open e s" and "\<forall>req. op = OpLease req \<longrightarrow> ms_env e s"
  shows "implements (ms_step e op s) (q_step e op (ms_queue s))"
  using assms by (cases op) (auto intro: Append_refines Lease_refines settle_refines parked_op_refines)

section \<open>Calls in sequence\<close>

text \<open>A call the store refuses before it looks at its records changes nothing.\<close>

definition refused :: "store_op \<Rightarrow> gerror \<Rightarrow> store_res" where
  "refused op err = (case op of
      OpLease req \<Rightarrow> RLeases (Inl (case validateLease req of Some bad \<Rightarrow> bad | None \<Rightarrow> err))
    | _ \<Rightarrow> RErr (Some err))"

definition q_call :: "bool \<Rightarrow> call_env \<Rightarrow> store_op \<Rightarrow> queue \<Rightarrow> store_res \<times> queue" where
  "q_call cl e op q = (case ctxErr e of
       Some err \<Rightarrow> (refused op err, q)
     | None \<Rightarrow> if cl then (refused op (EVar ErrClosed), q) else q_step e op q)"

lemma begin_refused:
  "ms_begin e s = Some err \<Longrightarrow> ms_step e op s = (refused op err, s)"
  by (cases op) (auto simp: ms_step_def refused_def ms_Append_def ms_Lease_def ms_Checkpoint_def ms_Ack_def ms_Nack_def
      ms_Release_def ms_Park_def ms_RequeueWith_def ms_Discard_def split: option.splits)

lemma any_call_refines:
  assumes "ms_ok s" and "\<forall>req. op = OpLease req \<longrightarrow> ms_env e s"
  shows "implements (ms_step e op s) (q_call (msClosed s) e op (ms_queue s))"
proof (cases "ms_begin e s")
  case None
  then show ?thesis
    using step_refines [OF assms(1) _ assms(2)] by (auto simp: ms_open_def q_call_def ms_begin_def split: option.splits if_splits)
next
  case (Some err)
  then show ?thesis
    using assms begin_refused [OF Some] by (auto simp: q_call_def ms_begin_def split: option.splits if_splits)
qed

lemma call_refines:
  assumes "ms_ok s" and "ms_env e s"
  shows "implements (ms_step e op s) (q_call (msClosed s) e op (ms_queue s))"
  using assms by (simp add: any_call_refines)

lemma step_closed [simp]: "msClosed (snd (ms_step e op s)) = msClosed s"
  by (cases op) (auto simp: ms_step_def ms_Append_def ms_Lease_def ms_Checkpoint_def ms_Ack_def ms_Nack_def
      ms_Release_def ms_Park_def ms_RequeueWith_def ms_Discard_def Let_def
      split: option.splits prepared.splits sum.splits prod.splits)

fun ms_run :: "(call_env \<times> store_op) list \<Rightarrow> MemoryStore \<Rightarrow> store_res list \<times> MemoryStore" where
  "ms_run [] s = ([], s)"
| "ms_run ((e, op) # cs) s =
     (let (r, s1) = ms_step e op s; (rs, s2) = ms_run cs s1 in (r # rs, s2))"

fun q_run :: "bool \<Rightarrow> (call_env \<times> store_op) list \<Rightarrow> queue \<Rightarrow> store_res list \<times> queue" where
  "q_run cl [] q = ([], q)"
| "q_run cl ((e, op) # cs) q =
     (let (r, q1) = q_call cl e op q; (rs, q2) = q_run cl cs q1 in (r # rs, q2))"

text \<open>Every call of the run sees a sane clock and a complete range over the groups.\<close>

fun run_env :: "(call_env \<times> store_op) list \<Rightarrow> MemoryStore \<Rightarrow> bool" where
  "run_env [] s = True"
| "run_env ((e, op) # cs) s = (ms_env e s \<and> run_env cs (snd (ms_step e op s)))"

lemma run_refines_aux:
  assumes "ms_ok s" and "run_env cs s"
  shows "fst (ms_run cs s) = fst (q_run (msClosed s) cs (ms_queue s))
    \<and> ms_queue (snd (ms_run cs s)) = snd (q_run (msClosed s) cs (ms_queue s)) \<and> ms_ok (snd (ms_run cs s))"
  using assms
proof (induction cs s rule: ms_run.induct)
  case (2 e op cs s)
  obtain r s1 where st: "ms_step e op s = (r, s1)" by fastforce
  with call_refines [OF 2(2), of e op] 2(3)
  have 1: "q_call (msClosed s) e op (ms_queue s) = (r, ms_queue s1)" "ms_ok s1" "msClosed s1 = msClosed s"
    using step_closed [of e op s] by (auto simp: implements_def prod_eq_iff)
  from 2(1) [OF st [symmetric] refl 1(2)] 2(3) st 1
  show ?case by (auto simp: Let_def split: prod.splits)
qed simp

section \<open>The store contract\<close>

definition ms_content :: "MemoryStore \<Rightarrow> content" where
  "ms_content s i = map_option eRec (q_find (ms_queue s) i)"

lemma ms_content_lookup: "ms_ok s \<Longrightarrow> ms_content s i = map_option (rec_at (msMachine s)) (lookup (msMachine s) i)"
  by (simp add: ms_content_def ms_ok_def abs_find option.map_comp o_def)

lemma find_map_id: "(\<And>e. eID (f e) = eID e) \<Longrightarrow> find (\<lambda>e. eID e = i) (map f es) = map_option f (find (\<lambda>e. eID e = i) es)"
  by (induction es) auto

lemma q_find_upd: "(\<And>e. eID (f e) = eID e) \<Longrightarrow>
  q_find (q_upd i f q) j = (if j = i then map_option f (q_find q j) else q_find q j)"
proof -
  assume f: "\<And>e. eID (f e) = eID e"
  have "q_find (q_upd i f q) j = map_option (\<lambda>e. if eID e = i then f e else e) (q_find q j)"
    unfolding q_find_def q_upd_def using f by (simp add: find_map_id)
  moreover have "eID e = j" if "q_find q j = Some e" for e
    using that by (auto simp: q_find_def find_Some_iff)
  ultimately show ?thesis by (cases "q_find q j") auto
qed

lemma q_find_remove: "q_find (q_remove i q) j = (if j = i then None else q_find q j)"
proof -
  have "find (\<lambda>e. eID e = j) (filter (\<lambda>e. eID e \<noteq> i) es) = (if j = i then None else find (\<lambda>e. eID e = j) es)" for es
    by (induction es) auto
  then show ?thesis by (simp add: q_find_def q_remove_def)
qed

lemma find_append: "find P (xs @ ys) = (case find P xs of None \<Rightarrow> find P ys | Some x \<Rightarrow> Some x)"
  by (induction xs) auto

lemma q_find_add: "q_find (q_add r q) j = (case q_find q j of Some e \<Rightarrow> Some e
  | None \<Rightarrow> if rID r = j then Some \<lparr>eRec = r, eToken = '''', eUntil = zero_time\<rparr> else None)"
  by (simp add: q_find_def q_add_def find_append split: option.splits)

lemma e_ops_id [simp]:
  "eID (e_grant tok now ttl e) = eID e" "eID (e_nack t nxt err b rf e) = eID e" "eID (e_release e) = eID e"
  "eID (e_park t why e) = eID e" "eID (e_requeue rp cp e) = eID e" "eID (e_checkpoint cp e) = eID e"
  by (simp_all add: e_grant_def e_nack_def e_release_def e_park_def e_requeue_def e_checkpoint_def)

lemma e_ops_payload [simp]:
  "same_payload (eRec e) (eRec (e_grant tok now ttl e))" "same_payload (eRec e) (eRec (e_nack t nxt err b rf e))"
  "same_payload (eRec e) (eRec (e_release e))" "same_payload (eRec e) (eRec (e_park t why e))"
  "same_payload (eRec e) (eRec (e_requeue rp cp e))" "same_payload (eRec e) (eRec (e_checkpoint cp e))"
  by (simp_all add: same_payload_def e_grant_def e_nack_def e_release_def e_park_def e_requeue_def e_checkpoint_def)

definition q_content :: "queue \<Rightarrow> content" where
  "q_content q i = map_option eRec (q_find q i)"

lemma ms_content_queue: "ms_content s = q_content (ms_queue s)"
  by (simp add: fun_eq_iff ms_content_def q_content_def)

lemma same_payload_sym: "same_payload r r' \<Longrightarrow> same_payload r' r"
  by (simp add: same_payload_def)

lemma q_upd_keeps:
  assumes "\<And>e. eID (f e) = eID e" and "\<And>e. same_payload (eRec e) (eRec (f e))"
  shows "keeps (q_content q) (q_content (q_upd i f q)) \<and> keeps (q_content (q_upd i f q)) (q_content q)"
  using assms same_payload_sym [OF assms(2)]
  by (auto simp: keeps_def q_content_def q_find_upd [OF assms(1)] split: if_splits)

lemma q_grant_keeps:
  "keeps (q_content q) (q_content (snd (q_grant ids ds now ttl q)))
   \<and> keeps (q_content (snd (q_grant ids ds now ttl q))) (q_content q)"
proof (induction ids ds now ttl q rule: q_grant.induct)
  case (1 i "is" draw draws now ttl q)
  let ?q1 = "q_upd i (e_grant (newToken draw) now ttl) q"
  have "keeps (q_content q) (q_content ?q1) \<and> keeps (q_content ?q1) (q_content q)" by (rule q_upd_keeps) simp_all
  moreover have "keeps (q_content ?q1) (q_content (snd (q_grant is draws now ttl ?q1)))
      \<and> keeps (q_content (snd (q_grant is draws now ttl ?q1))) (q_content ?q1)" by (rule 1) simp
  ultimately show ?case by (auto simp: Let_def intro: keeps_trans split: prod.splits)
qed auto

lemma q_grant_other: "j \<notin> set ids \<Longrightarrow> q_find (snd (q_grant ids ds now ttl q)) j = q_find q j"
  by (induction ids ds now ttl q rule: q_grant.induct) (auto simp: Let_def q_find_upd split: prod.splits)

lemma q_find_id: "q_find q i = Some e \<Longrightarrow> eID e = i"
  by (auto simp: q_find_def find_Some_iff)

lemma q_grant_leases:
  assumes "distinct ids" and "l \<in> set (fst (q_grant ids ds now ttl q))"
  shows "rID (lRecord l) \<in> set ids \<and> (\<exists>e. q_find (snd (q_grant ids ds now ttl q)) (rID (lRecord l)) = Some e
    \<and> lRecord l = eRec e \<and> lToken l = eToken e \<and> lUntil l = eUntil e \<and> rState (eRec e) = Leased)"
  using assms
proof (induction ids ds now ttl q rule: q_grant.induct)
  case (1 i "is" draw draws now ttl q)
  let ?q1 = "q_upd i (e_grant (newToken draw) now ttl) q"
  obtain ls q2 where g: "q_grant is draws now ttl ?q1 = (ls, q2)" by fastforce
  show ?case
  proof (cases "l \<in> set ls")
    case True
    with 1(1) [OF refl] 1(2) g show ?thesis by (auto simp: Let_def)
  next
    case False
    with 1(3) g obtain e where e: "q_find ?q1 i = Some e" "l = \<lparr>lRecord = eRec e, lToken = eToken e, lUntil = eUntil e\<rparr>"
      by (cases "q_find ?q1 i") (auto simp: Let_def)
    have "rState (eRec e) = Leased" using e(1) by (auto simp: q_find_upd e_grant_def)
    moreover have "q_find q2 i = Some e" using q_grant_other [of i "is" draws now ttl ?q1] 1(2) g e(1) by simp
    ultimately show ?thesis using e q_find_id [OF e(1)] g by (simp add: Let_def)
  qed
qed auto

lemma q_grant_shape:
  assumes "distinct ids"
  shows "distinct (map (\<lambda>l. rID (lRecord l)) (fst (q_grant ids ds now ttl q)))
    \<and> length (fst (q_grant ids ds now ttl q)) \<le> length ids
    \<and> (\<forall>l \<in> set (fst (q_grant ids ds now ttl q)). \<exists>e. q_find q (rID (lRecord l)) = Some e \<and> rBlockedOn (lRecord l) = rBlockedOn (eRec e))"
  using assms
proof (induction ids ds now ttl q rule: q_grant.induct)
  case (1 i "is" draw draws now ttl q)
  let ?q1 = "q_upd i (e_grant (newToken draw) now ttl) q"
  obtain ls q2 where g: "q_grant is draws now ttl ?q1 = (ls, q2)" by fastforce
  have IH: "distinct (map (\<lambda>l. rID (lRecord l)) ls)" "length ls \<le> length is"
    "\<forall>l \<in> set ls. \<exists>e. q_find ?q1 (rID (lRecord l)) = Some e \<and> rBlockedOn (lRecord l) = rBlockedOn (eRec e)"
    using 1(1) [OF refl] 1(2) g by auto
  have ids: "rID (lRecord l) \<in> set is" if "l \<in> set ls" for l
    using q_grant_leases [of "is" l draws now ttl ?q1] 1(2) g that by simp
  have other: "q_find ?q1 j = q_find q j" if "j \<noteq> i" for j
    using that by (simp add: q_find_upd)
  have old: "\<forall>l \<in> set ls. \<exists>e. q_find q (rID (lRecord l)) = Some e \<and> rBlockedOn (lRecord l) = rBlockedOn (eRec e)"
  proof
    fix l assume l: "l \<in> set ls"
    then have "rID (lRecord l) \<noteq> i" using ids 1(2) by auto
    with IH(3) l other show "\<exists>e. q_find q (rID (lRecord l)) = Some e \<and> rBlockedOn (lRecord l) = rBlockedOn (eRec e)"
      by metis
  qed
  show ?case
  proof (cases "q_find ?q1 i")
    case None
    with IH old g show ?thesis by (auto simp: Let_def)
  next
    case (Some e)
    then obtain e0 where e0: "q_find q i = Some e0" "e = e_grant (newToken draw) now ttl e0"
      by (auto simp: q_find_upd)
    have "rID (eRec e) = i" using q_find_id [OF Some] .
    moreover have "rBlockedOn (eRec e) = rBlockedOn (eRec e0)" by (simp add: e0 e_grant_def)
    moreover have "i \<notin> (\<lambda>l. rID (lRecord l)) ` set ls" using ids 1(2) by auto
    ultimately show ?thesis using IH(1,2) old g Some e0(1) by (auto simp: Let_def)
  qed
qed auto

lemma offered_is_wanted: "e \<in> set (q_offers now req seen es) \<Longrightarrow> e_wanted req e"
  by (induction now req seen es rule: q_offers.induct) (auto split: if_splits)

lemma offers_subset: "set (q_offers now req seen es) \<subseteq> set es"
  by (induction now req seen es rule: q_offers.induct) auto

lemma offers_distinct: "distinct (map eID es) \<Longrightarrow> distinct (map eID (q_offers now req seen es))"
  by (induction now req seen es rule: q_offers.induct) (auto dest: offers_subset [THEN subsetD])

lemma queue_ids_distinct:
  assumes "wf m"
  shows "distinct (map eID (qEntries (queue_of m)))"
proof -
  have "distinct (order m)" using ksorted_distinct [OF order_ksorted [OF wfxD(1) [OF assms [unfolded wf_def]]]] .
  then show ?thesis using order_id_inj [OF assms] by (auto simp: distinct_map o_def inj_on_def)
qed

lemma q_select_distinct: "distinct (map eID (qEntries q)) \<Longrightarrow> distinct (q_select now req q)"
  using offers_distinct [of "qEntries q" now req "{}"] by (simp add: q_select_def take_map [symmetric])

lemma ms_stepD:
  assumes "ms_ok s" and "ms_env e s" and "ms_step e op s = (r, s')"
  shows "ms_ok s'" and "q_call (msClosed s) e op (ms_queue s) = (r, ms_queue s')"
  using call_refines [OF assms(1,2), of op] assms(3) by (auto simp: implements_def prod_eq_iff)

text \<open>Only a lease call ranges over the map of groups.\<close>

lemma ms_stepD_other:
  assumes "ms_ok s" and "\<forall>req. op \<noteq> OpLease req" and "ms_step e op s = (r, s')"
  shows "ms_ok s'" and "q_call (msClosed s) e op (ms_queue s) = (r, ms_queue s')"
  using any_call_refines [OF assms(1), of op e] assms(2,3) by (auto simp: implements_def prod_eq_iff)

text \<open>A settling call on the queue: refused with the queue unchanged, or one entry updated or removed.\<close>

lemma q_settle_cases:
  assumes "q_settle h f q = (RErr res, q')" and "\<And>r q1. f q = (r, q1) \<Longrightarrow> (r \<noteq> ok \<and> q1 = q) \<or> (r = ok \<and> q1 = g q)"
  shows "(res \<noteq> ok \<and> q' = q) \<or> (res = ok \<and> q' = g q \<and> (\<exists>en. h = Inr en))"
  using assms by (cases h) (auto simp: q_settle_def apfst_def map_prod_def split: prod.splits)

lemma q_checked_cases: "q_checked c g q = (r, q1) \<Longrightarrow> (r \<noteq> ok \<and> q1 = q) \<or> (r = ok \<and> q1 = g q)"
  by (auto simp: q_checked_def split: option.splits)

lemma settle_cases:
  "q_settle h (q_checked chk g) q = (RErr res, q') \<Longrightarrow>
   (res \<noteq> ok \<and> q' = q) \<or> (res = ok \<and> q' = g q \<and> (\<exists>en. h = Inr en))"
  by (rule q_settle_cases) (auto dest: q_checked_cases)

lemma q_step_Nack: "q_step e (OpNack i tok opts) q = q_settle (q_held q i tok)
   (q_checked ok (q_upd i (e_nack (clockNow e) (clockNow e + nDelay opts) (nErr opts) (nBlockedOn opts) (nRefund opts)))) q"
  by (simp add: q_step_def)

lemma q_step_Release: "q_step e (OpRelease i tok) q = q_settle (q_held q i tok) (q_checked ok (q_upd i e_release)) q"
  by (simp add: q_step_def)

lemma q_step_Park: "q_step e (OpPark i tok reason) q = q_settle (q_held q i tok) (q_checked ok (q_upd i (e_park (clockNow e) reason))) q"
  by (simp add: q_step_def)

lemma q_step_Checkpoint: "q_step e (OpCheckpoint i tok cp) q = q_settle (q_held q i tok)
   (q_checked (case q_held q i tok of Inr en \<Rightarrow> q_room q en cp | Inl _ \<Rightarrow> ok) (q_upd i (e_checkpoint cp))) q"
  by (simp add: q_step_def)

lemma q_held_found: "q_held q i tok = Inr en \<Longrightarrow> q_find q i = Some en \<and> rState (eRec en) = Leased \<and> eToken en = tok"
  by (auto simp: q_held_def split: option.splits if_splits)

lemma refused_err: "\<forall>req. op \<noteq> OpLease req \<Longrightarrow> refused op err = RErr (Some err)"
  by (cases op) (auto simp: refused_def)

lemma settle_call:
  assumes c: "q_call cl e op q = (RErr res, q')" and op: "\<forall>req. op \<noteq> OpLease req"
    and st: "q_step e op q = q_settle (q_held q i tok) (q_checked chk g) q"
  shows "(res \<noteq> ok \<and> q' = q) \<or> (res = ok \<and> q' = g q \<and> (\<exists>en. q_held q i tok = Inr en))"
proof (cases "ctxErr e = ok \<and> \<not> cl")
  case True
  with c st have "q_settle (q_held q i tok) (q_checked chk g) q = (RErr res, q')" by (simp add: q_call_def)
  from settle_cases [OF this] show ?thesis .
next
  case False
  then show ?thesis using c by (auto simp: q_call_def refused_err [OF op] split: option.splits if_splits)
qed

lemma settle_upd_law:
  assumes s: "ms_ok s" and st: "ms_step e op s = (RErr res, s')" and op: "\<forall>req. op \<noteq> OpLease req"
    and q: "q_step e op (ms_queue s) = q_settle (q_held (ms_queue s) i tok) (q_checked chk (q_upd i f)) (ms_queue s)"
    and f: "\<And>e. eID (f e) = eID e" "\<And>e. same_payload (eRec e) (eRec (f e))" "\<And>e. P (eRec (f e))"
  shows "ms_ok s' \<and> keeps (ms_content s) (ms_content s') \<and> keeps (ms_content s') (ms_content s)
    \<and> (res = ok \<longrightarrow> (\<exists>r. ms_content s' i = Some r \<and> P r))"
proof -
  from settle_call [OF ms_stepD_other(2) [OF s op st] op q]
  show ?thesis
  proof
    assume "res = ok \<and> ms_queue s' = q_upd i f (ms_queue s) \<and> (\<exists>en. q_held (ms_queue s) i tok = Inr en)"
    then show ?thesis
      using ms_stepD_other(1) [OF s op st] q_upd_keeps [of f "ms_queue s" i, OF f(1,2)] f(3)
      by (auto simp: ms_content_queue q_content_def q_find_upd [OF f(1)] dest: q_held_found)
  qed (use ms_stepD_other(1) [OF s op st] in \<open>auto simp: ms_content_queue\<close>)
qed

lemma Append_content:
  assumes s: "ms_ok s" and st: "ms_Append e r s = (res, s')"
  shows "ms_ok s' \<and> (res \<noteq> ok \<and> ms_content s' = ms_content s
    \<or> res = ok \<and> ms_content s (rID r) \<noteq> None \<and> ms_content s' = ms_content s
    \<or> res = ok \<and> ms_content s (rID r) = None \<and> (\<exists>r'. stored_as r r' \<and> ms_content s' = (ms_content s)(rID r \<mapsto> r')))"
proof -
  have step: "ms_step e (OpAppend r) s = (RErr res, s')" using st by (simp add: ms_step_def)
  have ok': "ms_ok s'" using ms_stepD_other(1) [OF s _ step] by simp
  from s have m: "wf (msMachine s)" by (simp add: ms_ok_def)
  consider "res \<noteq> ok" "s' = s" | "res = ok" "s' = s" "prepare (msMachine s) r (clockNow e) = PrepDup"
    | r' where "res = ok" "prepare (msMachine s) r (clockNow e) = PrepNew r'"
        "s' = set_machine s (machine_insert r' (msMachine s))"
    using st unfolding ms_Append_def
    by (cases "ms_begin e s"; cases "prepare (msMachine s) r (clockNow e)") (auto dest: sym)
  then show ?thesis
  proof cases
    case 1
    then show ?thesis using ok' by simp
  next
    case 2
    then have "lookup (msMachine s) (rID r) \<noteq> None" by (intro prepare_dup)
    with 2 ok' show ?thesis by (auto simp: ms_content_lookup [OF s])
  next
    case (3 r')
    note P = prepare_new [OF 3(2)]
    have l: "lookup (msMachine s) (rID r') = None" using P by simp
    have "ms_queue s' = q_add r' (ms_queue s)" using queue_of_insert [OF m l] 3 by simp
    then have "ms_content s' = (ms_content s)(rID r \<mapsto> r')"
      using P(1,2) abs_find [OF m, of "rID r"] by (auto simp: ms_content_def fun_eq_iff q_find_add split: option.splits)
    moreover have "ms_content s (rID r) = None" using P(1) by (simp add: ms_content_lookup [OF s])
    ultimately show ?thesis using 3(1) P(6) ok' by blast
  qed
qed

lemma Lease_content:
  assumes s: "ms_ok s" "ms_env e s" and st: "ms_Lease e req s = (lres, s')"
  shows "ms_ok s' \<and> keeps (ms_content s) (ms_content s') \<and> keeps (ms_content s') (ms_content s)"
    and "lres = Inr ls \<Longrightarrow> l \<in> set ls \<Longrightarrow> ms_content s' (rID (lRecord l)) = Some (lRecord l) \<and> rState (lRecord l) = Leased"
proof -
  have step: "ms_step e (OpLease req) s = (RLeases lres, s')" using st by (simp add: ms_step_def)
  note ok' = ms_stepD(1) [OF s step] and call = ms_stepD(2) [OF s step]
  let ?g = "q_grant (q_select (clockNow e) req (ms_queue s)) (tokenDraws e) (clockNow e) (lrTTL req) (ms_queue s)"
  have q: "ms_queue s' = ms_queue s \<and> (\<exists>err. lres = Inl err) \<or> ms_queue s' = snd ?g \<and> lres = Inr (fst ?g)"
    using call by (auto simp: q_call_def q_step_def refused_def apfst_def map_prod_def split: option.splits if_splits prod.splits)
  then show "ms_ok s' \<and> keeps (ms_content s) (ms_content s') \<and> keeps (ms_content s') (ms_content s)"
    using ok' q_grant_keeps [of "ms_queue s"] by (auto simp: ms_content_queue)
  have "distinct (q_select (clockNow e) req (ms_queue s))"
    using s(1) by (intro q_select_distinct queue_ids_distinct) (simp add: ms_ok_def)
  from q_grant_leases [OF this]
  show "lres = Inr ls \<Longrightarrow> l \<in> set ls \<Longrightarrow> ms_content s' (rID (lRecord l)) = Some (lRecord l) \<and> rState (lRecord l) = Leased"
    using q by (fastforce simp: ms_content_queue q_content_def)
qed

lemma Lease_shape:
  assumes s: "ms_ok s" "ms_env e s" and st: "ms_Lease e req s = (Inr ls, s')"
  shows "length ls \<le> nat (lrMax req) \<and> distinct (map (\<lambda>l. rID (lRecord l)) ls) \<and> (\<forall>l \<in> set ls. rBlockedOn (lRecord l) \<notin> set (lrSkip req))"
proof -
  have step: "ms_step e (OpLease req) s = (RLeases (Inr ls), s')" using st by (simp add: ms_step_def)
  let ?ids = "q_select (clockNow e) req (ms_queue s)"
  let ?g = "q_grant ?ids (tokenDraws e) (clockNow e) (lrTTL req) (ms_queue s)"
  have ls: "ls = fst ?g"
    using ms_stepD(2) [OF s step]
    by (auto simp: q_call_def q_step_def refused_def apfst_def map_prod_def split: option.splits if_splits prod.splits)
  have dq: "distinct (map eID (qEntries (ms_queue s)))"
    using s(1) by (intro queue_ids_distinct) (simp add: ms_ok_def)
  then have d: "distinct ?ids" by (rule q_select_distinct)
  have len: "length ?ids \<le> nat (lrMax req)" by (simp add: q_select_def)
  have wanted: "rBlockedOn (eRec en) \<notin> set (lrSkip req)" if "i \<in> set ?ids" and "q_find (ms_queue s) i = Some en" for i en
  proof -
    have "i \<in> eID ` set (take (nat (lrMax req)) (q_offers (clockNow e) req {} (qEntries (ms_queue s))))"
      using that(1) by (simp only: q_select_def set_map)
    then obtain en' where en': "en' \<in> set (q_offers (clockNow e) req {} (qEntries (ms_queue s)))" "eID en' = i"
      by (elim imageE) (drule in_set_takeD, simp only: simp_thms)
    then have "en' \<in> set (qEntries (ms_queue s))" using offers_subset by blast
    moreover have "en \<in> set (qEntries (ms_queue s))" "eID en = i"
      using that(2) q_find_id [OF that(2)] by (auto simp: q_find_def find_Some_iff simp del: abs_sel)
    ultimately have "en' = en" using dq en'(2) by (metis (no_types, lifting) distinct_map inj_onD)
    with offered_is_wanted [OF en'(1)] show ?thesis by (auto simp: e_wanted_def)
  qed
  show ?thesis
    using q_grant_shape [OF d, of "tokenDraws e" "clockNow e" "lrTTL req" "ms_queue s"] q_grant_leases [OF d] wanted len
    unfolding ls by (metis (no_types, lifting) order_trans)
qed

lemma Ack_content:
  assumes s: "ms_ok s" and st: "ms_Ack e i tok s = (res, s')"
  shows "ms_ok s' \<and> ms_content s' = (if res = ok then (ms_content s)(i := None) else ms_content s)"
proof -
  have step: "ms_step e (OpAck i tok) s = (RErr res, s')" using st by (simp add: ms_step_def)
  have "q_step e (OpAck i tok) (ms_queue s) = q_settle (q_held (ms_queue s) i tok) (q_checked ok (q_remove i)) (ms_queue s)"
    by (simp add: q_step_def)
  from settle_call [OF ms_stepD_other(2) [OF s _ step] _ this] ms_stepD_other(1) [OF s _ step] show ?thesis
    by (auto simp: ms_content_queue q_content_def q_find_remove fun_eq_iff)
qed

interpretation mem: dlq_store ms_ok ms_content ms_Append ms_env ms_Lease ms_Ack ms_Nack ms_Release ms_Park ms_Checkpoint
proof unfold_locales
  fix s e r res s'
  assume a: "ms_ok s" "ms_Append e r s = (res, s')"
  show "ms_ok s'" using Append_content [OF a] by blast
next
  fix s e r err s'
  assume a: "ms_ok s" "ms_Append e r s = (Some err, s')"
  show "ms_content s' = ms_content s" using Append_content [OF a] by auto
next
  fix s e r s' r0
  assume a: "ms_ok s" "ms_Append e r s = (ok, s')" and "ms_content s (rID r) = Some r0"
  then show "ms_content s' = ms_content s" using Append_content [OF a] by auto
next
  fix s e r s'
  assume a: "ms_ok s" "ms_Append e r s = (ok, s')" and "ms_content s (rID r) = None"
  then show "\<exists>r'. stored_as r r' \<and> ms_content s' = (ms_content s)(rID r \<mapsto> r')" using Append_content [OF a] by auto
next
  fix s e req lres s'
  assume "ms_ok s" "ms_env e s" "ms_Lease e req s = (lres, s')"
  then show "ms_ok s' \<and> keeps (ms_content s) (ms_content s') \<and> keeps (ms_content s') (ms_content s)"
    by (rule Lease_content)
next
  fix s e req ls s' l
  assume a: "ms_ok s" "ms_env e s" "ms_Lease e req s = (Inr ls, s')" and "l \<in> set ls"
  then show "ms_content s' (rID (lRecord l)) = Some (lRecord l) \<and> rState (lRecord l) = Leased"
    using Lease_content(2) [OF a refl] by blast
next
  fix s e req ls s'
  assume "ms_ok s" "ms_env e s" "ms_Lease e req s = (Inr ls, s')"
  then show "length ls \<le> nat (lrMax req) \<and> distinct (map (\<lambda>l. rID (lRecord l)) ls) \<and> (\<forall>l \<in> set ls. rBlockedOn (lRecord l) \<notin> set (lrSkip req))"
    by (rule Lease_shape)
next
  fix s e i t res s'
  assume "ms_ok s" "ms_Ack e i t s = (res, s')"
  then show "ms_ok s' \<and> ms_content s' = (if res = ok then (ms_content s)(i := None) else ms_content s)"
    by (rule Ack_content)
next
  fix s e i t opts res s'
  assume a: "ms_ok s" "ms_Nack e i t opts s = (res, s')"
  then have "ms_step e (OpNack i t opts) s = (RErr res, s')" by (simp add: ms_step_def)
  then show "ms_ok s' \<and> keeps (ms_content s) (ms_content s') \<and> keeps (ms_content s') (ms_content s)
      \<and> (res = ok \<longrightarrow> (\<exists>r. ms_content s' i = Some r \<and> rState r = Pending))"
    by (intro settle_upd_law [OF a(1) _ _ q_step_Nack, where P = "\<lambda>r. rState r = Pending"]) (simp_all add: e_nack_def same_payload_def)
next
  fix s e i t res s'
  assume a: "ms_ok s" "ms_Release e i t s = (res, s')"
  then have "ms_step e (OpRelease i t) s = (RErr res, s')" by (simp add: ms_step_def)
  then show "ms_ok s' \<and> keeps (ms_content s) (ms_content s') \<and> keeps (ms_content s') (ms_content s)
      \<and> (res = ok \<longrightarrow> (\<exists>r. ms_content s' i = Some r \<and> rState r = Pending))"
    by (intro settle_upd_law [OF a(1) _ _ q_step_Release, where P = "\<lambda>r. rState r = Pending"]) (simp_all add: e_release_def same_payload_def)
next
  fix s e i t why res s'
  assume a: "ms_ok s" "ms_Park e i t why s = (res, s')"
  then have "ms_step e (OpPark i t why) s = (RErr res, s')" by (simp add: ms_step_def)
  then show "ms_ok s' \<and> keeps (ms_content s) (ms_content s') \<and> keeps (ms_content s') (ms_content s)
      \<and> (res = ok \<longrightarrow> (\<exists>r. ms_content s' i = Some r \<and> rState r = Parked))"
    by (intro settle_upd_law [OF a(1) _ _ q_step_Park, where P = "\<lambda>r. rState r = Parked"]) (simp_all add: e_park_def same_payload_def)
next
  fix s e i t cp res s'
  assume a: "ms_ok s" "ms_Checkpoint e i t cp s = (res, s')"
  then have "ms_step e (OpCheckpoint i t cp) s = (RErr res, s')" by (simp add: ms_step_def)
  then show "ms_ok s' \<and> keeps (ms_content s) (ms_content s') \<and> keeps (ms_content s') (ms_content s)
      \<and> (res = ok \<longrightarrow> (\<exists>r. ms_content s' i = Some r \<and> rCheckpoint r = cp))"
    by (intro settle_upd_law [OF a(1) _ _ q_step_Checkpoint, where P = "\<lambda>r. rCheckpoint r = cp"]) (simp_all add: e_checkpoint_def same_payload_def)
qed

end
