(* ===== verification/GG_Memory_Props.thy ===== *)
theory GG_Memory_Props
  imports GG_Memory
begin

text \<open>
  The promises of the in-memory store: it behaves as the plain queue of the specification over any
  sequence of calls, hands out due records oldest first, never has two records of one order key out at
  once, refuses stale lease tokens, loses nothing, respects its capacity, and reports exact counts.
\<close>

section \<open>One record per order key\<close>

fun keys_ok :: "string set \<Rightarrow> entry list \<Rightarrow> bool" where
  "keys_ok seen [] = True"
| "keys_ok seen (e # es) =
     ((rState (eRec e) = Leased \<and> eKey e \<noteq> '''' \<longrightarrow> eKey e \<notin> seen) \<and> keys_ok (insert (eKey e) seen) es)"

fun leads :: "string set \<Rightarrow> string \<Rightarrow> entry list \<Rightarrow> bool" where
  "leads seen i [] = True"
| "leads seen i (e # es) = ((eID e = i \<longrightarrow> eKey e = '''' \<or> eKey e \<notin> seen) \<and> leads (insert (eKey e) seen) i es)"

lemma keys_ok_mono: "keys_ok T es \<Longrightarrow> S \<subseteq> T \<Longrightarrow> keys_ok S es"
proof (induction es arbitrary: S T)
  case (Cons e es)
  have "keys_ok (insert (eKey e) S) es"
    by (rule Cons.IH [of "insert (eKey e) T"]) (use Cons.prems in auto)
  with Cons.prems show ?case by auto
qed simp

lemma keys_ok_filter: "keys_ok S es \<Longrightarrow> keys_ok S (filter P es)"
proof (induction es arbitrary: S)
  case (Cons e es)
  then have "keys_ok (insert (eKey e) S) (filter P es)" by simp
  moreover from this have "keys_ok S (filter P es)" by (rule keys_ok_mono) auto
  ultimately show ?case using Cons.prems by simp
qed simp

lemma keys_ok_snoc: "keys_ok S es \<Longrightarrow> rState (eRec e) \<noteq> Leased \<Longrightarrow> keys_ok S (es @ [e])"
  by (induction es arbitrary: S) auto

lemma keys_ok_map: "keys_ok S es \<Longrightarrow> (\<And>e. eKey (f e) = eKey e) \<Longrightarrow>
   (\<And>e. rState (eRec (f e)) = Leased \<Longrightarrow> rState (eRec e) = Leased) \<Longrightarrow> keys_ok S (map f es)"
  by (induction es arbitrary: S) auto

lemma keys_ok_grant: "keys_ok S es \<Longrightarrow> leads S i es \<Longrightarrow> (\<And>e. eKey (f e) = eKey e) \<Longrightarrow>
   keys_ok S (map (\<lambda>e. if eID e = i then f e else e) es)"
  by (induction es arbitrary: S) auto

lemma leads_map: "leads S i es \<Longrightarrow> (\<And>e. eKey (f e) = eKey e) \<Longrightarrow> (\<And>e. eID (f e) = eID e) \<Longrightarrow> leads S i (map f es)"
  by (induction es arbitrary: S) auto

lemma leads_notin: "i \<notin> eID ` set es \<Longrightarrow> leads S i es"
  by (induction es arbitrary: S) auto

lemma q_grant_ids:
  assumes "length ids \<le> length ds" and "\<And>i. i \<in> set ids \<Longrightarrow> q_find q i \<noteq> None"
  shows "map (\<lambda>l. rID (lRecord l)) (fst (q_grant ids ds now ttl q)) = ids"
  using assms
proof (induction ids ds now ttl q rule: q_grant.induct)
  case (1 i "is" draw draws now ttl q)
  let ?q1 = "q_upd i (e_grant (newToken draw) now ttl) q"
  have "map (\<lambda>l. rID (lRecord l)) (fst (q_grant is draws now ttl ?q1)) = is"
    by (rule 1(1) [OF refl]) (use 1(2,3) in \<open>auto simp: q_find_upd\<close>)
  moreover obtain en where "q_find ?q1 i = Some en" using 1(3) [of i] by (auto simp: q_find_upd)
  ultimately show ?case by (simp add: Let_def case_prod_beta q_find_id)
qed auto

lemma offers_lead: "distinct (map eID es) \<Longrightarrow> e \<in> set (q_offers now req S es) \<Longrightarrow> leads S (eID e) es"
proof (induction now req S es rule: q_offers.induct)
  case (2 now req S d es)
  show ?case
  proof (cases "e = d \<and> e_due now d \<and> e_wanted req d \<and> (eKey d = '''' \<or> eKey d \<notin> S)")
    case True
    with 2(3) show ?thesis by (auto intro!: leads_notin)
  next
    case False
    with 2(4) have e: "e \<in> set (q_offers now req (insert (eKey d) S) es)" by (auto split: if_splits)
    then have "leads (insert (eKey d) S) (eID e) es"
      using 2(1,2,3) by (cases "e_due now d \<and> e_wanted req d \<and> (eKey d = '''' \<or> eKey d \<notin> S)") auto
    moreover have "eID d \<noteq> eID e" using 2(3) e offers_subset by fastforce
    ultimately show ?thesis by simp
  qed
qed simp

lemma keys_ok_q_grant:
  "keys_ok {} (qEntries q) \<Longrightarrow> (\<And>i. i \<in> set ids \<Longrightarrow> leads {} i (qEntries q)) \<Longrightarrow>
   keys_ok {} (qEntries (snd (q_grant ids ds now ttl q)))"
proof (induction ids ds now ttl q rule: q_grant.induct)
  case (1 i "is" draw draws now ttl q)
  let ?q1 = "q_upd i (e_grant (newToken draw) now ttl) q"
  have key: "eKey (e_grant (newToken draw) now ttl e) = eKey e" for e by (simp add: e_grant_def)
  have "keys_ok {} (qEntries ?q1)" using 1(2,3) by (simp add: q_upd_def keys_ok_grant key)
  moreover have "leads {} j (qEntries ?q1)" if "j \<in> set is" for j
    using 1(3) that by (auto simp: q_upd_def intro!: leads_map simp: key)
  ultimately have "keys_ok {} (qEntries (snd (q_grant is draws now ttl ?q1)))" by (rule 1(1) [OF refl])
  then show ?case by (simp add: Let_def case_prod_beta)
qed auto

lemma keys_ok_settle:
  assumes "keys_ok S (qEntries q)" and "keys_ok S (qEntries (g q))"
  shows "keys_ok S (qEntries (snd (q_settle h (q_checked c g) q)))"
  using assms by (cases h; cases c) (auto simp: q_settle_def q_checked_def)

lemma keys_ok_upd:
  assumes "keys_ok S (qEntries q)" and "\<And>e. eKey (f e) = eKey e"
    and "\<And>e. rState (eRec (f e)) = Leased \<Longrightarrow> rState (eRec e) = Leased"
  shows "keys_ok S (qEntries (q_upd i f q))"
  using assms by (auto simp: q_upd_def intro!: keys_ok_map split: if_splits)

lemma q_prepare_state: "q_prepare q r now = PrepNew r' \<Longrightarrow> rState r' \<noteq> Leased"
  unfolding q_prepare_def by (auto split: if_split_asm simp: Validate_def)

lemma keys_ok_step:
  assumes k: "keys_ok {} (qEntries q)" and d: "distinct (map eID (qEntries q))"
  shows "keys_ok {} (qEntries (snd (q_step e op q)))"
proof (cases op)
  case (OpAppend r)
  with k show ?thesis
    by (auto simp: q_step_def q_add_def intro!: keys_ok_snoc dest: q_prepare_state split: prepared.splits)
next
  case (OpLease req)
  have "leads {} i (qEntries q)" if "i \<in> set (q_select (clockNow e) req q)" for i
    using that offers_lead [OF d] by (auto simp: q_select_def dest: in_set_takeD)
  with OpLease k keys_ok_q_grant [OF k] show ?thesis by (auto simp: q_step_def split: option.splits)
next
  case (OpAck i tok)
  with k show ?thesis by (auto simp: q_step_def q_remove_def intro!: keys_ok_settle keys_ok_filter)
next
  case (OpDiscard i)
  with k show ?thesis by (auto simp: q_step_def q_remove_def intro!: keys_ok_settle keys_ok_filter)
next
  case (OpNack i tok opts)
  with k show ?thesis by (auto simp: q_step_def e_nack_def intro!: keys_ok_settle keys_ok_upd)
next
  case (OpRelease i tok)
  with k show ?thesis by (auto simp: q_step_def e_release_def intro!: keys_ok_settle keys_ok_upd)
next
  case (OpPark i tok why)
  with k show ?thesis by (auto simp: q_step_def e_park_def intro!: keys_ok_settle keys_ok_upd)
next
  case (OpCheckpoint i tok cp)
  with k show ?thesis by (auto simp: q_step_def e_checkpoint_def intro!: keys_ok_settle keys_ok_upd)
next
  case (OpRequeueWith i opts)
  with k show ?thesis by (auto simp: q_step_def e_requeue_def intro!: keys_ok_settle keys_ok_upd)
qed

lemma keys_ok_run:
  assumes "ms_ok s" and "run_env cs s" and "keys_ok {} (qEntries (ms_queue s))"
  shows "keys_ok {} (qEntries (ms_queue (snd (ms_run cs s))))"
  using assms
proof (induction cs s rule: ms_run.induct)
  case (2 e op cs s)
  obtain r s1 where st: "ms_step e op s = (r, s1)" by fastforce
  from 2(3) have env: "ms_env e s" by simp
  note D = ms_stepD [OF 2(2) env st]
  have "distinct (map eID (qEntries (ms_queue s)))" using 2(2) by (intro queue_ids_distinct) (simp add: ms_ok_def)
  from keys_ok_step [OF 2(4) this, of e op] D(2) 2(4) have "keys_ok {} (qEntries (ms_queue s1))"
    by (auto simp: q_call_def simp del: abs_sel split: option.splits if_splits)
  with 2(1) [OF st [symmetric] refl D(1)] 2(3) st show ?case by (auto simp: Let_def split: prod.splits)
qed simp

lemma keys_ok_pair:
  "keys_ok S (xs @ e # ys) \<Longrightarrow> rState (eRec e) = Leased \<Longrightarrow> eKey e \<noteq> '''' \<Longrightarrow> eKey e \<notin> S \<union> eKey ` set xs"
  by (induction xs arbitrary: S) fastforce+

section \<open>A small run\<close>

text \<open>Two records of different order keys, blocked on different dependencies.\<close>

definition ex_opts :: MemoryOptions where
  "ex_opts = \<lparr>moMaxRecords = 2, moMaxBytes = 0, moMaxRecordBytes = 0\<rparr>"

definition ex_rec :: "string \<Rightarrow> string \<Rightarrow> string \<Rightarrow> Record" where
  "ex_rec i k d = zero_record\<lparr>rID := i, rBlockedOn := d, rOrderKey := k, rValue := Some ''v''\<rparr>"

definition ex_env :: "time \<Rightarrow> string list \<Rightarrow> call_env" where
  "ex_env now ks = \<lparr>ctxErr = ok, clockNow = now, mapOrder = ks, tokenDraws = [''aaaaaaaaaaaaaaaa'', ''bbbbbbbbbbbbbbbb'']\<rparr>"

definition ex_req :: LeaseRequest where
  "ex_req = \<lparr>lrBlockedOn = '''', lrSkip = [], lrMax = 2, lrTTL = 30\<rparr>"

definition ex_run :: "(call_env \<times> store_op) list" where
  "ex_run = [(ex_env 1 [], OpAppend (ex_rec ''a'' ''k1'' ''db'')), (ex_env 2 [''db''], OpAppend (ex_rec ''b'' ''k2'' ''api''))]"

definition ex_store :: MemoryStore where
  "ex_store = snd (ms_run ex_run (NewMemoryStore ex_opts))"

definition ex_lease :: "call_env \<times> store_op" where
  "ex_lease = (ex_env 3 [''api'', ''db''], OpLease ex_req)"

lemmas ex_defs = ex_opts_def ex_rec_def ex_env_def ex_req_def ex_run_def

lemmas ms_eval = ms_step_def ms_Append_def ms_Lease_def ms_begin_def NewMemoryStore_def newMachine_def prepare_def
  Validate_def validateLease_def maxIDLen_def zero_record_def zero_source_def lookup_def len_items_def Size_def blen_def
  headers_size_def machine_insert_def enter_def link_def Let_def add_count_def insertOrdered_def zero_item_def
  upd_item_def upd_rec_def DefaultMemoryMaxBytes_def zero_time_def set_machine_def InsertAfter_def unlink_def

lemma ex_run_env: "run_env ex_run (NewMemoryStore ex_opts)"
  unfolding ex_defs by (simp add: ms_env_def ms_eval)

lemma ex_store_ok: "ms_ok ex_store"
  using run_refines_aux [OF ms_ok_new ex_run_env] by (simp add: ex_store_def)

lemma ex_store_facts:
  "dom (groups (msMachine ex_store)) = {''api'', ''db''}" "msClosed ex_store = False"
  "qEntries (ms_queue ex_store)
     = [\<lparr>eRec = filled (ex_rec ''a'' ''k1'' ''db'') 1 1, eToken = '''', eUntil = zero_time\<rparr>,
        \<lparr>eRec = filled (ex_rec ''b'' ''k2'' ''api'') 2 2, eToken = '''', eUntil = zero_time\<rparr>]"
  unfolding ex_store_def ex_defs by (auto simp add: ms_eval filled_def CurrentSchema_def entry_at_def)

lemma ex_store_env: "ms_env (ex_env 3 [''api'', ''db'']) ex_store" "ms_begin (ex_env 3 ks) ex_store = ok"
  by (simp_all add: ms_env_def ex_store_facts ms_begin_def) (simp_all add: ex_env_def)

lemma run_env_append: "run_env (cs @ ds) s \<longleftrightarrow> run_env cs s \<and> run_env ds (snd (ms_run cs s))"
  by (induction cs s rule: run_env.induct) (auto simp: Let_def split: prod.splits)

lemma ms_run_append: "snd (ms_run (cs @ ds) s) = snd (ms_run ds (snd (ms_run cs s)))"
  by (induction cs s rule: run_env.induct) (auto simp: Let_def split: prod.splits)

lemma ex_lease_env: "run_env (ex_run @ [ex_lease]) (NewMemoryStore ex_opts)"
  using ex_run_env ex_store_env(1) by (simp add: run_env_append ex_store_def ex_lease_def)

lemma ex_leased:
  "qEntries (ms_queue (snd (ms_run (ex_run @ [ex_lease]) (NewMemoryStore ex_opts))))
     = [\<lparr>eRec = (filled (ex_rec ''a'' ''k1'' ''db'') 1 1)\<lparr>rState := Leased, rAttempts := 1\<rparr>,
         eToken = newToken ''aaaaaaaaaaaaaaaa'', eUntil = 33\<rparr>]
     @ \<lparr>eRec = (filled (ex_rec ''b'' ''k2'' ''api'') 2 2)\<lparr>rState := Leased, rAttempts := 1\<rparr>,
         eToken = newToken ''bbbbbbbbbbbbbbbb'', eUntil = 33\<rparr> # []"
proof -
  have "ms_queue (snd (ms_step (ex_env 3 [''api'', ''db'']) (OpLease ex_req) ex_store))
      = snd (q_step (ex_env 3 [''api'', ''db'']) (OpLease ex_req) (ms_queue ex_store))"
    using call_refines [OF ex_store_ok ex_store_env(1), of "OpLease ex_req"]
    by (simp add: implements_def q_call_def ex_store_facts(2)) (simp add: ex_env_def)
  moreover have "qEntries (snd (q_step (ex_env 3 [''api'', ''db'']) (OpLease ex_req) (ms_queue ex_store)))
     = [\<lparr>eRec = (filled (ex_rec ''a'' ''k1'' ''db'') 1 1)\<lparr>rState := Leased, rAttempts := 1\<rparr>,
         eToken = newToken ''aaaaaaaaaaaaaaaa'', eUntil = 33\<rparr>]
     @ \<lparr>eRec = (filled (ex_rec ''b'' ''k2'' ''api'') 2 2)\<lparr>rState := Leased, rAttempts := 1\<rparr>,
         eToken = newToken ''bbbbbbbbbbbbbbbb'', eUntil = 33\<rparr> # []"
    unfolding q_step_def q_select_def ex_store_facts(3)
    by (simp add: ex_env_def ex_req_def validateLease_def e_due_def e_wanted_def filled_def ex_rec_def zero_record_def
        zero_time_def q_upd_def Let_def numeral_2_eq_2 ex_store_facts(3) del: abs_sel(2)) (simp add: e_grant_def)
  ultimately show ?thesis by (simp add: ms_run_append ex_lease_def ex_store_def [symmetric] Let_def case_prod_beta del: abs_sel)
qed

section \<open>Properties\<close>

text \<open>
  C24: over any sequence of calls on a new store, every answer and the records held are those of the
  specification queue, a plain list walked front to back: the heap, the groups, the hints, the
  counters and the cached wake times of the implementation are invisible.
\<close>

theorem memory_refines:
  assumes "run_env cs (NewMemoryStore opts)"
  shows "fst (ms_run cs (NewMemoryStore opts)) = fst (q_run False cs (ms_queue (NewMemoryStore opts)))
    \<and> ms_queue (snd (ms_run cs (NewMemoryStore opts))) = snd (q_run False cs (ms_queue (NewMemoryStore opts)))"
proof -
  have "msClosed (NewMemoryStore opts) = False" by (simp add: NewMemoryStore_def Let_def)
  with run_refines_aux [OF ms_ok_new assms] show ?thesis by simp
qed

theorem memory_refines_witness:
  "ms_queue (snd (ms_run ex_run (NewMemoryStore ex_opts))) = snd (q_run False ex_run (ms_queue (NewMemoryStore ex_opts)))
   \<and> length (qEntries (ms_queue ex_store)) = 2"
  using memory_refines [OF ex_run_env] by (simp add: ex_store_facts(3) del: abs_sel)



text \<open>
  C27: a lease call returns, oldest first, exactly the records of the queue that are due, wait on an
  allowed dependency and have no older record with their order key, up to the number asked for, each
  now leased under its fresh token; no parked record is ever among them.
\<close>

theorem lease_oldest_due:
  assumes "ms_ok s" and "ms_env e s" and "ms_begin e s = ok" and "validateLease req = ok"
    and "nat (lrMax req) \<le> length (tokenDraws e)"
  shows "\<exists>ls s'. ms_Lease e req s = (Inr ls, s') \<and> ms_ok s'
    \<and> map (\<lambda>l. rID (lRecord l)) ls = map eID (take (nat (lrMax req)) (q_offers (clockNow e) req {} (qEntries (ms_queue s))))
    \<and> list_all (\<lambda>l. q_find (ms_queue s') (rID (lRecord l)) = Some \<lparr>eRec = lRecord l, eToken = lToken l, eUntil = lUntil l\<rparr>
         \<and> rState (lRecord l) = Leased) ls"
proof -
  let ?ids = "q_select (clockNow e) req (ms_queue s)"
  let ?g = "q_grant ?ids (tokenDraws e) (clockNow e) (lrTTL req) (ms_queue s)"
  obtain lres s' where L: "ms_Lease e req s = (lres, s')" by fastforce
  then have "ms_step e (OpLease req) s = (RLeases lres, s')" by (simp add: ms_step_def)
  note D = ms_stepD [OF assms(1,2) this]
  have q: "lres = Inr (fst ?g)" "ms_queue s' = snd ?g"
    using D(2) assms(3,4)
    by (auto simp: q_call_def q_step_def ms_begin_def apfst_def map_prod_def split: option.splits if_splits prod.splits)
  have d: "distinct ?ids" using assms(1) by (intro q_select_distinct queue_ids_distinct) (simp add: ms_ok_def)
  have found: "q_find (ms_queue s) i \<noteq> None" if "i \<in> set ?ids" for i
    using that offers_subset [of "clockNow e" req "{}" "qEntries (ms_queue s)"]
    by (auto simp: q_select_def q_find_def find_None_iff simp del: abs_sel dest!: in_set_takeD)
  have "length ?ids \<le> length (tokenDraws e)" using assms(5) by (simp add: q_select_def)
  from q_grant_ids [OF this found] have "map (\<lambda>l. rID (lRecord l)) (fst ?g) = ?ids" .
  moreover have "list_all (\<lambda>l. q_find (snd ?g) (rID (lRecord l)) = Some \<lparr>eRec = lRecord l, eToken = lToken l, eUntil = lUntil l\<rparr>
         \<and> rState (lRecord l) = Leased) (fst ?g)"
    using q_grant_leases [OF d] by (fastforce simp: list_all_iff)
  ultimately show ?thesis using L q D(1) by (auto simp: q_select_def)
qed

theorem lease_oldest_due_witness:
  "\<exists>ls s'. ms_Lease (ex_env 3 [''api'', ''db'']) ex_req ex_store = (Inr ls, s')
     \<and> map (\<lambda>l. rID (lRecord l)) ls = [''a'', ''b'']"
proof -
  have "validateLease ex_req = ok" "nat (lrMax ex_req) \<le> length (tokenDraws (ex_env 3 [''api'', ''db'']))"
    by (simp_all add: validateLease_def ex_req_def ex_env_def)
  moreover have "map eID (take (nat (lrMax ex_req)) (q_offers (clockNow (ex_env 3 [''api'', ''db''])) ex_req {}
      (qEntries (ms_queue ex_store)))) = [''a'', ''b'']"
    unfolding ex_store_facts(3)
    by (simp add: ex_env_def ex_req_def e_due_def e_wanted_def filled_def ex_rec_def zero_record_def zero_time_def numeral_2_eq_2)
  ultimately show ?thesis
    using lease_oldest_due [OF ex_store_ok ex_store_env(1) ex_store_env(2), of ex_req] by auto
qed

text \<open>
  C28: leases are fenced: unless a record is leased under exactly the token presented, acknowledging,
  failing, releasing, parking or checkpointing it is refused with the lease-lost error and changes nothing.
\<close>

theorem stale_token_refused:
  assumes "ms_ok s" and "ms_begin e s = ok" and "q_find (ms_queue s) i = Some en"
    and "rState (eRec en) \<noteq> Leased \<or> eToken en \<noteq> tok \<or> tok = ''''"
  shows "ms_Ack e i tok s = (Some (EVar ErrLeaseLost), s) \<and> ms_Nack e i tok opts s = (Some (EVar ErrLeaseLost), s)
    \<and> ms_Release e i tok s = (Some (EVar ErrLeaseLost), s) \<and> ms_Park e i tok why s = (Some (EVar ErrLeaseLost), s)
    \<and> ms_Checkpoint e i tok cp s = (Some (EVar ErrLeaseLost), s)"
proof -
  have m: "wf (msMachine s)" using assms(1) by (simp add: ms_ok_def)
  then have "q_held (ms_queue s) i tok = Inl (EVar ErrLeaseLost)" using assms(3,4) by (auto simp: q_held_def)
  then have "held (msMachine s) i tok = Inl (EVar ErrLeaseLost)" by (auto simp: held_refines [OF m] split: sum.splits)
  with assms(2) show ?thesis by (simp add: ms_Ack_def ms_Nack_def ms_Release_def ms_Park_def ms_Checkpoint_def)
qed

theorem stale_token_refused_witness:
  "ms_Ack (ex_env 3 []) ''a'' ''old'' ex_store = (Some (EVar ErrLeaseLost), ex_store)"
proof -
  have "q_find (ms_queue ex_store) ''a'' = Some \<lparr>eRec = filled (ex_rec ''a'' ''k1'' ''db'') 1 1, eToken = '''', eUntil = zero_time\<rparr>"
    unfolding q_find_def ex_store_facts(3) by simp (simp add: ex_rec_def)
  from stale_token_refused [OF ex_store_ok ex_store_env(2) this, of "''old''" "[]"] show ?thesis by simp
qed

lemma step_keeps:
  assumes s: "ms_ok s" "ms_env e s" and st: "ms_step e op s = (res, s')"
    and op: "op \<noteq> OpDiscard i" "\<forall>tok. op \<noteq> OpAck i tok" and r: "ms_content s i = Some r"
  shows "\<exists>r'. ms_content s' i = Some r' \<and> same_payload r r'"
proof -
  have K: "?thesis" if "keeps (ms_content s) (ms_content s')" using that r by (auto simp: keeps_def)
  show ?thesis
  proof (cases op)
    case (OpAppend x)
    then obtain a where "ms_Append e x s = (a, s')" using st by (cases "ms_Append e x s") (auto simp: ms_step_def)
    from mem.append_keeps [OF s(1) this] r show ?thesis by auto
  next
    case (OpLease req)
    then obtain a where "ms_Lease e req s = (a, s')" using st by (cases "ms_Lease e req s") (auto simp: ms_step_def)
    from mem.lease_law [OF s this] K show ?thesis by blast
  next
    case (OpCheckpoint j tok cp)
    then obtain a where "ms_Checkpoint e j tok cp s = (a, s')" using st by (cases "ms_Checkpoint e j tok cp s") (auto simp: ms_step_def)
    from mem.checkpoint_law [OF s(1) this] K show ?thesis by blast
  next
    case (OpAck j tok)
    then obtain a where "ms_Ack e j tok s = (a, s')" using st by (cases "ms_Ack e j tok s") (auto simp: ms_step_def)
    from mem.ack_law [OF s(1) this] r op OpAck show ?thesis by auto
  next
    case (OpNack j tok opts)
    then obtain a where "ms_Nack e j tok opts s = (a, s')" using st by (cases "ms_Nack e j tok opts s") (auto simp: ms_step_def)
    from mem.nack_law [OF s(1) this] K show ?thesis by blast
  next
    case (OpRelease j tok)
    then obtain a where "ms_Release e j tok s = (a, s')" using st by (cases "ms_Release e j tok s") (auto simp: ms_step_def)
    from mem.release_law [OF s(1) this] K show ?thesis by blast
  next
    case (OpPark j tok why)
    then obtain a where "ms_Park e j tok why s = (a, s')" using st by (cases "ms_Park e j tok why s") (auto simp: ms_step_def)
    from mem.park_law [OF s(1) this] K show ?thesis by blast
  next
    case (OpRequeueWith j opts)
    let ?f = "e_requeue (qReplaceCheckpoint opts) (qCheckpoint opts)"
    have "ms_queue s' = ms_queue s \<or> ms_queue s' = q_upd j ?f (ms_queue s)"
      using ms_stepD(2) [OF s st] OpRequeueWith
      by (cases "q_parked (ms_queue s) j")
        (auto simp: q_call_def q_step_def q_settle_def q_checked_def split: option.splits if_splits)
    then show ?thesis
      using K q_upd_keeps [of ?f "ms_queue s" j] r by (auto simp: ms_content_queue)
  next
    case (OpDiscard j)
    then have "ms_queue s' = ms_queue s \<or> ms_queue s' = q_remove j (ms_queue s)"
      using ms_stepD(2) [OF s st]
      by (cases "q_parked (ms_queue s) j") (auto simp: q_call_def q_step_def q_settle_def q_checked_def split: option.splits if_splits)
    then show ?thesis using r op OpDiscard by (auto simp: ms_content_queue q_content_def q_find_remove)
  qed
qed

text \<open>The calls that may take a record out of the store.\<close>

definition drops :: "string \<Rightarrow> store_op \<Rightarrow> bool" where
  "drops i op = (case op of OpAck j _ \<Rightarrow> j = i | OpDiscard j \<Rightarrow> j = i | _ \<Rightarrow> False)"

lemma run_keeps:
  assumes "ms_ok s" and "run_env cs s" and "\<not> list_ex (\<lambda>(e, op). drops i op) cs" and "ms_content s i = Some r"
  shows "\<exists>r'. ms_content (snd (ms_run cs s)) i = Some r' \<and> same_payload r r'"
  using assms
proof (induction cs s arbitrary: r rule: ms_run.induct)
  case (2 e op cs s)
  obtain res s1 where st: "ms_step e op s = (res, s1)" by fastforce
  from 2(3,4) have env: "ms_env e s" and op: "op \<noteq> OpDiscard i" "\<forall>tok. op \<noteq> OpAck i tok" by (auto simp: drops_def)
  from step_keeps [OF 2(2) env st op 2(5)] obtain r1 where r1: "ms_content s1 i = Some r1" "same_payload r r1" by blast
  from 2(1) [OF st [symmetric] refl ms_stepD(1) [OF 2(2) env st] _ _ r1(1)] 2(3,4) st
  obtain r2 where "ms_content (snd (ms_run cs s1)) i = Some r2" "same_payload r1 r2" by auto
  with r1(2) st show ?case by (auto simp: Let_def case_prod_beta intro: same_payload_trans)
qed auto

text \<open>
  C29: nothing is lost: once an append has returned without an error, the record stays in the store with
  its payload unchanged through any further calls, until an acknowledgement or a discard names it.
\<close>

theorem appended_until_settled:
  assumes "ms_ok s" and "ms_Append e r s = (ok, s')"
    and "run_env cs s'" and "\<not> list_ex (\<lambda>(e, op). drops (rID r) op) cs"
  shows "\<exists>r0 r'. ms_content s' (rID r) = Some r0 \<and> ms_content (snd (ms_run cs s')) (rID r) = Some r' \<and> same_payload r0 r'
    \<and> (ms_content s (rID r) = None \<longrightarrow> stored_as r r0)"
proof -
  obtain r0 where r0: "ms_content s' (rID r) = Some r0" using mem.append_ok_stored [OF assms(1,2)] by blast
  from run_keeps [OF _ assms(3,4) r0] mem.append_inv [OF assms(1,2)] obtain r' where
    "ms_content (snd (ms_run cs s')) (rID r) = Some r'" "same_payload r0 r'" by blast
  moreover have "ms_content s (rID r) = None \<longrightarrow> stored_as r r0" using mem.append_new [OF assms(1,2)] r0 by auto
  ultimately show ?thesis using r0 by (intro exI [of _ r0] exI [of _ r'] conjI)
qed

lemma ex_full: "run_env [ex_lease] ex_store"
  using ex_store_env(1) by (simp add: ex_lease_def)

theorem appended_until_settled_witness:
  "\<exists>r'. ms_content (snd (ms_run [ex_lease] ex_store)) ''b'' = Some r' \<and> rValue r' = Some ''v''"
proof -
  let ?e = "ex_env 3 [''api'', ''db'']" and ?r = "ex_rec ''b'' ''k2'' ''api''"
  have b: "ms_content ex_store ''b'' = Some (filled ?r 2 2)"
    by (simp add: ms_content_def q_find_def ex_store_facts(3) del: abs_sel) (simp add: ex_rec_def)
  have l: "lookup (msMachine ex_store) ''b'' \<noteq> None"
    using b ms_content_lookup [OF ex_store_ok, of "''b''"] by auto
  have id: "rID ?r = ''b''" by (simp add: ex_rec_def)
  have "prepare (msMachine ex_store) ?r 3 = PrepDup"
    using l id by (simp add: prepare_def Validate_def maxIDLen_def ex_store_def ex_defs ms_eval)
  then have "ms_Append ?e ?r ex_store = (ok, ex_store)"
    using ex_store_env(2) by (simp add: ms_Append_def) (simp add: ex_env_def)
  from appended_until_settled [OF ex_store_ok this ex_full] id b
  show ?thesis by (auto simp: ex_lease_def drops_def same_payload_def filled_def ex_rec_def)
qed

lemma q_grant_length: "length (qEntries (snd (q_grant ids ds now ttl q))) = length (qEntries q) \<and> qLim (snd (q_grant ids ds now ttl q)) = qLim q"
  by (induction ids ds now ttl q rule: q_grant.induct) (auto simp: Let_def case_prod_beta q_upd_def)

definition capped :: "queue \<Rightarrow> bool" where
  "capped q \<longleftrightarrow> 0 < maxRecords (qLim q) \<longrightarrow> int (length (qEntries q)) \<le> maxRecords (qLim q)"

lemma capped_le: "capped q \<Longrightarrow> length (qEntries q') \<le> length (qEntries q) \<Longrightarrow> qLim q' = qLim q \<Longrightarrow> capped q'"
  by (auto simp: capped_def)

lemma capped_settle:
  assumes "capped q" and "length (qEntries (g q)) \<le> length (qEntries q)" and "qLim (g q) = qLim q"
  shows "capped (snd (q_settle h (q_checked c g) q)) \<and> qLim (snd (q_settle h (q_checked c g) q)) = qLim q"
  using assms by (cases h; cases c) (auto simp: q_settle_def q_checked_def intro: capped_le)

lemma q_prepare_room: "q_prepare q r now = PrepNew r' \<Longrightarrow> 0 < maxRecords (qLim q) \<Longrightarrow> int (length (qEntries q)) < maxRecords (qLim q)"
  unfolding q_prepare_def by (auto split: if_split_asm)

lemma capped_step:
  assumes "capped q"
  shows "capped (snd (q_step e op q)) \<and> qLim (snd (q_step e op q)) = qLim q"
proof (cases op)
  case (OpAppend r)
  show ?thesis
  proof (cases "q_prepare q r (clockNow e)")
    case (PrepNew r')
    with OpAppend q_prepare_room [OF PrepNew] show ?thesis by (auto simp: q_step_def capped_def q_add_def)
  qed (use OpAppend assms in \<open>simp_all add: q_step_def\<close>)
next
  case (OpLease req)
  with assms show ?thesis
    by (auto simp: q_step_def q_grant_length intro: capped_le split: option.splits)
qed (use assms in \<open>simp_all add: q_step_def capped_settle q_upd_def q_remove_def\<close>)

lemma capped_run:
  assumes "capped q"
  shows "capped (snd (q_run cl cs q)) \<and> qLim (snd (q_run cl cs q)) = qLim q"
  using assms
proof (induction cl cs q rule: q_run.induct)
  case (2 cl e op cs q)
  obtain r q1 where c: "q_call cl e op q = (r, q1)" by fastforce
  then have "capped q1 \<and> qLim q1 = qLim q"
    using capped_step [OF 2(2), of e op] 2(2) by (auto simp: q_call_def split: option.splits if_splits)
  with 2(1) [OF c [symmetric] refl] c show ?case by (simp add: Let_def case_prod_beta)
qed simp

text \<open>
  A store configured for at most \<open>MaxRecords\<close> records never holds more, whatever calls are made.
\<close>

theorem records_bounded:
  assumes "run_env cs (NewMemoryStore opts)" and "0 < moMaxRecords opts"
  shows "int (length (qEntries (ms_queue (snd (ms_run cs (NewMemoryStore opts)))))) \<le> moMaxRecords opts"
proof -
  let ?q = "ms_queue (NewMemoryStore opts)"
  have "capped ?q" "maxRecords (qLim ?q) = moMaxRecords opts"
    by (simp_all add: capped_def NewMemoryStore_def newMachine_def Let_def)
  moreover have "msClosed (NewMemoryStore opts) = False" by (simp add: NewMemoryStore_def Let_def)
  ultimately show ?thesis
    using capped_run [of ?q False cs] run_refines_aux [OF ms_ok_new assms(1)] assms(2)
    by (auto simp: capped_def simp del: abs_sel)
qed

theorem records_bounded_witness:
  "int (length (qEntries (ms_queue (snd (ms_run ex_run (NewMemoryStore ex_opts)))))) \<le> 2"
  using records_bounded [OF ex_run_env] by (simp add: ex_opts_def)

lemma filter_map_length: "length (filter P (map f xs)) = length (filter (\<lambda>x. P (f x)) xs)"
  by (simp add: filter_map o_def)

text \<open>
  The statistics are exact at every moment: the counters kept up to date by each transition equal a
  recount of the queue, the byte total equals the sum of the record sizes, and the oldest-pending age
  found by looking at the head of each group is that of the first pending record of the queue.
\<close>

theorem stats_exact:
  assumes "ms_ok s" and "ms_env e s" and "ms_begin e s = ok"
  shows "\<exists>st. ms_Stats e s = Inr st
    \<and> stPending st = int (length (filter (\<lambda>en. rState (eRec en) = Pending) (qEntries (ms_queue s))))
    \<and> stLeased st = int (length (filter (\<lambda>en. rState (eRec en) = Leased) (qEntries (ms_queue s))))
    \<and> stParked st = int (length (filter (\<lambda>en. rState (eRec en) = Parked) (qEntries (ms_queue s))))
    \<and> stBytes st = q_bytes (ms_queue s)
    \<and> stOldestPending st = (case find (\<lambda>en. rState (eRec en) = Pending) (qEntries (ms_queue s)) of
         None \<Rightarrow> 0 | Some en \<Rightarrow> time_sub (clockNow e) (rFirstFailed (eRec en)))
    \<and> stOldestParked st = (case find (\<lambda>en. rState (eRec en) = Parked) (qEntries (ms_queue s)) of
         None \<Rightarrow> 0 | Some en \<Rightarrow> time_sub (clockNow e) (rFirstFailed (eRec en)))"
proof -
  let ?m = "msMachine s"
  from assms(1) have m: "wf ?m" "in_memory ?m" by (auto simp: ms_ok_def)
  from assms(2) have ks: "set (mapOrder e) = dom (groups ?m)" by (simp add: ms_env_def)
  have fm: "find (\<lambda>en. rState (eRec en) = st) (map (entry_at ?m) (order ?m))
      = map_option (entry_at ?m) (find (\<lambda>p. state_at ?m p = st) (order ?m))" for st
  proof -
    have "find (\<lambda>en. rState (eRec en) = st) (map (entry_at ?m) xs) = map_option (entry_at ?m) (find (\<lambda>p. state_at ?m p = st) xs)" for xs
      by (induction xs) auto
    then show ?thesis .
  qed
  have "(case parked ?m of [] \<Rightarrow> 0 | p # _ \<Rightarrow> time_sub (clockNow e) (rFirstFailed (rec_at ?m p)))
      = (case find (\<lambda>p. state_at ?m p = Parked) (order ?m) of None \<Rightarrow> 0 | Some p \<Rightarrow> time_sub (clockNow e) (rFirstFailed (rec_at ?m p)))"
    unfolding parked_items [OF m(1)] find_filter by (simp split: list.splits)
  then show ?thesis
    using assms(3) abs_bytes [OF m] oldest_pending [OF m(1) ks]
    by (simp add: ms_Stats_def machine_stats_def counts_length [OF m(1)] filter_map_length fm o_def)
      (simp split: option.splits)
qed

theorem stats_exact_witness:
  "\<exists>st. ms_Stats (ex_env 3 [''api'', ''db'']) ex_store = Inr st \<and> stPending st = 2 \<and> stOldestPending st = 2"
  using stats_exact [OF ex_store_ok ex_store_env(1) ex_store_env(2)] unfolding ex_store_facts(3)
  by (auto simp: filled_def ex_rec_def zero_record_def ex_env_def zero_time_def time_sub_def max_duration_def min_duration_def)

end
