(* ===== verification/GG_Engine.thy ===== *)
theory GG_Engine
  imports GG_Errors
begin

text \<open>
  The measuring core of the circuit breaker (\<open>internal/engine/engine.go\<close>): the circuit's state word and
  the rolling window of outcome counters.  The window is a ring of buckets with running totals; it is
  shown to count exactly the events of the most recent buckets.  Counters are unbounded integers: a
  64-bit counter that is incremented once per call does not wrap within any feasible run time.  A method
  reads the wall clock once and takes the reading as its argument \<open>now\<close>.
\<close>

section \<open>State word\<close>

definition BreakerState_String :: "BreakerState \<Rightarrow> string" where
  "BreakerState_String s = (case s of StateClosed \<Rightarrow> ''Closed'' | StateOpen \<Rightarrow> ''Open'' | StateHalfOpen \<Rightarrow> ''HalfOpen'')"

text \<open>\<open>CompareAndSwap\<close> on the state word: the new word and whether it changed.\<close>

definition Transition :: "BreakerState \<Rightarrow> BreakerState \<Rightarrow> BreakerState \<Rightarrow> bool \<times> BreakerState" where
  "Transition cur from to = (if cur = from then (True, to) else (False, cur))"

section \<open>Rolling window\<close>

record bucket =
  bSuccess :: int
  bFailure :: int
  bLatency :: int
  bRetry :: int

definition zero_bucket :: bucket where
  "zero_bucket = \<lparr>bSuccess = 0, bFailure = 0, bLatency = 0, bRetry = 0\<rparr>"

record RollingWindow =
  buckets :: "bucket list"
  lastUpdate :: int
  totalSuccess :: int
  totalFailure :: int
  totalLatency :: int
  totalRetries :: int
  bucketDuration :: duration
  windowDuration :: duration
  head :: nat

definition NewRollingWindow :: "int \<Rightarrow> duration \<Rightarrow> duration \<Rightarrow> RollingWindow" where
  "NewRollingWindow now window bd =
     (let n = window div bd; numBuckets = (if n = 0 then 1 else n)
      in \<lparr>buckets = replicate (nat numBuckets) zero_bucket, lastUpdate = now, totalSuccess = 0, totalFailure = 0,
          totalLatency = 0, totalRetries = 0, bucketDuration = bd, windowDuration = window, head = 0\<rparr>)"

definition clear_next :: "RollingWindow \<Rightarrow> RollingWindow" where
  "clear_next w =
     (let h = (head w + 1) mod length (buckets w); b = buckets w ! h
      in w\<lparr>head := h,
           totalSuccess := totalSuccess w - bSuccess b,
           totalFailure := totalFailure w - bFailure b,
           totalLatency := totalLatency w - bLatency b,
           totalRetries := totalRetries w - bRetry b,
           buckets := (buckets w)[h := zero_bucket]\<rparr>)"

fun clear_loop :: "nat \<Rightarrow> RollingWindow \<Rightarrow> RollingWindow" where
  "clear_loop 0 w = w"
| "clear_loop (Suc n) w = clear_loop n (clear_next w)"

definition rotate_win :: "int \<Rightarrow> RollingWindow \<Rightarrow> RollingWindow" where
  "rotate_win now w =
     (if now - lastUpdate w < bucketDuration w then w
      else (let diff = (now - lastUpdate w) div bucketDuration w;
                clearCount = (if int (length (buckets w)) < diff then int (length (buckets w)) else diff);
                w' = clear_loop (nat clearCount) w
            in w'\<lparr>lastUpdate := lastUpdate w + diff * bucketDuration w\<rparr>))"

definition Reset_win :: "int \<Rightarrow> RollingWindow \<Rightarrow> RollingWindow" where
  "Reset_win now w = w\<lparr>buckets := map (\<lambda>_. zero_bucket) (buckets w), totalSuccess := 0, totalFailure := 0,
     totalLatency := 0, totalRetries := 0, head := 0, lastUpdate := now\<rparr>"

definition upd_head :: "(bucket \<Rightarrow> bucket) \<Rightarrow> RollingWindow \<Rightarrow> RollingWindow" where
  "upd_head f w = w\<lparr>buckets := (buckets w)[head w := f (buckets w ! head w)]\<rparr>"

definition Success :: "int \<Rightarrow> int \<Rightarrow> RollingWindow \<Rightarrow> RollingWindow" where
  "Success now latencyUs w0 =
     (let w = rotate_win now w0;
          w1 = (upd_head (\<lambda>b. b\<lparr>bSuccess := bSuccess b + 1\<rparr>) w)\<lparr>totalSuccess := totalSuccess w + 1\<rparr>
      in if 0 < latencyUs
         then (upd_head (\<lambda>b. b\<lparr>bLatency := bLatency b + latencyUs\<rparr>) w1)\<lparr>totalLatency := totalLatency w1 + latencyUs\<rparr>
         else w1)"

definition Failure :: "int \<Rightarrow> RollingWindow \<Rightarrow> RollingWindow" where
  "Failure now w0 =
     (let w = rotate_win now w0
      in (upd_head (\<lambda>b. b\<lparr>bFailure := bFailure b + 1\<rparr>) w)\<lparr>totalFailure := totalFailure w + 1\<rparr>)"

definition win_RecordRetry :: "int \<Rightarrow> RollingWindow \<Rightarrow> RollingWindow" where
  "win_RecordRetry now w0 =
     (let w = rotate_win now w0
      in (upd_head (\<lambda>b. b\<lparr>bRetry := bRetry b + 1\<rparr>) w)\<lparr>totalRetries := totalRetries w + 1\<rparr>)"

definition win_FailureRateBps :: "int \<Rightarrow> RollingWindow \<Rightarrow> int \<times> RollingWindow" where
  "win_FailureRateBps now w0 =
     (let w = rotate_win now w0; total = totalSuccess w + totalFailure w
      in (if total \<le> 0 then 0 else (totalFailure w * 10000) div total, w))"

definition RetryRateBps :: "RollingWindow \<Rightarrow> int" where
  "RetryRateBps w =
     (let total = totalSuccess w + totalFailure w + totalRetries w
      in if total \<le> 0 then 0 else (totalRetries w * 10000) div total)"

definition AvgLatencyUs :: "RollingWindow \<Rightarrow> int" where
  "AvgLatencyUs w = (if totalSuccess w \<le> 0 then 0 else totalLatency w div totalSuccess w)"

definition Counts :: "int \<Rightarrow> RollingWindow \<Rightarrow> (int \<times> int) \<times> RollingWindow" where
  "Counts now w0 =
     (let w = (if bucketDuration w0 < now - lastUpdate w0 then rotate_win now w0 else w0)
      in ((totalSuccess w, totalFailure w), w))"

section \<open>The totals are the sums of the buckets\<close>

definition win_ok :: "RollingWindow \<Rightarrow> bool" where
  "win_ok w \<longleftrightarrow> buckets w \<noteq> [] \<and> head w < length (buckets w) \<and> 0 < bucketDuration w
   \<and> totalSuccess w = sum_list (map bSuccess (buckets w)) \<and> totalFailure w = sum_list (map bFailure (buckets w))
   \<and> totalLatency w = sum_list (map bLatency (buckets w)) \<and> totalRetries w = sum_list (map bRetry (buckets w))
   \<and> list_all (\<lambda>b. 0 \<le> bSuccess b \<and> 0 \<le> bFailure b \<and> 0 \<le> bLatency b \<and> 0 \<le> bRetry b) (buckets w)"

lemma sum_map_update:
  fixes f :: "'a \<Rightarrow> int"
  shows "i < length xs \<Longrightarrow> sum_list (map f (xs[i := x])) = sum_list (map f xs) + f x - f (xs ! i)"
  by (induction xs arbitrary: i) (auto simp: nth_Cons split: nat.splits)

lemma zero_bucket_sel [simp]:
  "bSuccess zero_bucket = 0" "bFailure zero_bucket = 0" "bLatency zero_bucket = 0" "bRetry zero_bucket = 0"
  by (simp_all add: zero_bucket_def)

lemma list_all_update: "list_all P xs \<Longrightarrow> P x \<Longrightarrow> list_all P (xs[i := x])"
  by (induction xs arbitrary: i) (auto split: nat.splits)

lemma clear_next_ok: "win_ok w \<Longrightarrow> win_ok (clear_next w) \<and> length (buckets (clear_next w)) = length (buckets w)
   \<and> bucketDuration (clear_next w) = bucketDuration w \<and> lastUpdate (clear_next w) = lastUpdate w"
  by (auto simp: win_ok_def clear_next_def Let_def sum_map_update intro!: list_all_update)

lemma clear_loop_ok: "win_ok w \<Longrightarrow> win_ok (clear_loop n w) \<and> length (buckets (clear_loop n w)) = length (buckets w)
   \<and> bucketDuration (clear_loop n w) = bucketDuration w \<and> lastUpdate (clear_loop n w) = lastUpdate w"
  by (induction n arbitrary: w) (auto simp: clear_next_ok)

lemma win_ok_lastUpdate [simp]: "win_ok (w\<lparr>lastUpdate := t\<rparr>) = win_ok w"
  by (simp add: win_ok_def)

lemma rotate_ok: "win_ok w \<Longrightarrow> win_ok (rotate_win now w) \<and> length (buckets (rotate_win now w)) = length (buckets w)
   \<and> bucketDuration (rotate_win now w) = bucketDuration w"
  by (simp add: rotate_win_def Let_def clear_loop_ok)

lemma upd_head_ok:
  assumes "win_ok w" and "0 \<le> bSuccess (f (buckets w ! head w))" "0 \<le> bFailure (f (buckets w ! head w))"
    "0 \<le> bLatency (f (buckets w ! head w))" "0 \<le> bRetry (f (buckets w ! head w))"
  shows "win_ok ((upd_head f w)\<lparr>totalSuccess := totalSuccess w + bSuccess (f (buckets w ! head w)) - bSuccess (buckets w ! head w),
     totalFailure := totalFailure w + bFailure (f (buckets w ! head w)) - bFailure (buckets w ! head w),
     totalLatency := totalLatency w + bLatency (f (buckets w ! head w)) - bLatency (buckets w ! head w),
     totalRetries := totalRetries w + bRetry (f (buckets w ! head w)) - bRetry (buckets w ! head w)\<rparr>)"
  using assms by (auto simp: win_ok_def upd_head_def sum_map_update intro!: list_all_update)

lemma Failure_ok: "win_ok w \<Longrightarrow> win_ok (Failure now w)"
proof -
  assume "win_ok w"
  then have r: "win_ok (rotate_win now w)" by (simp add: rotate_ok)
  let ?w = "rotate_win now w"
  from r have b: "0 \<le> bSuccess (buckets ?w ! head ?w)" "0 \<le> bFailure (buckets ?w ! head ?w)"
    "0 \<le> bLatency (buckets ?w ! head ?w)" "0 \<le> bRetry (buckets ?w ! head ?w)"
    by (auto simp: win_ok_def list_all_length)
  show ?thesis
    using upd_head_ok [OF r, of "\<lambda>b. b\<lparr>bFailure := bFailure b + 1\<rparr>"] b
    by (simp add: Failure_def Let_def upd_head_def)
qed

lemma RecordRetry_ok: "win_ok w \<Longrightarrow> win_ok (win_RecordRetry now w)"
proof -
  assume "win_ok w"
  then have r: "win_ok (rotate_win now w)" by (simp add: rotate_ok)
  let ?w = "rotate_win now w"
  from r have b: "0 \<le> bSuccess (buckets ?w ! head ?w)" "0 \<le> bFailure (buckets ?w ! head ?w)"
    "0 \<le> bLatency (buckets ?w ! head ?w)" "0 \<le> bRetry (buckets ?w ! head ?w)"
    by (auto simp: win_ok_def list_all_length)
  show ?thesis
    using upd_head_ok [OF r, of "\<lambda>b. b\<lparr>bRetry := bRetry b + 1\<rparr>"] b
    by (simp add: win_RecordRetry_def Let_def upd_head_def)
qed

lemma Success_ok: "win_ok w \<Longrightarrow> win_ok (Success now l w)"
proof -
  assume "win_ok w"
  then have r: "win_ok (rotate_win now w)" by (simp add: rotate_ok)
  let ?w = "rotate_win now w"
  from r have b: "0 \<le> bSuccess (buckets ?w ! head ?w)" "0 \<le> bFailure (buckets ?w ! head ?w)"
    "0 \<le> bLatency (buckets ?w ! head ?w)" "0 \<le> bRetry (buckets ?w ! head ?w)" "head ?w < length (buckets ?w)"
    by (auto simp: win_ok_def list_all_length)
  show ?thesis
    using upd_head_ok [OF r, of "\<lambda>b. b\<lparr>bSuccess := bSuccess b + 1\<rparr>"]
      upd_head_ok [OF r, of "\<lambda>b. b\<lparr>bSuccess := bSuccess b + 1, bLatency := bLatency b + l\<rparr>"] b
    by (simp add: Success_def Let_def upd_head_def win_ok_def)
qed

lemma Reset_ok: "win_ok w \<Longrightarrow> win_ok (Reset_win now w)"
proof -
  have z: "sum_list (map (\<lambda>_. 0::int) xs) = 0" for xs :: "bucket list" by (induction xs) auto
  show "win_ok w \<Longrightarrow> win_ok (Reset_win now w)"
    using z by (auto simp: win_ok_def Reset_win_def o_def list_all_iff)
qed

lemma New_ok: "0 < bd \<Longrightarrow> 0 \<le> window \<Longrightarrow> win_ok (NewRollingWindow now window bd)"
proof -
  assume b: "0 < bd" "0 \<le> window"
  have "0 < nat (if window div bd = 0 then 1 else window div bd)"
    using b pos_imp_zdiv_nonneg_iff [of bd window] by (auto simp: le_less)
  with b show ?thesis by (simp add: win_ok_def NewRollingWindow_def Let_def list_all_iff sum_list_replicate)
qed

section \<open>The window counts the recent events\<close>

text \<open>
  A history gives, for every bucket-long epoch, how many events of a kind were recorded in it.  A window
  that is in epoch \<open>e\<close> sees the history through a field \<open>f\<close> of its buckets when the bucket \<open>k\<close>
  places behind the head holds the count of epoch \<open>e - k\<close>, and nothing is recorded for later epochs.
\<close>

definition sees :: "(bucket \<Rightarrow> int) \<Rightarrow> RollingWindow \<Rightarrow> (int \<Rightarrow> int) \<Rightarrow> int \<Rightarrow> bool" where
  "sees f w h e \<longleftrightarrow>
     (\<forall>k < length (buckets w). f (buckets w ! ((head w + length (buckets w) - k) mod length (buckets w))) = h (e - int k))
   \<and> (\<forall>x > e. h x = 0)"

lemma mod_back:
  fixes a0 b0 n k :: nat
  assumes "b0 = (a0 + 1) mod n" and "0 < k" and "k < n" and "a0 < n"
  shows "(b0 + n - k) mod n = (a0 + n - (k - 1)) mod n" and "(b0 + n - k) mod n \<noteq> b0"
proof -
  have "(a0 + 1) mod n = (if a0 + 1 = n then 0 else a0 + 1)" using assms(4) by auto
  then show "(b0 + n - k) mod n = (a0 + n - (k - 1)) mod n" "(b0 + n - k) mod n \<noteq> b0"
    using assms by (auto simp: mod_if)
qed

lemma clear_next_sees:
  assumes w: "win_ok w" and s: "sees f w h e" and z: "f zero_bucket = 0"
  shows "sees f (clear_next w) h (e + 1)"
  unfolding sees_def
proof (intro conjI allI impI)
  let ?n = "length (buckets w)" and ?h = "(head w + 1) mod length (buckets w)"
  have n: "0 < ?n" "head w < ?n" "?h < ?n" using w by (auto simp: win_ok_def)
  fix k assume "k < length (buckets (clear_next w))"
  then have k: "k < ?n" by (simp add: clear_next_def Let_def)
  show "f (buckets (clear_next w) ! ((head (clear_next w) + length (buckets (clear_next w)) - k)
      mod length (buckets (clear_next w)))) = h (e + 1 - int k)"
  proof (cases "k = 0")
    case True
    then show ?thesis using n s z by (simp add: clear_next_def Let_def sees_def)
  next
    case False
    note mb = mod_back [OF refl, of k ?n "head w"]
    have "f (buckets w ! ((head w + ?n - (k - 1)) mod ?n)) = h (e - int (k - 1))"
      using s k by (simp add: sees_def)
    with mb False k n show ?thesis by (simp add: clear_next_def Let_def of_nat_diff algebra_simps)
  qed
qed (use s in \<open>auto simp: sees_def\<close>)

lemma clear_loop_sees:
  assumes "win_ok w" and "sees f w h e" and "f zero_bucket = 0"
  shows "sees f (clear_loop n w) h (e + int n)"
  using assms
proof (induction n arbitrary: w e)
  case (Suc n)
  from Suc.IH [OF _ clear_next_sees [OF Suc.prems]] clear_next_ok [OF Suc.prems(1)] Suc.prems(3)
  show ?case by (simp add: algebra_simps)
qed simp

lemma sees_lastUpdate [simp]: "sees f (w\<lparr>lastUpdate := t\<rparr>) h e = sees f w h e"
  by (simp add: sees_def)

lemma sees_jump:
  assumes "sees f w h (e + int (length (buckets w)))" and "\<forall>x > e. h x = 0" and "d \<ge> int (length (buckets w))"
  shows "sees f w h (e + d)"
  using assms by (auto simp: sees_def)

text \<open>The epoch of an instant, counted in buckets from the window's first \<open>lastUpdate\<close>.\<close>

definition epoch :: "RollingWindow \<Rightarrow> int \<Rightarrow> int \<Rightarrow> int" where
  "epoch w org t = (t - org) div bucketDuration w"

definition aligned :: "RollingWindow \<Rightarrow> int \<Rightarrow> bool" where
  "aligned w org \<longleftrightarrow> bucketDuration w dvd (lastUpdate w - org)"

lemma rotate_epoch:
  assumes w: "win_ok w" and a: "aligned w org" and t: "lastUpdate w \<le> now"
  shows "aligned (rotate_win now w) org" and "epoch w org (lastUpdate (rotate_win now w)) = epoch w org now"
    and "lastUpdate (rotate_win now w) \<le> now"
proof -
  let ?b = "bucketDuration w" and ?d = "(now - lastUpdate w) div bucketDuration w"
  have b: "0 < ?b" using w by (simp add: win_ok_def)
  obtain q where q: "lastUpdate w - org = ?b * q" using a by (auto simp: aligned_def)
  have lu: "lastUpdate (rotate_win now w) = lastUpdate w + ?d * ?b"
    using b t by (auto simp: rotate_win_def Let_def div_pos_pos_trivial)
  show "aligned (rotate_win now w) org"
  proof -
    have "lastUpdate (rotate_win now w) - org = ?b * (q + ?d)" using q lu by (simp add: algebra_simps)
    then show ?thesis using rotate_ok [OF w, of now] by (simp add: aligned_def)
  qed
  have now: "now - org = (now - lastUpdate w) + q * ?b" using q by (simp add: algebra_simps)
  have "(now - org) div ?b = ?d + q" unfolding now using b by simp
  moreover have "lastUpdate (rotate_win now w) - org = (?d + q) * ?b" using q lu by (simp add: algebra_simps)
  ultimately show "epoch w org (lastUpdate (rotate_win now w)) = epoch w org now" using b by (simp add: epoch_def)
  have "?d * ?b = (now - lastUpdate w) - (now - lastUpdate w) mod ?b" by (simp add: minus_mod_eq_div_mult [symmetric])
  moreover have "0 \<le> (now - lastUpdate w) mod ?b" using b by simp
  ultimately show "lastUpdate (rotate_win now w) \<le> now" unfolding lu by simp
qed

lemma rotate_sees:
  assumes w: "win_ok w" and a: "aligned w org" and t: "lastUpdate w \<le> now" and z: "f zero_bucket = 0"
    and s: "sees f w h (epoch w org (lastUpdate w))"
  shows "sees f (rotate_win now w) h (epoch w org now)"
proof -
  let ?b = "bucketDuration w" and ?d = "(now - lastUpdate w) div bucketDuration w" and ?n = "length (buckets w)"
  have b: "0 < ?b" using w by (simp add: win_ok_def)
  obtain q where q: "lastUpdate w - org = ?b * q" using a by (auto simp: aligned_def)
  have now: "now - org = (now - lastUpdate w) + q * ?b" using q by (simp add: algebra_simps)
  have e: "epoch w org now = epoch w org (lastUpdate w) + ?d"
  proof -
    have "epoch w org now = ?d + q" unfolding epoch_def now using b by simp
    moreover have "epoch w org (lastUpdate w) = q" unfolding epoch_def q using b by simp
    ultimately show ?thesis by simp
  qed
  have d: "0 \<le> ?d" using b t by (simp add: pos_imp_zdiv_nonneg_iff)
  show ?thesis
  proof (cases "now - lastUpdate w < ?b")
    case True
    then have "?d = 0" using t by simp
    with True s e show ?thesis by (simp add: rotate_win_def)
  next
    case False
    show ?thesis
    proof (cases "int ?n < ?d")
      case True
      have "sees f (clear_loop ?n w) h (epoch w org (lastUpdate w) + int ?n)"
        by (rule clear_loop_sees [OF w s z])
      moreover have "\<forall>x > epoch w org (lastUpdate w). h x = 0" using s by (simp add: sees_def)
      ultimately have "sees f (clear_loop ?n w) h (epoch w org (lastUpdate w) + ?d)"
        using True clear_loop_ok [OF w, of ?n] sees_jump [of f "clear_loop ?n w" h "epoch w org (lastUpdate w)" ?d] by simp
      with True False e show ?thesis by (simp add: rotate_win_def Let_def)
    next
      case small: False
      from clear_loop_sees [OF w s z, of "nat ?d"] False small e d show ?thesis by (simp add: rotate_win_def Let_def)
    qed
  qed
qed

lemma ring_index: "a < n \<Longrightarrow> k < n \<Longrightarrow> (a + n - k) mod n = (if k \<le> a then a - k else a + n - k)" for a n k :: nat
  by (auto simp: mod_if)

lemma upd_head_sees:
  assumes w: "win_ok w" and s: "sees f w h e" and g: "\<And>b. f (g b) = f b + c"
  shows "sees f (upd_head g w) (h(e := h e + c)) e"
proof -
  let ?n = "length (buckets w)"
  have n: "head w < ?n" using w by (simp add: win_ok_def)
  have "head w = (head w + ?n - k) mod ?n \<longleftrightarrow> k = 0" if "k < ?n" for k
    unfolding ring_index [OF n that] using that n by (cases "k \<le> head w") auto
  with s n g show ?thesis by (auto simp: sees_def upd_head_def nth_list_update)
qed

lemma sees_total:
  assumes w: "win_ok w" and s: "sees f w h e"
  shows "sum_list (map f (buckets w)) = (\<Sum>k<length (buckets w). h (e - int k))"
proof -
  let ?n = "length (buckets w)" and ?i = "\<lambda>k. (head w + length (buckets w) - k) mod length (buckets w)"
  have n: "head w < ?n" using w by (simp add: win_ok_def)
  have inj: "inj_on ?i {..<?n}"
    using n ring_index [OF n] by (intro inj_onI) (auto split: if_splits)
  moreover have "?i ` {..<?n} = {..<?n}"
  proof (rule endo_inj_surj [OF _ _ inj])
    have "?i k < ?n" for k using n by (intro mod_less_divisor) linarith
    then show "?i ` {..<?n} \<subseteq> {..<?n}" by auto
  qed simp
  ultimately have bij: "bij_betw ?i {..<?n} {..<?n}" by (simp add: bij_betw_def)
  have "sum_list (map f (buckets w)) = (\<Sum>j<?n. f (buckets w ! j))"
    by (simp add: sum_list_sum_nth lessThan_atLeast0)
  also have "\<dots> = (\<Sum>k<?n. f (buckets w ! ?i k))" using sum.reindex_bij_betw [OF bij, of "\<lambda>j. f (buckets w ! j)"] by simp
  also have "\<dots> = (\<Sum>k<?n. h (e - int k))" using s by (intro sum.cong) (auto simp: sees_def)
  finally show ?thesis .
qed

section \<open>Recorded events\<close>

datatype win_event = EvSuccess int | EvFailure | EvRetry

definition record_event :: "RollingWindow \<Rightarrow> int \<times> win_event \<Rightarrow> RollingWindow" where
  "record_event w te = (case snd te of EvSuccess l \<Rightarrow> Success (fst te) l w | EvFailure \<Rightarrow> Failure (fst te) w
     | EvRetry \<Rightarrow> win_RecordRetry (fst te) w)"

definition is_success :: "int \<times> win_event \<Rightarrow> bool" where
  "is_success te = (case snd te of EvSuccess _ \<Rightarrow> True | _ \<Rightarrow> False)"

definition is_failure :: "int \<times> win_event \<Rightarrow> bool" where
  "is_failure te = (snd te = EvFailure)"

text \<open>How many events that satisfy \<open>P\<close> fell into epoch \<open>x\<close>.\<close>

definition hist :: "(int \<times> win_event \<Rightarrow> bool) \<Rightarrow> (int \<Rightarrow> int) \<Rightarrow> (int \<times> win_event) list \<Rightarrow> int \<Rightarrow> int" where
  "hist P E evs x = int (length (filter (\<lambda>te. P te \<and> E (fst te) = x) evs))"

lemma hist_snoc: "hist P E (evs @ [te]) = (if P te then (hist P E evs)(E (fst te) := hist P E evs (E (fst te)) + 1) else hist P E evs)"
  by (auto simp: hist_def fun_eq_iff)

lemma sum_hist:
  assumes "finite A"
  shows "(\<Sum>a\<in>A. hist P E evs a) = int (length (filter (\<lambda>te. P te \<and> E (fst te) \<in> A) evs))"
proof (induction evs)
  case (Cons te evs)
  have "hist P E (te # evs) a = (if E (fst te) = a then (if P te then 1 else 0) else 0) + hist P E evs a" for a
    by (simp add: hist_def)
  with Cons assms show ?case by (simp add: sum.distrib sum.delta')
qed (simp add: hist_def)

definition win_inv :: "int \<Rightarrow> (int \<times> win_event) list \<Rightarrow> RollingWindow \<Rightarrow> int \<Rightarrow> bool" where
  "win_inv org evs w t \<longleftrightarrow> win_ok w \<and> aligned w org \<and> lastUpdate w \<le> t
     \<and> sees bSuccess w (hist is_success (epoch w org) evs) (epoch w org (lastUpdate w))
     \<and> sees bFailure w (hist is_failure (epoch w org) evs) (epoch w org (lastUpdate w))"

lemma win_inv_rotate:
  assumes "win_inv org evs w t" and "t \<le> now"
  shows "win_inv org evs (rotate_win now w) now \<and> epoch w org (lastUpdate (rotate_win now w)) = epoch w org now"
proof -
  from assms have w: "win_ok w" "aligned w org" "lastUpdate w \<le> now" by (auto simp: win_inv_def)
  have ep: "epoch (rotate_win now w) = epoch w" using rotate_ok [OF w(1), of now] by (simp add: epoch_def fun_eq_iff)
  from rotate_epoch [OF w] rotate_ok [OF w(1)] rotate_sees [OF w, of bSuccess] rotate_sees [OF w, of bFailure] assms(1)
  show ?thesis by (simp add: win_inv_def ep)
qed

lemma upd_head_rest [simp]:
  "head (upd_head g w) = head w" "length (buckets (upd_head g w)) = length (buckets w)"
  "lastUpdate (upd_head g w) = lastUpdate w" "bucketDuration (upd_head g w) = bucketDuration w"
  by (simp_all add: upd_head_def)

lemma sees_totals [simp]:
  "sees f (w\<lparr>totalSuccess := a\<rparr>) h e = sees f w h e" "sees f (w\<lparr>totalFailure := a\<rparr>) h e = sees f w h e"
  "sees f (w\<lparr>totalLatency := a\<rparr>) h e = sees f w h e" "sees f (w\<lparr>totalRetries := a\<rparr>) h e = sees f w h e"
  by (simp_all add: sees_def)

lemma win_invI:
  assumes "win_ok v" and "bucketDuration v = bucketDuration w" and "lastUpdate v = lastUpdate u"
    and "bucketDuration u = bucketDuration w" "aligned u org" "lastUpdate u \<le> t" "epoch w org (lastUpdate u) = e"
    and "sees bSuccess v (hist is_success (epoch w org) evs) e" and "sees bFailure v (hist is_failure (epoch w org) evs) e"
  shows "win_inv org evs v t"
proof -
  have "epoch v = epoch w" using assms(2) by (simp add: epoch_def fun_eq_iff)
  with assms show ?thesis by (simp add: win_inv_def aligned_def)
qed

lemma win_inv_record:
  assumes i: "win_inv org evs w t" and t: "t \<le> fst te"
  shows "win_inv org (evs @ [te]) (record_event w te) (fst te)"
proof -
  let ?w = "rotate_win (fst te) w" and ?E = "epoch w org"
  from i have w: "win_ok w" by (simp add: win_inv_def)
  from win_inv_rotate [OF i t] have r: "win_inv org evs ?w (fst te)" "?E (lastUpdate ?w) = ?E (fst te)" by auto
  have ep: "epoch v = epoch w" if "bucketDuration v = bucketDuration w" for v using that by (simp add: epoch_def fun_eq_iff)
  have bd: "bucketDuration ?w = bucketDuration w" using rotate_ok [OF w] by simp
  from r have s: "win_ok ?w" "aligned ?w org" "lastUpdate ?w \<le> fst te"
    "sees bSuccess ?w (hist is_success ?E evs) (?E (fst te))" "sees bFailure ?w (hist is_failure ?E evs) (?E (fst te))"
    unfolding win_inv_def ep [OF bd] by simp_all
  note U = upd_head_sees [OF s(1)]
  have one: "sees bSuccess (upd_head g ?w) (hist is_success ?E evs) (?E (fst te))" if "\<And>b. bSuccess (g b) = bSuccess b" for g
    using U [OF s(4), of g 0] that by simp
  have two: "sees bFailure (upd_head g ?w) (hist is_failure ?E evs) (?E (fst te))" if "\<And>b. bFailure (g b) = bFailure b" for g
    using U [OF s(5), of g 0] that by simp
  show ?thesis
  proof (cases "snd te")
    case EvFailure
    have "sees bFailure (upd_head (\<lambda>b. b\<lparr>bFailure := bFailure b + 1\<rparr>) ?w) (hist is_failure ?E (evs @ [te])) (?E (fst te))"
      using U [OF s(5), of "\<lambda>b. b\<lparr>bFailure := bFailure b + 1\<rparr>" 1] EvFailure by (simp add: hist_snoc is_failure_def)
    moreover have "hist is_success ?E (evs @ [te]) = hist is_success ?E evs" using EvFailure by (simp add: hist_snoc is_success_def)
    moreover have "record_event w te = Failure (fst te) w" using EvFailure by (simp add: record_event_def)
    ultimately show ?thesis
      using s Failure_ok [OF w, of "fst te"] one [of "\<lambda>b. b\<lparr>bFailure := bFailure b + 1\<rparr>"] r(2) bd
      by (intro win_invI [where w = w and u = ?w and e = "?E (fst te)"]) (simp_all add: Failure_def Let_def)
  next
    case EvRetry
    have "hist P ?E (evs @ [te]) = hist P ?E evs" if "\<not> P te" for P using that by (simp add: hist_snoc)
    moreover have "\<not> is_success te" "\<not> is_failure te" using EvRetry by (simp_all add: is_success_def is_failure_def)
    moreover have "record_event w te = win_RecordRetry (fst te) w" using EvRetry by (simp add: record_event_def)
    ultimately show ?thesis
      using s RecordRetry_ok [OF w, of "fst te"] one [of "\<lambda>b. b\<lparr>bRetry := bRetry b + 1\<rparr>"]
        two [of "\<lambda>b. b\<lparr>bRetry := bRetry b + 1\<rparr>"] r(2) bd
      by (intro win_invI [where w = w and u = ?w and e = "?E (fst te)"]) (simp_all add: win_RecordRetry_def Let_def)
  next
    case (EvSuccess l)
    let ?w1 = "upd_head (\<lambda>b. b\<lparr>bSuccess := bSuccess b + 1\<rparr>) ?w"
    let ?f = "\<lambda>b. b\<lparr>bSuccess := bSuccess b + 1, bLatency := bLatency b + l\<rparr>"
    have n: "head ?w < length (buckets ?w)" using s(1) by (simp add: win_ok_def)
    have h: "hist is_success ?E (evs @ [te]) = (hist is_success ?E evs)(?E (fst te) := hist is_success ?E evs (?E (fst te)) + 1)"
      "hist is_failure ?E (evs @ [te]) = hist is_failure ?E evs"
      using EvSuccess by (simp_all add: hist_snoc is_success_def is_failure_def)
    have "sees bSuccess ?w1 (hist is_success ?E (evs @ [te])) (?E (fst te))"
      "sees bSuccess (upd_head ?f ?w) (hist is_success ?E (evs @ [te])) (?E (fst te))"
      unfolding h by (rule U [OF s(4)], simp)+
    moreover have "record_event w te = Success (fst te) l w" using EvSuccess by (simp add: record_event_def)
    moreover have "buckets (Success (fst te) l w) = buckets (if 0 < l then upd_head ?f ?w else ?w1)"
      "head (Success (fst te) l w) = head ?w" "lastUpdate (Success (fst te) l w) = lastUpdate ?w"
      "bucketDuration (Success (fst te) l w) = bucketDuration w"
      using n bd by (simp_all add: Success_def Let_def upd_head_def)
    ultimately show ?thesis
      using s Success_ok [OF w, of "fst te" l] two [of "\<lambda>b. b\<lparr>bSuccess := bSuccess b + 1\<rparr>"] two [of ?f] r(2) bd h(2)
      by (intro win_invI [where w = w and u = ?w and e = "?E (fst te)"]) (auto simp: sees_def split: if_splits)
  qed
qed

lemma new_inv:
  assumes "0 < bd" and "0 \<le> window"
  shows "win_inv t0 [] (NewRollingWindow t0 window bd) t0"
proof -
  let ?w = "NewRollingWindow t0 window bd"
  have bk: "buckets ?w = replicate (nat (if window div bd = 0 then 1 else window div bd)) zero_bucket"
    "lastUpdate ?w = t0" by (simp_all add: NewRollingWindow_def Let_def)
  have "sees f ?w (hist P E []) e" if "f zero_bucket = 0" for f P E e
    using that unfolding sees_def bk by (auto simp: hist_def)
  then show ?thesis using New_ok [OF assms] bk(2) by (simp add: win_inv_def aligned_def)
qed

lemma inv_events:
  assumes "win_inv t0 [] w t0" and "sorted (t0 # map fst evs)"
  shows "win_inv t0 evs (foldl record_event w evs) (last (t0 # map fst evs))
    \<and> length (buckets (foldl record_event w evs)) = length (buckets w)
    \<and> bucketDuration (foldl record_event w evs) = bucketDuration w"
  using assms
proof (induction evs rule: rev_induct)
  case (snoc te evs)
  have so: "sorted (t0 # map fst evs)" and le: "last (t0 # map fst evs) \<le> fst te"
    using snoc.prems(2) by (auto simp: sorted_append last_map)
  let ?v = "foldl record_event w evs"
  from snoc.IH [OF snoc.prems(1) so] have i: "win_inv t0 evs ?v (last (t0 # map fst evs))"
    "length (buckets ?v) = length (buckets w)" "bucketDuration ?v = bucketDuration w" by auto
  from i(1) have "win_ok ?v" by (simp add: win_inv_def)
  from rotate_ok [OF this] i have "length (buckets (record_event ?v te)) = length (buckets w)
      \<and> bucketDuration (record_event ?v te) = bucketDuration w"
    by (auto simp: record_event_def Success_def Failure_def win_RecordRetry_def Let_def split: win_event.splits)
  with win_inv_record [OF i(1) le] show ?case by simp
qed simp

section \<open>Properties\<close>

text \<open>
  C36: the rolling window counts exactly the outcomes of the most recent buckets: after any sequence of
  recorded events and a final read at \<open>now\<close>, the totals are the numbers of successes and failures
  whose bucket is one of the last \<open>numBuckets\<close> ones, none forgotten early and none kept too long.
\<close>

theorem window_counts_recent:
  assumes "0 < bd" and "0 \<le> window" and "sorted (t0 # map fst evs @ [now])"
  shows "let w = rotate_win now (foldl record_event (NewRollingWindow t0 window bd) evs);
             n = (if window div bd = 0 then 1 else window div bd);
             recent = (\<lambda>te. (now - t0) div bd - n < (fst te - t0) div bd)
         in totalFailure w = int (length (filter (\<lambda>te. is_failure te \<and> recent te) evs))
          \<and> totalSuccess w = int (length (filter (\<lambda>te. is_success te \<and> recent te) evs))"
proof -
  let ?new = "NewRollingWindow t0 window bd" and ?E = "\<lambda>t. (t - t0) div bd"
  let ?v = "foldl record_event ?new evs" and ?w = "rotate_win now (foldl record_event ?new evs)"
  define n where "n = (if window div bd = 0 then 1 else window div bd)"
  have npos: "0 < n" using assms(1,2) pos_imp_zdiv_nonneg_iff [of bd window] by (auto simp: n_def le_less)
  have len: "length (buckets ?new) = nat n" "bucketDuration ?new = bd" by (simp_all add: NewRollingWindow_def Let_def n_def)
  have so: "sorted (t0 # map fst evs)" "last (t0 # map fst evs) \<le> now"
    using assms(3) by (auto simp: sorted_append last_map)
  from inv_events [OF new_inv [OF assms(1,2)] so(1)] len
  have v: "win_inv t0 evs ?v (last (t0 # map fst evs))" "length (buckets ?v) = nat n" "bucketDuration ?v = bd" by auto
  then have "win_ok ?v" by (simp add: win_inv_def)
  from rotate_ok [OF this, of now] v have wl: "length (buckets ?w) = nat n" "bucketDuration ?w = bd" by auto
  from win_inv_rotate [OF v(1) so(2)] have w: "win_inv t0 evs ?w now" "epoch ?v t0 (lastUpdate ?w) = epoch ?v t0 now" by auto
  have ep: "epoch ?w t0 = ?E" "epoch ?v t0 = ?E" using wl v(3) by (simp_all add: epoch_def fun_eq_iff)
  from w have ok': "win_ok ?w" and S: "sees bSuccess ?w (hist is_success ?E evs) (?E now)" "sees bFailure ?w (hist is_failure ?E evs) (?E now)"
    by (auto simp: win_inv_def ep)
  have rec: "?E (fst te) \<in> (\<lambda>k. ?E now - int k) ` {..<nat n} \<longleftrightarrow> ?E now - n < ?E (fst te)" if "te \<in> set evs" for te
  proof -
    have "?E (fst te) \<le> ?E now" using that assms(1,3) by (intro zdiv_mono1) (auto simp: sorted_append)
    then show ?thesis using npos by (auto simp: image_iff intro!: bexI [of _ "nat (?E now - ?E (fst te))"])
  qed
  have tot: "(\<Sum>k<nat n. hist P ?E evs (?E now - int k)) = int (length (filter (\<lambda>te. P te \<and> ?E now - n < ?E (fst te)) evs))" for P
  proof -
    have "(\<Sum>k<nat n. hist P ?E evs (?E now - int k)) = (\<Sum>a\<in>(\<lambda>k. ?E now - int k) ` {..<nat n}. hist P ?E evs a)"
      by (subst sum.reindex) (auto simp: inj_on_def)
    also have "\<dots> = int (length (filter (\<lambda>te. P te \<and> ?E (fst te) \<in> (\<lambda>k. ?E now - int k) ` {..<nat n}) evs))"
      by (rule sum_hist) simp
    finally show ?thesis using rec by (auto cong: filter_cong)
  qed
  have "totalFailure ?w = sum_list (map bFailure (buckets ?w))" "totalSuccess ?w = sum_list (map bSuccess (buckets ?w))"
    using ok' by (simp_all add: win_ok_def)
  with sees_total [OF ok' S(1)] sees_total [OF ok' S(2)] wl tot show ?thesis by (simp add: n_def [symmetric] Let_def)
qed

theorem window_counts_recent_witness:
  "totalFailure (rotate_win 25 (foldl record_event (NewRollingWindow 0 20 10) [(1, EvFailure), (12, EvFailure), (13, EvSuccess 5)])) = 1"
  using window_counts_recent [of 10 20 0 "[(1, EvFailure), (12, EvFailure), (13, EvSuccess 5)]" 25]
  by (simp add: is_failure_def Let_def)

end
