(* ===== verification/GG_IBreaker.thy ===== *)
theory GG_IBreaker
  imports GG_Engine "HOL-Library.Word"
begin

unbundle bit_operations_syntax

text \<open>
  The circuit breaker proper (\<open>internal/breaker/breaker.go\<close>).  The atomics of the Go structure are the
  fields of a record and a method is one step on it, with the readings of the wall clock as arguments
  (\<open>now\<close>, and \<open>nowR\<close> for the reading taken when a closing circuit resets its window).  The
  compare-and-swap loop that reserves an in-flight slot is also modelled step by step, with threads
  interleaving freely.
\<close>

section \<open>State\<close>

record Breaker =
  bState :: BreakerState
  metrics :: RollingWindow
  lastFailure :: int
  minSamples :: int
  failureThreshold :: int
  retryBudgetBps :: int
  sleepWindow :: duration
  inflight :: int
  maxInflight :: int
  probing :: bool
  probeAt :: int
  override :: int
  dryRun :: bool
  healthGated :: bool
  maxOpen :: duration
  changes :: "(BreakerState \<times> BreakerState) list"

text \<open>
  \<open>thresholdBps\<close> and \<open>budgetBps\<close> are the products \<open>int64(failureThreshold * 10000)\<close> and
  \<open>int64(retryBudget * 10000)\<close>.  \<open>changes\<close> lists the calls of \<open>OnStateChange\<close>.
\<close>

definition NewBreaker :: "int \<Rightarrow> int \<Rightarrow> duration \<Rightarrow> duration \<Rightarrow> duration \<Rightarrow> int \<Rightarrow> int \<Rightarrow> bool \<Rightarrow> int \<Rightarrow> Breaker" where
  "NewBreaker now thresholdBps slp samplingWindow bucketDur maxInf minSmp dry budgetBps =
     \<lparr>bState = StateClosed, metrics = NewRollingWindow now samplingWindow bucketDur, lastFailure = 0,
      minSamples = minSmp, failureThreshold = thresholdBps, retryBudgetBps = budgetBps, sleepWindow = slp,
      inflight = 0, maxInflight = maxInf, probing = False, probeAt = 0, override = 0, dryRun = dry,
      healthGated = False, maxOpen = 0, changes = []\<rparr>"

text \<open>The jitter source: the seed is a 64-bit word, replaced by the clock when it is zero.\<close>

definition xorshift64 :: "int \<Rightarrow> 64 word \<Rightarrow> 64 word" where
  "xorshift64 now sd =
     (let x = (if sd = 0 then word_of_int now else sd);
          x1 = x XOR push_bit 13 x;
          x2 = x1 XOR drop_bit 7 x1
      in x2 XOR push_bit 17 x2)"

definition transition :: "int \<Rightarrow> BreakerState \<Rightarrow> BreakerState \<Rightarrow> Breaker \<Rightarrow> bool \<times> Breaker" where
  "transition nowR from to b =
     (case Transition (bState b) from to of
        (True, st) \<Rightarrow>
          (let b1 = b\<lparr>bState := st\<rparr>;
               b2 = (if to = StateClosed then b1\<lparr>metrics := Reset_win nowR (metrics b1)\<rparr> else b1)
           in (True, b2\<lparr>changes := changes b2 @ [(from, to)]\<rparr>))
      | (False, _) \<Rightarrow> (False, b))"

section \<open>Admission\<close>

definition tryAcquire :: "Breaker \<Rightarrow> bool \<times> Breaker" where
  "tryAcquire b = (if maxInflight b \<le> inflight b then (False, b) else (True, b\<lparr>inflight := inflight b + 1\<rparr>))"

text \<open>
  While \<open>acquire\<close> waits, other calls run: \<open>during\<close> is their effect, and \<open>done\<close> says that the context
  ended before the timer.
\<close>

definition acquire :: "duration \<Rightarrow> bool \<Rightarrow> bool \<Rightarrow> (Breaker \<Rightarrow> Breaker) \<Rightarrow> Breaker \<Rightarrow> bool \<times> Breaker" where
  "acquire waitTimeout isVIP done during b =
     (if maxInflight b \<le> 0 \<or> isVIP then (True, b\<lparr>inflight := inflight b + 1\<rparr>)
      else (case tryAcquire b of
              (True, b') \<Rightarrow> (True, b')
            | (False, _) \<Rightarrow>
                if waitTimeout \<le> 0 then (False, b)
                else if done then (False, during b)
                else tryAcquire (during b)))"

definition circuitAllows :: "int \<Rightarrow> 64 word \<Rightarrow> Breaker \<Rightarrow> bool \<times> 64 word \<times> Breaker" where
  "circuitAllows now sd b =
     (case bState b of
        StateOpen \<Rightarrow>
          if healthGated b \<and> (maxOpen b \<le> 0 \<or> now - lastFailure b < maxOpen b) then (dryRun b, sd, b)
          else (let jitterRange = sleepWindow b div 10;
                    sd' = (if 0 < jitterRange then xorshift64 now sd else sd);
                    jitter = (if 0 < jitterRange then uint (sd' mod word_of_int jitterRange) else 0)
                in if sleepWindow b + jitter < now - lastFailure b
                   then (case transition now StateOpen StateHalfOpen b of
                           (True, b1) \<Rightarrow> if \<not> probing b1 then (True, sd', b1\<lparr>probing := True, probeAt := now\<rparr>)
                                         else (dryRun b, sd', b1)
                         | (False, b1) \<Rightarrow> (dryRun b, sd', b1))
                   else (dryRun b, sd', b))
      | StateHalfOpen \<Rightarrow>
          if \<not> probing b then (True, sd, b\<lparr>probing := True, probeAt := now\<rparr>)
          else if probeAt b \<noteq> 0 \<and> sleepWindow b < now - probeAt b then (True, sd, b\<lparr>probeAt := now\<rparr>)
          else (dryRun b, sd, b)
      | StateClosed \<Rightarrow> (True, sd, b))"

definition Refusing :: "int \<Rightarrow> Breaker \<Rightarrow> bool" where
  "Refusing now b =
     (if override b = 1 then True
      else if override b = 2 then False
      else if dryRun b \<or> bState b \<noteq> StateOpen then False
      else (let since = now - lastFailure b in
            if healthGated b \<and> (maxOpen b \<le> 0 \<or> since < maxOpen b) then True
            else since \<le> sleepWindow b + sleepWindow b div 10))"

datatype Verdict = Admitted | RejectedOpen | RejectedBulkhead

record allow_env =
  aNow :: int
  aWait :: duration
  aDone :: bool
  aDuring :: "Breaker \<Rightarrow> Breaker"
  aSeed :: "64 word"
  aVIP :: bool

definition AllowEx :: "allow_env \<Rightarrow> Breaker \<Rightarrow> Verdict \<times> 64 word \<times> Breaker" where
  "AllowEx e b =
     (if override b = 1 then (RejectedOpen, aSeed e, b)
      else if override b = 2 then (Admitted, aSeed e, b\<lparr>inflight := inflight b + 1\<rparr>)
      else (case acquire (aWait e) (aVIP e) (aDone e) (aDuring e) b of
              (False, b1) \<Rightarrow> (RejectedBulkhead, aSeed e, b1)
            | (True, b1) \<Rightarrow>
                (case circuitAllows (aNow e) (aSeed e) b1 of
                   (False, sd, b2) \<Rightarrow> (RejectedOpen, sd, b2\<lparr>inflight := inflight b2 - 1\<rparr>)
                 | (True, sd, b2) \<Rightarrow> (Admitted, sd, b2))))"

definition Allow :: "allow_env \<Rightarrow> Breaker \<Rightarrow> bool \<times> 64 word \<times> Breaker" where
  "Allow e b = (case AllowEx e b of (v, sd, b') \<Rightarrow> (v = Admitted, sd, b'))"

definition Abandon :: "Breaker \<Rightarrow> Breaker" where
  "Abandon b =
     (let b1 = b\<lparr>inflight := inflight b - 1\<rparr>
      in if bState b1 = StateHalfOpen then b1\<lparr>probing := False\<rparr> else b1)"

section \<open>Outcomes\<close>

definition CanRetry :: "Breaker \<Rightarrow> bool" where
  "CanRetry b \<longleftrightarrow> retryBudgetBps b \<le> 0 \<or> RetryRateBps (metrics b) < retryBudgetBps b"

definition br_RecordRetry :: "int \<Rightarrow> Breaker \<Rightarrow> Breaker" where
  "br_RecordRetry now b = b\<lparr>metrics := win_RecordRetry now (metrics b)\<rparr>"

text \<open>\<open>time.Duration.Microseconds\<close> truncates toward zero.\<close>

definition microseconds :: "duration \<Rightarrow> int" where
  "microseconds d = (if 0 \<le> d then d div 1000 else - ((- d) div 1000))"

definition recordSuccess :: "int \<Rightarrow> int \<Rightarrow> duration \<Rightarrow> Breaker \<Rightarrow> Breaker" where
  "recordSuccess now nowR latency b =
     (let lUs = microseconds latency;
          b1 = b\<lparr>metrics := Success now (if lUs \<le> 0 then - 1 else lUs) (metrics b)\<rparr>
      in if bState b1 = StateHalfOpen
         then (case transition nowR StateHalfOpen StateClosed b1 of
                 (True, b2) \<Rightarrow> b2\<lparr>probing := False\<rparr> | (False, b2) \<Rightarrow> b2)
         else b1)"

text \<open>\<open>now2\<close> is the reading \<open>Counts\<close> takes.\<close>

definition recordFailure :: "int \<Rightarrow> int \<Rightarrow> int \<Rightarrow> Breaker \<Rightarrow> Breaker" where
  "recordFailure now now2 nowR b =
     (let b1 = b\<lparr>metrics := Failure now (metrics b), lastFailure := now\<rparr>
      in if bState b1 = StateHalfOpen
         then (case transition nowR StateHalfOpen StateOpen b1 of
                 (True, b2) \<Rightarrow> b2\<lparr>probing := False\<rparr> | (False, b2) \<Rightarrow> b2)
         else (let ((success, failure), w) = Counts now2 (metrics b1);
                   b2 = b1\<lparr>metrics := w\<rparr>
               in if 0 < minSamples b2 \<and> success + failure < minSamples b2 then b2
                  else (let (rate, w') = win_FailureRateBps now (metrics b2);
                            b3 = b2\<lparr>metrics := w'\<rparr>
                        in if failureThreshold b3 \<le> rate then snd (transition nowR StateClosed StateOpen b3) else b3)))"

definition MarkSuccess :: "int \<Rightarrow> int \<Rightarrow> duration \<Rightarrow> Breaker \<Rightarrow> Breaker" where
  "MarkSuccess now nowR latency b = recordSuccess now nowR latency (b\<lparr>inflight := inflight b - 1\<rparr>)"

definition MarkFailure :: "int \<Rightarrow> int \<Rightarrow> int \<Rightarrow> Breaker \<Rightarrow> Breaker" where
  "MarkFailure now now2 nowR b = recordFailure now now2 nowR (b\<lparr>inflight := inflight b - 1\<rparr>)"

section \<open>Health gate and overrides\<close>

definition SetHealthGate :: "duration \<Rightarrow> Breaker \<Rightarrow> Breaker" where
  "SetHealthGate mo b = b\<lparr>maxOpen := mo, healthGated := True\<rparr>"

definition BeginProbe :: "int \<Rightarrow> Breaker \<Rightarrow> bool \<times> Breaker" where
  "BeginProbe nowR b = transition nowR StateOpen StateHalfOpen (b\<lparr>probing := False\<rparr>)"

definition ResetClosed :: "int \<Rightarrow> Breaker \<Rightarrow> bool \<times> Breaker" where
  "ResetClosed nowR b0 =
     (let b = b0\<lparr>probing := False\<rparr> in
      case transition nowR StateHalfOpen StateClosed b of
        (True, b1) \<Rightarrow> (True, b1)
      | (False, b1) \<Rightarrow> transition nowR StateOpen StateClosed b1)"

definition ReopenFromProbe :: "int \<Rightarrow> Breaker \<Rightarrow> bool \<times> Breaker" where
  "ReopenFromProbe now b =
     (case transition now StateHalfOpen StateOpen b of
        (True, b1) \<Rightarrow> (True, b1\<lparr>lastFailure := now, probing := False\<rparr>)
      | (False, b1) \<Rightarrow> (False, b1))"

definition SetOverride :: "int \<Rightarrow> Breaker \<Rightarrow> Breaker" where
  "SetOverride v b = b\<lparr>override := v\<rparr>"

definition AvgLatency :: "Breaker \<Rightarrow> duration" where
  "AvgLatency b = AvgLatencyUs (metrics b) * 1000"

section \<open>Invariant\<close>

definition ib_ok :: "Breaker \<Rightarrow> bool" where
  "ib_ok b \<longleftrightarrow> win_ok (metrics b) \<and> (probing b \<longrightarrow> bState b = StateHalfOpen)"

lemma transition_cases:
  "transition nowR from to b = (if bState b = from
     then (True, (if to = StateClosed then b\<lparr>bState := to, metrics := Reset_win nowR (metrics b)\<rparr> else b\<lparr>bState := to\<rparr>)
             \<lparr>changes := changes b @ [(from, to)]\<rparr>)
     else (False, b))"
  by (auto simp: transition_def Transition_def Let_def)

lemma ib_ok_New: "0 < bd \<Longrightarrow> 0 \<le> sw \<Longrightarrow> ib_ok (NewBreaker now thr slp sw bd mi ms dry bud)"
  by (simp add: ib_ok_def NewBreaker_def New_ok)

lemma tryAcquire_sel:
  "tryAcquire b = (r, b') \<Longrightarrow> b' = b\<lparr>inflight := inflight b + (if r then 1 else 0)\<rparr> \<and> (r \<longrightarrow> inflight b < maxInflight b)"
  by (auto simp: tryAcquire_def split: if_splits)

lemma circuitAllows_ok: "ib_ok b \<Longrightarrow> circuitAllows now sd b = (r, sd', b') \<Longrightarrow>
   ib_ok b' \<and> inflight b' = inflight b \<and> maxInflight b' = maxInflight b \<and> override b' = override b \<and> dryRun b' = dryRun b"
  by (cases "bState b") (auto simp: circuitAllows_def transition_cases ib_ok_def Let_def split: if_splits)

lemma acquire_eq:
  "acquire wt vip dn during b =
     (if maxInflight b \<le> 0 \<or> vip \<or> inflight b < maxInflight b then (True, b\<lparr>inflight := inflight b + 1\<rparr>)
      else if wt \<le> 0 then (False, b) else if dn then (False, during b) else tryAcquire (during b))"
  by (simp add: acquire_def tryAcquire_def)

lemma ib_ok_inflight [simp]: "ib_ok (b\<lparr>inflight := k\<rparr>) = ib_ok b"
  by (simp add: ib_ok_def)

lemma acquire_ok:
  assumes "ib_ok b" and "\<And>b. ib_ok b \<Longrightarrow> ib_ok (during b)" and "acquire wt vip dn during b = (r, b')"
  shows "ib_ok b'"
  using assms(3) assms(1) assms(2) [of b] unfolding acquire_eq tryAcquire_def by (simp split: if_split_asm) auto

lemma AllowEx_ok:
  assumes "ib_ok b" and "\<And>b. ib_ok b \<Longrightarrow> ib_ok (aDuring e b)" and "AllowEx e b = (v, sd, b')"
  shows "ib_ok b'"
proof -
  obtain r b1 where a: "acquire (aWait e) (aVIP e) (aDone e) (aDuring e) b = (r, b1)" by fastforce
  note i = acquire_ok [OF assms(1,2) a]
  obtain r2 sd2 b2 where c: "circuitAllows (aNow e) (aSeed e) b1 = (r2, sd2, b2)" by (metis prod.collapse)
  show ?thesis
    using circuitAllows_ok [OF i c] i assms(1,3) a c by (cases r; cases r2) (auto simp: AllowEx_def split: if_splits)
qed

lemma Counts_ok: "win_ok w \<Longrightarrow> win_ok (snd (Counts now w))"
  by (simp add: Counts_def Let_def rotate_ok)

lemma Rate_ok: "win_ok w \<Longrightarrow> win_ok (snd (win_FailureRateBps now w))"
  by (simp add: win_FailureRateBps_def Let_def rotate_ok)

lemma recordSuccess_ok: "ib_ok b \<Longrightarrow> ib_ok (recordSuccess now nowR l b)"
  by (auto simp: recordSuccess_def Let_def transition_cases ib_ok_def Success_ok Reset_ok)

lemma recordFailure_ok: "ib_ok b \<Longrightarrow> ib_ok (recordFailure now now2 nowR b)"
  using Counts_ok [OF Failure_ok, of "metrics b" now2 now] Rate_ok [OF Counts_ok [OF Failure_ok], of "metrics b" now now2 now]
  by (auto simp: recordFailure_def Let_def transition_cases ib_ok_def Failure_ok case_prod_beta)

lemma other_ok:
  assumes "ib_ok b"
  shows "ib_ok (Abandon b)" "ib_ok (snd (BeginProbe n b))" "ib_ok (snd (ResetClosed n b))" "ib_ok (snd (ReopenFromProbe n b))"
    "ib_ok (SetOverride v b)" "ib_ok (SetHealthGate mo b)" "ib_ok (br_RecordRetry n b)"
    "ib_ok (b\<lparr>inflight := k\<rparr>)"
  using assms
  by (auto simp: Abandon_def BeginProbe_def ResetClosed_def ReopenFromProbe_def SetOverride_def SetHealthGate_def
      br_RecordRetry_def transition_cases ib_ok_def Reset_ok RecordRetry_ok Let_def)

section \<open>Runs\<close>

datatype br_call =
    CAllow allow_env
  | CSuccess int int duration
  | CFailure int int int
  | CAbandon
  | CBeginProbe int
  | CResetClosed int
  | CReopen int
  | CRetry int
  | COverride int
  | CGate duration

definition br_step :: "br_call \<Rightarrow> Breaker \<Rightarrow> Breaker" where
  "br_step c b = (case c of
      CAllow e \<Rightarrow> snd (snd (AllowEx e b))
    | CSuccess now nowR l \<Rightarrow> MarkSuccess now nowR l b
    | CFailure now now2 nowR \<Rightarrow> MarkFailure now now2 nowR b
    | CAbandon \<Rightarrow> Abandon b
    | CBeginProbe n \<Rightarrow> snd (BeginProbe n b)
    | CResetClosed n \<Rightarrow> snd (ResetClosed n b)
    | CReopen n \<Rightarrow> snd (ReopenFromProbe n b)
    | CRetry n \<Rightarrow> br_RecordRetry n b
    | COverride v \<Rightarrow> SetOverride v b
    | CGate mo \<Rightarrow> SetHealthGate mo b)"

text \<open>In a run calls do not overlap, so nothing happens while one waits for a slot.\<close>

definition alone :: "br_call \<Rightarrow> bool" where
  "alone c = (case c of CAllow e \<Rightarrow> aDuring e = id | _ \<Rightarrow> True)"

text \<open>The edges of the state machine.\<close>

definition legal :: "BreakerState \<times> BreakerState \<Rightarrow> bool" where
  "legal ft \<longleftrightarrow> ft \<in> {(StateClosed, StateOpen), (StateOpen, StateHalfOpen), (StateHalfOpen, StateClosed),
                  (StateHalfOpen, StateOpen), (StateOpen, StateClosed)}"

fun path :: "BreakerState \<Rightarrow> (BreakerState \<times> BreakerState) list \<Rightarrow> BreakerState \<Rightarrow> bool" where
  "path s [] t = (s = t)"
| "path s ((f, u) # ps) t = (s = f \<and> legal (f, u) \<and> path u ps t)"

lemma path_append: "path s (ps @ qs) t \<longleftrightarrow> (\<exists>u. path s ps u \<and> path u qs t)"
  by (induction s ps t rule: path.induct) auto

definition path_ok :: "Breaker \<Rightarrow> bool" where
  "path_ok b \<longleftrightarrow> path StateClosed (changes b) (bState b)"

lemma transition_path: "path_ok b \<Longrightarrow> legal (f, t) \<Longrightarrow> path_ok (snd (transition n f t b))"
  by (auto simp: transition_cases path_ok_def path_append)

lemma path_ok_cong: "changes b' = changes b \<Longrightarrow> bState b' = bState b \<Longrightarrow> path_ok b' = path_ok b"
  by (simp add: path_ok_def)

lemma legal_edges [simp]:
  "legal (StateClosed, StateOpen)" "legal (StateOpen, StateHalfOpen)" "legal (StateHalfOpen, StateClosed)"
  "legal (StateHalfOpen, StateOpen)" "legal (StateOpen, StateClosed)"
  by (simp_all add: legal_def)

lemma path_transition:
  "path_ok b \<Longrightarrow> transition n f t b = (r, b') \<Longrightarrow> legal (f, t) \<Longrightarrow> path_ok b'"
  using transition_path [of b f t n] by simp

lemma circuitAllows_path: "path_ok b \<Longrightarrow> path_ok (snd (snd (circuitAllows now sd b)))"
  by (cases "bState b") (auto simp: circuitAllows_def Let_def path_ok_def transition_cases path_append)

lemma recordFailure_path: "path_ok b \<Longrightarrow> path_ok (recordFailure now now2 nowR b)"
  by (auto simp: recordFailure_def Let_def path_ok_def transition_cases path_append case_prod_beta)

lemma recordSuccess_path: "path_ok b \<Longrightarrow> path_ok (recordSuccess now nowR l b)"
  by (auto simp: recordSuccess_def Let_def path_ok_def transition_cases path_append)

lemma AllowEx_path:
  assumes "path_ok b" and "aDuring e = id"
  shows "path_ok (snd (snd (AllowEx e b)))"
proof -
  obtain r b1 where a: "acquire (aWait e) (aVIP e) (aDone e) (aDuring e) b = (r, b1)" by fastforce
  then have "path_ok b1"
    using assms unfolding acquire_eq tryAcquire_def by (auto simp: path_ok_def split: if_split_asm)
  moreover obtain r2 sd2 b2 where c: "circuitAllows (aNow e) (aSeed e) b1 = (r2, sd2, b2)" by (metis prod.collapse)
  ultimately have "path_ok b2" using circuitAllows_path [of b1 "aNow e" "aSeed e"] by simp
  with a c \<open>path_ok b1\<close> assms show ?thesis
    by (cases r; cases r2) (auto simp: AllowEx_def path_ok_def)
qed

lemma step_path: "path_ok b \<Longrightarrow> alone c \<Longrightarrow> path_ok (br_step c b)"
  by (cases c)
    (auto simp: br_step_def alone_def AllowEx_path MarkSuccess_def MarkFailure_def Abandon_def BeginProbe_def ResetClosed_def
      ReopenFromProbe_def br_RecordRetry_def SetOverride_def SetHealthGate_def Let_def path_ok_def transition_cases path_append
      intro!: recordSuccess_path [unfolded path_ok_def] recordFailure_path [unfolded path_ok_def] AllowEx_path [unfolded path_ok_def])

section \<open>In-flight accounting\<close>

definition admits :: "br_call \<Rightarrow> Breaker \<Rightarrow> int" where
  "admits c b = (case c of CAllow e \<Rightarrow> if fst (AllowEx e b) = Admitted then 1 else 0
     | CSuccess _ _ _ \<Rightarrow> - 1 | CFailure _ _ _ \<Rightarrow> - 1 | CAbandon \<Rightarrow> - 1 | _ \<Rightarrow> 0)"

text \<open>Calls admitted less calls finished along a run.\<close>

fun outstanding :: "br_call list \<Rightarrow> Breaker \<Rightarrow> int" where
  "outstanding [] b = 0"
| "outstanding (c # cs) b = admits c b + outstanding cs (br_step c b)"

definition br_run :: "br_call list \<Rightarrow> Breaker \<Rightarrow> Breaker" where
  "br_run cs b = fold br_step cs b"

lemma AllowEx_cases:
  assumes "aDuring e = id" and "AllowEx e b = (v, sd, b')"
  shows "inflight b' = inflight b + (if v = Admitted then 1 else 0) \<and> maxInflight b' = maxInflight b \<and> override b' = override b
    \<and> (v = Admitted \<longrightarrow> 0 < maxInflight b \<longrightarrow> \<not> aVIP e \<longrightarrow> override b \<noteq> 2 \<longrightarrow> inflight b < maxInflight b)"
proof -
  obtain r b1 where a: "acquire (aWait e) (aVIP e) (aDone e) (aDuring e) b = (r, b1)" by fastforce
  have b1: "b1 = b\<lparr>inflight := inflight b + (if r then 1 else 0)\<rparr>"
    "r \<Longrightarrow> 0 < maxInflight b \<Longrightarrow> \<not> aVIP e \<Longrightarrow> inflight b < maxInflight b"
    using a assms(1) unfolding acquire_eq tryAcquire_def by (auto split: if_split_asm)
  obtain r2 sd2 b2 where c: "circuitAllows (aNow e) (aSeed e) b1 = (r2, sd2, b2)" by (metis prod.collapse)
  have "inflight b2 = inflight b1 \<and> maxInflight b2 = maxInflight b1 \<and> override b2 = override b1"
    using c by (cases "bState b1") (auto simp: circuitAllows_def transition_cases Let_def split: if_splits)
  with a c assms(2) b1 show ?thesis by (cases r; cases r2) (auto simp: AllowEx_def split: if_splits)
qed

lemma transition_inflight [simp]: "inflight (snd (transition n f t b)) = inflight b"
  by (auto simp: transition_cases)

lemma record_inflight [simp]:
  "inflight (recordSuccess now nowR l b) = inflight b" "inflight (recordFailure now now2 nowR b) = inflight b"
  by (auto simp: recordSuccess_def recordFailure_def transition_cases Let_def case_prod_beta)

lemma step_inflight: "alone c \<Longrightarrow> inflight (br_step c b) = inflight b + admits c b"
proof (cases c)
  case (CAllow e)
  obtain v sd b' where "AllowEx e b = (v, sd, b')" by (metis prod.collapse)
  with AllowEx_cases [of e b v sd b'] CAllow show "alone c \<Longrightarrow> ?thesis" by (simp add: alone_def br_step_def admits_def)
qed (auto simp: br_step_def admits_def MarkSuccess_def MarkFailure_def Abandon_def BeginProbe_def ResetClosed_def
    ReopenFromProbe_def br_RecordRetry_def SetOverride_def SetHealthGate_def Let_def transition_cases)

lemma run_inflight: "list_all alone cs \<Longrightarrow> inflight (br_run cs b) = inflight b + outstanding cs b"
proof (induction cs arbitrary: b)
  case (Cons c cs)
  then show ?case using step_inflight [of c b] by (simp add: br_run_def)
qed (simp add: br_run_def)

lemma run_path: "path_ok b \<Longrightarrow> list_all alone cs \<Longrightarrow> path_ok (br_run cs b)"
  by (induction cs arbitrary: b) (auto simp: br_run_def step_path)

section \<open>The slot reservation under contention\<close>

text \<open>
  \<open>tryAcquire\<close> as the processor runs it: a thread loads the counter, compares it with the limit, and
  tries to swap in the incremented value; a swap that meets another value starts over.  \<open>PFinish\<close> is
  the decrement that ends an admitted call.  Any thread may move at any time.
\<close>

datatype pc = PStart | PLoaded int | PAdmitted | PRejected

record slots =
  counter :: int
  thread :: "nat \<Rightarrow> pc"

inductive slot_step :: "int \<Rightarrow> slots \<Rightarrow> slots \<Rightarrow> bool" for mx :: int where
  load: "thread s t = PStart \<Longrightarrow> counter s < mx \<Longrightarrow>
    slot_step mx s (s\<lparr>thread := (thread s)(t := PLoaded (counter s))\<rparr>)"
| full: "thread s t = PStart \<Longrightarrow> mx \<le> counter s \<Longrightarrow>
    slot_step mx s (s\<lparr>thread := (thread s)(t := PRejected)\<rparr>)"
| swap: "thread s t = PLoaded cur \<Longrightarrow> counter s = cur \<Longrightarrow>
    slot_step mx s (s\<lparr>counter := cur + 1, thread := (thread s)(t := PAdmitted)\<rparr>)"
| miss: "thread s t = PLoaded cur \<Longrightarrow> counter s \<noteq> cur \<Longrightarrow>
    slot_step mx s (s\<lparr>thread := (thread s)(t := PStart)\<rparr>)"
| finish: "thread s t = PAdmitted \<Longrightarrow>
    slot_step mx s (s\<lparr>counter := counter s - 1, thread := (thread s)(t := PStart)\<rparr>)"

definition slots_init :: slots where
  "slots_init = \<lparr>counter = 0, thread = (\<lambda>_. PStart)\<rparr>"

definition admitted :: "slots \<Rightarrow> nat set" where
  "admitted s = {t. thread s t = PAdmitted}"

definition slots_ok :: "int \<Rightarrow> slots \<Rightarrow> bool" where
  "slots_ok mx s \<longleftrightarrow> finite (admitted s) \<and> counter s = int (card (admitted s)) \<and> counter s \<le> mx
     \<and> (\<forall>t cur. thread s t = PLoaded cur \<longrightarrow> cur < mx)"

lemma admitted_other: "thread s t \<noteq> PAdmitted \<Longrightarrow> v \<noteq> PAdmitted \<Longrightarrow> admitted (s\<lparr>thread := (thread s)(t := v)\<rparr>) = admitted s"
  by (auto simp: admitted_def)

lemma slot_step_ok: "slot_step mx s s' \<Longrightarrow> slots_ok mx s \<Longrightarrow> slots_ok mx s'"
proof (induction rule: slot_step.induct)
  case (swap s t cur)
  have a: "admitted (s\<lparr>counter := cur + 1, thread := (thread s)(t := PAdmitted)\<rparr>) = insert t (admitted s)"
    by (auto simp: admitted_def)
  have t: "t \<notin> admitted s" using swap by (simp add: admitted_def)
  have lim: "cur < mx" using swap unfolding slots_ok_def by blast
  from swap have f: "finite (admitted s)" "cur = int (card (admitted s))" "\<And>t c. thread s t = PLoaded c \<Longrightarrow> c < mx"
    by (auto simp: slots_ok_def)
  have "c < mx" if "((thread s)(t := PAdmitted)) u = PLoaded c" for u c
    using that f(3) [of u c] by (simp split: if_splits)
  moreover have "cur + 1 = int (card (insert t (admitted s)))" "cur + 1 \<le> mx" using f(1,2) t lim by simp_all
  ultimately show ?case unfolding slots_ok_def a using f(1) by simp
next
  case (finish s t)
  have a: "admitted (s\<lparr>counter := counter s - 1, thread := (thread s)(t := PStart)\<rparr>) = admitted s - {t}"
    by (auto simp: admitted_def)
  have t: "t \<in> admitted s" using finish by (simp add: admitted_def)
  show ?case unfolding slots_ok_def a using finish t card_remove_int [of "admitted s" t] by (auto simp: slots_ok_def)
qed (auto simp: slots_ok_def admitted_other)

lemma slots_reach: "(slot_step mx)\<^sup>*\<^sup>* s s' \<Longrightarrow> slots_ok mx s \<Longrightarrow> slots_ok mx s'"
  by (induction rule: rtranclp_induct) (auto intro: slot_step_ok)

section \<open>Properties\<close>

text \<open>
  C35: the bulkhead limit is never exceeded: however the threads interleave, the number of admitted
  calls stays at most the limit, and the counter is exactly that number.
\<close>

theorem bulkhead_never_exceeded:
  assumes "0 \<le> mx" and "(slot_step mx)\<^sup>*\<^sup>* slots_init s"
  shows "int (card (admitted s)) \<le> mx \<and> counter s = int (card (admitted s))"
  using slots_reach [OF assms(2)] assms(1) by (auto simp: slots_ok_def slots_init_def admitted_def)

theorem bulkhead_never_exceeded_witness:
  "int (card (admitted \<lparr>counter = 1, thread = (\<lambda>_. PStart)(7 := PAdmitted)\<rparr>)) \<le> 1"
proof -
  let ?s1 = "slots_init\<lparr>thread := (thread slots_init)(7 := PLoaded (counter slots_init))\<rparr>"
  have "slot_step 1 slots_init ?s1" by (rule load) (simp_all add: slots_init_def)
  moreover have "slot_step 1 ?s1 (?s1\<lparr>counter := 0 + 1, thread := (thread ?s1)(7 := PAdmitted)\<rparr>)"
    by (rule swap) (simp_all add: slots_init_def)
  ultimately have "(slot_step 1)\<^sup>*\<^sup>* slots_init \<lparr>counter = 1, thread = (\<lambda>_. PStart)(7 := PAdmitted)\<rparr>"
    by (simp add: slots_init_def)
  from bulkhead_never_exceeded [OF _ this] show ?thesis by simp
qed

text \<open>
  Over any run of calls, the in-flight counter equals the calls admitted less the calls finished,
  and the state changes reported form a path of the circuit's state machine from closed to the current
  state: closed to open, open to half-open or closed, half-open to closed or open, and no other.
\<close>

theorem breaker_run_accounting:
  assumes "list_all alone cs"
  shows "(let b0 = NewBreaker now thr slp sw bd mi ms dry bud; b = br_run cs b0
     in inflight b = outstanding cs b0 \<and> path StateClosed (changes b) (bState b))"
proof -
  let ?b = "NewBreaker now thr slp sw bd mi ms dry bud"
  have "path_ok ?b" "inflight ?b = 0" by (simp_all add: path_ok_def NewBreaker_def)
  with run_path [OF _ assms, of ?b] run_inflight [OF assms, of ?b] show ?thesis by (simp add: path_ok_def)
qed

definition ex_br :: Breaker where
  "ex_br = NewBreaker 0 5000 1000 100 10 1 1 False 0"

definition ex_allow :: "int \<Rightarrow> allow_env" where
  "ex_allow now = \<lparr>aNow = now, aWait = 0, aDone = False, aDuring = id, aSeed = 1, aVIP = False\<rparr>"

theorem breaker_run_accounting_witness:
  "inflight (br_run [CAllow (ex_allow 1), CFailure 2 2 2, CAllow (ex_allow 3)] ex_br)
     = outstanding [CAllow (ex_allow 1), CFailure 2 2 2, CAllow (ex_allow 3)] ex_br"
  using breaker_run_accounting [of "[CAllow (ex_allow 1), CFailure 2 2 2, CAllow (ex_allow 3)]" 0 5000 1000 100 10 1 1 False 0]
  by (simp add: alone_def ex_allow_def ex_br_def Let_def)

lemma jitter_below:
  assumes "0 < jr" and "jr < 2 ^ 64"
  shows "0 \<le> uint (x mod (word_of_int jr :: 64 word)) \<and> uint (x mod (word_of_int jr :: 64 word)) < jr"
proof -
  have "uint (word_of_int jr :: 64 word) = jr" using assms by (simp add: uint_word_of_int_eq take_bit_int_eq_self)
  then show ?thesis using assms by (simp add: uint_mod)
qed

text \<open>
  \<open>Refusing\<close> can be trusted: when it says an open circuit no longer refuses, the next call with a
  free slot is admitted as the canary (for every jitter the seed may give) and the circuit is half-open.
\<close>

theorem not_refusing_admits:
  assumes "ib_ok b" and "bState b = StateOpen" and "override b \<noteq> 1" and "override b \<noteq> 2" and "\<not> dryRun b"
    and "0 \<le> sleepWindow b" and "sleepWindow b < 2 ^ 63"
    and "\<not> Refusing (aNow e) b" and "maxInflight b \<le> 0 \<or> aVIP e \<or> inflight b < maxInflight b"
  shows "\<exists>sd b'. AllowEx e b = (Admitted, sd, b') \<and> bState b' = StateHalfOpen \<and> probing b' \<and> inflight b' = inflight b + 1"
proof -
  let ?b1 = "b\<lparr>inflight := inflight b + 1\<rparr>" and ?jr = "sleepWindow b div 10"
  have acq: "acquire (aWait e) (aVIP e) (aDone e) (aDuring e) b = (True, ?b1)" using assms(9) by (simp add: acquire_eq)
  have np: "\<not> probing b" using assms(1,2) by (auto simp: ib_ok_def)
  have R: "\<not> (healthGated b \<and> (maxOpen b \<le> 0 \<or> aNow e - lastFailure b < maxOpen b))"
    "sleepWindow b + ?jr < aNow e - lastFailure b"
    using assms(2-5,8) by (auto simp: Refusing_def Let_def split: if_splits)
  have jr: "0 \<le> ?jr" "?jr < 2 ^ 64" using assms(6,7) by (auto simp: pos_imp_zdiv_nonneg_iff)
  have J: "(if 0 < ?jr then uint (x mod (word_of_int ?jr :: 64 word)) else 0) \<le> ?jr" for x
    using jitter_below [of ?jr x] jr by auto
  have "\<exists>sd b'. circuitAllows (aNow e) (aSeed e) ?b1 = (True, sd, b') \<and> bState b' = StateHalfOpen \<and> probing b'
      \<and> inflight b' = inflight b + 1"
    using assms(2) np R J [of "xorshift64 (aNow e) (aSeed e)"]
    by (auto simp: circuitAllows_def Let_def transition_cases)
  then obtain sd b' where "circuitAllows (aNow e) (aSeed e) ?b1 = (True, sd, b')" "bState b' = StateHalfOpen" "probing b'"
      "inflight b' = inflight b + 1" by blast
  then show ?thesis using assms(3,4) acq by (simp add: AllowEx_def)
qed

definition ex_open :: Breaker where
  "ex_open = br_run [CAllow (ex_allow 1), CFailure 2 2 2] ex_br"

lemma ex_open_facts:
  "bState ex_open = StateOpen" "override ex_open = 0" "\<not> dryRun ex_open" "sleepWindow ex_open = 1000"
  "lastFailure ex_open = 2" "\<not> healthGated ex_open" "maxInflight ex_open = 1" "inflight ex_open = 0"
  by (simp_all add: ex_open_def br_run_def br_step_def ex_br_def NewBreaker_def AllowEx_def ex_allow_def acquire_eq
      circuitAllows_def MarkFailure_def recordFailure_def Failure_def rotate_win_def NewRollingWindow_def upd_head_def
      Counts_def win_FailureRateBps_def transition_cases Let_def)

lemma ex_open_ok: "ib_ok ex_open"
proof -
  have "ib_ok ex_br" unfolding ex_br_def by (rule ib_ok_New) simp_all
  moreover obtain v sd b where a: "AllowEx (ex_allow 1) ex_br = (v, sd, b)" by (metis prod.collapse)
  ultimately have "ib_ok b" using AllowEx_ok [OF _ _ a] by (simp add: ex_allow_def)
  then show ?thesis
    using a by (simp add: ex_open_def br_run_def br_step_def MarkFailure_def recordFailure_ok)
qed

theorem not_refusing_admits_witness:
  "\<exists>sd b'. AllowEx (ex_allow 2000) ex_open = (Admitted, sd, b') \<and> bState b' = StateHalfOpen"
  using not_refusing_admits [OF ex_open_ok, of "ex_allow 2000"] ex_open_facts
  by (auto simp: Refusing_def ex_allow_def Let_def)

definition must_refuse :: "Breaker \<Rightarrow> allow_env \<Rightarrow> bool" where
  "must_refuse b e \<longleftrightarrow> aDuring e = id \<and>
     (bState b = StateOpen \<and> (healthGated b \<and> (maxOpen b \<le> 0 \<or> aNow e - lastFailure b < maxOpen b)
        \<or> aNow e - lastFailure b \<le> sleepWindow b)
    \<or> bState b = StateHalfOpen \<and> probing b \<and> aNow e - probeAt b \<le> sleepWindow b)"

lemma must_refuse_refuses:
  assumes b: "override b = 0" "\<not> dryRun b" "0 \<le> sleepWindow b" "sleepWindow b < 2 ^ 63" and m: "must_refuse b e"
  shows "fst (AllowEx e b) \<noteq> Admitted \<and> snd (snd (AllowEx e b)) = b"
proof -
  let ?jr = "sleepWindow b div 10"
  obtain r b1 where a: "acquire (aWait e) (aVIP e) (aDone e) (aDuring e) b = (r, b1)" by fastforce
  have b1: "b1 = b\<lparr>inflight := inflight b + (if r then 1 else 0)\<rparr>"
    using a m unfolding acquire_eq tryAcquire_def must_refuse_def by (auto split: if_split_asm)
  have jr: "0 \<le> ?jr" "?jr < 2 ^ 64" using b by (auto simp: pos_imp_zdiv_nonneg_iff)
  have J: "\<not> sleepWindow b + (if 0 < ?jr then uint (x mod (word_of_int ?jr :: 64 word)) else 0) < t" if "t \<le> sleepWindow b" for x t
  proof -
    have "0 \<le> (if 0 < ?jr then uint (x mod (word_of_int ?jr :: 64 word)) else 0)" using jitter_below [of ?jr x] jr by auto
    with that show ?thesis by linarith
  qed
  have "\<exists>sd. circuitAllows (aNow e) (aSeed e) (b\<lparr>inflight := inflight b + 1\<rparr>) = (False, sd, b\<lparr>inflight := inflight b + 1\<rparr>)"
    using m b J [of "aNow e - lastFailure b" "xorshift64 (aNow e) (aSeed e)"]
    by (cases "bState b") (auto simp: must_refuse_def circuitAllows_def Let_def)
  then show ?thesis using a b1 b(1) by (cases r) (auto simp: AllowEx_def)
qed

text \<open>
  The dependency is left alone: while the circuit is open (within the sleep window, or as long as a
  health check owns the way out) and while a canary is under way in the half-open state, every further
  call is refused and changes nothing, however many arrive.
\<close>

theorem open_circuit_refuses:
  assumes "override b = 0" and "\<not> dryRun b" and "0 \<le> sleepWindow b" and "sleepWindow b < 2 ^ 63"
    and "list_all (must_refuse b) es"
  shows "list_all (\<lambda>e. fst (AllowEx e b) \<noteq> Admitted) es \<and> br_run (map CAllow es) b = b"
  using assms(5)
proof (induction es)
  case (Cons e es)
  with must_refuse_refuses [OF assms(1-4), of e] show ?case by (simp add: br_run_def br_step_def)
qed (simp add: br_run_def)

theorem open_circuit_refuses_witness: "br_run (map CAllow [ex_allow 10, ex_allow 900]) ex_open = ex_open"
  using open_circuit_refuses [of ex_open "[ex_allow 10, ex_allow 900]"] ex_open_facts
  by (simp add: must_refuse_def ex_allow_def)

lemma clear_loop_zero:
  assumes "list_all (\<lambda>b. b = zero_bucket) (buckets w)" and "buckets w \<noteq> []"
  shows "list_all (\<lambda>b. b = zero_bucket) (buckets (clear_loop n w)) \<and> totalSuccess (clear_loop n w) = totalSuccess w
    \<and> totalFailure (clear_loop n w) = totalFailure w"
  using assms
proof (induction n arbitrary: w)
  case (Suc n)
  let ?h = "(head w + 1) mod length (buckets w)"
  have z: "buckets w ! ?h = zero_bucket" using Suc.prems by (simp add: list_all_length)
  then have "buckets (clear_next w) = buckets w" "totalSuccess (clear_next w) = totalSuccess w" "totalFailure (clear_next w) = totalFailure w"
    by (simp_all add: clear_next_def Let_def) (metis list_update_id)
  with Suc show ?case by simp
qed simp

lemma reset_then_failure:
  assumes "buckets w \<noteq> []"
  shows "totalSuccess (Failure now (Reset_win nowR w)) = 0 \<and> totalFailure (Failure now (Reset_win nowR w)) = 1"
proof -
  let ?r = "Reset_win nowR w"
  have "list_all (\<lambda>b. b = zero_bucket) (buckets ?r)" "buckets ?r \<noteq> []" "totalSuccess ?r = 0" "totalFailure ?r = 0"
    using assms by (simp_all add: Reset_win_def list_all_iff)
  with clear_loop_zero [of ?r] have "totalSuccess (rotate_win now ?r) = 0" "totalFailure (rotate_win now ?r) = 0"
    by (auto simp: rotate_win_def Let_def)
  then show ?thesis by (simp add: Failure_def Let_def upd_head_def)
qed

lemma rotate_small:
  assumes "win_ok w"
  shows "0 \<le> totalSuccess (rotate_win now w) \<and> 0 \<le> totalFailure (rotate_win now w)
    \<and> totalSuccess (rotate_win now w) \<le> totalSuccess w \<and> totalFailure (rotate_win now w) \<le> totalFailure w"
proof -
  have nn: "0 \<le> totalSuccess v \<and> 0 \<le> totalFailure v" if "win_ok v" for v
    using that by (auto simp: win_ok_def list_all_iff intro!: sum_list_nonneg)
  have "win_ok v \<Longrightarrow> totalSuccess (clear_loop n v) \<le> totalSuccess v \<and> totalFailure (clear_loop n v) \<le> totalFailure v" for n v
  proof (induction n arbitrary: v)
    case (Suc n)
    let ?h = "(head v + 1) mod length (buckets v)"
    have "?h < length (buckets v)" using Suc.prems by (simp add: win_ok_def)
    then have "0 \<le> bSuccess (buckets v ! ?h)" "0 \<le> bFailure (buckets v ! ?h)"
      using Suc.prems by (auto simp: win_ok_def list_all_length)
    with Suc.IH [of "clear_next v"] clear_next_ok [OF Suc.prems] show ?case by (simp add: clear_next_def Let_def)
  qed simp
  from this [OF assms] nn [of "rotate_win now w"] rotate_ok [OF assms, of now] show ?thesis
    by (auto simp: rotate_win_def Let_def)
qed

text \<open>
  A circuit that has just recovered starts from a clean slate: the success that closes a half-open
  circuit empties the window, so with a minimum of two samples the next failure, whatever happened
  before the outage, cannot open it again.
\<close>

theorem recovered_starts_clean:
  assumes "ib_ok b" and "bState b = StateHalfOpen" and "2 \<le> minSamples b"
  shows "bState (recordSuccess now nowR l b) = StateClosed
    \<and> bState (recordFailure now1 now2 nowR' (recordSuccess now nowR l b)) = StateClosed"
proof -
  let ?m = "Success now (if microseconds l \<le> 0 then - 1 else microseconds l) (metrics b)"
  define b1 where "b1 = recordSuccess now nowR l b"
  have b1: "bState b1 = StateClosed" "metrics b1 = Reset_win nowR ?m" "minSamples b1 = minSamples b"
    using assms(2) by (simp_all add: b1_def recordSuccess_def Let_def transition_cases)
  have w: "win_ok ?m" using assms(1) by (simp add: ib_ok_def Success_ok)
  let ?f = "Failure now1 (metrics b1)"
  have f: "totalSuccess ?f = 0" "totalFailure ?f = 1" "win_ok ?f"
    using reset_then_failure [of ?m now1 nowR] w by (simp_all add: b1 win_ok_def [of ?m] Failure_ok Reset_ok)
  obtain su fa v where c: "Counts now2 ?f = ((su, fa), v)" by (metis prod.collapse)
  have "su + fa \<le> 1" using c rotate_small [OF f(3), of now2] f(1,2) by (auto simp: Counts_def Let_def split: if_splits)
  then have "bState (recordFailure now1 now2 nowR' b1) = StateClosed"
    using b1 assms(3) c by (simp add: recordFailure_def Let_def)
  with b1(1) show ?thesis by (simp add: b1_def)
qed

definition ex_half :: Breaker where
  "ex_half = snd (BeginProbe 5 (ex_open\<lparr>minSamples := 3\<rparr>))"

theorem recovered_starts_clean_witness: "bState (recordFailure 30 30 30 (recordSuccess 20 20 1000 ex_half)) = StateClosed"
proof -
  have "ib_ok (ex_open\<lparr>minSamples := 3\<rparr>)" using ex_open_ok by (simp add: ib_ok_def)
  then have "ib_ok ex_half" unfolding ex_half_def by (rule other_ok)
  moreover have "bState ex_half = StateHalfOpen" "minSamples ex_half = 3"
    by (simp_all add: ex_half_def BeginProbe_def transition_cases ex_open_facts)
  ultimately show ?thesis using recovered_starts_clean [of ex_half] by simp
qed

end
