(* ===== verification/GG_Health.thy ===== *)
theory GG_Health
  imports GG_Retry
begin

text \<open>
  Health probing (\<open>health/health.go\<close>): the defaults, the pause between probes, one probe, and the
  probing loop.  The loop runs against a target given by three functions (\<open>Active\<close>, \<open>Generation\<close>,
  \<open>Result\<close>) on a state that other traffic may change while the prober sleeps or probes.  What the
  loop observes in each round (context, check outcome, what others did) is a list; the loop ends with it.
\<close>

record HConfig =
  hcInterval :: duration
  hcMaxInterval :: duration
  hcTimeout :: duration
  hcSuccessThreshold :: int
  hcJitter :: rat
  hcMaxOpen :: duration
  hcTrustHealth :: bool

definition WithDefaults :: "HConfig \<Rightarrow> HConfig" where
  "WithDefaults c0 =
     (let c1 = (if hcInterval c0 \<le> 0 then c0\<lparr>hcInterval := 5 * second\<rparr> else c0);
          c2 = (if hcMaxInterval c1 \<le> 0 then c1\<lparr>hcMaxInterval := 60 * second\<rparr> else c1);
          c3 = (if hcMaxInterval c2 < hcInterval c2 then c2\<lparr>hcMaxInterval := hcInterval c2\<rparr> else c2);
          c4 = (if hcTimeout c3 \<le> 0 then c3\<lparr>hcTimeout := 3 * second\<rparr> else c3);
          c5 = (if hcSuccessThreshold c4 \<le> 0 then c4\<lparr>hcSuccessThreshold := 2\<rparr> else c4);
          c6 = (if hcJitter c5 = 0 then c5\<lparr>hcJitter := 1 / 5\<rparr> else c5)
      in if hcMaxOpen c6 = 0 then c6\<lparr>hcMaxOpen := 300 * second\<rparr> else c6)"

definition hdelay :: "(int \<Rightarrow> int) \<Rightarrow> HConfig \<Rightarrow> bool \<Rightarrow> int \<Rightarrow> duration" where
  "hdelay draw cfg lastOK failures =
     (let b = (if lastOK \<or> failures = 0 then Constant (hcInterval cfg)
               else Exponential (hcInterval cfg) (hcMaxInterval cfg))
      in Jitter draw b (hcJitter cfg) (max failures 1))"

text \<open>What one run of the check came to; a status error carries its code.\<close>

datatype check_result = CheckOk | CheckErr "int option" | CheckPanic

definition probe :: "check_result \<Rightarrow> bool \<times> int" where
  "probe r = (case r of CheckOk \<Rightarrow> (True, 0) | CheckErr (Some code) \<Rightarrow> (False, code)
     | CheckErr None \<Rightarrow> (False, 0) | CheckPanic \<Rightarrow> (False, 0))"

record 't round =
  roCancelled :: bool
  roAsleep :: "'t \<Rightarrow> 't"
  roCheck :: check_result
  roProbing :: "'t \<Rightarrow> 't"
  roCtxErr :: bool

record probed =
  prOK :: bool
  prStatus :: int
  prConsecutive :: int
  prGeneration :: nat

fun health_run ::
  "('t \<Rightarrow> bool) \<Rightarrow> ('t \<Rightarrow> nat) \<Rightarrow> (bool \<Rightarrow> int \<Rightarrow> 't \<Rightarrow> 't) \<Rightarrow> 't round list \<Rightarrow> int \<Rightarrow> int \<Rightarrow> nat \<Rightarrow> bool \<Rightarrow> 't
    \<Rightarrow> probed list \<times> 't" where
  "health_run active generation report [] consecutive failures gn lastOK t = ([], t)"
| "health_run active generation report (o1 # os) consecutive failures gn lastOK t =
     (if roCancelled o1 then ([], t)
      else (let t1 = roAsleep o1 t in
        if \<not> active t1 then ([], t1)
        else (let g = generation t1;
                  c0 = (if g \<noteq> gn then 0 else consecutive);
                  f0 = (if g \<noteq> gn then 0 else failures);
                  (okk, status) = probe (roCheck o1);
                  t2 = roProbing o1 t1
              in if roCtxErr o1 then ([], t2)
                 else (let c = (if okk then c0 + 1 else 0);
                           f = (if okk then 0 else f0 + 1);
                           t3 = report okk c t2;
                           (lg, t') = health_run active generation report os c f g okk t3
                       in (\<lparr>prOK = okk, prStatus = status, prConsecutive = c, prGeneration = g\<rparr> # lg, t')))))"

definition Run :: "('t \<Rightarrow> bool) \<Rightarrow> ('t \<Rightarrow> nat) \<Rightarrow> (bool \<Rightarrow> int \<Rightarrow> 't \<Rightarrow> 't) \<Rightarrow> 't round list \<Rightarrow> 't \<Rightarrow> probed list \<times> 't" where
  "Run active generation report os t = health_run active generation report os 0 0 (generation t) False t"

section \<open>A streak is a streak\<close>

definition streak :: "nat \<Rightarrow> probed list \<Rightarrow> int" where
  "streak g ps = int (length (takeWhile (\<lambda>p. prOK p \<and> prGeneration p = g) ps))"

text \<open>\<open>acc\<close> holds the probes already made, the latest first.\<close>

definition streak_ok :: "probed list \<Rightarrow> int \<Rightarrow> nat \<Rightarrow> bool" where
  "streak_ok acc c g \<longleftrightarrow> c = streak g acc \<and> (acc = [] \<or> prGeneration (hd acc) = g)"

lemma streak_other: "acc = [] \<or> prGeneration (hd acc) \<noteq> g \<Longrightarrow> streak g acc = 0"
  by (cases acc) (auto simp: streak_def)

lemma health_run_streaks:
  assumes "streak_ok acc c g0"
  shows "i < length (fst (health_run active generation report os c f g0 lk t)) \<Longrightarrow>
    prConsecutive (fst (health_run active generation report os c f g0 lk t) ! i)
      = streak (prGeneration (fst (health_run active generation report os c f g0 lk t) ! i))
          (rev (take (Suc i) (fst (health_run active generation report os c f g0 lk t))) @ acc)"
  using assms
proof (induction os arbitrary: c f g0 lk t acc i)
  case (Cons o1 os)
  define t1 where "t1 = roAsleep o1 t"
  define g where "g = generation t1"
  define c0 where "c0 = (if g \<noteq> g0 then 0 else c)"
  obtain okk st where pr: "probe (roCheck o1) = (okk, st)" by fastforce
  show ?case
  proof (cases "roCancelled o1 \<or> \<not> active t1 \<or> roCtxErr o1")
    case True
    then have "fst (health_run active generation report (o1 # os) c f g0 lk t) = []"
      by (auto simp: t1_def pr Let_def)
    with Cons.prems(1) show ?thesis by simp
  next
    case False
    define c1 where "c1 = (if okk then c0 + 1 else 0)"
    define p where "p = \<lparr>prOK = okk, prStatus = st, prConsecutive = c1, prGeneration = g\<rparr>"
    obtain lg t' where rest: "health_run active generation report os c1 (if okk then 0 else (if g \<noteq> g0 then 0 else f) + 1) g okk
        (report okk c1 (roProbing o1 t1)) = (lg, t')" by fastforce
    have run: "fst (health_run active generation report (o1 # os) c f g0 lk t) = p # lg"
      using False rest by (auto simp: pr Let_def t1_def g_def c0_def c1_def p_def)
    have "c0 = streak g acc" using Cons.prems(2) streak_other [of acc g] by (auto simp: c0_def streak_ok_def)
    then have c1: "c1 = streak g (p # acc)" by (auto simp: c1_def p_def streak_def)
    then have so: "streak_ok (p # acc) c1 g" by (simp add: streak_ok_def p_def)
    show ?thesis
    proof (cases i)
      case 0
      with c1 show ?thesis unfolding run by (simp add: p_def)
    next
      case (Suc j)
      with Cons.IH [OF _ so, of j "(if okk then 0 else (if g \<noteq> g0 then 0 else f) + 1)" okk "report okk c1 (roProbing o1 t1)"]
        Cons.prems(1) rest show ?thesis unfolding run by simp
    qed
  qed
qed simp

section \<open>Properties\<close>

text \<open>
  The count a probe reports is the number of healthy probes in a row ending with it, all of them
  since the target's latest failure: a healthy probe from before a relapse is never counted towards
  the next recovery.
\<close>

theorem health_streak_honest:
  "list_all (\<lambda>i. let lg = fst (Run active generation report os t)
       in prConsecutive (lg ! i) = streak (prGeneration (lg ! i)) (rev (take (Suc i) lg)))
     [0..<length (fst (Run active generation report os t))]"
proof -
  have "streak_ok [] 0 (generation t)" by (simp add: streak_ok_def streak_def)
  from health_run_streaks [OF this] show ?thesis by (auto simp: list_all_iff Run_def Let_def)
qed

lemma Exponential_range:
  assumes "0 < base" and "base \<le> mx"
  shows "0 \<le> Exponential base mx n \<and> Exponential base mx n \<le> mx"
  using assms exp_loop_pos [of base mx "nat (n - 1)"] by (auto simp: Exponential_def Let_def less_imp_le)

lemma Jitter_range:
  assumes "\<And>n. 0 < n \<Longrightarrow> 0 \<le> draw n \<and> draw n < n" and "0 \<le> b a" and "b a \<le> mx"
  shows "0 \<le> Jitter draw b fr a \<and> Jitter draw b fr a \<le> mx"
proof (cases "fr \<le> 0 \<or> b a \<le> 0")
  case True
  then show ?thesis using assms(2,3) by (auto simp: Jitter_def Let_def)
next
  case False
  define f1 where "f1 = (if 1 < fr then 1 else fr)"
  define sp where "sp = \<lfloor>of_int (b a) * f1\<rfloor>"
  have f1: "0 < f1" "f1 \<le> 1" using False by (auto simp: f1_def)
  have "of_int (b a) * f1 \<le> of_int (b a) * 1" using f1 False by (intro mult_left_mono) auto
  then have "sp \<le> b a" unfolding sp_def by (simp add: floor_le_iff)
  moreover have "0 \<le> sp" unfolding sp_def using f1 False by (simp add: zero_le_mult_iff)
  moreover have "0 \<le> draw (sp + 1) \<and> draw (sp + 1) < sp + 1" using calculation(2) by (intro assms(1)) simp
  moreover have "Jitter draw b fr a = b a - sp + draw (sp + 1)" using False by (auto simp: Jitter_def Let_def sp_def f1_def)
  ultimately show ?thesis using assms(3) by simp
qed

text \<open>
  With the defaults filled in, the pause before a probe is never negative and never longer than the
  configured cap, whatever the failures so far, the jitter fraction and the random draws.
\<close>

theorem probe_pause_bounded:
  assumes "\<And>n. 0 < n \<Longrightarrow> 0 \<le> draw n \<and> draw n < n"
  shows "0 \<le> hdelay draw (WithDefaults cfg) lastOK failures
    \<and> hdelay draw (WithDefaults cfg) lastOK failures \<le> hcMaxInterval (WithDefaults cfg)"
proof -
  have c: "0 < hcInterval (WithDefaults cfg)" "hcInterval (WithDefaults cfg) \<le> hcMaxInterval (WithDefaults cfg)"
    by (auto simp: WithDefaults_def Let_def second_def)
  then show ?thesis
    unfolding hdelay_def Let_def using Exponential_range [OF c]
    by (intro Jitter_range [OF assms]) (auto simp: Constant_def)
qed

theorem probe_pause_bounded_witness:
  "hdelay (\<lambda>n. n - 1) (WithDefaults \<lparr>hcInterval = 0, hcMaxInterval = 0, hcTimeout = 0, hcSuccessThreshold = 0, hcJitter = 0,
      hcMaxOpen = 0, hcTrustHealth = False\<rparr>) False 7 \<le> 60 * second"
  using probe_pause_bounded [of "\<lambda>n. n - 1" "\<lparr>hcInterval = 0, hcMaxInterval = 0, hcTimeout = 0, hcSuccessThreshold = 0,
      hcJitter = 0, hcMaxOpen = 0, hcTrustHealth = False\<rparr>" False 7]
  by (simp add: WithDefaults_def Let_def second_def)

end
