(* ===== verification/GG_Breaker.thy ===== *)
theory GG_Breaker
  imports GG_IBreaker GG_Health
begin

text \<open>
  The public breaker (\<open>breaker/breaker.go\<close>): configuration and defaults, permits, \<open>Do\<close>, statistics,
  and the adapter that connects the health prober to the circuit.  The callback \<open>OnStateChange\<close> of the
  inner breaker is applied to every change the inner breaker reports.
\<close>

section \<open>Configuration\<close>

record BConfig =
  cName :: string
  cFailureThreshold :: rat
  cMinSamples :: int
  cSamplingWindow :: duration
  cBucketDuration :: duration
  cSleepWindow :: duration
  cMaxInflight :: int
  cWaitTimeout :: duration
  cRetryBudget :: rat
  cDryRun :: bool
  cIsFailure :: "(gerror \<Rightarrow> bool) option"
  cHealth :: "HConfig option"

definition applyDefaults :: "BConfig \<Rightarrow> BConfig" where
  "applyDefaults c0 =
     (let c1 = (if cFailureThreshold c0 \<le> 0 then c0\<lparr>cFailureThreshold := 1 / 2\<rparr> else c0);
          c2 = (if cMinSamples c1 \<le> 0 then c1\<lparr>cMinSamples := 10\<rparr> else c1);
          c3 = (if cSamplingWindow c2 \<le> 0 then c2\<lparr>cSamplingWindow := 10 * second\<rparr> else c2);
          c4 = (if cBucketDuration c3 \<le> 0 then c3\<lparr>cBucketDuration := cSamplingWindow c3 div 10\<rparr> else c3);
          c5 = (if cBucketDuration c4 \<le> 0 then c4\<lparr>cBucketDuration := second\<rparr> else c4);
          c6 = (if cSleepWindow c5 \<le> 0 then c5\<lparr>cSleepWindow := 30 * second\<rparr> else c5)
      in if cIsFailure c6 = None then c6\<lparr>cIsFailure := Some (\<lambda>_. True)\<rparr> else c6)"

section \<open>State\<close>

record PBreaker =
  pCfg :: BConfig
  pIn :: Breaker
  pSeed :: "64 word"
  pOverride :: int
  pRejected :: nat
  pRejectedBulk :: nat
  pOpens :: nat
  pLastChange :: int
  pHc :: "HConfig option"

text \<open>The callback set in \<open>New\<close>, for one state change; \<open>now\<close> is its reading of the clock.\<close>

definition on_change :: "int \<Rightarrow> BreakerState \<times> BreakerState \<Rightarrow> PBreaker \<Rightarrow> PBreaker" where
  "on_change now ft p = p\<lparr>pLastChange := now, pOpens := pOpens p + (if snd ft = StateOpen then 1 else 0)\<rparr>"

definition set_in :: "int \<Rightarrow> Breaker \<Rightarrow> PBreaker \<Rightarrow> PBreaker" where
  "set_in now b p = fold (on_change now) (drop (length (changes (pIn p))) (changes b)) (p\<lparr>pIn := b\<rparr>)"

definition bps :: "rat \<Rightarrow> int" where
  "bps x = (if 0 \<le> x then \<lfloor>x * 10000\<rfloor> else \<lceil>x * 10000\<rceil>)"

definition New :: "int \<Rightarrow> BConfig \<Rightarrow> PBreaker" where
  "New now cfg0 =
     (let cfg = applyDefaults cfg0;
          b = NewBreaker now (bps (cFailureThreshold cfg)) (cSleepWindow cfg) (cSamplingWindow cfg) (cBucketDuration cfg)
                (cMaxInflight cfg) (cMinSamples cfg) (cDryRun cfg) (bps (cRetryBudget cfg));
          p = \<lparr>pCfg = cfg, pIn = b, pSeed = word_of_int now, pOverride = 0, pRejected = 0, pRejectedBulk = 0, pOpens = 0,
               pLastChange = 0, pHc = None\<rparr>
      in case cHealth cfg of
           None \<Rightarrow> p
         | Some h \<Rightarrow>
             (let hc = WithDefaults h; mo = (if hcMaxOpen hc < 0 then 0 else hcMaxOpen hc)
              in p\<lparr>pHc := Some hc, pIn := SetHealthGate mo b\<rparr>))"

section \<open>Health target\<close>

definition ht_Active :: "PBreaker \<Rightarrow> bool" where
  "ht_Active p \<longleftrightarrow> bState (pIn p) = StateOpen \<or> bState (pIn p) = StateHalfOpen"

definition ht_Generation :: "PBreaker \<Rightarrow> nat" where
  "ht_Generation p = pOpens p"

definition ht_Result :: "int \<Rightarrow> bool \<Rightarrow> int \<Rightarrow> PBreaker \<Rightarrow> PBreaker" where
  "ht_Result now healthy consecutive p =
     (case pHc p of None \<Rightarrow> p
      | Some hc \<Rightarrow>
         if \<not> healthy then set_in now (snd (ReopenFromProbe now (pIn p))) p
         else if consecutive < hcSuccessThreshold hc then p
         else if hcTrustHealth hc then set_in now (snd (ResetClosed now (pIn p))) p
         else set_in now (snd (BeginProbe now (pIn p))) p)"

section \<open>Calls\<close>

definition pb_Refusing :: "int \<Rightarrow> PBreaker \<Rightarrow> bool" where
  "pb_Refusing now p = Refusing now (pIn p)"

definition pb_SetOverride :: "int \<Rightarrow> PBreaker \<Rightarrow> PBreaker" where
  "pb_SetOverride v p = p\<lparr>pOverride := v, pIn := SetOverride v (pIn p)\<rparr>"

text \<open>A permit is its \<open>done\<close> flag: the first of the three outcomes takes effect, later ones are ignored.\<close>

datatype Permit = Permit (permit_done: bool)

definition Permit_Success :: "int \<Rightarrow> int \<Rightarrow> duration \<Rightarrow> Permit \<Rightarrow> PBreaker \<Rightarrow> Permit \<times> PBreaker" where
  "Permit_Success now nowR latency pm p =
     (if permit_done pm then (pm, p) else (Permit True, set_in nowR (MarkSuccess now nowR latency (pIn p)) p))"

definition Permit_Failure :: "int \<Rightarrow> int \<Rightarrow> int \<Rightarrow> Permit \<Rightarrow> PBreaker \<Rightarrow> Permit \<times> PBreaker" where
  "Permit_Failure now now2 nowR pm p =
     (if permit_done pm then (pm, p) else (Permit True, set_in nowR (MarkFailure now now2 nowR (pIn p)) p))"

definition Permit_Abandon :: "Permit \<Rightarrow> PBreaker \<Rightarrow> Permit \<times> PBreaker" where
  "Permit_Abandon pm p = (if permit_done pm then (pm, p) else (Permit True, p\<lparr>pIn := Abandon (pIn p)\<rparr>))"

definition Acquire :: "allow_env \<Rightarrow> bool \<Rightarrow> PBreaker \<Rightarrow> (gerror + Permit) \<times> PBreaker" where
  "Acquire e vip p =
     (case AllowEx (e\<lparr>aWait := cWaitTimeout (pCfg p), aSeed := pSeed p, aVIP := vip\<rparr>) (pIn p) of
        (v, sd, b) \<Rightarrow>
          (let p1 = (set_in (aNow e) b p)\<lparr>pSeed := sd\<rparr>
           in case v of
                Admitted \<Rightarrow> (Inr (Permit False), p1)
              | RejectedBulkhead \<Rightarrow> (Inl (EBulkhead (cName (pCfg p))), p1\<lparr>pRejectedBulk := pRejectedBulk p1 + 1\<rparr>)
              | RejectedOpen \<Rightarrow> (Inl (EOpen (cName (pCfg p)) (bState b)), p1\<lparr>pRejected := pRejected p1 + 1\<rparr>)))"

text \<open>
  How a call of the protected function ends, when, and what other calls did to the breaker meanwhile;
  \<open>fCtxErr\<close> says that the call's context has ended when the outcome is recorded.
\<close>

datatype fn_outcome = FnOk | FnErr gerror | FnPanic

record fn_env =
  fOutcome :: fn_outcome
  fNow :: int
  fNow2 :: int
  fNowR :: int
  fLatency :: duration
  fCtxErr :: bool
  fMeanwhile :: "PBreaker \<Rightarrow> PBreaker"

definition finish :: "fn_env \<Rightarrow> goerr \<Rightarrow> Permit \<Rightarrow> PBreaker \<Rightarrow> Permit \<times> PBreaker" where
  "finish f err pm p =
     (case err of
        None \<Rightarrow> Permit_Success (fNow f) (fNowR f) (fLatency f) pm p
      | Some e \<Rightarrow>
          if errors_Is e Canceled \<and> fCtxErr f then Permit_Abandon pm p
          else if (case cIsFailure (pCfg p) of Some isf \<Rightarrow> isf e | None \<Rightarrow> True)
          then Permit_Failure (fNow f) (fNow2 f) (fNowR f) pm p
          else Permit_Success (fNow f) (fNowR f) (fLatency f) pm p)"

datatype do_result = DoReturns goerr | DoPanics

definition br_Do :: "allow_env \<Rightarrow> fn_env \<Rightarrow> PBreaker \<Rightarrow> do_result \<times> PBreaker" where
  "br_Do e f p =
     (case Acquire e False p of
        (Inl err, p1) \<Rightarrow> (DoReturns (Some err), p1)
      | (Inr pm, p1) \<Rightarrow>
          (let p2 = fMeanwhile f p1 in
           case fOutcome f of
             FnPanic \<Rightarrow> (DoPanics, snd (Permit_Failure (fNow f) (fNow2 f) (fNowR f) pm p2))
           | FnOk \<Rightarrow> (DoReturns ok, snd (finish f ok pm p2))
           | FnErr err \<Rightarrow> (DoReturns (Some err), snd (finish f (Some err) pm p2))))"

section \<open>Lemmas\<close>

lemma on_change_sel [simp]:
  "pIn (on_change n ft p) = pIn p" "pCfg (on_change n ft p) = pCfg p" "pHc (on_change n ft p) = pHc p"
  "pRejected (on_change n ft p) = pRejected p" "pRejectedBulk (on_change n ft p) = pRejectedBulk p"
  "pOpens (on_change n ft p) = pOpens p + (if snd ft = StateOpen then 1 else 0)"
  by (simp_all add: on_change_def)

lemma fold_on_change [simp]:
  "pIn (fold (on_change n) fs p) = pIn p" "pCfg (fold (on_change n) fs p) = pCfg p" "pHc (fold (on_change n) fs p) = pHc p"
  "pRejected (fold (on_change n) fs p) = pRejected p" "pRejectedBulk (fold (on_change n) fs p) = pRejectedBulk p"
  "pOpens (fold (on_change n) fs p) = pOpens p + length (filter (\<lambda>ft. snd ft = StateOpen) fs)"
  by (induction fs arbitrary: p) simp_all

lemma set_in_sel [simp]:
  "pIn (set_in n b p) = b" "pCfg (set_in n b p) = pCfg p" "pHc (set_in n b p) = pHc p"
  "pRejected (set_in n b p) = pRejected p" "pRejectedBulk (set_in n b p) = pRejectedBulk p"
  "pOpens (set_in n b p) = pOpens p + length (filter (\<lambda>ft. snd ft = StateOpen) (drop (length (changes (pIn p))) (changes b)))"
  by (simp_all add: set_in_def)

lemma finish_inflight:
  assumes "\<not> permit_done pm"
  shows "inflight (pIn (snd (finish f err pm p))) = inflight (pIn p) - 1 \<and> permit_done (fst (finish f err pm p))"
  using assms
  by (cases err) (auto simp: finish_def Permit_Success_def Permit_Failure_def Permit_Abandon_def MarkSuccess_def MarkFailure_def
      Abandon_def Let_def)

section \<open>Properties\<close>

text \<open>
  C37: \<open>Do\<close> gives its in-flight slot back on every path out: success, failure, an error that is not
  the dependency's fault, the caller's own cancellation, and a panic, which it re-raises; a call that was
  refused takes no slot; and the error the caller sees is the function's own or the refusal.
\<close>

theorem Do_releases_slot:
  assumes "aDuring e = id" and "fMeanwhile f = id"
  shows "inflight (pIn (snd (br_Do e f p))) = inflight (pIn p)
    \<and> (case fst (Acquire e False p) of
         Inl err \<Rightarrow> fst (br_Do e f p) = DoReturns (Some err) \<and> (errors_Is err ErrOpen \<or> errors_Is err ErrBulkhead)
       | Inr pm \<Rightarrow> fst (br_Do e f p) = (case fOutcome f of FnOk \<Rightarrow> DoReturns ok | FnErr err \<Rightarrow> DoReturns (Some err) | FnPanic \<Rightarrow> DoPanics))"
proof -
  let ?e = "e\<lparr>aWait := cWaitTimeout (pCfg p), aSeed := pSeed p, aVIP := False\<rparr>"
  obtain v sd b where a: "AllowEx ?e (pIn p) = (v, sd, b)" by (metis prod.collapse)
  note C = AllowEx_cases [OF _ a]
  show ?thesis
  proof (cases v)
    case Admitted
    let ?p1 = "(set_in (aNow e) b p)\<lparr>pSeed := sd\<rparr>"
    have acq: "Acquire e False p = (Inr (Permit False), ?p1)" using a Admitted by (simp add: Acquire_def)
    have "inflight b = inflight (pIn p) + 1" using C assms(1) Admitted by simp
    with acq assms(2) finish_inflight [of "Permit False" f] show ?thesis
      by (cases "fOutcome f") (auto simp: br_Do_def Permit_Failure_def MarkFailure_def)
  qed (use a C assms(1) in \<open>auto simp: Acquire_def br_Do_def Let_def\<close>)
qed

definition ex_pb :: PBreaker where
  "ex_pb = New 0 \<lparr>cName = ''db'', cFailureThreshold = 0, cMinSamples = 0, cSamplingWindow = 0, cBucketDuration = 0,
     cSleepWindow = 0, cMaxInflight = 1, cWaitTimeout = 0, cRetryBudget = 0, cDryRun = False, cIsFailure = None, cHealth = None\<rparr>"

definition ex_fn :: fn_env where
  "ex_fn = \<lparr>fOutcome = FnPanic, fNow = 5, fNow2 = 5, fNowR = 5, fLatency = 1, fCtxErr = False, fMeanwhile = id\<rparr>"

theorem Do_releases_slot_witness: "inflight (pIn (snd (br_Do (ex_allow 1) ex_fn ex_pb))) = inflight (pIn ex_pb)"
  using Do_releases_slot [of "ex_allow 1" ex_fn ex_pb] by (simp add: ex_allow_def ex_fn_def)

datatype permit_call = PSuccess int int duration | PFailure int int int | PAbandon

definition permit_step :: "permit_call \<Rightarrow> Permit \<times> PBreaker \<Rightarrow> Permit \<times> PBreaker" where
  "permit_step c s = (case c of PSuccess n nr l \<Rightarrow> Permit_Success n nr l (fst s) (snd s)
     | PFailure n n2 nr \<Rightarrow> Permit_Failure n n2 nr (fst s) (snd s) | PAbandon \<Rightarrow> Permit_Abandon (fst s) (snd s))"

lemma permit_step_done: "permit_done (fst (permit_step c s)) \<and> (permit_done (fst s) \<longrightarrow> permit_step c s = s)"
  by (cases c; cases s) (auto simp: permit_step_def Permit_Success_def Permit_Failure_def Permit_Abandon_def)

text \<open>
  A permit takes effect exactly once: after any first outcome, no sequence of further outcomes on
  the same permit changes the breaker.
\<close>

theorem permit_once: "fold permit_step (c # cs) (Permit False, p) = permit_step c (Permit False, p)"
proof -
  have "permit_done (fst s) \<Longrightarrow> fold permit_step cs s = s" for s
    using permit_step_done by (induction cs arbitrary: s) auto
  with permit_step_done [of c "(Permit False, p)"] show ?thesis by simp
qed

lemma probe_sel:
  "bState (snd (ReopenFromProbe now b)) = (if bState b = StateHalfOpen then StateOpen else bState b)"
  "bState (snd (BeginProbe now b)) = (if bState b = StateOpen then StateHalfOpen else bState b)"
  "bState (snd (ResetClosed now b)) = StateClosed"
  "metrics (snd (ReopenFromProbe now b)) = metrics b" "metrics (snd (BeginProbe now b)) = metrics b"
  "inflight (snd (ReopenFromProbe now b)) = inflight b" "inflight (snd (BeginProbe now b)) = inflight b"
  "inflight (snd (ResetClosed now b)) = inflight b"
  by (cases "bState b"; simp add: ReopenFromProbe_def BeginProbe_def ResetClosed_def transition_cases)+

text \<open>
  A health probe moves the circuit only where it may: an unhealthy one can only reopen a half-open
  circuit, a healthy one acts only once the run of healthy probes has reached the threshold, and then it
  closes the circuit if the check is trusted and otherwise only lets a canary through; and no probe is
  recorded as traffic.
\<close>

theorem probe_moves_circuit:
  assumes "pHc p = Some hc"
  shows "let p' = ht_Result now healthy consecutive p; s = bState (pIn p); s' = bState (pIn p') in
     inflight (pIn p') = inflight (pIn p)
   \<and> (s' \<noteq> StateClosed \<longrightarrow> metrics (pIn p') = metrics (pIn p))
   \<and> (s' = s
      \<or> \<not> healthy \<and> s = StateHalfOpen \<and> s' = StateOpen
      \<or> healthy \<and> hcSuccessThreshold hc \<le> consecutive \<and> hcTrustHealth hc \<and> s' = StateClosed
      \<or> healthy \<and> hcSuccessThreshold hc \<le> consecutive \<and> \<not> hcTrustHealth hc \<and> s = StateOpen \<and> s' = StateHalfOpen)"
  using assms
  by (cases "healthy"; cases "consecutive < hcSuccessThreshold hc"; cases "hcTrustHealth hc")
    (auto simp: Let_def ht_Result_def probe_sel)

definition ex_hc :: HConfig where
  "ex_hc = \<lparr>hcInterval = 1, hcMaxInterval = 2, hcTimeout = 3, hcSuccessThreshold = 2, hcJitter = 0, hcMaxOpen = 9,
            hcTrustHealth = False\<rparr>"

theorem probe_moves_circuit_witness:
  "inflight (pIn (ht_Result 7 True 1 (ex_pb\<lparr>pHc := Some ex_hc\<rparr>))) = inflight (pIn ex_pb)"
  using probe_moves_circuit [of "ex_pb\<lparr>pHc := Some ex_hc\<rparr>" ex_hc 7 True 1] unfolding Let_def by simp

end
