(* ===== verification/GG_Pipeline.thy ===== *)
theory GG_Pipeline
  imports GG_Breaker GG_Retry GG_Store "HOL-Library.AList" "HOL-Library.List_Lexorder" "HOL-Library.Char_ord"
begin

text \<open>
  \<open>pipeline/pipeline.go\<close>: a message goes through a list of steps, and its progress is kept in a
  checkpoint so that a stored message resumes at the step that had not finished.

  What a run touches besides the message is a world \<open>'w\<close>: the step functions change it, and the
  functions of \<open>pipe_env\<close> read from it the breakers and budgets (by identity), the context's error,
  the clock and the waits.  Go's \<open>encoding/json\<close> on a checkpoint is the pair \<open>pvEncode\<close> and
  \<open>pvDecode\<close> of the environment.  Step functions read the message and change the data saved with
  \<open>Set\<close>; the message fields are read-only to them.
  Error texts keep the words of the source; \<open>%q\<close> is \<open>quote\<close>.
\<close>

section \<open>Data\<close>

type_synonym pstate = "(string \<times> bytes) list"

record Exec =
  xID :: string
  xSource :: Source
  xKey :: bytes
  xValue :: bytes
  xHeaders :: "Header list"
  xAttempt :: int
  xStep :: string
  xEpoch :: int
  xState :: pstate

definition exec_Get :: "Exec \<Rightarrow> string \<Rightarrow> bytes option" where
  "exec_Get x k = map_of (xState x) k"

definition exec_Set :: "string \<Rightarrow> bytes \<Rightarrow> Exec \<Rightarrow> Exec" where
  "exec_Set k v x = x\<lparr>xState := AList.update k (Some (case v of None \<Rightarrow> [] | Some b \<Rightarrow> b)) (xState x)\<rparr>"

text \<open>The text that is hashed into an idempotency key, and the key.\<close>

definition key_input :: "string \<Rightarrow> string \<Rightarrow> int \<Rightarrow> string" where
  "key_input recordID step ep =
     (let s = ''goguard/pipeline/v1'' @ [CHR 0x00] @ recordID @ [CHR 0x00] @ step
      in if 0 < ep then s @ [CHR 0x00] @ ''epoch='' @ FormatInt ep else s)"

definition IdempotencyKeyEpoch :: "(string \<Rightarrow> string) \<Rightarrow> string \<Rightarrow> string \<Rightarrow> int \<Rightarrow> string" where
  "IdempotencyKeyEpoch sha256 recordID step ep = hexEncode (take 16 (sha256 (key_input recordID step ep)))"

definition IdempotencyKey :: "(string \<Rightarrow> string) \<Rightarrow> string \<Rightarrow> string \<Rightarrow> string" where
  "IdempotencyKey sha256 recordID step = IdempotencyKeyEpoch sha256 recordID step 0"

definition exec_IdempotencyKey :: "(string \<Rightarrow> string) \<Rightarrow> Exec \<Rightarrow> string" where
  "exec_IdempotencyKey sha256 x = IdempotencyKeyEpoch sha256 (xID x) (xStep x) (xEpoch x)"

text \<open>
  A step function is given the attempt's own time limit (\<open>None\<close> without one) and the execution;
  it ends as a Go function does, and hands back the saved data and the world.
\<close>

type_synonym 'w step_fn = "duration option \<Rightarrow> Exec \<Rightarrow> 'w \<Rightarrow> fn_outcome \<times> pstate \<times> 'w"

record 'w Step =
  sName :: string
  sDependency :: string
  sBreaker :: "nat option"
  sTimeout :: duration
  sRetry :: Policy
  sRun :: "'w step_fn"
  sCompensate :: "'w step_fn option"

record 'w Pipeline =
  plName :: string
  plVersion :: string
  plSteps :: "'w Step list"
  plSaga :: bool
  plRedact :: "gerror \<Rightarrow> string"

record doneStep =
  dStep :: string
  dAt :: int

record checkpoint =
  kV :: int
  kPipeline :: string
  kVersion :: string
  kCompleted :: "doneStep list"
  kPhase :: string
  kCompensated :: "string list"
  kFailedStep :: string
  kFailReason :: string
  kEpoch :: int
  kState :: pstate

record 'w pipe_env =
  pvBreaker :: "nat \<Rightarrow> 'w \<Rightarrow> PBreaker"
  pvSetBreaker :: "nat \<Rightarrow> PBreaker \<Rightarrow> 'w \<Rightarrow> 'w"
  pvAllow :: "'w \<Rightarrow> allow_env"
  pvFinish :: "'w \<Rightarrow> fn_env"
  pvBudget :: "string \<Rightarrow> 'w \<Rightarrow> Budget option"
  pvSetBudget :: "string \<Rightarrow> Budget option \<Rightarrow> 'w \<Rightarrow> 'w"
  pvCtxErr :: "'w \<Rightarrow> goerr"
  pvWait :: "duration \<Rightarrow> 'w \<Rightarrow> bool \<times> 'w"
  pvNow :: "'w \<Rightarrow> int"
  pvEncode :: "checkpoint \<Rightarrow> string"
  pvDecode :: "string \<Rightarrow> checkpoint option"

definition quote :: "string \<Rightarrow> string" where
  "quote s = [CHR 0x22] @ s @ [CHR 0x22]"

section \<open>Steps and checkpoints\<close>

definition step_dependency :: "'w pipe_env \<Rightarrow> 'w \<Rightarrow> 'w Step \<Rightarrow> string" where
  "step_dependency e w s =
     (if sDependency s \<noteq> '''' then sDependency s
      else case sBreaker s of
             Some b \<Rightarrow> if cName (pCfg (pvBreaker e b w)) \<noteq> '''' then cName (pCfg (pvBreaker e b w)) else sName s
           | None \<Rightarrow> sName s)"

definition StepNames :: "'w Pipeline \<Rightarrow> string list" where
  "StepNames p = map sName (plSteps p)"

text \<open>The distinct breakers of the steps, in the order of their first use.\<close>

fun distinct_breakers :: "nat set \<Rightarrow> 'w Step list \<Rightarrow> nat list" where
  "distinct_breakers seen [] = []"
| "distinct_breakers seen (s # ss) =
     (case sBreaker s of
        Some b \<Rightarrow> if b \<in> seen then distinct_breakers seen ss else b # distinct_breakers (insert b seen) ss
      | None \<Rightarrow> distinct_breakers seen ss)"

definition Breakers :: "'w Pipeline \<Rightarrow> nat list" where
  "Breakers p = distinct_breakers {} (plSteps p)"

text \<open>
  \<open>New\<close>: the steps as the caller writes them, before the short forms are filled in.  \<open>compile\<close> turns
  an \<open>HTTPCall\<close> into a step function, \<open>newHTTP\<close> is \<open>breaker.NewHTTP\<close> for the step at an index (the new
  breaker's identity, or why there is none).  A refused construction answers the error and the breakers
  it had made and closes again; a pipeline comes with the breakers it owns.
\<close>

record ('w, 'h) StepSpec =
  spName :: string
  spDependency :: string
  spBreaker :: "nat option"
  spHealthURL :: string
  spTimeout :: duration
  spRetry :: Policy
  spRetries :: int
  spRun :: "'w step_fn option"
  spHTTP :: "'h option"
  spSaveAs :: string
  spCompensate :: "'w step_fn option"

definition retries_policy :: "(int \<Rightarrow> int) \<Rightarrow> int \<Rightarrow> Policy" where
  "retries_policy rnd n = \<lparr>MaxRetries = n, BackoffOf = Some (Jitter rnd (Exponential (100 * millisecond) second) (1 / 2)),
     Retryable = None\<rparr>"

fun new_steps :: "('h \<Rightarrow> string \<Rightarrow> string \<Rightarrow> gerror + 'w step_fn) \<Rightarrow> (nat \<Rightarrow> string \<Rightarrow> string \<Rightarrow> gerror + nat) \<Rightarrow> (int \<Rightarrow> int) \<Rightarrow>
    nat \<Rightarrow> string list \<Rightarrow> nat list \<Rightarrow> ('w, 'h) StepSpec list \<Rightarrow> (gerror \<times> nat list) + ('w Step list \<times> nat list)" where
  "new_steps compile newHTTP rnd i seen owned [] = Inr ([], owned)"
| "new_steps compile newHTTP rnd i seen owned (s # ss) =
     (if spName s = [] \<or> (spRun s = None) = (spHTTP s = None)
      then Inl (EText (''pipeline: step '' @ FormatInt (int i) @ '' needs a Name and exactly one of Run and HTTP''), owned)
      else if spName s \<in> set seen then Inl (EText (''pipeline: duplicate step name '' @ quote (spName s)), owned)
      else if spSaveAs s \<noteq> [] \<and> spHTTP s = None
      then Inl (EText (''pipeline: step '' @ quote (spName s) @ '' sets SaveAs without HTTP''), owned)
      else (case (case spHTTP s of Some h \<Rightarrow> compile h (spName s) (spSaveAs s) | None \<Rightarrow> Inr (the (spRun s))) of
          Inl err \<Rightarrow> Inl (err, owned)
        | Inr run \<Rightarrow>
           (case (if spBreaker s = None \<and> spHealthURL s \<noteq> []
                  then map_sum id Some (newHTTP i (if spDependency s = [] then spName s else spDependency s) (spHealthURL s))
                  else Inr None) of
              Inl err \<Rightarrow> Inl (EWrap (''pipeline: step '' @ quote (spName s) @ '': HealthURL'') [err], owned)
            | Inr made \<Rightarrow>
               (let st = \<lparr>sName = spName s, sDependency = spDependency s,
                      sBreaker = (case made of Some b \<Rightarrow> Some b | None \<Rightarrow> spBreaker s), sTimeout = spTimeout s,
                      sRetry = (if 0 < spRetries s \<and> MaxRetries (spRetry s) = 0 then retries_policy rnd (spRetries s) else spRetry s),
                      sRun = run, sCompensate = spCompensate s\<rparr>
                in case new_steps compile newHTTP rnd (i + 1) (spName s # seen)
                          (case made of Some b \<Rightarrow> owned @ [b] | None \<Rightarrow> owned) ss of
                     Inl bad \<Rightarrow> Inl bad
                   | Inr (sts, own) \<Rightarrow> Inr (st # sts, own)))))"

definition pl_New :: "('h \<Rightarrow> string \<Rightarrow> string \<Rightarrow> gerror + 'w step_fn) \<Rightarrow> (nat \<Rightarrow> string \<Rightarrow> string \<Rightarrow> gerror + nat) \<Rightarrow> (int \<Rightarrow> int) \<Rightarrow>
    (gerror \<Rightarrow> string) \<Rightarrow> string \<Rightarrow> string \<Rightarrow> ('w, 'h) StepSpec list \<Rightarrow> bool \<Rightarrow> (gerror \<Rightarrow> string) option \<Rightarrow>
    (gerror \<times> nat list) + ('w Pipeline \<times> nat list)" where
  "pl_New compile newHTTP rnd defRedact name version specs saga redactor =
     (if name = [] then Inl (EText ''pipeline: a name is required'', [])
      else if specs = [] then Inl (EText ''pipeline: at least one step is required'', [])
      else case new_steps compile newHTTP rnd 0 [] [] specs of
             Inl bad \<Rightarrow> Inl bad
           | Inr (sts, own) \<Rightarrow> Inr (\<lparr>plName = name, plVersion = version, plSteps = sts, plSaga = saga,
                plRedact = (case redactor of Some f \<Rightarrow> f | None \<Rightarrow> defRedact)\<rparr>, own))"

definition checkpointVersion :: int where "checkpointVersion = 1"
definition phaseForward :: string where "phaseForward = ''forward''"
definition phaseCompensating :: string where "phaseCompensating = ''compensating''"

definition newCheckpoint :: "'w Pipeline \<Rightarrow> checkpoint" where
  "newCheckpoint p = \<lparr>kV = checkpointVersion, kPipeline = plName p, kVersion = plVersion p, kCompleted = [],
     kPhase = phaseForward, kCompensated = [], kFailedStep = [], kFailReason = [], kEpoch = 0, kState = []\<rparr>"

definition mismatch :: "string \<Rightarrow> gerror" where
  "mismatch text = EPermanent (EWrap (''pipeline: checkpoint does not match the deployed pipeline: '' @ text)
     [EVar ErrPipelineMismatch])"

fun load_steps :: "nat \<Rightarrow> doneStep list \<Rightarrow> 'w Step list \<Rightarrow> goerr" where
  "load_steps i [] sts = ok"
| "load_steps i (d # ds) [] = ok"
| "load_steps i (d # ds) (s # sts) =
     (if dStep d \<noteq> sName s
      then Some (mismatch (''step '' @ FormatInt (int i + 1) @ '' was '' @ quote (dStep d)
             @ '' when checkpointed but is '' @ quote (sName s) @ '' now''))
      else load_steps (i + 1) ds sts)"

definition load :: "'w pipe_env \<Rightarrow> 'w Pipeline \<Rightarrow> bytes \<Rightarrow> gerror + checkpoint" where
  "load e p raw =
     (case raw of
        None \<Rightarrow> Inr (newCheckpoint p)
      | Some b \<Rightarrow>
         if b = [] then Inr (newCheckpoint p)
         else (case pvDecode e b of
           None \<Rightarrow> Inl (mismatch ''checkpoint is unreadable'')
         | Some c \<Rightarrow>
            if kV c \<noteq> checkpointVersion
              then Inl (mismatch (''checkpoint format '' @ FormatInt (kV c) @ '' is not supported''))
            else if kPipeline c \<noteq> plName p
              then Inl (mismatch (''checkpoint belongs to pipeline '' @ quote (kPipeline c) @ '', this is '' @ quote (plName p)))
            else if kPhase c \<noteq> phaseForward \<and> kPhase c \<noteq> phaseCompensating
              then Inl (mismatch (''unknown phase '' @ quote (kPhase c)))
            else if length (plSteps p) < length (kCompleted c)
              then Inl (mismatch (''checkpoint has '' @ FormatInt (int (length (kCompleted c)))
                     @ '' completed steps but the pipeline has '' @ FormatInt (int (length (plSteps p)))))
            else (case load_steps 0 (kCompleted c) (plSteps p) of
                Some err \<Rightarrow> Inl err
              | None \<Rightarrow> Inr c)))"

section \<open>Running steps\<close>

text \<open>A run: the execution, its checkpoint and the world.  \<open>persist\<close> is an argument, \<open>None\<close> when live.\<close>

record 'w prun =
  runX :: Exec
  runCp :: checkpoint
  runW :: 'w

type_synonym 'w persist = "(bytes \<Rightarrow> 'w \<Rightarrow> goerr \<times> 'w) option"

definition save :: "'w pipe_env \<Rightarrow> 'w persist \<Rightarrow> 'w prun \<Rightarrow> goerr \<times> 'w prun" where
  "save e persist r0 =
     (let r = r0\<lparr>runCp := (runCp r0)\<lparr>kState := xState (runX r0)\<rparr>\<rparr>
      in case persist of
           None \<Rightarrow> (ok, r)
         | Some f \<Rightarrow> (case f (Some (pvEncode e (runCp r))) (runW r) of
              (Some err, w) \<Rightarrow> (Some (EWrap ''pipeline: saving checkpoint'' [err]), r\<lparr>runW := w\<rparr>)
            | (None, w) \<Rightarrow> (ok, r\<lparr>runW := w\<rparr>)))"

definition attempt :: "'w Step \<Rightarrow> 'w step_fn \<Rightarrow> Exec \<times> 'w \<Rightarrow> goerr \<times> (Exec \<times> 'w)" where
  "attempt st fn xw =
     (case fn (if 0 < sTimeout st then Some (sTimeout st) else None) (fst xw) (snd xw) of
        (out, s, w) \<Rightarrow>
          ((case out of FnOk \<Rightarrow> ok | FnErr err \<Rightarrow> Some err | FnPanic \<Rightarrow> Some (EText ''step panicked'')),
           ((fst xw)\<lparr>xState := s\<rparr>, w)))"

text \<open>\<open>st.Breaker.Do(ctx, attempt)\<close>: \<open>attempt\<close> never panics, so \<open>Do\<close> returns.\<close>

definition guarded :: "'w pipe_env \<Rightarrow> 'w Step \<Rightarrow> 'w step_fn \<Rightarrow> Exec \<times> 'w \<Rightarrow> goerr \<times> (Exec \<times> 'w)" where
  "guarded e st fn xw =
     (case sBreaker st of
        None \<Rightarrow> attempt st fn xw
      | Some b \<Rightarrow>
         (case Acquire (pvAllow e (snd xw)) False (pvBreaker e b (snd xw)) of
            (Inl err, pb) \<Rightarrow> (Some err, (fst xw, pvSetBreaker e b pb (snd xw)))
          | (Inr pm, pb) \<Rightarrow>
             (case attempt st fn (fst xw, pvSetBreaker e b pb (snd xw)) of
                (err, x1, w1) \<Rightarrow>
                  (err, x1, pvSetBreaker e b
                     (snd (finish ((pvFinish e w1)\<lparr>fCtxErr := (pvCtxErr e w1 \<noteq> None)\<rparr>) err pm (pvBreaker e b w1))) w1))))"

definition call_retry_env :: "'w pipe_env \<Rightarrow> 'w Step \<Rightarrow> 'w step_fn \<Rightarrow> (Exec \<times> 'w) retry_env" where
  "call_retry_env e st fn = \<lparr>run_fn = guarded e st fn, ctx_done = (\<lambda>xw. pvCtxErr e (snd xw) \<noteq> None),
     wait_timer = (\<lambda>d xw. case pvWait e d (snd xw) of (b, w) \<Rightarrow> (b, (fst xw, w)))\<rparr>"

definition pcall :: "'w pipe_env \<Rightarrow> 'w Step \<Rightarrow> 'w step_fn \<Rightarrow> 'w prun \<Rightarrow> goerr \<times> 'w prun" where
  "pcall e st fn r =
     (let x = (runX r)\<lparr>xStep := sName st\<rparr>; w = runW r
      in if 0 < MaxRetries (sRetry st)
         then (case Do (call_retry_env e st fn) (sRetry st) (pvBudget e (sName st) w) (x, w) of
                 (err, lg, bud, x1, w1) \<Rightarrow> (err, r\<lparr>runX := x1, runW := pvSetBudget e (sName st) bud w1\<rparr>))
         else (case guarded e st fn (x, w) of (err, x1, w1) \<Rightarrow> (err, r\<lparr>runX := x1, runW := w1\<rparr>)))"

definition classify :: "'w pipe_env \<Rightarrow> 'w Step \<Rightarrow> gerror \<Rightarrow> 'w \<Rightarrow> gerror" where
  "classify e st err w =
     (if IsPermanent (Some err) then err
      else if (case pvCtxErr e w of Some ce \<Rightarrow> \<not> errors_Is ce DeadlineExceeded | None \<Rightarrow> False) then err
      else if errors_Is err ErrOpen then EBlocked (step_dependency e w st) err True
      else EBlocked (step_dependency e w st) err False)"

definition anyCompensation :: "'w Pipeline \<Rightarrow> checkpoint \<Rightarrow> bool" where
  "anyCompensation p c = list_ex (\<lambda>s. sCompensate s \<noteq> None) (take (length (kCompleted c)) (plSteps p))"

text \<open>The loop of \<open>compensate\<close> over the completed steps, newest first; \<open>did\<close> are the names it starts from.\<close>

fun comp_loop :: "'w pipe_env \<Rightarrow> 'w Pipeline \<Rightarrow> 'w persist \<Rightarrow> string list \<Rightarrow> 'w Step list \<Rightarrow> 'w prun \<Rightarrow> goerr \<times> 'w prun" where
  "comp_loop e p persist did [] r =
     (Some (EPermanent (EText (''pipeline '' @ plName p @ '': step '' @ quote (kFailedStep (runCp r)) @ '' failed permanently (''
        @ kFailReason (runCp r) @ ''); '' @ FormatInt (int (length (kCompensated (runCp r)))) @ '' step(s) compensated''))), r)"
| "comp_loop e p persist did (st # sts) r =
     (case sCompensate st of
        None \<Rightarrow> comp_loop e p persist did sts r
      | Some fn \<Rightarrow>
         if sName st \<in> set did then comp_loop e p persist did sts r
         else (case pcall e st fn r of
            (Some err0, r1) \<Rightarrow>
              (let err = classify e st err0 (runW r1)
               in if IsPermanent (Some err)
                  then (Some (EPermanent (EText (''pipeline '' @ plName p @ '': compensating step '' @ quote (sName st)
                          @ '' failed ('' @ plRedact p err @ ''); manual intervention is needed''))), r1)
                  else (Some err, r1))
          | (None, r1) \<Rightarrow>
              (case save e persist (r1\<lparr>runCp := (runCp r1)\<lparr>kCompensated := kCompensated (runCp r1) @ [sName st]\<rparr>\<rparr>) of
                 (Some err, r2) \<Rightarrow> (Some err, r2)
               | (None, r2) \<Rightarrow> comp_loop e p persist did sts r2)))"

definition compensate :: "'w pipe_env \<Rightarrow> 'w Pipeline \<Rightarrow> 'w persist \<Rightarrow> 'w prun \<Rightarrow> goerr \<times> 'w prun" where
  "compensate e p persist r =
     comp_loop e p persist (kCompensated (runCp r)) (rev (take (length (kCompleted (runCp r))) (plSteps p))) r"

definition failed :: "'w pipe_env \<Rightarrow> 'w Pipeline \<Rightarrow> 'w persist \<Rightarrow> 'w Step \<Rightarrow> gerror \<Rightarrow> 'w prun \<Rightarrow> goerr \<times> 'w prun" where
  "failed e p persist st err0 r =
     (let err = classify e st err0 (runW r)
      in if \<not> IsPermanent (Some err) then (Some err, r)
         else if plSaga p \<and> anyCompensation p (runCp r)
         then (case save e persist (r\<lparr>runCp := (runCp r)\<lparr>kPhase := phaseCompensating, kFailedStep := sName st,
                   kFailReason := plRedact p err\<rparr>\<rparr>) of
                 (Some serr, r1) \<Rightarrow> (Some serr, r1)
               | (None, r1) \<Rightarrow> compensate e p persist r1)
         else (Some (EPermanent (EText (''pipeline '' @ plName p @ '': step '' @ quote (sName st) @ '' failed permanently: ''
                 @ plRedact p err))), r))"

fun forward :: "'w pipe_env \<Rightarrow> 'w Pipeline \<Rightarrow> 'w persist \<Rightarrow> 'w Step list \<Rightarrow> 'w prun \<Rightarrow> goerr \<times> 'w prun" where
  "forward e p persist [] r = (ok, r)"
| "forward e p persist (st # sts) r =
     (case pcall e st (sRun st) r of
        (Some err, r1) \<Rightarrow> failed e p persist st err r1
      | (None, r1) \<Rightarrow>
          (case save e persist (r1\<lparr>runCp := (runCp r1)\<lparr>kCompleted := kCompleted (runCp r1)
                   @ [\<lparr>dStep = sName st, dAt = pvNow e (runW r1)\<rparr>]\<rparr>\<rparr>) of
             (Some err, r2) \<Rightarrow> (Some err, r2)
           | (None, r2) \<Rightarrow> forward e p persist sts r2))"

definition advance :: "'w pipe_env \<Rightarrow> 'w Pipeline \<Rightarrow> 'w persist \<Rightarrow> 'w prun \<Rightarrow> goerr \<times> 'w prun" where
  "advance e p persist r =
     (if kPhase (runCp r) = phaseCompensating then compensate e p persist r
      else forward e p persist (drop (length (kCompleted (runCp r))) (plSteps p)) r)"

text \<open>\<open>Handler\<close>: resume a stored record; \<open>ckpt\<close> is \<open>item.Checkpoint\<close>.\<close>

definition Handler :: "'w pipe_env \<Rightarrow> 'w Pipeline \<Rightarrow> (bytes \<Rightarrow> 'w \<Rightarrow> goerr \<times> 'w) \<Rightarrow> Record \<Rightarrow> 'w \<Rightarrow> goerr \<times> 'w" where
  "Handler e p ckpt rec w =
     (case load e p (rCheckpoint rec) of
        Inl err \<Rightarrow> (Some err, w)
      | Inr c \<Rightarrow>
         (let x = \<lparr>xID = rID rec, xSource = rSource rec, xKey = rKey rec, xValue = rValue rec, xHeaders = rHeaders rec,
                   xAttempt = rAttempts rec, xStep = [], xEpoch = kEpoch c, xState = kState c\<rparr>
          in case advance e p (Some ckpt) \<lparr>runX = x, runCp = c, runW = w\<rparr> of (err, r) \<Rightarrow> (err, runW r)))"

section \<open>Live processing\<close>

record Input =
  iID :: string
  iSource :: Source
  iKey :: bytes
  iValue :: bytes
  iHeaders :: "Header list"
  iOrderKey :: string

datatype Result = RFailed | RDone | RDeferred | RParked

definition Result_String :: "Result \<Rightarrow> string" where
  "Result_String r = (case r of RDone \<Rightarrow> ''done'' | RDeferred \<Rightarrow> ''deferred'' | RParked \<Rightarrow> ''parked'' | RFailed \<Rightarrow> ''failed'')"

text \<open>\<open>store\<close>: the append runs detached from the caller's cancellation.\<close>

definition pl_store :: "'w pipe_env \<Rightarrow> (Record \<Rightarrow> 's \<Rightarrow> goerr \<times> 's) \<Rightarrow> Input \<Rightarrow> checkpoint \<Rightarrow> State \<Rightarrow> string \<Rightarrow> string \<Rightarrow> Result \<Rightarrow>
    's \<Rightarrow> (Result \<times> goerr) \<times> 's" where
  "pl_store e append_op inp c st dep text okres s =
     (case append_op (zero_record\<lparr>rID := iID inp, rState := st, rSource := iSource inp, rKey := iKey inp, rValue := iValue inp,
             rHeaders := iHeaders inp, rOrderKey := iOrderKey inp, rBlockedOn := dep, rLastError := text,
             rCheckpoint := Some (pvEncode e c)\<rparr>) s of
        (Some err, s1) \<Rightarrow> ((RFailed, Some err), s1)
      | (None, s1) \<Rightarrow> ((okres, ok), s1))"

definition live_run :: "'w Pipeline \<Rightarrow> Input \<Rightarrow> 'w \<Rightarrow> 'w prun" where
  "live_run p inp w = \<lparr>runX = \<lparr>xID = iID inp, xSource = iSource inp, xKey = iKey inp, xValue = iValue inp,
     xHeaders = iHeaders inp, xAttempt = 0, xStep = [], xEpoch = 0, xState = []\<rparr>, runCp = newCheckpoint p, runW = w\<rparr>"

definition Execute :: "'w pipe_env \<Rightarrow> 'w Pipeline \<Rightarrow> (Record \<Rightarrow> 's \<Rightarrow> goerr \<times> 's) \<Rightarrow> Input \<Rightarrow> 'w \<Rightarrow> 's \<Rightarrow>
    (Result \<times> goerr) \<times> 'w \<times> 's" where
  "Execute e p append_op inp w s =
     (if iID inp = [] then ((RFailed, Some (EText ''pipeline: Input.ID is required'')), w, s)
      else case advance e p None (live_run p inp w) of
        (res, r) \<Rightarrow>
         (let c = (runCp r)\<lparr>kState := xState (runX r)\<rparr>
          in case res of
               None \<Rightarrow> ((RDone, ok), runW r, s)
             | Some err \<Rightarrow>
                (case as_blocked err of
                   Some (dep, _, _) \<Rightarrow>
                     (case pl_store e append_op inp c Pending dep (plRedact p err) RDeferred s of (q, s1) \<Rightarrow> (q, runW r, s1))
                 | None \<Rightarrow>
                    if IsPermanent (Some err)
                    then (case pl_store e append_op inp c Parked [] (plRedact p err) RParked s of (q, s1) \<Rightarrow> (q, runW r, s1))
                    else ((RFailed, Some err), runW r, s))))"

section \<open>Inspecting and rewinding stored records\<close>

definition ctext :: "string \<Rightarrow> sentinel \<Rightarrow> string \<Rightarrow> gerror" where
  "ctext what s detail = EWrap (what @ '': '' @ detail) [EVar s]"

definition Completed :: "'w pipe_env \<Rightarrow> string \<Rightarrow> string list option" where
  "Completed e raw = map_option (\<lambda>c. map dStep (kCompleted c)) (pvDecode e raw)"

definition StateKeys :: "'w pipe_env \<Rightarrow> string \<Rightarrow> string list option" where
  "StateKeys e raw = map_option (\<lambda>c. sort (map fst (kState c))) (pvDecode e raw)"

record Progress =
  gPipeline :: string
  gVersion :: string
  gCompleted :: "string list"
  gNext :: string
  gPhase :: string
  gCompensated :: "string list"
  gFailedStep :: string
  gFailReason :: string
  gStateKeys :: "string list"
  gEpoch :: int

definition Describe :: "'w pipe_env \<Rightarrow> 'w Pipeline \<Rightarrow> bytes \<Rightarrow> gerror + Progress" where
  "Describe e p raw =
     (case load e p raw of
        Inl err \<Rightarrow> Inl err
      | Inr c \<Rightarrow> Inr \<lparr>gPipeline = kPipeline c, gVersion = kVersion c, gCompleted = map dStep (kCompleted c),
           gNext = (if kPhase c = phaseForward \<and> length (kCompleted c) < length (plSteps p)
                    then sName (plSteps p ! length (kCompleted c)) else []),
           gPhase = kPhase c, gCompensated = kCompensated c, gFailedStep = kFailedStep c, gFailReason = kFailReason c,
           gStateKeys = sort (map fst (kState c)), gEpoch = kEpoch c\<rparr>)"

text \<open>The index of the last step with a name, as the loop of \<open>Rewind\<close> leaves it.\<close>

fun step_index :: "nat \<Rightarrow> string \<Rightarrow> 'w Step list \<Rightarrow> nat option \<Rightarrow> nat option" where
  "step_index i n [] acc = acc"
| "step_index i n (s # ss) acc = step_index (i + 1) n ss (if sName s = n then Some i else acc)"

definition Rewind_cp :: "'w Pipeline \<Rightarrow> checkpoint \<Rightarrow> string \<Rightarrow> gerror + checkpoint" where
  "Rewind_cp p c toStep =
     (case step_index 0 toStep (plSteps p) None of
        None \<Rightarrow> Inl (ctext ''pipeline: no such step'' ErrUnknownStep (quote toStep))
      | Some idx \<Rightarrow>
         if length (kCompleted c) < idx
         then Inl (ctext ''pipeline: cannot resume at a step whose predecessors have not completed'' ErrCannotSkipForward
               (quote toStep @ '' comes after '' @ quote (sName (plSteps p ! length (kCompleted c))) @ '', which has not completed''))
         else (case find (\<lambda>d. dStep d \<in> set (kCompensated c)) (take idx (kCompleted c)) of
             Some d \<Rightarrow> Inl (ctext ''pipeline: an earlier step was already compensated'' ErrStepUndone
               (quote (dStep d) @ '' was undone, so resume at '' @ quote (dStep d) @ '' or earlier''))
           | None \<Rightarrow> Inr (c\<lparr>kEpoch := (if kCompensated c \<noteq> [] then kEpoch c + 1 else kEpoch c),
               kCompleted := take idx (kCompleted c), kCompensated := [], kPhase := phaseForward,
               kFailedStep := [], kFailReason := []\<rparr>)))"

definition Rewind :: "'w pipe_env \<Rightarrow> 'w Pipeline \<Rightarrow> bytes \<Rightarrow> string \<Rightarrow> gerror + string" where
  "Rewind e p raw toStep =
     (case load e p raw of
        Inl err \<Rightarrow> Inl err
      | Inr c \<Rightarrow> map_sum id (pvEncode e) (Rewind_cp p c toStep))"

text \<open>\<open>Redrive\<close>, over the \<open>Get\<close>, \<open>Requeue\<close> and \<open>RequeueWith\<close> of a store.\<close>

definition pl_Redrive :: "'w pipe_env \<Rightarrow> 'w Pipeline \<Rightarrow> (string \<Rightarrow> 's \<Rightarrow> gerror + Record) \<Rightarrow> (string \<Rightarrow> 's \<Rightarrow> goerr \<times> 's) \<Rightarrow>
    (string \<Rightarrow> RequeueOptions \<Rightarrow> 's \<Rightarrow> goerr \<times> 's) \<Rightarrow> string \<Rightarrow> string \<Rightarrow> 's \<Rightarrow> goerr \<times> 's" where
  "pl_Redrive e p get requeue requeueWith i fromStep s =
     (case get i s of
        Inl err \<Rightarrow> (Some err, s)
      | Inr rec \<Rightarrow>
         if rState rec \<noteq> Parked then (Some (EVar ErrNotParked), s)
         else if fromStep = [] then requeue i s
         else (case Rewind e p (rCheckpoint rec) fromStep of
             Inl err \<Rightarrow> (Some err, s)
           | Inr c \<Rightarrow> requeueWith i \<lparr>qReplaceCheckpoint = True, qCheckpoint = Some c\<rparr> s))"

end
