(* ===== verification/GG_Pipeline_Props.thy ===== *)
theory GG_Pipeline_Props
  imports GG_Pipeline GG_Memory_Props
begin

text \<open>
  What the pipelines guarantee: a run only writes checkpoints that the pipeline accepts again, resuming
  runs exactly the steps that had not finished, compensation undoes every completed step once, and
  \<open>Execute\<close> answers that a message may be acknowledged only when every step ran or the message is in
  the store.
\<close>

section \<open>Well-formed pipelines and checkpoints\<close>

definition pl_ok :: "'w Pipeline \<Rightarrow> bool" where
  "pl_ok p \<longleftrightarrow> plName p \<noteq> [] \<and> plSteps p \<noteq> [] \<and> distinct (StepNames p) \<and> [] \<notin> set (StepNames p)"

text \<open>What \<open>load\<close> demands of a checkpoint.\<close>

definition fits :: "'w Pipeline \<Rightarrow> checkpoint \<Rightarrow> bool" where
  "fits p c \<longleftrightarrow> kV c = checkpointVersion \<and> kPipeline c = plName p \<and> (kPhase c = phaseForward \<or> kPhase c = phaseCompensating)
     \<and> length (kCompleted c) \<le> length (plSteps p)
     \<and> map dStep (kCompleted c) = take (length (kCompleted c)) (StepNames p)"

text \<open>The compensations a checkpoint still owes, in the order they run.\<close>

definition todo :: "'w Pipeline \<Rightarrow> checkpoint \<Rightarrow> 'w Step list" where
  "todo p c = filter (\<lambda>s. sCompensate s \<noteq> None \<and> sName s \<notin> set (kCompensated c))
     (rev (take (length (kCompleted c)) (plSteps p)))"

lemma fits_new [simp]: "fits p (newCheckpoint p)"
  by (simp add: fits_def newCheckpoint_def)

lemma phases_differ [simp]: "phaseForward \<noteq> phaseCompensating" "phaseCompensating \<noteq> phaseForward"
  by (simp_all add: phaseForward_def phaseCompensating_def)

lemma load_steps_ok:
  "length ds \<le> length sts \<Longrightarrow> load_steps i ds sts = ok \<longleftrightarrow> map dStep ds = take (length ds) (map sName sts)"
  by (induction i ds sts rule: load_steps.induct) simp_all

lemma load_steps_mismatch:
  "load_steps i ds sts = Some err \<Longrightarrow> \<exists>t. err = mismatch t"
  by (induction i ds sts rule: load_steps.induct) (auto split: if_splits)

lemma mismatch_permanent [simp]:
  "has_permanent (mismatch t)" "errors_Is (mismatch t) ErrPipelineMismatch" "as_blocked (mismatch t) = None"
  by (simp_all add: mismatch_def)

lemma load_fits:
  assumes "load e p raw = Inr c"
  shows "fits p c"
  using assms
  by (auto simp: load_def fits_def StepNames_def load_steps_ok newCheckpoint_def split: option.splits if_splits)

section \<open>What one call of a step changes\<close>

text \<open>A call changes the execution and the world, not the checkpoint, and of the execution the saved data and the step name.\<close>

lemma attempt_frame:
  "attempt st fn xw = (err, x1, w1) \<Longrightarrow> \<exists>s. x1 = (fst xw)\<lparr>xState := s\<rparr>"
  by (auto simp: attempt_def split: prod.splits)

lemma pcall_frame:
  assumes "pcall e st fn r = (err, r1)"
  shows "runCp r1 = runCp r"
  using assms by (auto simp: pcall_def Let_def split: if_splits prod.splits)

lemma save_frame:
  assumes "save e persist r = (err, r1)"
  shows "runCp r1 = (runCp r)\<lparr>kState := xState (runX r)\<rparr>" "runX r1 = runX r"
  using assms by (auto simp: save_def Let_def split: option.splits prod.splits)

lemma save_None: "save e None r = (ok, r\<lparr>runCp := (runCp r)\<lparr>kState := xState (runX r)\<rparr>\<rparr>)"
  by (simp add: save_def)

lemma fits_state [simp]:
  "fits p (c\<lparr>kState := s\<rparr>) = fits p c" "fits p (c\<lparr>kCompensated := cs\<rparr>) = fits p c"
  "todo p (c\<lparr>kState := s\<rparr>) = todo p c"
  "todo p (c\<lparr>kPhase := ph, kFailedStep := fs, kFailReason := fr\<rparr>) = todo p c"
  by (simp_all add: fits_def todo_def)

lemma fits_failed [simp]:
  "fits p (c\<lparr>kPhase := phaseCompensating, kFailedStep := fs, kFailReason := fr\<rparr>) \<longleftrightarrow> fits p (c\<lparr>kPhase := phaseCompensating\<rparr>)"
  by (simp add: fits_def)

lemma fits_compensating: "fits p c \<Longrightarrow> fits p (c\<lparr>kPhase := phaseCompensating\<rparr>)"
  by (simp add: fits_def)

lemma fits_next:
  assumes "fits p c" and "drop (length (kCompleted c)) (plSteps p) = st # sts"
  shows "fits p (c\<lparr>kCompleted := kCompleted c @ [\<lparr>dStep = sName st, dAt = n\<rparr>]\<rparr>)"
    and "drop (Suc (length (kCompleted c))) (plSteps p) = sts"
proof -
  have lt: "length (kCompleted c) < length (plSteps p)"
    using assms(2) by (metis drop_eq_Nil list.distinct(1) not_le)
  moreover have st: "plSteps p ! length (kCompleted c) = st"
    using assms(2) lt by (metis Cons_nth_drop_Suc list.inject)
  ultimately show "fits p (c\<lparr>kCompleted := kCompleted c @ [\<lparr>dStep = sName st, dAt = n\<rparr>]\<rparr>)"
    using assms(1) by (simp add: fits_def StepNames_def take_Suc_conv_app_nth)
  show "drop (Suc (length (kCompleted c))) (plSteps p) = sts"
    using assms(2) by (metis drop_Suc list.sel(3) tl_drop)
qed

section \<open>Compensation\<close>

definition owes :: "string list \<Rightarrow> 'w Step \<Rightarrow> bool" where
  "owes did s \<longleftrightarrow> sCompensate s \<noteq> None \<and> sName s \<notin> set did"

lemma todo_owes: "todo p c = filter (owes (kCompensated c)) (rev (take (length (kCompleted c)) (plSteps p)))"
  unfolding todo_def owes_def by (rule refl)

text \<open>One step of the loop that is owed, by how it ends.\<close>

lemma comp_loop_skip: "\<not> owes did st \<Longrightarrow> comp_loop e p persist did (st # sts) r = comp_loop e p persist did sts r"
  by (cases "sCompensate st") (auto simp: owes_def)

definition comp_failure :: "'w pipe_env \<Rightarrow> 'w Pipeline \<Rightarrow> 'w Step \<Rightarrow> gerror \<Rightarrow> 'w \<Rightarrow> gerror" where
  "comp_failure e p st err0 w =
     (let err = classify e st err0 w
      in if IsPermanent (Some err)
         then EPermanent (EText (''pipeline '' @ plName p @ '': compensating step '' @ quote (sName st)
                          @ '' failed ('' @ plRedact p err @ ''); manual intervention is needed''))
         else err)"

definition mark_compensated :: "string \<Rightarrow> 'w prun \<Rightarrow> 'w prun" where
  "mark_compensated n r = r\<lparr>runCp := (runCp r)\<lparr>kCompensated := kCompensated (runCp r) @ [n]\<rparr>\<rparr>"

lemma comp_loop_owed:
  assumes "owes did st" and "sCompensate st = Some fn"
  shows "comp_loop e p persist did (st # sts) r =
    (case pcall e st fn r of
       (Some err0, r1) \<Rightarrow> (Some (comp_failure e p st err0 (runW r1)), r1)
     | (None, r1) \<Rightarrow> (case save e persist (mark_compensated (sName st) r1) of
          (Some err, r2) \<Rightarrow> (Some err, r2)
        | (None, r2) \<Rightarrow> comp_loop e p persist did sts r2))"
  using assms
  by (simp add: owes_def comp_failure_def mark_compensated_def Let_def split: option.split prod.split)

lemma owed_fn: "owes did st \<Longrightarrow> \<exists>fn. sCompensate st = Some fn"
  by (auto simp: owes_def)

lemma comp_loop_snd: "snd (comp_loop e p persist did [] r) = r" "fst (comp_loop e p persist did [] r) \<noteq> ok"
  "IsPermanent (fst (comp_loop e p persist did [] r))"
  by (simp_all add: IsPermanent_def)

text \<open>Rule induction over a run of the loop, one case per way a round can end.\<close>

lemma comp_loop_induct [consumes 1, case_names finished skip call_fails save_fails again]:
  assumes run: "comp_loop e p persist did sts r = (err, r')"
    and finished: "\<And>r. P [] r (fst (comp_loop e p persist did [] r)) r"
    and skip: "\<And>st sts r err r'. \<not> owes did st \<Longrightarrow> P sts r err r' \<Longrightarrow> P (st # sts) r err r'"
    and call_fails: "\<And>st sts r fn err0 r1. owes did st \<Longrightarrow> sCompensate st = Some fn \<Longrightarrow> pcall e st fn r = (Some err0, r1) \<Longrightarrow>
      P (st # sts) r (Some (comp_failure e p st err0 (runW r1))) r1"
    and save_fails: "\<And>st sts r fn r1 serr r2. owes did st \<Longrightarrow> sCompensate st = Some fn \<Longrightarrow> pcall e st fn r = (ok, r1) \<Longrightarrow>
      save e persist (mark_compensated (sName st) r1) = (Some serr, r2) \<Longrightarrow> P (st # sts) r (Some serr) r2"
    and nextc: "\<And>st sts r fn r1 r2 err r'. owes did st \<Longrightarrow> sCompensate st = Some fn \<Longrightarrow> pcall e st fn r = (ok, r1) \<Longrightarrow>
      save e persist (mark_compensated (sName st) r1) = (ok, r2) \<Longrightarrow> P sts r2 err r' \<Longrightarrow> P (st # sts) r err r'"
  shows "P sts r err r'"
  using run
proof (induction sts arbitrary: r)
  case Nil
  then show ?case using finished [of r] by (metis comp_loop_snd fst_conv snd_conv)
next
  case (Cons st sts)
  show ?case
  proof (cases "owes did st")
    case False
    with Cons show ?thesis by (auto simp: comp_loop_skip intro: skip simp del: comp_loop.simps)
  next
    case True
    then obtain fn where fn: "sCompensate st = Some fn" using owed_fn by blast
    obtain c r1 where call: "pcall e st fn r = (c, r1)" by fastforce
    show ?thesis
    proof (cases c)
      case (Some err0)
      with Cons.prems call True fn show ?thesis
        by (auto simp: comp_loop_owed intro: call_fails simp del: comp_loop.simps)
    next
      case None
      obtain d r2 where sv: "save e persist (mark_compensated (sName st) r1) = (d, r2)" by fastforce
      show ?thesis
      proof (cases d)
        case Some
        with Cons.prems call None sv True fn show ?thesis
          by (auto simp: comp_loop_owed intro: save_fails simp del: comp_loop.simps)
      next
        case ok: None
        with Cons.prems call None sv True fn have "comp_loop e p persist did sts r2 = (err, r')"
          by (simp add: comp_loop_owed del: comp_loop.simps)
        with Cons.IH nextc True fn call None sv ok show ?thesis by blast
      qed
    qed
  qed
qed

text \<open>Whatever happens, the steps compensated are the first of those owed, in order, and each is recorded.\<close>

lemma comp_loop_records:
  assumes "comp_loop e p persist did sts r = (err, r')"
  shows "err \<noteq> ok \<and> (\<exists>k \<le> length (filter (owes did) sts).
    runCp r' = (runCp r)\<lparr>kCompensated := kCompensated (runCp r) @ map sName (take k (filter (owes did) sts)),
      kState := kState (runCp r')\<rparr>)"
  using assms
proof (induction rule: comp_loop_induct)
  case (finished r)
  show ?case by simp
next
  case (call_fails st sts r fn err0 r1)
  then show ?case by (auto simp: pcall_frame intro!: exI [of _ 0])
next
  case (save_fails st sts r fn r1 serr r2)
  then have "runCp r2 = (runCp r)\<lparr>kCompensated := kCompensated (runCp r) @ [sName st], kState := kState (runCp r2)\<rparr>"
    by (simp add: save_frame(1) pcall_frame mark_compensated_def)
  with save_fails show ?case by (auto intro!: exI [of _ 1])
next
  case (again st sts r fn r1 r2 err r')
  then obtain k where k: "k \<le> length (filter (owes did) sts)"
    "runCp r' = (runCp r2)\<lparr>kCompensated := kCompensated (runCp r2) @ map sName (take k (filter (owes did) sts)), kState := kState (runCp r')\<rparr>"
    by blast
  have r2: "runCp r2 = (runCp r)\<lparr>kCompensated := kCompensated (runCp r) @ [sName st], kState := xState (runX r1)\<rparr>"
    using again by (simp add: save_frame(1) pcall_frame mark_compensated_def)
  have "runCp r' = (runCp r)\<lparr>kCompensated := kCompensated (runCp r) @ map sName (take (Suc k) (filter (owes did) (st # sts))),
      kState := kState (runCp r')\<rparr>"
    using again(1) by (subst k(2)) (simp add: r2)
  with k(1) again show ?case by (auto intro!: exI [of _ "Suc k"])
qed simp

section \<open>The checkpoints a run writes\<close>

text \<open>
  A checkpoint as the pipeline writes it: it fits, and while it compensates, the steps recorded as
  compensated are completed steps that can be compensated, each once.
\<close>

definition cp_ok :: "'w Pipeline \<Rightarrow> checkpoint \<Rightarrow> bool" where
  "cp_ok p c \<longleftrightarrow> fits p c \<and> distinct (kCompensated c) \<and> (kPhase c = phaseForward \<longrightarrow> kCompensated c = [])
     \<and> set (kCompensated c) \<subseteq> sName ` {s \<in> set (take (length (kCompleted c)) (plSteps p)). sCompensate s \<noteq> None}"

lemma cp_ok_fits: "cp_ok p c \<Longrightarrow> fits p c"
  by (simp add: cp_ok_def)

lemma cp_ok_new [simp]: "cp_ok p (newCheckpoint p)"
  by (simp add: cp_ok_def) (simp add: newCheckpoint_def)

lemma cp_ok_state [simp]: "cp_ok p (c\<lparr>kState := s\<rparr>) = cp_ok p c"
  by (simp add: cp_ok_def)

lemma cp_ok_failed:
  "cp_ok p c \<Longrightarrow> cp_ok p (c\<lparr>kPhase := phaseCompensating, kFailedStep := fs, kFailReason := fr\<rparr>)"
  by (simp add: cp_ok_def fits_compensating)

lemma cp_ok_next:
  assumes "cp_ok p c" and "drop (length (kCompleted c)) (plSteps p) = st # sts" and "kPhase c = phaseForward"
  shows "cp_ok p (c\<lparr>kCompleted := kCompleted c @ [\<lparr>dStep = sName st, dAt = n\<rparr>]\<rparr>)"
  using assms fits_next(1) [OF cp_ok_fits [OF assms(1)] assms(2)] by (simp add: cp_ok_def)

lemma cp_ok_mark:
  assumes "cp_ok p c" and "s \<in> set (take (length (kCompleted c)) (plSteps p))" and "owes did s"
    and "sName s \<notin> set (kCompensated c)" and "kPhase c \<noteq> phaseForward"
  shows "cp_ok p (c\<lparr>kCompensated := kCompensated c @ [sName s]\<rparr>)"
  using assms by (auto simp: cp_ok_def owes_def)

lemma save_agree:
  assumes "\<And>c w. cp_ok p c \<Longrightarrow> f (Some (pvEncode e c)) w = g (Some (pvEncode e c)) w" and "cp_ok p (runCp r)"
  shows "save e (Some f) r = save e (Some g) r"
  using assms by (simp add: save_def)

lemma comp_loop_agree:
  assumes agree: "\<And>c w. cp_ok p c \<Longrightarrow> f (Some (pvEncode e c)) w = g (Some (pvEncode e c)) w"
  shows "cp_ok p (runCp r) \<Longrightarrow> kPhase (runCp r) \<noteq> phaseForward \<Longrightarrow> distinct (map sName sts) \<Longrightarrow>
    \<forall>s \<in> set sts. owes did s \<longrightarrow> sName s \<notin> set (kCompensated (runCp r)) \<Longrightarrow>
    set sts \<subseteq> set (take (length (kCompleted (runCp r))) (plSteps p)) \<Longrightarrow>
    comp_loop e p (Some f) did sts r = comp_loop e p (Some g) did sts r
    \<and> cp_ok p (runCp (snd (comp_loop e p (Some g) did sts r)))"
proof (induction sts arbitrary: r)
  case Nil
  then show ?case by simp
next
  case (Cons st sts)
  show ?case
  proof (cases "owes did st")
    case False
    with Cons.IH [of r] Cons.prems show ?thesis by (auto simp: comp_loop_skip simp del: comp_loop.simps)
  next
    case True
    then obtain fn where fn: "sCompensate st = Some fn" using owed_fn by blast
    obtain c r1 where call: "pcall e st fn r = (c, r1)" by fastforce
    let ?m = "mark_compensated (sName st) r1"
    have cp1: "runCp r1 = runCp r" using pcall_frame [OF call] .
    have okm: "cp_ok p (runCp ?m)"
      using cp_ok_mark [OF Cons.prems(1) _ True] Cons.prems True by (simp add: mark_compensated_def cp1)
    have sv: "save e (Some f) ?m = save e (Some g) ?m" using agree okm by (rule save_agree)
    obtain d r2 where sv': "save e (Some g) ?m = (d, r2)" by fastforce
    have cp2: "runCp r2 = (runCp ?m)\<lparr>kState := xState (runX ?m)\<rparr>" using save_frame(1) [OF sv'] .
    have ok2: "cp_ok p (runCp r2)" using okm by (simp add: cp2)
    have "sName s \<noteq> sName st" if "s \<in> set sts" for s
      using Cons.prems(3) that by (simp add: image_iff) metis
    then have fresh: "\<forall>s \<in> set sts. owes did s \<longrightarrow> sName s \<notin> set (kCompensated (runCp r2))"
      using Cons.prems(4) by (simp add: cp2 mark_compensated_def cp1)
    have "comp_loop e p (Some f) did sts r2 = comp_loop e p (Some g) did sts r2
        \<and> cp_ok p (runCp (snd (comp_loop e p (Some g) did sts r2)))"
      using Cons.prems ok2 fresh by (intro Cons.IH) (simp_all add: cp2 mark_compensated_def cp1)
    with call sv sv' True fn ok2 Cons.prems(1) cp1 show ?thesis
      by (cases c; cases d) (simp_all add: comp_loop_owed del: comp_loop.simps)
  qed
qed

lemma completed_distinct:
  "pl_ok p \<Longrightarrow> distinct (map sName (rev (take n (plSteps p))))"
  by (simp add: pl_ok_def StepNames_def rev_map [symmetric] take_map [symmetric] distinct_take)

lemma compensate_agree:
  assumes "\<And>c w. cp_ok p c \<Longrightarrow> f (Some (pvEncode e c)) w = g (Some (pvEncode e c)) w"
    and "pl_ok p" and "cp_ok p (runCp r)" and "kPhase (runCp r) \<noteq> phaseForward"
  shows "compensate e p (Some f) r = compensate e p (Some g) r \<and> cp_ok p (runCp (snd (compensate e p (Some g) r)))"
  unfolding compensate_def using assms completed_distinct [OF assms(2)]
  by (intro comp_loop_agree) (auto simp: owes_def)

lemma failed_agree:
  assumes agree: "\<And>c w. cp_ok p c \<Longrightarrow> f (Some (pvEncode e c)) w = g (Some (pvEncode e c)) w"
    and "pl_ok p" and okr: "cp_ok p (runCp r)"
  shows "failed e p (Some f) st err r = failed e p (Some g) st err r \<and> cp_ok p (runCp (snd (failed e p (Some g) st err r)))"
proof -
  let ?err = "classify e st err (runW r)"
  let ?r = "r\<lparr>runCp := (runCp r)\<lparr>kPhase := phaseCompensating, kFailedStep := sName st, kFailReason := plRedact p ?err\<rparr>\<rparr>"
  have ok': "cp_ok p (runCp ?r)" using cp_ok_failed [OF okr] by simp
  have sv: "save e (Some f) ?r = save e (Some g) ?r" using agree ok' by (rule save_agree)
  obtain d r1 where sv': "save e (Some g) ?r = (d, r1)" by fastforce
  have cp1: "runCp r1 = (runCp ?r)\<lparr>kState := xState (runX ?r)\<rparr>" using save_frame(1) [OF sv'] .
  have ok1: "cp_ok p (runCp r1)" and "kPhase (runCp r1) \<noteq> phaseForward" using ok' by (simp_all add: cp1)
  then have "compensate e p (Some f) r1 = compensate e p (Some g) r1 \<and> cp_ok p (runCp (snd (compensate e p (Some g) r1)))"
    using compensate_agree [of p f e g r1] assms by blast
  with sv sv' ok1 okr show ?thesis
    by (cases d) (simp_all add: failed_def Let_def)
qed

lemma forward_agree:
  assumes agree: "\<And>c w. cp_ok p c \<Longrightarrow> f (Some (pvEncode e c)) w = g (Some (pvEncode e c)) w" and "pl_ok p"
  shows "cp_ok p (runCp r) \<Longrightarrow> kPhase (runCp r) = phaseForward \<Longrightarrow> sts = drop (length (kCompleted (runCp r))) (plSteps p) \<Longrightarrow>
    forward e p (Some f) sts r = forward e p (Some g) sts r \<and> cp_ok p (runCp (snd (forward e p (Some g) sts r)))"
proof (induction sts arbitrary: r)
  case Nil
  then show ?case by simp
next
  case (Cons st sts)
  obtain c r1 where call: "pcall e st (sRun st) r = (c, r1)" by fastforce
  have cp1: "runCp r1 = runCp r" using pcall_frame [OF call] .
  let ?m = "r1\<lparr>runCp := (runCp r1)\<lparr>kCompleted := kCompleted (runCp r1) @ [\<lparr>dStep = sName st, dAt = pvNow e (runW r1)\<rparr>]\<rparr>\<rparr>"
  have okm: "cp_ok p (runCp ?m)"
    using cp_ok_next [OF Cons.prems(1) Cons.prems(3) [symmetric] Cons.prems(2)] by (simp add: cp1)
  have sv: "save e (Some f) ?m = save e (Some g) ?m" using agree okm by (rule save_agree)
  obtain d r2 where sv': "save e (Some g) ?m = (d, r2)" by fastforce
  have cp2: "runCp r2 = (runCp ?m)\<lparr>kState := xState (runX ?m)\<rparr>" using save_frame(1) [OF sv'] .
  have ok2: "cp_ok p (runCp r2)" using okm by (simp add: cp2)
  have IH: "forward e p (Some f) sts r2 = forward e p (Some g) sts r2 \<and> cp_ok p (runCp (snd (forward e p (Some g) sts r2)))"
    using ok2 Cons.prems(2) fits_next(2) [OF cp_ok_fits [OF Cons.prems(1)] Cons.prems(3) [symmetric]]
    by (intro Cons.IH) (simp_all add: cp2 cp1)
  have "failed e p (Some f) st err r1 = failed e p (Some g) st err r1 \<and> cp_ok p (runCp (snd (failed e p (Some g) st err r1)))" for err
    using failed_agree [of p f e g r1 st err] assms Cons.prems(1) cp1 by simp
  with call sv sv' IH ok2 show ?case
    by (cases c; cases d) simp_all
qed

lemma advance_agree:
  assumes "\<And>c w. cp_ok p c \<Longrightarrow> f (Some (pvEncode e c)) w = g (Some (pvEncode e c)) w"
    and "pl_ok p" and "cp_ok p (runCp r)"
  shows "advance e p (Some f) r = advance e p (Some g) r \<and> cp_ok p (runCp (snd (advance e p (Some g) r)))"
  using assms compensate_agree [of p f e g r] forward_agree [of p f e g r]
  by (auto simp: advance_def cp_ok_def fits_def)

text \<open>A live run saves nothing, so it ends like a run whose saves all succeed and leave the world alone.\<close>

definition silent :: "bytes \<Rightarrow> 'w \<Rightarrow> goerr \<times> 'w" where
  "silent b w = (ok, w)"

lemma save_silent: "save e None r = save e (Some silent) r"
  by (simp add: save_def silent_def)

lemma comp_loop_silent: "comp_loop e p None did sts r = comp_loop e p (Some silent) did sts r"
  by (induction sts arbitrary: r) (simp_all add: save_silent split: option.split prod.split)

lemma compensate_silent: "compensate e p None r = compensate e p (Some silent) r"
  by (simp add: compensate_def comp_loop_silent)

lemma failed_silent: "failed e p None st err r = failed e p (Some silent) st err r"
  by (simp add: failed_def compensate_silent save_silent Let_def split: option.split prod.split)

lemma advance_silent: "advance e p None r = advance e p (Some silent) r"
proof -
  have "forward e p None sts r = forward e p (Some silent) sts r" for sts
    by (induction sts arbitrary: r) (simp_all add: save_silent failed_silent split: option.split prod.split)
  then show ?thesis by (simp add: advance_def compensate_silent)
qed

section \<open>Steps that are done do not run again\<close>

text \<open>A step without its work, and two pipelines that differ at most in the work of their first \<open>n\<close> steps.\<close>

definition erase_run :: "'w Step \<Rightarrow> 'w Step" where
  "erase_run st = st\<lparr>sRun := \<lambda>_ x w. (FnOk, xState x, w)\<rparr>"

definition same_from :: "nat \<Rightarrow> 'w Pipeline \<Rightarrow> 'w Pipeline \<Rightarrow> bool" where
  "same_from n p q \<longleftrightarrow> plName q = plName p \<and> plVersion q = plVersion p \<and> plSaga q = plSaga p \<and> plRedact q = plRedact p
     \<and> map erase_run (plSteps q) = map erase_run (plSteps p) \<and> drop n (plSteps q) = drop n (plSteps p)"

lemma erase_run_fields [simp]:
  "sName (erase_run st) = sName st" "sCompensate (erase_run st) = sCompensate st" "sDependency (erase_run st) = sDependency st"
  "sBreaker (erase_run st) = sBreaker st" "sTimeout (erase_run st) = sTimeout st" "sRetry (erase_run st) = sRetry st"
  by (simp_all add: erase_run_def)

lemma erase_run_calls [simp]:
  "attempt (erase_run st) = attempt st" "guarded e (erase_run st) = guarded e st"
  "call_retry_env e (erase_run st) = call_retry_env e st" "pcall e (erase_run st) = pcall e st"
  "classify e (erase_run st) = classify e st"
proof -
  show a: "attempt (erase_run st) = attempt st" by (intro ext) (unfold attempt_def erase_run_fields, rule refl)
  show g: "guarded e (erase_run st) = guarded e st" by (intro ext) (unfold guarded_def a erase_run_fields, rule refl)
  show c: "call_retry_env e (erase_run st) = call_retry_env e st" by (intro ext) (unfold call_retry_env_def g, rule refl)
  show "pcall e (erase_run st) = pcall e st" by (intro ext) (unfold pcall_def g c erase_run_fields, rule refl)
  show "classify e (erase_run st) = classify e st"
    by (intro ext) (unfold classify_def step_dependency_def erase_run_fields, rule refl)
qed

lemma comp_loop_erase: "comp_loop e p persist did (map erase_run sts) r = comp_loop e p persist did sts r"
proof (induction sts arbitrary: r)
  case (Cons st sts)
  then show ?case unfolding list.map comp_loop.simps erase_run_fields erase_run_calls by (simp only:)
qed simp

lemma comp_loop_pipeline:
  assumes "plName q = plName p" and "plRedact q = plRedact p"
  shows "comp_loop e q persist did sts r = comp_loop e p persist did sts r"
proof (induction sts arbitrary: r)
  case (Cons st sts)
  then show ?case unfolding comp_loop.simps assms by (simp only:)
qed (simp add: assms)

lemma erase_take: "map erase_run xs = map erase_run ys \<Longrightarrow> map erase_run (take k xs) = map erase_run (take k ys)"
  by (simp add: take_map [symmetric])

lemma compensate_same:
  assumes "same_from n p q"
  shows "compensate e q persist r = compensate e p persist r"
proof -
  let ?k = "length (kCompleted (runCp r))"
  have "map erase_run (rev (take ?k (plSteps q))) = map erase_run (rev (take ?k (plSteps p)))"
    using assms erase_take [of "plSteps q" "plSteps p" ?k] by (simp add: same_from_def rev_map [symmetric])
  then have "comp_loop e p persist did (rev (take ?k (plSteps q))) r = comp_loop e p persist did (rev (take ?k (plSteps p))) r" for did
    by (metis comp_loop_erase)
  moreover have "comp_loop e q persist did sts r = comp_loop e p persist did sts r" for did sts
    using assms comp_loop_pipeline [of q p] by (simp add: same_from_def)
  ultimately show ?thesis by (simp add: compensate_def)
qed

lemma anyCompensation_same: "same_from n p q \<Longrightarrow> anyCompensation q c = anyCompensation p c"
proof -
  assume "same_from n p q"
  then have "map erase_run (take k (plSteps q)) = map erase_run (take k (plSteps p))" for k
    using erase_take [of "plSteps q" "plSteps p" k] by (simp add: same_from_def)
  from this [THEN arg_cong [where f = "map sCompensate"]]
  have "map sCompensate (take k (plSteps q)) = map sCompensate (take k (plSteps p))" for k
    by (simp add: comp_def)
  moreover have "list_ex (\<lambda>s. sCompensate s \<noteq> None) xs = list_ex (\<lambda>c. c \<noteq> None) (map sCompensate xs)" for xs :: "'a Step list"
    by (induction xs) simp_all
  ultimately show ?thesis by (simp add: anyCompensation_def)
qed

lemma failed_same:
  assumes "same_from n p q"
  shows "failed e q persist st err r = failed e p persist st err r"
proof -
  have eqs: "plName q = plName p" "plSaga q = plSaga p" "plRedact q = plRedact p"
    using assms by (simp_all only: same_from_def)
  show ?thesis unfolding failed_def anyCompensation_same [OF assms] compensate_same [OF assms] eqs ..
qed

lemma forward_same: "same_from n p q \<Longrightarrow> forward e q persist sts r = forward e p persist sts r"
  by (induction sts arbitrary: r) (simp_all add: failed_same split: option.split prod.split)

lemma advance_same:
  assumes "same_from n p q" and "kPhase (runCp r) \<noteq> phaseCompensating \<Longrightarrow> n \<le> length (kCompleted (runCp r))"
  shows "advance e q persist r = advance e p persist r"
proof (cases "kPhase (runCp r) = phaseCompensating")
  case False
  have "drop (length (kCompleted (runCp r))) (plSteps q) = drop (length (kCompleted (runCp r))) (plSteps p)"
  proof -
    let ?k = "length (kCompleted (runCp r))"
    have "drop (?k - n) (drop n (plSteps q)) = drop (?k - n) (drop n (plSteps p))"
      using assms(1) by (simp only: same_from_def)
    with assms(2) [OF False] show ?thesis by simp
  qed
  with False show ?thesis by (simp add: advance_def forward_same [OF assms(1)])
qed (simp add: advance_def compensate_same [OF assms(1)])

lemma load_steps_names: "map sName xs = map sName ys \<Longrightarrow> load_steps i ds xs = load_steps i ds ys"
proof (induction i ds xs arbitrary: ys rule: load_steps.induct)
  case (3 i d ds s sts)
  then obtain t ts where "ys = t # ts" "sName t = sName s" "map sName ts = map sName sts" by (cases ys) auto
  with 3 show ?case by simp
qed simp_all

lemma load_same: "same_from n p q \<Longrightarrow> load e q raw = load e p raw"
proof -
  assume s: "same_from n p q"
  then have "map sName (map erase_run (plSteps q)) = map sName (map erase_run (plSteps p))"
    by (simp only: same_from_def)
  then have names: "map sName (plSteps q) = map sName (plSteps p)" by (simp add: comp_def)
  moreover from names have "length (plSteps q) = length (plSteps p)" by (metis length_map)
  ultimately show ?thesis using s
    by (simp add: load_def load_steps_names [of "plSteps q" "plSteps p"] newCheckpoint_def same_from_def split: option.split)
qed

section \<open>A live run against the plain sequence of its steps\<close>

definition step_call :: "'w pipe_env \<Rightarrow> 'w Step \<Rightarrow> 'w step_fn \<Rightarrow> Exec \<times> 'w \<Rightarrow> goerr \<times> Exec \<times> 'w" where
  "step_call e st fn xw =
     (case pcall e st fn \<lparr>runX = fst xw, runCp = \<lparr>kV = 0, kPipeline = [], kVersion = [], kCompleted = [], kPhase = [],
        kCompensated = [], kFailedStep = [], kFailReason = [], kEpoch = 0, kState = []\<rparr>, runW = snd xw\<rparr> of
        (err, r) \<Rightarrow> (err, runX r, runW r))"

text \<open>The steps one after the other, up to the first that fails: that step with its error, and where it left things.\<close>

fun run_steps :: "'w pipe_env \<Rightarrow> 'w Step list \<Rightarrow> Exec \<times> 'w \<Rightarrow> ('w Step \<times> gerror) option \<times> Exec \<times> 'w" where
  "run_steps e [] xw = (None, xw)"
| "run_steps e (st # sts) xw =
     (case step_call e st (sRun st) xw of
        (Some err, xw1) \<Rightarrow> (Some (st, err), xw1)
      | (None, xw1) \<Rightarrow> run_steps e sts xw1)"

lemma pcall_step_call:
  "pcall e st fn r = (case step_call e st fn (runX r, runW r) of (err, x, w) \<Rightarrow> (err, r\<lparr>runX := x, runW := w\<rparr>))"
  by (auto simp: pcall_def step_call_def Let_def split: prod.splits)

lemma failed_err: "fst (failed e p persist st err r) \<noteq> ok"
proof -
  have "fst (compensate e p persist r1) \<noteq> ok" for r1
    by (metis comp_loop_records compensate_def prod.collapse)
  then show ?thesis by (simp add: failed_def Let_def split: option.split prod.split)
qed

lemma forward_plain:
  assumes "forward e p (Some silent) sts r = (res, r')"
  shows "(res = ok) = (fst (run_steps e sts (runX r, runW r)) = None)
    \<and> (res = ok \<longrightarrow> run_steps e sts (runX r, runW r) = (None, runX r', runW r'))"
  using assms
proof (induction sts arbitrary: r)
  case (Cons st sts)
  obtain c x w where call: "step_call e st (sRun st) (runX r, runW r) = (c, x, w)" by (metis prod_cases3)
  show ?case
  proof (cases c)
    case (Some err)
    with call Cons.prems failed_err [of e p "Some silent" st err "r\<lparr>runX := x, runW := w\<rparr>"] show ?thesis
      by (simp add: pcall_step_call)
  next
    case None
    let ?r2 = "snd (save e (Some silent) (r\<lparr>runX := x, runW := w, runCp := (runCp r)\<lparr>kCompleted := kCompleted (runCp r)
      @ [\<lparr>dStep = sName st, dAt = pvNow e w\<rparr>]\<rparr>\<rparr>))"
    have "forward e p (Some silent) sts ?r2 = (res, r')" and "runX ?r2 = x" and "runW ?r2 = w"
      using Cons.prems call None by (simp_all add: pcall_step_call save_silent [symmetric] save_None)
    with Cons.IH [of ?r2] call None show ?thesis by simp
  qed
qed simp

text \<open>The completed steps are exactly those whose calls ended well before the first that did not.\<close>

lemma failed_completed: "kCompleted (runCp (snd (failed e p persist st err r))) = kCompleted (runCp r)"
proof -
  have comp: "kCompleted (runCp (snd (compensate e p persist r1))) = kCompleted (runCp r1)" for r1
  proof -
    obtain c r2 where run: "compensate e p persist r1 = (c, r2)" by fastforce
    obtain k where "runCp r2 = (runCp r1)\<lparr>kCompensated := kCompensated (runCp r1) @ map sName (take k
        (filter (owes (kCompensated (runCp r1))) (rev (take (length (kCompleted (runCp r1))) (plSteps p))))), kState := kState (runCp r2)\<rparr>"
      using comp_loop_records [OF run [unfolded compensate_def]] by blast
    from this [THEN arg_cong [where f = kCompleted]] run show ?thesis by simp
  qed
  show ?thesis
    by (simp add: failed_def Let_def comp split: option.split prod.split) (auto dest!: save_frame(1))
qed

lemma forward_progress:
  assumes "forward e p (Some silent) sts r = (res, r')"
  shows "\<exists>k \<le> length sts. map dStep (kCompleted (runCp r')) = map dStep (kCompleted (runCp r)) @ map sName (take k sts)
    \<and> fst (run_steps e (take k sts) (runX r, runW r)) = None
    \<and> (if res = ok then k = length sts else k < length sts \<and> fst (run_steps e (take (Suc k) sts) (runX r, runW r)) \<noteq> None)"
  using assms
proof (induction sts arbitrary: r)
  case (Cons st sts)
  obtain c x w where call: "step_call e st (sRun st) (runX r, runW r) = (c, x, w)" by (metis prod_cases3)
  show ?case
  proof (cases c)
    case (Some err)
    let ?f = "failed e p (Some silent) st err (r\<lparr>runX := x, runW := w\<rparr>)"
    have "?f = (res, r')" using Some call Cons.prems by (simp add: pcall_step_call)
    with failed_err [of e p "Some silent" st err "r\<lparr>runX := x, runW := w\<rparr>"]
      failed_completed [of e p "Some silent" st err "r\<lparr>runX := x, runW := w\<rparr>"] call Some
    show ?thesis by (intro exI [of _ 0]) simp
  next
    case None
    let ?r2 = "snd (save e (Some silent) (r\<lparr>runX := x, runW := w, runCp := (runCp r)\<lparr>kCompleted := kCompleted (runCp r)
      @ [\<lparr>dStep = sName st, dAt = pvNow e w\<rparr>]\<rparr>\<rparr>))"
    have fw: "forward e p (Some silent) sts ?r2 = (res, r')" and eqs: "runX ?r2 = x" "runW ?r2 = w"
      "map dStep (kCompleted (runCp ?r2)) = map dStep (kCompleted (runCp r)) @ [sName st]"
      using Cons.prems call None by (simp_all add: pcall_step_call save_silent [symmetric] save_None)
    from Cons.IH [OF fw, unfolded eqs(1,2)] obtain k where "k \<le> length sts" "map dStep (kCompleted (runCp r')) = map dStep (kCompleted (runCp ?r2)) @ map sName (take k sts)"
      "fst (run_steps e (take k sts) (x, w)) = None"
      "if res = ok then k = length sts else k < length sts \<and> fst (run_steps e (take (Suc k) sts) (x, w)) \<noteq> None"
      by blast
    with eqs call None show ?thesis by (intro exI [of _ "Suc k"]) (simp split: if_splits)
  qed
qed simp

section \<open>Compensation over several attempts\<close>

lemma todo_after:
  assumes "pl_ok p" and "kCompleted c' = kCompleted c" and "k \<le> length (todo p c)"
    and "kCompensated c' = kCompensated c @ map sName (take k (todo p c))"
  shows "todo p c' = drop k (todo p c)"
proof -
  let ?T = "todo p c"
  have dist: "distinct (map sName ?T)"
    using completed_distinct [OF assms(1)] by (simp add: todo_def distinct_map_filter)
  have "todo p c' = filter (\<lambda>s. sName s \<notin> sName ` set (take k ?T)) ?T"
    unfolding todo_def assms(2,4) by (auto simp: filter_filter intro!: filter_cong)
  also have "\<dots> = filter (\<lambda>s. sName s \<notin> sName ` set (take k ?T)) (take k ?T @ drop k ?T)"
    by simp
  also have "\<dots> = drop k ?T"
  proof -
    have "distinct (map sName (take k ?T @ drop k ?T))" using dist by simp
    then have "sName ` set (take k ?T) \<inter> sName ` set (drop k ?T) = {}"
      by (simp only: map_append distinct_append set_map)
    then have "\<forall>s \<in> set (drop k ?T). sName s \<notin> sName ` set (take k ?T)" by blast
    then show ?thesis by (simp only: filter_append) (simp add: filter_empty_conv filter_id_conv)
  qed
  finally show ?thesis .
qed

text \<open>When no compensation and no save fails, none is left owing.\<close>

lemma comp_loop_all:
  assumes "\<And>st fn r. st \<in> set sts \<Longrightarrow> sCompensate st = Some fn \<Longrightarrow> fst (pcall e st fn r) = ok"
    and "\<And>r. fst (save e persist r) = ok"
    and "comp_loop e p persist did sts r = (err, r')"
  shows "kCompensated (runCp r') = kCompensated (runCp r) @ map sName (filter (owes did) sts) \<and> IsPermanent err"
  using assms(3,1)
proof (induction rule: comp_loop_induct)
  case (finished r)
  show ?case using comp_loop_snd(3) [of e p persist did r] by (simp del: comp_loop.simps)
next
  case (call_fails st sts r fn err0 r1)
  from call_fails(4) [of st fn r] call_fails(2,3) show ?case by simp
next
  case (save_fails st sts r fn r1 serr r2)
  then show ?case using assms(2) [of "mark_compensated (sName st) r1"] by simp
next
  case (again st sts r fn r1 r2 err r')
  then have "runCp r2 = (runCp r)\<lparr>kCompensated := kCompensated (runCp r) @ [sName st], kState := xState (runX r1)\<rparr>"
    by (simp add: save_frame(1) pcall_frame mark_compensated_def)
  moreover from again have "kCompensated (runCp r') = kCompensated (runCp r2) @ map sName (filter (owes did) sts) \<and> IsPermanent err"
    by simp
  ultimately show ?case using again(1) by simp
qed simp

section \<open>Live processing over a store\<close>

definition holds_input :: "Input \<Rightarrow> Record \<Rightarrow> bool" where
  "holds_input inp r \<longleftrightarrow> rID r = iID inp \<and> rSource r = iSource inp \<and> rKey r = iKey inp \<and> rValue r = iValue inp
     \<and> rHeaders r = iHeaders inp \<and> rOrderKey r = iOrderKey inp"

lemma stored_input:
  assumes "stored_as (zero_record\<lparr>rID := iID inp, rState := st, rSource := iSource inp, rKey := iKey inp, rValue := iValue inp,
      rHeaders := iHeaders inp, rOrderKey := iOrderKey inp, rBlockedOn := dp, rLastError := text, rCheckpoint := ck\<rparr>) r"
  shows "holds_input inp r \<and> rState r = st \<and> rBlockedOn r = dp \<and> rCheckpoint r = ck"
  using assms by (simp add: stored_as_def same_payload_def holds_input_def)

lemma live_run_ok:
  assumes "pl_ok p" and "advance e p None (live_run p inp w) = (res, r)"
  shows "cp_ok p ((runCp r)\<lparr>kState := xState (runX r)\<rparr>)"
    and "res = ok \<Longrightarrow> \<exists>x. run_steps e (plSteps p) (runX (live_run p inp w), w) = (None, x, runW r)"
proof -
  have adv: "advance e p (Some silent) (live_run p inp w) = (res, r)" using assms(2) by (simp add: advance_silent)
  with advance_agree [of p silent e silent "live_run p inp w"] assms(1)
  show "cp_ok p ((runCp r)\<lparr>kState := xState (runX r)\<rparr>)" by (simp add: live_run_def)
  assume "res = ok"
  moreover have "forward e p (Some silent) (plSteps p) (live_run p inp w) = (res, r)"
    using adv by (simp add: advance_def live_run_def newCheckpoint_def)
  ultimately show "\<exists>x. run_steps e (plSteps p) (runX (live_run p inp w), w) = (None, x, runW r)"
    using forward_plain by (metis live_run_def prun.select_convs(3))
qed

context append_store
begin

lemma pl_store_safe:
  assumes "inv s" and "pl_store e (append_op ae) inp c st dp text okres s = ((res, err), s')"
  shows "inv s' \<and> (\<forall>i r. content s i = Some r \<longrightarrow> content s' i = Some r)
    \<and> ((res = RFailed \<and> err \<noteq> ok \<and> content s' = content s)
       \<or> (res = okres \<and> err = ok \<and> content s' (iID inp) \<noteq> None
          \<and> (content s (iID inp) = None \<longrightarrow> (\<exists>r. content s' (iID inp) = Some r \<and> holds_input inp r \<and> rState r = st
               \<and> rBlockedOn r = dp \<and> rCheckpoint r = Some (pvEncode e c)))))"
proof -
  let ?r = "zero_record\<lparr>rID := iID inp, rState := st, rSource := iSource inp, rKey := iKey inp, rValue := iValue inp,
      rHeaders := iHeaders inp, rOrderKey := iOrderKey inp, rBlockedOn := dp, rLastError := text, rCheckpoint := Some (pvEncode e c)\<rparr>"
  obtain ans s1 where app: "append_op ae ?r s = (ans, s1)" by fastforce
  have keep: "inv s1 \<and> (\<forall>i r. content s i = Some r \<longrightarrow> content s1 i = Some r)"
    using append_keeps [OF assms(1) app] .
  show ?thesis
  proof (cases ans)
    case (Some x)
    with assms(2) app keep append_error [OF assms(1), of ae ?r] show ?thesis by (auto simp: pl_store_def)
  next
    case None
    with assms(2) app have eqs: "s' = s1" "res = okres" "err = ok" by (simp_all add: pl_store_def)
    have "content s1 (rID ?r) \<noteq> None" using append_ok_stored [OF assms(1)] app None by blast
    moreover have "\<exists>r. content s1 (iID inp) = Some r \<and> holds_input inp r \<and> rState r = st \<and> rBlockedOn r = dp
        \<and> rCheckpoint r = Some (pvEncode e c)" if "content s (iID inp) = None"
    proof -
      obtain r' where r': "stored_as ?r r'" "content s1 = (content s)(rID ?r \<mapsto> r')"
        using append_new [OF assms(1), of ae ?r s1] app None \<open>content s (iID inp) = None\<close> by auto
      then have "content s1 (iID inp) = Some r'" by simp
      with stored_input [OF r'(1)] show ?thesis by blast
    qed
    ultimately show ?thesis using keep eqs by simp
  qed
qed

lemma execute_safe:
  assumes "inv s" and "pl_ok p" and "Execute e p (append_op ae) inp w s = ((res, err), w', s')"
  shows "inv s' \<and> (\<forall>i r. content s i = Some r \<longrightarrow> content s' i = Some r)
    \<and> (case res of
         RDone \<Rightarrow> err = ok \<and> s' = s \<and> (\<exists>x. run_steps e (plSteps p) (runX (live_run p inp w), w) = (None, x, w'))
       | RFailed \<Rightarrow> err \<noteq> ok \<and> content s' = content s
       | _ \<Rightarrow> err = ok \<and> content s' (iID inp) \<noteq> None
           \<and> (content s (iID inp) = None \<longrightarrow> (\<exists>r c. content s' (iID inp) = Some r \<and> holds_input inp r
                \<and> rState r = (if res = RDeferred then Pending else Parked) \<and> rCheckpoint r = Some (pvEncode e c) \<and> cp_ok p c)))"
proof (cases "iID inp = []")
  case True
  with assms show ?thesis by (auto simp: Execute_def)
next
  case False
  obtain ans r where adv: "advance e p None (live_run p inp w) = (ans, r)" by fastforce
  let ?c = "(runCp r)\<lparr>kState := xState (runX r)\<rparr>"
  have "cp_ok p ?c" using live_run_ok(1) [OF assms(2) adv] .
  then have ck: "\<exists>c. pvEncode e ?c = pvEncode e c \<and> cp_ok p c" by blast
  show ?thesis
  proof (cases ans)
    case None
    with assms adv False live_run_ok(2) [OF assms(2) adv] show ?thesis by (auto simp: Execute_def)
  next
    case (Some x)
    consider dp e1 b where "as_blocked x = Some (dp, e1, b)"
      | "as_blocked x = None" "IsPermanent (Some x)" | "as_blocked x = None" "\<not> IsPermanent (Some x)"
      by (cases "as_blocked x") auto
    then show ?thesis
    proof cases
      case 1
      with assms(3) adv False Some
      have st: "pl_store e (append_op ae) inp ?c Pending dp (plRedact p x) RDeferred s = ((res, err), s')"
        by (simp add: Execute_def Let_def split: prod.splits)
      show ?thesis using pl_store_safe [OF assms(1) st] ck by (cases res) auto
    next
      case 2
      with assms(3) adv False Some
      have st: "pl_store e (append_op ae) inp ?c Parked [] (plRedact p x) RParked s = ((res, err), s')"
        by (simp add: Execute_def Let_def split: prod.splits)
      show ?thesis using pl_store_safe [OF assms(1) st] ck by (cases res) auto
    next
      case 3
      with assms adv False Some show ?thesis by (auto simp: Execute_def)
    qed
  qed
qed

end

section \<open>Properties\<close>

text \<open>
  Example pipelines.  The world is the list of calls made, newest first.  \<open>ex_step n a\<close> records its name
  and ends as \<open>a\<close>; its compensation, if it has one, records \<open>undo-n\<close>.
\<close>

type_synonym log = "string list"

definition ex_fn_of :: "string \<Rightarrow> fn_outcome \<Rightarrow> log step_fn" where
  "ex_fn_of n a t x w = (a, AList.update n (Some n) (xState x), n # w)"

definition no_retry :: Policy where
  "no_retry = \<lparr>MaxRetries = 0, BackoffOf = None, Retryable = None\<rparr>"

definition ex_step :: "string \<Rightarrow> fn_outcome \<Rightarrow> bool \<Rightarrow> log Step" where
  "ex_step n a undo = \<lparr>sName = n, sDependency = [], sBreaker = None, sTimeout = 0, sRetry = no_retry, sRun = ex_fn_of n a,
     sCompensate = (if undo then Some (ex_fn_of (''undo-'' @ n) FnOk) else None)\<rparr>"

definition ex_pipe :: "log Step list \<Rightarrow> log Pipeline" where
  "ex_pipe sts = \<lparr>plName = ''orders'', plVersion = ''v1'', plSteps = sts, plSaga = True, plRedact = (\<lambda>_. ''redacted'')\<rparr>"

definition ex_penv :: "checkpoint \<Rightarrow> log pipe_env" where
  "ex_penv c = \<lparr>pvBreaker = (\<lambda>_ _. ex_pb), pvSetBreaker = (\<lambda>_ _ w. w), pvAllow = (\<lambda>_. ex_allow 0), pvFinish = (\<lambda>_. ex_fn),
     pvBudget = (\<lambda>_ _. None), pvSetBudget = (\<lambda>_ _ w. w), pvCtxErr = (\<lambda>_. None), pvWait = (\<lambda>_ w. (False, w)), pvNow = (\<lambda>_. 7),
     pvEncode = (\<lambda>_. ''json''), pvDecode = (\<lambda>b. if b = ''json'' then Some c else None)\<rparr>"

definition ex_in :: Input where
  "ex_in = \<lparr>iID = ''m1'', iSource = zero_source, iKey = None, iValue = Some ''v'', iHeaders = [], iOrderKey = ''k''\<rparr>"

definition outage :: fn_outcome where "outage = FnErr (EText ''down'')"
definition declined :: fn_outcome where "declined = FnErr (EPermanent (EText ''declined''))"

lemmas pipe_defs = ex_fn_of_def no_retry_def ex_step_def ex_pipe_def ex_penv_def ex_in_def outage_def declined_def

lemmas pipe_eval = pipe_defs Execute_def advance_def live_run_def newCheckpoint_def pcall_def guarded_def attempt_def save_def
  failed_def compensate_def classify_def step_dependency_def IsPermanent_def pl_store_def
  phaseForward_def phaseCompensating_def checkpointVersion_def

definition ex_cp :: checkpoint where
  "ex_cp = \<lparr>kV = 1, kPipeline = ''orders'', kVersion = ''v1'', kCompleted = [\<lparr>dStep = ''a'', dAt = 1\<rparr>, \<lparr>dStep = ''b'', dAt = 2\<rparr>],
     kPhase = ''compensating'', kCompensated = [''b''], kFailedStep = ''c'', kFailReason = ''declined'', kEpoch = 0, kState = []\<rparr>"

abbreviation ex_abc :: "bool \<Rightarrow> fn_outcome \<Rightarrow> log Pipeline" where
  "ex_abc undo z \<equiv> ex_pipe [ex_step ''a'' FnOk undo, ex_step ''b'' FnOk True, ex_step ''c'' z True]"

lemma ex_abc_ok: "pl_ok (ex_abc undo a)"
  by (simp add: pl_ok_def pipe_defs StepNames_def)

text \<open>
  C18: \<open>Execute\<close> says \<open>Done\<close> only when every step has run, in order and each ending well; it says
  \<open>Deferred\<close> or \<open>Parked\<close> only when the message is in the store (a message not stored before is there
  with its own payload, waiting or parked, and a checkpoint of this pipeline), and with \<open>Failed\<close> there is an
  error and the store's content is as before.  No record stored before is lost or altered.
\<close>

theorem execute_acknowledges_safely:
  assumes "ms_ok s" and "pl_ok p" and "Execute e p (ms_Append ce) inp w s = ((res, err), w', s')"
  shows "ms_ok s' \<and> (\<forall>i r. ms_content s i = Some r \<longrightarrow> ms_content s' i = Some r)
    \<and> (case res of
         RDone \<Rightarrow> err = ok \<and> s' = s \<and> (\<exists>x. run_steps e (plSteps p) (runX (live_run p inp w), w) = (None, x, w'))
       | RFailed \<Rightarrow> err \<noteq> ok \<and> ms_content s' = ms_content s
       | _ \<Rightarrow> err = ok \<and> ms_content s' (iID inp) \<noteq> None
           \<and> (ms_content s (iID inp) = None \<longrightarrow> (\<exists>r c. ms_content s' (iID inp) = Some r \<and> holds_input inp r
                \<and> rState r = (if res = RDeferred then Pending else Parked) \<and> rCheckpoint r = Some (pvEncode e c) \<and> cp_ok p c)))"
  by (rule mem.execute_safe [OF assms])

theorem execute_acknowledges_safely_witness:
  "let q = Execute (ex_penv ex_cp) (ex_abc True outage) (ms_Append (ex_env 1 [])) ex_in [] (NewMemoryStore ex_opts)
   in fst (fst q) = RDeferred \<and> fst (snd q) = [''c'', ''b'', ''a''] \<and> ms_content (snd (snd q)) ''m1'' \<noteq> None"
proof -
  let ?q = "Execute (ex_penv ex_cp) (ex_abc True outage) (ms_Append (ex_env 1 [])) ex_in [] (NewMemoryStore ex_opts)"
  have eval: "fst (fst ?q) = RDeferred" "fst (snd ?q) = [''c'', ''b'', ''a'']"
    by (simp_all add: pipe_eval ex_defs ms_eval)
  show ?thesis
    using execute_acknowledges_safely [OF ms_ok_new ex_abc_ok, of "ex_penv ex_cp" True outage "ex_env 1 []" ex_in "[]" ex_opts
       "fst (fst ?q)" "snd (fst ?q)" "fst (snd ?q)" "snd (snd ?q)"] eval
    by (simp add: ex_in_def)
qed

text \<open>
  C19: resuming a stored record never runs a completed step again: replacing the work of the steps the
  checkpoint records as completed (of every step, when it is compensating) by anything at all makes no
  difference to what the handler answers or does.
\<close>

theorem completed_steps_not_rerun:
  assumes "load e p (rCheckpoint rec) = Inr c" and "same_from n p q"
    and "kPhase c = phaseCompensating \<or> n \<le> length (kCompleted c)"
  shows "Handler e q ckpt rec w = Handler e p ckpt rec w"
proof -
  have "advance e q (Some ckpt) r = advance e p (Some ckpt) r" if "runCp r = c" for r
    using advance_same [OF assms(2), of r] assms(3) that by auto
  with assms(1) show ?thesis by (simp add: Handler_def load_same [OF assms(2)])
qed

definition ex_fwd :: checkpoint where
  "ex_fwd = ex_cp\<lparr>kPhase := ''forward'', kCompensated := [], kFailedStep := [], kFailReason := []\<rparr>"

definition ex_stored :: Record where
  "ex_stored = zero_record\<lparr>rID := ''m1'', rCheckpoint := Some ''json''\<rparr>"

lemmas ex_cp_defs = ex_cp_def ex_fwd_def ex_stored_def phaseForward_def phaseCompensating_def checkpointVersion_def

lemma ex_load: "load (ex_penv ex_fwd) (ex_abc undo a) (rCheckpoint ex_stored) = Inr ex_fwd"
  by (simp add: load_def ex_cp_defs pipe_defs zero_record_def)

theorem completed_steps_not_rerun_witness:
  "let p = ex_abc True FnOk; q = ex_pipe [ex_step ''a'' FnOk True, (ex_step ''b'' FnOk True)\<lparr>sRun := ex_fn_of ''again'' declined\<rparr>, ex_step ''c'' FnOk True]
   in Handler (ex_penv ex_fwd) q silent ex_stored [] = Handler (ex_penv ex_fwd) p silent ex_stored []
      \<and> snd (Handler (ex_penv ex_fwd) p silent ex_stored []) = [''c'']"
proof -
  let ?q = "ex_pipe [ex_step ''a'' FnOk True, (ex_step ''b'' FnOk True)\<lparr>sRun := ex_fn_of ''again'' declined\<rparr>, ex_step ''c'' FnOk True]"
  have "same_from 2 (ex_abc True FnOk) ?q"
    by (simp add: same_from_def ex_pipe_def ex_step_def erase_run_def)
  then have "Handler (ex_penv ex_fwd) ?q silent ex_stored [] = Handler (ex_penv ex_fwd) (ex_abc True FnOk) silent ex_stored []"
    by (rule completed_steps_not_rerun [OF ex_load]) (simp add: ex_cp_defs)
  moreover have "snd (Handler (ex_penv ex_fwd) (ex_abc True FnOk) silent ex_stored []) = [''c'']"
    by (simp add: Handler_def ex_load) (simp add: ex_cp_defs pipe_eval silent_def Let_def)
  ultimately show ?thesis by simp
qed

text \<open>
  C22: every checkpoint a run hands to the store is one of this pipeline: the completed steps are its
  first steps in order, and the steps recorded as compensated are completed ones that can be compensated,
  each recorded once.  (Two ways of saving that agree on such checkpoints cannot be told apart.)  The
  checkpoint the run ends with is one of them too.
\<close>

theorem written_checkpoints_fit:
  assumes "pl_ok p" and "cp_ok p (runCp r)"
    and "\<And>c w. cp_ok p c \<Longrightarrow> f (Some (pvEncode e c)) w = g (Some (pvEncode e c)) w"
  shows "advance e p (Some f) r = advance e p (Some g) r \<and> cp_ok p (runCp (snd (advance e p (Some g) r)))"
  using assms advance_agree [of p f e g r] by blast

theorem written_checkpoints_fit_witness:
  "cp_ok (ex_abc True declined) (runCp (snd (advance (ex_penv ex_cp) (ex_abc True declined) (Some silent)
     (live_run (ex_abc True declined) ex_in []))))"
  using written_checkpoints_fit [OF ex_abc_ok, of True declined "live_run (ex_abc True declined) ex_in []" silent "ex_penv ex_cp" silent]
  by (simp add: live_run_def)


definition ex_comp_run :: "log prun" where
  "ex_comp_run = (live_run (ex_abc True declined) ex_in [])\<lparr>runCp := ex_cp\<rparr>"


section \<open>Resuming, rewinding and keys\<close>

lemma Handler_forward:
  assumes "load e p (rCheckpoint rec) = Inr c" and "kPhase c = phaseForward" and "Handler e p silent rec w = (res, w')"
  defines "x \<equiv> \<lparr>xID = rID rec, xSource = rSource rec, xKey = rKey rec, xValue = rValue rec, xHeaders = rHeaders rec,
      xAttempt = rAttempts rec, xStep = [], xEpoch = kEpoch c, xState = kState c\<rparr>"
  shows "(res = ok) = (fst (run_steps e (drop (length (kCompleted c)) (plSteps p)) (x, w)) = None)"
proof -
  let ?r = "\<lparr>runX = x, runCp = c, runW = w\<rparr>"
  obtain res' r' where fw: "forward e p (Some silent) (drop (length (kCompleted c)) (plSteps p)) ?r = (res', r')" by fastforce
  with assms have "res = res'" by (simp add: Handler_def advance_def x_def)
  with forward_plain [OF fw] show ?thesis by simp
qed


text \<open>A step that works once the world says \<open>up\<close>.\<close>

definition ex_flaky :: "log Pipeline" where
  "ex_flaky = ex_pipe [ex_step ''a'' FnOk True, ex_step ''b'' FnOk True, (ex_step ''c'' FnOk True)\<lparr>sRun :=
     \<lambda>t x w. ex_fn_of ''c'' (if ''up'' \<in> set w then FnOk else outage) t x w\<rparr>]"

definition ex_blocked :: "log prun" where
  "ex_blocked = snd (advance (ex_penv ex_cp) ex_flaky None (live_run ex_flaky ex_in []))"

definition ex_saved :: checkpoint where
  "ex_saved = (runCp ex_blocked)\<lparr>kState := xState (runX ex_blocked)\<rparr>"

lemma ex_flaky_ok: "pl_ok ex_flaky"
  by (simp add: pl_ok_def pipe_defs StepNames_def ex_flaky_def)


lemma step_index_spec:
  "distinct (map sName sts) \<Longrightarrow> step_index i n sts acc =
     (if n \<in> set (map sName sts) then Some (i + length (takeWhile (\<lambda>s. sName s \<noteq> n) sts)) else acc)"
proof (induction sts arbitrary: i acc)
  case (Cons s sts)
  show ?case
  proof (cases "sName s = n")
    case True
    then have "n \<notin> set (map sName sts)" using Cons.prems by auto
    with Cons True show ?thesis by simp
  next
    case False
    with Cons show ?thesis by auto
  qed
qed simp

lemma takeWhile_index:
  "distinct (map f xs) \<Longrightarrow> i < length xs \<Longrightarrow> length (takeWhile (\<lambda>x. f x \<noteq> f (xs ! i)) xs) = i"
proof (induction xs arbitrary: i)
  case (Cons x xs)
  show ?case
  proof (cases i)
    case (Suc j)
    with Cons.prems have "f (xs ! j) \<in> f ` set xs" "f x \<notin> f ` set xs" by simp_all
    then have "f x \<noteq> f (xs ! j)" by metis
    with Suc Cons show ?thesis by simp
  qed simp
qed simp

lemma step_index_at:
  "pl_ok p \<Longrightarrow> i < length (plSteps p) \<Longrightarrow> step_index 0 (sName (plSteps p ! i)) (plSteps p) None = Some i"
  by (auto simp: step_index_spec takeWhile_index pl_ok_def StepNames_def)

lemma find_take:
  "k \<le> length xs \<Longrightarrow> (find P (take k xs) = None) = (\<forall>i < k. \<not> P (xs ! i))"
  by (auto simp: find_None_iff in_set_conv_nth)

text \<open>
  \<open>Rewind\<close> refuses exactly the steps it should: a name the pipeline does not have, a step whose
  predecessors have not completed, and a step after one that was compensated.  Otherwise the rewritten
  checkpoint is one the pipeline loads, runs forward, resumes at the step named, keeps the saved data and
  forgets failure and compensation; its epoch counts up by one if anything had been compensated.
\<close>

theorem rewind_exact:
  assumes "pl_ok p" and "load e p raw = Inr c"
  shows "(t \<notin> set (StepNames p) \<longrightarrow> (\<exists>er. Rewind e p raw t = Inl er \<and> errors_Is er ErrUnknownStep))
    \<and> (\<forall>i < length (plSteps p). sName (plSteps p ! i) = t \<longrightarrow>
        (if length (kCompleted c) < i then \<exists>er. Rewind e p raw t = Inl er \<and> errors_Is er ErrCannotSkipForward
         else if \<exists>j < i. dStep (kCompleted c ! j) \<in> set (kCompensated c)
         then \<exists>er. Rewind e p raw t = Inl er \<and> errors_Is er ErrStepUndone
         else \<exists>c'. Rewind e p raw t = Inr (pvEncode e c') \<and> fits p c' \<and> kPhase c' = phaseForward \<and> kCompensated c' = []
            \<and> kCompleted c' = take i (kCompleted c) \<and> kState c' = kState c
            \<and> kEpoch c' = (if kCompensated c = [] then kEpoch c else kEpoch c + 1)))"
proof (intro conjI allI impI)
  assume "t \<notin> set (StepNames p)"
  with assms show "\<exists>er. Rewind e p raw t = Inl er \<and> errors_Is er ErrUnknownStep"
    by (auto simp: Rewind_def Rewind_cp_def ctext_def step_index_spec pl_ok_def StepNames_def)
next
  fix i
  assume i: "i < length (plSteps p)" and t: "sName (plSteps p ! i) = t"
  let ?c = "c\<lparr>kEpoch := (if kCompensated c \<noteq> [] then kEpoch c + 1 else kEpoch c), kCompleted := take i (kCompleted c),
    kCompensated := [], kPhase := phaseForward, kFailedStep := [], kFailReason := []\<rparr>"
  have idx: "step_index 0 t (plSteps p) None = Some i" using step_index_at [OF assms(1) i] t by simp
  have f: "fits p c" using load_fits [OF assms(2)] .
  have "map dStep (take i (kCompleted c)) = take (min i (length (kCompleted c))) (StepNames p)"
    using f by (simp add: fits_def take_map [symmetric])
  then have fits': "fits p ?c" using f by (simp add: fits_def min.commute min_le_iff_disj)
  show "if length (kCompleted c) < i then \<exists>er. Rewind e p raw t = Inl er \<and> errors_Is er ErrCannotSkipForward
         else if \<exists>j < i. dStep (kCompleted c ! j) \<in> set (kCompensated c)
         then \<exists>er. Rewind e p raw t = Inl er \<and> errors_Is er ErrStepUndone
         else \<exists>c'. Rewind e p raw t = Inr (pvEncode e c') \<and> fits p c' \<and> kPhase c' = phaseForward \<and> kCompensated c' = []
            \<and> kCompleted c' = take i (kCompleted c) \<and> kState c' = kState c
            \<and> kEpoch c' = (if kCompensated c = [] then kEpoch c else kEpoch c + 1)"
  proof (cases "length (kCompleted c) < i")
    case True
    with assms(2) idx show ?thesis by (simp add: Rewind_def Rewind_cp_def ctext_def)
  next
    case False
    let ?f = "find (\<lambda>d. dStep d \<in> set (kCompensated c)) (take i (kCompleted c))"
    have none: "(?f = None) = (\<forall>j < i. dStep (kCompleted c ! j) \<notin> set (kCompensated c))"
      using False by (intro find_take) simp
    show ?thesis
    proof (cases ?f)
      case (Some d)
      then have "Rewind e p raw t = Inl (ctext ''pipeline: an earlier step was already compensated'' ErrStepUndone
               (quote (dStep d) @ '' was undone, so resume at '' @ quote (dStep d) @ '' or earlier''))"
        using assms(2) idx False by (simp add: Rewind_def Rewind_cp_def)
      with none Some False show ?thesis by (auto simp: ctext_def)
    next
      case None
      then have "Rewind e p raw t = Inr (pvEncode e ?c)"
        using assms(2) idx False by (simp add: Rewind_def Rewind_cp_def)
      with none None False fits' show ?thesis by (auto intro!: exI [of _ ?c])
    qed
  qed
qed

lemma ex_load_cp: "load (ex_penv ex_cp) (ex_abc undo a) (Some ''json'') = Inr ex_cp"
  by (simp add: load_def ex_cp_defs pipe_defs)

theorem rewind_exact_witness:
  "Rewind (ex_penv ex_cp) (ex_abc True declined) (Some ''json'') ''a'' = Inr ''json''
   \<and> (\<exists>er. Rewind (ex_penv ex_cp) (ex_abc True declined) (Some ''json'') ''c'' = Inl er \<and> errors_Is er ErrStepUndone)
   \<and> (\<exists>er. Rewind (ex_penv ex_cp) (ex_abc True declined) (Some ''json'') ''z'' = Inl er \<and> errors_Is er ErrUnknownStep)"
proof -
  have und: "\<exists>j < 2. dStep (kCompleted ex_cp ! j) \<in> set (kCompensated ex_cp)" "length (kCompleted ex_cp) = 2"
    by (rule exI [of _ 1], simp add: ex_cp_def) (simp add: ex_cp_def)
  have c: "\<exists>er. Rewind (ex_penv ex_cp) (ex_abc True declined) (Some ''json'') ''c'' = Inl er \<and> errors_Is er ErrStepUndone"
    using rewind_exact [of "ex_abc True declined" "ex_penv ex_cp" "Some ''json''" ex_cp "''c''", OF ex_abc_ok ex_load_cp, THEN conjunct2, rule_format, of 2]
    und by (simp add: ex_pipe_def ex_step_def)
  have z: "\<exists>er. Rewind (ex_penv ex_cp) (ex_abc True declined) (Some ''json'') ''z'' = Inl er \<and> errors_Is er ErrUnknownStep"
    using rewind_exact [of "ex_abc True declined" "ex_penv ex_cp" "Some ''json''" ex_cp "''z''", OF ex_abc_ok ex_load_cp] by (simp add: pipe_defs StepNames_def)
  have a: "Rewind (ex_penv ex_cp) (ex_abc True declined) (Some ''json'') ''a'' = Inr ''json''"
    using rewind_exact [of "ex_abc True declined" "ex_penv ex_cp" "Some ''json''" ex_cp "''a''", OF ex_abc_ok ex_load_cp, THEN conjunct2, rule_format, of 0]
    by (auto simp: ex_cp_def pipe_defs)
  show ?thesis using a c z by blast
qed

text \<open>Keys: the hashed text determines message, step and epoch when the names hold no NUL byte.\<close>

lemma dec_digits_no_nul: "CHR 0x00 \<notin> set (dec_digits n)"
proof (induction n rule: dec_digits.induct)
  case (1 n)
  have "(CHR 0x00 :: char) \<noteq> char_of (48 + k)" if "k < 10" for k :: nat
  proof
    assume "CHR 0x00 = (char_of (48 + k) :: char)"
    then have "of_char (CHR 0x00) = (of_char (char_of (48 + k) :: char) :: nat)" by simp
    with that show False by simp
  qed
  with 1 show ?case by (cases "n < 10") (simp_all add: dec_digits_small dec_digits_snoc)
qed

lemma split_nul:
  assumes "a @ CHR 0x00 # b = a' @ CHR 0x00 # b'" and "CHR 0x00 \<notin> set a" and "CHR 0x00 \<notin> set a'"
  shows "a = a' \<and> b = b'"
  using assms
proof (induction a arbitrary: a')
  case Nil
  then show ?case by (cases a') auto
next
  case (Cons c a)
  then show ?case by (cases a') auto
qed

text \<open>
  Two idempotency keys are hashes of the same text only for the same message, the same step and the
  same epoch (all epochs up to zero are the first), provided identifiers and step names hold no NUL byte.
\<close>

theorem idempotency_inputs_distinct:
  assumes "key_input i s ep = key_input i' s' ep'"
    and "CHR 0x00 \<notin> set i" and "CHR 0x00 \<notin> set i'" and "CHR 0x00 \<notin> set s" and "CHR 0x00 \<notin> set s'"
  shows "i = i' \<and> s = s' \<and> max 0 ep = max 0 ep'"
proof -
  let ?t = "\<lambda>ep. if 0 < ep then CHR 0x00 # ''epoch='' @ FormatInt ep else []"
  have "i @ CHR 0x00 # (s @ ?t ep) = i' @ CHR 0x00 # (s' @ ?t ep')"
    using assms(1) by (simp add: key_input_def Let_def split: if_splits)
  from split_nul [OF this assms(2,3)] have i: "i = i'" and rest: "s @ ?t ep = s' @ ?t ep'" by auto
  show ?thesis
  proof (cases "0 < ep \<or> 0 < ep'")
    case True
    then show ?thesis
    proof (cases "0 < ep \<and> 0 < ep'")
      case True
      with rest have "s @ CHR 0x00 # (''epoch='' @ FormatInt ep) = s' @ CHR 0x00 # (''epoch='' @ FormatInt ep')" by simp
      from split_nul [OF this assms(4,5)] i show ?thesis by (auto dest: FormatInt_inj)
    next
      case False
      have "CHR 0x00 \<in> set (s @ ?t ep) \<and> CHR 0x00 \<notin> set (s' @ ?t ep') \<or> CHR 0x00 \<notin> set (s @ ?t ep) \<and> CHR 0x00 \<in> set (s' @ ?t ep')"
        using True False assms(4,5) by auto
      with rest show ?thesis by metis
    qed
  qed (use i rest in simp)
qed

theorem idempotency_inputs_distinct_witness:
  "key_input ''m1'' ''a'' 0 = key_input ''m1'' ''a'' (-1) \<and> ''m1'' = ''m1'' \<and> ''a'' = ''a'' \<and> max 0 (0::int) = max 0 (-1)"
  using idempotency_inputs_distinct [of "''m1''" "''a''" 0 "''m1''" "''a''" "-1"] by (simp add: key_input_def)

text \<open>
  Once any step of a record was compensated, rewinding it gives every step a new idempotency key: also a
  completed step that has no compensation and was not undone, although it was really done and runs again.
\<close>

theorem rewind_renews_every_key:
  assumes "load e p raw = Inr c" and "0 \<le> kEpoch c" and "kCompensated c \<noteq> []" and "Rewind_cp p c t = Inr c'"
    and "CHR 0x00 \<notin> set i" and "CHR 0x00 \<notin> set s"
  shows "key_input i s (kEpoch c') \<noteq> key_input i s (kEpoch c)"
proof -
  have ep: "kEpoch c' = kEpoch c + 1"
    using assms(3,4) by (auto simp: Rewind_cp_def split: option.splits if_splits)
  have "FormatInt (kEpoch c + 1) \<noteq> FormatInt (kEpoch c)" using FormatInt_inj [of "kEpoch c + 1" "kEpoch c"] by auto
  with ep assms(2) show ?thesis by (auto simp: key_input_def Let_def)
qed

theorem rewind_renews_every_key_witness:
  "let p = ex_abc False declined; c' = projr (Rewind_cp p ex_cp ''a'')
   in sCompensate (plSteps p ! 0) = None \<and> ''a'' \<notin> set (kCompensated ex_cp) \<and> ''a'' \<in> set (map dStep (kCompleted ex_cp))
      \<and> kCompleted c' = [] \<and> key_input ''m1'' ''a'' (kEpoch c') \<noteq> key_input ''m1'' ''a'' (kEpoch ex_cp)"
proof -
  let ?p = "ex_abc False declined"
  have rw: "\<exists>c'. Rewind_cp ?p ex_cp ''a'' = Inr c' \<and> kCompleted c' = []"
    by (simp add: Rewind_cp_def ex_cp_defs pipe_defs)
  then obtain c' where c': "Rewind_cp ?p ex_cp ''a'' = Inr c'" "kCompleted c' = []" by blast
  have "key_input ''m1'' ''a'' (kEpoch c') \<noteq> key_input ''m1'' ''a'' (kEpoch ex_cp)"
    by (rule rewind_renews_every_key [OF ex_load_cp _ _ c'(1)]) (simp_all add: ex_cp_def)
  with c' show ?thesis by (simp add: Let_def) (simp add: pipe_defs ex_cp_def)
qed

text \<open>
  A step with in-process retries loses the permanent mark of its error.  When the step function returns
  \<open>retry.Permanent(err)\<close> and the step's retry policy is in use, the run reports the step as blocked on its
  dependency, so that the message is deferred and tried again, where the same step without retries fails
  the run permanently.
\<close>

theorem retries_lose_permanent:
  assumes "0 < MaxRetries (sRetry st)" and "Retryable (sRetry st) = None"
    and "guarded e st (sRun st) ((runX r)\<lparr>xStep := sName st\<rparr>, runW r) = (Some (EPermanent err), x1, w1)"
    and "\<not> has_permanent err" and "\<And>w. pvCtxErr e w = ok"
  shows "\<exists>d rf. fst (forward e p persist (st # sts) r) = Some (EBlocked d err rf)
    \<and> \<not> IsPermanent (fst (forward e p persist (st # sts) r))"
proof -
  let ?x = "(runX r)\<lparr>xStep := sName st\<rparr>"
  have run: "run_fn (call_retry_env e st (sRun st)) (?x, runW r) = (Some (EPermanent err), x1, w1)"
    using assms(3) by (simp add: call_retry_env_def)
  have "\<not> may_retry (call_retry_env e st (sRun st)) (sRetry st) DefaultRetryable 0 (EPermanent err) (x1, w1)"
    by (simp add: may_retry_def DefaultRetryable_def IsPermanent_def)
  then have "Do (call_retry_env e st (sRun st)) (sRetry st) bud (?x, runW r) = (Some err, [], Deposit bud, x1, w1)" for bud
    using do_loop_giveup [OF run] assms(2) by (simp add: Do_def unwrapPermanent_def)
  then obtain w2 where "pcall e st (sRun st) r = (Some err, r\<lparr>runX := x1, runW := w2\<rparr>)"
    using assms(1) by (simp add: pcall_def Let_def)
  with assms(4,5) show ?thesis
    by (auto simp: failed_def classify_def IsPermanent_def Let_def)
qed

definition ex_retry_step :: "int \<Rightarrow> log Step" where
  "ex_retry_step n = (ex_step ''a'' declined False)\<lparr>sRetry := no_retry\<lparr>MaxRetries := n\<rparr>\<rparr>"

theorem retries_lose_permanent_witness:
  "(\<exists>d rf. fst (forward (ex_penv ex_cp) (ex_pipe []) None [ex_retry_step 2] (live_run (ex_pipe []) ex_in []))
      = Some (EBlocked d (EText ''declined'') rf))
   \<and> IsPermanent (fst (forward (ex_penv ex_cp) (ex_pipe []) None [ex_retry_step 0] (live_run (ex_pipe []) ex_in [])))"
proof -
  have "\<exists>d rf. fst (forward (ex_penv ex_cp) (ex_pipe []) None [ex_retry_step 2] (live_run (ex_pipe []) ex_in []))
      = Some (EBlocked d (EText ''declined'') rf)"
    using retries_lose_permanent [of "ex_retry_step 2" "ex_penv ex_cp" "live_run (ex_pipe []) ex_in []" "EText ''declined''" _ _ "ex_pipe []" None "[]"]
    by (simp add: ex_retry_step_def pipe_eval)
  moreover have "IsPermanent (fst (forward (ex_penv ex_cp) (ex_pipe []) None [ex_retry_step 0] (live_run (ex_pipe []) ex_in [])))"
    by (simp add: ex_retry_step_def pipe_eval Let_def anyCompensation_def)
  ultimately show ?thesis by blast
qed

lemma load_decoded:
  assumes "b \<noteq> []" and "pvDecode e b = Some c"
  shows "if fits p c then load e p (Some b) = Inr c else \<exists>t. load e p (Some b) = Inl (mismatch t)"
proof (cases "length (kCompleted c) \<le> length (plSteps p)")
  case True
  show ?thesis
  proof (cases "load_steps 0 (kCompleted c) (plSteps p)")
    case None
    then have "map dStep (kCompleted c) = take (length (kCompleted c)) (StepNames p)"
      using load_steps_ok [OF True, of 0] by (simp add: StepNames_def)
    with None True assms show ?thesis by (auto simp: load_def fits_def)
  next
    case (Some er)
    then have "\<not> fits p c" using load_steps_ok [OF True, of 0] by (auto simp: fits_def StepNames_def)
    with Some assms True load_steps_mismatch [OF Some] show ?thesis by (auto simp: load_def)
  qed
qed (use assms in \<open>auto simp: load_def fits_def\<close>)

text \<open>
  C23: \<open>load\<close> answers a fresh checkpoint for a record stored without progress, and otherwise the decoded
  checkpoint exactly when it fits the deployed pipeline: format, pipeline name, phase, and completed steps
  that are the pipeline's first ones in order.  Every refusal is a permanent \<open>ErrPipelineMismatch\<close>.
\<close>

theorem load_exact:
  "(load e p raw = Inr c) = (if raw = None \<or> raw = Some [] then c = newCheckpoint p
      else pvDecode e (the raw) = Some c \<and> fits p c)
   \<and> (load e p raw = Inl er \<longrightarrow> IsPermanent (Some er) \<and> errors_Is er ErrPipelineMismatch)"
proof (cases "raw = None \<or> raw = Some []")
  case True
  then show ?thesis by (auto simp: load_def)
next
  case False
  then obtain b where b: "raw = Some b" "b \<noteq> []" by (cases raw) auto
  show ?thesis
  proof (cases "pvDecode e b")
    case None
    with b show ?thesis by (auto simp: load_def IsPermanent_def)
  next
    case (Some c0)
    with b load_decoded [OF b(2) Some, of p] show ?thesis by (auto simp: IsPermanent_def split: if_splits)
  qed
qed

theorem load_exact_witness:
  "load (ex_penv ex_cp) (ex_abc True FnOk) (Some ''json'') = Inr ex_cp \<and> fits (ex_abc True FnOk) ex_cp
   \<and> (\<exists>er. load (ex_penv ex_cp) (ex_pipe [ex_step ''a'' FnOk True]) (Some ''json'') = Inl er \<and> errors_Is er ErrPipelineMismatch)"
proof -
  have "\<exists>er. load (ex_penv ex_cp) (ex_pipe [ex_step ''a'' FnOk True]) (Some ''json'') = Inl er"
    by (simp add: load_def ex_cp_defs pipe_defs)
  then obtain er where er: "load (ex_penv ex_cp) (ex_pipe [ex_step ''a'' FnOk True]) (Some ''json'') = Inl er" ..
  then have "errors_Is er ErrPipelineMismatch"
    using load_exact [of "ex_penv ex_cp" "ex_pipe [ex_step ''a'' FnOk True]" "Some ''json''" ex_cp er] by blast
  with er show ?thesis
    using load_exact [of "ex_penv ex_cp" "ex_abc True FnOk" "Some ''json''" ex_cp undefined] ex_load_cp [of True FnOk] by auto
qed

lemma new_steps_ok:
  assumes "new_steps compile newHTTP rnd i seen own0 specs = Inr (sts, own)"
  shows "map sName sts = map spName specs \<and> distinct (map spName specs) \<and> set (map spName specs) \<inter> set seen = {}
    \<and> [] \<notin> set (map spName specs) \<and> (\<exists>made. own = own0 @ made \<and> length made \<le> length specs)"
  using assms
proof (induction specs arbitrary: i seen own0 sts)
  case (Cons s ss)
  from Cons.prems obtain st sts' own1 where st: "sts = st # sts'" "sName st = spName s" "spName s \<noteq> []" "spName s \<notin> set seen"
    and rest: "new_steps compile newHTTP rnd (i + 1) (spName s # seen) own1 ss = Inr (sts', own)"
    and own1: "own1 = own0 \<or> (\<exists>b. own1 = own0 @ [b])"
    by (auto simp: Let_def split: if_splits sum.splits option.splits)
  from Cons.IH [OF rest] st own1 show ?case by auto
qed simp

text \<open>
  A pipeline that \<open>New\<close> accepts is well formed: it has a name and at least one step, the steps are the
  ones given in the given order, and their names are distinct and not empty.
\<close>

theorem New_well_formed:
  assumes "pl_New compile newHTTP rnd defRedact name version specs saga redactor = Inr (p, own)"
  shows "pl_ok p \<and> StepNames p = map spName specs \<and> plName p = name \<and> plSaga p = saga \<and> length own \<le> length specs"
proof -
  obtain sts where sts: "new_steps compile newHTTP rnd 0 [] [] specs = Inr (sts, own)" "plSteps p = sts" "plName p = name" "name \<noteq> []"
    "specs \<noteq> []" "plSaga p = saga"
    using assms by (auto simp: pl_New_def split: if_splits sum.splits)
  with new_steps_ok [OF sts(1)] show ?thesis by (auto simp: pl_ok_def StepNames_def)
qed

definition ex_spec :: "string \<Rightarrow> (log, unit) StepSpec" where
  "ex_spec n = \<lparr>spName = n, spDependency = [], spBreaker = None, spHealthURL = ''http://h'', spTimeout = 0, spRetry = no_retry,
     spRetries = 0, spRun = Some (ex_fn_of n FnOk), spHTTP = None, spSaveAs = [], spCompensate = None\<rparr>"

theorem New_well_formed_witness:
  "\<exists>p. pl_New (\<lambda>_ _ _. Inl (EText [])) (\<lambda>i _ _. Inr i) id (\<lambda>_. []) ''orders'' ''v1'' [ex_spec ''a'', ex_spec ''b''] True None = Inr (p, [0, 1])
     \<and> pl_ok p \<and> StepNames p = [''a'', ''b'']"
proof -
  have "\<exists>p. pl_New (\<lambda>_ _ _. Inl (EText [])) (\<lambda>i _ _. Inr i) id (\<lambda>_. []) ''orders'' ''v1'' [ex_spec ''a'', ex_spec ''b''] True None = Inr (p, [0, 1])"
    by (simp add: pl_New_def ex_spec_def no_retry_def)
  then obtain p where p: "pl_New (\<lambda>_ _ _. Inl (EText [])) (\<lambda>i _ _. Inr i) id (\<lambda>_. []) ''orders'' ''v1'' [ex_spec ''a'', ex_spec ''b''] True None = Inr (p, [0, 1])" ..
  from New_well_formed [OF p] p show ?thesis by (auto simp: ex_spec_def)
qed

end
