(* ===== verification/GG_Redrive.thy ===== *)
theory GG_Redrive
  imports GG_Breaker GG_Retry GG_Store "HOL-Library.AList"
begin

text \<open>
  \<open>dlq/redrive.go\<close>: the redriver leases stored records whose dependency is usable, hands each to a
  handler and settles the outcome.  Here are its data, the token bucket, one turn of the dispatcher
  (\<open>fill\<close>), the work on one lease (\<open>process\<close>) and the system they form: the dispatcher, the channel and
  the workers as steps over a shared state.

  The store is the record \<open>StoreOps\<close> of its methods over a state \<open>'s\<close>; each call takes an environment
  \<open>'e\<close>.  Rates and tokens are rationals where the code has \<open>float64\<close>.  A map that the code ranges over is
  a list in the order of the iteration.  The events sent to the sink are collected in \<open>rdEvents\<close>.
\<close>

section \<open>The rate limiter\<close>

record limiter =
  lmRate :: rat
  lmBurst :: rat
  lmRampUp :: duration
  lmTokens :: rat
  lmLast :: time
  lmRampStart :: time

definition newLimiter :: "rat \<Rightarrow> int \<Rightarrow> duration \<Rightarrow> limiter" where
  "newLimiter rate burst rampUp = \<lparr>lmRate = rate, lmBurst = of_int burst, lmRampUp = rampUp, lmTokens = of_int burst,
     lmLast = zero_time, lmRampStart = zero_time\<rparr>"

definition factor :: "time \<Rightarrow> limiter \<Rightarrow> rat" where
  "factor now l =
     (if lmRampUp l \<le> 0 \<or> IsZero (lmRampStart l) then 1
      else (let e = time_sub now (lmRampStart l)
            in if lmRampUp l \<le> e then 1 else 1 / 10 + 9 / 10 * of_int e / of_int (lmRampUp l)))"

definition recovered :: "time \<Rightarrow> limiter \<Rightarrow> limiter" where
  "recovered now l = l\<lparr>lmRampStart := now, lmTokens := 0\<rparr>"

definition seconds :: "duration \<Rightarrow> rat" where
  "seconds d = of_int d / 1000000000"

definition trunc :: "rat \<Rightarrow> int" where
  "trunc x = (if 0 \<le> x then \<lfloor>x\<rfloor> else \<lceil>x\<rceil>)"

text \<open>\<open>lim.reserve\<close>: how many tokens are granted and how long to wait if none is.\<close>

definition lim_reserve :: "time \<Rightarrow> int \<Rightarrow> limiter \<Rightarrow> (int \<times> duration) \<times> limiter" where
  "lim_reserve now mx l =
     (if lmRate l \<le> 0 then ((mx, 0), l)
      else
        (let rate = lmRate l * factor now l;
             l1 = (if IsZero (lmLast l) then l
                   else l\<lparr>lmTokens := min (lmBurst l) (lmTokens l + rate * seconds (time_sub now (lmLast l)))\<rparr>);
             l2 = l1\<lparr>lmLast := now\<rparr>
         in if 1 \<le> lmTokens l2
            then (let granted = min mx \<lfloor>lmTokens l2\<rfloor> in ((granted, 0), l2\<lparr>lmTokens := lmTokens l2 - of_int granted\<rparr>))
            else ((0, trunc ((1 - lmTokens l2) / rate * of_int second)), l2)))"

definition lim_give :: "int \<Rightarrow> limiter \<Rightarrow> limiter" where
  "lim_give n l = (if n \<le> 0 \<or> lmRate l \<le> 0 then l else l\<lparr>lmTokens := min (lmBurst l) (lmTokens l + of_int n)\<rparr>)"

section \<open>Configuration and state\<close>

record RedriveConfig =
  rcWorkers :: int
  rcLeaseTTL :: duration
  rcPollInterval :: duration
  rcShutdownTimeout :: duration
  rcMaxAttempts :: int
  rcBackoff :: "Backoff option"
  rcRate :: rat
  rcBurst :: int
  rcRampUp :: duration
  rcRedact :: "(gerror \<Rightarrow> string) option"
  rcOnPark :: "(Record \<Rightarrow> string \<Rightarrow> fn_outcome) option"
  rcOnParkTimeout :: duration

datatype RedriveOutcome = RedriveSucceeded | RedriveRetry | RedriveBlocked | RedriveParked | RedriveLeaseLost

record RedriveEvent =
  evDependency :: string
  evRecordID :: string
  evOutcome :: RedriveOutcome
  evAttempts :: int

record Redriver =
  rdCfg :: RedriveConfig
  rdLim :: limiter
  rdWake :: bool
  rdInflight :: int
  rdLeased :: nat
  rdSucceeded :: nat
  rdRetried :: nat
  rdBlocked :: nat
  rdParked :: nat
  rdLeaseLost :: nat
  rdStoreErrors :: nat
  rdMirrorErrors :: nat
  rdActive :: "string list"
  rdBlockedUntil :: "(string \<times> time) list"
  rdWasUnavailable :: "string list"
  rdEvents :: "RedriveEvent list"

definition with_defaults :: "(int \<Rightarrow> int) \<Rightarrow> (gerror \<Rightarrow> string) \<Rightarrow> RedriveConfig \<Rightarrow> RedriveConfig" where
  "with_defaults rnd defRedact c = c\<lparr>
     rcWorkers := (if rcWorkers c \<le> 0 then 4 else rcWorkers c),
     rcOnParkTimeout := (if rcOnParkTimeout c \<le> 0 then 10 * second else rcOnParkTimeout c),
     rcLeaseTTL := (if rcLeaseTTL c \<le> 0 then 60 * second else rcLeaseTTL c),
     rcPollInterval := (if rcPollInterval c \<le> 0 then 500 * millisecond else rcPollInterval c),
     rcShutdownTimeout := (if rcShutdownTimeout c \<le> 0 then 30 * second else rcShutdownTimeout c),
     rcMaxAttempts := (if rcMaxAttempts c \<le> 0 then 10 else rcMaxAttempts c),
     rcBackoff := (case rcBackoff c of None \<Rightarrow> Some (Jitter rnd (Exponential second (300 * second)) (1 / 2)) | b \<Rightarrow> b),
     rcBurst := (if rcBurst c \<le> 0 then max 1 \<lceil>rcRate c\<rceil> else rcBurst c),
     rcRedact := (case rcRedact c of None \<Rightarrow> Some defRedact | f \<Rightarrow> f)\<rparr>"

definition NewRedriver :: "(int \<Rightarrow> int) \<Rightarrow> (gerror \<Rightarrow> string) \<Rightarrow> bool \<Rightarrow> bool \<Rightarrow> RedriveConfig \<Rightarrow> gerror + Redriver" where
  "NewRedriver rnd defRedact hasStore hasHandler c0 =
     (if \<not> hasStore \<or> \<not> hasHandler then Inl (EText ''dlq: RedriveConfig needs a Store and a Handler'')
      else (let c = with_defaults rnd defRedact c0
            in Inr \<lparr>rdCfg = c, rdLim = newLimiter (rcRate c) (rcBurst c) (rcRampUp c), rdWake = False, rdInflight = 0,
                 rdLeased = 0, rdSucceeded = 0, rdRetried = 0, rdBlocked = 0, rdParked = 0, rdLeaseLost = 0, rdStoreErrors = 0,
                 rdMirrorErrors = 0, rdActive = [], rdBlockedUntil = [], rdWasUnavailable = [], rdEvents = []\<rparr>))"

definition rd_Wake :: "Redriver \<Rightarrow> Redriver" where
  "rd_Wake r = r\<lparr>rdWake := True\<rparr>"

text \<open>The event sink of the redriver: a circuit that stops being open wakes it.\<close>

definition rd_Sink :: "BreakerState \<Rightarrow> Redriver \<Rightarrow> Redriver" where
  "rd_Sink to r = (if to \<noteq> StateOpen then rd_Wake r else r)"

definition capacity :: "Redriver \<Rightarrow> int" where
  "capacity r = rcWorkers (rdCfg r) * 2"

definition rd_redact :: "Redriver \<Rightarrow> gerror \<Rightarrow> string" where
  "rd_redact r err = (case rcRedact (rdCfg r) of Some f \<Rightarrow> f err | None \<Rightarrow> [])"

definition rd_backoff :: "Redriver \<Rightarrow> int \<Rightarrow> duration" where
  "rd_backoff r n = (case rcBackoff (rdCfg r) of Some f \<Rightarrow> f n | None \<Rightarrow> 0)"

definition fatalStoreError :: "gerror \<Rightarrow> bool" where
  "fatalStoreError err \<longleftrightarrow> errors_Is err ErrStoreFailed \<or> errors_Is err ErrClosed \<or> errors_Is err ErrCorrupt"

definition handlerTimeout :: "Redriver \<Rightarrow> duration" where
  "handlerTimeout r = rcLeaseTTL (rdCfg r) - rcLeaseTTL (rdCfg r) div 10"

section \<open>The store\<close>

record ('e, 's) StoreOps =
  doLease :: "'e \<Rightarrow> LeaseRequest \<Rightarrow> 's \<Rightarrow> (gerror + Lease list) \<times> 's"
  doCheckpoint :: "'e \<Rightarrow> string \<Rightarrow> string \<Rightarrow> bytes \<Rightarrow> 's \<Rightarrow> goerr \<times> 's"
  doAck :: "'e \<Rightarrow> string \<Rightarrow> string \<Rightarrow> 's \<Rightarrow> goerr \<times> 's"
  doNack :: "'e \<Rightarrow> string \<Rightarrow> string \<Rightarrow> NackOptions \<Rightarrow> 's \<Rightarrow> goerr \<times> 's"
  doRelease :: "'e \<Rightarrow> string \<Rightarrow> string \<Rightarrow> 's \<Rightarrow> goerr \<times> 's"
  doPark :: "'e \<Rightarrow> string \<Rightarrow> string \<Rightarrow> string \<Rightarrow> 's \<Rightarrow> goerr \<times> 's"

text \<open>\<open>Item.Checkpoint\<close>: save progress under the lease and in the item's copy of the record.\<close>

definition item_Checkpoint :: "('e, 's) StoreOps \<Rightarrow> 'e \<Rightarrow> string \<Rightarrow> bytes \<Rightarrow> Record \<times> 's \<Rightarrow> goerr \<times> Record \<times> 's" where
  "item_Checkpoint ops e tok cp rs =
     (case doCheckpoint ops e (rID (fst rs)) tok cp (snd rs) of
        (Some err, s) \<Rightarrow> (Some err, fst rs, s)
      | (None, s) \<Rightarrow> (ok, (fst rs)\<lparr>rCheckpoint := cloneBytes cp\<rparr>, s))"

section \<open>Settling a lease\<close>

definition rd_emit :: "Lease \<Rightarrow> string \<Rightarrow> RedriveOutcome \<Rightarrow> Redriver \<Rightarrow> Redriver" where
  "rd_emit l d oc r = r\<lparr>rdEvents := rdEvents r @ [\<lparr>evDependency = d, evRecordID = rID (lRecord l), evOutcome = oc,
     evAttempts = rAttempts (lRecord l)\<rparr>]\<rparr>"

definition storeFailure :: "gerror \<Rightarrow> Lease \<Rightarrow> string \<Rightarrow> Redriver \<Rightarrow> Redriver" where
  "storeFailure err l d r =
     (if errors_Is err ErrLeaseLost \<or> errors_Is err ErrNotFound
      then rd_emit l d RedriveLeaseLost (r\<lparr>rdLeaseLost := rdLeaseLost r + 1\<rparr>)
      else r\<lparr>rdStoreErrors := rdStoreErrors r + 1\<rparr>)"

definition holdDependency :: "string \<Rightarrow> time \<Rightarrow> Redriver \<Rightarrow> Redriver" where
  "holdDependency name until r = r\<lparr>rdBlockedUntil := AList.update name until (rdBlockedUntil r)\<rparr>"

text \<open>\<open>mirror\<close>: \<open>OnPark\<close> as a call that may fail or panic.\<close>

definition mirror_fails :: "(Record \<Rightarrow> string \<Rightarrow> fn_outcome) \<Rightarrow> Record \<Rightarrow> string \<Rightarrow> bool" where
  "mirror_fails f rec reason = (f rec reason \<noteq> FnOk)"

definition park :: "('e, 's) StoreOps \<Rightarrow> 'e \<Rightarrow> Lease \<Rightarrow> string \<Rightarrow> Redriver \<times> 's \<Rightarrow> Redriver \<times> 's" where
  "park ops e l reason rs =
     (case rs of (r, s) \<Rightarrow>
      (case doPark ops e (rID (lRecord l)) (lToken l) reason s of
        (Some err, s1) \<Rightarrow> (storeFailure err l (rBlockedOn (lRecord l)) r, s1)
      | (None, s1) \<Rightarrow>
         (let r1 = rd_emit l (rBlockedOn (lRecord l)) RedriveParked (r\<lparr>rdParked := rdParked r + 1\<rparr>)
          in case rcOnPark (rdCfg r1) of
               None \<Rightarrow> (r1, s1)
             | Some f \<Rightarrow>
                (if mirror_fails f ((Clone (lRecord l))\<lparr>rState := Parked, rLastError := reason\<rparr>) reason
                 then (r1\<lparr>rdMirrorErrors := rdMirrorErrors r1 + 1\<rparr>, s1) else (r1, s1)))))"

definition gave_up :: "int \<Rightarrow> string \<Rightarrow> string" where
  "gave_up n text = ''gave up after '' @ FormatInt n @ '' attempts: '' @ text"

definition block :: "('e, 's) StoreOps \<Rightarrow> 'e \<Rightarrow> time \<Rightarrow> Lease \<Rightarrow> string \<Rightarrow> bool \<Rightarrow> gerror \<Rightarrow> Redriver \<times> 's \<Rightarrow> Redriver \<times> 's" where
  "block ops e now l d refund cause rs =
     (let r = fst rs; att = rAttempts (lRecord l)
      in if \<not> refund \<and> rcMaxAttempts (rdCfg r) \<le> att
         then park ops e l (gave_up att (rd_redact r cause)) rs
         else
           (let hold = rcPollInterval (rdCfg r) * 2;
                delay = (if refund then hold else max hold (rd_backoff r att))
            in case doNack ops e (rID (lRecord l)) (lToken l)
                   \<lparr>nDelay = delay, nErr = rd_redact r cause, nBlockedOn = d, nRefund = refund\<rparr> (snd rs) of
                 (Some err, s1) \<Rightarrow> (storeFailure err l d r, s1)
               | (None, s1) \<Rightarrow>
                  (let r1 = holdDependency d (now + hold) r
                   in (rd_emit l d RedriveBlocked (r1\<lparr>rdBlocked := rdBlocked r1 + 1\<rparr>), s1))))"

definition settle :: "('e, 's) StoreOps \<Rightarrow> 'e \<Rightarrow> bool \<Rightarrow> time \<Rightarrow> Lease \<Rightarrow> goerr \<Rightarrow> Redriver \<times> 's \<Rightarrow> Redriver \<times> 's" where
  "settle ops e ctxEnded now l res rs =
     (let r = fst rs; s = snd rs; rec = lRecord l; dp = rBlockedOn rec
      in case res of
           None \<Rightarrow>
             (case doAck ops e (rID rec) (lToken l) s of
                (Some aerr, s1) \<Rightarrow> (storeFailure aerr l dp r, s1)
              | (None, s1) \<Rightarrow> (rd_emit l dp RedriveSucceeded (r\<lparr>rdSucceeded := rdSucceeded r + 1\<rparr>), s1))
         | Some err \<Rightarrow>
             (case as_blocked err of
                Some (d, _, refund) \<Rightarrow> block ops e now l (if d \<noteq> '''' then d else dp) refund err rs
              | None \<Rightarrow>
                 (case as_open err of
                    Some (n, _) \<Rightarrow> block ops e now l (if n \<noteq> '''' then n else dp) True err rs
                  | None \<Rightarrow>
                     if IsPermanent (Some err) then park ops e l (''permanent failure: '' @ rd_redact r err) rs
                     else if ctxEnded
                     then (case doRelease ops e (rID rec) (lToken l) s of
                             (Some rerr, s1) \<Rightarrow> (storeFailure rerr l dp r, s1)
                           | (None, s1) \<Rightarrow> (r, s1))
                     else if rcMaxAttempts (rdCfg r) \<le> rAttempts rec
                     then park ops e l (gave_up (rAttempts rec) (rd_redact r err)) rs
                     else (case doNack ops e (rID rec) (lToken l)
                              \<lparr>nDelay = rd_backoff r (rAttempts rec), nErr = rd_redact r err, nBlockedOn = '''', nRefund = False\<rparr> s of
                             (Some nerr, s1) \<Rightarrow> (storeFailure nerr l dp r, s1)
                           | (None, s1) \<Rightarrow> (rd_emit l dp RedriveRetry (r\<lparr>rdRetried := rdRetried r + 1\<rparr>), s1)))))"

text \<open>
  The handler gets the leased record and its token and works on the store through them; it ends as a Go
  function does.  \<open>process\<close> is the whole life of a lease in a worker, the deferred clean-up included.
\<close>

type_synonym 's handler = "Record \<Rightarrow> string \<Rightarrow> 's \<Rightarrow> fn_outcome \<times> 's"

definition rd_call :: "fn_outcome \<Rightarrow> goerr" where
  "rd_call out = (case out of FnOk \<Rightarrow> ok | FnErr err \<Rightarrow> Some err | FnPanic \<Rightarrow> Some (EText ''handler panicked''))"

record 'e process_env =
  peCtxStart :: bool
  peCtxEnd :: bool
  peNow :: time
  peStore :: 'e

definition too_often :: "int \<Rightarrow> int \<Rightarrow> string" where
  "too_often n mx = ''leased '' @ FormatInt n @ '' times without finishing (limit '' @ FormatInt mx
     @ ''): the handler may be crashing on it''"

definition rd_finish :: "Lease \<Rightarrow> Redriver \<Rightarrow> Redriver" where
  "rd_finish l r = rd_Wake (r\<lparr>rdActive := filter (\<lambda>i. i \<noteq> rID (lRecord l)) (rdActive r), rdInflight := rdInflight r - 1\<rparr>)"

definition process_body :: "('e, 's) StoreOps \<Rightarrow> 's handler \<Rightarrow> 'e process_env \<Rightarrow> Lease \<Rightarrow> Redriver \<times> 's \<Rightarrow> Redriver \<times> 's" where
  "process_body ops h pe l rs =
     (let r = fst rs; s = snd rs; rec = lRecord l
      in if peCtxStart pe then (r, snd (doRelease ops (peStore pe) (rID rec) (lToken l) s))
         else if rcMaxAttempts (rdCfg r) < rAttempts rec
         then park ops (peStore pe) l (too_often (rAttempts rec) (rcMaxAttempts (rdCfg r))) rs
         else (case h rec (lToken l) s of
                 (out, s1) \<Rightarrow> settle ops (peStore pe) (peCtxEnd pe) (peNow pe) l (rd_call out) (r, s1)))"

definition process :: "('e, 's) StoreOps \<Rightarrow> 's handler \<Rightarrow> 'e process_env \<Rightarrow> Lease \<Rightarrow> Redriver \<times> 's \<Rightarrow> Redriver \<times> 's" where
  "process ops h pe l rs = map_prod (rd_finish l) id (process_body ops h pe l rs)"

section \<open>Dispatching\<close>

text \<open>The open circuits of a breaker map, added to those already found.\<close>

fun refusing :: "int \<Rightarrow> (string \<times> PBreaker) list \<Rightarrow> string list \<Rightarrow> string list" where
  "refusing now [] cur = cur"
| "refusing now ((n, b) # bs) cur = refusing now bs (if pb_Refusing now b \<and> n \<notin> set cur then cur @ [n] else cur)"

definition unavailable :: "time \<Rightarrow> (string \<times> PBreaker) list \<Rightarrow> (string \<times> PBreaker) list \<Rightarrow> Redriver \<Rightarrow> string list \<times> Redriver" where
  "unavailable now brs src r =
     (let current = refusing now src (refusing now brs []);
          lm = (if list_ex (\<lambda>n. n \<notin> set current) (rdWasUnavailable r) then recovered now (rdLim r) else rdLim r);
          left = filter (\<lambda>(n, until). now < until) (rdBlockedUntil r)
      in (current @ filter (\<lambda>n. n \<notin> set current) (map fst left),
          r\<lparr>rdLim := lm, rdWasUnavailable := current, rdBlockedUntil := left\<rparr>))"

record 'e fill_env =
  feCtx :: bool
  feCtxErr :: bool
  feNow :: time
  feBreakers :: "(string \<times> PBreaker) list"
  feSource :: "(string \<times> PBreaker) list"
  feLease :: 'e
  feRelease :: "string \<Rightarrow> 'e"

datatype fill_next = FillReturn goerr | FillWait duration | FillAgain

text \<open>Queue the leases whose record no worker is on, hand the others back; the number queued comes first.\<close>

fun offer_leases :: "('e, 's) StoreOps \<Rightarrow> (string \<Rightarrow> 'e) \<Rightarrow> Lease list \<Rightarrow> Redriver \<times> Lease list \<times> 's \<Rightarrow> nat \<times> Redriver \<times> Lease list \<times> 's" where
  "offer_leases ops rel [] st = (0, st)"
| "offer_leases ops rel (l # ls) (r, q, s) =
     (if rID (lRecord l) \<in> set (rdActive r)
      then offer_leases ops rel ls (r, q, snd (doRelease ops (rel (rID (lRecord l))) (rID (lRecord l)) (lToken l) s))
      else (case offer_leases ops rel ls
               (r\<lparr>rdActive := rID (lRecord l) # rdActive r, rdInflight := rdInflight r + 1, rdLeased := rdLeased r + 1\<rparr>, q @ [l], s) of
              (n, st) \<Rightarrow> (n + 1, st)))"

definition fill_once :: "('e, 's) StoreOps \<Rightarrow> 'e fill_env \<Rightarrow> Redriver \<times> Lease list \<times> 's \<Rightarrow> fill_next \<times> Redriver \<times> Lease list \<times> 's" where
  "fill_once ops fe st =
     (case st of (r, q, s) \<Rightarrow>
      if feCtx fe then (FillReturn ok, st)
      else
        (let free = capacity r - rdInflight r
         in if free \<le> 0 then (FillReturn ok, st)
            else
              (case unavailable (feNow fe) (feBreakers fe) (feSource fe) r of
                 (skip, r1) \<Rightarrow>
                   (case lim_reserve (feNow fe) free (rdLim r1) of
                      ((granted, wait), lm) \<Rightarrow>
                        (let r2 = r1\<lparr>rdLim := lm\<rparr>
                         in if granted = 0 then (FillWait wait, r2, q, s)
                            else
                              (case doLease ops (feLease fe) \<lparr>lrBlockedOn = '''', lrSkip = skip, lrMax = granted,
                                      lrTTL = rcLeaseTTL (rdCfg r)\<rparr> s of
                                 (Inl err, s1) \<Rightarrow>
                                   if feCtxErr fe then (FillReturn ok, r2, q, s1)
                                   else (FillReturn (Some (EWrap ''dlq: redriver lease'' [err])),
                                         r2\<lparr>rdLim := lim_give granted (rdLim r2), rdStoreErrors := rdStoreErrors r2 + 1\<rparr>, q, s1)
                               | (Inr ls, s1) \<Rightarrow>
                                   (let r3 = r2\<lparr>rdLim := lim_give (granted - int (length ls)) (rdLim r2)\<rparr>
                                    in if ls = [] then (FillReturn ok, r3, q, s1)
                                       else (case offer_leases ops (feRelease fe) ls (r3, q, s1) of
                                               (n, st1) \<Rightarrow> (if n = 0 then FillReturn ok else FillAgain, st1)))))))))"

text \<open>
  One turn of \<open>dispatch\<close> after \<open>fill\<close> has returned: end with the error, wait for the retry delay, or wait
  for the ticker or a wake-up with the delay reset.
\<close>

definition maxStoreRetryDelay :: duration where "maxStoreRetryDelay = 30 * second"

datatype dispatch_next = DispatchReturn goerr | DispatchRetry duration | DispatchIdle

definition dispatch_after :: "goerr \<Rightarrow> duration \<Rightarrow> dispatch_next" where
  "dispatch_after res retryDelay =
     (case res of
        Some err \<Rightarrow> if fatalStoreError err then DispatchReturn (Some err)
          else (let d = retryDelay * 2 + 100 * millisecond
                in DispatchRetry (if maxStoreRetryDelay < d then maxStoreRetryDelay else d))
      | None \<Rightarrow> DispatchIdle)"

end
