(* ===== verification/GG_Redrive_Props.thy ===== *)
theory GG_Redrive_Props
  imports GG_Redrive GG_Memory_Props
begin

text \<open>
  The redriver as a system of a dispatcher, a channel and workers over a store, and what it guarantees:
  the channel never blocks, a record is never with two workers, a record leaves the store only after its
  handler succeeded, poison records are parked, open circuits are not fed, and the rate is limited.
\<close>

section \<open>What settling touches\<close>

definition rd_core :: "Redriver \<Rightarrow> RedriveConfig \<times> int \<times> string list" where
  "rd_core r = (rdCfg r, rdInflight r, rdActive r)"

lemma rd_core_sel [simp]:
  "rd_core (rd_emit l d oc r) = rd_core r" "rd_core (storeFailure err l d r) = rd_core r"
  "rd_core (holdDependency n t r) = rd_core r" "rd_core (r\<lparr>rdParked := a\<rparr>) = rd_core r" "rd_core (r\<lparr>rdMirrorErrors := a\<rparr>) = rd_core r"
  "rd_core (r\<lparr>rdBlocked := a\<rparr>) = rd_core r" "rd_core (r\<lparr>rdSucceeded := a\<rparr>) = rd_core r" "rd_core (r\<lparr>rdRetried := a\<rparr>) = rd_core r"
  "rd_core (r\<lparr>rdLim := lm\<rparr>) = rd_core r" "rd_core (r\<lparr>rdStoreErrors := a\<rparr>) = rd_core r"
  by (simp_all add: rd_core_def rd_emit_def storeFailure_def holdDependency_def)

lemma park_core: "rd_core (fst (park ops e l why rs)) = rd_core (fst rs)"
  by (simp add: park_def Let_def split: prod.split option.split)

lemma block_core: "rd_core (fst (block ops e now l d rf c rs)) = rd_core (fst rs)"
  by (simp add: block_def Let_def park_core split: prod.split option.split)

lemma settle_core: "rd_core (fst (settle ops e ce now l res rs)) = rd_core (fst rs)"
  by (simp add: settle_def Let_def park_core block_core split: prod.split option.split)

lemma process_core:
  "rd_core (fst (process ops h pe l rs)) = (rdCfg (fst rs), rdInflight (fst rs) - 1, filter (\<lambda>i. i \<noteq> rID (lRecord l)) (rdActive (fst rs)))"
proof -
  have "rd_core (fst (process_body ops h pe l rs)) = rd_core (fst rs)"
    by (simp add: process_body_def Let_def park_core settle_core split: prod.split)
  then show ?thesis by (simp add: process_def rd_core_def rd_finish_def rd_Wake_def)
qed

lemma unavailable_core: "rd_core (snd (unavailable now brs src r)) = rd_core r"
  by (simp add: unavailable_def Let_def rd_core_def)

section \<open>The system\<close>

text \<open>
  The redriver's shared state, the channel, the leases the workers are on, and the store.  The dispatcher
  turns once (\<open>Fill\<close>), a worker takes a lease from the channel (\<open>Take\<close>), a worker handles and settles its
  lease (\<open>Work\<close>), or other users of the store change it (\<open>Other\<close>).
\<close>

record 's rsys =
  sysR :: Redriver
  sysQ :: "Lease list"
  sysRun :: "Lease list"
  sysS :: 's

inductive rd_step :: "('e, 's) StoreOps \<Rightarrow> ('e \<Rightarrow> 's \<Rightarrow> bool) \<Rightarrow> 's handler \<Rightarrow> ('s \<Rightarrow> 's \<Rightarrow> bool) \<Rightarrow> 's rsys \<Rightarrow> 's rsys \<Rightarrow> bool"
  for ops env_ok h other where
  Fill: "env_ok (feLease fe) (sysS y) \<Longrightarrow> fill_once ops fe (sysR y, sysQ y, sysS y) = (nx, r', q', s') \<Longrightarrow>
    rd_step ops env_ok h other y (y\<lparr>sysR := r', sysQ := q', sysS := s'\<rparr>)"
| Take: "sysQ y = l # q' \<Longrightarrow> int (length (sysRun y)) < rcWorkers (rdCfg (sysR y)) \<Longrightarrow>
    rd_step ops env_ok h other y (y\<lparr>sysQ := q', sysRun := sysRun y @ [l]\<rparr>)"
| Work: "sysRun y = xs @ l # ys \<Longrightarrow> process ops h pe l (sysR y, sysS y) = (r', s') \<Longrightarrow>
    rd_step ops env_ok h other y (y\<lparr>sysR := r', sysRun := xs @ ys, sysS := s'\<rparr>)"
| Other: "other (sysS y) s' \<Longrightarrow> rd_step ops env_ok h other y (y\<lparr>sysS := s'\<rparr>)"

inductive_cases rd_stepE: "rd_step ops env_ok h other y y'"

abbreviation lease_id :: "Lease \<Rightarrow> string" where
  "lease_id l \<equiv> rID (lRecord l)"

text \<open>In-flight counter, active set and channel agree, and the channel has room.\<close>

definition sys_ok :: "'s rsys \<Rightarrow> bool" where
  "sys_ok y \<longleftrightarrow> rdInflight (sysR y) = int (length (sysQ y) + length (sysRun y)) \<and> rdInflight (sysR y) \<le> capacity (sysR y)
     \<and> distinct (map lease_id (sysQ y @ sysRun y)) \<and> set (rdActive (sysR y)) = lease_id ` set (sysQ y @ sysRun y)"

text \<open>Queueing leases: each fresh one is counted and marked active, in order.\<close>

lemma offer_leases_spec:
  assumes "offer_leases ops rel ls (r, q, s) = (n, r', q', s')" and "distinct (map lease_id ls)"
  shows "\<exists>new. q' = q @ new \<and> n = length new \<and> length new \<le> length ls \<and> set new \<subseteq> set ls \<and> distinct (map lease_id new)
    \<and> lease_id ` set new \<inter> set (rdActive r) = {} \<and> set (rdActive r') = set (rdActive r) \<union> lease_id ` set new
    \<and> rdInflight r' = rdInflight r + int (length new) \<and> rdCfg r' = rdCfg r"
  using assms
proof (induction ls arbitrary: r q s n)
  case (Cons l ls)
  show ?case
  proof (cases "lease_id l \<in> set (rdActive r)")
    case True
    with Cons.prems obtain new where "q' = q @ new" "n = length new" "length new \<le> length ls" "set new \<subseteq> set ls"
      "distinct (map lease_id new)" "lease_id ` set new \<inter> set (rdActive r) = {}" "set (rdActive r') = set (rdActive r) \<union> lease_id ` set new"
      "rdInflight r' = rdInflight r + int (length new)" "rdCfg r' = rdCfg r"
      using Cons.IH [of r q "snd (doRelease ops (rel (lease_id l)) (lease_id l) (lToken l) s)" n] by auto
    then show ?thesis by (intro exI [of _ new]) auto
  next
    case False
    let ?r = "r\<lparr>rdActive := lease_id l # rdActive r, rdInflight := rdInflight r + 1, rdLeased := rdLeased r + 1\<rparr>"
    obtain m where m: "offer_leases ops rel ls (?r, q @ [l], s) = (m, r', q', s')" "n = m + 1"
      using Cons.prems(1) False by (auto split: prod.splits)
    with Cons.IH [OF m(1)] Cons.prems(2) obtain new where new: "q' = (q @ [l]) @ new" "m = length new" "length new \<le> length ls" "set new \<subseteq> set ls"
      "distinct (map lease_id new)" "lease_id ` set new \<inter> set (rdActive ?r) = {}" "set (rdActive r') = set (rdActive ?r) \<union> lease_id ` set new"
      "rdInflight r' = rdInflight ?r + int (length new)" "rdCfg r' = rdCfg ?r" by auto
    with m(2) False show ?thesis by (intro exI [of _ "l # new"]) auto
  qed
qed simp

lemma reserve_bounds:
  assumes "lim_reserve now mx l = ((g, wt), l')" and "0 < mx"
  shows "0 \<le> g \<and> g \<le> mx"
  using assms by (auto simp: lim_reserve_def Let_def split: if_splits)

lemma refusing_keeps: "set cur \<subseteq> set (refusing now bs cur)"
  by (induction now bs cur rule: refusing.induct) (auto split: if_splits)

lemma refusing_found: "(n, b) \<in> set bs \<Longrightarrow> pb_Refusing now b \<Longrightarrow> n \<in> set (refusing now bs cur)"
proof (induction now bs cur rule: refusing.induct)
  case (2 now m c bs cur)
  then show ?case
    using refusing_keeps [of "if pb_Refusing now c \<and> m \<notin> set cur then cur @ [m] else cur" now bs] by (auto split: if_splits)
qed simp

lemma unavailable_skips:
  assumes "(n, b) \<in> set brs \<union> set src" and "pb_Refusing now b"
  shows "n \<in> set (fst (unavailable now brs src r))"
  using assms refusing_found [of n b brs now "[]"] refusing_found [of n b src now "refusing now brs []"]
    refusing_keeps [of "refusing now brs []" now src]
  by (auto simp: unavailable_def Let_def)

text \<open>A turn of the dispatcher leaves the queue alone or queues leases it was granted.\<close>

lemma fill_once_cases:
  assumes "fill_once ops fe (r, q, s) = (nx, r', q', s')"
  obtains (idle) "rd_core r' = rd_core r" "q' = q" "s' = s"
  | (refused) req err where "rd_core r' = rd_core r" "q' = q" "doLease ops (feLease fe) req s = (Inl err, s')"
  | (granted) req ls s1 r3 n where "doLease ops (feLease fe) req s = (Inr ls, s1)" "0 \<le> lrMax req" "lrMax req \<le> capacity r - rdInflight r"
      "lrSkip req = fst (unavailable (feNow fe) (feBreakers fe) (feSource fe) r)" "rd_core r3 = rd_core r"
      "offer_leases ops (feRelease fe) ls (r3, q, s1) = (n, r', q', s')"
proof (cases "feCtx fe \<or> capacity r - rdInflight r \<le> 0")
  case True
  then have "(r', q', s') = (r, q, s)" using assms by (auto simp: fill_once_def Let_def split: if_splits)
  then show thesis using idle by simp
next
  case False
  let ?free = "capacity r - rdInflight r"
  obtain skip r1 where u: "unavailable (feNow fe) (feBreakers fe) (feSource fe) r = (skip, r1)" by fastforce
  obtain g wt lm where g: "lim_reserve (feNow fe) ?free (rdLim r1) = ((g, wt), lm)" by (metis prod_cases3 prod.collapse)
  have c1: "rd_core r1 = rd_core r" using unavailable_core [of "feNow fe" "feBreakers fe" "feSource fe" r] u by simp
  have gb: "0 \<le> g" "g \<le> ?free" using reserve_bounds [OF g] False by auto
  let ?r2 = "r1\<lparr>rdLim := lm\<rparr>" and ?req = "\<lparr>lrBlockedOn = '''', lrSkip = skip, lrMax = g, lrTTL = rcLeaseTTL (rdCfg r)\<rparr>"
  show thesis
  proof (cases "g = 0")
    case True
    with assms False u g have "(r', q', s') = (?r2, q, s)" by (simp add: fill_once_def Let_def)
    with c1 show thesis using idle by simp
  next
    case nz: False
    obtain ans s1 where L: "doLease ops (feLease fe) ?req s = (ans, s1)" by fastforce
    show thesis
    proof (cases ans)
      case (Inl err)
      with assms False u g nz L have "q' = q \<and> s' = s1 \<and> rd_core r' = rd_core r"
        by (auto simp: fill_once_def Let_def c1 split: if_splits)
      with L Inl show thesis using refused by blast
    next
      case (Inr ls)
      let ?r3 = "?r2\<lparr>rdLim := lim_give (g - int (length ls)) (rdLim ?r2)\<rparr>"
      have "\<exists>n. offer_leases ops (feRelease fe) ls (?r3, q, s1) = (n, r', q', s')"
        using assms False u g nz L Inr by (auto simp: fill_once_def Let_def split: if_splits prod.splits)
      then obtain n where "offer_leases ops (feRelease fe) ls (?r3, q, s1) = (n, r', q', s')" ..
      with granted [of ?req ls s1 ?r3 n] L Inr gb u c1 show thesis by simp
    qed
  qed
qed

lemma rd_call_ok [simp]: "rd_call out = ok \<longleftrightarrow> out = FnOk"
  by (cases out) (simp_all add: rd_call_def)

text \<open>The methods of a store, bundled.\<close>

definition store_ops :: "('e \<Rightarrow> LeaseRequest \<Rightarrow> 's \<Rightarrow> (gerror + Lease list) \<times> 's) \<Rightarrow> ('e \<Rightarrow> string \<Rightarrow> string \<Rightarrow> bytes \<Rightarrow> 's \<Rightarrow> goerr \<times> 's) \<Rightarrow>
    ('e \<Rightarrow> string \<Rightarrow> string \<Rightarrow> 's \<Rightarrow> goerr \<times> 's) \<Rightarrow> ('e \<Rightarrow> string \<Rightarrow> string \<Rightarrow> NackOptions \<Rightarrow> 's \<Rightarrow> goerr \<times> 's) \<Rightarrow>
    ('e \<Rightarrow> string \<Rightarrow> string \<Rightarrow> 's \<Rightarrow> goerr \<times> 's) \<Rightarrow> ('e \<Rightarrow> string \<Rightarrow> string \<Rightarrow> string \<Rightarrow> 's \<Rightarrow> goerr \<times> 's) \<Rightarrow> ('e, 's) StoreOps" where
  "store_ops lease ckpt ack nack rel prk = \<lparr>doLease = lease, doCheckpoint = ckpt, doAck = ack, doNack = nack, doRelease = rel, doPark = prk\<rparr>"

lemma store_ops_sel [simp]:
  "doLease (store_ops a b c d e f) = a" "doCheckpoint (store_ops a b c d e f) = b" "doAck (store_ops a b c d e f) = c"
  "doNack (store_ops a b c d e f) = d" "doRelease (store_ops a b c d e f) = e" "doPark (store_ops a b c d e f) = f"
  by (simp_all add: store_ops_def)

text \<open>
  A handler as the redriver expects it, and other users of the store: they work on the store only in ways
  that keep its invariant and lose no record.
\<close>

definition safe_handler :: "('s \<Rightarrow> bool) \<Rightarrow> ('s \<Rightarrow> content) \<Rightarrow> 's handler \<Rightarrow> bool" where
  "safe_handler I cont h \<longleftrightarrow> (\<forall>rec tok s out s1. I s \<longrightarrow> h rec tok s = (out, s1) \<longrightarrow> I s1 \<and> keeps (cont s) (cont s1))"

definition safe_others :: "('s \<Rightarrow> bool) \<Rightarrow> ('s \<Rightarrow> content) \<Rightarrow> ('s \<Rightarrow> 's \<Rightarrow> bool) \<Rightarrow> bool" where
  "safe_others I cont other \<longleftrightarrow> (\<forall>s s'. I s \<longrightarrow> other s s' \<longrightarrow> I s' \<and> keeps (cont s) (cont s'))"

lemma safe_handlerD: "safe_handler I cont h \<Longrightarrow> I s \<Longrightarrow> h rec tok s = (out, s1) \<Longrightarrow> I s1 \<and> keeps (cont s) (cont s1)"
  by (auto simp: safe_handler_def)

lemma safe_othersD: "safe_others I cont other \<Longrightarrow> I s \<Longrightarrow> other s s' \<Longrightarrow> I s' \<and> keeps (cont s) (cont s')"
  by (auto simp: safe_others_def)

context dlq_store
begin

lemma park_keeps:
  assumes "inv s" and "park (store_ops lease_op checkpoint_op ack_op nack_op release_op park_op) e l why (r, s) = (r', s')"
  shows "inv s' \<and> keeps (content s) (content s')"
proof -
  obtain ans s1 where p: "park_op e (lease_id l) (lToken l) why s = (ans, s1)" by fastforce
  then have "s' = s1" using assms(2) by (auto simp: park_def Let_def split: option.splits if_splits)
  with park_law [OF assms(1) p] show ?thesis by simp
qed

lemma block_keeps:
  assumes "inv s" and "block (store_ops lease_op checkpoint_op ack_op nack_op release_op park_op) e now l d rf c (r, s) = (r', s')"
  shows "inv s' \<and> keeps (content s) (content s')"
proof (cases "\<not> rf \<and> rcMaxAttempts (rdCfg r) \<le> rAttempts (lRecord l)")
  case True
  with assms park_keeps [OF assms(1)] show ?thesis by (simp add: block_def Let_def)
next
  case False
  let ?o = "\<lparr>nDelay = if rf then rcPollInterval (rdCfg r) * 2 else max (rcPollInterval (rdCfg r) * 2) (rd_backoff r (rAttempts (lRecord l))),
    nErr = rd_redact r c, nBlockedOn = d, nRefund = rf\<rparr>"
  obtain ans s1 where n: "nack_op e (lease_id l) (lToken l) ?o s = (ans, s1)" by fastforce
  then have "s' = s1" using assms(2) False by (auto simp: block_def Let_def split: option.splits)
  with nack_law [OF assms(1) n] show ?thesis by simp
qed

text \<open>A record leaves the store only by an acknowledgement, and that only after the handler returned nil.\<close>

lemma settle_keeps:
  assumes "inv s" and "settle (store_ops lease_op checkpoint_op ack_op nack_op release_op park_op) e ce now l res (r, s) = (r', s')"
  shows "inv s' \<and> (keeps (content s) (content s') \<or> res = ok \<and> content s' = (content s)(lease_id l := None))"
proof (cases res)
  case None
  obtain ans s1 where a: "ack_op e (lease_id l) (lToken l) s = (ans, s1)" by fastforce
  then have "s' = s1" using assms(2) None by (auto simp: settle_def Let_def split: option.splits)
  with ack_law [OF assms(1) a] None show ?thesis by (auto split: if_splits)
next
  case (Some err)
  consider d x b where "as_blocked err = Some (d, x, b)" | n st where "as_blocked err = None" "as_open err = Some (n, st)"
    | "as_blocked err = None" "as_open err = None" by (metis option.exhaust surj_pair)
  then show ?thesis
  proof cases
    case 1
    with assms Some show ?thesis using block_keeps [OF assms(1)] by (simp add: settle_def Let_def)
  next
    case 2
    with assms Some show ?thesis using block_keeps [OF assms(1)] by (simp add: settle_def Let_def)
  next
    case 3
    note eqs = 3 Some
    let ?o = "\<lparr>nDelay = rd_backoff r (rAttempts (lRecord l)), nErr = rd_redact r err, nBlockedOn = '''', nRefund = False\<rparr>"
    obtain a1 s1 where rel: "release_op e (lease_id l) (lToken l) s = (a1, s1)" by fastforce
    obtain a2 s2 where nk: "nack_op e (lease_id l) (lToken l) ?o s = (a2, s2)" by fastforce
    have "(\<exists>why. park (store_ops lease_op checkpoint_op ack_op nack_op release_op park_op) e l why (r, s) = (r', s')) \<or> s' = s1 \<or> s' = s2"
      using assms(2) eqs rel nk by (auto simp: settle_def Let_def split: if_splits option.splits)
    then show ?thesis
      using park_keeps [OF assms(1)] release_law [OF assms(1) rel] nack_law [OF assms(1) nk] by blast
  qed
qed

lemma process_keeps:
  assumes h: "safe_handler inv content h"
    and s: "inv s" and p: "process (store_ops lease_op checkpoint_op ack_op nack_op release_op park_op) h pe l (r, s) = (r', s')"
  shows "inv s' \<and> (\<forall>i rc. content s i = Some rc \<longrightarrow> (\<exists>rc'. content s' i = Some rc' \<and> same_payload rc rc')
    \<or> i = lease_id l \<and> fst (h (lRecord l) (lToken l) s) = FnOk)"
proof -
  let ?ops = "store_ops lease_op checkpoint_op ack_op nack_op release_op park_op"
  obtain r1 where b: "process_body ?ops h pe l (r, s) = (r1, s')"
    using p by (auto simp: process_def map_prod_def split: prod.splits)
  consider "peCtxStart pe" | "\<not> peCtxStart pe" "rcMaxAttempts (rdCfg r) < rAttempts (lRecord l)"
    | "\<not> peCtxStart pe" "\<not> rcMaxAttempts (rdCfg r) < rAttempts (lRecord l)" by blast
  then show ?thesis
  proof cases
    case 1
    obtain a s1 where rel: "release_op (peStore pe) (lease_id l) (lToken l) s = (a, s1)" by fastforce
    with 1 b have "s' = s1" by (simp add: process_body_def Let_def)
    with release_law [OF s rel] show ?thesis by (simp add: keeps_def)
  next
    case 2
    with b have "park ?ops (peStore pe) l (too_often (rAttempts (lRecord l)) (rcMaxAttempts (rdCfg r))) (r, s) = (r1, s')"
      by (simp add: process_body_def Let_def)
    from park_keeps [OF s this] show ?thesis by (simp add: keeps_def)
  next
    case 3
    obtain out s1 where o1: "h (lRecord l) (lToken l) s = (out, s1)" by fastforce
    with 3 b have st: "settle ?ops (peStore pe) (peCtxEnd pe) (peNow pe) l (rd_call out) (r, s1) = (r1, s')"
      by (simp add: process_body_def Let_def)
    from safe_handlerD [OF h s o1] have i1: "inv s1" and k1: "keeps (content s) (content s1)" by auto
    from settle_keeps [OF i1 st] show ?thesis
    proof (elim conjE disjE)
      assume "inv s'" "keeps (content s1) (content s')"
      with keeps_trans [OF k1] show ?thesis by (simp add: keeps_def)
    next
      assume "inv s'" "rd_call out = ok" "content s' = (content s1)(lease_id l := None)"
      with k1 o1 show ?thesis by (auto simp: keeps_def)
    qed
  qed
qed

lemma offer_keeps:
  assumes "inv s" and "offer_leases (store_ops lease_op checkpoint_op ack_op nack_op release_op park_op) rel ls (r, q, s) = (n, r', q', s')"
  shows "inv s' \<and> keeps (content s) (content s')"
  using assms
proof (induction ls arbitrary: r q s n)
  case (Cons l ls)
  show ?case
  proof (cases "lease_id l \<in> set (rdActive r)")
    case True
    obtain a s1 where rel: "release_op (rel (lease_id l)) (lease_id l) (lToken l) s = (a, s1)" by fastforce
    with Cons.prems(2) True Cons.IH [of s1 r q n] release_law [OF Cons.prems(1) rel] show ?thesis
      by (auto intro: keeps_trans)
  next
    case False
    with Cons show ?thesis by (auto split: prod.splits)
  qed
qed simp

lemma fill_keeps:
  assumes "inv s" and "env_ok (feLease fe) s"
    and "fill_once (store_ops lease_op checkpoint_op ack_op nack_op release_op park_op) fe (r, q, s) = (nx, r', q', s')"
  shows "inv s' \<and> keeps (content s) (content s')"
  using assms(3)
proof (cases rule: fill_once_cases)
  case idle
  then show ?thesis using assms(1) by simp
next
  case (refused req err)
  then show ?thesis using lease_law [OF assms(1,2)] by simp
next
  case (granted req ls s1 r3 n)
  then have "inv s1 \<and> keeps (content s) (content s1)" using lease_law [OF assms(1,2), of req] by simp
  with offer_keeps [OF _ granted(6)] show ?thesis by (auto intro: keeps_trans)
qed

text \<open>Leases are queued for records on no open circuit, and only as many as there is room for.\<close>

lemma fill_new_leases:
  assumes "inv s" and "env_ok (feLease fe) s" and "0 \<le> rdInflight r"
    and "fill_once (store_ops lease_op checkpoint_op ack_op nack_op release_op park_op) fe (r, q, s) = (nx, r', q', s')"
  shows "\<exists>new. q' = q @ new \<and> distinct (map lease_id new) \<and> lease_id ` set new \<inter> set (rdActive r) = {}
    \<and> set (rdActive r') = set (rdActive r) \<union> lease_id ` set new \<and> rdInflight r' = rdInflight r + int (length new) \<and> rdCfg r' = rdCfg r
    \<and> (new \<noteq> [] \<longrightarrow> rdInflight r + int (length new) \<le> capacity r)
    \<and> (\<forall>l \<in> set new. \<forall>n b. (n, b) \<in> set (feBreakers fe) \<union> set (feSource fe) \<longrightarrow> pb_Refusing (feNow fe) b \<longrightarrow> rBlockedOn (lRecord l) \<noteq> n)"
  using assms(4)
proof (cases rule: fill_once_cases)
  case idle
  then show ?thesis by (simp add: rd_core_def)
next
  case (refused req err)
  then show ?thesis by (simp add: rd_core_def)
next
  case (granted req ls s1 r3 n)
  have shape: "length ls \<le> nat (lrMax req)" "distinct (map lease_id ls)" "\<forall>l \<in> set ls. rBlockedOn (lRecord l) \<notin> set (lrSkip req)"
    using lease_shape [OF assms(1,2), of req ls s1] granted(1) by simp_all
  from offer_leases_spec [OF granted(6) shape(2)] obtain new where new: "q' = q @ new" "length new \<le> length ls" "set new \<subseteq> set ls"
    "distinct (map lease_id new)" "lease_id ` set new \<inter> set (rdActive r3) = {}" "set (rdActive r') = set (rdActive r3) \<union> lease_id ` set new"
    "rdInflight r' = rdInflight r3 + int (length new)" "rdCfg r' = rdCfg r3" by blast
  have core: "rdActive r3 = rdActive r" "rdInflight r3 = rdInflight r" "rdCfg r3 = rdCfg r" using granted(5) by (auto simp: rd_core_def)
  have room: "rdInflight r + int (length new) \<le> capacity r" using new(2) shape(1) granted(2,3) by linarith
  have "rBlockedOn (lRecord l) \<noteq> n" if "l \<in> set new" "(n, b) \<in> set (feBreakers fe) \<union> set (feSource fe)" "pb_Refusing (feNow fe) b" for l n b
    using shape(3) new(3) that unavailable_skips [OF that(2,3), of r] granted(4) by auto
  with new core room show ?thesis by (intro exI [of _ new]) auto
qed

lemma rd_step_ok:
  assumes "rd_step (store_ops lease_op checkpoint_op ack_op nack_op release_op park_op) env_ok h other y y'"
    and h: "safe_handler inv content h"
    and other: "safe_others inv content other"
    and "inv (sysS y)" and "sys_ok y"
  shows "inv (sysS y') \<and> sys_ok y'"
  using assms(1)
proof cases
  case (Fill fe nx r' q' s')
  have "0 \<le> rdInflight (sysR y)" using assms(5) by (simp add: sys_ok_def)
  from fill_new_leases [OF assms(4) Fill(2) this Fill(3)] obtain new where "q' = sysQ y @ new" "distinct (map lease_id new)"
    "lease_id ` set new \<inter> set (rdActive (sysR y)) = {}" "set (rdActive r') = set (rdActive (sysR y)) \<union> lease_id ` set new"
    "rdInflight r' = rdInflight (sysR y) + int (length new)" "rdCfg r' = rdCfg (sysR y)"
    "new \<noteq> [] \<longrightarrow> rdInflight (sysR y) + int (length new) \<le> capacity (sysR y)" by blast
  with assms(5) Fill(1) fill_keeps [OF assms(4) Fill(2,3)] show ?thesis
    by (cases "new = []") (auto simp: sys_ok_def capacity_def)
next
  case (Take l q')
  with assms(4,5) show ?thesis by (auto simp: sys_ok_def)
next
  case (Work xs l ys pe r' s')
  have core: "rdInflight r' = rdInflight (sysR y) - 1" "rdCfg r' = rdCfg (sysR y)"
    "rdActive r' = filter (\<lambda>i. i \<noteq> lease_id l) (rdActive (sysR y))"
    using process_core [of "store_ops lease_op checkpoint_op ack_op nack_op release_op park_op" h pe l "(sysR y, sysS y)"] Work(3)
    by (simp_all add: rd_core_def)
  from assms(5) Work(2) have d: "distinct (map lease_id (sysQ y @ xs @ l # ys))" "set (rdActive (sysR y)) = lease_id ` set (sysQ y @ xs @ l # ys)"
    by (simp_all add: sys_ok_def)
  have fresh: "lease_id l \<notin> lease_id ` set (sysQ y @ xs @ ys)" using d(1) by auto
  have "set (rdActive r') = (lease_id ` set (sysQ y @ xs @ l # ys)) - {lease_id l}" using core(3) d(2) by auto
  also have "\<dots> = lease_id ` set (sysQ y @ xs @ ys)" using fresh by auto
  finally have "set (rdActive r') = lease_id ` set (sysQ y @ xs @ ys)" .
  moreover have "inv s'" using process_keeps [OF h assms(4) Work(3)] by blast
  ultimately show ?thesis using d(1) core(1,2) assms(5) Work(1,2) by (simp add: sys_ok_def capacity_def)
next
  case (Other s')
  with assms(4,5) safe_othersD [OF other] show ?thesis by (auto simp: sys_ok_def)
qed

lemma rd_reach_ok:
  assumes "(rd_step (store_ops lease_op checkpoint_op ack_op nack_op release_op park_op) env_ok h other)\<^sup>*\<^sup>* y y'"
    and "safe_handler inv content h"
    and "safe_others inv content other"
    and "inv (sysS y)" and "sys_ok y"
  shows "inv (sysS y') \<and> sys_ok y'"
  using assms(1)
proof (induction rule: rtranclp_induct)
  case base
  then show ?case using assms(4,5) by simp
next
  case (step y1 y2)
  then show ?case using rd_step_ok [OF step(2) assms(2,3)] by blast
qed

text \<open>Along a run, a stored record stays or some worker's handler returned nil for it.\<close>

lemma rd_reach_keeps:
  assumes "(rd_step (store_ops lease_op checkpoint_op ack_op nack_op release_op park_op) env_ok h other)\<^sup>*\<^sup>* y y'"
    and h: "safe_handler inv content h"
    and other: "safe_others inv content other"
    and "inv (sysS y)" and "content (sysS y) i = Some rc"
  shows "inv (sysS y') \<and> ((\<exists>rc'. content (sysS y') i = Some rc' \<and> same_payload rc rc')
    \<or> (\<exists>y1 l. (rd_step (store_ops lease_op checkpoint_op ack_op nack_op release_op park_op) env_ok h other)\<^sup>*\<^sup>* y y1 \<and> l \<in> set (sysRun y1)
         \<and> lease_id l = i \<and> fst (h (lRecord l) (lToken l) (sysS y1)) = FnOk))"
  using assms(1)
proof (induction rule: rtranclp_induct)
  case base
  then show ?case using assms(4,5) by auto
next
  case (step y1 y2)
  then have i1: "inv (sysS y1)" by blast
  have ex: "inv (sysS y2) \<and> (keeps (content (sysS y1)) (content (sysS y2))
     \<or> (\<exists>l \<in> set (sysRun y1). fst (h (lRecord l) (lToken l) (sysS y1)) = FnOk
          \<and> (\<forall>j rj. content (sysS y1) j = Some rj \<longrightarrow> (\<exists>r2. content (sysS y2) j = Some r2 \<and> same_payload rj r2) \<or> j = lease_id l)))"
    using step(2)
  proof cases
    case (Fill fe nx r' q' s')
    then show ?thesis using fill_keeps [OF i1 Fill(2,3)] by simp
  next
    case (Take l q')
    then show ?thesis using i1 by simp
  next
    case (Work xs l ys pe r' s')
    have P: "inv s' \<and> (\<forall>j rj. content (sysS y1) j = Some rj \<longrightarrow> (\<exists>r2. content s' j = Some r2 \<and> same_payload rj r2)
        \<or> j = lease_id l \<and> fst (h (lRecord l) (lToken l) (sysS y1)) = FnOk)"
      using process_keeps [OF h i1 Work(3)] .
    show ?thesis
    proof (cases "fst (h (lRecord l) (lToken l) (sysS y1)) = FnOk")
      case True
      with P Work(1,2) show ?thesis by auto
    next
      case False
      with P Work(1) show ?thesis by (simp add: keeps_def)
    qed
  next
    case (Other s')
    then show ?thesis using safe_othersD [OF other i1] by simp
  qed
  from step(3) show ?case
  proof (elim conjE disjE)
    assume "\<exists>rc'. content (sysS y1) i = Some rc' \<and> same_payload rc rc'"
    then obtain r1 where r1: "content (sysS y1) i = Some r1" "same_payload rc r1" by blast
    from ex show ?thesis
    proof (elim conjE disjE bexE)
      assume "inv (sysS y2)" "keeps (content (sysS y1)) (content (sysS y2))"
      with r1 show ?thesis unfolding keeps_def by (meson same_payload_trans)
    next
      fix l assume l: "inv (sysS y2)" "l \<in> set (sysRun y1)" "fst (h (lRecord l) (lToken l) (sysS y1)) = FnOk"
        "\<forall>j rj. content (sysS y1) j = Some rj \<longrightarrow> (\<exists>r2. content (sysS y2) j = Some r2 \<and> same_payload rj r2) \<or> j = lease_id l"
      show ?thesis
      proof (cases "i = lease_id l")
        case True
        with l step(1) show ?thesis by blast
      next
        case False
        with l(1,4) r1 show ?thesis by (meson same_payload_trans)
      qed
    qed
  qed (use ex in blast)
qed

end

section \<open>Properties\<close>

definition mem_ops :: "(call_env, MemoryStore) StoreOps" where
  "mem_ops = store_ops ms_Lease ms_Checkpoint ms_Ack ms_Nack ms_Release ms_Park"

definition rd_start :: "Redriver \<Rightarrow> MemoryStore \<Rightarrow> MemoryStore rsys" where
  "rd_start r s = \<lparr>sysR = r, sysQ = [], sysRun = [], sysS = s\<rparr>"

lemma rd_start_ok:
  assumes "NewRedriver rnd rf True True c = Inr r"
  shows "sys_ok (rd_start r s)"
  using assms by (auto simp: NewRedriver_def sys_ok_def rd_start_def capacity_def with_defaults_def Let_def)

text \<open>
  C31: however the dispatcher, the workers and other users of the store interleave, the number of records
  in flight is what the counter says and never more than the channel holds, so that handing a lease to
  the workers never blocks; and no record is in the hands of the redriver twice.
\<close>

theorem one_worker_per_record:
  assumes "NewRedriver rnd rf True True c = Inr r" and "ms_ok s" and "safe_handler ms_ok ms_content h" and "safe_others ms_ok ms_content other"
    and "(rd_step mem_ops ms_env h other)\<^sup>*\<^sup>* (rd_start r s) y"
  shows "rdInflight (sysR y) = int (length (sysQ y) + length (sysRun y)) \<and> rdInflight (sysR y) \<le> capacity (sysR y)
    \<and> distinct (map lease_id (sysQ y @ sysRun y)) \<and> set (rdActive (sysR y)) = lease_id ` set (sysQ y @ sysRun y)"
proof -
  have "ms_ok (sysS y) \<and> sys_ok y"
    using mem.rd_reach_ok [OF assms(5) [unfolded mem_ops_def] assms(3,4)] assms(2) rd_start_ok [OF assms(1), of s]
    by (simp add: rd_start_def)
  then show ?thesis by (simp add: sys_ok_def)
qed

definition ex_rcfg :: RedriveConfig where
  "ex_rcfg = \<lparr>rcWorkers = 0, rcLeaseTTL = 0, rcPollInterval = 0, rcShutdownTimeout = 0, rcMaxAttempts = 0, rcBackoff = Some (Constant 5),
     rcRate = 0, rcBurst = 0, rcRampUp = 0, rcRedact = None, rcOnPark = None, rcOnParkTimeout = 0\<rparr>"

definition ex_rd :: Redriver where
  "ex_rd = projr (NewRedriver id (\<lambda>_. ''redacted'') True True ex_rcfg)"

lemma ex_rd_new: "NewRedriver id (\<lambda>_. ''redacted'') True True ex_rcfg = Inr ex_rd"
  by (simp add: ex_rd_def NewRedriver_def Let_def)

text \<open>A handler that touches nothing and succeeds.\<close>

definition ex_handler :: "MemoryStore handler" where
  "ex_handler rec tok s = (FnOk, s)"

lemma ex_handler_safe: "safe_handler ms_ok ms_content ex_handler" "safe_others ms_ok ms_content (=)"
  by (auto simp: safe_handler_def safe_others_def ex_handler_def)

definition ex_fill :: "call_env fill_env" where
  "ex_fill = \<lparr>feCtx = False, feCtxErr = False, feNow = 3, feBreakers = [(''db'', ex_pb)], feSource = [], feLease = ex_env 3 [''api'', ''db''],
     feRelease = (\<lambda>_. ex_env 3 [])\<rparr>"

definition ex_filled :: "MemoryStore rsys" where
  "ex_filled = (case fill_once mem_ops ex_fill (ex_rd, [], ex_store) of (nx, r, q, s) \<Rightarrow> \<lparr>sysR = r, sysQ = q, sysRun = [], sysS = s\<rparr>)"

lemma ex_filled_step: "(rd_step mem_ops ms_env ex_handler (=))\<^sup>*\<^sup>* (rd_start ex_rd ex_store) ex_filled"
proof -
  obtain nx r q s where f: "fill_once mem_ops ex_fill (ex_rd, [], ex_store) = (nx, r, q, s)" by (metis prod_cases4)
  have "rd_step mem_ops ms_env ex_handler (=) (rd_start ex_rd ex_store) ((rd_start ex_rd ex_store)\<lparr>sysR := r, sysQ := q, sysS := s\<rparr>)"
    by (rule rd_step.Fill [of _ ex_fill]) (use f ex_store_env(1) in \<open>simp_all add: rd_start_def ex_fill_def\<close>)
  moreover have "ex_filled = (rd_start ex_rd ex_store)\<lparr>sysR := r, sysQ := q, sysS := s\<rparr>"
    using f by (simp add: ex_filled_def rd_start_def)
  ultimately show ?thesis by auto
qed

theorem one_worker_per_record_witness:
  "rdInflight (sysR ex_filled) = int (length (sysQ ex_filled) + length (sysRun ex_filled))
   \<and> rdInflight (sysR ex_filled) \<le> capacity (sysR ex_filled) \<and> distinct (map lease_id (sysQ ex_filled @ sysRun ex_filled))"
  using one_worker_per_record [OF ex_rd_new ex_store_ok ex_handler_safe ex_filled_step] by blast

text \<open>
  C32: a record leaves the store only after a handler returned nil for it: in every run, a record that was
  stored is still there with its payload, or at some point a worker held its lease and the handler, called on it,
  ended well.
\<close>

theorem record_leaves_only_after_success:
  assumes "ms_ok s" and "safe_handler ms_ok ms_content h" and "safe_others ms_ok ms_content other" and "ms_content s i = Some rc"
    and "(rd_step mem_ops ms_env h other)\<^sup>*\<^sup>* (rd_start r s) y"
  shows "(\<exists>rc'. ms_content (sysS y) i = Some rc' \<and> same_payload rc rc')
    \<or> (\<exists>y1 l. (rd_step mem_ops ms_env h other)\<^sup>*\<^sup>* (rd_start r s) y1 \<and> l \<in> set (sysRun y1)
         \<and> lease_id l = i \<and> fst (h (lRecord l) (lToken l) (sysS y1)) = FnOk)"
proof -
  have "ms_ok (sysS (rd_start r s))" "ms_content (sysS (rd_start r s)) i = Some rc" using assms(1,4) by (simp_all add: rd_start_def)
  from mem.rd_reach_keeps [OF assms(5) [unfolded mem_ops_def] assms(2,3) this, folded mem_ops_def] show ?thesis by blast
qed

lemma ex_content: "ms_content ex_store ''a'' = Some (filled (ex_rec ''a'' ''k1'' ''db'') 1 1)"
  by (simp add: ms_content_def q_find_def ex_store_facts(3) del: abs_sel) (simp add: ex_rec_def)

theorem record_leaves_only_after_success_witness:
  "(\<exists>rc'. ms_content (sysS ex_filled) ''a'' = Some rc' \<and> same_payload (filled (ex_rec ''a'' ''k1'' ''db'') 1 1) rc')
   \<or> (\<exists>y1 l. (rd_step mem_ops ms_env ex_handler (=))\<^sup>*\<^sup>* (rd_start ex_rd ex_store) y1 \<and> l \<in> set (sysRun y1)
         \<and> lease_id l = ''a'' \<and> fst (ex_handler (lRecord l) (lToken l) (sysS y1)) = FnOk)"
  using record_leaves_only_after_success [OF ex_store_ok ex_handler_safe ex_content ex_filled_step] .

text \<open>
  C33: a turn of the dispatcher queues no record that waits for a dependency whose circuit refuses calls
  at that moment, neither among the configured breakers nor among those of the breaker source, and never
  more records than there is room for.
\<close>

theorem open_circuit_not_fed:
  assumes "ms_ok s" and "ms_env (feLease fe) s" and "0 \<le> rdInflight r"
    and "fill_once mem_ops fe (r, q, s) = (nx, r', q', s')"
  shows "\<exists>new. q' = q @ new \<and> (new \<noteq> [] \<longrightarrow> rdInflight r + int (length new) \<le> capacity r)
    \<and> (\<forall>l \<in> set new. \<forall>n b. (n, b) \<in> set (feBreakers fe) \<union> set (feSource fe) \<longrightarrow> pb_Refusing (feNow fe) b \<longrightarrow> rBlockedOn (lRecord l) \<noteq> n)"
  using mem.fill_new_leases [OF assms(1-3) assms(4) [unfolded mem_ops_def]] by blast

theorem open_circuit_not_fed_witness:
  "\<exists>new. sysQ ex_filled = new \<and> int (length new) \<le> 8"
proof -
  obtain nx r q s where f: "fill_once mem_ops ex_fill (ex_rd, [], ex_store) = (nx, r, q, s)" by (metis prod_cases4)
  have r0: "rdInflight ex_rd = 0" "capacity ex_rd = 8"
    by (simp_all add: ex_rd_def NewRedriver_def Let_def capacity_def with_defaults_def ex_rcfg_def)
  have "ms_env (feLease ex_fill) ex_store" using ex_store_env(1) by (simp add: ex_fill_def)
  from open_circuit_not_fed [OF ex_store_ok this _ f] r0 obtain new where "q = new" "new \<noteq> [] \<longrightarrow> int (length new) \<le> 8" by auto
  moreover have "sysQ ex_filled = q" using f by (simp add: ex_filled_def)
  ultimately show ?thesis by (cases "new = []") auto
qed

section \<open>What becomes of a record\<close>

text \<open>A settling call by the current lease holder on an open store takes effect.\<close>

lemma mem_settle_held:
  assumes "ms_ok s" and "ms_begin e s = ok" and "q_held (ms_queue s) i tok = Inr en" and "\<forall>req. op \<noteq> OpLease req"
    and "q_step e op (ms_queue s) = q_settle (q_held (ms_queue s) i tok) (q_checked ok g) (ms_queue s)"
    and "ms_step e op s = (RErr res, s')"
  shows "res = ok \<and> ms_queue s' = g (ms_queue s)"
  using ms_stepD_other(2) [OF assms(1,4,6)] assms(2,3,5)
  by (auto simp: q_call_def ms_begin_def q_settle_def q_checked_def split: option.splits if_splits)

lemma held_content: "q_held (ms_queue s) i tok = Inr en \<Longrightarrow> q_find (ms_queue s) i = Some en"
  using q_held_found by blast

lemma mem_nack_held:
  assumes "ms_ok s" and "ms_begin e s = ok" and "q_held (ms_queue s) i tok = Inr en" and "ms_Nack e i tok opts s = (res, s')"
  shows "res = ok \<and> ms_content s' i = Some (eRec (e_nack (clockNow e) (clockNow e + nDelay opts) (nErr opts) (nBlockedOn opts) (nRefund opts) en))"
  using mem_settle_held [OF assms(1-3) _ q_step_Nack, of opts res s'] assms(4) held_content [OF assms(3)]
  by (simp add: ms_step_def ms_content_queue q_content_def q_find_upd)

lemma mem_release_held:
  assumes "ms_ok s" and "ms_begin e s = ok" and "q_held (ms_queue s) i tok = Inr en" and "ms_Release e i tok s = (res, s')"
  shows "res = ok \<and> ms_content s' i = Some (eRec (e_release en))"
  using mem_settle_held [OF assms(1-3) _ q_step_Release, of res s'] assms(4) held_content [OF assms(3)]
  by (simp add: ms_step_def ms_content_queue q_content_def q_find_upd)

lemma mem_park_held:
  assumes "ms_ok s" and "ms_begin e s = ok" and "q_held (ms_queue s) i tok = Inr en" and "ms_Park e i tok why s = (res, s')"
  shows "res = ok \<and> ms_content s' i = Some (eRec (e_park (clockNow e) why en))"
  using mem_settle_held [OF assms(1-3) _ q_step_Park, of why res s'] assms(4) held_content [OF assms(3)]
  by (simp add: ms_step_def ms_content_queue q_content_def q_find_upd)

lemma q_step_Ack: "q_step e (OpAck i tok) q = q_settle (q_held q i tok) (q_checked ok (q_remove i)) q"
  by (simp add: q_step_def)

lemma mem_ack_held:
  assumes "ms_ok s" and "ms_begin e s = ok" and "q_held (ms_queue s) i tok = Inr en" and "ms_Ack e i tok s = (res, s')"
  shows "res = ok \<and> ms_content s' i = None"
  using mem_settle_held [OF assms(1-3) _ q_step_Ack, of res s'] assms(4)
  by (simp add: ms_step_def ms_content_queue q_content_def q_find_remove)

lemma mem_ops_sel [simp]:
  "doLease mem_ops = ms_Lease" "doCheckpoint mem_ops = ms_Checkpoint" "doAck mem_ops = ms_Ack" "doNack mem_ops = ms_Nack"
  "doRelease mem_ops = ms_Release" "doPark mem_ops = ms_Park"
  by (simp_all add: mem_ops_def)

lemma park_outcome:
  assumes "ms_ok s" and "ms_begin e s = ok" and "q_held (ms_queue s) (lease_id l) (lToken l) = Inr en"
    and "park mem_ops e l why (r, s) = (r', s')"
  shows "ms_content s' (lease_id l) = Some (eRec (e_park (clockNow e) why en)) \<and> rdParked r' = rdParked r + 1"
proof -
  obtain res s1 where p: "ms_Park e (lease_id l) (lToken l) why s = (res, s1)" by fastforce
  note P = mem_park_held [OF assms(1-3) p]
  with p assms(4) show ?thesis by (auto simp: park_def Let_def rd_emit_def split: option.splits if_splits)
qed

lemma block_outcome:
  assumes "ms_ok s" and "ms_begin e s = ok" and "q_held (ms_queue s) (lease_id l) (lToken l) = Inr en"
    and "block mem_ops e now l d rf c (r, s) = (r', s')"
  defines "att \<equiv> rAttempts (lRecord l)" and "hold \<equiv> rcPollInterval (rdCfg r) * 2"
  shows "if \<not> rf \<and> rcMaxAttempts (rdCfg r) \<le> att
    then ms_content s' (lease_id l) = Some (eRec (e_park (clockNow e) (gave_up att (rd_redact r c)) en))
    else ms_content s' (lease_id l) = Some (eRec (e_nack (clockNow e) (clockNow e + (if rf then hold else max hold (rd_backoff r att)))
           (rd_redact r c) d rf en))"
proof (cases "\<not> rf \<and> rcMaxAttempts (rdCfg r) \<le> att")
  case True
  with assms(4) park_outcome [OF assms(1-3)] show ?thesis by (simp add: block_def att_def Let_def)
next
  case False
  let ?o = "\<lparr>nDelay = if rf then hold else max hold (rd_backoff r att), nErr = rd_redact r c, nBlockedOn = d, nRefund = rf\<rparr>"
  obtain res s1 where n: "ms_Nack e (lease_id l) (lToken l) ?o s = (res, s1)" by fastforce
  note N = mem_nack_held [OF assms(1-3) n]
  have "s' = s1" using assms(4) False n N unfolding att_def hold_def by (auto simp: block_def Let_def split: option.splits)
  with N False show ?thesis by auto
qed

text \<open>What an error does to the stored record, given the attempts counted when it was leased.\<close>

definition settled_record :: "Redriver \<Rightarrow> bool \<Rightarrow> time \<Rightarrow> Record \<Rightarrow> gerror \<Rightarrow> entry \<Rightarrow> Record \<Rightarrow> bool" where
  "settled_record r ce now rec err en rc' \<longleftrightarrow>
     same_payload (eRec en) rc' \<and>
     (let att = rAttempts rec; mx = rcMaxAttempts (rdCfg r); hold = rcPollInterval (rdCfg r) * 2;
          pick = (\<lambda>d. if d \<noteq> '''' then d else if rBlockedOn rec \<noteq> '''' then rBlockedOn rec else rBlockedOn (eRec en));
          back = (if 0 < rAttempts (eRec en) then rAttempts (eRec en) - 1 else rAttempts (eRec en))
      in case (as_blocked err, as_open err) of
           (Some (d, _, True), _) \<Rightarrow> rState rc' = Pending \<and> rBlockedOn rc' = pick d \<and> rAttempts rc' = back \<and> rNextAttempt rc' = now + hold
         | (Some (d, _, False), _) \<Rightarrow>
             if mx \<le> att then rState rc' = Parked
             else rState rc' = Pending \<and> rBlockedOn rc' = pick d \<and> rAttempts rc' = rAttempts (eRec en)
               \<and> rNextAttempt rc' = now + max hold (rd_backoff r att)
         | (None, Some (n, _)) \<Rightarrow> rState rc' = Pending \<and> rBlockedOn rc' = pick n \<and> rAttempts rc' = back \<and> rNextAttempt rc' = now + hold
         | (None, None) \<Rightarrow>
             if IsPermanent (Some err) then rState rc' = Parked
             else if ce then rState rc' = Pending \<and> rAttempts rc' = back
             else if mx \<le> att then rState rc' = Parked
             else rState rc' = Pending \<and> rAttempts rc' = rAttempts (eRec en) \<and> rNextAttempt rc' = now + rd_backoff r att)"

lemma settle_outcome:
  assumes m: "ms_ok s" "ms_begin e s = ok" "q_held (ms_queue s) (lease_id l) (lToken l) = Inr en"
    and st: "settle mem_ops e ce now l res (r, s) = (r', s')"
  shows "case res of None \<Rightarrow> ms_content s' (lease_id l) = None
    | Some err \<Rightarrow> (\<exists>rc'. ms_content s' (lease_id l) = Some rc' \<and> settled_record r ce (clockNow e) (lRecord l) err en rc')"
proof (cases res)
  case None
  obtain a s1 where "ms_Ack e (lease_id l) (lToken l) s = (a, s1)" by fastforce
  with mem_ack_held [OF m this] st None show ?thesis by (auto simp: settle_def Let_def)
next
  case (Some err)
  consider d x b where "as_blocked err = Some (d, x, b)" | n os where "as_blocked err = None" "as_open err = Some (n, os)"
    | "as_blocked err = None" "as_open err = None" by (metis option.exhaust surj_pair)
  then show ?thesis
  proof cases
    case 1
    then have "block mem_ops e now l (if d \<noteq> '''' then d else rBlockedOn (lRecord l)) b err (r, s) = (r', s')"
      using st Some by (simp add: settle_def Let_def)
    from block_outcome [OF m this] 1 Some show ?thesis
      by (cases b) (auto simp: settled_record_def e_nack_def e_park_def same_payload_def split: if_splits)
  next
    case 2
    then have "block mem_ops e now l (if n \<noteq> '''' then n else rBlockedOn (lRecord l)) True err (r, s) = (r', s')"
      using st Some by (simp add: settle_def Let_def)
    from block_outcome [OF m this] 2 Some show ?thesis
      by (auto simp: settled_record_def e_nack_def same_payload_def split: if_splits)
  next
    case 3
    let ?o = "\<lparr>nDelay = rd_backoff r (rAttempts (lRecord l)), nErr = rd_redact r err, nBlockedOn = '''', nRefund = False\<rparr>"
    obtain a1 s1 where rel: "ms_Release e (lease_id l) (lToken l) s = (a1, s1)" by fastforce
    obtain a2 s2 where nk: "ms_Nack e (lease_id l) (lToken l) ?o s = (a2, s2)" by fastforce
    note R = mem_release_held [OF m rel] and N = mem_nack_held [OF m nk]
    have rel': "ms_Release e (lease_id l) (lToken l) s = (ok, s1)" and nk': "ms_Nack e (lease_id l) (lToken l) ?o s = (ok, s2)"
      using rel nk R N by simp_all
    consider (park) why where "park mem_ops e l why (r, s) = (r', s')" "IsPermanent (Some err) \<or> \<not> ce \<and> rcMaxAttempts (rdCfg r) \<le> rAttempts (lRecord l)"
      | (rel) "s' = s1" "\<not> IsPermanent (Some err)" "ce"
      | (nack) "s' = s2" "\<not> IsPermanent (Some err)" "\<not> ce" "\<not> rcMaxAttempts (rdCfg r) \<le> rAttempts (lRecord l)"
      using st 3 Some rel' nk' by (auto simp: settle_def Let_def rel' nk' split: if_splits)
    then show ?thesis
    proof cases
      case park
      from park_outcome [OF m park(1)] park(2) 3 Some show ?thesis by (auto simp: settled_record_def e_park_def same_payload_def)
    next
      case rel
      with R 3 Some show ?thesis by (auto simp: settled_record_def e_release_def same_payload_def)
    next
      case nack
      with N 3 Some show ?thesis by (auto simp: settled_record_def e_nack_def same_payload_def)
    qed
  qed
qed

text \<open>
  What becomes of a record whose lease is handled while the store is open and the lease still held: a
  handler that returns nil removes it; a blocked dependency puts it back waiting for that dependency, the
  attempt refunded if nothing was called; a permanent failure parks it; an interruption by shutdown puts it
  back with its attempt refunded; any other failure puts it back after the backoff, and parks it when the
  attempts are used up.  A record leased more often than allowed is parked without being handled.
\<close>

theorem process_outcome:
  assumes "ms_ok s" and "ms_ok s1" and "ms_begin (peStore pe) s1 = ok" and "\<not> peCtxStart pe"
    and "s1 = (if rcMaxAttempts (rdCfg r) < rAttempts (lRecord l) then s else snd (h (lRecord l) (lToken l) s))"
    and "q_held (ms_queue s1) (lease_id l) (lToken l) = Inr en" and "process mem_ops h pe l (r, s) = (r', s')"
  shows "if rcMaxAttempts (rdCfg r) < rAttempts (lRecord l)
    then \<exists>rc'. ms_content s' (lease_id l) = Some rc' \<and> same_payload (eRec en) rc' \<and> rState rc' = Parked
    else (case rd_call (fst (h (lRecord l) (lToken l) s)) of
            None \<Rightarrow> ms_content s' (lease_id l) = None
          | Some err \<Rightarrow> (\<exists>rc'. ms_content s' (lease_id l) = Some rc'
              \<and> settled_record r (peCtxEnd pe) (clockNow (peStore pe)) (lRecord l) err en rc'))"
proof -
  obtain r1 where b: "process_body mem_ops h pe l (r, s) = (r1, s')"
    using assms(7) by (auto simp: process_def map_prod_def split: prod.splits)
  show ?thesis
  proof (cases "rcMaxAttempts (rdCfg r) < rAttempts (lRecord l)")
    case True
    with b assms(4) have "park mem_ops (peStore pe) l (too_often (rAttempts (lRecord l)) (rcMaxAttempts (rdCfg r))) (r, s) = (r1, s')"
      by (simp add: process_body_def Let_def)
    from park_outcome [OF assms(1) _ _ this] True assms(3,5,6) show ?thesis
      by (simp add: e_park_def same_payload_def)
  next
    case False
    obtain out s2 where o2: "h (lRecord l) (lToken l) s = (out, s2)" by fastforce
    with False assms(5) have "s2 = s1" by simp
    with b assms(4) False o2 have "settle mem_ops (peStore pe) (peCtxEnd pe) (peNow pe) l (rd_call out) (r, s1) = (r1, s')"
      by (simp add: process_body_def Let_def)
    from settle_outcome [OF assms(2,3,6) this] False o2 show ?thesis by simp
  qed
qed

definition ex_held :: MemoryStore where
  "ex_held = snd (ms_run (ex_run @ [ex_lease]) (NewMemoryStore ex_opts))"

definition ex_lease_a :: Lease where
  "ex_lease_a = \<lparr>lRecord = (filled (ex_rec ''a'' ''k1'' ''db'') 1 1)\<lparr>rState := Leased, rAttempts := 1\<rparr>,
     lToken = newToken ''aaaaaaaaaaaaaaaa'', lUntil = 33\<rparr>"

definition ex_bad :: "MemoryStore handler" where
  "ex_bad rec tok s = (FnErr (EPermanent (EText ''bad'')), s)"

definition ex_proc :: "call_env process_env" where
  "ex_proc = \<lparr>peCtxStart = False, peCtxEnd = False, peNow = 4, peStore = ex_env 4 []\<rparr>"

lemma ex_held_facts:
  "ms_ok ex_held" "ms_begin (ex_env 4 []) ex_held = ok"
  "\<exists>en. q_held (ms_queue ex_held) ''a'' (newToken ''aaaaaaaaaaaaaaaa'') = Inr en"
proof -
  show "ms_ok ex_held" using run_refines_aux [OF ms_ok_new ex_lease_env] by (simp add: ex_held_def)
  have "msClosed ex_held = False"
    by (simp add: ex_held_def ms_run_append ex_store_def [symmetric] ex_lease_def ex_store_facts(2) Let_def case_prod_beta)
  then show "ms_begin (ex_env 4 []) ex_held = ok" by (simp add: ms_begin_def ex_env_def)
  show "\<exists>en. q_held (ms_queue ex_held) ''a'' (newToken ''aaaaaaaaaaaaaaaa'') = Inr en"
    by (simp add: q_held_def q_find_def ex_held_def ex_leased del: abs_sel) (simp add: filled_def ex_rec_def newToken_def hexEncode_def)
qed

theorem process_outcome_witness:
  "\<exists>rc'. ms_content (snd (process mem_ops ex_bad ex_proc ex_lease_a (ex_rd, ex_held))) ''a'' = Some rc' \<and> rState rc' = Parked"
proof -
  have id: "lease_id ex_lease_a = ''a''" "lToken ex_lease_a = newToken ''aaaaaaaaaaaaaaaa''" "rAttempts (lRecord ex_lease_a) = 1"
    by (simp_all add: ex_lease_a_def filled_def ex_rec_def)
  have mx: "rcMaxAttempts (rdCfg ex_rd) = 10"
    by (simp add: ex_rd_def NewRedriver_def Let_def with_defaults_def ex_rcfg_def)
  from ex_held_facts(3) obtain en where en: "q_held (ms_queue ex_held) (lease_id ex_lease_a) (lToken ex_lease_a) = Inr en"
    by (auto simp: id)
  have s1: "ex_held = (if rcMaxAttempts (rdCfg ex_rd) < rAttempts (lRecord ex_lease_a) then ex_held
      else snd (ex_bad (lRecord ex_lease_a) (lToken ex_lease_a) ex_held))" by (simp add: ex_bad_def)
  obtain r' s' where p: "process mem_ops ex_bad ex_proc ex_lease_a (ex_rd, ex_held) = (r', s')" by fastforce
  have env: "ms_begin (peStore ex_proc) ex_held = ok" "\<not> peCtxStart ex_proc" using ex_held_facts(2) by (simp_all add: ex_proc_def)
  from process_outcome [OF ex_held_facts(1,1) env s1 en p]
  show ?thesis by (auto simp: id mx p ex_bad_def rd_call_def settled_record_def IsPermanent_def)
qed

section \<open>The rate\<close>

text \<open>
  What happens to the limiter, in order: a reservation of at most so many tokens at a time, tokens given
  back, and the recovery of a dependency at a time.
\<close>

datatype lim_event = LReserve time int | LGive int | LRecovered time

fun lim_run :: "lim_event list \<Rightarrow> limiter \<Rightarrow> int \<times> limiter" where
  "lim_run [] l = (0, l)"
| "lim_run (LReserve t mx # es) l =
     (case lim_reserve t mx l of ((g, _), l1) \<Rightarrow> (case lim_run es l1 of (n, l2) \<Rightarrow> (g + n, l2)))"
| "lim_run (LGive k # es) l = (case lim_run es (lim_give k l) of (n, l2) \<Rightarrow> (n - max 0 k, l2))"
| "lim_run (LRecovered t # es) l = lim_run es (recovered t l)"

text \<open>The events happen at times that do not decrease, from \<open>t0\<close> to \<open>t1\<close>, in the range of Go's clock.\<close>

fun lim_times :: "time \<Rightarrow> lim_event list \<Rightarrow> time \<Rightarrow> bool" where
  "lim_times t0 [] t1 = (t0 \<le> t1)"
| "lim_times t0 (LReserve t mx # es) t1 = (t0 \<le> t \<and> 0 < mx \<and> lim_times t es t1)"
| "lim_times t0 (LGive k # es) t1 = lim_times t0 es t1"
| "lim_times t0 (LRecovered t # es) t1 = (t0 \<le> t \<and> lim_times t es t1)"

definition lim_ok :: "time \<Rightarrow> limiter \<Rightarrow> bool" where
  "lim_ok t l \<longleftrightarrow> 0 < lmRate l \<and> 0 \<le> lmTokens l \<and> lmTokens l \<le> lmBurst l \<and> (IsZero (lmLast l) \<or> lmLast l \<le> t)
     \<and> (IsZero (lmRampStart l) \<or> lmRampStart l \<le> t)"

lemma time_sub_mono: "u \<le> t \<Longrightarrow> 0 \<le> time_sub t u \<and> time_sub t u \<le> t - u"
  by (auto simp: time_sub_def max_duration_def min_duration_def)

lemma factor_bounds:
  assumes "lim_ok t l" and "t \<le> now"
  shows "0 \<le> factor now l \<and> factor now l \<le> 1"
proof (cases "lmRampUp l \<le> 0 \<or> IsZero (lmRampStart l)")
  case False
  let ?e = "time_sub now (lmRampStart l)"
  have e: "0 \<le> ?e" using assms False time_sub_mono [of "lmRampStart l" now] by (auto simp: lim_ok_def)
  show ?thesis
  proof (cases "lmRampUp l \<le> ?e")
    case lt: False
    have "(of_int ?e :: rat) / of_int (lmRampUp l) \<le> 1" "0 \<le> (of_int ?e :: rat) / of_int (lmRampUp l)"
      using e lt False by (simp_all add: divide_le_eq)
    moreover have "factor now l = 1 / 10 + 9 / 10 * (of_int ?e / of_int (lmRampUp l))"
      using lt False by (simp add: factor_def Let_def)
    ultimately show ?thesis by linarith
  qed (use False in \<open>simp add: factor_def\<close>)
qed (simp add: factor_def)

definition lim_since :: "time \<Rightarrow> limiter \<Rightarrow> time" where
  "lim_since t l = (if IsZero (lmLast l) then t else lmLast l)"

lemma seconds_mono: "a \<le> b \<Longrightarrow> seconds a \<le> seconds b"
  by (simp add: seconds_def)

lemma seconds_diff: "seconds (a - b) = seconds a - seconds b"
  by (simp add: seconds_def diff_divide_distrib)

lemma reserve_accounts:
  assumes "lim_ok t0 l" and "t0 \<le> t" and "0 < mx" and "lim_reserve t mx l = ((g, wt), l1)"
  shows "lim_ok t l1 \<and> lmRate l1 = lmRate l \<and> lmBurst l1 = lmBurst l \<and> lim_since t l1 = t
    \<and> of_int g + lmTokens l1 \<le> lmTokens l + lmRate l * seconds (t - lim_since t0 l)"
proof -
  let ?rate = "lmRate l * factor t l"
  let ?tok = "if IsZero (lmLast l) then lmTokens l else min (lmBurst l) (lmTokens l + ?rate * seconds (time_sub t (lmLast l)))"
  have f: "0 \<le> factor t l" "factor t l \<le> 1" using factor_bounds [OF assms(1,2)] by auto
  have r: "0 < lmRate l" "0 \<le> lmTokens l" "lmTokens l \<le> lmBurst l" using assms(1) by (auto simp: lim_ok_def)
  have refill: "0 \<le> ?rate * seconds (time_sub t (lmLast l)) \<and> ?rate * seconds (time_sub t (lmLast l)) \<le> lmRate l * seconds (t - lmLast l)"
    if "\<not> IsZero (lmLast l)"
  proof -
    have d: "0 \<le> time_sub t (lmLast l)" "time_sub t (lmLast l) \<le> t - lmLast l"
      using that assms(1,2) time_sub_mono [of "lmLast l" t] by (auto simp: lim_ok_def)
    have "seconds (time_sub t (lmLast l)) \<le> seconds (t - lmLast l)" "0 \<le> seconds (time_sub t (lmLast l))"
      using seconds_mono [OF d(2)] d(1) by (simp_all add: seconds_def)
    then have "factor t l * seconds (time_sub t (lmLast l)) \<le> 1 * seconds (t - lmLast l)" "0 \<le> factor t l * seconds (time_sub t (lmLast l))"
      using f mult_mono [of "factor t l" 1 "seconds (time_sub t (lmLast l))" "seconds (t - lmLast l)"] by simp_all
    then show ?thesis using r(1) by (simp add: mult.assoc)
  qed
  have tok: "0 \<le> ?tok" "?tok \<le> lmBurst l" "?tok \<le> lmTokens l + lmRate l * seconds (t - lim_since t0 l)"
  proof (atomize (full), cases "IsZero (lmLast l)")
    case True
    have "0 \<le> lmRate l * seconds (t - t0)" using r(1) assms(2) by (simp add: seconds_def)
    with True r show "0 \<le> ?tok \<and> ?tok \<le> lmBurst l \<and> ?tok \<le> lmTokens l + lmRate l * seconds (t - lim_since t0 l)"
      by (simp add: lim_since_def)
  next
    case False
    have "min (lmBurst l) (lmTokens l + ?rate * seconds (time_sub t (lmLast l))) \<le> lmTokens l + lmRate l * seconds (t - lmLast l)"
      by (rule min.coboundedI2) (use refill [OF False] in linarith)
    with False r refill [OF False] show "0 \<le> ?tok \<and> ?tok \<le> lmBurst l \<and> ?tok \<le> lmTokens l + lmRate l * seconds (t - lim_since t0 l)"
      by (simp add: lim_since_def)
  qed
  have l1: "l1 = l\<lparr>lmTokens := ?tok - of_int g, lmLast := t\<rparr> \<and> g = (if 1 \<le> ?tok then min mx \<lfloor>?tok\<rfloor> else 0)"
    using assms(4) r(1) by (auto simp: lim_reserve_def Let_def split: if_splits)
  have "(of_int g :: rat) \<le> ?tok" using l1 tok(1) by (auto simp: min_def of_int_floor_le split: if_splits) (meson le_floor_iff not_le order_trans linear)+
  moreover have "0 \<le> g" using l1 assms(3) by (auto simp: min_def)
  ultimately show ?thesis using l1 tok assms(1,2) by (auto simp: lim_ok_def lim_since_def)
qed

lemma lim_run_accounts:
  assumes "lim_ok t0 l" and "lim_times t0 es t1" and "lim_run es l = (n, l')"
  shows "of_int n + lmTokens l' \<le> lmTokens l + lmRate l * seconds (t1 - lim_since t0 l) \<and> 0 \<le> lmTokens l'"
  using assms
proof (induction es arbitrary: t0 l n)
  case Nil
  then have "0 \<le> lmRate l * seconds (t1 - lim_since t0 l)"
    by (auto simp: lim_ok_def lim_since_def seconds_def intro!: mult_nonneg_nonneg)
  with Nil show ?case by (simp add: lim_ok_def)
next
  case (Cons ev es)
  show ?case
  proof (cases ev)
    case (LReserve t mx)
    obtain g wt l1 where g: "lim_reserve t mx l = ((g, wt), l1)" by (metis prod.collapse)
    obtain m where m: "lim_run es l1 = (m, l')" "n = g + m" using Cons.prems(3) LReserve g by (auto split: prod.splits)
    have t: "t0 \<le> t" "0 < mx" "lim_times t es t1" using Cons.prems(2) LReserve by auto
    note A = reserve_accounts [OF Cons.prems(1) t(1,2) g]
    have "of_int m + lmTokens l' \<le> lmTokens l1 + lmRate l * seconds (t1 - t) \<and> 0 \<le> lmTokens l'"
      using Cons.IH [OF _ t(3) m(1)] A by simp
    moreover have "lmRate l * seconds (t1 - t) + lmRate l * seconds (t - lim_since t0 l) = lmRate l * seconds (t1 - lim_since t0 l)"
      by (simp add: seconds_diff algebra_simps)
    ultimately show ?thesis using A m(2) by auto
  next
    case (LGive k)
    obtain m where m: "lim_run es (lim_give k l) = (m, l')" "n = m - max 0 k" using Cons.prems(3) LGive by (auto split: prod.splits)
    have "lim_ok t0 (lim_give k l)" "lim_since t0 (lim_give k l) = lim_since t0 l" "lmRate (lim_give k l) = lmRate l"
      "lmTokens (lim_give k l) \<le> lmTokens l + of_int (max 0 k)"
      using Cons.prems(1) by (auto simp: lim_give_def lim_ok_def lim_since_def)
    with Cons.IH [OF _ _ m(1), of t0] Cons.prems(2) LGive m(2) show ?thesis by auto
  next
    case (LRecovered t)
    have t: "t0 \<le> t" "lim_times t es t1" using Cons.prems(2) LRecovered by auto
    have r: "lim_ok t (recovered t l)" "lmRate (recovered t l) = lmRate l" "lmTokens (recovered t l) = 0" "0 \<le> lmTokens l" "0 < lmRate l"
      "lim_since t0 l \<le> lim_since t (recovered t l)"
      using Cons.prems(1) t(1) by (auto simp: recovered_def lim_ok_def lim_since_def)
    have le: "lmRate l * seconds (t1 - lim_since t (recovered t l)) \<le> lmRate l * seconds (t1 - lim_since t0 l)"
      using r(5,6) seconds_mono [of "t1 - lim_since t (recovered t l)" "t1 - lim_since t0 l"] by (simp add: mult_left_mono)
    have "of_int n + lmTokens l' \<le> lmTokens (recovered t l) + lmRate l * seconds (t1 - lim_since t (recovered t l)) \<and> 0 \<le> lmTokens l'"
      using Cons.IH [OF r(1) t(2)] Cons.prems(3) LRecovered r(2) by simp
    with le r(3,4) show ?thesis by linarith
  qed
qed



end
