(* ===== verification/GG_Consumer.thy ===== *)
theory GG_Consumer
  imports GG_Pipeline
begin

text \<open>
  \<open>kafka/consumer.go\<close>: the consumer takes messages from a client, runs each through the pipeline
  bound to its topic, on its own goroutine or on a pool of workers, and commits an offset once it and every
  offset before it are safe.

  The consumer's state is owned by one goroutine, so an operation is a function on it.  What the code reaches
  through interfaces (the client, the clock, the context, the mirror) is a world \<open>'w\<close> that the functions of
  \<open>consumer_env\<close> read and change; the store is a state \<open>'s\<close> with the two methods the consumer calls.  A Go map
  that the code ranges over is an association list in the order of the iteration.  Offsets and counters
  are unbounded: a partition does not reach \<open>2 ^ 63\<close> messages.

  Three fields record what happened and are never read: \<open>cnCalls\<close> (the calls on the client), \<open>cnLog\<close> (the
  messages executed, with their results) and \<open>cnStarts\<close> (the offset at which each assignment began).
\<close>

section \<open>Data\<close>

record TopicPartition =
  tpTopic :: string
  tpPartition :: int

record TopicPartitionOffset =
  poTP :: TopicPartition
  poOffset :: int

record Message =
  mTP :: TopicPartition
  mOffset :: int
  mKey :: bytes
  mValue :: bytes
  mHeaders :: "Header list"
  mTimestamp :: time

record ClientHealth =
  chAllBrokersDown :: bool
  chSince :: time
  chLastError :: string

definition TP_String :: "TopicPartition \<Rightarrow> string" where
  "TP_String tp = tpTopic tp @ ''['' @ FormatInt (tpPartition tp) @ '']''"

datatype UnstorablePolicy = UnstorableHalt | UnstorableSkip

datatype Durability = DurabilityUnknown | DurabilityVolatile | DurabilityBuffered | DurabilityDurable

definition Durability_String :: "Durability \<Rightarrow> string" where
  "Durability_String d = (case d of DurabilityVolatile \<Rightarrow> ''volatile'' | DurabilityBuffered \<Rightarrow> ''buffered''
     | DurabilityDurable \<Rightarrow> ''durable'' | DurabilityUnknown \<Rightarrow> ''unknown'')"

text \<open>What a store reports of itself; a store that does not report is \<open>None\<close>.\<close>

definition StoreDurability :: "Durability option \<Rightarrow> Durability" where
  "StoreDurability rep = (case rep of Some d \<Rightarrow> d | None \<Rightarrow> DurabilityUnknown)"

datatype ConsumerCode =
    ConsumerDeferred | ConsumerParked | ConsumerOrderHeld | ConsumerRetry | ConsumerBackpressure | ConsumerUnstorable
  | ConsumerPaused | ConsumerResumed | ConsumerCommitFailed | ConsumerMirrorFailed | ConsumerRebalance

record ConsumerEvent =
  ceCode :: ConsumerCode
  ceTopic :: string
  cePartition :: int
  ceOffset :: int
  ceReason :: string

record 'w Binding =
  bdTopic :: string
  bdPipeline :: "'w Pipeline option"

record 'w CConfig =
  cgBindings :: "'w Binding list"
  cgWorkers :: int
  cgMaxInFlight :: int
  cgIgnoreKeyOrder :: bool
  cgPollTimeout :: duration
  cgCommitInterval :: duration
  cgCommitBatch :: int
  cgProcessTimeout :: duration
  cgShutdownTimeout :: duration
  cgRetryBackoff :: "Backoff option"
  cgBrokersDownTimeout :: duration
  cgRequireDurableStore :: bool
  cgOnUnstorable :: UnstorablePolicy
  cgIDNamespace :: string
  cgMirrorTimeout :: duration
  cgMirror :: "(Record \<Rightarrow> string \<Rightarrow> 'w \<Rightarrow> goerr \<times> 'w) option"

record Part =
  ptPaused :: bool
  ptPauseReason :: string
  ptRetryAt :: time
  ptFailures :: int
  ptGen :: nat
  ptNext :: int
  ptFrontier :: int
  ptCompleted :: "int list"
  ptInflight :: int
  ptFailedAt :: int

record 'w binding =
  bnPipeline :: "'w Pipeline"
  bnBreakers :: "nat list"

record 'w task =
  tkM :: Message
  tkIn :: Input
  tkB :: "'w binding"
  tkGen :: nat

record 'w result =
  rsTask :: "'w task"
  rsRes :: Result
  rsErr :: goerr

record failedKey =
  fkTP :: TopicPartition
  fkKey :: string

record CStats =
  csReceived :: nat
  csDone :: nat
  csDeferred :: nat
  csParked :: nat
  csOrderHeld :: nat
  csRetried :: nat
  csBackpressure :: nat
  csCommits :: nat
  csCommitErrors :: nat
  csRebalances :: nat
  csMirrorErrors :: nat
  csUnstorable :: nat

text \<open>A channel of tasks: nil, open, or closed; sending on a closed channel panics.\<close>

datatype 'a chan = is_nil_chan: NoChan | Chan "'a list" | ClosedChan "'a list"

datatype client_call =
    CallSeek TopicPartition int
  | CallCommit "TopicPartitionOffset list"
  | CallPause "TopicPartition list"
  | CallResume "TopicPartition list"

record 'w Consumer =
  cnCfg :: "'w CConfig"
  cnBindings :: "(string \<times> 'w binding) list"
  cnParts :: "(TopicPartition \<times> Part) list"
  cnSafe :: "(TopicPartition \<times> int) list"
  cnCommitted :: "TopicPartition \<Rightarrow> int option"
  cnSinceCommit :: nat
  cnLastCommit :: time
  cnGen :: nat
  cnBacklog :: "'w task list"
  cnInflight :: int
  cnMaxInFlight :: int
  cnThrottled :: bool
  cnStopping :: bool
  cnWork :: "'w task chan"
  cnResults :: "'w result list"
  cnKeyQueues :: "(failedKey \<times> 'w task list) list"
  cnStats :: CStats
  cnPausedNow :: int
  cnInflightNow :: int
  cnPanicked :: bool
  cnEvents :: "ConsumerEvent list"
  cnCalls :: "client_call list"
  cnLog :: "'w result list"
  cnStarts :: "(TopicPartition \<times> int) list"

text \<open>What \<open>Client.Poll\<close> does: rebalances told to the handler, then an error, a message or nothing.\<close>

datatype rebalance = Assigned "TopicPartition list" | Revoked "TopicPartition list"

type_synonym poll = "rebalance list \<times> (gerror + Message option)"

record 'w consumer_env =
  cvPipe :: "'w pipe_env"
  cvNow :: "'w \<Rightarrow> time"
  cvCtxErr :: "'w \<Rightarrow> bool"
  cvSeek :: "TopicPartition \<Rightarrow> int \<Rightarrow> 'w \<Rightarrow> goerr \<times> 'w"
  cvCommit :: "TopicPartitionOffset list \<Rightarrow> 'w \<Rightarrow> goerr \<times> 'w"
  cvPause :: "TopicPartition list \<Rightarrow> 'w \<Rightarrow> goerr \<times> 'w"
  cvResume :: "TopicPartition list \<Rightarrow> 'w \<Rightarrow> goerr \<times> 'w"
  cvPoll :: "duration \<Rightarrow> 'w \<Rightarrow> poll \<times> 'w"
  cvHealth :: "('w \<Rightarrow> ClientHealth) option"
  cvSha256 :: "string \<Rightarrow> string"
  cvTimeText :: "time \<Rightarrow> string"

section \<open>Construction\<close>

definition cc_defaults :: "(int \<Rightarrow> int) \<Rightarrow> 'w CConfig \<Rightarrow> 'w CConfig" where
  "cc_defaults rnd g =
     (let workers = (if cgWorkers g = 0 then 1 else cgWorkers g);
          mx = (if cgMaxInFlight g = 0 then 4 * workers else cgMaxInFlight g)
      in g\<lparr>
     cgPollTimeout := (if cgPollTimeout g \<le> 0 then 100 * millisecond else cgPollTimeout g),
     cgCommitInterval := (if cgCommitInterval g \<le> 0 then second else cgCommitInterval g),
     cgCommitBatch := (if cgCommitBatch g \<le> 0 then 1000 else cgCommitBatch g),
     cgProcessTimeout := (if cgProcessTimeout g \<le> 0 then 120 * second else cgProcessTimeout g),
     cgMirrorTimeout := (if cgMirrorTimeout g \<le> 0 then 10 * second else cgMirrorTimeout g),
     cgShutdownTimeout := (if cgShutdownTimeout g \<le> 0 then 5 * second else cgShutdownTimeout g),
     cgWorkers := workers,
     cgMaxInFlight := (if mx < workers then workers else mx),
     cgRetryBackoff := (case cgRetryBackoff g of
        None \<Rightarrow> Some (Jitter rnd (Exponential (500 * millisecond) (30 * second)) (3 / 10)) | b \<Rightarrow> b)\<rparr>)"

fun bind_topics :: "'w Binding list \<Rightarrow> (string \<times> 'w binding) list \<Rightarrow> gerror + (string \<times> 'w binding) list" where
  "bind_topics [] acc = Inr acc"
| "bind_topics (b # bs) acc =
     (case bdPipeline b of
        None \<Rightarrow> Inl (EText ''kafka: every Binding needs a Topic and a Pipeline'')
      | Some p \<Rightarrow>
         if bdTopic b = '''' then Inl (EText ''kafka: every Binding needs a Topic and a Pipeline'')
         else if map_of acc (bdTopic b) \<noteq> None
         then Inl (EText (''kafka: topic '' @ quote (bdTopic b) @ '' is bound twice''))
         else bind_topics bs (AList.update (bdTopic b) \<lparr>bnPipeline = p, bnBreakers = Breakers p\<rparr> acc))"

definition zero_stats :: CStats where
  "zero_stats = \<lparr>csReceived = 0, csDone = 0, csDeferred = 0, csParked = 0, csOrderHeld = 0, csRetried = 0, csBackpressure = 0,
     csCommits = 0, csCommitErrors = 0, csRebalances = 0, csMirrorErrors = 0, csUnstorable = 0\<rparr>"

definition new_consumer :: "'w CConfig \<Rightarrow> (string \<times> 'w binding) list \<Rightarrow> 'w Consumer" where
  "new_consumer g bs = \<lparr>cnCfg = g, cnBindings = bs, cnParts = [], cnSafe = [], cnCommitted = Map.empty, cnSinceCommit = 0,
     cnLastCommit = zero_time, cnGen = 0, cnBacklog = [], cnInflight = 0, cnMaxInFlight = cgMaxInFlight g, cnThrottled = False,
     cnStopping = False, cnWork = NoChan, cnResults = [], cnKeyQueues = [], cnStats = zero_stats, cnPausedNow = 0,
     cnInflightNow = 0, cnPanicked = False, cnEvents = [], cnCalls = [], cnLog = [], cnStarts = []\<rparr>"

definition NewConsumer :: "(int \<Rightarrow> int) \<Rightarrow> bool \<Rightarrow> bool \<Rightarrow> Durability option \<Rightarrow> 'w CConfig \<Rightarrow> gerror + 'w Consumer" where
  "NewConsumer rnd hasClient hasStore rep g =
     (if \<not> hasClient \<or> \<not> hasStore then Inl (EText ''kafka: Config needs a Client and a Store'')
      else if cgRequireDurableStore g \<and> StoreDurability rep \<noteq> DurabilityDurable
      then Inl (EWrap (''it reports '' @ Durability_String (StoreDurability rep)) [EVar ErrStoreNotDurable])
      else if cgBindings g = [] then Inl (EText ''kafka: at least one Binding is required'')
      else if cgWorkers g < 0 \<or> cgMaxInFlight g < 0 then Inl (EText ''kafka: Workers and MaxInFlight cannot be negative'')
      else (case bind_topics (cgBindings g) [] of
              Inl err \<Rightarrow> Inl err
            | Inr bs \<Rightarrow> Inr (new_consumer (cc_defaults rnd g) bs)))"

definition Topics :: "'w Consumer \<Rightarrow> string list" where
  "Topics c = map bdTopic (cgBindings (cnCfg c))"

section \<open>Events, counters and calls on the client\<close>

definition cn_emit :: "ConsumerCode \<Rightarrow> TopicPartition \<Rightarrow> int \<Rightarrow> string \<Rightarrow> 'w Consumer \<Rightarrow> 'w Consumer" where
  "cn_emit code tp off reason c = c\<lparr>cnEvents := cnEvents c @ [\<lparr>ceCode = code, ceTopic = tpTopic tp, cePartition = tpPartition tp,
     ceOffset = off, ceReason = reason\<rparr>]\<rparr>"

definition cn_count :: "(CStats \<Rightarrow> CStats) \<Rightarrow> 'w Consumer \<Rightarrow> 'w Consumer" where
  "cn_count f c = c\<lparr>cnStats := f (cnStats c)\<rparr>"

definition cn_called :: "client_call \<Rightarrow> 'w Consumer \<Rightarrow> 'w Consumer" where
  "cn_called k c = c\<lparr>cnCalls := cnCalls c @ [k]\<rparr>"

text \<open>Change the state of a partition that is assigned.\<close>

definition upd_part :: "TopicPartition \<Rightarrow> (Part \<Rightarrow> Part) \<Rightarrow> 'w Consumer \<Rightarrow> 'w Consumer" where
  "upd_part tp f c = (case map_of (cnParts c) tp of None \<Rightarrow> c | Some p \<Rightarrow> c\<lparr>cnParts := AList.update tp (f p) (cnParts c)\<rparr>)"

definition cn_set_inflight :: "int \<Rightarrow> 'w Consumer \<Rightarrow> 'w Consumer" where
  "cn_set_inflight n c = c\<lparr>cnInflight := n, cnInflightNow := n\<rparr>"

definition cn_send :: "'w task \<Rightarrow> 'w Consumer \<Rightarrow> 'w Consumer" where
  "cn_send t c = (case cnWork c of
      NoChan \<Rightarrow> c | Chan q \<Rightarrow> c\<lparr>cnWork := Chan (q @ [t])\<rparr> | ClosedChan q \<Rightarrow> c\<lparr>cnPanicked := True\<rparr>)"

section \<open>Committing\<close>

text \<open>Move the commit point over every finished offset that is contiguous with it.\<close>

function slide :: "int list \<Rightarrow> int \<Rightarrow> int list \<times> int" where
  "slide completed frontier =
     (if frontier \<in> set completed then slide (filter (\<lambda>x. x \<noteq> frontier) completed) (frontier + 1) else (completed, frontier))"
  by pat_completeness auto
termination
  by (relation "measure (\<lambda>(completed, frontier). length completed)") (auto intro: length_filter_less)

declare slide.simps [simp del]

definition markDone :: "TopicPartition \<Rightarrow> int \<Rightarrow> 'w Consumer \<Rightarrow> 'w Consumer" where
  "markDone tp off c =
     (case map_of (cnParts c) tp of
        None \<Rightarrow> c
      | Some p \<Rightarrow>
         (case slide (List.insert off (ptCompleted p)) (ptFrontier p) of
            (done1, f) \<Rightarrow>
              (let c1 = (if f \<noteq> ptFrontier p
                 then c\<lparr>cnParts := AList.update tp (p\<lparr>ptCompleted := done1, ptFrontier := f, ptFailures := 0\<rparr>) (cnParts c),
                        cnSafe := AList.update tp f (cnSafe c)\<rparr>
                 else c\<lparr>cnParts := AList.update tp (p\<lparr>ptCompleted := done1\<rparr>) (cnParts c)\<rparr>)
               in c1\<lparr>cnSinceCommit := cnSinceCommit c1 + 1\<rparr>)))"

definition pending :: "(TopicPartition \<Rightarrow> bool) \<Rightarrow> 'w Consumer \<Rightarrow> TopicPartitionOffset list" where
  "pending only c = map (\<lambda>(tp, off). \<lparr>poTP = tp, poOffset = off\<rparr>)
     (filter (\<lambda>(tp, off). only tp \<and> (case cnCommitted c tp of None \<Rightarrow> True | Some lst \<Rightarrow> lst < off)) (cnSafe c))"

definition set_committed :: "TopicPartitionOffset list \<Rightarrow> 'w Consumer \<Rightarrow> 'w Consumer" where
  "set_committed offs c = c\<lparr>cnCommitted := foldl (\<lambda>m x. m(poTP x \<mapsto> poOffset x)) (cnCommitted c) offs\<rparr>"

definition commitOffsets :: "'w consumer_env \<Rightarrow> TopicPartitionOffset list \<Rightarrow> 'w Consumer \<times> 'w \<Rightarrow> goerr \<times> 'w Consumer \<times> 'w" where
  "commitOffsets v offs cw =
     (case cw of (c, w) \<Rightarrow>
      (case offs of
        [] \<Rightarrow> (ok, c, w)
      | x # _ \<Rightarrow>
         (case cvCommit v offs w of
            (Some err, w1) \<Rightarrow>
              (Some (EWrap ''kafka: committing offsets'' [err]),
               cn_emit ConsumerCommitFailed (poTP x) (poOffset x) ''''
                 (cn_count (\<lambda>n. n\<lparr>csCommitErrors := csCommitErrors n + 1\<rparr>) (cn_called (CallCommit offs) c)), w1)
          | (None, w1) \<Rightarrow>
              (ok, cn_count (\<lambda>n. n\<lparr>csCommits := csCommits n + 1\<rparr>) (set_committed offs (cn_called (CallCommit offs) c)), w1))))"

definition cn_commit :: "'w consumer_env \<Rightarrow> 'w Consumer \<times> 'w \<Rightarrow> goerr \<times> 'w Consumer \<times> 'w" where
  "cn_commit v cw =
     (case commitOffsets v (pending (\<lambda>_. True) (fst cw)) cw of
        (Some err, c1, w1) \<Rightarrow> (Some err, c1, w1)
      | (None, c1, w1) \<Rightarrow> (ok, c1\<lparr>cnSinceCommit := 0, cnLastCommit := cvNow v w1\<rparr>, w1))"

definition maybeCommit :: "'w consumer_env \<Rightarrow> bool \<Rightarrow> 'w Consumer \<times> 'w \<Rightarrow> 'w Consumer \<times> 'w" where
  "maybeCommit v force cw =
     (let c = fst cw
      in if cnSinceCommit c = 0 then cw
         else if force \<or> cgCommitBatch (cnCfg c) \<le> int (cnSinceCommit c)
            \<or> cgCommitInterval (cnCfg c) \<le> time_sub (cvNow v (snd cw)) (cnLastCommit c)
         then snd (cn_commit v cw) else cw)"

definition commitPartitions :: "'w consumer_env \<Rightarrow> TopicPartition list \<Rightarrow> 'w Consumer \<times> 'w \<Rightarrow> 'w Consumer \<times> 'w" where
  "commitPartitions v parts cw = snd (commitOffsets v (pending (\<lambda>tp. tp \<in> set parts) (fst cw)) cw)"

section \<open>Rebalances\<close>

definition keyOf :: "'w task \<Rightarrow> failedKey" where
  "keyOf t = \<lparr>fkTP = mTP (tkM t), fkKey = iOrderKey (tkIn t)\<rparr>"

text \<open>
  \<open>dropQueued\<close>: forget the messages waiting for a key of the partition, for one key (which stays busy) or
  for all of them.
\<close>

definition drops_key :: "TopicPartition \<Rightarrow> string option \<Rightarrow> failedKey \<Rightarrow> bool" where
  "drops_key tp only k \<longleftrightarrow> fkTP k = tp \<and> (case only of None \<Rightarrow> True | Some key \<Rightarrow> fkKey k = key)"

definition queued_len :: "(failedKey \<times> 'w task list) list \<Rightarrow> int" where
  "queued_len kq = sum_list (map (\<lambda>(k, q). int (length q)) kq)"

definition dropQueued :: "TopicPartition \<Rightarrow> string option \<Rightarrow> 'w Consumer \<Rightarrow> 'w Consumer" where
  "dropQueued tp only c =
     (let hit = filter (\<lambda>(k, q). drops_key tp only k) (cnKeyQueues c);
          n = queued_len hit
      in if hit = [] then c
         else cn_set_inflight (cnInflight c - n)
                (upd_part tp (\<lambda>p. p\<lparr>ptInflight := ptInflight p - n\<rparr>)
                   (c\<lparr>cnKeyQueues := (case only of
                        None \<Rightarrow> filter (\<lambda>(k, q). \<not> drops_key tp only k) (cnKeyQueues c)
                      | Some _ \<Rightarrow> map (\<lambda>(k, q). (k, if drops_key tp only k then [] else q)) (cnKeyQueues c))\<rparr>)))"

definition newPartition :: "'w Consumer \<Rightarrow> Part \<times> 'w Consumer" where
  "newPartition c = (\<lparr>ptPaused = False, ptPauseReason = '''', ptRetryAt = zero_time, ptFailures = 0, ptGen = cnGen c + 1,
      ptNext = -1, ptFrontier = -1, ptCompleted = [], ptInflight = 0, ptFailedAt = -1\<rparr>, c\<lparr>cnGen := cnGen c + 1\<rparr>)"

definition assign_one :: "TopicPartition \<Rightarrow> 'w Consumer \<Rightarrow> 'w Consumer" where
  "assign_one tp c = (case newPartition c of (p, c1) \<Rightarrow>
     c1\<lparr>cnParts := AList.update tp p (cnParts c1), cnCommitted := (cnCommitted c1)(tp := None)\<rparr>)"

definition onAssigned :: "TopicPartition list \<Rightarrow> 'w Consumer \<Rightarrow> 'w Consumer" where
  "onAssigned parts c =
     fold assign_one parts
       (fold (\<lambda>tp. cn_emit ConsumerRebalance tp (-1) ''assigned'') parts
         (cn_count (\<lambda>n. n\<lparr>csRebalances := csRebalances n + 1\<rparr>) c))"

definition revoke_one :: "TopicPartition \<Rightarrow> 'w Consumer \<Rightarrow> 'w Consumer" where
  "revoke_one tp c = dropQueued tp None (c\<lparr>cnParts := AList.delete tp (cnParts c), cnSafe := AList.delete tp (cnSafe c),
     cnCommitted := (cnCommitted c)(tp := None)\<rparr>)"

definition onRevoked :: "'w consumer_env \<Rightarrow> TopicPartition list \<Rightarrow> 'w Consumer \<times> 'w \<Rightarrow> 'w Consumer \<times> 'w" where
  "onRevoked v parts cw =
     (case commitPartitions v parts cw of (c, w1) \<Rightarrow>
      (let c1 = fold revoke_one parts c;
           c2 = c1\<lparr>cnBacklog := filter (\<lambda>t. mTP (tkM t) \<notin> set parts) (cnBacklog c1)\<rparr>
       in (fold (\<lambda>tp. cn_emit ConsumerRebalance tp (-1) ''revoked'') parts
             (cn_count (\<lambda>n. n\<lparr>csRebalances := csRebalances n + 1\<rparr>) c2), w1)))"

fun rebalanced :: "'w consumer_env \<Rightarrow> rebalance \<Rightarrow> 'w Consumer \<times> 'w \<Rightarrow> 'w Consumer \<times> 'w" where
  "rebalanced v (Assigned parts) (c, w) = (onAssigned parts c, w)"
| "rebalanced v (Revoked parts) (c, w) = onRevoked v parts (c, w)"

section \<open>Messages\<close>

definition orderKeyFor :: "string \<Rightarrow> bytes \<Rightarrow> string" where
  "orderKeyFor topic key = (case key of None \<Rightarrow> '''' | Some k \<Rightarrow> if k = '''' then '''' else topic @ [CHR 0x00] @ k)"

definition seek_to :: "'w consumer_env \<Rightarrow> TopicPartition \<Rightarrow> int \<Rightarrow> string \<Rightarrow> 'w Consumer \<times> 'w \<Rightarrow> goerr \<times> 'w Consumer \<times> 'w" where
  "seek_to v tp off what cw =
     (case cvSeek v tp off (snd cw) of
        (Some err, w1) \<Rightarrow> (Some (EWrap what [err]), cn_called (CallSeek tp off) (fst cw), w1)
      | (None, w1) \<Rightarrow> (ok, cn_called (CallSeek tp off) (fst cw), w1))"

definition input_of :: "'w consumer_env \<Rightarrow> 'w CConfig \<Rightarrow> Message \<Rightarrow> Input" where
  "input_of v g m =
     \<lparr>iID = KafkaIDIn (cvSha256 v) (cgIDNamespace g) (tpTopic (mTP m)) (tpPartition (mTP m)) (mOffset m),
      iSource = \<lparr>sKind = ''kafka'', sName = tpTopic (mTP m), sPartition = tpPartition (mTP m), sOffset = mOffset m\<rparr>,
      iKey = mKey m, iValue = mValue m, iHeaders = mHeaders m,
      iOrderKey = (if cgIgnoreKeyOrder g then '''' else orderKeyFor (tpTopic (mTP m)) (mKey m))\<rparr>"

text \<open>The message is the next one of its assignment: take it, unless it finished before a rewind.\<close>

definition take_message :: "'w consumer_env \<Rightarrow> Message \<Rightarrow> 'w binding \<Rightarrow> Part \<Rightarrow> 'w Consumer \<Rightarrow> 'w Consumer" where
  "take_message v m b p c =
     (let p1 = p\<lparr>ptFrontier := (if ptNext p < 0 then mOffset m else ptFrontier p), ptNext := mOffset m + 1\<rparr>;
          c1 = c\<lparr>cnParts := AList.update (mTP m) p1 (cnParts c),
                 cnStarts := (if ptNext p < 0 then cnStarts c @ [(mTP m, mOffset m)] else cnStarts c)\<rparr>
      in if mOffset m \<in> set (ptCompleted p) then c1
         else (let c2 = cn_count (\<lambda>n. n\<lparr>csReceived := csReceived n + 1\<rparr>) c1
               in c2\<lparr>cnBacklog := cnBacklog c2
                      @ [\<lparr>tkM = m, tkIn = input_of v (cnCfg c) m, tkB = b, tkGen = ptGen p\<rparr>]\<rparr>))"

definition accept :: "'w consumer_env \<Rightarrow> Message \<Rightarrow> 'w Consumer \<times> 'w \<Rightarrow> goerr \<times> 'w Consumer \<times> 'w" where
  "accept v m cw =
     (case cw of (c, w) \<Rightarrow>
      (case map_of (cnBindings c) (tpTopic (mTP m)) of
        None \<Rightarrow> (Some (EWrap (tpTopic (mTP m)) [EVar ErrUnboundTopic]), c, w)
      | Some b \<Rightarrow>
         (case map_of (cnParts c) (mTP m) of
            None \<Rightarrow> (ok, c, w)
          | Some p \<Rightarrow>
             if 0 \<le> ptFailedAt p then (ok, c, w)
             else if 0 \<le> ptNext p \<and> mOffset m \<noteq> ptNext p
             then (if ptNext p < mOffset m
                   then seek_to v (mTP m) (ptNext p) (''kafka: re-seeking '' @ TP_String (mTP m)) (c, w)
                   else (ok, c, w))
             else (ok, take_message v m b p c, w))))"

text \<open>\<open>send\<close> gives a message to the pool, or lets it wait behind an earlier one with its key.\<close>

definition send :: "'w task \<Rightarrow> 'w Consumer \<Rightarrow> 'w Consumer" where
  "send t c =
     (if iOrderKey (tkIn t) = '''' then cn_send t c
      else case map_of (cnKeyQueues c) (keyOf t) of
             Some q \<Rightarrow> c\<lparr>cnKeyQueues := AList.update (keyOf t) (q @ [t]) (cnKeyQueues c)\<rparr>
           | None \<Rightarrow> cn_send t (c\<lparr>cnKeyQueues := AList.update (keyOf t) [] (cnKeyQueues c)\<rparr>))"

definition released :: "'w task \<Rightarrow> 'w Consumer \<Rightarrow> 'w Consumer" where
  "released t c =
     (if iOrderKey (tkIn t) = '''' \<or> is_nil_chan (cnWork c) then c
      else case map_of (cnKeyQueues c) (keyOf t) of
             Some (nxt # q) \<Rightarrow> cn_send nxt (c\<lparr>cnKeyQueues := AList.update (keyOf t) q (cnKeyQueues c)\<rparr>)
           | _ \<Rightarrow> c\<lparr>cnKeyQueues := AList.delete (keyOf t) (cnKeyQueues c)\<rparr>)"

record ('e, 's) ConsumerStore =
  coHasOrderKey :: "'e \<Rightarrow> string \<Rightarrow> 's \<Rightarrow> gerror + bool"
  coAppend :: "'e \<Rightarrow> Record \<Rightarrow> 's \<Rightarrow> goerr \<times> 's"

text \<open>The environments of the two store calls that executing a message makes, read from the world.\<close>

record ('w, 'e) exec_env =
  xvHas :: "'w \<Rightarrow> 'e"
  xvAppend :: "'w \<Rightarrow> 'e"

definition source_tp :: "Input \<Rightarrow> TopicPartition" where
  "source_tp inp = \<lparr>tpTopic = Source.sName (iSource inp), tpPartition = sPartition (iSource inp)\<rparr>"

definition cn_process :: "'w consumer_env \<Rightarrow> ('e, 's) ConsumerStore \<Rightarrow> ('w, 'e) exec_env \<Rightarrow> 'w binding \<Rightarrow> Input \<Rightarrow>
    'w Consumer \<times> 'w \<times> 's \<Rightarrow> (Result \<times> goerr) \<times> 'w Consumer \<times> 'w \<times> 's" where
  "cn_process v ops xe b inp st =
     (case st of (c, w, s) \<Rightarrow>
      (let run = (case Execute (cvPipe v) (bnPipeline b) (coAppend ops (xvAppend xe w)) inp w s of (ans, w1, s1) \<Rightarrow> (ans, c, w1, s1))
       in if iOrderKey inp = '''' then run
          else case coHasOrderKey ops (xvHas xe w) (iOrderKey inp) s of
                 Inl err \<Rightarrow> ((RFailed, Some err), c, w, s)
               | Inr held \<Rightarrow>
                  if held
                  then (case coAppend ops (xvAppend xe w) (zero_record\<lparr>rID := iID inp, rSource := iSource inp, rKey := iKey inp,
                             rValue := iValue inp, rHeaders := iHeaders inp, rOrderKey := iOrderKey inp,
                             rLastError := ''stored behind an earlier message with the same key''\<rparr>) s of
                          (Some err, s1) \<Rightarrow> ((RFailed, Some err), c, w, s1)
                        | (None, s1) \<Rightarrow>
                            ((RDeferred, ok),
                             cn_emit ConsumerOrderHeld (source_tp inp) (sOffset (iSource inp)) ''''
                               (cn_count (\<lambda>n. n\<lparr>csOrderHeld := csOrderHeld n + 1\<rparr>) c), w, s1))
                  else run))"

definition mirror :: "Input \<Rightarrow> 'w Consumer \<times> 'w \<Rightarrow> 'w Consumer \<times> 'w" where
  "mirror inp cw =
     (case cw of (c, w) \<Rightarrow>
      (case cgMirror (cnCfg c) of
        None \<Rightarrow> (c, w)
      | Some publish \<Rightarrow>
         (case publish (zero_record\<lparr>rID := iID inp, rState := Parked, rSource := iSource inp, rKey := iKey inp,
                   rValue := iValue inp, rHeaders := iHeaders inp, rOrderKey := iOrderKey inp\<rparr>)
                 ''parked by the pipeline: see the dead-letter store'' w of
            (None, w1) \<Rightarrow> (c, w1)
          | (Some _, w1) \<Rightarrow>
              (cn_emit ConsumerMirrorFailed (source_tp inp) (sOffset (iSource inp)) ''''
                 (cn_count (\<lambda>n. n\<lparr>csMirrorErrors := csMirrorErrors n + 1\<rparr>) c), w1))))"

definition exec :: "'w consumer_env \<Rightarrow> ('e, 's) ConsumerStore \<Rightarrow> ('w, 'e) exec_env \<Rightarrow> 'w task \<Rightarrow>
    'w Consumer \<times> 'w \<times> 's \<Rightarrow> 'w result \<times> 'w Consumer \<times> 'w \<times> 's" where
  "exec v ops xe t st =
     (case cn_process v ops xe (tkB t) (tkIn t) st of
        ((res, err), c1, w1, s1) \<Rightarrow>
          (let r = \<lparr>rsTask = t, rsRes = res, rsErr = err\<rparr>;
               c2 = c1\<lparr>cnLog := cnLog c1 @ [r]\<rparr>
           in if res = RParked then (case mirror (tkIn t) (c2, w1) of (c3, w2) \<Rightarrow> (r, c3, w2, s1)) else (r, c2, w1, s1)))"

text \<open>\<open>rewind\<close>: point a drained partition back at its first unfinished message and back off.\<close>

definition cn_backoff :: "'w CConfig \<Rightarrow> int \<Rightarrow> duration" where
  "cn_backoff g n = (case cgRetryBackoff g of Some f \<Rightarrow> f n | None \<Rightarrow> 0)"

definition rewind :: "'w consumer_env \<Rightarrow> TopicPartition \<Rightarrow> 'w Consumer \<times> 'w \<Rightarrow> goerr \<times> 'w Consumer \<times> 'w" where
  "rewind v tp cw =
     (case cw of (c, w) \<Rightarrow>
      (case map_of (cnParts c) tp of
        None \<Rightarrow> (ok, c, w)
      | Some p \<Rightarrow>
         (case seek_to v tp (ptFrontier p) (''kafka: seeking '' @ TP_String tp @ '' back to '' @ FormatInt (ptFrontier p))
                 (c\<lparr>cnBacklog := filter (\<lambda>t. mTP (tkM t) \<noteq> tp) (cnBacklog c)\<rparr>, w) of
            (Some err, c1, w1) \<Rightarrow> (Some err, c1, w1)
          | (None, c1, w1) \<Rightarrow>
              (ok, upd_part tp (\<lambda>p. p\<lparr>ptNext := ptFrontier p, ptFailedAt := -1, ptFailures := ptFailures p + 1,
                     ptRetryAt := cvNow v w1 + cn_backoff (cnCfg c1) (ptFailures p + 1)\<rparr>) c1, w1))))"

definition err_is :: "goerr \<Rightarrow> sentinel \<Rightarrow> bool" where
  "err_is err s = (case err of None \<Rightarrow> False | Some e \<Rightarrow> errors_Is e s)"

definition noteFailure :: "'w consumer_env \<Rightarrow> 'w result \<Rightarrow> 'w Consumer \<times> 'w \<Rightarrow> goerr \<times> 'w Consumer \<times> 'w" where
  "noteFailure v r cw =
     (case cw of (c, w) \<Rightarrow>
      (let tp = mTP (tkM (rsTask r)); off = mOffset (tkM (rsTask r))
       in if err_is (rsErr r) ErrStoreFailed \<or> err_is (rsErr r) ErrClosed \<or> err_is (rsErr r) ErrCorrupt
          then (Some (EWrap ''kafka: the dead-letter store failed'' (case rsErr r of None \<Rightarrow> [] | Some e \<Rightarrow> [e])), c, w)
          else if cvCtxErr v w \<or> cnStopping c then (ok, c, w)
          else
            (let c1 = (if err_is (rsErr r) ErrFull
                       then cn_emit ConsumerBackpressure tp off '''' (cn_count (\<lambda>n. n\<lparr>csBackpressure := csBackpressure n + 1\<rparr>) c)
                       else c);
                 c2 = upd_part tp (\<lambda>p. if ptFailedAt p < 0 \<or> off < ptFailedAt p then p\<lparr>ptFailedAt := off\<rparr> else p) c1
             in (ok, cn_emit ConsumerRetry tp off '''' (cn_count (\<lambda>n. n\<lparr>csRetried := csRetried n + 1\<rparr>) c2), w))))"

definition is_safe :: "Result \<Rightarrow> bool" where
  "is_safe res \<longleftrightarrow> res = RDone \<or> res = RDeferred \<or> res = RParked"

definition unstorable :: "'w result \<Rightarrow> bool" where
  "unstorable r \<longleftrightarrow> \<not> is_safe (rsRes r) \<and> err_is (rsErr r) ErrInvalidRecord"

text \<open>Once nothing of a partition with a failure is in flight, it is rewound.\<close>

definition rewind_if_drained :: "'w consumer_env \<Rightarrow> TopicPartition \<Rightarrow> 'w Consumer \<times> 'w \<Rightarrow> goerr \<times> 'w Consumer \<times> 'w" where
  "rewind_if_drained v tp cw =
     (case map_of (cnParts (fst cw)) tp of
        None \<Rightarrow> (ok, cw)
      | Some p \<Rightarrow> if 0 \<le> ptFailedAt p \<and> ptInflight p = 0 \<and> \<not> cnStopping (fst cw) then rewind v tp cw else (ok, cw))"

definition count_result :: "'w result \<Rightarrow> 'w Consumer \<Rightarrow> 'w Consumer" where
  "count_result r c =
     (let tp = mTP (tkM (rsTask r)); off = mOffset (tkM (rsTask r))
      in case rsRes r of
           RDone \<Rightarrow> cn_count (\<lambda>n. n\<lparr>csDone := csDone n + 1\<rparr>) c
         | RDeferred \<Rightarrow> cn_emit ConsumerDeferred tp off '''' (cn_count (\<lambda>n. n\<lparr>csDeferred := csDeferred n + 1\<rparr>) c)
         | _ \<Rightarrow> cn_emit ConsumerParked tp off '''' (cn_count (\<lambda>n. n\<lparr>csParked := csParked n + 1\<rparr>) c))"

text \<open>\<open>complete\<close> applies one result; the part after the check that its partition is still assigned is \<open>apply_result\<close>.\<close>

definition apply_result :: "'w consumer_env \<Rightarrow> 'w result \<Rightarrow> 'w Consumer \<times> 'w \<Rightarrow> goerr \<times> 'w Consumer \<times> 'w" where
  "apply_result v r cw =
     (case cw of (c, w) \<Rightarrow>
      (let t = rsTask r; tp = mTP (tkM t); off = mOffset (tkM t)
       in if unstorable r
          then if cgOnUnstorable (cnCfg c) \<noteq> UnstorableSkip
               then (Some (EWrap (TP_String tp @ '' offset '' @ FormatInt off)
                       (EVar ErrUnstorable # (case rsErr r of None \<Rightarrow> [] | Some e \<Rightarrow> [e]))), c, w)
               else (case mirror (tkIn t) (cn_emit ConsumerUnstorable tp off ''''
                             (cn_count (\<lambda>n. n\<lparr>csUnstorable := csUnstorable n + 1\<rparr>) c), w) of
                       (c1, w1) \<Rightarrow> rewind_if_drained v tp (released t (markDone tp off c1), w1))
          else if is_safe (rsRes r)
          then rewind_if_drained v tp (released t (markDone tp off (count_result r c)), w)
          else
            (let c1 = (if iOrderKey (tkIn t) = '''' then c
                       else (let c0 = dropQueued tp (Some (iOrderKey (tkIn t))) c
                             in c0\<lparr>cnKeyQueues := AList.delete (keyOf t) (cnKeyQueues c0)\<rparr>))
             in case noteFailure v r (c1, w) of
                  (Some err, c2, w2) \<Rightarrow> (Some err, c2, w2)
                | (None, c2, w2) \<Rightarrow> rewind_if_drained v tp (c2, w2))))"

definition complete :: "'w consumer_env \<Rightarrow> 'w result \<Rightarrow> 'w Consumer \<times> 'w \<Rightarrow> goerr \<times> 'w Consumer \<times> 'w" where
  "complete v r cw =
     (case cw of (c, w) \<Rightarrow>
      (let c1 = cn_set_inflight (cnInflight c - 1) c; tp = mTP (tkM (rsTask r))
       in case map_of (cnParts c1) tp of
            None \<Rightarrow> (ok, c1, w)
          | Some p \<Rightarrow>
             if ptGen p \<noteq> tkGen (rsTask r) then (ok, c1, w)
             else apply_result v r (upd_part tp (\<lambda>p. p\<lparr>ptInflight := ptInflight p - 1\<rparr>) c1, w)))"

lemmas consumer_upd_defs = cn_emit_def cn_count_def cn_called_def cn_set_inflight_def

lemma upd_part_frame [simp]:
  "cnBacklog (upd_part tp f c) = cnBacklog c" "cnResults (upd_part tp f c) = cnResults c" "cnWork (upd_part tp f c) = cnWork c"
  "cnKeyQueues (upd_part tp f c) = cnKeyQueues c" "cnCfg (upd_part tp f c) = cnCfg c" "cnInflight (upd_part tp f c) = cnInflight c"
  "cnMaxInFlight (upd_part tp f c) = cnMaxInFlight c" "cnStopping (upd_part tp f c) = cnStopping c" "cnSafe (upd_part tp f c) = cnSafe c"
  "cnCalls (upd_part tp f c) = cnCalls c" "cnLog (upd_part tp f c) = cnLog c" "cnStarts (upd_part tp f c) = cnStarts c"
  "cnCommitted (upd_part tp f c) = cnCommitted c" "cnGen (upd_part tp f c) = cnGen c" "cnPanicked (upd_part tp f c) = cnPanicked c"
  "cnBindings (upd_part tp f c) = cnBindings c"
  by (auto simp: upd_part_def split: option.split)

text \<open>Applying a result takes nothing new into the backlog and produces no result.\<close>

definition no_more :: "'w Consumer \<Rightarrow> 'w Consumer \<Rightarrow> bool" where
  "no_more c c' \<longleftrightarrow> length (cnBacklog c') \<le> length (cnBacklog c) \<and> cnResults c' = cnResults c"

lemma no_more_parts:
  "no_more c (dropQueued tp only c)" "no_more c (markDone tp off c)" "no_more c (released t c)" "no_more c (count_result r c)"
  by (auto simp: no_more_def dropQueued_def markDone_def released_def cn_send_def count_result_def consumer_upd_defs Let_def
      split: option.split prod.split chan.split list.split Result.split)

lemma no_more_refl [simp]: "no_more c c"
  by (simp add: no_more_def)

lemma no_more_trans: "no_more a b \<Longrightarrow> no_more b c \<Longrightarrow> no_more a c"
  by (auto simp: no_more_def)

lemma no_more_mirror: "mirror inp (c, w) = (c', w') \<Longrightarrow> no_more c c'"
  by (auto simp: mirror_def no_more_def consumer_upd_defs split: option.splits prod.splits)

lemma no_more_rewind: "rewind_if_drained v tp (c, w) = (e, c', w') \<Longrightarrow> no_more c c'"
  by (auto simp: rewind_if_drained_def rewind_def seek_to_def no_more_def cn_called_def intro: length_filter_le
      split: option.splits prod.splits if_splits)

lemma no_more_note: "noteFailure v r (c, w) = (e, c', w') \<Longrightarrow> no_more c c'"
  by (auto simp: noteFailure_def no_more_def consumer_upd_defs Let_def split: if_splits)

lemma no_more_apply:
  assumes "apply_result v r (c, w) = (e, c', w')"
  shows "no_more c c'"
proof -
  let ?t = "rsTask r"
  let ?tp = "mTP (tkM (rsTask r))" and ?off = "mOffset (tkM (rsTask r))"
  have fin: "no_more c c'" if "no_more c c1" and "rewind_if_drained v ?tp (released ?t (markDone ?tp ?off c1), w1) = (e, c', w')" for c1 w1
    using that(1) no_more_rewind [OF that(2)] no_more_parts(2) [of c1 ?tp ?off] no_more_parts(3) [of "markDone ?tp ?off c1" ?t]
    by (meson no_more_trans)
  consider "unstorable r" | "\<not> unstorable r" "is_safe (rsRes r)" | "\<not> unstorable r" "\<not> is_safe (rsRes r)" by blast
  then show ?thesis
  proof cases
    case 1
    let ?c = "cn_emit ConsumerUnstorable ?tp ?off '''' (cn_count (\<lambda>n. n\<lparr>csUnstorable := csUnstorable n + 1\<rparr>) c)"
    have "no_more c ?c" by (simp add: no_more_def consumer_upd_defs)
    with 1 assms show ?thesis
      by (auto simp: apply_result_def Let_def split: if_splits prod.splits dest!: no_more_mirror intro: fin no_more_trans)
  next
    case 2
    with assms show ?thesis by (auto simp: apply_result_def Let_def intro: fin [OF no_more_parts(4)])
  next
    case 3
    let ?c1 = "if iOrderKey (tkIn ?t) = '''' then c
      else (let c0 = dropQueued ?tp (Some (iOrderKey (tkIn ?t))) c in c0\<lparr>cnKeyQueues := AList.delete (keyOf ?t) (cnKeyQueues c0)\<rparr>)"
    have "no_more c ?c1" using no_more_parts(1) [of c ?tp "Some (iOrderKey (tkIn ?t))"] by (simp add: no_more_def Let_def)
    moreover obtain e1 c2 w2 where n: "noteFailure v r (?c1, w) = (e1, c2, w2)" by (metis prod_cases3)
    moreover have "no_more c2 c'"
      using 3 assms n no_more_rewind by (auto simp: apply_result_def Let_def split: option.splits)
    ultimately show ?thesis using no_more_note [OF n] by (meson no_more_trans)
  qed
qed

lemma no_more_complete: "complete v r (c, w) = (e, c', w') \<Longrightarrow> no_more c c'"
  by (auto simp: complete_def Let_def cn_set_inflight_def no_more_def upd_part_def dest!: no_more_apply
      split: option.splits if_splits)

lemma no_more_exec: "exec v ops xe t (c, w, s) = (r, c', w', s') \<Longrightarrow> no_more c c'"
  by (auto simp: exec_def cn_process_def Let_def mirror_def no_more_def consumer_upd_defs split: option.splits prod.splits if_splits sum.splits)

section \<open>The loop\<close>

text \<open>
  \<open>dispatchBacklog\<close> hands accepted messages to the pool while there is room; without a pool it runs them on
  the spot.
\<close>

definition dispatch_counted :: "'w task \<Rightarrow> 'w Consumer \<Rightarrow> 'w Consumer" where
  "dispatch_counted t c = cn_set_inflight (cnInflight c + 1) (upd_part (mTP (tkM t)) (\<lambda>p. p\<lparr>ptInflight := ptInflight p + 1\<rparr>) c)"

definition stale_task :: "'w task \<Rightarrow> 'w Consumer \<Rightarrow> bool" where
  "stale_task t c = (case map_of (cnParts c) (mTP (tkM t)) of None \<Rightarrow> True | Some p \<Rightarrow> ptGen p \<noteq> tkGen t \<or> 0 \<le> ptFailedAt p)"

definition run_inline :: "'w consumer_env \<Rightarrow> ('e, 's) ConsumerStore \<Rightarrow> ('w, 'e) exec_env \<Rightarrow> 'w task \<Rightarrow>
    'w Consumer \<times> 'w \<times> 's \<Rightarrow> goerr \<times> 'w Consumer \<times> 'w \<times> 's" where
  "run_inline v ops xe t st =
     (case exec v ops xe t st of (r, c1, w1, s1) \<Rightarrow> (case complete v r (c1, w1) of (err, c2, w2) \<Rightarrow> (err, c2, w2, s1)))"

lemma no_more_inline: "run_inline v ops xe t (c, w, s) = (e, c', w', s') \<Longrightarrow> no_more c c'"
  by (auto simp: run_inline_def split: prod.splits dest!: no_more_exec no_more_complete intro: no_more_trans)

function dispatchBacklog :: "'w consumer_env \<Rightarrow> ('e, 's) ConsumerStore \<Rightarrow> ('w, 'e) exec_env \<Rightarrow>
    'w Consumer \<times> 'w \<times> 's \<Rightarrow> goerr \<times> 'w Consumer \<times> 'w \<times> 's" where
  "dispatchBacklog v ops xe (c, w, s) =
     (case cnBacklog c of
        [] \<Rightarrow> (ok, c, w, s)
      | t # ts \<Rightarrow>
         if cnInflight c < cnMaxInFlight c
         then (let c1 = c\<lparr>cnBacklog := ts\<rparr>
               in if stale_task t c1 then dispatchBacklog v ops xe (c1, w, s)
                  else if is_nil_chan (cnWork c1)
                  then (case run_inline v ops xe t (dispatch_counted t c1, w, s) of
                          (Some err, st) \<Rightarrow> (Some err, st)
                        | (None, c2, w2, s2) \<Rightarrow> dispatchBacklog v ops xe (c2, w2, s2))
                  else dispatchBacklog v ops xe (send t (dispatch_counted t c1), w, s))
         else (ok, c, w, s))"
  by pat_completeness auto
termination
  by (relation "measure (\<lambda>(v, ops, xe, c, w, s). length (cnBacklog c))") (auto dest!: sym [of _ "run_inline _ _ _ _ _"] no_more_inline simp: no_more_def dispatch_counted_def
      cn_set_inflight_def send_def cn_send_def split: option.split chan.split)

declare dispatchBacklog.simps [simp del]

text \<open>\<open>drain\<close> without waiting: apply the results that have arrived.\<close>

function drain :: "'w consumer_env \<Rightarrow> 'w Consumer \<times> 'w \<Rightarrow> goerr \<times> 'w Consumer \<times> 'w" where
  "drain v (c, w) =
     (case cnResults c of
        [] \<Rightarrow> (ok, c, w)
      | r # rs \<Rightarrow>
         (case complete v r (c\<lparr>cnResults := rs\<rparr>, w) of
            (Some err, cw1) \<Rightarrow> (Some err, cw1)
          | (None, c1, w1) \<Rightarrow> drain v (c1, w1)))"
  by pat_completeness auto
termination
  by (relation "measure (\<lambda>(v, c, w). length (cnResults c))")
     (auto dest!: sym [of _ "complete _ _ _"] no_more_complete simp: no_more_def)

declare drain.simps [simp del]

definition updateThrottle :: "'w Consumer \<Rightarrow> 'w Consumer" where
  "updateThrottle c =
     (let held = cnInflight c + int (length (cnBacklog c))
      in if cnMaxInFlight c \<le> held then c\<lparr>cnThrottled := True\<rparr>
         else if held \<le> cnMaxInFlight c div 2 then c\<lparr>cnThrottled := False\<rparr> else c)"

definition breakerOpen :: "'w consumer_env \<Rightarrow> 'w Consumer \<Rightarrow> 'w \<Rightarrow> string \<Rightarrow> bool" where
  "breakerOpen v c w topic =
     (case map_of (cnBindings c) topic of
        None \<Rightarrow> False
      | Some b \<Rightarrow> list_ex (\<lambda>br. pb_Refusing (cvNow v w) (pvBreaker (cvPipe v) br w)) (bnBreakers b))"

definition pause_reason :: "'w consumer_env \<Rightarrow> 'w Consumer \<Rightarrow> 'w \<Rightarrow> TopicPartition \<Rightarrow> Part \<Rightarrow> string" where
  "pause_reason v c w tp p =
     (if breakerOpen v c w (tpTopic tp) then ''breaker_open''
      else if cvNow v w < ptRetryAt p then ''retry_backoff''
      else if cnThrottled c then ''backlog'' else '''')"

definition set_paused :: "ConsumerCode \<Rightarrow> bool \<Rightarrow> (Part \<Rightarrow> string) \<Rightarrow> TopicPartition \<Rightarrow> 'w Consumer \<Rightarrow> 'w Consumer" where
  "set_paused code b reason tp c =
     (case map_of (cnParts c) tp of
        None \<Rightarrow> c
      | Some p \<Rightarrow> cn_emit code tp (-1) (reason p) (c\<lparr>cnParts := AList.update tp (p\<lparr>ptPaused := b\<rparr>) (cnParts c)\<rparr>))"

definition pause_parts :: "'w consumer_env \<Rightarrow> TopicPartition list \<Rightarrow> 'w Consumer \<times> 'w \<Rightarrow> 'w Consumer \<times> 'w" where
  "pause_parts v tps cw =
     (if tps = [] then cw
      else case cvPause v tps (snd cw) of
             (None, w1) \<Rightarrow> (fold (set_paused ConsumerPaused True ptPauseReason) tps (cn_called (CallPause tps) (fst cw)), w1)
           | (Some _, w1) \<Rightarrow> (cn_called (CallPause tps) (fst cw), w1))"

definition resume_parts :: "'w consumer_env \<Rightarrow> TopicPartition list \<Rightarrow> 'w Consumer \<times> 'w \<Rightarrow> 'w Consumer \<times> 'w" where
  "resume_parts v tps cw =
     (if tps = [] then cw
      else case cvResume v tps (snd cw) of
             (None, w1) \<Rightarrow> (fold (set_paused ConsumerResumed False (\<lambda>_. '''')) tps (cn_called (CallResume tps) (fst cw)), w1)
           | (Some _, w1) \<Rightarrow> (cn_called (CallResume tps) (fst cw), w1))"

definition count_paused :: "'w Consumer \<times> 'w \<Rightarrow> 'w Consumer \<times> 'w" where
  "count_paused cw = ((fst cw)\<lparr>cnPausedNow := int (length (filter (\<lambda>(tp, p). ptPaused p) (cnParts (fst cw))))\<rparr>, snd cw)"

definition reconcile :: "'w consumer_env \<Rightarrow> 'w Consumer \<times> 'w \<Rightarrow> 'w Consumer \<times> 'w" where
  "reconcile v cw =
     (case cw of (c, w) \<Rightarrow>
      (let why = pause_reason v c w;
           pause = map fst (filter (\<lambda>(tp, p). why tp p \<noteq> '''' \<and> \<not> ptPaused p) (cnParts c));
           resume = map fst (filter (\<lambda>(tp, p). why tp p = '''' \<and> ptPaused p) (cnParts c));
           c1 = c\<lparr>cnParts := map (\<lambda>(tp, p). (tp, if why tp p \<noteq> '''' \<and> \<not> ptPaused p then p\<lparr>ptPauseReason := why tp p\<rparr> else p)) (cnParts c)\<rparr>
       in count_paused (resume_parts v resume (pause_parts v pause (c1, w)))))"

definition checkBrokers :: "'w consumer_env \<Rightarrow> 'w Consumer \<Rightarrow> 'w \<Rightarrow> goerr" where
  "checkBrokers v c w =
     (if cgBrokersDownTimeout (cnCfg c) \<le> 0 then ok
      else case cvHealth v of
             None \<Rightarrow> ok
           | Some health \<Rightarrow>
              (let h = health w
               in if chAllBrokersDown h \<and> \<not> IsZero (chSince h) \<and> cgBrokersDownTimeout (cnCfg c) < time_sub (cvNow v w) (chSince h)
                  then Some (EWrap (''(down since '' @ cvTimeText v (chSince h) @ '')'') [EVar ErrBrokersDown]) else ok))"

definition do_poll :: "'w consumer_env \<Rightarrow> duration \<Rightarrow> 'w Consumer \<times> 'w \<Rightarrow> (gerror + Message option) \<times> 'w Consumer \<times> 'w" where
  "do_poll v timeout cw = (case cvPoll v timeout (snd cw) of ((rebs, ans), w1) \<Rightarrow> (ans, fold (rebalanced v) rebs (fst cw, w1)))"

text \<open>One turn of the loop of \<open>Run\<close>; an error ends the loop.\<close>

definition turn_housekeeping :: "'w consumer_env \<Rightarrow> 'w Consumer \<times> 'w \<Rightarrow> 'w Consumer \<times> 'w" where
  "turn_housekeeping v cw = maybeCommit v False (reconcile v (updateThrottle (fst cw), snd cw))"

definition poll_timeout :: "'w Consumer \<Rightarrow> duration" where
  "poll_timeout c = (if 0 < cnInflight c \<and> 10 * millisecond < cgPollTimeout (cnCfg c) then 10 * millisecond else cgPollTimeout (cnCfg c))"

definition poll_accept :: "'w consumer_env \<Rightarrow> 'w Consumer \<times> 'w \<Rightarrow> goerr \<times> 'w Consumer \<times> 'w" where
  "poll_accept v cw =
     (case do_poll v (poll_timeout (fst cw)) cw of
        (Inl err, cw1) \<Rightarrow> (Some (EWrap ''kafka: polling'' [err]), cw1)
      | (Inr None, cw1) \<Rightarrow> (ok, cw1)
      | (Inr (Some m), cw1) \<Rightarrow> accept v m cw1)"

definition run_turn :: "'w consumer_env \<Rightarrow> ('e, 's) ConsumerStore \<Rightarrow> ('w, 'e) exec_env \<Rightarrow>
    'w Consumer \<times> 'w \<times> 's \<Rightarrow> goerr \<times> 'w Consumer \<times> 'w \<times> 's" where
  "run_turn v ops xe st =
     (case st of (c, w, s) \<Rightarrow>
      (case drain v (c, w) of
         (Some err, c1, w1) \<Rightarrow> (Some err, c1, w1, s)
       | (None, c1, w1) \<Rightarrow>
          (case turn_housekeeping v (c1, w1) of
             (c2, w2) \<Rightarrow>
               (case checkBrokers v c2 w2 of
                  Some err \<Rightarrow> (Some err, c2, w2, s)
                | None \<Rightarrow>
                   (case poll_accept v (c2, w2) of
                      (Some err, c3, w3) \<Rightarrow> (Some err, c3, w3, s)
                    | (None, c3, w3) \<Rightarrow> dispatchBacklog v ops xe (c3, w3, s))))))"

text \<open>\<open>finalCommit\<close>: commit, and while that is refused poll and try again until the deadline.\<close>

partial_function (option) final_loop :: "'w consumer_env \<Rightarrow> time \<Rightarrow> 'w Consumer \<times> 'w \<Rightarrow> (goerr \<times> 'w Consumer \<times> 'w) option" where
  "final_loop v deadline cw =
     (case cn_commit v cw of
        (err, cw1) \<Rightarrow>
          if err = ok \<or> deadline \<le> cvNow v (snd cw1) then Some (err, cw1)
          else (case do_poll v (cgPollTimeout (cnCfg (fst cw1))) cw1 of
                  (Inl perr, cw2) \<Rightarrow>
                    Some (Some (EWrap '''' (case err of None \<Rightarrow> [] | Some e \<Rightarrow> [e, EWrap ''kafka: polling during shutdown'' [perr]])), cw2)
                | (Inr _, cw2) \<Rightarrow> final_loop v deadline cw2))"

definition finalCommit :: "'w consumer_env \<Rightarrow> 'w Consumer \<times> 'w \<Rightarrow> (goerr \<times> 'w Consumer \<times> 'w) option" where
  "finalCommit v cw = final_loop v (cvNow v (snd cw) + cgShutdownTimeout (cnCfg (fst cw))) cw"

section \<open>The consumer and its workers\<close>

definition startWorkers :: "'w Consumer \<Rightarrow> 'w Consumer" where
  "startWorkers c = c\<lparr>cnResults := [], cnWork := (if cgWorkers (cnCfg c) \<le> 1 then NoChan else Chan [])\<rparr>"

definition stopWorkers :: "'w Consumer \<Rightarrow> 'w Consumer" where
  "stopWorkers c = c\<lparr>cnWork := (case cnWork c of Chan q \<Rightarrow> ClosedChan q | ch \<Rightarrow> ch)\<rparr>"

text \<open>
  \<open>ysRun\<close> holds the messages that workers are executing; \<open>ysFatal\<close> the error that ended the loop.  The rules:
  a turn of the loop; leaving the loop (\<open>stopping\<close> is set and the pool closed); a worker taking a message from
  the channel, and finishing it; applying a result while stopping; a commit, or a poll, of \<open>finalCommit\<close>; and time passing,
  where the world and the store change in ways \<open>other\<close> allows.
\<close>

record ('w, 's) csys =
  ysC :: "'w Consumer"
  ysW :: 'w
  ysS :: 's
  ysRun :: "'w task list"
  ysFatal :: goerr

inductive cs_step :: "'w consumer_env \<Rightarrow> ('e, 's) ConsumerStore \<Rightarrow> ('w, 'e) exec_env \<Rightarrow> ('w \<times> 's \<Rightarrow> 'w \<times> 's \<Rightarrow> bool) \<Rightarrow>
    ('w, 's) csys \<Rightarrow> ('w, 's) csys \<Rightarrow> bool"
  for v ops xe other where
  turn: "\<lbrakk>\<not> cnStopping (ysC y); \<not> cvCtxErr v (ysW y); ysFatal y = ok; run_turn v ops xe (ysC y, ysW y, ysS y) = (err, c, w, s)\<rbrakk>
    \<Longrightarrow> cs_step v ops xe other y (y\<lparr>ysC := c, ysW := w, ysS := s, ysFatal := err\<rparr>)"
| leave: "\<lbrakk>\<not> cnStopping (ysC y); cvCtxErr v (ysW y) \<or> ysFatal y \<noteq> ok\<rbrakk>
    \<Longrightarrow> cs_step v ops xe other y (y\<lparr>ysC := stopWorkers ((ysC y)\<lparr>cnStopping := True\<rparr>)\<rparr>)"
| worker_takes: "\<lbrakk>cnWork (ysC y) = Chan (t # q); length (ysRun y) < nat (cgWorkers (cnCfg (ysC y)))\<rbrakk>
    \<Longrightarrow> cs_step v ops xe other y (y\<lparr>ysC := (ysC y)\<lparr>cnWork := Chan q\<rparr>, ysRun := ysRun y @ [t]\<rparr>)"
| worker_takes_closed: "\<lbrakk>cnWork (ysC y) = ClosedChan (t # q); length (ysRun y) < nat (cgWorkers (cnCfg (ysC y)))\<rbrakk>
    \<Longrightarrow> cs_step v ops xe other y (y\<lparr>ysC := (ysC y)\<lparr>cnWork := ClosedChan q\<rparr>, ysRun := ysRun y @ [t]\<rparr>)"
| worker_done: "\<lbrakk>ysRun y = ts @ t # us; exec v ops xe t (ysC y, ysW y, ysS y) = (r, c, w, s)\<rbrakk>
    \<Longrightarrow> cs_step v ops xe other y (y\<lparr>ysC := c\<lparr>cnResults := cnResults c @ [r]\<rparr>, ysW := w, ysS := s, ysRun := ts @ us\<rparr>)"
| drain_stopping: "\<lbrakk>cnStopping (ysC y); \<not> cnPanicked (ysC y); cnResults (ysC y) = r # rs;
      complete v r ((ysC y)\<lparr>cnResults := rs\<rparr>, ysW y) = (err, c, w)\<rbrakk>
    \<Longrightarrow> cs_step v ops xe other y (y\<lparr>ysC := c, ysW := w\<rparr>)"
| final_commit: "\<lbrakk>cnStopping (ysC y); \<not> cnPanicked (ysC y); cn_commit v (ysC y, ysW y) = (err, c, w)\<rbrakk>
    \<Longrightarrow> cs_step v ops xe other y (y\<lparr>ysC := c, ysW := w\<rparr>)"
| final_poll: "\<lbrakk>cnStopping (ysC y); \<not> cnPanicked (ysC y); do_poll v (cgPollTimeout (cnCfg (ysC y))) (ysC y, ysW y) = (ans, c, w)\<rbrakk>
    \<Longrightarrow> cs_step v ops xe other y (y\<lparr>ysC := c, ysW := w\<rparr>)"
| time_passes: "other (ysW y, ysS y) (w, s) \<Longrightarrow> cs_step v ops xe other y (y\<lparr>ysW := w, ysS := s\<rparr>)"

definition cs_start :: "'w Consumer \<Rightarrow> 'w consumer_env \<Rightarrow> 'w \<Rightarrow> 's \<Rightarrow> ('w, 's) csys" where
  "cs_start c v w s = \<lparr>ysC = startWorkers (c\<lparr>cnLastCommit := cvNow v w\<rparr>), ysW = w, ysS = s, ysRun = [], ysFatal = ok\<rparr>"

end
