(* ===== verification/GG_Consumer_Props.thy ===== *)
theory GG_Consumer_Props
  imports GG_Consumer GG_Pipeline_Props
begin

text \<open>
  What the Kafka consumer guarantees: an offset that is committed has only handled messages before it, the
  pool never holds more than its channels have room for, and the messages of one key run one at a time.
\<close>

section \<open>The commit point\<close>

lemma slide_spec:
  assumes "slide xs f = (ys, g)"
  shows "f \<le> g \<and> set ys = set xs - {f..<g} \<and> {f..<g} \<subseteq> set xs \<and> g \<notin> set xs"
  using assms
proof (induction xs f rule: slide.induct)
  case (1 xs f)
  show ?case
  proof (cases "f \<in> set xs")
    case True
    with "1.prems" have s: "slide (filter (\<lambda>x. x \<noteq> f) xs) (f + 1) = (ys, g)" by (simp add: slide.simps [of xs f])
    have split: "{f..<g} = insert f {f + 1..<g}" if "f + 1 \<le> g" using that by auto
    from "1.IH" [OF True s] True show ?thesis by (auto simp: split)
  next
    case False
    with "1.prems" show ?thesis by (simp add: slide.simps [of xs f])
  qed
qed

lemma set_update_subset: "set (AList.update k v al) \<subseteq> insert (k, v) (set al)"
  by (induction al) auto

lemma in_updateD: "x \<in> set (AList.update k v al) \<Longrightarrow> x = (k, v) \<or> x \<in> set al"
  using set_update_subset by fastforce

text \<open>A result after which the message needs nothing more from Kafka, and offsets up to which all have one.\<close>

definition counts_done :: "'w CConfig \<Rightarrow> 'w result \<Rightarrow> bool" where
  "counts_done g r \<longleftrightarrow> is_safe (rsRes r) \<or> unstorable r \<and> cgOnUnstorable g = UnstorableSkip"

definition handled :: "'w Consumer \<Rightarrow> TopicPartition \<Rightarrow> int \<Rightarrow> bool" where
  "handled c tp off \<longleftrightarrow> (\<exists>r \<in> set (cnLog c). mTP (tkM (rsTask r)) = tp \<and> mOffset (tkM (rsTask r)) = off \<and> counts_done (cnCfg c) r)"

definition reached :: "'w Consumer \<Rightarrow> TopicPartition \<Rightarrow> int \<Rightarrow> bool" where
  "reached c tp f \<longleftrightarrow> (\<exists>st. (tp, st) \<in> set (cnStarts c) \<and> 0 \<le> st \<and> st \<le> f \<and> (\<forall>off. st \<le> off \<longrightarrow> off < f \<longrightarrow> handled c tp off))"

definition part_ok :: "'w Consumer \<Rightarrow> TopicPartition \<Rightarrow> Part \<Rightarrow> bool" where
  "part_ok c tp p \<longleftrightarrow> (\<forall>off \<in> set (ptCompleted p). 0 \<le> off \<and> handled c tp off)
     \<and> (if ptNext p < 0 then ptFrontier p = -1 else reached c tp (ptFrontier p))"

definition chan_tasks :: "'a chan \<Rightarrow> 'a list" where
  "chan_tasks ch = (case ch of NoChan \<Rightarrow> [] | Chan q \<Rightarrow> q | ClosedChan q \<Rightarrow> q)"

definition held_tasks :: "'w Consumer \<Rightarrow> 'w task set" where
  "held_tasks c = set (cnBacklog c) \<union> set (chan_tasks (cnWork c)) \<union> (\<Union>(k, q) \<in> set (cnKeyQueues c). set q)"

definition cn_inv :: "'w Consumer \<Rightarrow> bool" where
  "cn_inv c \<longleftrightarrow> (\<forall>(tp, p) \<in> set (cnParts c). part_ok c tp p) \<and> (\<forall>(tp, f) \<in> set (cnSafe c). reached c tp f)
     \<and> (\<forall>offs. CallCommit offs \<in> set (cnCalls c) \<longrightarrow> (\<forall>x \<in> set offs. reached c (poTP x) (poOffset x)))
     \<and> (\<forall>t \<in> held_tasks c. 0 \<le> mOffset (tkM t))
     \<and> (\<forall>r \<in> set (cnLog c). 0 \<le> mOffset (tkM (rsTask r))) \<and> set (cnResults c) \<subseteq> set (cnLog c)"

text \<open>What is recorded is never taken back.\<close>

definition cn_grows :: "'w Consumer \<Rightarrow> 'w Consumer \<Rightarrow> bool" where
  "cn_grows c c' \<longleftrightarrow> cnCfg c' = cnCfg c \<and> set (cnLog c) \<subseteq> set (cnLog c') \<and> set (cnStarts c) \<subseteq> set (cnStarts c')"

lemma handled_mono: "cn_grows c c' \<Longrightarrow> handled c tp off \<Longrightarrow> handled c' tp off"
  by (auto simp: cn_grows_def handled_def)

lemma reached_mono: "cn_grows c c' \<Longrightarrow> reached c tp f \<Longrightarrow> reached c' tp f"
  using handled_mono [of c c'] unfolding reached_def by (meson cn_grows_def subsetD)

lemma part_ok_mono: "cn_grows c c' \<Longrightarrow> part_ok c tp p \<Longrightarrow> part_ok c' tp p"
  by (auto simp: part_ok_def intro: handled_mono reached_mono)

text \<open>
  A step is described by what it does to the six fields the invariant reads: \<open>cn_keeps\<close> collects the case in which the
  log stays and every partition, safe offset, commit and task is an old one or justified.
\<close>

definition cn_keeps :: "'w Consumer \<Rightarrow> 'w Consumer \<Rightarrow> bool" where
  "cn_keeps c c' \<longleftrightarrow> cnCfg c' = cnCfg c \<and> cnLog c' = cnLog c \<and> cnStarts c' = cnStarts c
     \<and> (\<forall>(tp, p) \<in> set (cnParts c'). (tp, p) \<in> set (cnParts c) \<or> part_ok c tp p)
     \<and> (\<forall>(tp, f) \<in> set (cnSafe c'). (tp, f) \<in> set (cnSafe c) \<or> reached c tp f)
     \<and> (\<forall>offs. CallCommit offs \<in> set (cnCalls c') \<longrightarrow> CallCommit offs \<in> set (cnCalls c) 
          \<or> (\<forall>x \<in> set offs. reached c (poTP x) (poOffset x)))
     \<and> held_tasks c' \<subseteq> held_tasks c \<and> set (cnResults c') \<subseteq> set (cnResults c)"

lemma keeps_same:
  assumes "cnCfg c' = cnCfg c" "cnLog c' = cnLog c" "cnStarts c' = cnStarts c"
  shows "handled c' = handled c" "reached c' = reached c" "part_ok c' = part_ok c"
proof -
  show h: "handled c' = handled c" using assms by (simp add: handled_def fun_eq_iff)
  show r: "reached c' = reached c" using assms h by (simp add: reached_def fun_eq_iff)
  show "part_ok c' = part_ok c" using h r by (simp add: part_ok_def fun_eq_iff)
qed

lemma cn_keeps_refl [simp]: "cn_keeps c c"
  by (auto simp: cn_keeps_def)

text \<open>An operation is good when it preserves the invariant and takes nothing back.\<close>

definition cn_good :: "'w Consumer \<Rightarrow> 'w Consumer \<Rightarrow> bool" where
  "cn_good c c' \<longleftrightarrow> (cn_inv c \<longrightarrow> cn_inv c' \<and> cn_grows c c')"

lemma cn_grows_trans: "cn_grows a b \<Longrightarrow> cn_grows b c \<Longrightarrow> cn_grows a c"
  by (auto simp: cn_grows_def)

lemma good_refl [simp]: "cn_good c c"
  by (simp add: cn_good_def cn_grows_def)

lemma good_trans [trans]: "cn_good a b \<Longrightarrow> cn_good b c \<Longrightarrow> cn_good a c"
  unfolding cn_good_def using cn_grows_trans by blast

lemma good_keeps: "(cn_inv c \<Longrightarrow> cn_keeps c c') \<Longrightarrow> cn_good c c'"
  using keeps_same [of c' c] unfolding cn_keeps_def cn_inv_def cn_grows_def cn_good_def by fastforce

lemma good_same:
  assumes "cnCfg c' = cnCfg c" "cnLog c' = cnLog c" "cnStarts c' = cnStarts c" "set (cnParts c') \<subseteq> set (cnParts c)"
    "set (cnSafe c') \<subseteq> set (cnSafe c)" "\<forall>offs. CallCommit offs \<in> set (cnCalls c') \<longrightarrow> CallCommit offs \<in> set (cnCalls c)"
    "held_tasks c' \<subseteq> held_tasks c" "set (cnResults c') \<subseteq> set (cnResults c)"
  shows "cn_good c c'"
  by (rule good_keeps) (use assms in \<open>auto simp: cn_keeps_def\<close>)

lemma good_updates:
  "cn_good c (cn_emit code tp off reason c)" "cn_good c (cn_count f c)" "cn_good c (cn_set_inflight n c)"
  "(\<And>offs. k \<noteq> CallCommit offs) \<Longrightarrow> cn_good c (cn_called k c)"
  by (rule good_same; auto simp: consumer_upd_defs held_tasks_def)+

lemmas good_after = good_trans [OF _ good_updates(1)] good_trans [OF _ good_updates(2)] good_trans [OF _ good_updates(3)]

lemma good_upd_part:
  assumes "\<And>p. map_of (cnParts c) tp = Some p \<Longrightarrow> part_ok c tp p \<Longrightarrow> part_ok c tp (f p)"
  shows "cn_good c (upd_part tp f c)"
proof (rule good_keeps)
  assume inv: "cn_inv c"
  show "cn_keeps c (upd_part tp f c)"
  proof (cases "map_of (cnParts c) tp")
    case (Some p)
    from map_of_SomeD [OF Some] inv have "part_ok c tp p" by (auto simp: cn_inv_def)
    with assms [OF Some] Some show ?thesis
      by (auto simp: cn_keeps_def upd_part_def held_tasks_def dest!: in_updateD)
  qed (simp add: upd_part_def)
qed

lemma good_upd_part_same:
  assumes "\<And>p. ptCompleted (f p) = ptCompleted p \<and> ptNext (f p) = ptNext p \<and> ptFrontier (f p) = ptFrontier p"
  shows "cn_good c (upd_part tp f c)"
  by (rule good_upd_part) (use assms in \<open>simp add: part_ok_def\<close>)

lemma good_dropQueued: "cn_good c (dropQueued tp only c)"
proof (cases "filter (\<lambda>(k, q). drops_key tp only k) (cnKeyQueues c) = []")
  case False
  let ?kq = "case only of None \<Rightarrow> filter (\<lambda>(k, q). \<not> drops_key tp only k) (cnKeyQueues c)
    | Some _ \<Rightarrow> map (\<lambda>(k, q). (k, if drops_key tp only k then [] else q)) (cnKeyQueues c)"
  have "(\<Union>(k, q) \<in> set ?kq. set q) \<subseteq> (\<Union>(k, q) \<in> set (cnKeyQueues c). set q)"
    by (auto split: option.splits if_splits)
  then have "cn_good c (c\<lparr>cnKeyQueues := ?kq\<rparr>)" by (intro good_same) (auto simp: held_tasks_def)
  from good_trans [OF good_trans [OF this good_upd_part_same] good_updates(3)] False show ?thesis
    by (simp add: dropQueued_def Let_def)
qed (simp add: dropQueued_def Let_def)

lemma part_ok_slide:
  assumes "part_ok c tp p" and "0 \<le> off" and "handled c tp off" and "slide (List.insert off (ptCompleted p)) (ptFrontier p) = (ys, g)"
  shows "part_ok c tp (p\<lparr>ptCompleted := ys, ptFrontier := g\<rparr>) \<and> (g \<noteq> ptFrontier p \<longrightarrow> reached c tp g)"
proof -
  note s = slide_spec [OF assms(4)]
  have done1: "\<forall>x \<in> set (List.insert off (ptCompleted p)). 0 \<le> x \<and> handled c tp x" using assms(1-3) by (auto simp: part_ok_def)
  have r: "reached c tp g" if "\<not> ptNext p < 0"
  proof -
    from that assms(1) have "reached c tp (ptFrontier p)" by (simp add: part_ok_def)
    then obtain st where "(tp, st) \<in> set (cnStarts c)" "0 \<le> st" "st \<le> ptFrontier p"
      "\<forall>x. st \<le> x \<longrightarrow> x < ptFrontier p \<longrightarrow> handled c tp x" by (auto simp: reached_def)
    moreover have "handled c tp x" if "ptFrontier p \<le> x" "x < g" for x using s done1 that by auto
    ultimately show ?thesis using s unfolding reached_def by (meson order_trans not_le)
  qed
  have "g = ptFrontier p" if "ptNext p < 0"
    using that assms(1) s done1 by (cases "g = ptFrontier p") (force simp: part_ok_def)+
  with r s done1 assms(1) show ?thesis by (auto simp: part_ok_def)
qed

lemma good_markDone:
  assumes "handled c tp off" and "0 \<le> off"
  shows "cn_good c (markDone tp off c)"
proof (rule good_keeps)
  assume inv: "cn_inv c"
  show "cn_keeps c (markDone tp off c)"
  proof (cases "map_of (cnParts c) tp")
    case (Some p)
    from map_of_SomeD [OF Some] inv have p: "part_ok c tp p" by (auto simp: cn_inv_def)
    obtain ys g where sl: "slide (List.insert off (ptCompleted p)) (ptFrontier p) = (ys, g)" by fastforce
    note ok1 = part_ok_slide [OF p assms(2,1) sl]
    have ok2: "part_ok c tp (p\<lparr>ptCompleted := ys, ptFrontier := g, ptFailures := 0\<rparr>)"
      "g = ptFrontier p \<Longrightarrow> part_ok c tp (p\<lparr>ptCompleted := ys\<rparr>)"
      using ok1 by (auto simp: part_ok_def split: if_splits)
    show ?thesis using Some sl ok1 ok2
      by (auto simp: cn_keeps_def markDone_def Let_def held_tasks_def dest!: in_updateD)
  qed (simp add: markDone_def)
qed

text \<open>Committing offers the client only offsets in \<open>safe\<close>.\<close>

lemma pending_safe: "x \<in> set (pending only c) \<Longrightarrow> (poTP x, poOffset x) \<in> set (cnSafe c)"
  by (auto simp: pending_def)

lemma good_commitOffsets:
  assumes "commitOffsets v (pending only c) (c, w) = (e, c', w')"
  shows "cn_good c c'"
proof -
  let ?o = "pending only c"
  have called: "cn_good c (cn_called (CallCommit ?o) c)"
    by (rule good_keeps) (use pending_safe [of _ only c] in \<open>fastforce simp: cn_keeps_def cn_called_def held_tasks_def cn_inv_def\<close>)
  have "cn_good x (set_committed offs x)" for x :: "'a Consumer" and offs
    by (rule good_same) (auto simp: set_committed_def held_tasks_def)
  with called assms show ?thesis
    by (auto simp: commitOffsets_def split: list.splits prod.splits option.splits intro!: good_after) (blast intro: good_trans)
qed

lemma good_commit: "cn_commit v (c, w) = (e, c', w') \<Longrightarrow> cn_good c c'"
proof -
  assume c: "cn_commit v (c, w) = (e, c', w')"
  obtain e1 c1 w1 where o: "commitOffsets v (pending (\<lambda>_. True) c) (c, w) = (e1, c1, w1)" by (metis prod_cases3)
  have "cn_good c1 (c1\<lparr>cnSinceCommit := 0, cnLastCommit := t\<rparr>)" for t by (rule good_same) (auto simp: held_tasks_def)
  with c o good_commitOffsets [OF o] show ?thesis
    by (auto simp: cn_commit_def split: option.splits intro: good_trans)
qed

lemma good_maybeCommit: "maybeCommit v force (c, w) = (c', w') \<Longrightarrow> cn_good c c'"
  using good_commit [of v c w "fst (cn_commit v (c, w))" c' w'] by (auto simp: maybeCommit_def Let_def prod_eq_iff split: if_splits)

lemma good_commitPartitions: "commitPartitions v tps (c, w) = (c', w') \<Longrightarrow> cn_good c c'"
  by (auto simp: commitPartitions_def) (metis good_commitOffsets prod.collapse)

section \<open>Every operation keeps the invariant\<close>

lemma good_fold: "(\<And>x c. cn_good c (f x c)) \<Longrightarrow> cn_good c (fold f xs c)"
  by (induction xs arbitrary: c) (auto intro: good_trans)

lemma good_assign: "cn_good c (assign_one tp c)"
  by (rule good_keeps) (auto simp: cn_keeps_def assign_one_def newPartition_def held_tasks_def part_ok_def dest!: in_updateD)

lemma good_onAssigned: "cn_good c (onAssigned tps c)"
  unfolding onAssigned_def by (rule good_trans [OF good_trans [OF good_updates(2) good_fold] good_fold]) (rule good_updates good_assign)+

lemma set_delete_subset: "set (AList.delete k al) \<subseteq> set al"
  by (induction al) auto

lemma good_revoke: "cn_good c (revoke_one tp c)"
  unfolding revoke_one_def by (rule good_trans [OF good_same good_dropQueued]) (auto simp: held_tasks_def set_delete_subset)

lemma good_onRevoked:
  assumes "onRevoked v tps (c, w) = (c', w')"
  shows "cn_good c c'"
proof -
  obtain c1 w1 where p: "commitPartitions v tps (c, w) = (c1, w1)" by fastforce
  let ?c2 = "fold revoke_one tps c1"
  let ?c3 = "?c2\<lparr>cnBacklog := filter (\<lambda>t. mTP (tkM t) \<notin> set tps) (cnBacklog ?c2)\<rparr>"
  have "cn_good c1 ?c2" by (rule good_fold) (rule good_revoke)
  moreover have "cn_good ?c2 ?c3" by (rule good_same) (auto simp: held_tasks_def)
  moreover have "cn_good ?c3 c'"
    using assms p by (auto simp: onRevoked_def Let_def intro!: good_trans [OF good_updates(2) good_fold] good_updates(1))
  ultimately show ?thesis using good_commitPartitions [OF p] by (blast intro: good_trans)
qed

lemma good_rebalanced: "rebalanced v rb (c, w) = (c', w') \<Longrightarrow> cn_good c c'"
  by (cases rb) (auto intro: good_onAssigned good_onRevoked)

lemma good_rebalances: "fold (rebalanced v) rbs (c, w) = (c', w') \<Longrightarrow> cn_good c c'"
proof (induction rbs arbitrary: c w)
  case (Cons rb rbs)
  obtain c1 w1 where "rebalanced v rb (c, w) = (c1, w1)" by fastforce
  with Cons good_rebalanced show ?case by (fastforce intro: good_trans)
qed simp

lemma good_poll: "do_poll v d (c, w) = (ans, c', w') \<Longrightarrow> cn_good c c'"
  by (auto simp: do_poll_def split: prod.splits intro: good_rebalances)

lemma good_seek: "seek_to v tp off what (c, w) = (e, c', w') \<Longrightarrow> cn_good c c'"
  by (auto simp: seek_to_def split: prod.splits option.splits intro: good_updates)

lemma good_cn_send: "0 \<le> mOffset (tkM t) \<Longrightarrow> cn_good c (cn_send t c)"
  unfolding cn_good_def cn_inv_def cn_grows_def
  by (cases "cnWork c") (auto simp: cn_send_def held_tasks_def chan_tasks_def part_ok_def reached_def handled_def split: if_splits)

lemma queues_update:
  "(\<Union>(k, q) \<in> set (AList.update k0 q0 kq). set q) \<subseteq> set q0 \<union> (\<Union>(k, q) \<in> set kq. set q)"
  using set_update_subset [of k0 q0 kq] by fastforce

lemma queues_lookup: "map_of kq k = Some q \<Longrightarrow> set q \<subseteq> (\<Union>(k, q) \<in> set kq. set q)"
  by (auto dest!: map_of_SomeD)

text \<open>Putting messages with proper offsets into the backlog or a queue.\<close>

lemma good_add_tasks:
  assumes "cnCfg c' = cnCfg c" "cnLog c' = cnLog c" "cnStarts c' = cnStarts c" "cnParts c' = cnParts c"
    "cnSafe c' = cnSafe c" "cnCalls c' = cnCalls c" "cnResults c' = cnResults c"
    "held_tasks c' \<subseteq> T \<union> held_tasks c" "\<forall>t \<in> T. 0 \<le> mOffset (tkM t)"
  shows "cn_good c c'"
  using assms keeps_same [of c' c] unfolding cn_good_def cn_inv_def cn_grows_def by auto

lemma good_send: "0 \<le> mOffset (tkM t) \<Longrightarrow> cn_good c (send t c)"
proof -
  assume t: "0 \<le> mOffset (tkM t)"
  have upd: "cn_good c (c\<lparr>cnKeyQueues := AList.update (keyOf t) q' (cnKeyQueues c)\<rparr>)"
    if "set q' \<subseteq> insert t (\<Union>(k, q) \<in> set (cnKeyQueues c). set q)" for q'
    by (rule good_add_tasks [where T = "{t}"]) (use that t queues_update [of "keyOf t" q' "cnKeyQueues c"] in \<open>auto simp: held_tasks_def\<close>)
  show ?thesis
    by (auto simp: send_def t split: option.split dest!: queues_lookup intro!: good_cn_send upd good_trans [OF upd good_cn_send])
qed

lemma good_released: "cn_good c (released t c)"
proof (cases "map_of (cnKeyQueues c) (keyOf t)")
  case (Some q)
  note q = queues_lookup [OF Some]
  have upd: "cn_good c (c\<lparr>cnKeyQueues := AList.update (keyOf t) q' (cnKeyQueues c)\<rparr>)" if "set q' \<subseteq> set q" for q'
    by (rule good_same) (use that q queues_update [of "keyOf t" q' "cnKeyQueues c"] in \<open>auto simp: held_tasks_def\<close>)
  have del: "cn_good c (c\<lparr>cnKeyQueues := AList.delete (keyOf t) (cnKeyQueues c)\<rparr>)"
    by (rule good_same) (use set_delete_subset [of "keyOf t" "cnKeyQueues c"] in \<open>auto simp: held_tasks_def\<close>)
  have "cn_good c (cn_send x (c\<lparr>cnKeyQueues := AList.update (keyOf t) xs (cnKeyQueues c)\<rparr>))" if "q = x # xs" for x xs
  proof -
    have "x \<in> held_tasks c" using q that by (auto simp: held_tasks_def)
    then have "cn_inv c \<Longrightarrow> 0 \<le> mOffset (tkM x)" by (auto simp: cn_inv_def)
    with upd [of xs] good_cn_send [of x] that show ?thesis by (auto simp: cn_good_def intro: cn_grows_trans)
  qed
  with Some del show ?thesis by (auto simp: released_def split: list.split)
next
  case None
  have "cn_good c (c\<lparr>cnKeyQueues := AList.delete (keyOf t) (cnKeyQueues c)\<rparr>)"
    by (rule good_same) (use set_delete_subset [of "keyOf t" "cnKeyQueues c"] in \<open>auto simp: held_tasks_def\<close>)
  with None show ?thesis by (simp add: released_def)
qed

lemma good_mirror: "mirror inp (c, w) = (c', w') \<Longrightarrow> cn_good c c'"
  by (auto simp: mirror_def split: option.splits prod.splits intro!: good_after)

lemma good_rewind: "rewind v tp (c, w) = (e, c', w') \<Longrightarrow> cn_good c c'"
proof -
  assume r: "rewind v tp (c, w) = (e, c', w')"
  show ?thesis
  proof (cases "map_of (cnParts c) tp")
    case None
    with r show ?thesis by (simp add: rewind_def)
  next
    case (Some p)
    let ?c = "c\<lparr>cnBacklog := filter (\<lambda>t. mTP (tkM t) \<noteq> tp) (cnBacklog c)\<rparr>"
    obtain e1 c1 w1 where s: "seek_to v tp (ptFrontier p) (''kafka: seeking '' @ TP_String tp @ '' back to '' @ FormatInt (ptFrontier p)) (?c, w) = (e1, c1, w1)"
      by (metis prod_cases3)
    have "cn_good c ?c" by (rule good_same) (auto simp: held_tasks_def)
    moreover note good_seek [OF s]
    moreover have "cn_good c1 (upd_part tp (\<lambda>p. p\<lparr>ptNext := ptFrontier p, ptFailedAt := -1, ptFailures := n p, ptRetryAt := u p\<rparr>) c1)" for n u
      by (rule good_upd_part) (auto simp: part_ok_def reached_def split: if_splits)
    ultimately show ?thesis using r Some s by (auto simp: rewind_def split: option.splits intro: good_trans)
  qed
qed

lemma good_drained: "rewind_if_drained v tp (c, w) = (e, c', w') \<Longrightarrow> cn_good c c'"
  by (auto simp: rewind_if_drained_def split: option.splits if_splits intro: good_rewind)

lemma good_note: "noteFailure v r (c, w) = (e, c', w') \<Longrightarrow> cn_good c c'"
  by (auto simp: noteFailure_def Let_def split: if_splits intro!: good_after good_upd_part_same good_trans [OF _ good_upd_part_same])

lemma good_count_result: "cn_good c (count_result r c)"
  by (auto simp: count_result_def Let_def split: Result.split intro!: good_after)

lemma frame_count [simp]:
  "cnLog (count_result r c) = cnLog c" "cnCfg (count_result r c) = cnCfg c" "cnCfg (cn_emit a b d e c) = cnCfg c" "cnLog (cn_emit a b d e c) = cnLog c"
  "cnCfg (cn_count f c) = cnCfg c" "cnLog (cn_count f c) = cnLog c" "cnCfg (cn_set_inflight n c) = cnCfg c" "cnLog (cn_set_inflight n c) = cnLog c"
  by (simp_all add: count_result_def consumer_upd_defs Let_def split: Result.split)

lemma frame_mirror: "mirror inp (c, w) = (c', w') \<Longrightarrow> cnLog c' = cnLog c \<and> cnCfg c' = cnCfg c"
  by (auto simp: mirror_def split: option.splits prod.splits)

lemma good_apply:
  assumes "apply_result v r (c, w) = (e, c', w')" and "r \<in> set (cnLog c)" and "0 \<le> mOffset (tkM (rsTask r))"
  shows "cn_good c c'"
proof -
  let ?t = "rsTask r"
  let ?tp = "mTP (tkM ?t)" and ?off = "mOffset (tkM ?t)"
  have fin: "cn_good c c'" if "cn_good c c1" "cnLog c1 = cnLog c" "cnCfg c1 = cnCfg c" "counts_done (cnCfg c) r"
    "rewind_if_drained v ?tp (released ?t (markDone ?tp ?off c1), w1) = (e, c', w')" for c1 w1
  proof -
    have "handled c1 ?tp ?off" using that(2-4) assms(2) by (auto simp: handled_def)
    from good_trans [OF good_trans [OF good_trans [OF that(1) good_markDone [OF this assms(3)]] good_released] good_drained [OF that(5)]]
    show ?thesis .
  qed
  consider "unstorable r" | "\<not> unstorable r" "is_safe (rsRes r)" | "\<not> unstorable r" "\<not> is_safe (rsRes r)" by blast
  then show ?thesis
  proof cases
    case 1
    let ?c = "cn_emit ConsumerUnstorable ?tp ?off '''' (cn_count (\<lambda>n. n\<lparr>csUnstorable := csUnstorable n + 1\<rparr>) c)"
    have c: "cn_good c ?c" by (intro good_after good_refl)
    show ?thesis
    proof (cases "cgOnUnstorable (cnCfg c) = UnstorableSkip")
      case True
      obtain c1 w1 where m: "mirror (tkIn ?t) (?c, w) = (c1, w1)" by fastforce
      show ?thesis
        by (rule fin [of c1 w1]) (use 1 True m assms(1) good_trans [OF c good_mirror [OF m]] frame_mirror [OF m] in
            \<open>auto simp: counts_done_def apply_result_def Let_def\<close>)
    qed (use 1 assms(1) in \<open>simp add: apply_result_def Let_def\<close>)
  next
    case 2
    show ?thesis
      by (rule fin [OF good_count_result]) (use 2 assms(1) in \<open>auto simp: counts_done_def apply_result_def Let_def\<close>)
  next
    case 3
    let ?c1 = "if iOrderKey (tkIn ?t) = '''' then c
      else (let c0 = dropQueued ?tp (Some (iOrderKey (tkIn ?t))) c in c0\<lparr>cnKeyQueues := AList.delete (keyOf ?t) (cnKeyQueues c0)\<rparr>)"
    have "cn_good x (x\<lparr>cnKeyQueues := AList.delete (keyOf ?t) (cnKeyQueues x)\<rparr>)" for x :: "'a Consumer"
      by (rule good_same) (use set_delete_subset [of "keyOf ?t" "cnKeyQueues x"] in \<open>auto simp: held_tasks_def\<close>)
    from good_trans [OF good_dropQueued this] have "cn_good c ?c1" by (simp add: Let_def)
    moreover obtain e1 c2 w2 where n: "noteFailure v r (?c1, w) = (e1, c2, w2)" by (metis prod_cases3)
    moreover have "cn_good c2 c'"
      using 3 assms(1) n good_drained by (auto simp: apply_result_def Let_def split: option.splits)
    ultimately show ?thesis using good_note [OF n] by (blast intro: good_trans)
  qed
qed

lemma good_complete:
  assumes "complete v r (c, w) = (e, c', w')" and "r \<in> set (cnLog c)" and "0 \<le> mOffset (tkM (rsTask r))"
  shows "cn_good c c'"
proof -
  let ?c1 = "cn_set_inflight (cnInflight c - 1) c"
  let ?c2 = "upd_part (mTP (tkM (rsTask r))) (\<lambda>p. p\<lparr>ptInflight := ptInflight p - 1\<rparr>) ?c1"
  have c2: "cn_good c ?c2" by (rule good_trans [OF good_updates(3) good_upd_part_same]) simp
  have "cn_good ?c2 c'" if "apply_result v r (?c2, w) = (e, c', w')" using good_apply [OF that] assms(2,3) by simp
  with assms(1) c2 show ?thesis
    by (auto simp: complete_def Let_def split: option.splits if_splits intro: good_updates(3) good_trans)
qed

text \<open>Executing a message adds its result to the log.\<close>

lemma good_log:
  assumes "0 \<le> mOffset (tkM (rsTask r))"
  shows "cn_good c (c\<lparr>cnLog := cnLog c @ [r]\<rparr>)"
proof -
  have g: "cn_grows c (c\<lparr>cnLog := cnLog c @ [r]\<rparr>)" by (auto simp: cn_grows_def)
  show ?thesis
    using assms g part_ok_mono [OF g] reached_mono [OF g] unfolding cn_good_def cn_inv_def by (fastforce simp: held_tasks_def)
qed

lemma process_good: "cn_process v ops xe b inp (c, w, s) = (ans, c', w', s') \<Longrightarrow> cn_good c c'"
  by (auto simp: cn_process_def Let_def split: prod.splits if_splits sum.splits option.splits intro!: good_after)

lemma good_exec:
  assumes "exec v ops xe t (c, w, s) = (r, c', w', s')" and "0 \<le> mOffset (tkM t)"
  shows "cn_good c c' \<and> r \<in> set (cnLog c') \<and> rsTask r = t"
proof -
  obtain res err c1 w1 s1 where p: "cn_process v ops xe (tkB t) (tkIn t) (c, w, s) = ((res, err), c1, w1, s1)" by (metis prod.collapse)
  let ?r = "\<lparr>rsTask = t, rsRes = res, rsErr = err\<rparr>"
  let ?c2 = "c1\<lparr>cnLog := cnLog c1 @ [?r]\<rparr>"
  have c2: "cn_good c ?c2" using assms(2) by (intro good_trans [OF process_good [OF p] good_log]) simp
  show ?thesis
  proof (cases "res = RParked")
    case True
    obtain c3 w2 where m: "mirror (tkIn t) (?c2, w1) = (c3, w2)" by fastforce
    with True p assms(1) frame_mirror [OF m] good_trans [OF c2 good_mirror [OF m]] show ?thesis by (auto simp: exec_def Let_def)
  qed (use p assms(1) c2 in \<open>auto simp: exec_def Let_def\<close>)
qed

lemma good_inline:
  assumes "run_inline v ops xe t (c, w, s) = (e, c', w', s')" and "0 \<le> mOffset (tkM t)"
  shows "cn_good c c'"
proof -
  obtain r c1 w1 s1 where x: "exec v ops xe t (c, w, s) = (r, c1, w1, s1)" by (metis prod_cases4)
  note g = good_exec [OF x assms(2)]
  have "cn_good c1 c'" using assms g good_complete [of v r c1 w1 e c' w'] by (auto simp: run_inline_def x split: prod.splits)
  with g show ?thesis by (blast intro: good_trans)
qed

lemma good_dispatch_counted: "cn_good c (dispatch_counted t c)"
  unfolding dispatch_counted_def by (rule good_trans [OF good_upd_part_same good_updates(3)]) simp

lemma good_dispatch:
  assumes "dispatchBacklog v ops xe (c, w, s) = (e, c', w', s')"
  shows "cn_good c c'"
  using assms
proof (induction v ops xe "(c, w, s)" arbitrary: c w s rule: dispatchBacklog.induct)
  case (1 v ops xe c w s)
  show ?case
  proof (cases "cnBacklog c")
    case Nil
    with 1 show ?thesis by (simp add: dispatchBacklog.simps)
  next
    case (Cons t ts)
    let ?c1 = "c\<lparr>cnBacklog := ts\<rparr>"
    let ?c2 = "dispatch_counted t ?c1"
    have c1: "cn_good c ?c1" by (rule good_same) (auto simp: held_tasks_def Cons)
    have t: "cn_inv c \<Longrightarrow> 0 \<le> mOffset (tkM t)" using Cons by (auto simp: cn_inv_def held_tasks_def)
    have weak: "(cn_inv c \<Longrightarrow> cn_good c d) \<Longrightarrow> cn_good c d" for d by (auto simp: cn_good_def)
    consider "\<not> cnInflight c < cnMaxInFlight c" | "cnInflight c < cnMaxInFlight c" "stale_task t ?c1"
      | "cnInflight c < cnMaxInFlight c" "\<not> stale_task t ?c1" "is_nil_chan (cnWork c)"
      | "cnInflight c < cnMaxInFlight c" "\<not> stale_task t ?c1" "\<not> is_nil_chan (cnWork c)" by blast
    then show ?thesis
    proof cases
      case 1
      with "1.prems" Cons show ?thesis by (simp add: dispatchBacklog.simps)
    next
      case 2
      with "1.hyps"(1) [OF Cons _ refl] "1.prems" Cons c1 show ?thesis by (auto simp: dispatchBacklog.simps [of v ops xe c] intro: good_trans)
    next
      case 3
      obtain e3 c3 w3 s3 where r: "run_inline v ops xe t (?c2, w, s) = (e3, c3, w3, s3)" by (metis prod_cases4)
      have g3: "cn_inv c \<Longrightarrow> cn_good c c3"
        using good_trans [OF good_trans [OF c1 good_dispatch_counted] good_inline [OF r t]] .
      show ?thesis
      proof (cases e3)
        case None
        have "cn_good c3 c'"
          by (rule "1.hyps"(2) [OF Cons _ refl]) (use 3 r None Cons "1.prems" in \<open>auto simp: dispatchBacklog.simps [of v ops xe c] Let_def\<close>)
        with g3 show ?thesis by (blast intro: weak good_trans)
      next
        case (Some err)
        with g3 3 r Cons "1.prems" show ?thesis by (auto simp: dispatchBacklog.simps [of v ops xe c] Let_def intro: weak)
      qed
    next
      case 4
      have "cn_good (send t ?c2) c'"
        by (rule "1.hyps"(3) [OF Cons _ refl]) (use 4 Cons "1.prems" in \<open>auto simp: dispatchBacklog.simps [of v ops xe c] Let_def\<close>)
      with good_trans [OF good_trans [OF c1 good_dispatch_counted] good_send [OF t]] show ?thesis by (blast intro: weak good_trans)
    qed
  qed
qed

lemma good_drain:
  assumes "drain v (c, w) = (e, c', w')"
  shows "cn_good c c'"
  using assms
proof (induction v "(c, w)" arbitrary: c w rule: drain.induct)
  case (1 v c w)
  show ?case
  proof (cases "cnResults c")
    case Nil
    with 1 show ?thesis by (simp add: drain.simps)
  next
    case (Cons r rs)
    let ?c1 = "c\<lparr>cnResults := rs\<rparr>"
    obtain e2 c2 w2 where k: "complete v r (?c1, w) = (e2, c2, w2)" by (metis prod_cases3)
    have c1: "cn_good c ?c1" by (rule good_same) (auto simp: held_tasks_def Cons)
    have "cn_inv c \<Longrightarrow> r \<in> set (cnLog c) \<and> 0 \<le> mOffset (tkM (rsTask r))" using Cons by (auto simp: cn_inv_def)
    with good_complete [OF k] c1 have c2: "cn_good c c2" by (auto simp: cn_good_def intro: cn_grows_trans)
    show ?thesis
    proof (cases e2)
      case None
      with k Cons 1 have "cn_good c2 c'" by (auto simp: drain.simps [of v c])
      with c2 show ?thesis by (blast intro: good_trans)
    qed (use k Cons 1 c2 in \<open>auto simp: drain.simps [of v c]\<close>)
  qed
qed

lemma good_throttle: "cn_good c (updateThrottle c)"
  by (rule good_same) (auto simp: updateThrottle_def Let_def held_tasks_def)

lemma good_set_paused: "cn_good c (set_paused code b reason tp c)"
proof (cases "map_of (cnParts c) tp")
  case (Some p)
  then have "c\<lparr>cnParts := AList.update tp (p\<lparr>ptPaused := b\<rparr>) (cnParts c)\<rparr> = upd_part tp (\<lambda>p. p\<lparr>ptPaused := b\<rparr>) c"
    by (simp add: upd_part_def)
  with Some show ?thesis by (auto simp: set_paused_def intro!: good_after good_upd_part_same)
qed (simp add: set_paused_def)

lemma good_reconcile:
  assumes "reconcile v (c, w) = (c', w')"
  shows "cn_good c c'"
proof -
  let ?why = "pause_reason v c w"
  let ?c1 = "c\<lparr>cnParts := map (\<lambda>(tp, p). (tp, if ?why tp p \<noteq> '''' \<and> \<not> ptPaused p then p\<lparr>ptPauseReason := ?why tp p\<rparr> else p)) (cnParts c)\<rparr>"
  have "part_ok c tp (if b then p\<lparr>ptPauseReason := z\<rparr> else p) = part_ok c tp p" for tp p b z by (simp add: part_ok_def)
  then have c1: "cn_good c ?c1"
    by (intro good_keeps) (auto simp: cn_keeps_def held_tasks_def cn_inv_def)
  have fold: "cn_good x (fold (set_paused code b reason) tps (cn_called k x))" if "\<And>offs. k \<noteq> CallCommit offs"
    for code b reason tps k and x :: "'a Consumer"
    using good_trans [OF good_updates(4) [of k] good_fold, OF that good_set_paused] .
  have cnt: "cn_good x (x\<lparr>cnPausedNow := n\<rparr>)" for x :: "'a Consumer" and n by (rule good_same) (auto simp: held_tasks_def)
  let ?ps = "map fst (filter (\<lambda>(tp, p). ?why tp p \<noteq> '''' \<and> \<not> ptPaused p) (cnParts c))"
  let ?rs = "map fst (filter (\<lambda>(tp, p). ?why tp p = '''' \<and> ptPaused p) (cnParts c))"
  have p: "cn_good (fst x) (fst (pause_parts v tps x))" "cn_good (fst x) (fst (resume_parts v tps x))" for x :: "'a Consumer \<times> 'a" and tps
    by (auto simp: pause_parts_def resume_parts_def split: prod.split option.split intro!: fold good_updates(4))
  have "c' = fst (count_paused (resume_parts v ?rs (pause_parts v ?ps (?c1, w))))"
    using assms by (simp add: reconcile_def Let_def)
  also have "cn_good c \<dots>"
    using good_trans [OF good_trans [OF good_trans [OF c1, of "fst (pause_parts v ?ps (?c1, w))"] p(2)] cnt] p(1) [of "(?c1, w)"]
    by (simp add: count_paused_def)
  finally show ?thesis .
qed

lemma good_take:
  assumes "map_of (cnParts c) (mTP m) = Some p" and "0 \<le> mOffset m" and "ptNext p < 0 \<or> mOffset m = ptNext p"
  shows "cn_good c (take_message v m b p c)"
proof -
  let ?p1 = "p\<lparr>ptFrontier := (if ptNext p < 0 then mOffset m else ptFrontier p), ptNext := mOffset m + 1\<rparr>"
  let ?c1 = "c\<lparr>cnParts := AList.update (mTP m) ?p1 (cnParts c),
    cnStarts := (if ptNext p < 0 then cnStarts c @ [(mTP m, mOffset m)] else cnStarts c)\<rparr>"
  have g: "cn_grows c ?c1" by (auto simp: cn_grows_def)
  have "cn_good c ?c1"
    unfolding cn_good_def
  proof (intro impI conjI g)
    assume inv: "cn_inv c"
    have "part_ok c (mTP m) p" using inv map_of_SomeD [OF assms(1)] by (auto simp: cn_inv_def)
    then have "part_ok ?c1 (mTP m) p" using part_ok_mono [OF g] by blast
    then have "part_ok ?c1 (mTP m) ?p1" using assms(2) by (auto simp: part_ok_def reached_def)
    then show "cn_inv ?c1"
      using inv part_ok_mono [OF g] reached_mono [OF g] unfolding cn_inv_def held_tasks_def
      by (fastforce dest!: in_updateD)
  qed
  moreover have "cn_good ?c1 (take_message v m b p c)"
    by (rule good_add_tasks [where T = "{\<lparr>tkM = m, tkIn = input_of v (cnCfg c) m, tkB = b, tkGen = ptGen p\<rparr>}"])
       (use assms(2) in \<open>auto simp: take_message_def Let_def cn_count_def held_tasks_def\<close>)
  ultimately show ?thesis by (rule good_trans)
qed

lemma good_accept: "accept v m (c, w) = (e, c', w') \<Longrightarrow> 0 \<le> mOffset m \<Longrightarrow> cn_good c c'"
  by (auto simp: accept_def split: option.splits if_splits intro: good_seek good_take)

text \<open>Kafka numbers the messages of a partition from 0: what a poll delivers has such an offset.\<close>

definition polls_ok :: "'w consumer_env \<Rightarrow> bool" where
  "polls_ok v \<longleftrightarrow> (\<forall>d w rbs m w'. cvPoll v d w = ((rbs, Inr (Some m)), w') \<longrightarrow> 0 \<le> mOffset m)"

lemma good_poll_accept:
  assumes "polls_ok v" and "poll_accept v (c, w) = (e, c', w')"
  shows "cn_good c c'"
proof -
  obtain ans c1 w1 where p: "do_poll v (poll_timeout c) (c, w) = (ans, c1, w1)" by (metis prod_cases3)
  have "0 \<le> mOffset m" if "ans = Inr (Some m)" for m
    using p assms(1) that by (fastforce simp: do_poll_def polls_ok_def split: prod.splits)
  with good_poll [OF p] assms(2) p show ?thesis
    by (auto simp: poll_accept_def split: sum.splits option.splits intro: good_trans good_accept)
qed

lemma good_turn:
  assumes "polls_ok v" and "run_turn v ops xe (c, w, s) = (e, c', w', s')"
  shows "cn_good c c'"
proof -
  obtain e1 c1 w1 where d: "drain v (c, w) = (e1, c1, w1)" by (metis prod_cases3)
  obtain c0 w0 where r: "reconcile v (updateThrottle c1, w1) = (c0, w0)" by fastforce
  obtain c2 w2 where h: "maybeCommit v False (c0, w0) = (c2, w2)" by fastforce
  have h2: "turn_housekeeping v (c1, w1) = (c2, w2)" using r h by (simp add: turn_housekeeping_def)
  have g2: "cn_good c c2"
    using good_drain [OF d] good_throttle good_reconcile [OF r] good_maybeCommit [OF h] by (blast intro: good_trans)
  obtain e3 c3 w3 where p: "poll_accept v (c2, w2) = (e3, c3, w3)" by (metis prod_cases3)
  from good_trans [OF g2 good_poll_accept [OF assms(1) p]] have g3: "cn_good c c3" .
  show ?thesis
    using assms(2) d h2 p good_drain [OF d] g2 g3
    by (auto simp: run_turn_def split: option.splits intro: good_trans good_dispatch)
qed

section \<open>No message is skipped\<close>

definition cs_inv :: "('w, 's) csys \<Rightarrow> bool" where
  "cs_inv y \<longleftrightarrow> cn_inv (ysC y) \<and> (\<forall>t \<in> set (ysRun y). 0 \<le> mOffset (tkM t))"

lemma cs_step_inv:
  assumes "polls_ok v" and "cs_step v ops xe other y y'" and "cs_inv y"
  shows "cs_inv y' \<and> cn_grows (ysC y) (ysC y')"
  using assms(2,3)
proof cases
  case (turn err c w s)
  with good_turn [OF assms(1) turn(5)] assms(3) show ?thesis by (simp add: cs_inv_def cn_good_def)
next
  case leave
  have "cn_good (ysC y) (stopWorkers ((ysC y)\<lparr>cnStopping := True\<rparr>))"
    by (rule good_same) (auto simp: stopWorkers_def held_tasks_def chan_tasks_def split: chan.splits)
  with leave assms(3) show ?thesis by (simp add: cs_inv_def cn_good_def)
next
  case (worker_takes t q)
  have "cn_good (ysC y) ((ysC y)\<lparr>cnWork := Chan q\<rparr>)" by (rule good_same) (use worker_takes in \<open>auto simp: held_tasks_def chan_tasks_def\<close>)
  moreover have "cn_inv (ysC y) \<Longrightarrow> 0 \<le> mOffset (tkM t)" using worker_takes by (auto simp: cn_inv_def held_tasks_def chan_tasks_def)
  ultimately show ?thesis using worker_takes assms(3) by (auto simp: cs_inv_def cn_good_def)
next
  case (worker_takes_closed t q)
  have "cn_good (ysC y) ((ysC y)\<lparr>cnWork := ClosedChan q\<rparr>)" by (rule good_same) (use worker_takes_closed in \<open>auto simp: held_tasks_def chan_tasks_def\<close>)
  moreover have "cn_inv (ysC y) \<Longrightarrow> 0 \<le> mOffset (tkM t)" using worker_takes_closed by (auto simp: cn_inv_def held_tasks_def chan_tasks_def)
  ultimately show ?thesis using worker_takes_closed assms(3) by (auto simp: cs_inv_def cn_good_def)
next
  case (worker_done ts t us r c w s)
  have "0 \<le> mOffset (tkM t)" using worker_done assms(3) by (auto simp: cs_inv_def)
  from good_exec [OF worker_done(3) this] have x: "cn_good (ysC y) c" "r \<in> set (cnLog c)" by auto
  have "cn_inv c \<Longrightarrow> cn_inv (c\<lparr>cnResults := cnResults c @ [r]\<rparr>)"
    using x(2) keeps_same [of "c\<lparr>cnResults := cnResults c @ [r]\<rparr>" c] by (auto simp: cn_inv_def held_tasks_def)
  moreover have "cn_grows c (c\<lparr>cnResults := cnResults c @ [r]\<rparr>)" by (simp add: cn_grows_def)
  ultimately show ?thesis using worker_done x(1) assms(3) by (auto simp: cs_inv_def cn_good_def intro: cn_grows_trans)
next
  case (drain_stopping r rs err c w)
  have c1: "cn_good (ysC y) ((ysC y)\<lparr>cnResults := rs\<rparr>)" by (rule good_same) (use drain_stopping in \<open>auto simp: held_tasks_def\<close>)
  have "r \<in> set (cnLog (ysC y)) \<and> 0 \<le> mOffset (tkM (rsTask r))" using drain_stopping assms(3) by (auto simp: cs_inv_def cn_inv_def)
  with good_complete [OF drain_stopping(5)] c1 have "cn_good (ysC y) c" by (auto intro: good_trans)
  with drain_stopping assms(3) show ?thesis by (simp add: cs_inv_def cn_good_def)
next
  case (final_commit err c w)
  with good_commit [OF final_commit(4)] assms(3) show ?thesis by (simp add: cs_inv_def cn_good_def)
next
  case (final_poll ans c w)
  with good_poll [OF final_poll(4)] assms(3) show ?thesis by (simp add: cs_inv_def cn_good_def)
next
  case (time_passes w s)
  with assms(3) show ?thesis by (simp add: cs_inv_def cn_grows_def)
qed

lemma cs_reach_inv:
  assumes "(cs_step v ops xe other)\<^sup>*\<^sup>* y y'" and "polls_ok v" and "cs_inv y"
  shows "cs_inv y'"
  using assms by (induction rule: rtranclp_induct) (auto dest: cs_step_inv)

lemma cs_start_inv: "NewConsumer rnd hc hs rep g = Inr c \<Longrightarrow> cs_inv (cs_start c v w s)"
  by (auto simp: NewConsumer_def new_consumer_def cs_start_def startWorkers_def cs_inv_def cn_inv_def held_tasks_def chan_tasks_def
      split: if_splits sum.splits)

text \<open>
  C1: an offset is committed only when every message before it is safe.  Whatever the client delivers, however
  the workers interleave, through failures, rewinds, rebalances and shutdown: for each offset ever offered to
  the client in a commit, all messages of the partition from the one at which an assignment began up to
  that offset have been executed with the result done, deferred or parked, or, under \<open>UnstorableSkip\<close> only, could not be
  stored.
\<close>

theorem commit_never_skips:
  assumes "NewConsumer rnd hc hs rep g = Inr c" and "polls_ok v" and "(cs_step v ops xe other)\<^sup>*\<^sup>* (cs_start c v w s) y"
    and "CallCommit offs \<in> set (cnCalls (ysC y))" and "x \<in> set offs"
  shows "\<exists>st. (poTP x, st) \<in> set (cnStarts (ysC y)) \<and> st \<le> poOffset x
    \<and> (\<forall>off. st \<le> off \<longrightarrow> off < poOffset x \<longrightarrow> handled (ysC y) (poTP x) off)"
proof -
  from cs_reach_inv [OF assms(3,2) cs_start_inv [OF assms(1)]] have "cn_inv (ysC y)" by (simp add: cs_inv_def)
  with assms(4,5) have "reached (ysC y) (poTP x) (poOffset x)" by (auto simp: cn_inv_def)
  then show ?thesis by (auto simp: reached_def)
qed

text \<open>A consumer of one topic, and a client that assigns its partition and delivers the message at offset 5.\<close>

definition ex_tp :: TopicPartition where "ex_tp = \<lparr>tpTopic = ''orders'', tpPartition = 0\<rparr>"

definition ex_msg :: "int \<Rightarrow> Message" where
  "ex_msg off = \<lparr>mTP = ex_tp, mOffset = off, mKey = Some ''k'', mValue = Some ''v'', mHeaders = [], mTimestamp = 0\<rparr>"

definition ex_cfg :: "int \<Rightarrow> log CConfig" where
  "ex_cfg n = \<lparr>cgBindings = [\<lparr>bdTopic = ''orders'', bdPipeline = Some (ex_pipe [ex_step ''a'' FnOk False])\<rparr>], cgWorkers = n, cgMaxInFlight = 0,
     cgIgnoreKeyOrder = False, cgPollTimeout = 0, cgCommitInterval = 0, cgCommitBatch = 1, cgProcessTimeout = 0, cgShutdownTimeout = 0,
     cgRetryBackoff = Some (\<lambda>_. 1), cgBrokersDownTimeout = 0, cgRequireDurableStore = False, cgOnUnstorable = UnstorableHalt,
     cgIDNamespace = '''', cgMirrorTimeout = 0, cgMirror = None\<rparr>"

definition ex_cv :: "log consumer_env" where
  "ex_cv = \<lparr>cvPipe = ex_penv ex_cp, cvNow = (\<lambda>_. 9), cvCtxErr = (\<lambda>w. w \<noteq> []), cvSeek = (\<lambda>_ _ w. (ok, w)), cvCommit = (\<lambda>_ w. (ok, w)),
     cvPause = (\<lambda>_ w. (ok, w)), cvResume = (\<lambda>_ w. (ok, w)), cvPoll = (\<lambda>_ w. (([Assigned [ex_tp]], Inr (Some (ex_msg 5))), w)),
     cvHealth = None, cvSha256 = (\<lambda>_. replicate 32 CHR ''x''), cvTimeText = (\<lambda>_. [])\<rparr>"

definition mem_cs :: "(call_env, MemoryStore) ConsumerStore" where
  "mem_cs = \<lparr>coHasOrderKey = ms_HasOrderKey, coAppend = ms_Append\<rparr>"

definition ex_xe :: "(log, call_env) exec_env" where
  "ex_xe = \<lparr>xvHas = (\<lambda>_. ex_env 1 []), xvAppend = (\<lambda>_. ex_env 1 [])\<rparr>"

definition ex_cn :: "int \<Rightarrow> log Consumer" where
  "ex_cn n = projr (NewConsumer (\<lambda>x. x) True True None (ex_cfg n))"

lemma ex_cn_new: "NewConsumer (\<lambda>x. x) True True None (ex_cfg 1) = Inr (ex_cn 1)"
  by (simp add: ex_cn_def NewConsumer_def ex_cfg_def)

definition ex_y0 :: "(log, MemoryStore) csys" where
  "ex_y0 = cs_start (ex_cn 1) ex_cv [] (NewMemoryStore ex_opts)"

definition ex_turn :: "(log, MemoryStore) csys \<Rightarrow> (log, MemoryStore) csys" where
  "ex_turn y = (case run_turn ex_cv mem_cs ex_xe (ysC y, ysW y, ysS y) of
     (err, c, w, s) \<Rightarrow> y\<lparr>ysC := c, ysW := w, ysS := s, ysFatal := err\<rparr>)"

definition ex_commit :: "(log, MemoryStore) csys \<Rightarrow> (log, MemoryStore) csys" where
  "ex_commit y = (case cn_commit ex_cv (ysC y, ysW y) of (err, c, w) \<Rightarrow> y\<lparr>ysC := c, ysW := w\<rparr>)"

definition ex_y1 :: "(log, MemoryStore) csys" where "ex_y1 = ex_turn ex_y0"
definition ex_y2 :: "(log, MemoryStore) csys" where "ex_y2 = ex_y1\<lparr>ysC := stopWorkers ((ysC ex_y1)\<lparr>cnStopping := True\<rparr>)\<rparr>"
definition ex_y3 :: "(log, MemoryStore) csys" where "ex_y3 = ex_commit ex_y2"

lemma ex_y_run:
  "let y0 = ex_y0; y1 = ex_turn y0; y2 = y1\<lparr>ysC := stopWorkers ((ysC y1)\<lparr>cnStopping := True\<rparr>)\<rparr>; y3 = ex_commit y2
   in (\<not> cnStopping (ysC y0) \<and> \<not> cvCtxErr ex_cv (ysW y0) \<and> ysFatal y0 = ok)
    \<and> (\<not> cnStopping (ysC y1) \<and> cvCtxErr ex_cv (ysW y1))
    \<and> (cnStopping (ysC y2) \<and> \<not> cnPanicked (ysC y2))
    \<and> cnCalls (ysC y3) = [CallCommit [\<lparr>poTP = ex_tp, poOffset = 6\<rparr>]] \<and> cnStarts (ysC y3) = [(ex_tp, 5)]"
  by code_simp

lemmas ex_y_facts = ex_y_run [unfolded Let_def, folded ex_y1_def, folded ex_y2_def, folded ex_y3_def]

lemma ex_y3_reached: "(cs_step ex_cv mem_cs ex_xe other)\<^sup>*\<^sup>* (cs_start (ex_cn 1) ex_cv [] (NewMemoryStore ex_opts)) ex_y3"
proof -
  have "cs_step ex_cv mem_cs ex_xe other ex_y0 ex_y1"
    unfolding ex_y1_def ex_turn_def using ex_y_facts by (auto split: prod.split intro!: cs_step.turn)
  moreover have "cs_step ex_cv mem_cs ex_xe other ex_y1 ex_y2"
    unfolding ex_y2_def using ex_y_facts by (intro cs_step.leave) auto
  moreover have "cs_step ex_cv mem_cs ex_xe other ex_y2 ex_y3"
    unfolding ex_y3_def ex_commit_def using ex_y_facts by (auto split: prod.split intro: cs_step.final_commit)
  ultimately show ?thesis by (fold ex_y0_def) (meson converse_rtranclp_into_rtranclp rtranclp.rtrancl_refl)
qed

lemma ex_cv_polls: "polls_ok ex_cv"
  by (simp add: polls_ok_def ex_cv_def ex_msg_def)

theorem commit_never_skips_witness:
  "handled (ysC ex_y3) ex_tp 5 \<and> CallCommit [\<lparr>poTP = ex_tp, poOffset = 6\<rparr>] \<in> set (cnCalls (ysC ex_y3))"
  using commit_never_skips [OF ex_cn_new ex_cv_polls ex_y3_reached, of "[\<lparr>poTP = ex_tp, poOffset = 6\<rparr>]" "\<lparr>poTP = ex_tp, poOffset = 6\<rparr>"] ex_y_facts by simp

end
