(* ===== verification/GG_Consumer_Exec.thy ===== *)
theory GG_Consumer_Exec
  imports GG_Consumer_Props
begin

text \<open>
  What executing one message means for the message: the consumer, the pipeline and the store together.  The store's
  part is the contract \<open>keyed_store\<close>: the append laws and an exact answer to \<open>HasOrderKey\<close>.
\<close>

locale keyed_store = append_store inv content append_op
  for inv :: "'s \<Rightarrow> bool" and content :: "'s \<Rightarrow> content" and append_op :: "'e \<Rightarrow> Record \<Rightarrow> 's \<Rightarrow> goerr \<times> 's" +
  fixes has_key_op :: "'e \<Rightarrow> string \<Rightarrow> 's \<Rightarrow> gerror + bool"
  assumes has_key_exact: "inv s \<Longrightarrow> has_key_op e k s = Inr b \<Longrightarrow>
    b \<longleftrightarrow> k \<noteq> '''' \<and> (\<exists>i r. content s i = Some r \<and> rOrderKey r = k)"
begin

lemma held_stored:
  assumes "inv s" and "append_op ae (zero_record\<lparr>rID := iID inp, rSource := iSource inp, rKey := iKey inp, rValue := iValue inp,
    rHeaders := iHeaders inp, rOrderKey := iOrderKey inp, rLastError := text\<rparr>) s = (ok, s')"
  shows "content s' (iID inp) \<noteq> None \<and> (content s (iID inp) = None \<longrightarrow> (\<exists>r. content s' (iID inp) = Some r \<and> holds_input inp r \<and> rState r = Pending))"
proof -
  let ?r = "zero_record\<lparr>rID := iID inp, rSource := iSource inp, rKey := iKey inp, rValue := iValue inp,
    rHeaders := iHeaders inp, rOrderKey := iOrderKey inp, rLastError := text\<rparr>"
  have "content s' (rID ?r) \<noteq> None" using append_ok_stored [OF assms] .
  moreover have "\<exists>r. content s' (iID inp) = Some r \<and> holds_input inp r \<and> rState r = Pending" if "content s (iID inp) = None"
    using append_new [OF assms] that by (auto simp: stored_as_def same_payload_def holds_input_def zero_record_def)
  ultimately show ?thesis by simp
qed

text \<open>Executing a message that is not held back is the pipeline's \<open>Execute\<close>.\<close>

definition key_waits :: "'s \<Rightarrow> Input \<Rightarrow> bool" where
  "key_waits s inp \<longleftrightarrow> iOrderKey inp \<noteq> '''' \<and> (\<exists>i r. content s i = Some r \<and> rOrderKey r = iOrderKey inp)"

lemma process_safe:
  assumes "inv s" and "pl_ok (bnPipeline b)"
    and "cn_process v \<lparr>coHasOrderKey = has_key_op, coAppend = append_op\<rparr> xe b inp (c, w, s) = ((res, err), c', w', s')"
  shows "inv s' \<and> (\<forall>i r. content s i = Some r \<longrightarrow> content s' i = Some r)
    \<and> (case res of
         RDone \<Rightarrow> err = ok \<and> s' = s \<and> (\<exists>x. run_steps (cvPipe v) (plSteps (bnPipeline b)) (runX (live_run (bnPipeline b) inp w), w) = (None, x, w'))
       | RFailed \<Rightarrow> err \<noteq> ok \<and> content s' = content s
       | _ \<Rightarrow> err = ok \<and> content s' (iID inp) \<noteq> None
           \<and> (content s (iID inp) = None \<longrightarrow> (\<exists>r. content s' (iID inp) = Some r \<and> holds_input inp r \<and> rState r = (if res = RDeferred then Pending else Parked))))
    \<and> (key_waits s inp \<longrightarrow> w' = w \<and> res \<in> {RDeferred, RFailed})"
proof -
  let ?ops = "\<lparr>coHasOrderKey = has_key_op, coAppend = append_op\<rparr>"
  have run: ?thesis if x: "Execute (cvPipe v) (bnPipeline b) (append_op (xvAppend xe w)) inp w s = ((res, err), w', s')" and nk: "\<not> key_waits s inp"
    using execute_safe [OF assms(1,2) x] nk by (cases res) auto
  consider "iOrderKey inp = ''''" | e where "iOrderKey inp \<noteq> ''''" "has_key_op (xvHas xe w) (iOrderKey inp) s = Inl e"
    | "iOrderKey inp \<noteq> ''''" "has_key_op (xvHas xe w) (iOrderKey inp) s = Inr False"
    | "iOrderKey inp \<noteq> ''''" "has_key_op (xvHas xe w) (iOrderKey inp) s = Inr True"
    by (cases "has_key_op (xvHas xe w) (iOrderKey inp) s") (metis (full_types))+
  then show ?thesis
  proof cases
    case 1
    with assms(3) show ?thesis by (intro run) (auto simp: cn_process_def Let_def key_waits_def split: prod.splits)
  next
    case 2
    with assms show ?thesis by (auto simp: cn_process_def Let_def)
  next
    case 3
    with assms(3) has_key_exact [OF assms(1) 3(2)] show ?thesis
      by (intro run) (auto simp: cn_process_def Let_def key_waits_def split: prod.splits)
  next
    case 4
    let ?r = "zero_record\<lparr>rID := iID inp, rSource := iSource inp, rKey := iKey inp, rValue := iValue inp,
      rHeaders := iHeaders inp, rOrderKey := iOrderKey inp, rLastError := ''stored behind an earlier message with the same key''\<rparr>"
    obtain ans s1 where app: "append_op (xvAppend xe w) ?r s = (ans, s1)" by fastforce
    note keep = append_keeps [OF assms(1) app]
    show ?thesis
    proof (cases ans)
      case None
      with app held_stored [OF assms(1)] keep assms(3) 4 show ?thesis by (auto simp: cn_process_def Let_def)
    next
      case (Some x)
      with app append_error [OF assms(1)] keep assms(3) 4 show ?thesis by (auto simp: cn_process_def Let_def)
    qed
  qed
qed

end

section \<open>The memory store knows which keys it holds\<close>

lemma hasOrderKey_content:
  assumes "ms_ok s"
  shows "hasOrderKey (msMachine s) k \<longleftrightarrow> k \<noteq> '''' \<and> (\<exists>i r. ms_content s i = Some r \<and> rOrderKey r = k)"
proof -
  let ?m = "msMachine s"
  have m: "wf ?m" and kk: "key_ok ?m k" using assms by (auto simp: ms_ok_def wf_def wfx_def)
  have "(\<exists>i r. ms_content s i = Some r \<and> rOrderKey r = k) \<longleftrightarrow> {p \<in> set (order ?m). rOrderKey (rec_at ?m p) = k} \<noteq> {}"
    using lookup_order [OF m] order_lookup [OF m] by (force simp: ms_content_lookup [OF assms])
  with kk show ?thesis by (cases "byKey ?m k") (auto simp: hasOrderKey_def key_ok_def simp flip: set_empty)
qed

interpretation memk: keyed_store ms_ok ms_content ms_Append ms_HasOrderKey
  by unfold_locales (auto simp: ms_HasOrderKey_def hasOrderKey_content split: option.splits)

text \<open>
  C2: executing a message accounts for it.  Done means that every step of the pipeline ran in order and ended
  well; deferred or parked that the message is in the store, with its own payload if it was not there
  before; failed that there is an error and the store's content is as before.  No stored record is lost or altered.
  While the store holds a record with the message's key, the message is not run ahead of it: no step is called.
\<close>

theorem executed_message_accounted:
  assumes "ms_ok s" and "pl_ok (bnPipeline (tkB t))" and "exec v mem_cs xe t (c, w, s) = (r, c', w', s')"
  shows "rsTask r = t \<and> ms_ok s' \<and> (\<forall>i rc. ms_content s i = Some rc \<longrightarrow> ms_content s' i = Some rc)
    \<and> (case rsRes r of
         RDone \<Rightarrow> s' = s \<and> (\<exists>x. run_steps (cvPipe v) (plSteps (bnPipeline (tkB t))) (runX (live_run (bnPipeline (tkB t)) (tkIn t) w), w) = (None, x, w'))
       | RFailed \<Rightarrow> rsErr r \<noteq> ok \<and> ms_content s' = ms_content s
       | _ \<Rightarrow> ms_content s' (iID (tkIn t)) \<noteq> None
           \<and> (ms_content s (iID (tkIn t)) = None \<longrightarrow> (\<exists>rc. ms_content s' (iID (tkIn t)) = Some rc \<and> holds_input (tkIn t) rc
                \<and> rState rc = (if rsRes r = RDeferred then Pending else Parked))))
    \<and> (iOrderKey (tkIn t) \<noteq> '''' \<and> (\<exists>i rc. ms_content s i = Some rc \<and> rOrderKey rc = iOrderKey (tkIn t))
         \<longrightarrow> w' = w \<and> rsRes r \<in> {RDeferred, RFailed})"
proof -
  obtain res err c1 w1 s1 where p: "cn_process v mem_cs xe (tkB t) (tkIn t) (c, w, s) = ((res, err), c1, w1, s1)" by (metis prod.collapse)
  note safe = memk.process_safe [OF assms(1,2) p [unfolded mem_cs_def], unfolded memk.key_waits_def]
  have eqs: "rsTask r = t" "rsRes r = res" "rsErr r = err" "s' = s1" "res \<noteq> RParked \<longrightarrow> w' = w1"
    using assms(3) p by (auto simp: exec_def Let_def split: if_splits prod.splits)
  show ?thesis using safe eqs by (cases res) auto
qed

definition ex_task :: "log task" where
  "ex_task = \<lparr>tkM = ex_msg 5, tkIn = ex_in, tkB = \<lparr>bnPipeline = ex_abc True outage, bnBreakers = []\<rparr>, tkGen = 1\<rparr>"

theorem executed_message_accounted_witness:
  "let q = exec ex_cv mem_cs ex_xe ex_task (ex_cn 1, [], NewMemoryStore ex_opts)
   in rsRes (fst q) = RDeferred \<and> ms_content (snd (snd (snd q))) ''m1'' \<noteq> None"
proof -
  let ?q = "exec ex_cv mem_cs ex_xe ex_task (ex_cn 1, [], NewMemoryStore ex_opts)"
  have eval: "rsRes (fst ?q) = RDeferred" by code_simp
  have "pl_ok (bnPipeline (tkB ex_task))" using ex_abc_ok by (simp add: ex_task_def)
  from executed_message_accounted [OF ms_ok_new this, of ex_cv ex_xe "ex_cn 1" "[]" ex_opts "fst ?q" "fst (snd ?q)" "fst (snd (snd ?q))" "snd (snd (snd ?q))"]
  show ?thesis using eval by (simp add: ex_task_def ex_in_def Let_def)
qed

end
