(* ===== verification/GG_Consumer_Stop.thy ===== *)
theory GG_Consumer_Stop
  imports GG_Consumer_Props
begin

text \<open>
  Stopping the consumer: the final commit returns, and two ways in which the shutdown of a pool goes wrong
  when a message is waiting behind another with its key.
\<close>

section \<open>The final commit\<close>

lemma distinct_AList_delete: "distinct (map fst al) \<Longrightarrow> distinct (map fst (AList.delete k al))"
  by (simp add: distinct_delete)

lemma map_of_distinct: "distinct (map fst al) \<Longrightarrow> (k, a) \<in> set al \<Longrightarrow> (k, b) \<in> set al \<Longrightarrow> a = b"
  by (metis map_of_is_SomeI option.inject)

lemma commitOffsets_safe: "commitOffsets v offs (c, w) = (e, c', w') \<Longrightarrow> cnSafe c' = cnSafe c \<and> cnCfg c' = cnCfg c"
  by (auto simp: commitOffsets_def consumer_upd_defs set_committed_def split: list.splits prod.splits option.splits)

lemma commit_safe: "cn_commit v (c, w) = (e, c', w') \<Longrightarrow> cnSafe c' = cnSafe c"
  by (auto simp: cn_commit_def split: prod.splits option.splits dest!: commitOffsets_safe)

text \<open>A commit that succeeds leaves nothing to commit.\<close>

lemma committed_fold:
  assumes "distinct (map poTP offs)" and "x \<in> set offs"
  shows "foldl (\<lambda>m x. m(poTP x \<mapsto> poOffset x)) m0 offs (poTP x) = Some (poOffset x)"
  using assms
proof (induction offs rule: rev_induct)
  case (snoc y ys)
  then show ?case by (cases "x = y") (auto simp: image_iff)
qed simp

lemma committed_fold_other:
  "tp \<notin> poTP ` set offs \<Longrightarrow> foldl (\<lambda>m x. m(poTP x \<mapsto> poOffset x)) m0 offs tp = m0 tp"
  by (induction offs arbitrary: m0) auto

lemma pending_distinct: "distinct (map fst (cnSafe c)) \<Longrightarrow> distinct (map poTP (pending only c))"
  by (simp add: pending_def o_def case_prod_beta distinct_map_filter)

lemma nothing_pending:
  assumes "distinct (map fst (cnSafe c))" and "offs = pending (\<lambda>_. True) c"
    and "cnSafe c' = cnSafe c" and "cnCommitted c' = foldl (\<lambda>m x. m(poTP x \<mapsto> poOffset x)) (cnCommitted c) offs"
  shows "pending (\<lambda>_. True) c' = []"
proof -
  have "\<exists>lst. cnCommitted c' tp = Some lst \<and> off \<le> lst" if s: "(tp, off) \<in> set (cnSafe c)" for tp off
  proof (cases "tp \<in> poTP ` set offs")
    case True
    then obtain x where x: "x \<in> set offs" "poTP x = tp" by auto
    with assms(2) have "(tp, poOffset x) \<in> set (cnSafe c)" using pending_safe by blast
    with map_of_distinct [OF assms(1) s] have "poOffset x = off" by blast
    moreover have "cnCommitted c' tp = Some (poOffset x)"
      using committed_fold [OF _ x(1), of "cnCommitted c"] pending_distinct [OF assms(1)] x(2) by (simp add: assms(2,4))
    ultimately show ?thesis by simp
  next
    case False
    have "\<not> (case cnCommitted c tp of None \<Rightarrow> True | Some lst \<Rightarrow> lst < off)"
    proof
      assume "case cnCommitted c tp of None \<Rightarrow> True | Some lst \<Rightarrow> lst < off"
      with s have "(\<lambda>(tp, off). \<lparr>poTP = tp, poOffset = off\<rparr>) (tp, off) \<in> set offs"
        unfolding assms(2) pending_def set_map by (intro imageI) simp
      with False show False by force
    qed
    then have "\<exists>lst. cnCommitted c tp = Some lst \<and> off \<le> lst" by (cases "cnCommitted c tp") auto
    with committed_fold_other [OF False] assms(4) show ?thesis by simp
  qed
  then show ?thesis using assms(3) by (fastforce simp: pending_def filter_empty_conv split: option.splits)
qed

lemma commit_clears:
  assumes "cn_commit v (c, w) = (ok, c', w')" and "distinct (map fst (cnSafe c))"
  shows "pending (\<lambda>_. True) c' = []"
proof (cases "pending (\<lambda>_. True) c")
  case Nil
  with assms(1) show ?thesis by (auto simp: cn_commit_def commitOffsets_def pending_def)
next
  case (Cons x xs)
  with assms(1) show ?thesis
    by (intro nothing_pending [OF assms(2) refl])
       (auto simp: cn_commit_def commitOffsets_def consumer_upd_defs set_committed_def split: prod.splits option.splits)
qed

text \<open>Rebalances keep at most one safe offset per partition.\<close>

lemma dropQueued_safe [simp]: "cnSafe (dropQueued tp only c) = cnSafe c"
  by (simp add: dropQueued_def Let_def cn_set_inflight_def)

lemma fold_revoke_safe: "distinct (map fst (cnSafe c)) \<Longrightarrow> distinct (map fst (cnSafe (fold revoke_one tps c)))"
  by (induction tps arbitrary: c) (auto simp: revoke_one_def distinct_AList_delete)

lemma fold_assign_safe: "cnSafe (fold assign_one tps c) = cnSafe c"
  by (induction tps arbitrary: c) (auto simp: assign_one_def newPartition_def)

lemma fold_emit_safe: "cnSafe (fold (\<lambda>tp. cn_emit code tp off reason) tps c) = cnSafe c"
  by (induction tps arbitrary: c) (auto simp: cn_emit_def)

lemma rebalanced_safe:
  assumes "rebalanced v rb (c, w) = (c', w')" and "distinct (map fst (cnSafe c))"
  shows "distinct (map fst (cnSafe c'))"
proof (cases rb)
  case (Assigned tps)
  with assms show ?thesis by (auto simp: onAssigned_def fold_assign_safe fold_emit_safe cn_count_def)
next
  case (Revoked tps)
  obtain e c1 w1 where k: "commitOffsets v (pending (\<lambda>tp. tp \<in> set tps) c) (c, w) = (e, c1, w1)" by (metis prod_cases3)
  have "distinct (map fst (cnSafe (fold revoke_one tps c1)))" using commitOffsets_safe [OF k] assms(2) by (simp add: fold_revoke_safe)
  with assms(1) Revoked k show ?thesis
    by (auto simp: onRevoked_def commitPartitions_def Let_def fold_emit_safe cn_count_def)
qed

lemma rebalances_safe:
  "fold (rebalanced v) rbs (c, w) = (c', w') \<Longrightarrow> distinct (map fst (cnSafe c)) \<Longrightarrow> distinct (map fst (cnSafe c'))"
proof (induction rbs arbitrary: c w)
  case (Cons rb rbs)
  obtain c1 w1 where "rebalanced v rb (c, w) = (c1, w1)" by fastforce
  with Cons rebalanced_safe show ?case by fastforce
qed simp

text \<open>The clock runs: no call takes it back, and a poll takes some time.\<close>

definition clock_runs :: "'w consumer_env \<Rightarrow> duration \<Rightarrow> bool" where
  "clock_runs v \<delta> \<longleftrightarrow> 0 < \<delta> \<and> (\<forall>d w. cvNow v w + \<delta> \<le> cvNow v (snd (cvPoll v d w)))
     \<and> (\<forall>offs w. cvNow v w \<le> cvNow v (snd (cvCommit v offs w)))"

lemma commitOffsets_clock: "clock_runs v d \<Longrightarrow> commitOffsets v offs (c, w) = (e, c', w') \<Longrightarrow> cvNow v w \<le> cvNow v w'"
  by (auto simp: clock_runs_def commitOffsets_def split: list.splits prod.splits option.splits) (metis snd_conv)+

lemma commit_clock: "clock_runs v d \<Longrightarrow> cn_commit v (c, w) = (e, c', w') \<Longrightarrow> cvNow v w \<le> cvNow v w'"
  by (auto simp: cn_commit_def split: prod.splits option.splits dest: commitOffsets_clock)

lemma rebalances_clock:
  assumes "clock_runs v d" and "fold (rebalanced v) rbs (c, w) = (c', w')"
  shows "cvNow v w \<le> cvNow v w'"
  using assms(2)
proof (induction rbs arbitrary: c w)
  case (Cons rb rbs)
  obtain c1 w1 where r: "rebalanced v rb (c, w) = (c1, w1)" by fastforce
  have "cvNow v w \<le> cvNow v w1"
  proof (cases rb)
    case (Revoked tps)
    obtain e c2 w2 where k: "commitOffsets v (pending (\<lambda>tp. tp \<in> set tps) c) (c, w) = (e, c2, w2)" by (metis prod_cases3)
    with r Revoked commitOffsets_clock [OF assms(1) k] show ?thesis by (auto simp: onRevoked_def commitPartitions_def Let_def)
  qed (use r in auto)
  with Cons r show ?case by fastforce
qed simp

lemma poll_clock:
  assumes "clock_runs v d" and "do_poll v t (c, w) = (ans, c', w')"
  shows "cvNow v w + d \<le> cvNow v w'"
proof -
  obtain rbs a w1 where p: "cvPoll v t w = ((rbs, a), w1)" by (metis prod.collapse)
  have "cvNow v w + d \<le> cvNow v w1" using assms(1) p by (auto simp: clock_runs_def) (metis snd_conv)
  with rebalances_clock [OF assms(1)] assms(2) p show ?thesis by (fastforce simp: do_poll_def)
qed

lemma final_loop_returns:
  assumes "clock_runs v d" and "distinct (map fst (cnSafe c))" and "deadline - cvNow v w < d * int n"
  shows "\<exists>err c' w'. final_loop v deadline (c, w) = Some (err, c', w') \<and> (err = ok \<longrightarrow> pending (\<lambda>_. True) c' = [])"
  using assms(2,3)
proof (induction n arbitrary: c w)
  case 0
  obtain e c1 w1 where k: "cn_commit v (c, w) = (e, c1, w1)" by (metis prod_cases3)
  with 0 commit_clock [OF assms(1) k] show ?case
    using commit_clears [of v c w c1 w1] by (subst final_loop.simps) auto
next
  case (Suc n)
  obtain e c1 w1 where k: "cn_commit v (c, w) = (e, c1, w1)" by (metis prod_cases3)
  obtain ans c2 w2 where p: "do_poll v (cgPollTimeout (cnCfg c1)) (c1, w1) = (ans, c2, w2)" by (metis prod_cases3)
  have t: "cvNow v w + d \<le> cvNow v w2" using commit_clock [OF assms(1) k] poll_clock [OF assms(1) p] by linarith
  have "distinct (map fst (cnSafe c2))"
    using p Suc.prems(1) commit_safe [OF k] rebalances_safe by (fastforce simp: do_poll_def split: prod.splits)
  moreover have "deadline - cvNow v w2 < d * int n" using Suc.prems(2) t by (simp add: algebra_simps)
  ultimately obtain err c' w' where IH: "final_loop v deadline (c2, w2) = Some (err, c', w')" "err = ok \<longrightarrow> pending (\<lambda>_. True) c' = []"
    using Suc.IH by blast
  consider "e = ok" | x where "e = Some x" "deadline \<le> cvNow v w1" | x where "e = Some x" "\<not> deadline \<le> cvNow v w1" by (cases e) auto
  then show ?case
  proof cases
    case 1
    with k commit_clears [of v c w c1 w1] Suc.prems(1) show ?thesis by (subst final_loop.simps) simp
  next
    case 2
    with k show ?thesis by (subst final_loop.simps) simp
  next
    case 3
    with k p IH show ?thesis by (cases ans) (subst final_loop.simps; simp)+
  qed
qed

text \<open>
  C4: the final commit returns.  When polling takes time and the clock does not run backwards, \<open>finalCommit\<close> ends
  whatever the client answers; and when it reports success, every safe offset has been committed.
\<close>

theorem final_commit_returns:
  assumes "clock_runs v d" and "distinct (map fst (cnSafe c))"
  shows "\<exists>err c' w'. finalCommit v (c, w) = Some (err, c', w') \<and> (err = ok \<longrightarrow> pending (\<lambda>_. True) c' = [])"
proof -
  let ?t = "cgShutdownTimeout (cnCfg c)"
  have d: "0 < d" using assms(1) by (simp add: clock_runs_def)
  have "?t \<le> d * int (nat ?t)" using d by (cases "0 \<le> ?t") (simp_all add: mult_le_cancel_right1)
  then have "cvNow v w + ?t - cvNow v w < d * int (nat ?t + 1)" using d by (simp add: algebra_simps)
  from final_loop_returns [OF assms this] show ?thesis by (simp add: finalCommit_def)
qed

text \<open>A client whose every commit is refused, and a clock that counts the polls.\<close>

definition ex_refusing :: "log consumer_env" where
  "ex_refusing = ex_cv\<lparr>cvNow := (\<lambda>w. int (length w)), cvCommit := (\<lambda>_ w. (Some (EText ''rebalancing''), w)),
     cvPoll := (\<lambda>_ w. (([], Inr None), ''poll'' # w))\<rparr>"

theorem final_commit_returns_witness:
  "\<exists>err c' w'. finalCommit ex_refusing ((ex_cn 1)\<lparr>cnSafe := [(ex_tp, 6)]\<rparr>, []) = Some (err, c', w') \<and> (err = ok \<longrightarrow> pending (\<lambda>_. True) c' = [])"
proof -
  have "clock_runs ex_refusing 1" by (simp add: clock_runs_def ex_refusing_def)
  then show ?thesis by (rule final_commit_returns) simp
qed

section \<open>Shutting down with messages waiting for a key\<close>

text \<open>
  \<open>released\<close> sends the next message of a key to the pool also while stopping, when the channel is closed already:
  a result that ended well, of a message that another one waits for, makes the final drain panic.
\<close>

lemma drain_panics:
  assumes "cnWork c = ClosedChan q" and "map_of (cnParts c) (mTP (tkM (rsTask r))) = Some p" and "ptGen p = tkGen (rsTask r)"
    and "is_safe (rsRes r)" and "iOrderKey (tkIn (rsTask r)) \<noteq> ''''" and "map_of (cnKeyQueues c) (keyOf (rsTask r)) = Some (nxt # ws)"
    and "cnStopping c"
  shows "cnPanicked (fst (snd (complete v r (c, w))))"
proof -
  let ?t = "rsTask r"
  let ?tp = "mTP (tkM ?t)"
  let ?c1 = "upd_part ?tp (\<lambda>p. p\<lparr>ptInflight := ptInflight p - 1\<rparr>) (cn_set_inflight (cnInflight c - 1) c)"
  let ?c2 = "markDone ?tp (mOffset (tkM ?t)) (count_result r ?c1)"
  have frame: "cnWork ?c2 = cnWork c" "cnKeyQueues ?c2 = cnKeyQueues c" "cnStopping ?c2 = cnStopping c"
    by (simp_all add: markDone_def count_result_def consumer_upd_defs Let_def split: option.split prod.split Result.split)
  have rel: "cnPanicked (released ?t ?c2)" "cnStopping (released ?t ?c2)"
    using assms(1,5,6,7) frame by (auto simp: released_def cn_send_def)
  have fin: "rewind_if_drained v ?tp (released ?t ?c2, w) = (ok, released ?t ?c2, w)"
    using rel(2) by (auto simp: rewind_if_drained_def split: option.split)
  have "\<not> unstorable r" using assms(4) by (simp add: unstorable_def)
  then have "complete v r (c, w) = (ok, released ?t ?c2, w)"
    using assms(2-4) fin by (simp add: complete_def apply_result_def Let_def cn_set_inflight_def)
  with rel(1) show ?thesis by simp
qed

text \<open>Steps of the system as functions, to follow a run.\<close>

definition go_turn :: "'w consumer_env \<Rightarrow> ('e, 's) ConsumerStore \<Rightarrow> ('w, 'e) exec_env \<Rightarrow> ('w, 's) csys \<Rightarrow> ('w, 's) csys" where
  "go_turn v ops xe y = (case run_turn v ops xe (ysC y, ysW y, ysS y) of (err, c, w, s) \<Rightarrow> y\<lparr>ysC := c, ysW := w, ysS := s, ysFatal := err\<rparr>)"

definition go_take :: "('w, 's) csys \<Rightarrow> ('w, 's) csys" where
  "go_take y = (case cnWork (ysC y) of Chan (t # q) \<Rightarrow> y\<lparr>ysC := (ysC y)\<lparr>cnWork := Chan q\<rparr>, ysRun := ysRun y @ [t]\<rparr> | _ \<Rightarrow> y)"

definition go_done :: "'w consumer_env \<Rightarrow> ('e, 's) ConsumerStore \<Rightarrow> ('w, 'e) exec_env \<Rightarrow> ('w, 's) csys \<Rightarrow> ('w, 's) csys" where
  "go_done v ops xe y = (case ysRun y of [] \<Rightarrow> y | t # us \<Rightarrow>
     (case exec v ops xe t (ysC y, ysW y, ysS y) of
        (r, c, w, s) \<Rightarrow> y\<lparr>ysC := c\<lparr>cnResults := cnResults c @ [r]\<rparr>, ysW := w, ysS := s, ysRun := us\<rparr>))"

definition go_leave :: "('w, 's) csys \<Rightarrow> ('w, 's) csys" where
  "go_leave y = y\<lparr>ysC := stopWorkers ((ysC y)\<lparr>cnStopping := True\<rparr>)\<rparr>"

definition go_drain :: "'w consumer_env \<Rightarrow> ('w, 's) csys \<Rightarrow> ('w, 's) csys" where
  "go_drain v y = (case cnResults (ysC y) of [] \<Rightarrow> y | r # rs \<Rightarrow>
     (case complete v r ((ysC y)\<lparr>cnResults := rs\<rparr>, ysW y) of (err, c, w) \<Rightarrow> y\<lparr>ysC := c, ysW := w\<rparr>))"

lemma go_steps:
  "\<not> cnStopping (ysC y) \<and> \<not> cvCtxErr v (ysW y) \<and> ysFatal y = ok \<Longrightarrow> (cs_step v ops xe other)\<^sup>*\<^sup>* y (go_turn v ops xe y)"
  "0 < cgWorkers (cnCfg (ysC y)) \<and> ysRun y = [] \<Longrightarrow> (cs_step v ops xe other)\<^sup>*\<^sup>* y (go_take y)"
  "(cs_step v ops xe other)\<^sup>*\<^sup>* y (go_done v ops xe y)"
  "\<not> cnStopping (ysC y) \<and> (cvCtxErr v (ysW y) \<or> ysFatal y \<noteq> ok) \<Longrightarrow> (cs_step v ops xe other)\<^sup>*\<^sup>* y (go_leave y)"
  "cnStopping (ysC y) \<and> \<not> cnPanicked (ysC y) \<Longrightarrow> (cs_step v ops xe other)\<^sup>*\<^sup>* y (go_drain v y)"
proof -
  show "(cs_step v ops xe other)\<^sup>*\<^sup>* y (go_turn v ops xe y)" if "\<not> cnStopping (ysC y) \<and> \<not> cvCtxErr v (ysW y) \<and> ysFatal y = ok"
    using that by (auto simp: go_turn_def split: prod.split intro!: r_into_rtranclp cs_step.turn)
  show "(cs_step v ops xe other)\<^sup>*\<^sup>* y (go_take y)" if "0 < cgWorkers (cnCfg (ysC y)) \<and> ysRun y = []"
    using that cs_step.worker_takes [of y _ _ v ops xe other] by (auto simp: go_take_def split: chan.split list.split intro!: r_into_rtranclp)
  show "(cs_step v ops xe other)\<^sup>*\<^sup>* y (go_done v ops xe y)"
  proof (cases "ysRun y")
    case (Cons t us)
    obtain r c w s where x: "exec v ops xe t (ysC y, ysW y, ysS y) = (r, c, w, s)" by (metis prod_cases4)
    have "cs_step v ops xe other y (y\<lparr>ysC := c\<lparr>cnResults := cnResults c @ [r]\<rparr>, ysW := w, ysS := s, ysRun := [] @ us\<rparr>)"
      by (rule cs_step.worker_done [OF _ x]) (simp add: Cons)
    with Cons x show ?thesis by (auto simp: go_done_def)
  qed (simp add: go_done_def)
  show "(cs_step v ops xe other)\<^sup>*\<^sup>* y (go_leave y)" if "\<not> cnStopping (ysC y) \<and> (cvCtxErr v (ysW y) \<or> ysFatal y \<noteq> ok)"
    using that unfolding go_leave_def by (intro r_into_rtranclp cs_step.leave) auto
  show "(cs_step v ops xe other)\<^sup>*\<^sup>* y (go_drain v y)" if "cnStopping (ysC y) \<and> \<not> cnPanicked (ysC y)"
    using that by (auto simp: go_drain_def split: prod.split list.split intro!: r_into_rtranclp intro: cs_step.drain_stopping)
qed

text \<open>Two messages of one key arrive; the context ends while the first is being processed.\<close>

definition ex_pool :: "log consumer_env" where
  "ex_pool = ex_cv\<lparr>cvCtxErr := (\<lambda>w. ''a'' \<in> set w),
     cvPoll := (\<lambda>_ w. if w = [] then (([Assigned [ex_tp]], Inr (Some (ex_msg 5))), [''1''])
                      else if w = [''1''] then (([], Inr (Some (ex_msg 6))), [''2'', ''1'']) else (([], Inr None), w))\<rparr>"

definition ex_p0 :: "(log, MemoryStore) csys" where "ex_p0 = cs_start (ex_cn 2) ex_pool [] (NewMemoryStore ex_opts)"
definition ex_p1 :: "(log, MemoryStore) csys" where "ex_p1 = go_turn ex_pool mem_cs ex_xe ex_p0"
definition ex_p2 :: "(log, MemoryStore) csys" where "ex_p2 = go_turn ex_pool mem_cs ex_xe ex_p1"
definition ex_p3 :: "(log, MemoryStore) csys" where "ex_p3 = go_take ex_p2"
definition ex_p4 :: "(log, MemoryStore) csys" where "ex_p4 = go_done ex_pool mem_cs ex_xe ex_p3"
definition ex_p5 :: "(log, MemoryStore) csys" where "ex_p5 = go_leave ex_p4"
definition ex_p6 :: "(log, MemoryStore) csys" where "ex_p6 = go_drain ex_pool ex_p5"

lemma ex_pool_run:
  "let y0 = ex_p0; y1 = go_turn ex_pool mem_cs ex_xe y0; y2 = go_turn ex_pool mem_cs ex_xe y1; y3 = go_take y2;
       y4 = go_done ex_pool mem_cs ex_xe y3; y5 = go_leave y4; y6 = go_drain ex_pool y5
   in (\<not> cnStopping (ysC y0) \<and> \<not> cvCtxErr ex_pool (ysW y0) \<and> ysFatal y0 = ok)
    \<and> (\<not> cnStopping (ysC y1) \<and> \<not> cvCtxErr ex_pool (ysW y1) \<and> ysFatal y1 = ok)
    \<and> (0 < cgWorkers (cnCfg (ysC y2)) \<and> length (ysRun y2) = 0)
    \<and> (\<not> cnStopping (ysC y4) \<and> cvCtxErr ex_pool (ysW y4))
    \<and> (cnStopping (ysC y5) \<and> \<not> cnPanicked (ysC y5)) \<and> cnPanicked (ysC y6)"
  by code_simp

lemmas ex_pool_facts = ex_pool_run [unfolded Let_def, folded ex_p1_def, folded ex_p2_def, folded ex_p3_def, folded ex_p4_def,
  folded ex_p5_def, folded ex_p6_def]

text \<open>
  The shutdown of a pool can panic: a consumer with two workers is stopped while a message is being processed
  and another message of its key waits for it; the first ends well, and the final drain sends on the closed channel.
\<close>

theorem shutdown_can_panic:
  "\<exists>g c y. NewConsumer (\<lambda>x. x) True True None g = Inr c
     \<and> (cs_step ex_pool mem_cs ex_xe (=))\<^sup>*\<^sup>* (cs_start c ex_pool [] (NewMemoryStore ex_opts)) y \<and> cnPanicked (ysC y)"
proof -
  let ?S = "(cs_step ex_pool mem_cs ex_xe (=))\<^sup>*\<^sup>*"
  have "?S ex_p0 ex_p1" unfolding ex_p1_def by (rule go_steps(1)) (use ex_pool_facts in blast)
  moreover have "?S ex_p1 ex_p2" unfolding ex_p2_def by (rule go_steps(1)) (use ex_pool_facts in blast)
  moreover have "?S ex_p2 ex_p3" unfolding ex_p3_def by (rule go_steps(2)) (use ex_pool_facts in simp)
  moreover have "?S ex_p3 ex_p4" unfolding ex_p4_def by (rule go_steps(3))
  moreover have "?S ex_p4 ex_p5" unfolding ex_p5_def by (rule go_steps(4)) (use ex_pool_facts in blast)
  moreover have "?S ex_p5 ex_p6" unfolding ex_p6_def by (rule go_steps(5)) (use ex_pool_facts in blast)
  ultimately have "?S ex_p0 ex_p6" by (meson rtranclp_trans)
  moreover have "NewConsumer (\<lambda>x. x) True True None (ex_cfg 2) = Inr (ex_cn 2)" by (simp add: ex_cn_def NewConsumer_def ex_cfg_def)
  ultimately show ?thesis using ex_pool_facts unfolding ex_p0_def by blast
qed

text \<open>
  The final \<open>drain\<close> waits until nothing is in flight.  It waits for ever when something is counted that no worker
  has or will get: the channel is closed and empty, nothing runs and no result is left.
\<close>

definition drain_blocked :: "('w, 's) csys \<Rightarrow> bool" where
  "drain_blocked y \<longleftrightarrow> cnStopping (ysC y) \<and> cnInflight (ysC y) \<noteq> 0 \<and> cnResults (ysC y) = [] \<and> ysRun y = []
     \<and> (case cnWork (ysC y) of ClosedChan q \<Rightarrow> q = [] | _ \<Rightarrow> False)"

text \<open>The message cannot be processed, its dependency being down, nor stored, being too large for the store.\<close>

definition ex_hcfg :: "log CConfig" where
  "ex_hcfg = (ex_cfg 2)\<lparr>cgBindings := [\<lparr>bdTopic = ''orders'', bdPipeline = Some (ex_pipe [ex_step ''a'' outage False])\<rparr>]\<rparr>"

definition ex_hv :: "log consumer_env" where "ex_hv = ex_pool\<lparr>cvCtxErr := (\<lambda>_. False)\<rparr>"

definition ex_small :: MemoryOptions where "ex_small = \<lparr>moMaxRecords = 0, moMaxBytes = 0, moMaxRecordBytes = 1\<rparr>"

definition ex_h0 :: "(log, MemoryStore) csys" where
  "ex_h0 = cs_start (projr (NewConsumer (\<lambda>x. x) True True None ex_hcfg)) ex_hv [] (NewMemoryStore ex_small)"
definition ex_h1 :: "(log, MemoryStore) csys" where "ex_h1 = go_turn ex_hv mem_cs ex_xe ex_h0"
definition ex_h2 :: "(log, MemoryStore) csys" where "ex_h2 = go_turn ex_hv mem_cs ex_xe ex_h1"
definition ex_h3 :: "(log, MemoryStore) csys" where "ex_h3 = go_take ex_h2"
definition ex_h4 :: "(log, MemoryStore) csys" where "ex_h4 = go_done ex_hv mem_cs ex_xe ex_h3"
definition ex_h5 :: "(log, MemoryStore) csys" where "ex_h5 = go_turn ex_hv mem_cs ex_xe ex_h4"
definition ex_h6 :: "(log, MemoryStore) csys" where "ex_h6 = go_leave ex_h5"

lemma ex_halt_run:
  "let y0 = ex_h0; y1 = go_turn ex_hv mem_cs ex_xe y0; y2 = go_turn ex_hv mem_cs ex_xe y1; y3 = go_take y2;
       y4 = go_done ex_hv mem_cs ex_xe y3; y5 = go_turn ex_hv mem_cs ex_xe y4; y6 = go_leave y5
   in (\<not> cnStopping (ysC y0) \<and> \<not> cvCtxErr ex_hv (ysW y0) \<and> ysFatal y0 = ok)
    \<and> (\<not> cnStopping (ysC y1) \<and> \<not> cvCtxErr ex_hv (ysW y1) \<and> ysFatal y1 = ok)
    \<and> (0 < cgWorkers (cnCfg (ysC y2)) \<and> length (ysRun y2) = 0)
    \<and> (\<not> cnStopping (ysC y4) \<and> \<not> cvCtxErr ex_hv (ysW y4) \<and> ysFatal y4 = ok)
    \<and> (\<not> cnStopping (ysC y5) \<and> err_is (ysFatal y5) ErrUnstorable) \<and> err_is (ysFatal y6) ErrUnstorable
    \<and> (cnStopping (ysC y6) \<and> cnInflight (ysC y6) \<noteq> 0 \<and> length (cnResults (ysC y6)) = 0 \<and> length (ysRun y6) = 0
       \<and> (case cnWork (ysC y6) of ClosedChan q \<Rightarrow> length q = 0 | _ \<Rightarrow> False))"
  by code_simp

lemmas ex_halt_facts = ex_halt_run [unfolded Let_def, folded ex_h1_def, folded ex_h2_def, folded ex_h3_def, folded ex_h4_def,
  folded ex_h5_def, folded ex_h6_def]

text \<open>
  C38: a halt can hang: when a message that is neither processed nor storable stops a pool that holds another message of
  its key, the loop ends with \<open>ErrUnstorable\<close> but the final drain waits for the waiting message for ever, so \<open>Run\<close> does not
  return.
\<close>

theorem halt_can_hang:
  "\<exists>c y. NewConsumer (\<lambda>x. x) True True None ex_hcfg = Inr c
     \<and> (cs_step ex_hv mem_cs ex_xe (=))\<^sup>*\<^sup>* (cs_start c ex_hv [] (NewMemoryStore ex_small)) y
     \<and> drain_blocked y \<and> err_is (ysFatal y) ErrUnstorable"
proof -
  let ?S = "(cs_step ex_hv mem_cs ex_xe (=))\<^sup>*\<^sup>*"
  have "?S ex_h0 ex_h1" unfolding ex_h1_def by (rule go_steps(1)) (use ex_halt_facts in blast)
  moreover have "?S ex_h1 ex_h2" unfolding ex_h2_def by (rule go_steps(1)) (use ex_halt_facts in blast)
  moreover have "?S ex_h2 ex_h3" unfolding ex_h3_def by (rule go_steps(2)) (use ex_halt_facts in simp)
  moreover have "?S ex_h3 ex_h4" unfolding ex_h4_def by (rule go_steps(3))
  moreover have "?S ex_h4 ex_h5" unfolding ex_h5_def by (rule go_steps(1)) (use ex_halt_facts in blast)
  moreover have "?S ex_h5 ex_h6" unfolding ex_h6_def
    by (rule go_steps(4)) (use ex_halt_facts in \<open>auto simp: err_is_def split: option.splits\<close>)
  ultimately have "?S ex_h0 ex_h6" by (meson rtranclp_trans)
  moreover have "drain_blocked ex_h6" using ex_halt_facts by (auto simp: drain_blocked_def split: chan.splits)
  moreover have "NewConsumer (\<lambda>x. x) True True None ex_hcfg = Inr (projr (NewConsumer (\<lambda>x. x) True True None ex_hcfg))"
    by (simp add: NewConsumer_def ex_hcfg_def ex_cfg_def)
  ultimately show ?thesis using ex_halt_facts unfolding ex_h0_def by blast
qed

end
