(* ===== verification/GG_Codec.thy ===== *)
theory GG_Codec
  imports GG_Record "HOL-Library.Word" "HOL-Library.State_Monad"
begin

text \<open>
  The on-disk format of the log (\<open>dlq/wal_codec.go\<close>): little-endian numbers and variable-length integers as
  \<open>encoding/binary\<close> writes and reads them, the CRC-32C checksum of \<open>hash/crc32\<close>, file headers, frames, and the
  encoder and decoder of records.

  Files and buffers are byte strings.  An \<open>encoder\<close> only ever appends to its buffer, so each of its methods is
  the bytes it appends; a \<open>decoder\<close> is a record of what is left and the first error, and its methods are
  computations of the state monad.  A \<open>uint64\<close> is a \<open>nat\<close>, conversions between integer types are written out.
\<close>

unbundle bit_operations_syntax

section \<open>Integers\<close>

definition uint64 :: "int \<Rightarrow> nat" where
  "uint64 x = nat (x mod 2 ^ 64)"

definition int64 :: "int \<Rightarrow> int" where
  "int64 x = (x + 2 ^ 63) mod 2 ^ 64 - 2 ^ 63"

definition int32 :: "int \<Rightarrow> int" where
  "int32 x = (x + 2 ^ 31) mod 2 ^ 32 - 2 ^ 31"

definition is_int64 :: "int \<Rightarrow> bool" where
  "is_int64 x \<longleftrightarrow> - (2 ^ 63) \<le> x \<and> x < 2 ^ 63"

definition is_int32 :: "int \<Rightarrow> bool" where
  "is_int32 x \<longleftrightarrow> - (2 ^ 31) \<le> x \<and> x < 2 ^ 31"

lemma int64_id [simp]: "is_int64 x \<Longrightarrow> int64 x = x"
  by (simp add: int64_def is_int64_def)

lemma int32_id [simp]: "is_int32 x \<Longrightarrow> int32 x = x"
  by (simp add: int32_def is_int32_def)

lemma int32_int64: "is_int32 x \<Longrightarrow> is_int64 x"
  by (simp add: is_int32_def is_int64_def)

lemma uint64_id [simp]: "n < 2 ^ 64 \<Longrightarrow> uint64 (int n) = n"
  by (simp add: uint64_def nat_mod_distrib)

text \<open>\<open>binary.LittleEndian\<close>: \<open>k\<close> bytes of a number, and the number some bytes stand for.\<close>

fun le_bytes :: "nat \<Rightarrow> nat \<Rightarrow> string" where
  "le_bytes 0 n = []"
| "le_bytes (Suc k) n = char_of (n mod 256) # le_bytes k (n div 256)"

fun le_nat :: "string \<Rightarrow> nat" where
  "le_nat [] = 0"
| "le_nat (c # cs) = of_char c + 256 * le_nat cs"

lemma length_le_bytes [simp]: "length (le_bytes k n) = k"
  by (induction k arbitrary: n) simp_all

lemma of_char_less [simp]: "(of_char c :: nat) < 256"
  using nat_of_char_less_256 by simp

lemma le_nat_bytes [simp]: "le_nat (le_bytes k n) = n mod 256 ^ k"
proof (induction k arbitrary: n)
  case (Suc k)
  have "n mod 256 ^ Suc k = n mod 256 + 256 * (n div 256 mod 256 ^ k)"
    by (simp add: mod_mult2_eq)
  with Suc show ?case by simp
qed simp

lemma le_nat_less: "le_nat bs < 256 ^ length bs"
proof (induction bs)
  case (Cons c bs)
  have "(of_char c :: nat) < 256" by simp
  with Cons show ?case by (simp del: of_char_less)
qed simp


text \<open>\<open>binary.AppendUvarint\<close> and \<open>binary.Uvarint\<close>; the latter's second result is the number of bytes read, 0 when
  the buffer is too small and negative on overflow.\<close>

fun AppendUvarint :: "nat \<Rightarrow> string" where
  "AppendUvarint v = (if v < 128 then [char_of v] else char_of (v mod 128 + 128) # AppendUvarint (v div 128))"

declare AppendUvarint.simps [simp del]

fun uvarint_loop :: "nat \<Rightarrow> nat \<Rightarrow> string \<Rightarrow> nat \<times> int" where
  "uvarint_loop i x [] = (0, 0)"
| "uvarint_loop i x (c # cs) =
     (let b = of_char c in
      if i = 10 then (0, - int (i + 1))
      else if b < 128 then (if i = 9 \<and> 1 < b then (0, - int (i + 1)) else (x + b * 2 ^ (7 * i), int (i + 1)))
      else uvarint_loop (Suc i) (x + (b mod 128) * 2 ^ (7 * i)) cs)"

definition Uvarint :: "string \<Rightarrow> nat \<times> int" where
  "Uvarint buf = uvarint_loop 0 0 buf"

text \<open>\<open>binary.AppendVarint\<close> and \<open>binary.Varint\<close>: signed numbers in zig-zag order.\<close>

definition zigzag :: "int \<Rightarrow> nat" where
  "zigzag v = (let ux = 2 * uint64 v mod 2 ^ 64 in if v < 0 then 2 ^ 64 - 1 - ux else ux)"

definition AppendVarint :: "int \<Rightarrow> string" where
  "AppendVarint v = AppendUvarint (zigzag v)"

definition Varint :: "string \<Rightarrow> int \<times> int" where
  "Varint buf = (case Uvarint buf of (ux, n) \<Rightarrow>
     (if odd ux then - int (ux div 2) - 1 else int (ux div 2), n))"

lemma uvarint_loop_append:
  assumes "v < 2 ^ (64 - 7 * i)" and "i \<le> 9"
  shows "uvarint_loop i x (AppendUvarint v @ rest)
    = (x + v * 2 ^ (7 * i), int (i + length (AppendUvarint v)))"
  using assms
proof (induction v arbitrary: i x rule: AppendUvarint.induct)
  case (1 v)
  show ?case
  proof (cases "v < 128")
    case True
    then show ?thesis using "1.prems" by (auto simp: AppendUvarint.simps [of v] Let_def)
  next
    case False
    have i: "i < 9"
    proof (rule ccontr)
      assume "\<not> i < 9"
      with "1.prems" have "i = 9" by simp
      with "1.prems" False show False by simp
    qed
    then have "(2::nat) ^ (64 - 7 * i) = 2 ^ (64 - 7 * Suc i) * 128"
      using power_add [of "2::nat" "64 - 7 * Suc i" 7] by simp
    with "1.prems" have v: "v div 128 < 2 ^ (64 - 7 * Suc i)" by (simp add: less_mult_imp_div_less)
    have "v * 2 ^ (7 * i) = (v mod 128 + 128 * (v div 128)) * 2 ^ (7 * i)" by simp
    also have "\<dots> = v mod 128 * 2 ^ (7 * i) + v div 128 * 2 ^ (7 * Suc i)"
      unfolding distrib_right by (simp add: power_add)
    finally have sum: "x + v mod 128 * 2 ^ (7 * i) + v div 128 * 2 ^ (7 * Suc i) = x + v * 2 ^ (7 * i)" by simp
    have b: "(of_char (char_of (v mod 128 + 128) :: char) :: nat) = v mod 128 + 128" by simp
    show ?thesis
      using "1.IH" [OF False v] i sum
      by (simp add: AppendUvarint.simps [of v] False Let_def b del: of_char_of)
  qed
qed

lemma Uvarint_append:
  "v < 2 ^ 64 \<Longrightarrow> Uvarint (AppendUvarint v @ rest) = (v, int (length (AppendUvarint v)))"
  using uvarint_loop_append [of v 0 0 rest] by (simp add: Uvarint_def)

lemma AppendUvarint_nonempty [simp]: "AppendUvarint v \<noteq> []"
  by (subst AppendUvarint.simps) simp

lemma length_AppendUvarint: "1 \<le> length (AppendUvarint v)"
  by (simp add: Suc_le_eq)

lemma zigzag_int64:
  assumes "is_int64 v"
  shows "zigzag v = nat (if v < 0 then - 2 * v - 1 else 2 * v)"
proof -
  have ux: "int (2 * uint64 v mod 2 ^ 64) = 2 * v mod 2 ^ 64"
    by (simp add: uint64_def zmod_int mod_mult_right_eq)
  show ?thesis
  proof (cases "v < 0")
    case True
    then have "2 * v mod 2 ^ 64 = 2 * v + 2 ^ 64"
      using assms by (intro int_mod_pos_eq [of _ _ "-1"]) (simp_all add: is_int64_def)
    with ux have "2 * uint64 v mod 2 ^ 64 = nat (2 * v + 2 ^ 64)" by linarith
    moreover have "2 ^ 64 - 1 - nat (2 * v + 2 ^ 64) = nat (- 2 * v - 1)" using True assms by (simp add: is_int64_def)
    ultimately show ?thesis using True by (simp add: zigzag_def Let_def)
  next
    case False
    then have "2 * v mod 2 ^ 64 = 2 * v" using assms by (intro mod_pos_pos_trivial) (simp_all add: is_int64_def)
    with ux False show ?thesis by (simp add: zigzag_def Let_def)
  qed
qed

lemma Varint_append:
  assumes "is_int64 v"
  shows "Varint (AppendVarint v @ rest) = (v, int (length (AppendVarint v)))"
proof -
  have "zigzag v < 2 ^ 64" using assms by (auto simp: zigzag_int64 is_int64_def)
  moreover have "(if odd (zigzag v) then - int (zigzag v div 2) - 1 else int (zigzag v div 2)) = v"
  proof (cases "v < 0")
    case True
    then have "zigzag v = Suc (2 * nat (- v - 1))" using assms by (simp add: zigzag_int64)
    with True show ?thesis by simp
  next
    case False
    then have "zigzag v = 2 * nat v" using assms by (simp add: zigzag_int64)
    with False show ?thesis by simp
  qed
  ultimately show ?thesis by (simp add: Varint_def AppendVarint_def Uvarint_append)
qed


section \<open>Checksums\<close>

text \<open>
  \<open>crc32.MakeTable(crc32.Castagnoli)\<close> and \<open>crc32.Update\<close>: the table driven form of the reflected polynomial.
\<close>

definition castagnoli_poly :: "32 word" where
  "castagnoli_poly = 0x82F63B78"

definition crc_shift :: "32 word \<Rightarrow> 32 word" where
  "crc_shift c = (if c AND 1 = 1 then drop_bit 1 c XOR castagnoli_poly else drop_bit 1 c)"

definition castagnoli :: "32 word \<Rightarrow> 32 word" where
  "castagnoli i = (crc_shift ^^ 8) i"

definition crc_step :: "32 word \<Rightarrow> char \<Rightarrow> 32 word" where
  "crc_step c b = castagnoli ((c XOR of_char b) AND 0xFF) XOR drop_bit 8 c"

definition crc_Update :: "32 word \<Rightarrow> string \<Rightarrow> 32 word" where
  "crc_Update c p = NOT (foldl crc_step (NOT c) p)"

definition crc_Checksum :: "string \<Rightarrow> 32 word" where
  "crc_Checksum p = crc_Update 0 p"

lemma crc_Update_append: "crc_Update (crc_Update c a) b = crc_Update c (a @ b)"
  by (simp add: crc_Update_def)

lemma bit_crc_shift: "bit (crc_shift c) n \<longleftrightarrow> bit c (Suc n) \<noteq> (bit c 0 \<and> bit castagnoli_poly n)"
proof -
  have "c AND 1 = 1 \<longleftrightarrow> bit c 0" by (simp add: and_one_eq bit_0 odd_iff_mod_2_eq_one)
  then show ?thesis by (auto simp: crc_shift_def bit_xor_iff bit_drop_bit_eq)
qed

lemma crc_shift_xor: "crc_shift (a XOR b) = crc_shift a XOR crc_shift b"
  by (rule bit_word_eqI) (auto simp: bit_crc_shift bit_xor_iff)

text \<open>The polynomial has its top bit set, so no information is lost by a shift.\<close>

lemma crc_shift_inj: "crc_shift a = crc_shift b \<Longrightarrow> a = b"
proof (rule bit_word_eqI)
  fix n
  assume eq: "crc_shift a = crc_shift b" and n: "n < LENGTH(32)"
  have top: "bit castagnoli_poly 31" by (simp add: castagnoli_poly_def)
  have hi: "\<not> bit x 32" for x :: "32 word" using bit_imp_le_length [of x 32] by auto
  have "bit (crc_shift a) 31 = bit (crc_shift b) 31" by (simp add: eq)
  then have low: "bit a 0 = bit b 0" by (simp add: bit_crc_shift top hi)
  have "bit (crc_shift a) m = bit (crc_shift b) m" for m by (simp add: eq)
  then have "bit a (Suc m) = bit b (Suc m)" for m using low by (auto simp: bit_crc_shift)
  with low show "bit a n = bit b n" by (cases n) auto
qed

lemma castagnoli_xor: "castagnoli (a XOR b) = castagnoli a XOR castagnoli b"
proof -
  have "(crc_shift ^^ k) (a XOR b) = (crc_shift ^^ k) a XOR (crc_shift ^^ k) b" for k
    by (induction k) (simp_all add: crc_shift_xor)
  then show ?thesis by (simp add: castagnoli_def)
qed

lemma castagnoli_inj: "castagnoli a = castagnoli b \<Longrightarrow> a = b"
proof -
  have "(crc_shift ^^ k) a = (crc_shift ^^ k) b \<Longrightarrow> a = b" for k
    by (induction k) (auto dest: crc_shift_inj)
  then show "castagnoli a = castagnoli b \<Longrightarrow> a = b" by (simp add: castagnoli_def)
qed

lemma castagnoli_high:
  assumes "\<And>i. i < 8 \<Longrightarrow> \<not> bit y i"
  shows "castagnoli y = drop_bit 8 y"
proof -
  have "k \<le> 8 \<Longrightarrow> (crc_shift ^^ k) y = drop_bit k y" for k
  proof (induction k)
    case (Suc k)
    then have "bit (drop_bit k y) 0 = False" using assms [of k] by (simp add: bit_drop_bit_eq)
    then have "crc_shift (drop_bit k y) = drop_bit (Suc k) y"
      by (intro bit_word_eqI) (simp add: bit_crc_shift bit_drop_bit_eq)
    with Suc show ?case by simp
  qed simp
  then show ?thesis by (simp add: castagnoli_def)
qed

lemma byte_mask: "(0xFF :: 32 word) = mask 8"
  by (simp add: mask_eq_exp_minus_1)

lemma byte_word: "(of_char b :: 32 word) = take_bit 8 (of_char b)"
proof -
  have "(of_char b :: nat) = take_bit 8 (of_char b)" by (simp add: take_bit_eq_mod)
  then have "(of_nat (of_char b) :: 32 word) = take_bit 8 (of_nat (of_char b))"
    by (metis take_bit_of_nat)
  then show ?thesis by (simp add: of_nat_of_char)
qed

lemma byte_bit: "bit (of_char b :: 32 word) n \<Longrightarrow> n < 8"
  by (subst (asm) byte_word) (simp add: bit_take_bit_iff)

lemma byte_word_inj: "(of_char a :: 32 word) = of_char b \<Longrightarrow> a = b"
proof -
  assume "(of_char a :: 32 word) = of_char b"
  then have "unat (of_nat (of_char a) :: 32 word) = unat (of_nat (of_char b) :: 32 word)" by (simp add: of_nat_of_char)
  moreover have "unat (of_nat (of_char c) :: 32 word) = of_char c" for c
    using of_char_less [of c] by (simp add: unat_of_nat del: of_char_less)
  ultimately show "a = b" by simp
qed

lemma crc_step_alt: "crc_step c b = castagnoli (c XOR of_char b)"
proof -
  let ?z = "c XOR of_char b"
  have "castagnoli (?z AND NOT 0xFF) = drop_bit 8 (?z AND NOT 0xFF)"
    by (rule castagnoli_high) (simp add: byte_mask bit_simps)
  moreover have "drop_bit 8 (?z AND NOT 0xFF) = drop_bit 8 c"
    by (rule bit_word_eqI) (auto simp: byte_mask bit_simps dest: byte_bit bit_imp_le_length)
  moreover have "?z = (?z AND 0xFF) XOR (?z AND NOT 0xFF)"
    by (rule bit_word_eqI) (auto simp: bit_simps)
  ultimately show ?thesis unfolding crc_step_def by (metis castagnoli_xor)
qed

lemma crc_step_inj: "crc_step c b = crc_step d b \<Longrightarrow> c = d"
  unfolding crc_step_alt by (drule castagnoli_inj) (metis bit.xor_left_self xor.commute)

lemma crc_step_inj_byte: "crc_step c a = crc_step c b \<Longrightarrow> a = b"
  unfolding crc_step_alt by (drule castagnoli_inj) (metis bit.xor_left_self byte_word_inj)

text \<open>Two byte strings that differ in one byte have different checksums.\<close>

lemma crc_one_byte:
  assumes "a \<noteq> b"
  shows "crc_Update c (xs @ a # ys) \<noteq> crc_Update c (xs @ b # ys)"
proof
  assume "crc_Update c (xs @ a # ys) = crc_Update c (xs @ b # ys)"
  then have eq: "foldl crc_step (crc_step (foldl crc_step (NOT c) xs) a) ys
      = foldl crc_step (crc_step (foldl crc_step (NOT c) xs) b) ys"
    by (simp add: crc_Update_def)
  have "foldl crc_step u ys = foldl crc_step v ys \<Longrightarrow> u = v" for u v
    by (induction ys arbitrary: u v) (auto dest: crc_step_inj)
  from this [OF eq] have "a = b" by (rule crc_step_inj_byte)
  with assms show False by simp
qed


section \<open>File headers\<close>

definition walMagic :: string where "walMagic = ''GGUARDWL''"
definition snapMagic :: string where "snapMagic = ''GGUARDSN''"
definition formatVersion :: nat where "formatVersion = 1"
definition headerSize :: nat where "headerSize = 32"
definition flagSigned :: "32 word" where "flagSigned = 1"
definition knownFlags :: "32 word" where "knownFlags = flagSigned"

definition header_fields :: "string \<Rightarrow> nat \<Rightarrow> 32 word \<Rightarrow> string" where
  "header_fields magic lsn flags =
     take 8 (magic @ replicate 8 (CHR 0x00)) @ le_bytes 4 formatVersion @ le_bytes 4 (unat flags) @ le_bytes 8 lsn"

definition encodeHeaderFlags :: "string \<Rightarrow> nat \<Rightarrow> 32 word \<Rightarrow> string" where
  "encodeHeaderFlags magic lsn flags =
     (let h = header_fields magic lsn flags
      in h @ le_bytes 4 (unat (crc_Checksum h)) @ replicate 4 (CHR 0x00))"

definition encodeHeader :: "string \<Rightarrow> nat \<Rightarrow> string" where
  "encodeHeader magic lsn = encodeHeaderFlags magic lsn 0"

text \<open>Reading \<open>k\<close> bytes at an offset as a little-endian number.\<close>

definition le_at :: "nat \<Rightarrow> nat \<Rightarrow> string \<Rightarrow> nat" where
  "le_at off k h = le_nat (take k (drop off h))"

definition decodeHeaderFlags :: "string \<Rightarrow> string \<Rightarrow> gerror + nat \<times> 32 word" where
  "decodeHeaderFlags h magic =
     (if length h < headerSize then Inl (EVar errTorn)
      else if take 8 h \<noteq> magic then Inl (EWrap ''bad magic'' [EVar errBadFrame])
      else if le_at 24 4 h \<noteq> unat (crc_Checksum (take 24 h)) then Inl (EWrap ''header checksum mismatch'' [EVar errBadFrame])
      else if le_at 8 4 h \<noteq> formatVersion then Inl (EText ''dlq: unsupported format version'')
      else let flags = word_of_nat (le_at 12 4 h) in
        if flags AND NOT knownFlags \<noteq> 0 then Inl (EText ''dlq: unsupported file flags'')
        else Inr (le_at 16 8 h, flags))"

definition decodeHeader :: "string \<Rightarrow> string \<Rightarrow> gerror + nat" where
  "decodeHeader h magic = (case decodeHeaderFlags h magic of Inl e \<Rightarrow> Inl e | Inr (lsn, _) \<Rightarrow> Inr lsn)"

lemma length_header_fields [simp]: "length (header_fields magic lsn flags) = 24"
  by (simp add: header_fields_def)

lemma length_encodeHeader [simp]: "length (encodeHeaderFlags magic lsn flags) = headerSize"
  by (simp add: encodeHeaderFlags_def headerSize_def Let_def)

lemma unat_32_less: "unat (w :: 32 word) < 2 ^ 32"
  using unsigned_less [of w, where 'a = nat] by simp

lemma unat_32_mod [simp]: "unat (w :: 32 word) mod 4294967296 = unat w"
  using unat_32_less [of w] by simp

text \<open>A header of an eight-byte magic reads back as it was written.\<close>

lemma header_roundtrip:
  assumes "length magic = 8" and "lsn < 2 ^ 64" and "flags AND NOT knownFlags = 0"
  shows "decodeHeaderFlags (encodeHeaderFlags magic lsn flags @ rest) magic = Inr (lsn, flags)"
proof -
  let ?h = "encodeHeaderFlags magic lsn flags @ rest"
  let ?c = "le_bytes 4 (unat (crc_Checksum (header_fields magic lsn flags)))"
  have f: "header_fields magic lsn flags = magic @ le_bytes 4 formatVersion @ le_bytes 4 (unat flags) @ le_bytes 8 lsn"
    using assms(1) by (simp add: header_fields_def)
  have h: "?h = header_fields magic lsn flags @ ?c @ replicate 4 (CHR 0x00) @ rest"
    by (simp add: encodeHeaderFlags_def Let_def)
  have "le_at 24 4 ?h = unat (crc_Checksum (take 24 ?h))"
    unfolding h le_at_def by simp
  moreover have "le_at 8 4 ?h = formatVersion" "le_at 12 4 ?h = unat flags" "le_at 16 8 ?h = lsn" "take 8 ?h = magic"
    unfolding h le_at_def f using assms(1,2) by (simp_all add: formatVersion_def)
  moreover have "\<not> length ?h < headerSize" by simp
  ultimately show ?thesis using assms(3) unfolding decodeHeaderFlags_def by (simp only: Let_def if_False) simp
qed


section \<open>Frames\<close>

definition frameOverhead :: nat where "frameOverhead = 8"
definition frameMeta :: nat where "frameMeta = 9"
definition DefaultMaxEntryBytes :: int where "DefaultMaxEntryBytes = 64 * 2 ^ 20"

definition entAppend :: nat where "entAppend = 1"
definition entLease :: nat where "entLease = 2"
definition entCheckpoint :: nat where "entCheckpoint = 3"
definition entAck :: nat where "entAck = 4"
definition entNack :: nat where "entNack = 5"
definition entRelease :: nat where "entRelease = 6"
definition entPark :: nat where "entPark = 7"
definition entRequeue :: nat where "entRequeue = 8"
definition entDiscard :: nat where "entDiscard = 9"
definition snapRecord :: nat where "snapRecord = 64"
definition snapEnd :: nat where "snapEnd = 65"

lemmas ent_defs = entAppend_def entLease_def entCheckpoint_def entAck_def entNack_def entRelease_def entPark_def
  entRequeue_def entDiscard_def snapRecord_def snapEnd_def

text \<open>The part of a frame behind its length and checksum, and the checksum over length and payload.\<close>

definition frame_payload :: "nat \<Rightarrow> nat \<Rightarrow> string \<Rightarrow> string" where
  "frame_payload lsn typ body = le_bytes 8 lsn @ [char_of typ] @ body"

definition frame_crc :: "string \<Rightarrow> string \<Rightarrow> 32 word" where
  "frame_crc len payload = crc_Update (crc_Update 0 len) payload"

definition appendFrame :: "string \<Rightarrow> nat \<Rightarrow> nat \<Rightarrow> string \<Rightarrow> string" where
  "appendFrame dst lsn typ body =
     (let len = le_bytes 4 (frameMeta + length body); payload = frame_payload lsn typ body
      in dst @ len @ le_bytes 4 (unat (frame_crc len payload)) @ payload)"

record frame =
  frLsn :: nat
  frTyp :: nat
  frBody :: string
  frSize :: int

text \<open>
  \<open>readFrame\<close> gets what the file still holds and how much that should be; it returns the frame and what follows it.
\<close>

definition readFrame :: "string \<Rightarrow> int \<Rightarrow> int \<Rightarrow> gerror + frame \<times> string" where
  "readFrame r remaining maxEntry =
     (if length r < frameOverhead then (if r = [] then Inl (EVar io_EOF) else Inl (EVar errTorn))
      else let len = le_at 0 4 r in
        if len < frameMeta \<or> maxEntry + int frameMeta < int len then Inl (EWrap ''implausible length'' [EVar errBadFrame])
        else if remaining - int frameOverhead < int len then Inl (EVar errTorn)
        else let payload = take len (drop frameOverhead r) in
          if length payload < len then Inl (EVar errTorn)
          else if unat (frame_crc (take 4 r) payload) \<noteq> le_at 4 4 r then Inl (EWrap ''checksum mismatch'' [EVar errBadFrame])
          else Inr (\<lparr>frLsn = le_at 0 8 payload, frTyp = of_char (payload ! 8), frBody = drop frameMeta payload,
                     frSize = int frameOverhead + int len\<rparr>, drop (frameOverhead + len) r))"

lemma length_frame_payload [simp]: "length (frame_payload lsn typ body) = frameMeta + length body"
  by (simp add: frame_payload_def frameMeta_def)

lemma length_appendFrame [simp]: "length (appendFrame dst lsn typ body) = length dst + frameOverhead + frameMeta + length body"
  by (simp add: appendFrame_def Let_def frameOverhead_def)

lemma appendFrame_nonempty [simp]: "appendFrame dst lsn typ body \<noteq> []"
  by (rule notI, drule arg_cong [where f = length]) (simp add: frameMeta_def)

lemma appendFrame_dst: "appendFrame dst lsn typ body = dst @ appendFrame [] lsn typ body"
  by (simp add: appendFrame_def Let_def)

text \<open>What \<open>readFrame\<close> does with a length field, a checksum field and a payload that are all there.\<close>

lemma readFrame_parts:
  assumes len: "length len = 4" and crc: "length crc = 4" and payload: "length payload = le_nat len"
    and "frameMeta \<le> le_nat len" and "int (le_nat len) \<le> maxEntry + int frameMeta" and "int (frameOverhead + le_nat len) \<le> remaining"
  shows "readFrame (len @ crc @ payload @ rest) remaining maxEntry =
    (if unat (frame_crc len payload) \<noteq> le_nat crc then Inl (EWrap ''checksum mismatch'' [EVar errBadFrame])
     else Inr (\<lparr>frLsn = le_at 0 8 payload, frTyp = of_char (payload ! 8), frBody = drop frameMeta payload,
                frSize = int frameOverhead + int (le_nat len)\<rparr>, rest))"
proof -
  let ?r = "len @ crc @ payload @ rest"
  have "le_at 0 4 ?r = le_nat len" "le_at 4 4 ?r = le_nat crc" "take (le_nat len) (drop frameOverhead ?r) = payload"
    "take 4 ?r = len" "drop (frameOverhead + le_nat len) ?r = rest" "\<not> length ?r < frameOverhead"
    using len crc payload by (simp_all add: le_at_def frameOverhead_def)
  moreover have "\<not> (le_nat len < frameMeta \<or> maxEntry + int frameMeta < int (le_nat len))"
    "\<not> remaining - int frameOverhead < int (le_nat len)" "\<not> length payload < le_nat len"
    using assms(3-6) by auto
  ultimately show ?thesis unfolding readFrame_def Let_def by (simp only: if_False)
qed

definition frame_fits :: "int \<Rightarrow> string \<Rightarrow> bool" where
  "frame_fits maxEntry body \<longleftrightarrow> int (length body) \<le> maxEntry \<and> frameMeta + length body < 2 ^ 32"

lemma readFrame_append:
  assumes "frame_fits maxEntry body" and "lsn < 2 ^ 64" and "typ < 256"
    and "int (length (appendFrame [] lsn typ body)) \<le> remaining"
  shows "readFrame (appendFrame [] lsn typ body @ rest) remaining maxEntry =
    Inr (\<lparr>frLsn = lsn, frTyp = typ, frBody = body, frSize = int (length (appendFrame [] lsn typ body))\<rparr>, rest)"
proof -
  let ?len = "le_bytes 4 (frameMeta + length body)" and ?p = "frame_payload lsn typ body"
  have n: "le_nat ?len = frameMeta + length body" using assms(1) by (simp add: frame_fits_def)
  have "readFrame (?len @ le_bytes 4 (unat (frame_crc ?len ?p)) @ ?p @ rest) remaining maxEntry =
    Inr (\<lparr>frLsn = le_at 0 8 ?p, frTyp = of_char (?p ! 8), frBody = drop frameMeta ?p,
          frSize = int frameOverhead + int (le_nat ?len)\<rparr>, rest)"
    using assms by (subst readFrame_parts) (simp_all add: n frame_fits_def)
  moreover have "le_at 0 8 ?p = lsn" "of_char (?p ! 8) = typ" "drop frameMeta ?p = body"
    using assms(2,3) by (simp_all add: frame_payload_def le_at_def nth_append frameMeta_def)
  ultimately show ?thesis using n by (simp add: appendFrame_def Let_def frameOverhead_def)
qed


text \<open>The beginning of a frame, cut anywhere, reads as torn; only the empty string reads as the end of the file.\<close>

lemma readFrame_torn:
  assumes "frame_fits maxEntry body" and "t < length (appendFrame [] lsn typ body)"
  shows "readFrame (take t (appendFrame [] lsn typ body)) (int t) maxEntry
    = (if t = 0 then Inl (EVar io_EOF) else Inl (EVar errTorn))"
proof (cases "t < frameOverhead")
  case True
  then show ?thesis using assms(2) by (auto simp: readFrame_def frameOverhead_def)
next
  case False
  let ?r = "take t (appendFrame [] lsn typ body)"
  have "le_at 0 4 ?r = frameMeta + length body"
    using False assms(1) by (simp add: le_at_def appendFrame_def Let_def frame_fits_def frameOverhead_def min_def)
  with False assms show ?thesis
    by (simp add: readFrame_def Let_def frame_fits_def frameOverhead_def)
qed

lemma le_nat_inj: "length xs = length ys \<Longrightarrow> le_nat xs = le_nat ys \<Longrightarrow> xs = ys"
proof (induction xs arbitrary: ys)
  case (Cons x xs)
  then obtain y ys' where ys: "ys = y # ys'" by (cases ys) auto
  with Cons.prems have eq: "of_char x + 256 * le_nat xs = of_char y + 256 * le_nat ys'" by simp
  have "(of_char x :: nat) = (of_char x + 256 * le_nat xs) mod 256" by simp
  also have "\<dots> = of_char y" unfolding eq by simp
  finally have "(of_char x :: nat) = of_char y" .
  with Cons ys eq show ?case by simp
qed simp

text \<open>A damaged byte behind the length field is always noticed: the checksum cannot match.\<close>

lemma readFrame_damaged:
  assumes "frame_fits maxEntry body" and "int (length (appendFrame [] lsn typ body)) \<le> remaining"
    and "4 \<le> i" and "i < length (appendFrame [] lsn typ body)" and "b \<noteq> appendFrame [] lsn typ body ! i"
  shows "readFrame ((appendFrame [] lsn typ body)[i := b] @ rest) remaining maxEntry
    = Inl (EWrap ''checksum mismatch'' [EVar errBadFrame])"
proof -
  let ?len = "le_bytes 4 (frameMeta + length body)" and ?p = "frame_payload lsn typ body"
  let ?c = "le_bytes 4 (unat (frame_crc ?len ?p))"
  have n: "le_nat ?len = frameMeta + length body" using assms(1) by (simp add: frame_fits_def)
  have f: "appendFrame [] lsn typ body = ?len @ ?c @ ?p" by (simp add: appendFrame_def Let_def)
  have sum: "le_nat ?c = unat (frame_crc ?len ?p)" by simp
  have len: "length ?len = 4" "length ?c = 4" by simp_all
  show ?thesis
  proof (cases "i < 8")
    case True
    let ?c' = "?c[i - 4 := b]"
    have i: "i - 4 < 4" using True by simp
    then have "?c ! (i - 4) \<noteq> b" using assms(3,5) len by (auto simp: f nth_append)
    then have "?c' \<noteq> ?c" using i by (metis len(2) nth_list_update_eq)
    then have "le_nat ?c' \<noteq> unat (frame_crc ?len ?p)" using le_nat_inj [of ?c' ?c] sum by auto
    moreover have "(appendFrame [] lsn typ body)[i := b] = ?len @ ?c' @ ?p"
      using assms(3) True i by (simp add: f list_update_append)
    ultimately show ?thesis using assms n by (simp add: readFrame_parts frame_fits_def)
  next
    case False
    let ?p' = "?p[i - 8 := b]"
    have i: "i - 8 < length ?p" using assms(4) False by (simp add: frameOverhead_def)
    have "\<not> i - 4 < 4" "i - 4 - 4 = i - 8" using False by auto
    then have "?p ! (i - 8) \<noteq> b" using assms(5) False by (auto simp: f nth_append)
    then have "crc_Update (crc_Update 0 ?len) (take (i - 8) ?p @ b # drop (Suc (i - 8)) ?p)
      \<noteq> crc_Update (crc_Update 0 ?len) (take (i - 8) ?p @ ?p ! (i - 8) # drop (Suc (i - 8)) ?p)"
      by (intro crc_one_byte) auto
    then have "frame_crc ?len ?p' \<noteq> frame_crc ?len ?p"
      using i by (simp add: frame_crc_def upd_conv_take_nth_drop id_take_nth_drop [symmetric])
    then have "unat (frame_crc ?len ?p') \<noteq> le_nat ?c" unfolding sum by (auto dest: unsigned_word_eqI)
    moreover have "(appendFrame [] lsn typ body)[i := b] = ?len @ ?c @ ?p'"
      using False \<open>\<not> i - 4 < 4\<close> by (simp add: f list_update_append)
    ultimately show ?thesis using assms n len by (simp add: readFrame_parts frame_fits_def)
  qed
qed


section \<open>Encoding and decoding entries\<close>

text \<open>The encoder's methods, as the bytes they append.\<close>

definition e_u8 :: "nat \<Rightarrow> string" where "e_u8 v = [char_of v]"
definition e_uvarint :: "nat \<Rightarrow> string" where "e_uvarint v = AppendUvarint v"
definition e_varint :: "int \<Rightarrow> string" where "e_varint v = AppendVarint v"
definition e_str :: "string \<Rightarrow> string" where "e_str s = e_uvarint (length s) @ s"

definition e_nullable :: "bytes \<Rightarrow> string" where
  "e_nullable b = (case b of None \<Rightarrow> e_uvarint 0 | Some s \<Rightarrow> e_uvarint ((length s + 1) mod 2 ^ 64) @ s)"

text \<open>
  The Unix epoch on the time line whose origin is the zero \<open>time.Time\<close>; \<open>UnixNano\<close> wraps outside the years 1678 to
  2262.
\<close>

definition unix_epoch :: time where "unix_epoch = 62135596800 * second"

definition UnixNano :: "time \<Rightarrow> int" where "UnixNano t = int64 (t - unix_epoch)"

definition e_time :: "time \<Rightarrow> string" where
  "e_time t = (if IsZero t then e_varint 0 else let ns = UnixNano t in e_varint (if ns = 0 then 1 else ns))"

record decoder =
  db :: string
  derr :: goerr

definition decoder_on :: "string \<Rightarrow> decoder" where
  "decoder_on b = \<lparr>db = b, derr = ok\<rparr>"

definition d_fail :: "(decoder, unit) state" where
  "d_fail = State (\<lambda>d. ((), if derr d = ok then d\<lparr>derr := Some (EVar errBadEntry)\<rparr> else d))"

definition failed_with :: "'a \<Rightarrow> (decoder, 'a) state" where
  "failed_with x = do { d_fail; State_Monad.return x }"

definition d_u8 :: "(decoder, nat) state" where
  "d_u8 = do {
     d \<leftarrow> State_Monad.get;
     (if derr d \<noteq> ok then failed_with 0
      else case db d of [] \<Rightarrow> failed_with 0
        | c # cs \<Rightarrow> do { State_Monad.set (d\<lparr>db := cs\<rparr>); State_Monad.return (of_char c) }) }"

text \<open>What \<open>uvarint\<close> and \<open>varint\<close> share: \<open>rd\<close> is the function of \<open>encoding/binary\<close>.\<close>

definition d_number :: "(string \<Rightarrow> 'n::zero \<times> int) \<Rightarrow> (decoder, 'n) state" where
  "d_number rd = do {
     d \<leftarrow> State_Monad.get;
     (if derr d \<noteq> ok then State_Monad.return 0
      else case rd (db d) of (v, n) \<Rightarrow>
        if n \<le> 0 then failed_with 0
        else do { State_Monad.set (d\<lparr>db := drop (nat n) (db d)\<rparr>); State_Monad.return v }) }"

definition d_uvarint :: "(decoder, nat) state" where "d_uvarint = d_number Uvarint"
definition d_varint :: "(decoder, int) state" where "d_varint = d_number Varint"

definition d_take :: "nat \<Rightarrow> (decoder, bytes) state" where
  "d_take n = do {
     d \<leftarrow> State_Monad.get;
     (if derr d \<noteq> ok \<or> length (db d) < n then failed_with None
      else do { State_Monad.set (d\<lparr>db := drop n (db d)\<rparr>); State_Monad.return (Some (take n (db d))) }) }"

text \<open>\<open>string(b)\<close> and \<open>append([]byte{}, b...)\<close>: nil becomes empty.\<close>

definition bytes_string :: "bytes \<Rightarrow> string" where
  "bytes_string b = (case b of None \<Rightarrow> '''' | Some s \<Rightarrow> s)"

definition d_str :: "(decoder, string) state" where
  "d_str = do { n \<leftarrow> d_uvarint; b \<leftarrow> d_take n; State_Monad.return (bytes_string b) }"

definition d_nullable :: "(decoder, bytes) state" where
  "d_nullable = do { n \<leftarrow> d_uvarint;
     (if n = 0 then State_Monad.return None
      else do { b \<leftarrow> d_take (n - 1); State_Monad.return (Some (bytes_string b)) }) }"

definition d_time :: "(decoder, time) state" where
  "d_time = do { ns \<leftarrow> d_varint; State_Monad.return (if ns = 0 then zero_time else unix_epoch + ns) }"

definition d_done :: "(decoder, goerr) state" where
  "d_done = do {
     d \<leftarrow> State_Monad.get;
     (if derr d = ok \<and> db d \<noteq> [] then d_fail else State_Monad.return ());
     d' \<leftarrow> State_Monad.get;
     State_Monad.return (derr d') }"

definition state_byte :: "State \<Rightarrow> nat" where
  "state_byte s = (case s of Pending \<Rightarrow> 0 | Leased \<Rightarrow> 1 | Parked \<Rightarrow> 2 | OtherState n \<Rightarrow> nat (n mod 256))"

definition state_of_byte :: "nat \<Rightarrow> State" where
  "state_of_byte n = (if n = 0 then Pending else if n = 1 then Leased else if n = 2 then Parked else OtherState (int n))"

definition e_header :: "Header \<Rightarrow> string" where
  "e_header h = e_str (hKey h) @ e_nullable (hValue h)"

definition encodeRecord :: "Record \<Rightarrow> string" where
  "encodeRecord r =
     e_str (rID r) @ e_uvarint (rSeq r) @ e_u8 (state_byte (rState r))
   @ e_str (sKind (rSource r)) @ e_str (sName (rSource r)) @ e_varint (sPartition (rSource r)) @ e_varint (sOffset (rSource r))
   @ e_nullable (rKey r) @ e_nullable (rValue r)
   @ e_uvarint (length (rHeaders r)) @ concat (map e_header (rHeaders r))
   @ e_str (rOrderKey r) @ e_str (rBlockedOn r) @ e_uvarint (uint64 (rAttempts r))
   @ e_time (rFirstFailed r) @ e_time (rLastFailed r) @ e_time (rNextAttempt r)
   @ e_str (rLastError r) @ e_nullable (rCheckpoint r) @ e_uvarint (uint64 (rSchemaVersion r))"

text \<open>The header loop of \<open>decodeRecord\<close>: at most \<open>n\<close> rounds, ended early by an error.\<close>

fun d_headers :: "nat \<Rightarrow> Header list \<Rightarrow> (decoder, Header list) state" where
  "d_headers 0 hs = State_Monad.return hs"
| "d_headers (Suc n) hs = do {
     d \<leftarrow> State_Monad.get;
     (if derr d \<noteq> ok then State_Monad.return hs
      else do { k \<leftarrow> d_str; v \<leftarrow> d_nullable; d_headers n (hs @ [\<lparr>hKey = k, hValue = v\<rparr>]) }) }"

definition d_tail :: "Record \<Rightarrow> (decoder, Record) state" where
  "d_tail r = do {
     orderKey \<leftarrow> d_str;
     blockedOn \<leftarrow> d_str;
     attempts \<leftarrow> d_uvarint;
     firstFailed \<leftarrow> d_time;
     lastFailed \<leftarrow> d_time;
     nextAttempt \<leftarrow> d_time;
     lastError \<leftarrow> d_str;
     checkpoint \<leftarrow> d_nullable;
     schema \<leftarrow> d_uvarint;
     d \<leftarrow> State_Monad.get;
     let r' = r\<lparr>rOrderKey := orderKey, rBlockedOn := blockedOn, rAttempts := int64 (int attempts),
        rFirstFailed := firstFailed, rLastFailed := lastFailed, rNextAttempt := nextAttempt, rLastError := lastError,
        rCheckpoint := checkpoint, rSchemaVersion := int64 (int schema)\<rparr>;
     (if derr d = ok \<and> (rState r' \<noteq> Pending \<and> rState r' \<noteq> Parked \<and> rState r' \<noteq> Leased \<or> rAttempts r' < 0)
      then failed_with r' else State_Monad.return r') }"

definition decodeRecord :: "(decoder, Record) state" where
  "decodeRecord = do {
     id \<leftarrow> d_str;
     seq \<leftarrow> d_uvarint;
     st \<leftarrow> d_u8;
     kind \<leftarrow> d_str;
     name \<leftarrow> d_str;
     part \<leftarrow> d_varint;
     off \<leftarrow> d_varint;
     key \<leftarrow> d_nullable;
     val \<leftarrow> d_nullable;
     n \<leftarrow> d_uvarint;
     d \<leftarrow> State_Monad.get;
     let r = zero_record\<lparr>rID := id, rSeq := seq, rState := state_of_byte st,
        rSource := \<lparr>sKind = kind, sName = name, sPartition = int32 part, sOffset = off\<rparr>, rKey := key, rValue := val\<rparr>;
     (if 0 < n \<and> length (db d) < n then failed_with r
      else do { hs \<leftarrow> d_headers n []; d_tail (r\<lparr>rHeaders := hs\<rparr>) }) }"

section \<open>Reading back what was written\<close>

text \<open>
  The contract between an encoder method and the decoder method that reads it: on the values it is meant for, the
  decoder takes exactly the bytes the encoder wrote and returns the value.
\<close>

locale field_codec =
  fixes enc :: "'a \<Rightarrow> string" and dec :: "(decoder, 'a) state" and fits :: "'a \<Rightarrow> bool"
  assumes decodes: "fits x \<Longrightarrow> run_state dec (decoder_on (enc x @ rest)) = (x, decoder_on rest)"
begin

lemma decodes_end: "fits x \<Longrightarrow> run_state dec (decoder_on (enc x)) = (x, decoder_on [])"
  using decodes [of x "[]"] by simp

lemma run_bind: "fits x \<Longrightarrow> run_state (State_Monad.bind dec f) (decoder_on (enc x @ rest)) = run_state (f x) (decoder_on rest)"
  by (simp add: decodes)

lemma prefix_free: "fits x \<Longrightarrow> fits y \<Longrightarrow> enc x @ r = enc y @ s \<Longrightarrow> x = y \<and> r = s"
  using decodes [of x r] decodes [of y s] by (auto simp: decoder_on_def)

lemma enc_inj: "fits x \<Longrightarrow> fits y \<Longrightarrow> enc x = enc y \<Longrightarrow> x = y"
  using prefix_free [of x y "[]" "[]"] by simp

end

lemma run_failed_with [simp]:
  "run_state (failed_with x) d = (x, if derr d = ok then d\<lparr>derr := Some (EVar errBadEntry)\<rparr> else d)"
  by (simp add: failed_with_def d_fail_def)

lemma decoder_on_sel [simp]: "db (decoder_on b) = b" "derr (decoder_on b) = ok" "(decoder_on b)\<lparr>db := c\<rparr> = decoder_on c"
  by (simp_all add: decoder_on_def)

lemma d_done_end [simp]: "run_state d_done (decoder_on []) = (ok, decoder_on [])"
  by (simp add: d_done_def)

definition is_byte :: "nat \<Rightarrow> bool" where "is_byte n \<longleftrightarrow> n < 256"
definition is_uint64 :: "nat \<Rightarrow> bool" where "is_uint64 n \<longleftrightarrow> n < 2 ^ 64"
definition str_fits :: "string \<Rightarrow> bool" where "str_fits s \<longleftrightarrow> length s < 2 ^ 64 - 1"
definition bytes_fit :: "bytes \<Rightarrow> bool" where "bytes_fit b \<longleftrightarrow> (case b of None \<Rightarrow> True | Some s \<Rightarrow> str_fits s)"

text \<open>The zero time and the times of the years 1678 to 2262 but for the Unix epoch itself, which is nudged.\<close>

definition time_fits :: "time \<Rightarrow> bool" where
  "time_fits t \<longleftrightarrow> IsZero t \<or> is_int64 (t - unix_epoch) \<and> t \<noteq> unix_epoch"

interpretation u8: field_codec e_u8 d_u8 is_byte
  by unfold_locales (simp add: e_u8_def d_u8_def is_byte_def)

lemma d_number_append:
  assumes "rd (bs @ rest) = (v, int (length bs))" and "0 < length bs"
  shows "run_state (d_number rd) (decoder_on (bs @ rest)) = (v, decoder_on rest)"
  using assms by (simp add: d_number_def)

interpretation uvarint: field_codec e_uvarint d_uvarint is_uint64
  by unfold_locales
    (unfold e_uvarint_def d_uvarint_def is_uint64_def, rule d_number_append, rule Uvarint_append, simp_all)

interpretation varint: field_codec e_varint d_varint is_int64
  by unfold_locales
    (unfold e_varint_def d_varint_def, rule d_number_append, rule Varint_append, simp_all add: AppendVarint_def)

lemma d_take_append [simp]: "run_state (d_take (length s)) (decoder_on (s @ rest)) = (Some s, decoder_on rest)"
  by (simp add: d_take_def)

interpretation str: field_codec e_str d_str str_fits
proof unfold_locales
  fix s rest
  assume "str_fits s"
  then have "is_uint64 (length s)" by (simp add: str_fits_def is_uint64_def)
  then show "run_state d_str (decoder_on (e_str s @ rest)) = (s, decoder_on rest)"
    by (simp add: e_str_def d_str_def uvarint.decodes bytes_string_def)
qed

interpretation nullable: field_codec e_nullable d_nullable bytes_fit
proof unfold_locales
  fix b rest
  assume b: "bytes_fit b"
  show "run_state d_nullable (decoder_on (e_nullable b @ rest)) = (b, decoder_on rest)"
  proof (cases b)
    case None
    then show ?thesis by (simp add: e_nullable_def d_nullable_def uvarint.decodes is_uint64_def)
  next
    case (Some s)
    with b have "is_uint64 (Suc (length s))" "Suc (length s) mod 2 ^ 64 = Suc (length s)"
      by (simp_all add: bytes_fit_def str_fits_def is_uint64_def)
    then show ?thesis using Some by (simp add: e_nullable_def d_nullable_def uvarint.decodes bytes_string_def)
  qed
qed

lemma UnixNano_fits: "time_fits t \<Longrightarrow> \<not> IsZero t \<Longrightarrow> is_int64 (UnixNano t) \<and> UnixNano t = t - unix_epoch \<and> UnixNano t \<noteq> 0"
  by (simp add: time_fits_def UnixNano_def)

interpretation time: field_codec e_time d_time time_fits
proof unfold_locales
  fix t rest
  assume t: "time_fits t"
  show "run_state d_time (decoder_on (e_time t @ rest)) = (t, decoder_on rest)"
  proof (cases "IsZero t")
    case True
    moreover have "is_int64 0" by (simp add: is_int64_def)
    ultimately show ?thesis by (simp add: e_time_def d_time_def varint.decodes)
  next
    case False
    note u = UnixNano_fits [OF t False]
    then have "run_state d_varint (decoder_on (e_varint (UnixNano t) @ rest)) = (UnixNano t, decoder_on rest)"
      by (intro varint.decodes) blast
    with u False show ?thesis by (simp add: e_time_def d_time_def Let_def)
  qed
qed

definition header_fits :: "Header \<Rightarrow> bool" where
  "header_fits h \<longleftrightarrow> str_fits (hKey h) \<and> bytes_fit (hValue h)"

lemma d_headers_append:
  assumes "list_all header_fits hs"
  shows "run_state (d_headers (length hs) acc) (decoder_on (concat (map e_header hs) @ rest)) = (acc @ hs, decoder_on rest)"
  using assms
  by (induction hs arbitrary: acc) (auto simp: e_header_def header_fits_def str.decodes nullable.decodes)

lemma length_e_header: "2 \<le> length (e_header h)"
proof -
  have "1 \<le> length (e_nullable (hValue h))"
    using length_AppendUvarint by (auto simp: e_nullable_def e_uvarint_def Suc_le_eq split: option.split)
  with length_AppendUvarint [of "length (hKey h)"] show ?thesis
    by (simp add: e_header_def e_str_def e_uvarint_def)
qed

lemma length_headers: "length hs \<le> length (concat (map e_header hs))"
proof (induction hs)
  case (Cons h hs)
  with length_e_header [of h] show ?case by simp
qed simp

text \<open>What a record must be for its encoding to determine it: every number in the range of its Go type, a state the
  store can hold, and times that \<open>UnixNano\<close> can represent.\<close>

definition record_fits :: "Record \<Rightarrow> bool" where
  "record_fits r \<longleftrightarrow> str_fits (rID r) \<and> is_uint64 (rSeq r) \<and> rState r \<in> {Pending, Leased, Parked}
   \<and> str_fits (sKind (rSource r)) \<and> str_fits (sName (rSource r)) \<and> is_int32 (sPartition (rSource r)) \<and> is_int64 (sOffset (rSource r))
   \<and> bytes_fit (rKey r) \<and> bytes_fit (rValue r) \<and> is_uint64 (length (rHeaders r)) \<and> list_all header_fits (rHeaders r)
   \<and> str_fits (rOrderKey r) \<and> str_fits (rBlockedOn r) \<and> 0 \<le> rAttempts r \<and> is_int64 (rAttempts r)
   \<and> time_fits (rFirstFailed r) \<and> time_fits (rLastFailed r) \<and> time_fits (rNextAttempt r)
   \<and> str_fits (rLastError r) \<and> bytes_fit (rCheckpoint r) \<and> is_int64 (rSchemaVersion r)"

lemma int64_uint64 [simp]: "is_int64 x \<Longrightarrow> int64 (int (uint64 x)) = x"
  using int64_id [of x] by (simp add: uint64_def int64_def mod_add_left_eq)

lemma uint64_fits [simp]: "is_uint64 (uint64 x)"
  by (simp add: is_uint64_def uint64_def nat_less_iff)

definition encode_tail :: "Record \<Rightarrow> string" where
  "encode_tail r = e_str (rOrderKey r) @ e_str (rBlockedOn r) @ e_uvarint (uint64 (rAttempts r))
   @ e_time (rFirstFailed r) @ e_time (rLastFailed r) @ e_time (rNextAttempt r)
   @ e_str (rLastError r) @ e_nullable (rCheckpoint r) @ e_uvarint (uint64 (rSchemaVersion r))"

lemma encodeRecord_split:
  "encodeRecord r =
     e_str (rID r) @ e_uvarint (rSeq r) @ e_u8 (state_byte (rState r))
   @ e_str (sKind (rSource r)) @ e_str (sName (rSource r)) @ e_varint (sPartition (rSource r)) @ e_varint (sOffset (rSource r))
   @ e_nullable (rKey r) @ e_nullable (rValue r)
   @ e_uvarint (length (rHeaders r)) @ concat (map e_header (rHeaders r)) @ encode_tail r"
  by (simp add: encodeRecord_def encode_tail_def)

lemma d_tail_append:
  assumes "record_fits r" and "rState q = rState r"
  shows "run_state (d_tail q) (decoder_on (encode_tail r @ rest)) =
    (q\<lparr>rOrderKey := rOrderKey r, rBlockedOn := rBlockedOn r, rAttempts := rAttempts r, rFirstFailed := rFirstFailed r,
       rLastFailed := rLastFailed r, rNextAttempt := rNextAttempt r, rLastError := rLastError r, rCheckpoint := rCheckpoint r,
       rSchemaVersion := rSchemaVersion r\<rparr>, decoder_on rest)"
  using assms unfolding d_tail_def encode_tail_def
  by (auto simp: record_fits_def str.decodes uvarint.decodes time.decodes nullable.decodes Let_def)

interpretation recordc: field_codec encodeRecord decodeRecord record_fits
proof unfold_locales
  fix r rest
  assume r: "record_fits r"
  have st: "state_of_byte (state_byte (rState r)) = rState r" "is_byte (state_byte (rState r))"
    using r by (auto simp: record_fits_def state_byte_def state_of_byte_def is_byte_def)
  have src: "\<lparr>sKind = sKind (rSource r), sName = sName (rSource r), sPartition = sPartition (rSource r), sOffset = sOffset (rSource r)\<rparr>
      = rSource r"
    by simp
  have hs: "\<not> length (concat (map e_header (rHeaders r)) @ t) < length (rHeaders r)" for t
    using length_headers [of "rHeaders r"] by simp
  have "run_state decodeRecord (decoder_on (encodeRecord r @ rest)) =
     run_state (d_tail (zero_record\<lparr>rID := rID r, rSeq := rSeq r, rState := rState r, rSource := rSource r, rKey := rKey r,
        rValue := rValue r, rHeaders := rHeaders r\<rparr>)) (decoder_on (encode_tail r @ rest))"
    unfolding decodeRecord_def encodeRecord_split
    using r st hs by (simp add: src record_fits_def str.decodes uvarint.decodes u8.decodes varint.decodes int32_int64 nullable.decodes
        d_headers_append Let_def del: length_append length_concat)
  also have "\<dots> = (r, decoder_on rest)"
    using r by (simp add: d_tail_append zero_record_def record_fits_def)
  finally show "run_state decodeRecord (decoder_on (encodeRecord r @ rest)) = (r, decoder_on rest)" .
qed

text \<open>
  C39: a record that was encoded decodes to itself and nothing is left over, whatever its payload, headers, checkpoint
  and times (nil and empty slices are kept apart), provided its numbers and times are in the range of their Go types.
\<close>

theorem record_roundtrip:
  assumes "record_fits r"
  shows "run_state (do { x \<leftarrow> decodeRecord; e \<leftarrow> d_done; State_Monad.return (x, e) }) (decoder_on (encodeRecord r))
    = ((r, ok), decoder_on [])"
  using recordc.decodes_end [OF assms] by simp

definition ex_codec_record :: Record where
  "ex_codec_record = zero_record\<lparr>rID := ''m1'', rSeq := 7, rState := Parked,
     rSource := \<lparr>sKind = ''kafka'', sName = ''orders'', sPartition = - 1, sOffset = 300\<rparr>, rKey := Some '''', rValue := Some ''body'',
     rHeaders := [\<lparr>hKey = ''h'', hValue = None\<rparr>], rAttempts := 3, rFirstFailed := unix_epoch + 5, rSchemaVersion := 1\<rparr>"

lemma ex_codec_record_fits: "record_fits ex_codec_record"
  by (simp add: ex_codec_record_def zero_record_def zero_source_def record_fits_def header_fits_def str_fits_def bytes_fit_def
      is_uint64_def is_int32_def is_int64_def time_fits_def zero_time_def)

theorem record_roundtrip_witness:
  "record_fits ex_codec_record
   \<and> run_state (do { x \<leftarrow> decodeRecord; e \<leftarrow> d_done; State_Monad.return (x, e) }) (decoder_on (encodeRecord ex_codec_record))
     = ((ex_codec_record, ok), decoder_on [])"
  using record_roundtrip [OF ex_codec_record_fits] ex_codec_record_fits by blast



end
