(* ===== verification/GG_Wal.thy ===== *)
theory GG_Wal
  imports GG_Codec GG_Select
begin

text \<open>
  The log-backed store (\<open>dlq/wal_store.go\<close>, \<open>dlq/wal_write.go\<close>, \<open>dlq/wal_blob.go\<close>, \<open>dlq/wal_sign.go\<close>): options, the
  directory with its segment files, signing, reading payloads back, writing the log, every operation of the store
  interface, and recovery.

  A store is a record; its directory is part of it.  What another party decides is an argument of the call: the
  outcome of a write, a truncation, an \<open>fsync\<close> or the creation of a file, the clock, the free space, the order of a map.
  The lock \<open>mu\<close> makes the part of an operation between \<open>Lock\<close> and \<open>finish\<close> atomic: each operation is the function
  that part computes, and returns the position in the group-commit sequence that \<open>waitDurable\<close> then waits for.
  Segments are named by the number in their file name.  Compaction and snapshots are not part of this theory.
\<close>

section \<open>Options\<close>

datatype SyncPolicy = SyncAlways | SyncInterval | SyncNone

record Signer =
  sgSign :: "string \<Rightarrow> string"
  sgVerify :: "string \<Rightarrow> string \<Rightarrow> goerr"

record WALOptions =
  woMaxRecords :: int
  woMaxBytes :: int
  woMaxRecordBytes :: int
  woSync :: SyncPolicy
  woSyncEvery :: duration
  woSegmentBytes :: int
  woCompactMinBytes :: int
  woCompactRatio :: rat
  woDisableAutoCompact :: bool
  woFailOnTruncation :: bool
  woForceRepair :: bool
  woSigner :: "Signer option"
  woAcceptUnsignedLegacy :: bool
  woMinFreeBytes :: int
  woPayloadsInMemory :: bool
  woSyncTimeout :: duration
  woMaxEntryBytes :: int

definition DefaultWALMaxBytes :: int where "DefaultWALMaxBytes = 512 * 2 ^ 20"
definition DefaultWALMaxRecords :: int where "DefaultWALMaxRecords = 1000000"
definition defaultMinFreeBytes :: int where "defaultMinFreeBytes = 64 * 2 ^ 20"
definition defaultSegmentBytes :: int where "defaultSegmentBytes = 64 * 2 ^ 20"
definition defaultCompactMin :: int where "defaultCompactMin = 64 * 2 ^ 20"
definition defaultCompactRatio :: rat where "defaultCompactRatio = 2"
definition defaultSyncEvery :: duration where "defaultSyncEvery = 100 * millisecond"
definition defaultMaxRecordBytes :: int where "defaultMaxRecordBytes = 8 * 2 ^ 20"

definition wo_applyDefaults :: "WALOptions \<Rightarrow> gerror + WALOptions" where
  "wo_applyDefaults o0 =
     (let o1 = o0\<lparr>woMaxRecords := (if woMaxRecords o0 = 0 \<and> \<not> woPayloadsInMemory o0 then DefaultWALMaxRecords else woMaxRecords o0),
          woMaxBytes := (if woMaxBytes o0 = 0 then DefaultWALMaxBytes else woMaxBytes o0),
          woMinFreeBytes := (if woMinFreeBytes o0 = 0 then defaultMinFreeBytes else woMinFreeBytes o0),
          woMaxRecordBytes := (if woMaxRecordBytes o0 = 0 then defaultMaxRecordBytes else woMaxRecordBytes o0),
          woSyncEvery := (if woSyncEvery o0 \<le> 0 then defaultSyncEvery else woSyncEvery o0),
          woSegmentBytes := (if woSegmentBytes o0 \<le> 0 then defaultSegmentBytes else woSegmentBytes o0),
          woCompactMinBytes := (if woCompactMinBytes o0 \<le> 0 then defaultCompactMin else woCompactMinBytes o0),
          woCompactRatio := (if woCompactRatio o0 \<le> 0 then defaultCompactRatio else woCompactRatio o0),
          woMaxEntryBytes := (if woMaxEntryBytes o0 = 0 then DefaultMaxEntryBytes else woMaxEntryBytes o0)\<rparr>
      in if woMaxEntryBytes o1 - 1024 < woMaxRecordBytes o1
         then Inl (EText ''dlq: MaxRecordBytes must be below the entry limit'') else Inr o1)"

section \<open>Signatures\<close>

definition sigDomain :: string where "sigDomain = ''goguard/wal/v1'' @ [CHR 0x00]"
definition maxSigBytes :: nat where "maxSigBytes = 1024"

definition sigInput :: "bool \<Rightarrow> nat \<Rightarrow> nat \<Rightarrow> string \<Rightarrow> string" where
  "sigInput snap lsn typ body = sigDomain @ (if snap then ''s'' else ''w'') @ le_bytes 8 lsn @ [char_of typ] @ body"

definition sealBody :: "WALOptions \<Rightarrow> bool \<Rightarrow> nat \<Rightarrow> nat \<Rightarrow> string \<Rightarrow> string" where
  "sealBody opts snap lsn typ body =
     (case woSigner opts of None \<Rightarrow> body
      | Some sg \<Rightarrow> (let sig = sgSign sg (sigInput snap lsn typ body) in body @ sig @ le_bytes 2 (length sig)))"

definition openBody :: "WALOptions \<Rightarrow> bool \<Rightarrow> bool \<Rightarrow> nat \<Rightarrow> nat \<Rightarrow> string \<Rightarrow> gerror + string" where
  "openBody opts isSigned snap lsn typ onDisk =
     (if \<not> isSigned then Inr onDisk
      else case woSigner opts of None \<Rightarrow> Inl (EVar ErrSignerRequired)
        | Some sg \<Rightarrow>
           if length onDisk < 2 then Inl (EVar ErrTampered)
           else let n = le_at (length onDisk - 2) 2 onDisk in
             if n = 0 \<or> maxSigBytes < n \<or> length onDisk < n + 2 then Inl (EVar ErrTampered)
             else let body = take (length onDisk - 2 - n) onDisk; sig = take n (drop (length onDisk - 2 - n) onDisk) in
               (case sgVerify sg (sigInput snap lsn typ body) sig of
                 Some err \<Rightarrow> Inl (EWrap '''' [EVar ErrTampered, err])
               | None \<Rightarrow> Inr body))"

definition fileFlags :: "WALOptions \<Rightarrow> 32 word" where
  "fileFlags opts = (if woSigner opts \<noteq> None then flagSigned else 0)"

section \<open>State\<close>

text \<open>
  The directory: the bytes of every segment and snapshot file by number, what repairs put aside, and how many bytes
  of the last segment are on stable storage (all of the others are).
\<close>

record disk =
  dSegs :: "(nat \<times> string) list"
  dSnaps :: "(nat \<times> string) list"
  dQuarantine :: "string list"
  dSynced :: nat

record RecoveryReport =
  rrSnapshotLSN :: nat
  rrSegments :: nat
  rrEntries :: nat
  rrRecords :: nat
  rrTruncatedBytes :: int
  rrUnsignedFiles :: nat

definition zero_report :: RecoveryReport where
  "zero_report = \<lparr>rrSnapshotLSN = 0, rrSegments = 0, rrEntries = 0, rrRecords = 0, rrTruncatedBytes = 0, rrUnsignedFiles = 0\<rparr>"

text \<open>
  \<open>wSegments\<close> holds the first LSN of every segment, the active one last; \<open>wSyncTarget\<close> and \<open>wSyncBytes\<close> are what the
  running \<open>fsync\<close> covers; \<open>wCompactReq\<close> is a token in \<open>compactCh\<close>; \<open>wEvents\<close> the events emitted.  \<open>wHist\<close> is a ghost: the
  content after each entry of the log, leases ended.
\<close>

datatype StoreCode = StoreFailedClosed | StoreSyncTimeout | StoreDiskLow | StoreQuarantined

record WALStore =
  wOpts :: WALOptions
  wDisk :: disk
  wFailure :: goerr
  wOffload :: bool
  wUnreadable :: nat
  wLastSegSigned :: bool
  wDiskFree :: nat
  wDiskCheckedAt :: time
  wDiskWritten :: nat
  wDiskLow :: bool
  wM :: machine
  wClosed :: bool
  wActiveSize :: int
  wSegments :: "nat list"
  wNextLSN :: nat
  wSnapLSN :: nat
  wLogBytes :: int
  wRecovery :: RecoveryReport
  wWritten :: nat
  wDurable :: nat
  wSyncing :: bool
  wSyncTarget :: nat
  wSyncBytes :: nat
  wCompactReq :: bool
  wEvents :: "StoreCode list"
  wHist :: "(string \<rightharpoonup> Record) list"

definition active_file :: "WALStore \<Rightarrow> nat" where
  "active_file w = last (wSegments w)"

definition seg_bytes :: "WALStore \<Rightarrow> nat \<Rightarrow> string" where
  "seg_bytes w k = (case map_of (dSegs (wDisk w)) k of None \<Rightarrow> [] | Some b \<Rightarrow> b)"

definition put_seg :: "nat \<Rightarrow> string \<Rightarrow> WALStore \<Rightarrow> WALStore" where
  "put_seg k b w = w\<lparr>wDisk := (wDisk w)\<lparr>dSegs := AList.update k b (dSegs (wDisk w))\<rparr>\<rparr>"

definition set_synced :: "nat \<Rightarrow> WALStore \<Rightarrow> WALStore" where
  "set_synced n w = w\<lparr>wDisk := (wDisk w)\<lparr>dSynced := n\<rparr>\<rparr>"

definition set_m :: "machine \<Rightarrow> WALStore \<Rightarrow> WALStore" where
  "set_m m w = w\<lparr>wM := m\<rparr>"

definition wal_emit :: "StoreCode \<Rightarrow> WALStore \<Rightarrow> WALStore" where
  "wal_emit c w = w\<lparr>wEvents := wEvents w @ [c]\<rparr>"

section \<open>Reading payloads\<close>

definition valid_ref :: "blobRef \<Rightarrow> bool" where
  "valid_ref ref \<longleftrightarrow> brKind ref \<noteq> 0"

definition unreadable :: "gerror \<Rightarrow> gerror" where
  "unreadable cause = EWrap ''payload unreadable'' [EVar ErrCorrupt]"

definition readFailure :: "gerror \<Rightarrow> gerror" where
  "readFailure err = (if errors_Is err os_ErrNotExist \<or> errors_Is err io_ErrUnexpectedEOF then unreadable err
     else EWrap '''' [EVar errTransientRead, err])"

text \<open>\<open>readAt\<close>; \<open>fault\<close> is an error of the operating system when the file is opened or read.\<close>

definition readAt :: "disk \<Rightarrow> goerr \<Rightarrow> bool \<Rightarrow> nat \<Rightarrow> int \<Rightarrow> int \<Rightarrow> gerror + string" where
  "readAt d fault snap k off n =
     (case fault of Some err \<Rightarrow> Inl err
      | None \<Rightarrow>
         (case map_of (if snap then dSnaps d else dSegs d) k of
            None \<Rightarrow> Inl (EVar os_ErrNotExist)
          | Some b \<Rightarrow>
             (let r = take (nat n) (drop (nat off) b)
              in if length r = nat n then Inr r else Inl (EVar io_ErrUnexpectedEOF))))"

definition loadFrame :: "(blobRef \<Rightarrow> goerr) \<Rightarrow> WALStore \<Rightarrow> blobRef \<Rightarrow> gerror + frame" where
  "loadFrame rd w ref =
     (case readAt (wDisk w) (rd ref) (brSnap ref) (brFile ref) (brOff ref) (brN ref) of
        Inl err \<Rightarrow> Inl (readFailure err)
      | Inr b \<Rightarrow>
         (case readFrame b (int (length b)) (woMaxEntryBytes (wOpts w)) of
            Inl err \<Rightarrow> Inl (unreadable err)
          | Inr (fr, _) \<Rightarrow>
             if frTyp fr \<noteq> brKind ref then Inl (unreadable (EText ''frame type''))
             else (case openBody (wOpts w) (brSigned ref) (brSnap ref) (if brSnap ref then brFile ref else frLsn fr) (frTyp fr) (frBody fr) of
                Inl err \<Rightarrow> Inl (unreadable err)
              | Inr body \<Rightarrow> Inr (fr\<lparr>frBody := body\<rparr>))))"

text \<open>A decoder run to its end over a body.\<close>

definition decode_all :: "(decoder, 'a) state \<Rightarrow> string \<Rightarrow> gerror + 'a" where
  "decode_all dec body =
     (case run_state (do { x \<leftarrow> dec; e \<leftarrow> d_done; State_Monad.return (x, e) }) (decoder_on body) of
        ((x, None), _) \<Rightarrow> Inr x | ((_, Some e), _) \<Rightarrow> Inl e)"

definition loadRecord :: "(blobRef \<Rightarrow> goerr) \<Rightarrow> WALStore \<Rightarrow> blobRef \<Rightarrow> string \<Rightarrow> gerror + Record" where
  "loadRecord rd w ref i =
     (case loadFrame rd w ref of
        Inl err \<Rightarrow> Inl err
      | Inr fr \<Rightarrow>
         (case decode_all decodeRecord (frBody fr) of
            Inl err \<Rightarrow> Inl (unreadable err)
          | Inr rec \<Rightarrow> if rID rec \<noteq> i then Inl (unreadable (EText ''frame holds another record'')) else Inr rec))"

text \<open>The two bodies a checkpoint can be in besides a whole record.\<close>

definition d_checkpoint :: "(decoder, string \<times> bytes) state" where
  "d_checkpoint = do { i \<leftarrow> d_str; cp \<leftarrow> d_nullable; State_Monad.return (i, cp) }"

definition d_requeue :: "(decoder, string \<times> bool \<times> bytes) state" where
  "d_requeue = do {
     i \<leftarrow> d_str;
     d \<leftarrow> State_Monad.get;
     (if db d \<noteq> [] then do {
        f \<leftarrow> d_u8;
        (if f = 1 then do { cp \<leftarrow> d_nullable; State_Monad.return (i, True, cp) } else State_Monad.return (i, False, None)) }
      else State_Monad.return (i, False, None)) }"

definition loadCheckpoint :: "(blobRef \<Rightarrow> goerr) \<Rightarrow> WALStore \<Rightarrow> blobRef \<Rightarrow> string \<Rightarrow> gerror + bytes" where
  "loadCheckpoint rd w ref i =
     (if brKind ref = entAppend \<or> brKind ref = snapRecord
      then (case loadRecord rd w ref i of Inl err \<Rightarrow> Inl err | Inr rec \<Rightarrow> Inr (rCheckpoint rec))
      else if brKind ref = entCheckpoint \<or> brKind ref = entRequeue
      then (case loadFrame rd w ref of
              Inl err \<Rightarrow> Inl err
            | Inr fr \<Rightarrow>
               (case (if frTyp fr = entCheckpoint then decode_all d_checkpoint (frBody fr)
                      else (case decode_all d_requeue (frBody fr) of Inl err \<Rightarrow> Inl err | Inr (got, _, cp) \<Rightarrow> Inr (got, cp))) of
                  Inl err \<Rightarrow> Inl (unreadable err)
                | Inr (got, cp) \<Rightarrow> if got \<noteq> i then Inl (unreadable (EText ''frame holds another record'')) else Inr cp))
      else Inl (unreadable (EText ''unknown reference kind'')))"

definition hydrate :: "(blobRef \<Rightarrow> goerr) \<Rightarrow> WALStore \<Rightarrow> memItem \<Rightarrow> gerror + Record" where
  "hydrate rd w it =
     (let rec = Clone (irec it);
          ckpt = (\<lambda>rec. if valid_ref (ckptRef it)
                   then (case loadCheckpoint rd w (ckptRef it) (rID rec) of Inl err \<Rightarrow> Inl err | Inr cp \<Rightarrow> Inr (rec\<lparr>rCheckpoint := cp\<rparr>))
                   else Inr rec)
      in if valid_ref (bodyRef it)
         then (case loadRecord rd w (bodyRef it) (rID rec) of
                 Inl err \<Rightarrow> Inl err
               | Inr full \<Rightarrow>
                  (let rec1 = rec\<lparr>rKey := rKey full, rValue := rValue full, rHeaders := rHeaders full\<rparr>
                   in if ckptRef it = bodyRef it then Inr (rec1\<lparr>rCheckpoint := rCheckpoint full\<rparr>) else ckpt rec1))
         else ckpt rec)"

definition hydrateOrBare :: "(blobRef \<Rightarrow> goerr) \<Rightarrow> WALStore \<Rightarrow> memItem \<Rightarrow> Record" where
  "hydrateOrBare rd w it = (case hydrate rd w it of Inr rec \<Rightarrow> rec
     | Inl _ \<Rightarrow> (irec it)\<lparr>rKey := None, rValue := None, rHeaders := [], rCheckpoint := None\<rparr>)"

section \<open>Failing closed\<close>

definition setFailure :: "gerror \<Rightarrow> WALStore \<Rightarrow> gerror \<times> WALStore" where
  "setFailure cause w =
     (case wFailure w of
        Some f \<Rightarrow> (f, w)
      | None \<Rightarrow> (let e = EWrap '''' [EVar ErrStoreFailed, cause] in (e, wal_emit StoreFailedClosed (w\<lparr>wFailure := Some e\<rparr>))))"

text \<open>What one call meets outside the store.\<close>

datatype seg_fault = is_OpenFails: OpenFails gerror | HeaderFails nat gerror | HeaderSyncFails gerror | DirSyncFails gerror

record seg_env =
  svFault :: "seg_fault option"
  svRemove :: goerr

record log_env =
  lvPending :: goerr
  lvSync :: goerr
  lvSegment :: seg_env
  lvWrite :: "(nat \<times> gerror) option"
  lvTruncate :: goerr

record wal_env =
  wvCtx :: goerr
  wvCtxCommit :: goerr
  wvNow :: time
  wvNowCommit :: time
  wvOrder :: "string list"
  wvDraws :: "string list"
  wvLog :: "nat \<Rightarrow> log_env"
  wvRead :: "blobRef \<Rightarrow> goerr"
  wvReread :: "blobRef \<Rightarrow> goerr"
  wvWall :: time
  wvFree :: "gerror + nat"

definition wal_begin :: "goerr \<Rightarrow> WALStore \<Rightarrow> goerr" where
  "wal_begin ctx w = (case ctx of Some err \<Rightarrow> Some err
     | None \<Rightarrow> if wClosed w then Some (EVar ErrClosed) else wFailure w)"

section \<open>Segments and group commit\<close>

text \<open>
  \<open>createSegment\<close>: the header is written, synced, and the directory is synced.  On a fault the file is removed again; if
  that fails too the store fails closed and what was written of the file stays.
\<close>

definition fault_error :: "seg_fault \<Rightarrow> gerror" where
  "fault_error f = (case f of OpenFails e \<Rightarrow> e | HeaderFails _ e \<Rightarrow> e | HeaderSyncFails e \<Rightarrow> e | DirSyncFails e \<Rightarrow> e)"

definition createSegment :: "seg_env \<Rightarrow> nat \<Rightarrow> WALStore \<Rightarrow> goerr \<times> WALStore" where
  "createSegment e start w =
     (let hdr = encodeHeaderFlags walMagic start (fileFlags (wOpts w)) in
      case svFault e of
        None \<Rightarrow> (ok, set_synced headerSize (put_seg start hdr w))
      | Some f \<Rightarrow>
         if is_OpenFails f then (Some (fault_error f), w)
         else (case svRemove e of
                 None \<Rightarrow> (Some (fault_error f), w)
               | Some rerr \<Rightarrow>
                  (let left = (case f of HeaderFails n _ \<Rightarrow> take n hdr | _ \<Rightarrow> hdr);
                       r = setFailure (EWrap ''cannot clean up new segment'' [rerr, fault_error f]) (set_synced 0 (put_seg start left w))
                   in (Some (fst r), snd r))))"

text \<open>The two halves of a round of \<open>syncLoopAlways\<close> (and of \<open>syncOnce\<close>), around the \<open>fsync\<close>.\<close>

definition sync_begin :: "WALStore \<Rightarrow> WALStore" where
  "sync_begin w = w\<lparr>wSyncing := True, wSyncTarget := wWritten w, wSyncBytes := length (seg_bytes w (active_file w))\<rparr>"

definition sync_end :: "goerr \<Rightarrow> WALStore \<Rightarrow> WALStore" where
  "sync_end res w0 =
     (let w = w0\<lparr>wSyncing := False\<rparr> in
      case res of
        Some err \<Rightarrow> snd (setFailure (EWrap ''fsync'' [err]) w)
      | None \<Rightarrow>
         (let w1 = set_synced (max (dSynced (wDisk w)) (wSyncBytes w)) w
          in if wDurable w1 < wSyncTarget w1 then w1\<lparr>wDurable := wSyncTarget w1\<rparr> else w1))"

definition rotateLocked :: "log_env \<Rightarrow> WALStore \<Rightarrow> goerr \<times> WALStore" where
  "rotateLocked e w0 =
     (let w = (if wSyncing w0 \<and> wFailure w0 = ok then sync_end (lvPending e) w0 else w0) in
      case wFailure w of
        Some f \<Rightarrow> (Some f, w)
      | None \<Rightarrow>
         (case lvSync e of
            Some err \<Rightarrow> (let r = setFailure (EWrap ''fsync on rotation'' [err]) w in (Some (fst r), snd r))
          | None \<Rightarrow>
             (let w1 = set_synced (length (seg_bytes w (active_file w))) (w\<lparr>wDurable := max (wDurable w) (wWritten w)\<rparr>)
              in case createSegment (lvSegment e) (wNextLSN w1) w1 of
                   (Some err, w2) \<Rightarrow> (Some err, w2)
                 | (None, w2) \<Rightarrow> (ok, w2\<lparr>wActiveSize := int headerSize, wSegments := wSegments w2 @ [wNextLSN w2]\<rparr>))))"

text \<open>
  \<open>logLocked\<close>.  A failed \<open>Write\<close> has written less than the whole frame, and the truncation removes that again.
\<close>

definition write_frame :: "log_env \<Rightarrow> nat \<Rightarrow> string \<Rightarrow> WALStore \<Rightarrow> (gerror + nat \<times> blobRef) \<times> WALStore" where
  "write_frame e typ frameBytes w =
     (let k = active_file w; b = seg_bytes w k;
          ref = \<lparr>brKind = typ, brSigned = (woSigner (wOpts w) \<noteq> None), brSnap = False, brFile = k, brOff = wActiveSize w,
                 brN = int32 (int (length frameBytes))\<rparr>
      in case lvWrite e of
           Some (n, err) \<Rightarrow>
             (case lvTruncate e of
                Some terr \<Rightarrow>
                  (let r = setFailure (EWrap ''write failed and rollback failed'' [err, terr])
                             (put_seg k (b @ take (min n (length frameBytes - 1)) frameBytes) w)
                   in (Inl (fst r), snd r))
              | None \<Rightarrow> (Inl (EWrap ''dlq: writing log entry'' [err]), put_seg k (take (nat (wActiveSize w)) b) w))
         | None \<Rightarrow>
             (let w1 = (put_seg k (b @ frameBytes) w)\<lparr>wActiveSize := wActiveSize w + int (length frameBytes),
                         wLogBytes := wLogBytes w + int (length frameBytes), wDiskWritten := wDiskWritten w + length frameBytes,
                         wNextLSN := wNextLSN w + 1, wWritten := wWritten w + 1\<rparr>
              in (Inr (wWritten w1, ref), w1)))"

definition logLocked :: "wal_env \<Rightarrow> nat \<Rightarrow> string \<Rightarrow> WALStore \<Rightarrow> (gerror + nat \<times> blobRef) \<times> WALStore" where
  "logLocked e typ body w =
     (if woMaxEntryBytes (wOpts w) < int (length body)
      then (Inl (EWrap ''entry is too long'' [EVar ErrInvalidRecord]), w)
      else let le = wvLog e (wNextLSN w);
               frameBytes = appendFrame [] (wNextLSN w) typ (sealBody (wOpts w) False (wNextLSN w) typ body) in
        if int headerSize < wActiveSize w \<and> woSegmentBytes (wOpts w) < wActiveSize w + int (length frameBytes)
        then (case rotateLocked le w of
                (Some err, w1) \<Rightarrow> (Inl err, w1)
              | (None, w1) \<Rightarrow> write_frame le typ frameBytes w1)
        else write_frame le typ frameBytes w)"

text \<open>The content of the store: every record with its payload read back, leases ended.\<close>

definition end_rec :: "Record \<Rightarrow> Record" where
  "end_rec r = (if rState r = Leased then r\<lparr>rState := Pending\<rparr> else r)"

definition wal_content :: "WALStore \<Rightarrow> string \<rightharpoonup> Record" where
  "wal_content w i = (case lookup (wM w) i of None \<Rightarrow> None
     | Some p \<Rightarrow> (case hydrate (\<lambda>_. ok) w (heap (wM w) p) of Inl _ \<Rightarrow> None | Inr r \<Rightarrow> Some (end_rec r)))"

text \<open>Ghost: note the content after an entry.\<close>

definition noted :: "WALStore \<Rightarrow> WALStore" where
  "noted w = w\<lparr>wHist := wHist w @ [wal_content w]\<rparr>"

definition wait_over :: "goerr \<Rightarrow> bool \<Rightarrow> nat \<Rightarrow> WALStore \<Rightarrow> bool" where
  "wait_over ctx timeout sq w \<longleftrightarrow> woSync (wOpts w) \<noteq> SyncAlways \<or> sq \<le> wDurable w \<or> wFailure w \<noteq> ok \<or> ctx \<noteq> ok
     \<or> 0 < woSyncTimeout (wOpts w) \<and> timeout"

text \<open>
  What \<open>waitDurable\<close> returns when its wait is over: \<open>ctx\<close> is the error of the caller's context, \<open>timeout\<close> says that
  \<open>SyncTimeout\<close> has passed.
\<close>

definition waitDurable :: "goerr \<Rightarrow> nat \<Rightarrow> WALStore \<Rightarrow> goerr \<times> WALStore" where
  "waitDurable ctx sq w =
     (if woSync (wOpts w) \<noteq> SyncAlways then (wFailure w, w)
      else if sq \<le> wDurable w then (ok, w)
      else case wFailure w of Some f \<Rightarrow> (Some f, w)
        | None \<Rightarrow> (case ctx of Some err \<Rightarrow> (Some err, w)
            | None \<Rightarrow> (let r = setFailure (EText ''fsync did not finish in time'') (wal_emit StoreSyncTimeout w) in (Some (fst r), snd r))))"

section \<open>Operations\<close>

definition diskCheckEvery :: duration where "diskCheckEvery = 200 * millisecond"

definition checkDiskLocked :: "wal_env \<Rightarrow> nat \<Rightarrow> WALStore \<Rightarrow> goerr \<times> WALStore" where
  "checkDiskLocked e need w =
     (let mn = woMinFreeBytes (wOpts w) in
      if mn \<le> 0 then (ok, w)
      else let due = diskCheckEvery \<le> time_sub (wvWall e) (wDiskCheckedAt w) in
        if due \<and> isl (wvFree e) then (ok, w)
        else let w1 = (if due then w\<lparr>wDiskFree := projr (wvFree e), wDiskCheckedAt := wvWall e, wDiskWritten := 0\<rparr> else w);
                 free = wDiskFree w1 - wDiskWritten w1;
                 low = (free < nat mn + need);
                 w2 = (if low \<noteq> wDiskLow w1
                       then (if low then wal_emit StoreDiskLow else (\<lambda>x. x)) (w1\<lparr>wDiskLow := low\<rparr>) else w1)
             in if low then (Some (EWrap '''' [EVar ErrFull, EVar ErrDiskLow]), w2) else (ok, w2))"

definition maybeCompactLocked :: "WALStore \<Rightarrow> WALStore" where
  "maybeCompactLocked w =
     (if woDisableAutoCompact (wOpts w) then w
      else let t = \<lfloor>woCompactRatio (wOpts w) * of_int (mbytes (wM w))\<rfloor>;
               threshold = (if t < woCompactMinBytes (wOpts w) then woCompactMinBytes (wOpts w) else t)
           in if threshold \<le> wLogBytes w then w\<lparr>wCompactReq := True\<rparr> else w)"

definition insertRecord :: "Record \<Rightarrow> blobRef \<Rightarrow> WALStore \<Rightarrow> WALStore" where
  "insertRecord rec ref w =
     (if wOffload w then set_m (insertOffloaded rec ref (wM w)) w else set_m (machine_insert rec (wM w)) w)"

definition setCheckpointAt :: "ptr \<Rightarrow> bytes \<Rightarrow> blobRef \<Rightarrow> WALStore \<Rightarrow> WALStore" where
  "setCheckpointAt p cp ref w =
     (if \<not> wOffload w then set_m (setCheckpoint p cp (wM w)) w
      else set_m (setCheckpointRef p (blen cp) (if cp = None then zero_ref else ref) (wM w)) w)"

text \<open>
  The locked part of an operation ends with an error, or with the position that \<open>finish\<close> waits for.
\<close>

type_synonym 'a locked = "(gerror + 'a) \<times> WALStore"

definition wal_Append :: "wal_env \<Rightarrow> Record \<Rightarrow> WALStore \<Rightarrow> nat locked" where
  "wal_Append e r w =
     (case wal_begin (wvCtx e) w of
        Some err \<Rightarrow> (Inl err, w)
      | None \<Rightarrow>
         (case prepare (wM w) r (wvNow e) of
            PrepErr err \<Rightarrow> (Inl err, w)
          | PrepDup \<Rightarrow> (Inr (wWritten w), w)
          | PrepNew rec \<Rightarrow>
             (case checkDiskLocked e 0 w of
                (Some err, w1) \<Rightarrow> (Inl err, w1)
              | (None, w1) \<Rightarrow>
                 (case logLocked e entAppend (encodeRecord rec) w1 of
                    (Inl err, w2) \<Rightarrow> (Inl err, w2)
                  | (Inr (sq, ref), w2) \<Rightarrow> (Inr sq, maybeCompactLocked (noted (insertRecord rec ref w2)))))))"

text \<open>
  What the other operations share after their checks: log, then apply.  \<open>withLease\<close> and \<open>withParked\<close> check first.
\<close>

definition log_apply :: "wal_env \<Rightarrow> nat \<Rightarrow> string \<Rightarrow> (blobRef \<Rightarrow> WALStore \<Rightarrow> WALStore) \<Rightarrow> WALStore \<Rightarrow> nat locked" where
  "log_apply e typ body app w =
     (case logLocked e typ body w of
        (Inl err, w1) \<Rightarrow> (Inl err, w1)
      | (Inr (sq, ref), w1) \<Rightarrow> (Inr sq, maybeCompactLocked (noted (app ref w1))))"

definition wal_Checkpoint :: "wal_env \<Rightarrow> string \<Rightarrow> string \<Rightarrow> bytes \<Rightarrow> WALStore \<Rightarrow> nat locked" where
  "wal_Checkpoint e i tok cp w =
     (case wal_begin (wvCtx e) w of
        Some err \<Rightarrow> (Inl err, w)
      | None \<Rightarrow>
         (case held (wM w) i tok of
            Inl err \<Rightarrow> (Inl err, w)
          | Inr p \<Rightarrow>
             (case checkCheckpoint (wM w) p cp of
                Some err \<Rightarrow> (Inl err, w)
              | None \<Rightarrow>
                 (case checkDiskLocked e 0 w of
                    (Some err, w1) \<Rightarrow> (Inl err, w1)
                  | (None, w1) \<Rightarrow> log_apply e entCheckpoint (e_str i @ e_nullable cp) (setCheckpointAt p cp) w1))))"

definition withLease :: "wal_env \<Rightarrow> string \<Rightarrow> string \<Rightarrow> nat \<Rightarrow> string \<Rightarrow> (ptr \<Rightarrow> machine \<Rightarrow> machine) \<Rightarrow> WALStore \<Rightarrow> nat locked" where
  "withLease e i tok typ body app w =
     (case wal_begin (wvCtx e) w of
        Some err \<Rightarrow> (Inl err, w)
      | None \<Rightarrow>
         (case held (wM w) i tok of
            Inl err \<Rightarrow> (Inl err, w)
          | Inr p \<Rightarrow> log_apply e typ (e_str i @ body) (\<lambda>_ w. set_m (app p (wM w)) w) w))"

definition wal_Ack :: "wal_env \<Rightarrow> string \<Rightarrow> string \<Rightarrow> WALStore \<Rightarrow> nat locked" where
  "wal_Ack e i tok = withLease e i tok entAck [] machine_remove"

definition wal_Release :: "wal_env \<Rightarrow> string \<Rightarrow> string \<Rightarrow> WALStore \<Rightarrow> nat locked" where
  "wal_Release e i tok = withLease e i tok entRelease [] applyRelease"

definition wal_Nack :: "wal_env \<Rightarrow> string \<Rightarrow> string \<Rightarrow> NackOptions \<Rightarrow> WALStore \<Rightarrow> nat locked" where
  "wal_Nack e i tok opts =
     (let now = wvNow e; nxt = now + nDelay opts
      in withLease e i tok entNack
           (e_time now @ e_time nxt @ e_str (nErr opts) @ e_str (nBlockedOn opts) @ (if nRefund opts then e_u8 1 else []))
           (\<lambda>p. applyNack p now nxt (nErr opts) (nBlockedOn opts) (nRefund opts)))"

definition wal_Park :: "wal_env \<Rightarrow> string \<Rightarrow> string \<Rightarrow> string \<Rightarrow> WALStore \<Rightarrow> nat locked" where
  "wal_Park e i tok reason =
     (let now = wvNow e in withLease e i tok entPark (e_time now @ e_str reason) (\<lambda>p. applyPark p now reason))"

text \<open>The item of a parked record, or why there is none.\<close>

definition parked_item :: "machine \<Rightarrow> string \<Rightarrow> gerror + ptr" where
  "parked_item m i = (case lookup m i of None \<Rightarrow> Inl (EVar ErrNotFound)
     | Some p \<Rightarrow> if state_at m p \<noteq> Parked then Inl (EVar ErrNotParked) else Inr p)"

definition withParked :: "wal_env \<Rightarrow> string \<Rightarrow> nat \<Rightarrow> (ptr \<Rightarrow> machine \<Rightarrow> machine) \<Rightarrow> WALStore \<Rightarrow> nat locked" where
  "withParked e i typ app w =
     (case wal_begin (wvCtx e) w of
        Some err \<Rightarrow> (Inl err, w)
      | None \<Rightarrow>
         (case parked_item (wM w) i of
            Inl err \<Rightarrow> (Inl err, w)
          | Inr p \<Rightarrow> log_apply e typ (e_str i) (\<lambda>_ w. set_m (app p (wM w)) w) w))"

definition wal_Discard :: "wal_env \<Rightarrow> string \<Rightarrow> WALStore \<Rightarrow> nat locked" where
  "wal_Discard e i = withParked e i entDiscard machine_remove"

definition wal_RequeueWith :: "wal_env \<Rightarrow> string \<Rightarrow> RequeueOptions \<Rightarrow> WALStore \<Rightarrow> nat locked" where
  "wal_RequeueWith e i opts w =
     (case wal_begin (wvCtx e) w of
        Some err \<Rightarrow> (Inl err, w)
      | None \<Rightarrow>
         (case parked_item (wM w) i of
            Inl err \<Rightarrow> (Inl err, w)
          | Inr p \<Rightarrow>
             (case (if qReplaceCheckpoint opts then checkCheckpoint (wM w) p (qCheckpoint opts) else ok) of
                Some err \<Rightarrow> (Inl err, w)
              | None \<Rightarrow>
                  log_apply e entRequeue (e_str i @ (if qReplaceCheckpoint opts then e_u8 1 @ e_nullable (qCheckpoint opts) else []))
                    (\<lambda>ref w. let w1 = set_m (applyRequeue p False None (wM w)) w
                             in if qReplaceCheckpoint opts then setCheckpointAt p (qCheckpoint opts) ref w1 else w1) w)))"

definition wal_Requeue :: "wal_env \<Rightarrow> string \<Rightarrow> WALStore \<Rightarrow> nat locked" where
  "wal_Requeue e i = wal_RequeueWith e i \<lparr>qReplaceCheckpoint = False, qCheckpoint = None\<rparr>"

text \<open>
  \<open>Lease\<close>: pick and reserve under the lock, read the payloads without it, commit under it.  A candidate carries the item
  as it was when it was picked.  (A context that ends during the reads is reported by the commit.)
\<close>

record leaseCand =
  lcIt :: ptr
  lcId :: string
  lcVer :: nat
  lcSnap :: memItem
  lcRes :: "gerror + Record"

definition snapshotItem :: "memItem \<Rightarrow> memItem" where
  "snapshotItem it = zero_item\<lparr>irec := irec it, bodyRef := bodyRef it, ckptRef := ckptRef it\<rparr>"

definition lease_select :: "wal_env \<Rightarrow> LeaseRequest \<Rightarrow> WALStore \<Rightarrow> leaseCand list locked" where
  "lease_select e req w =
     (case validateLease req of
        Some err \<Rightarrow> (Inl err, w)
      | None \<Rightarrow>
         (case wal_begin (wvCtx e) w of
            Some err \<Rightarrow> (Inl err, w)
          | None \<Rightarrow>
             (case selectLease (wvOrder e) (wvNow e) req (wM w) of
                (ps, m) \<Rightarrow> (Inr (map (\<lambda>p. \<lparr>lcIt = p, lcId = rID (rec_at m p), lcVer = ver (heap m p), lcSnap = snapshotItem (heap m p),
                                        lcRes = Inr zero_record\<rparr>) ps),
                            set_m (fold reserve ps m) w))))"

definition lease_read :: "wal_env \<Rightarrow> WALStore \<Rightarrow> leaseCand \<Rightarrow> leaseCand" where
  "lease_read e w c = c\<lparr>lcRes := hydrate (wvRead e) w (if wOffload w then lcSnap c else heap (wM w) (lcIt c))\<rparr>"

definition unreadableReason :: string where
  "unreadableReason = ''payload unreadable on disk (corrupt or missing): restore the log files from a backup''"

definition parkUnreadableLocked :: "wal_env \<Rightarrow> ptr \<Rightarrow> time \<Rightarrow> WALStore \<Rightarrow> nat locked" where
  "parkUnreadableLocked e p now w =
     (case logLocked e entPark (e_str (rID (rec_at (wM w) p)) @ e_time now @ e_str unreadableReason) w of
        (Inl err, w1) \<Rightarrow> (Inl err, w1)
      | (Inr (sq, _), w1) \<Rightarrow>
          (Inr sq, noted (set_m (applyPark p now unreadableReason (wM w1)) (w1\<lparr>wUnreadable := wUnreadable w1 + 1\<rparr>))))"

fun park_bad :: "wal_env \<Rightarrow> time \<Rightarrow> nat \<Rightarrow> ptr list \<Rightarrow> WALStore \<Rightarrow> nat locked" where
  "park_bad e now sq [] w = (Inr sq, w)"
| "park_bad e now sq (p # ps) w =
     (case parkUnreadableLocked e p now w of
        (Inl err, w1) \<Rightarrow> (Inl err, w1)
      | (Inr sq1, w1) \<Rightarrow> park_bad e now sq1 ps w1)"

text \<open>Sort the candidates that did not change into those to hand out, with their payloads, and those to park.\<close>

fun judge :: "wal_env \<Rightarrow> time \<Rightarrow> WALStore \<Rightarrow> leaseCand list \<Rightarrow> (ptr \<times> Record) list \<times> ptr list" where
  "judge e now w [] = ([], [])"
| "judge e now w (c # cs) =
     (let rest = judge e now w cs; p = lcIt c in
      if lookup (wM w) (lcId c) \<noteq> Some p \<or> ver (heap (wM w) p) \<noteq> lcVer c \<or> \<not> eligible (wM w) p now then rest
      else (case (if isl (lcRes c) then hydrate (wvReread e) w (heap (wM w) p) else lcRes c) of
              Inr rec \<Rightarrow> ((p, rec) # fst rest, snd rest)
            | Inl err \<Rightarrow> if errors_Is err errTransientRead then rest else (fst rest, p # snd rest)))"

definition with_payload :: "Record \<Rightarrow> Lease \<Rightarrow> Lease" where
  "with_payload p l = l\<lparr>lRecord := (lRecord l)\<lparr>rKey := rKey p, rValue := rValue p, rHeaders := rHeaders p, rCheckpoint := rCheckpoint p\<rparr>\<rparr>"

definition commitLease :: "wal_env \<Rightarrow> LeaseRequest \<Rightarrow> leaseCand list \<Rightarrow> WALStore \<Rightarrow> (Lease list \<times> nat) option locked" where
  "commitLease e req cands w0 =
     (let w = set_m (fold (\<lambda>c. unreserve (lcIt c)) cands (wM w0)) w0 in
      case wal_begin (wvCtxCommit e) w0 of
        Some err \<Rightarrow> (Inl err, w)
      | None \<Rightarrow>
         (let now = wvNowCommit e; j = judge e now w cands; good = map fst (fst j)
          in case park_bad e now 0 (snd j) w of
               (Inl err, w1) \<Rightarrow> (Inl err, w1)
             | (Inr lastSeq, w1) \<Rightarrow>
                if good = []
                then (if snd j = [] then (Inr None, w1) else (Inr (Some ([], lastSeq)), maybeCompactLocked w1))
                else (case logLocked e entLease
                          (e_uvarint (length good) @ concat (map (\<lambda>p. e_str (rID (rec_at (wM w1) p))) good)) w1 of
                        (Inl err, w2) \<Rightarrow> (Inl err, w2)
                      | (Inr (sq, _), w2) \<Rightarrow>
                         (case grant good (wvDraws e) now (lrTTL req) (wM w2) of
                            (ls, m) \<Rightarrow> (Inr (Some (map2 with_payload (map snd (fst j)) ls, sq)), maybeCompactLocked (noted (set_m m w2)))))))"

text \<open>\<open>Lease\<close> when nobody else runs in between; nothing to hand out is the empty list.\<close>

definition wal_Lease :: "wal_env \<Rightarrow> LeaseRequest \<Rightarrow> WALStore \<Rightarrow> (Lease list \<times> nat) option locked" where
  "wal_Lease e req w =
     (case lease_select e req w of
        (Inl err, w1) \<Rightarrow> (Inl err, w1)
      | (Inr cands, w1) \<Rightarrow>
          if cands = [] then (Inr None, w1) else commitLease e req (map (lease_read e w1) cands) w1)"

text \<open>
  The reads of \<open>Get\<close> and \<open>Parked\<close>: \<open>w\<close> is the store when the item was looked up, \<open>w2\<close> the store when the lock is taken
  again after a failed read.
\<close>

definition wal_Get :: "wal_env \<Rightarrow> string \<Rightarrow> WALStore \<Rightarrow> WALStore \<Rightarrow> gerror + Record" where
  "wal_Get e i w w2 =
     (case wal_begin (wvCtx e) w of
        Some err \<Rightarrow> Inl err
      | None \<Rightarrow>
         (case lookup (wM w) i of
            None \<Rightarrow> Inl (EVar ErrNotFound)
          | Some p \<Rightarrow>
             if \<not> wOffload w then hydrate (wvRead e) w (heap (wM w) p)
             else (case hydrate (wvRead e) w (snapshotItem (heap (wM w) p)) of
                     Inr rec \<Rightarrow> Inr rec
                   | Inl _ \<Rightarrow>
                      (case wal_begin (wvCtxCommit e) w2 of
                         Some err \<Rightarrow> Inl err
                       | None \<Rightarrow>
                          (case lookup (wM w2) i of
                             None \<Rightarrow> Inl (EVar ErrNotFound)
                           | Some q \<Rightarrow> hydrate (wvReread e) w2 (heap (wM w2) q))))))"

definition parked_read :: "wal_env \<Rightarrow> WALStore \<Rightarrow> WALStore \<Rightarrow> ptr \<Rightarrow> Record" where
  "parked_read e w w2 p =
     (let it = heap (wM w) p in
      if \<not> wOffload w then hydrateOrBare (wvRead e) w it
      else case hydrate (wvRead e) w (snapshotItem it) of
             Inr rec \<Rightarrow> rec
           | Inl _ \<Rightarrow> (case lookup (wM w2) (rID (irec it)) of None \<Rightarrow> Clone (irec it)
                        | Some q \<Rightarrow> hydrateOrBare (wvReread e) w2 (heap (wM w2) q)))"

definition wal_Parked :: "wal_env \<Rightarrow> ParkedQuery \<Rightarrow> WALStore \<Rightarrow> WALStore \<Rightarrow> gerror + Record list" where
  "wal_Parked e q w w2 =
     (case wal_begin (wvCtx e) w of
        Some err \<Rightarrow> Inl err
      | None \<Rightarrow> Inr (map (parked_read e w w2) (parkedItems (wM w) (pqAfter q) (pqLimit q))))"

definition wal_HasOrderKey :: "wal_env \<Rightarrow> string \<Rightarrow> WALStore \<Rightarrow> gerror + bool" where
  "wal_HasOrderKey e k w = (case wal_begin (wvCtx e) w of Some err \<Rightarrow> Inl err | None \<Rightarrow> Inr (hasOrderKey (wM w) k))"

definition wal_Stats :: "wal_env \<Rightarrow> WALStore \<Rightarrow> gerror + StoreStats" where
  "wal_Stats e w = (case wal_begin (wvCtx e) w of Some err \<Rightarrow> Inl err | None \<Rightarrow> Inr (machine_stats (wvOrder e) (wM w) (wvNow e)))"

text \<open>The records \<open>Scan\<close> collects before it calls the visitor.\<close>

fun scan_records :: "wal_env \<Rightarrow> WALStore \<Rightarrow> ptr list \<Rightarrow> gerror + Record list" where
  "scan_records e w [] = Inr []"
| "scan_records e w (p # ps) =
     (case hydrate (wvRead e) w (heap (wM w) p) of
        Inl err \<Rightarrow> Inl (EWrap ''dlq: reading record'' [err])
      | Inr rec \<Rightarrow> (case scan_records e w ps of Inl err \<Rightarrow> Inl err | Inr rs \<Rightarrow> Inr (rec # rs)))"

definition wal_Scan :: "wal_env \<Rightarrow> WALStore \<Rightarrow> gerror + Record list" where
  "wal_Scan e w = (case wal_begin (wvCtx e) w of Some err \<Rightarrow> Inl err | None \<Rightarrow> scan_records e w (order (wM w)))"

text \<open>\<open>Close\<close>; \<open>stalled\<close> says that a failed store's background \<open>fsync\<close> did not return in time.\<close>

record close_env =
  cvPending :: goerr
  cvStalled :: bool
  cvSync :: goerr
  cvClose :: goerr

definition wal_Close :: "close_env \<Rightarrow> WALStore \<Rightarrow> goerr \<times> WALStore" where
  "wal_Close e w0 =
     (if wClosed w0 then (ok, w0)
      else let w = w0\<lparr>wClosed := True\<rparr> in
        if wFailure w \<noteq> ok \<and> cvStalled e then (Some (EWrap ''a stalled fsync did not return'' [EVar ErrStoreFailed]), w)
        else let w1 = (if wSyncing w then sync_end (cvPending e) w else w);
                 r = (if wFailure w1 \<noteq> ok then (ok, w1)
                      else case cvSync e of
                        Some serr \<Rightarrow> (let f = setFailure (EWrap ''fsync on close'' [serr]) w1 in (Some (fst f), snd f))
                      | None \<Rightarrow> (ok, set_synced (length (seg_bytes w1 (active_file w1))) (w1\<lparr>wDurable := wWritten w1\<rparr>)))
             in (if fst r = ok then cvClose e else fst r, snd r))"

section \<open>Recovery\<close>

text \<open>What recovery meets outside the store: errors of the operating system.\<close>

record rec_env =
  rvList :: goerr
  rvOpen :: "nat \<Rightarrow> goerr"
  rvOpenSnap :: goerr
  rvQuarantine :: goerr
  rvRepair :: goerr
  rvRemove :: goerr
  rvSegment :: seg_env
  rvActive :: goerr

definition corrupt :: "gerror \<Rightarrow> gerror" where
  "corrupt cause = EWrap ''corrupt'' [EVar ErrCorrupt]"

definition tampered :: "gerror \<Rightarrow> gerror" where
  "tampered cause = EWrap '''' [EVar ErrCorrupt, cause]"

definition checkFileFlags :: "32 word \<Rightarrow> WALStore \<Rightarrow> gerror + bool \<times> WALStore" where
  "checkFileFlags flags w =
     (let isSigned = (flags AND flagSigned \<noteq> 0) in
      if isSigned \<and> woSigner (wOpts w) = None then Inl (EVar ErrSignerRequired)
      else if \<not> isSigned \<and> woSigner (wOpts w) \<noteq> None
      then (if \<not> woAcceptUnsignedLegacy (wOpts w) then Inl (EVar ErrUnsignedLog)
            else Inr (isSigned, w\<lparr>wRecovery := (wRecovery w)\<lparr>rrUnsignedFiles := rrUnsignedFiles (wRecovery w) + 1\<rparr>\<rparr>))
      else Inr (isSigned, w))"

definition replayCheckpoint :: "string \<Rightarrow> bytes \<Rightarrow> blobRef \<Rightarrow> WALStore \<Rightarrow> WALStore" where
  "replayCheckpoint i cp ref w = (case lookup (wM w) i of None \<Rightarrow> w | Some p \<Rightarrow> setCheckpointAt p cp ref w)"

definition replayRequeue :: "string \<Rightarrow> bool \<Rightarrow> bytes \<Rightarrow> blobRef \<Rightarrow> WALStore \<Rightarrow> WALStore" where
  "replayRequeue i replace cp ref w =
     (case lookup (wM w) i of None \<Rightarrow> w
      | Some p \<Rightarrow>
         if state_at (wM w) p \<noteq> Parked then w
         else let w1 = set_m (applyRequeue p False None (wM w)) w
              in if replace then setCheckpointAt p cp ref w1 else w1)"

text \<open>The bodies of the entries.\<close>

fun d_strs :: "nat \<Rightarrow> string list \<Rightarrow> (decoder, string list) state" where
  "d_strs 0 acc = State_Monad.return acc"
| "d_strs (Suc n) acc = do { s \<leftarrow> d_str; d_strs n (acc @ [s]) }"

definition d_nack :: "(decoder, string \<times> time \<times> time \<times> string \<times> string \<times> bool) state" where
  "d_nack = do {
     i \<leftarrow> d_str; failedAt \<leftarrow> d_time; nxt \<leftarrow> d_time; text \<leftarrow> d_str; blocked \<leftarrow> d_str;
     d \<leftarrow> State_Monad.get;
     (if db d \<noteq> [] then do { f \<leftarrow> d_u8; State_Monad.return (i, failedAt, nxt, text, blocked, f = 1) }
      else State_Monad.return (i, failedAt, nxt, text, blocked, False)) }"

definition d_park :: "(decoder, string \<times> time \<times> string) state" where
  "d_park = do { i \<leftarrow> d_str; failedAt \<leftarrow> d_time; reason \<leftarrow> d_str; State_Monad.return (i, failedAt, reason) }"

definition decode_lease :: "string \<Rightarrow> gerror + string list" where
  "decode_lease body =
     (case run_state d_uvarint (decoder_on body) of
        (n, d) \<Rightarrow>
          if length (db d) < n then Inl (EVar errBadEntry)
          else (case run_state (do { ids \<leftarrow> d_strs n []; e \<leftarrow> d_done; State_Monad.return (ids, e) }) d of
                  ((ids, None), _) \<Rightarrow> Inr ids | ((_, Some e), _) \<Rightarrow> Inl e))"

text \<open>Apply a change that was decoded, or pass on the decoding error.\<close>

definition apply_decoded :: "(gerror + 'a) \<Rightarrow> ('a \<Rightarrow> WALStore \<Rightarrow> WALStore) \<Rightarrow> WALStore \<Rightarrow> gerror + WALStore" where
  "apply_decoded r f w = (case r of Inl e \<Rightarrow> Inl e | Inr x \<Rightarrow> Inr (f x w))"

definition on_m :: "(machine \<Rightarrow> machine) \<Rightarrow> WALStore \<Rightarrow> WALStore" where
  "on_m f w = set_m (f (wM w)) w"

definition applyEntry :: "frame \<Rightarrow> blobRef \<Rightarrow> WALStore \<Rightarrow> gerror + WALStore" where
  "applyEntry fr ref w =
     (let body = frBody fr; t = frTyp fr in
      if t = entAppend
      then (case decode_all decodeRecord body of
              Inl e \<Rightarrow> Inl e
            | Inr rec \<Rightarrow> if rState rec = Leased then Inl (EVar errBadEntry) else Inr (insertRecord rec ref w))
      else if t = entLease then apply_decoded (decode_lease body) (\<lambda>ids. on_m (fold replayLease ids)) w
      else if t = entCheckpoint then apply_decoded (decode_all d_checkpoint body) (\<lambda>(i, cp). replayCheckpoint i cp ref) w
      else if t = entRequeue then apply_decoded (decode_all d_requeue body) (\<lambda>(i, replace, cp). replayRequeue i replace cp ref) w
      else if t = entAck then apply_decoded (decode_all d_str body) (\<lambda>i. on_m (replayAck i)) w
      else if t = entRelease then apply_decoded (decode_all d_str body) (\<lambda>i. on_m (replayRelease i)) w
      else if t = entDiscard then apply_decoded (decode_all d_str body) (\<lambda>i. on_m (replayDiscard i)) w
      else if t = entNack then apply_decoded (decode_all d_nack body)
        (\<lambda>(i, failedAt, nxt, text, blocked, refund). on_m (replayNack i failedAt nxt text blocked refund)) w
      else if t = entPark then apply_decoded (decode_all d_park body) (\<lambda>(i, failedAt, reason). on_m (replayPark i failedAt reason)) w
      else Inl (EText ''unknown entry type''))"

text \<open>\<open>validFrameAfter\<close>: is there a frame with a right checksum and a later LSN behind the damage?\<close>

definition resyncWindow :: nat where "resyncWindow = 8 * 2 ^ 20"

definition valid_at :: "int \<Rightarrow> nat \<Rightarrow> string \<Rightarrow> nat \<Rightarrow> bool" where
  "valid_at maxEntry nxt buf p =
     (let len = le_at p 4 buf in
      if len < frameMeta \<or> maxEntry + int frameMeta < int len \<or> length buf < p + frameOverhead + len then False
      else let payload = take len (drop (p + frameOverhead) buf) in
        if unat (frame_crc (take 4 (drop p buf)) payload) \<noteq> le_at (p + 4) 4 buf then False
        else nxt \<le> le_at 0 8 payload \<and> entAppend \<le> of_char (payload ! 8) \<and> of_char (payload ! 8) \<le> entDiscard)"

definition validFrameAfter :: "int \<Rightarrow> nat \<Rightarrow> string \<Rightarrow> nat \<Rightarrow> bool" where
  "validFrameAfter maxEntry off bytes nxt =
     (let buf = take resyncWindow (drop (off + 1) bytes)
      in list_ex (valid_at maxEntry nxt buf) [0..<length buf - (frameOverhead + frameMeta - 1)])"

definition quarantine :: "nat \<Rightarrow> nat \<Rightarrow> rec_env \<Rightarrow> WALStore \<Rightarrow> goerr \<times> WALStore" where
  "quarantine k from e w =
     (let bad = drop from (seg_bytes w k) in
      if bad = [] then (ok, w)
      else case rvQuarantine e of Some err \<Rightarrow> (Some err, w)
        | None \<Rightarrow> (ok, wal_emit StoreQuarantined (w\<lparr>wDisk := (wDisk w)\<lparr>dQuarantine := dQuarantine (wDisk w) @ [bad]\<rparr>\<rparr>)))"

definition repairTail :: "rec_env \<Rightarrow> nat \<Rightarrow> nat \<Rightarrow> nat \<Rightarrow> WALStore \<Rightarrow> gerror + nat \<times> nat \<times> WALStore" where
  "repairTail e k off nxt w =
     (let bytes = seg_bytes w k in
      if woFailOnTruncation (wOpts w) then Inl (corrupt (EText ''damaged tail and FailOnTruncation is set''))
      else if \<not> woForceRepair (wOpts w) \<and> validFrameAfter (woMaxEntryBytes (wOpts w)) off bytes nxt
      then Inl (corrupt (EText ''damage is followed by valid log entries''))
      else case quarantine k off e w of
        (Some err, _) \<Rightarrow> Inl err
      | (None, w1) \<Rightarrow>
         (case rvRepair e of
            Some err \<Rightarrow> Inl err
          | None \<Rightarrow>
             (let w2 = set_synced off (put_seg k (take off bytes) w1)
              in Inr (off, nxt, w2\<lparr>wRecovery := (wRecovery w2)\<lparr>rrTruncatedBytes := int (length bytes - off)\<rparr>\<rparr>))))"

lemma readFrame_rest: "readFrame r remaining maxEntry = Inr (fr, rest) \<Longrightarrow> length rest < length r"
  by (auto simp: readFrame_def Let_def frameOverhead_def split: if_splits)

function replay_frames :: "rec_env \<Rightarrow> nat \<Rightarrow> bool \<Rightarrow> bool \<Rightarrow> nat \<Rightarrow> nat \<Rightarrow> string \<Rightarrow> WALStore \<Rightarrow> gerror + nat \<times> nat \<times> WALStore" where
  "replay_frames e k isLast isSigned off nxt rest w =
     (case readFrame rest (int (length rest)) (woMaxEntryBytes (wOpts w)) of
        Inl err \<Rightarrow>
          if errors_Is err io_EOF then Inr (off, nxt, w)
          else if \<not> isLast then Inl (corrupt err)
          else repairTail e k off nxt w
      | Inr (fr, rest1) \<Rightarrow>
          (let off1 = off + nat (frSize fr) in
           if frLsn fr \<le> wSnapLSN w then replay_frames e k isLast isSigned off1 nxt rest1 w
           else if frLsn fr = nxt
           then (case openBody (wOpts w) isSigned False (frLsn fr) (frTyp fr) (frBody fr) of
                   Inl err \<Rightarrow> Inl (tampered err)
                 | Inr body \<Rightarrow>
                    (case applyEntry (fr\<lparr>frBody := body\<rparr>) \<lparr>brKind = frTyp fr, brSigned = isSigned, brSnap = False, brFile = k,
                             brOff = int off, brN = int32 (frSize fr)\<rparr> w of
                       Inl err \<Rightarrow> Inl (corrupt err)
                     | Inr w1 \<Rightarrow> replay_frames e k isLast isSigned off1 (nxt + 1) rest1
                         (noted (w1\<lparr>wRecovery := (wRecovery w1)\<lparr>rrEntries := rrEntries (wRecovery w1) + 1\<rparr>\<rparr>))))
           else Inl (corrupt (EText ''unexpected entry''))))"
  by pat_completeness auto
termination
  by (relation "measure (\<lambda>(e, k, isLast, isSigned, off, nxt, rest, w). length rest)") (auto dest: readFrame_rest)

declare replay_frames.simps [simp del]

text \<open>\<open>replaySegment\<close>; the end of the last good entry is \<open>None\<close> when the segment was set aside.\<close>

definition replaySegment :: "rec_env \<Rightarrow> nat \<Rightarrow> nat \<Rightarrow> bool \<Rightarrow> WALStore \<Rightarrow> gerror + nat option \<times> nat \<times> WALStore" where
  "replaySegment e k expected isLast w =
     (case rvOpen e k of Some err \<Rightarrow> Inl err
      | None \<Rightarrow>
         (let bytes = seg_bytes w k; hdr = decodeHeaderFlags (take headerSize bytes) walMagic in
          case hdr of
            Inl herr \<Rightarrow>
              if isLast \<and> expected \<le> k
              then (case quarantine k 0 e w of
                      (Some err, _) \<Rightarrow> Inl err
                    | (None, w1) \<Rightarrow>
                       (case rvRemove e of Some err \<Rightarrow> Inl err
                        | None \<Rightarrow> Inr (None, expected, w1\<lparr>wDisk := (wDisk w1)\<lparr>dSegs := AList.delete k (dSegs (wDisk w1))\<rparr>\<rparr>)))
              else Inl (corrupt herr)
          | Inr (startLSN, flags) \<Rightarrow>
              if startLSN \<noteq> k then Inl (corrupt (EText ''bad segment header''))
              else if expected < k then Inl (corrupt (EText ''log entries are missing''))
              else (case checkFileFlags flags w of
                      Inl err \<Rightarrow> Inl (tampered err)
                    | Inr (isSigned, w1) \<Rightarrow>
                       (case replay_frames e k isLast isSigned headerSize expected (drop headerSize bytes) (w1\<lparr>wLastSegSigned := isSigned\<rparr>) of
                          Inl err \<Rightarrow> Inl err
                        | Inr (off, nxt, w2) \<Rightarrow> Inr (Some off, nxt, w2)))))"

text \<open>\<open>loadSnapshot\<close>: record frames, then a footer with their number and the next sequence number.\<close>

definition d_footer :: "(decoder, nat \<times> nat) state" where
  "d_footer = do { want \<leftarrow> d_uvarint; nextSeq \<leftarrow> d_uvarint; State_Monad.return (want, nextSeq) }"

function snap_frames :: "nat \<Rightarrow> bool \<Rightarrow> nat \<Rightarrow> nat \<Rightarrow> string \<Rightarrow> WALStore \<Rightarrow> gerror + WALStore" where
  "snap_frames lsn isSigned off count rest w =
     (case readFrame rest (int (length rest)) (woMaxEntryBytes (wOpts w)) of
        Inl err \<Rightarrow> Inl (corrupt err)
      | Inr (fr, rest1) \<Rightarrow>
         (case openBody (wOpts w) isSigned True lsn (frTyp fr) (frBody fr) of
            Inl err \<Rightarrow> Inl (tampered err)
          | Inr body \<Rightarrow>
             if frTyp fr = snapRecord
             then (case decode_all decodeRecord body of
                     Inl err \<Rightarrow> Inl (corrupt err)
                   | Inr rec \<Rightarrow>
                      if lookup (wM w) (rID rec) \<noteq> None then Inl (corrupt (EText ''duplicate record in snapshot''))
                      else snap_frames lsn isSigned (off + nat (frSize fr)) (count + 1) rest1
                             (insertRecord rec \<lparr>brKind = snapRecord, brSigned = isSigned, brSnap = True, brFile = lsn, brOff = int off,
                                brN = int32 (frSize fr)\<rparr> w))
             else if frTyp fr = snapEnd
             then (case decode_all d_footer body of
                     Inl err \<Rightarrow> Inl (corrupt err)
                   | Inr (want, nextSeq) \<Rightarrow>
                      if want \<noteq> count then Inl (corrupt (EText ''wrong number of records''))
                      else if rest1 \<noteq> [] then Inl (corrupt (EText ''unexpected data after the footer''))
                      else Inr (set_m ((wM w)\<lparr>seq := max (seq (wM w)) nextSeq\<rparr>) w))
             else Inl (corrupt (EText ''unexpected entry type in snapshot''))))"
  by pat_completeness auto
termination
  by (relation "measure (\<lambda>(lsn, isSigned, off, count, rest, w). length rest)") (auto dest: readFrame_rest)

declare snap_frames.simps [simp del]

definition loadSnapshot :: "rec_env \<Rightarrow> nat \<Rightarrow> WALStore \<Rightarrow> gerror + WALStore" where
  "loadSnapshot e lsn w =
     (case rvOpenSnap e of Some err \<Rightarrow> Inl err
      | None \<Rightarrow>
         (let bytes = (case map_of (dSnaps (wDisk w)) lsn of None \<Rightarrow> [] | Some b \<Rightarrow> b) in
          case decodeHeaderFlags (take headerSize bytes) snapMagic of
            Inl herr \<Rightarrow> Inl (corrupt herr)
          | Inr (got, flags) \<Rightarrow>
             if got \<noteq> lsn then Inl (corrupt (EText ''bad snapshot header''))
             else (case checkFileFlags flags w of
                     Inl err \<Rightarrow> Inl (tampered err)
                   | Inr (isSigned, w1) \<Rightarrow> snap_frames lsn isSigned headerSize 0 (drop headerSize bytes) w1)))"

text \<open>The segments in order: the next LSN, where the last good entry ends, and the segments that are kept.\<close>

fun replay_segments :: "rec_env \<Rightarrow> nat list \<Rightarrow> nat \<Rightarrow> nat \<Rightarrow> nat list \<Rightarrow> WALStore \<Rightarrow> gerror + nat \<times> nat \<times> nat list \<times> WALStore" where
  "replay_segments e [] expected lastEnd kept w = Inr (expected, lastEnd, kept, w)"
| "replay_segments e (k # ks) expected lastEnd kept w =
     (case replaySegment e k expected (ks = []) w of
        Inl err \<Rightarrow> Inl err
      | Inr (None, _, w1) \<Rightarrow> Inr (expected, lastEnd, kept, set_synced lastEnd w1)
      | Inr (Some off, nxt, w1) \<Rightarrow>
          replay_segments e ks nxt off (kept @ [k]) (w1\<lparr>wRecovery := (wRecovery w1)\<lparr>rrSegments := rrSegments (wRecovery w1) + 1\<rparr>\<rparr>))"

text \<open>Segments wholly covered by the snapshot: all but the last of those that start by \<open>expected\<close>.\<close>

fun drop_covered :: "nat \<Rightarrow> nat list \<Rightarrow> nat list \<times> nat list" where
  "drop_covered expected (a # b # ks) =
     (if b \<le> expected then (case drop_covered expected (b # ks) of (gone, kept) \<Rightarrow> (a # gone, kept)) else ([], a # b # ks))"
| "drop_covered expected ks = ([], ks)"

definition newSegmentLocked :: "seg_env \<Rightarrow> nat \<Rightarrow> WALStore \<Rightarrow> goerr \<times> WALStore" where
  "newSegmentLocked e start w =
     (case createSegment e start w of
        (Some err, w1) \<Rightarrow> (Some err, w1)
      | (None, w1) \<Rightarrow> (ok, w1\<lparr>wActiveSize := int headerSize, wSegments := wSegments w1 @ [start]\<rparr>))"

text \<open>The end of \<open>recover\<close>: open the segment that will be written, measure the log, end the leases.\<close>

definition open_active :: "rec_env \<Rightarrow> nat \<Rightarrow> nat \<Rightarrow> nat list \<Rightarrow> WALStore \<Rightarrow> gerror + WALStore" where
  "open_active e expected lastEnd kept w4 =
     (let w5 = w4\<lparr>wNextLSN := expected, wSegments := kept\<rparr>;
          opened = (if kept = [] \<or> woSigner (wOpts w5) \<noteq> None \<and> \<not> wLastSegSigned w5
                    then newSegmentLocked (rvSegment e) expected w5
                    else case rvActive e of Some err \<Rightarrow> (Some err, w5)
                      | None \<Rightarrow> (ok, w5\<lparr>wActiveSize := int lastEnd\<rparr>))
      in case opened of
           (Some err, _) \<Rightarrow> Inl err
         | (None, w6) \<Rightarrow>
            (let sizes = map (\<lambda>k. int (length (seg_bytes w6 k)) - int headerSize) (filter (\<lambda>k. wSnapLSN w6 < k) (wSegments w6));
                 m1 = endReplay (wM w6)
             in Inr (set_m m1 (w6\<lparr>wLogBytes := sum_list sizes,
                   wRecovery := (wRecovery w6)\<lparr>rrRecords := length (items m1)\<rparr>\<rparr>))))"

definition recover :: "rec_env \<Rightarrow> WALStore \<Rightarrow> gerror + WALStore" where
  "recover e w0 =
     (case rvList e of Some err \<Rightarrow> Inl err
      | None \<Rightarrow>
         (let segs = sort (map fst (dSegs (wDisk w0))); snaps = sort (map fst (dSnaps (wDisk w0)));
              m = newMachine \<lparr>maxRecords = woMaxRecords (wOpts w0), maxBytes = woMaxBytes (wOpts w0),
                              maxRecordBytes = woMaxRecordBytes (wOpts w0)\<rparr>;
              w1 = set_m m w0;
              loaded = (if snaps = [] then Inr w1
                        else (case loadSnapshot e (last snaps) w1 of
                                Inl err \<Rightarrow> Inl err
                              | Inr w \<Rightarrow> Inr (w\<lparr>wSnapLSN := last snaps, wRecovery := (wRecovery w)\<lparr>rrSnapshotLSN := last snaps\<rparr>,
                                   wDisk := (wDisk w)\<lparr>dSnaps := filter (\<lambda>s. fst s = last snaps) (dSnaps (wDisk w))\<rparr>\<rparr>)))
          in case loaded of
               Inl err \<Rightarrow> Inl err
             | Inr w2 \<Rightarrow>
                (case drop_covered (wSnapLSN w2 + 1) segs of
                   (gone, ks) \<Rightarrow>
                     (let w3 = noted (w2\<lparr>wDisk := (wDisk w2)\<lparr>dSegs := filter (\<lambda>s. fst s \<notin> set gone) (dSegs (wDisk w2))\<rparr>, wHist := []\<rparr>) in
                      case replay_segments e ks (wSnapLSN w3 + 1) 0 [] w3 of
                        Inl err \<Rightarrow> Inl err
                      | Inr (expected, lastEnd, kept, w4) \<Rightarrow> open_active e expected lastEnd kept w4))))"

text \<open>
  \<open>OpenWAL\<close>: \<open>dirErr\<close> is what the checks of the directory and its lock answer.  Nothing is written or durable yet in this
  run of the store.
\<close>

definition wal_zero :: "WALOptions \<Rightarrow> disk \<Rightarrow> WALStore" where
  "wal_zero opts d = \<lparr>wOpts = opts, wDisk = d, wFailure = ok, wOffload = (\<not> woPayloadsInMemory opts), wUnreadable = 0,
     wLastSegSigned = False, wDiskFree = 0, wDiskCheckedAt = zero_time, wDiskWritten = 0, wDiskLow = False,
     wM = newMachine \<lparr>maxRecords = 0, maxBytes = 0, maxRecordBytes = 0\<rparr>, wClosed = False, wActiveSize = 0, wSegments = [],
     wNextLSN = 0, wSnapLSN = 0, wLogBytes = 0, wRecovery = zero_report, wWritten = 0, wDurable = 0, wSyncing = False,
     wSyncTarget = 0, wSyncBytes = 0, wCompactReq = False, wEvents = [], wHist = []\<rparr>"

definition OpenWAL :: "goerr \<Rightarrow> rec_env \<Rightarrow> WALOptions \<Rightarrow> disk \<Rightarrow> gerror + WALStore" where
  "OpenWAL dirErr e opts d =
     (case wo_applyDefaults opts of Inl err \<Rightarrow> Inl err
      | Inr o1 \<Rightarrow> (case dirErr of Some err \<Rightarrow> Inl err | None \<Rightarrow> recover e (wal_zero o1 d)))"

end
