(* ===== verification/GG_Wal_View.thy ===== *)
theory GG_Wal_View
  imports GG_Wal GG_Queue
begin

text \<open>
  What the log says about the queue.  Every change of the log-backed store is one log entry; \<open>went\<close> is such an entry
  decoded.  \<open>lview_of\<close> is the part of a machine that entries determine: identifiers, sequence number, and for every item
  its record (an open lease counted as ended) and where its payload is.  Both a live operation and the replay of its
  entry change the view by \<open>v_apply\<close>, which is what makes replay reproduce the live store.
\<close>

section \<open>Entries\<close>

datatype went =
    WAppend Record
  | WLease "string list"
  | WCheckpoint string bytes
  | WAck string
  | WNack string time time string string bool
  | WRelease string
  | WPark string time string
  | WRequeue string bool bytes
  | WDiscard string

definition went_typ :: "went \<Rightarrow> nat" where
  "went_typ x = (case x of WAppend _ \<Rightarrow> entAppend | WLease _ \<Rightarrow> entLease | WCheckpoint _ _ \<Rightarrow> entCheckpoint | WAck _ \<Rightarrow> entAck
     | WNack _ _ _ _ _ _ \<Rightarrow> entNack | WRelease _ \<Rightarrow> entRelease | WPark _ _ _ \<Rightarrow> entPark | WRequeue _ _ _ \<Rightarrow> entRequeue
     | WDiscard _ \<Rightarrow> entDiscard)"

definition went_body :: "went \<Rightarrow> string" where
  "went_body x = (case x of
       WAppend r \<Rightarrow> encodeRecord r
     | WLease ids \<Rightarrow> e_uvarint (length ids) @ concat (map e_str ids)
     | WCheckpoint i cp \<Rightarrow> e_str i @ e_nullable cp
     | WAck i \<Rightarrow> e_str i
     | WNack i t nxt text blocked refund \<Rightarrow>
         e_str i @ e_time t @ e_time nxt @ e_str text @ e_str blocked @ (if refund then e_u8 1 else [])
     | WRelease i \<Rightarrow> e_str i
     | WPark i t reason \<Rightarrow> e_str i @ e_time t @ e_str reason
     | WRequeue i replace cp \<Rightarrow> e_str i @ (if replace then e_u8 1 @ e_nullable cp else [])
     | WDiscard i \<Rightarrow> e_str i)"

definition went_fits :: "went \<Rightarrow> bool" where
  "went_fits x = (case x of
       WAppend r \<Rightarrow> record_fits r \<and> rState r \<noteq> Leased
     | WLease ids \<Rightarrow> is_uint64 (length ids) \<and> list_all str_fits ids
     | WCheckpoint i cp \<Rightarrow> str_fits i \<and> bytes_fit cp
     | WAck i \<Rightarrow> str_fits i
     | WNack i t nxt text blocked refund \<Rightarrow> str_fits i \<and> time_fits t \<and> time_fits nxt \<and> str_fits text \<and> str_fits blocked
     | WRelease i \<Rightarrow> str_fits i
     | WPark i t reason \<Rightarrow> str_fits i \<and> time_fits t \<and> str_fits reason
     | WRequeue i replace cp \<Rightarrow> str_fits i \<and> bytes_fit cp \<and> (\<not> replace \<longrightarrow> cp = None)
     | WDiscard i \<Rightarrow> str_fits i)"

lemma went_typ_range: "0 < went_typ x \<and> went_typ x < 256"
  by (cases x) (simp_all add: went_typ_def ent_defs)

text \<open>Every body decodes to what it was made of.\<close>

lemma decode_all_append:
  assumes "run_state dec (decoder_on body) = (x, decoder_on [])"
  shows "decode_all dec body = Inr x"
  using assms by (simp add: decode_all_def)

lemma decode_str: "str_fits i \<Longrightarrow> decode_all d_str (e_str i) = Inr i"
  by (intro decode_all_append str.decodes_end)

lemma decode_checkpoint: "str_fits i \<Longrightarrow> bytes_fit cp \<Longrightarrow> decode_all d_checkpoint (e_str i @ e_nullable cp) = Inr (i, cp)"
  by (intro decode_all_append) (simp add: d_checkpoint_def str.decodes nullable.decodes_end)

lemma decode_park: "str_fits i \<Longrightarrow> time_fits t \<Longrightarrow> str_fits reason \<Longrightarrow>
    decode_all d_park (e_str i @ e_time t @ e_str reason) = Inr (i, t, reason)"
  by (intro decode_all_append) (simp add: d_park_def str.decodes time.decodes str.decodes_end)

lemma d_flag:
  "run_state d_u8 (decoder_on (e_u8 (Suc 0) @ rest)) = (Suc 0, decoder_on rest)"
  "run_state d_u8 (decoder_on (e_u8 (Suc 0))) = (Suc 0, decoder_on [])"
  using u8.decodes [of "Suc 0"] u8.decodes_end [of "Suc 0"] by (simp_all add: is_byte_def)

lemma e_u8_nonempty [simp]: "e_u8 n @ xs \<noteq> []" "e_u8 n \<noteq> []"
  by (simp_all add: e_u8_def)

lemma decode_requeue:
  assumes "str_fits i" and "bytes_fit cp" and "\<not> replace \<longrightarrow> cp = None"
  shows "decode_all d_requeue (e_str i @ (if replace then e_u8 1 @ e_nullable cp else [])) = Inr (i, replace, cp)"
  using assms
  by (intro decode_all_append)
    (simp add: d_requeue_def str.decodes str.decodes_end d_flag nullable.decodes_end)

lemma decode_nack:
  assumes "str_fits i" and "time_fits t" and "time_fits nxt" and "str_fits text" and "str_fits blocked"
  shows "decode_all d_nack (e_str i @ e_time t @ e_time nxt @ e_str text @ e_str blocked @ (if refund then e_u8 1 else []))
    = Inr (i, t, nxt, text, blocked, refund)"
  using assms
  by (intro decode_all_append)
    (simp add: d_nack_def str.decodes str.decodes_end time.decodes d_flag)

lemma d_strs_append:
  "list_all str_fits ids \<Longrightarrow> run_state (d_strs (length ids) acc) (decoder_on (concat (map e_str ids) @ rest)) = (acc @ ids, decoder_on rest)"
  by (induction ids arbitrary: acc) (simp_all add: str.decodes)

lemma length_strs: "length ids \<le> length (concat (map e_str ids))"
proof (induction ids)
  case (Cons i ids)
  moreover have "1 \<le> length (e_str i)" using length_AppendUvarint [of "length i"] by (simp add: e_str_def e_uvarint_def)
  ultimately show ?case by simp
qed simp

lemma decode_lease_append:
  assumes "is_uint64 (length ids)" and "list_all str_fits ids"
  shows "decode_lease (e_uvarint (length ids) @ concat (map e_str ids)) = Inr ids"
proof -
  have "\<not> length (concat (map e_str ids)) < length ids" using length_strs [of ids] by simp
  then show ?thesis
    using d_strs_append [OF assms(2), of "[]" "[]"] by (simp add: decode_lease_def uvarint.decodes [OF assms(1)] del: length_concat)
qed

section \<open>Views\<close>

record lview =
  vItems :: "(string \<times> ptr) list"
  vSeq :: nat
  vNext :: ptr
  vAt :: "ptr \<Rightarrow> Record \<times> blobRef \<times> blobRef"

definition lview_of :: "machine \<Rightarrow> lview" where
  "lview_of m = \<lparr>vItems = items m, vSeq = seq m, vNext = nextPtr m,
     vAt = (\<lambda>p. (end_rec (rec_at m p), bodyRef (heap m p), ckptRef (heap m p)))\<rparr>"

definition v_upd :: "string \<Rightarrow> (Record \<times> blobRef \<times> blobRef \<Rightarrow> Record \<times> blobRef \<times> blobRef) \<Rightarrow> lview \<Rightarrow> lview" where
  "v_upd i f v = (case map_of (vItems v) i of None \<Rightarrow> v | Some p \<Rightarrow> v\<lparr>vAt := (vAt v)(p := f (vAt v p))\<rparr>)"

definition on_rec :: "(Record \<Rightarrow> Record) \<Rightarrow> Record \<times> blobRef \<times> blobRef \<Rightarrow> Record \<times> blobRef \<times> blobRef" where
  "on_rec f x = (f (fst x), snd x)"

definition nack_r :: "time \<Rightarrow> time \<Rightarrow> string \<Rightarrow> string \<Rightarrow> bool \<Rightarrow> Record \<Rightarrow> Record" where
  "nack_r t nxt text blocked refund r = r\<lparr>rState := Pending, rBlockedOn := (if blocked \<noteq> '''' then blocked else rBlockedOn r),
     rAttempts := (if refund \<and> 0 < rAttempts r then rAttempts r - 1 else rAttempts r),
     rLastFailed := t, rNextAttempt := nxt, rLastError := text\<rparr>"

definition release_r :: "Record \<Rightarrow> Record" where
  "release_r r = r\<lparr>rState := Pending, rAttempts := (if 0 < rAttempts r then rAttempts r - 1 else rAttempts r)\<rparr>"

definition park_r :: "time \<Rightarrow> string \<Rightarrow> Record \<Rightarrow> Record" where
  "park_r t reason r = r\<lparr>rState := Parked, rLastFailed := t, rLastError := reason\<rparr>"

definition requeue_r :: "Record \<Rightarrow> Record" where
  "requeue_r r = r\<lparr>rState := Pending, rAttempts := 0, rNextAttempt := zero_time\<rparr>"

definition lease_r :: "Record \<Rightarrow> Record" where
  "lease_r r = r\<lparr>rState := Pending, rAttempts := rAttempts r + 1\<rparr>"

definition strip :: "Record \<Rightarrow> Record" where
  "strip r = r\<lparr>rKey := None, rValue := None, rHeaders := [], rCheckpoint := None\<rparr>"

text \<open>A checkpoint goes into the record, or behind a reference to its entry when payloads are on disk.\<close>

definition ckpt_v :: "bool \<Rightarrow> bytes \<Rightarrow> blobRef \<Rightarrow> Record \<times> blobRef \<times> blobRef \<Rightarrow> Record \<times> blobRef \<times> blobRef" where
  "ckpt_v off cp ref x = (case x of (r, b, c) \<Rightarrow>
     if off then (r\<lparr>rCheckpoint := None\<rparr>, b, if cp = None then zero_ref else ref) else (r\<lparr>rCheckpoint := cp\<rparr>, b, zero_ref))"

definition v_state :: "lview \<Rightarrow> string \<Rightarrow> State option" where
  "v_state v i = map_option (\<lambda>p. rState (fst (vAt v p))) (map_of (vItems v) i)"

definition v_insert :: "bool \<Rightarrow> Record \<Rightarrow> blobRef \<Rightarrow> lview \<Rightarrow> lview" where
  "v_insert off r ref v =
     (if map_of (vItems v) (rID r) \<noteq> None then v
      else v\<lparr>vItems := AList.update (rID r) (vNext v) (vItems v), vSeq := max (vSeq v) (rSeq r), vNext := Suc (vNext v),
             vAt := (vAt v)(vNext v := (if off then (end_rec (strip r), ref, if rCheckpoint r \<noteq> None then ref else zero_ref)
                                       else (end_rec r, zero_ref, zero_ref)))\<rparr>)"

definition v_apply :: "bool \<Rightarrow> went \<Rightarrow> blobRef \<Rightarrow> lview \<Rightarrow> lview" where
  "v_apply off x ref v = (case x of
       WAppend r \<Rightarrow> v_insert off r ref v
     | WLease ids \<Rightarrow> fold (\<lambda>i. v_upd i (on_rec lease_r)) ids v
     | WCheckpoint i cp \<Rightarrow> v_upd i (ckpt_v off cp ref) v
     | WAck i \<Rightarrow> v\<lparr>vItems := AList.delete i (vItems v)\<rparr>
     | WNack i t nxt text blocked refund \<Rightarrow> v_upd i (on_rec (nack_r t nxt text blocked refund)) v
     | WRelease i \<Rightarrow> v_upd i (on_rec release_r) v
     | WPark i t reason \<Rightarrow> v_upd i (on_rec (park_r t reason)) v
     | WRequeue i replace cp \<Rightarrow>
         if v_state v i = Some Parked
         then v_upd i (\<lambda>x. (if replace then ckpt_v off cp ref else (\<lambda>y. y)) (on_rec requeue_r x)) v else v
     | WDiscard i \<Rightarrow> if v_state v i = Some Parked then v\<lparr>vItems := AList.delete i (vItems v)\<rparr> else v)"

section \<open>Operations on one item\<close>

lemma lview_sel [simp]:
  "vItems (lview_of m) = items m" "vSeq (lview_of m) = seq m" "vNext (lview_of m) = nextPtr m"
  "vAt (lview_of m) p = (end_rec (rec_at m p), bodyRef (heap m p), ckptRef (heap m p))"
  by (simp_all add: lview_of_def)

lemma end_rec_sel [simp]:
  "rID (end_rec r) = rID r" "rSeq (end_rec r) = rSeq r" "rAttempts (end_rec r) = rAttempts r" "rBlockedOn (end_rec r) = rBlockedOn r"
  "rOrderKey (end_rec r) = rOrderKey r" "rKey (end_rec r) = rKey r" "rValue (end_rec r) = rValue r" "rHeaders (end_rec r) = rHeaders r"
  "rCheckpoint (end_rec r) = rCheckpoint r" "rState (end_rec r) = Parked \<longleftrightarrow> rState r = Parked" "end_rec (end_rec r) = end_rec r"
  by (simp_all add: end_rec_def)

text \<open>\<open>item_acts p f m m'\<close>: from \<open>m\<close> to \<open>m'\<close> only the item at \<open>p\<close> changes, its view by \<open>f\<close>.\<close>

definition item_acts :: "ptr \<Rightarrow> (Record \<times> blobRef \<times> blobRef \<Rightarrow> Record \<times> blobRef \<times> blobRef) \<Rightarrow> machine \<Rightarrow> machine \<Rightarrow> bool" where
  "item_acts p f m m' \<longleftrightarrow> lview_of m' = (lview_of m)\<lparr>vAt := (vAt (lview_of m))(p := f (vAt (lview_of m) p))\<rparr>"

definition keeps_refs :: "machine \<Rightarrow> machine \<Rightarrow> bool" where
  "keeps_refs m m' \<longleftrightarrow> nextPtr m' = nextPtr m \<and> (\<forall>q. bodyRef (heap m' q) = bodyRef (heap m q) \<and> ckptRef (heap m' q) = ckptRef (heap m q))"

lemma keeps_refs_trans: "keeps_refs m1 m2 \<Longrightarrow> keeps_refs m2 m3 \<Longrightarrow> keeps_refs m1 m3"
  by (simp add: keeps_refs_def)

lemma keeps_refs_step:
  "keeps_refs m (upd_rec h p m)" "keeps_refs m (unlease p m)" "keeps_refs m (resize p m)"
  "keeps_refs m (upd_item (\<lambda>it. it\<lparr>token := tok, leaseUntil := u\<rparr>) p m)"
  by (auto simp: keeps_refs_def unlease_def resize_def upd_rec_def upd_item_def Let_def)

lemma keeps_refs_move: "index_ok m (set (order m)) \<Longrightarrow> p \<in> set (order m) \<Longrightarrow> keeps_refs m (move p s d m)"
  by (auto simp: keeps_refs_def move_heap moved_def)

lemma acts_item:
  assumes "acts p f m m'" and "keeps_refs m m'" and "end_rec (eRec (f (entry_at m p))) = g (end_rec (rec_at m p))"
  shows "item_acts p (on_rec g) m m'"
proof -
  have "rec_at m' q = (if q = p then eRec (f (entry_at m p)) else rec_at m q)" for q
    using assms(1) by (metis (full_types) acts_def entry_at_sel(1))
  then show ?thesis using assms unfolding item_acts_def lview_of_def
    by (auto simp: acts_def keeps_refs_def on_rec_def fun_eq_iff)
qed

lemma wf_index: "wf m \<Longrightarrow> index_ok m (set (order m))"
  using wfxD(4) unfolding wf_def by blast

lemma item_acts_Nack:
  assumes "wf m" and "p \<in> set (order m)"
  shows "item_acts p (on_rec (nack_r t nxt text blocked refund)) m (applyNack p t nxt text blocked refund m)"
proof (rule acts_item [OF acts_applyNack [OF assms]])
  show "keeps_refs m (applyNack p t nxt text blocked refund m)"
    unfolding applyNack_def Let_def
    by (rule keeps_refs_trans [OF keeps_refs_trans [OF keeps_refs_trans [OF keeps_refs_move [OF wf_index [OF assms(1)] assms(2)]
            keeps_refs_step(1)] keeps_refs_step(2)] keeps_refs_step(3)])
qed (simp add: e_nack_def nack_r_def end_rec_def)

lemma item_acts_Release:
  assumes "wf m" and "p \<in> set (order m)"
  shows "item_acts p (on_rec release_r) m (applyRelease p m)"
proof (rule acts_item [OF acts_applyRelease [OF assms]])
  show "keeps_refs m (applyRelease p m)"
    unfolding applyRelease_def
    by (rule keeps_refs_trans [OF keeps_refs_trans [OF keeps_refs_move [OF wf_index [OF assms(1)] assms(2)] keeps_refs_step(1)] keeps_refs_step(2)])
qed (simp add: e_release_def release_r_def end_rec_def)

lemma item_acts_Park:
  assumes "wf m" and "p \<in> set (order m)"
  shows "item_acts p (on_rec (park_r t reason)) m (applyPark p t reason m)"
proof (rule acts_item [OF acts_applyPark [OF assms]])
  show "keeps_refs m (applyPark p t reason m)"
    unfolding applyPark_def
    by (rule keeps_refs_trans [OF keeps_refs_trans [OF keeps_refs_trans [OF keeps_refs_move [OF wf_index [OF assms(1)] assms(2)]
            keeps_refs_step(1)] keeps_refs_step(2)] keeps_refs_step(3)])
qed (simp add: e_park_def park_r_def end_rec_def)

lemma item_acts_Requeue:
  assumes "wf m" and "p \<in> set (order m)"
  shows "item_acts p (on_rec requeue_r) m (applyRequeue p False None m)"
proof (rule acts_item [OF acts_applyRequeue [OF assms]])
  show "keeps_refs m (applyRequeue p False None m)"
    unfolding applyRequeue_def Let_def
    by simp (rule keeps_refs_trans [OF keeps_refs_move [OF wf_index [OF assms(1)] assms(2)] keeps_refs_step(1)])
qed (simp add: e_requeue_def requeue_r_def end_rec_def)

lemma item_acts_grant:
  assumes "wf m" and "p \<in> set (order m)"
  shows "item_acts p (on_rec lease_r) m (grant_one p tok now ttl m)"
proof (rule acts_item [OF acts_grant_one [OF assms]])
  let ?m = "upd_item (\<lambda>it. it\<lparr>token := tok, leaseUntil := now + ttl\<rparr>) p m"
  have "wfx ?m {p}" using wf_wfx [OF assms(1)] by (intro wfx_poke) (auto simp: keeps_core_def)
  then have "index_ok ?m (set (order ?m))" by (rule wfxD(4))
  then show "keeps_refs m (grant_one p tok now ttl m)"
    unfolding grant_one_def using assms(2)
    by (intro keeps_refs_trans [OF keeps_refs_trans [OF keeps_refs_step(4) keeps_refs_move] keeps_refs_step(1)]) auto
qed (simp add: e_grant_def lease_r_def end_rec_def)

lemma item_acts_replayLease:
  assumes "wf m" and "p \<in> set (order m)"
  shows "item_acts p (on_rec lease_r) m (move p Leased (rBlockedOn (rec_at m p)) (upd_rec (\<lambda>r. r\<lparr>rAttempts := rAttempts r + 1\<rparr>) p m))"
proof -
  let ?m = "upd_rec (\<lambda>r. r\<lparr>rAttempts := rAttempts r + 1\<rparr>) p m"
  have "wfx ?m {p}" using wf_wfx [OF assms(1)] by (intro wfx_upd_rec) (auto simp: keeps_rec_def)
  then have i: "index_ok ?m (set (order ?m))" by (rule wfxD(4))
  have k: "keeps_refs m (move p Leased (rBlockedOn (rec_at m p)) ?m)"
    using assms(2) by (intro keeps_refs_trans [OF keeps_refs_step(1) keeps_refs_move [OF i]]) simp
  have "rec_at (move p Leased (rBlockedOn (rec_at m p)) ?m) q = (if q = p then (rec_at m p)\<lparr>rState := Leased, rAttempts := rAttempts (rec_at m p) + 1\<rparr> else rec_at m q)" for q
    using assms(2) by (simp add: move_heap [OF i])
  then show ?thesis
    using k unfolding item_acts_def lview_of_def by (auto simp: keeps_refs_def fun_eq_iff on_rec_def lease_r_def end_rec_def)
qed

lemma item_acts_ckpt:
  "item_acts p (ckpt_v True cp ref) m (setCheckpointRef p n (if cp = None then zero_ref else ref) m)"
  "item_acts p (ckpt_v False cp ref) m (setCheckpoint p cp m)"
  by (auto simp: item_acts_def lview_of_def setCheckpointRef_def setCheckpoint_def resize_def upd_item_def Let_def ckpt_v_def
      fun_eq_iff end_rec_def)

lemma item_acts_setCheckpointAt:
  "item_acts p (ckpt_v (wOffload w) cp ref) (wM w) (wM (setCheckpointAt p cp ref w))"
  using item_acts_ckpt by (simp add: setCheckpointAt_def set_m_def)

lemma item_acts_comp: "item_acts p f m m1 \<Longrightarrow> item_acts p g m1 m2 \<Longrightarrow> item_acts p (\<lambda>x. g (f x)) m m2"
  by (auto simp: item_acts_def)

lemma item_acts_upd: "item_acts p f m m' \<Longrightarrow> lookup m i = Some p \<Longrightarrow> lview_of m' = v_upd i f (lview_of m)"
  by (simp add: item_acts_def v_upd_def lookup_def)

lemma v_upd_absent: "lookup m i = None \<Longrightarrow> v_upd i f (lview_of m) = lview_of m"
  by (simp add: v_upd_def lookup_def)

lemma v_state_lview: "v_state (lview_of m) i = Some Parked \<longleftrightarrow> (\<exists>p. lookup m i = Some p \<and> state_at m p = Parked)"
  by (auto simp: v_state_def lookup_def)

text \<open>An operation on the item of an identifier, as replay runs it.\<close>

lemma with_item_view:
  assumes "wf m" and "\<And>p. p \<in> set (order m) \<Longrightarrow> item_acts p f m (g p m)"
  shows "lview_of (with_item g i m) = v_upd i f (lview_of m)"
proof (cases "lookup m i")
  case None
  then show ?thesis by (simp add: with_item_def v_upd_absent)
next
  case (Some p)
  then show ?thesis
    using item_acts_upd [OF assms(2) Some] lookup_order [OF assms(1) Some] by (simp add: with_item_def)
qed

lemma delete_absent: "map_of xs i = None \<Longrightarrow> AList.delete i xs = xs"
  by (induction xs) (auto split: if_splits)

lemma remove_view:
  assumes "wf m" and "lookup m i = Some p"
  shows "lview_of (machine_remove p m) = (lview_of m)\<lparr>vItems := AList.delete i (items m)\<rparr>"
proof -
  have "bodyRef (heap (leaving p m) q) = bodyRef (heap m q) \<and> ckptRef (heap (leaving p m) q) = ckptRef (heap m q)" for q
    by (simp add: leaving_def unlink_heap)
  with lookup_order [OF assms] show ?thesis by (simp add: lview_of_def remove_sel fun_eq_iff)
qed

lemma insert_view:
  "lview_of (insertOffloaded r ref m) = v_insert True r ref (lview_of m)"
  "lview_of (machine_insert r m) = v_insert False r ref (lview_of m)"
proof -
  have enter: "lview_of (enter it m) = \<lparr>vItems = AList.update (rID (irec it)) (nextPtr m) (items m), vSeq = max (seq m) (rSeq (irec it)),
      vNext = Suc (nextPtr m), vAt = (vAt (lview_of m))(nextPtr m := (end_rec (irec it), bodyRef it, ckptRef it))\<rparr>" for it
  proof -
    have "bodyRef (heap (enter it m) (nextPtr m)) = bodyRef it" "ckptRef (heap (enter it m) (nextPtr m)) = ckptRef it"
      by (simp_all add: enter_def Let_def link_heap)
    then show ?thesis by (auto simp: lview_of_def enter_sel fun_eq_iff)
  qed
  show "lview_of (insertOffloaded r ref m) = v_insert True r ref (lview_of m)"
    by (auto simp: insertOffloaded_def v_insert_def lookup_def enter strip_def zero_item_def zero_ref_def)
  show "lview_of (machine_insert r m) = v_insert False r ref (lview_of m)"
    by (auto simp: machine_insert_def v_insert_def lookup_def enter zero_item_def)
qed

lemma insertRecord_view: "lview_of (wM (insertRecord r ref w)) = v_insert (wOffload w) r ref (lview_of (wM w))"
  using insert_view by (simp add: insertRecord_def set_m_def)

text \<open>Ending leases, reserving and choosing do not touch the view.\<close>

lemma end_lease_view:
  assumes "wf m" and "p \<in> set (order m)"
  shows "lview_of (end_lease p m) = lview_of m"
proof (cases "state_at m p = Leased")
  case True
  let ?n = "move p Pending (rBlockedOn (rec_at m p)) m"
  have h: "heap ?n = (heap m)(p := moved Pending (rBlockedOn (rec_at m p)) (heap m p))"
    by (rule move_heap [OF wf_index [OF assms(1)] assms(2)])
  have "end_rec ((rec_at m p)\<lparr>rState := Pending, rBlockedOn := rBlockedOn (rec_at m p)\<rparr>) = end_rec (rec_at m p)"
    using True by (simp add: end_rec_def)
  then show ?thesis using True
    by (auto simp: end_lease_def lview_of_def fun_eq_iff h unlease_def upd_item_def moved_def)
qed (simp add: end_lease_def)

lemma end_leases_view: "wf m \<Longrightarrow> set ps \<subseteq> set (order m) \<Longrightarrow> lview_of (fold end_lease ps m) = lview_of m"
  by (induction ps arbitrary: m) (auto simp: wf_end_lease end_lease_view)

lemma endReplay_view: "wf m \<Longrightarrow> lview_of (endReplay m) = lview_of m"
  by (simp add: endReplay_def end_leases_view)

lemma clear_wake_view [simp]: "lview_of (clear_wake d m) = lview_of m"
  by (simp add: lview_of_def clear_wake_def split: option.splits)

lemma reserve_view [simp]: "lview_of (reserve p m) = lview_of m" "lview_of (unreserve p m) = lview_of m"
proof -
  show "lview_of (reserve p m) = lview_of m" by (auto simp: lview_of_def reserve_def fun_eq_iff)
  have "lview_of (upd_item (\<lambda>it. it\<lparr>reserved := False\<rparr>) p m) = lview_of m" by (auto simp: lview_of_def fun_eq_iff)
  then show "lview_of (unreserve p m) = lview_of m"
    by (auto simp: unreserve_def Let_def split: option.split)
qed

section \<open>Replaying an entry\<close>

definition went_fresh :: "went \<Rightarrow> nat \<Rightarrow> bool" where
  "went_fresh x sq = (case x of WAppend r \<Rightarrow> sq < rSeq r | _ \<Rightarrow> True)"

lemma replayLease_view: "wf m \<Longrightarrow> lview_of (replayLease i m) = v_upd i (on_rec lease_r) (lview_of m)"
  unfolding replayLease_def by (rule with_item_view) (simp_all add: item_acts_replayLease)

lemma replayNack_view:
  "wf m \<Longrightarrow> lview_of (replayNack i t nxt text blocked refund m) = v_upd i (on_rec (nack_r t nxt text blocked refund)) (lview_of m)"
  unfolding replayNack_def by (rule with_item_view) (simp_all add: item_acts_Nack)

lemma replayRelease_view: "wf m \<Longrightarrow> lview_of (replayRelease i m) = v_upd i (on_rec release_r) (lview_of m)"
  unfolding replayRelease_def by (rule with_item_view) (simp_all add: item_acts_Release)

lemma replayPark_view: "wf m \<Longrightarrow> lview_of (replayPark i t reason m) = v_upd i (on_rec (park_r t reason)) (lview_of m)"
  unfolding replayPark_def by (rule with_item_view) (simp_all add: item_acts_Park)

lemma replayLeases_view:
  "wf m \<Longrightarrow> wf (fold replayLease ids m) \<and> lview_of (fold replayLease ids m) = fold (\<lambda>i. v_upd i (on_rec lease_r)) ids (lview_of m)"
  by (induction ids arbitrary: m) (simp_all add: wf_replayLease replayLease_view)

lemma replayAck_view: "wf m \<Longrightarrow> lview_of (replayAck i m) = (lview_of m)\<lparr>vItems := AList.delete i (items m)\<rparr>"
proof (cases "lookup m i")
  case None
  then have "AList.delete i (items m) = items m" by (intro delete_absent) (simp add: lookup_def)
  with None show ?thesis by (simp add: replayAck_def with_item_def lview_of_def)
qed (simp add: replayAck_def with_item_def remove_view)

lemma replayDiscard_view:
  "wf m \<Longrightarrow> lview_of (replayDiscard i m) =
     (if v_state (lview_of m) i = Some Parked then (lview_of m)\<lparr>vItems := AList.delete i (items m)\<rparr> else lview_of m)"
  by (cases "lookup m i") (auto simp: replayDiscard_def with_item_def remove_view v_state_lview)

lemma set_m_eq: "set_m m w = w\<lparr>wM := m\<rparr>"
  by (simp add: set_m_def)

lemma wf_setCheckpointAt:
  assumes "wf (wM w)" and "p \<in> set (order (wM w))"
  shows "wf (wM (setCheckpointAt p cp ref w))"
  using wf_setCheckpoint [OF assms] by (simp add: setCheckpointAt_def set_m_def)

lemma insertRecord_wf:
  assumes "wf (wM w)" and "seq (wM w) < rSeq r" and "rState r \<in> {Pending, Leased, Parked}"
  shows "wf (wM (insertRecord r ref w))"
  using assms wf_machine_insert wf_insertOffloaded by (simp add: insertRecord_def set_m_def)

lemma setCheckpointAt_frame: "setCheckpointAt p cp ref w = w\<lparr>wM := wM (setCheckpointAt p cp ref w)\<rparr>"
  by (simp add: setCheckpointAt_def set_m_def)

lemma insertRecord_frame: "insertRecord r ref w = w\<lparr>wM := wM (insertRecord r ref w)\<rparr>"
  by (simp add: insertRecord_def set_m_def)

lemma replayCheckpoint_view:
  fixes i :: string and cp :: bytes and ref :: blobRef
  assumes "wf (wM w)"
  defines "w' \<equiv> replayCheckpoint i cp ref w"
  shows "w' = w\<lparr>wM := wM w'\<rparr> \<and> wf (wM w') \<and> lview_of (wM w') = v_upd i (ckpt_v (wOffload w) cp ref) (lview_of (wM w))"
proof (cases "lookup (wM w) i")
  case None
  then show ?thesis using assms by (simp add: replayCheckpoint_def v_upd_absent)
next
  case (Some p)
  note p = lookup_order [OF assms(1) Some]
  have w': "w' = setCheckpointAt p cp ref w" using Some by (simp add: w'_def replayCheckpoint_def)
  show ?thesis
    unfolding w' using item_acts_upd [OF item_acts_setCheckpointAt Some, of cp ref] wf_setCheckpointAt [OF assms(1), of p cp ref] p
      setCheckpointAt_frame by auto
qed

text \<open>The change a requeue makes to a parked item, as the live store and as replay make it.\<close>

lemma requeue_view:
  fixes i :: string and cp :: bytes and ref :: blobRef and replace :: bool and p :: ptr
  assumes "wf (wM w)" and "lookup (wM w) i = Some p"
  defines "w1 \<equiv> set_m (applyRequeue p False None (wM w)) w"
  defines "w2 \<equiv> (if replace then setCheckpointAt p cp ref w1 else w1)"
  shows "w2 = w\<lparr>wM := wM w2\<rparr> \<and> wf (wM w2)
    \<and> lview_of (wM w2) = v_upd i (\<lambda>x. (if replace then ckpt_v (wOffload w) cp ref else (\<lambda>y. y)) (on_rec requeue_r x)) (lview_of (wM w))"
proof -
  note p = lookup_order [OF assms(1,2)]
  have wf1: "wf (wM w1)" using wf_applyRequeue [OF assms(1), of p] p by (simp add: w1_def set_m_def)
  have o1: "order (wM w1) = order (wM w)" using acts_applyRequeue [OF assms(1), of p False None] p
    by (simp add: w1_def set_m_def acts_def)
  have a: "item_acts p (on_rec requeue_r) (wM w) (wM w1)" using item_acts_Requeue [OF assms(1)] p by (simp add: w1_def set_m_def)
  show ?thesis
  proof (cases replace)
    case True
    have "item_acts p (\<lambda>x. ckpt_v (wOffload w1) cp ref (on_rec requeue_r x)) (wM w) (wM (setCheckpointAt p cp ref w1))"
      by (rule item_acts_comp [OF a item_acts_setCheckpointAt])
    moreover have "wOffload w1 = wOffload w" by (simp add: w1_def set_m_def)
    moreover have "setCheckpointAt p cp ref w1 = w\<lparr>wM := wM (setCheckpointAt p cp ref w1)\<rparr>"
      by (subst setCheckpointAt_frame) (simp add: w1_def set_m_def)
    ultimately show ?thesis
      using True item_acts_upd [OF _ assms(2)] wf_setCheckpointAt [OF wf1] p o1 by (simp add: w2_def)
  next
    case False
    then show ?thesis using item_acts_upd [OF a assms(2)] wf1 by (simp add: w2_def w1_def set_m_def)
  qed
qed

lemma replayRequeue_view:
  fixes i :: string and cp :: bytes and ref :: blobRef and replace :: bool
  assumes "wf (wM w)"
  defines "w' \<equiv> replayRequeue i replace cp ref w"
  shows "w' = w\<lparr>wM := wM w'\<rparr> \<and> wf (wM w') \<and> lview_of (wM w') = v_apply (wOffload w) (WRequeue i replace cp) ref (lview_of (wM w))"
proof (cases "v_state (lview_of (wM w)) i = Some Parked")
  case True
  then obtain p where p: "lookup (wM w) i = Some p" "state_at (wM w) p = Parked" by (auto simp: v_state_lview)
  with True requeue_view [OF assms(1) p(1), of replace cp ref] show ?thesis
    by (simp add: w'_def replayRequeue_def v_apply_def Let_def)
next
  case False
  then have "w' = w" by (auto simp: w'_def replayRequeue_def v_state_lview split: option.split)
  with False assms(1) show ?thesis by (simp add: v_apply_def)
qed

lemma on_m_entry:
  assumes "applyEntry fr ref w = Inr (on_m f w)" and "wf (f (wM w))" and "lview_of (f (wM w)) = v"
  shows "\<exists>m'. applyEntry fr ref w = Inr (w\<lparr>wM := m'\<rparr>) \<and> wf m' \<and> lview_of m' = v"
  using assms by (auto simp: on_m_def set_m_def)

lemma applyEntry_view:
  assumes m: "wf (wM w)" and x: "went_fits x" "went_fresh x (seq (wM w))" and fr: "frTyp fr = went_typ x" "frBody fr = went_body x"
  shows "\<exists>m'. applyEntry fr ref w = Inr (w\<lparr>wM := m'\<rparr>) \<and> wf m' \<and> lview_of m' = v_apply (wOffload w) x ref (lview_of (wM w))"
proof (cases x)
  case (WAppend r)
  then have r: "record_fits r" "rState r \<noteq> Leased" "seq (wM w) < rSeq r" using x by (simp_all add: went_fits_def went_fresh_def)
  have "decode_all decodeRecord (frBody fr) = Inr r"
    using recordc.decodes_end [OF r(1)] WAppend fr by (intro decode_all_append) (simp add: went_body_def)
  then have "applyEntry fr ref w = Inr (insertRecord r ref w)"
    using WAppend fr r(2) by (simp add: applyEntry_def Let_def went_typ_def)
  moreover have "rState r \<in> {Pending, Leased, Parked}" using r(1) by (simp add: record_fits_def)
  ultimately show ?thesis
    using insertRecord_frame [of r ref w] insertRecord_wf [OF m r(3)] insertRecord_view [of r ref w] WAppend by (auto simp: v_apply_def)
next
  case (WLease ids)
  then have "decode_lease (frBody fr) = Inr ids"
    using x fr by (simp add: went_fits_def went_body_def decode_lease_append)
  then show ?thesis
    using WLease fr replayLeases_view [OF m, of ids]
    by (intro on_m_entry [where f = "fold replayLease ids"])
      (simp_all add: applyEntry_def Let_def went_typ_def ent_defs apply_decoded_def v_apply_def)
next
  case (WCheckpoint i cp)
  then have "decode_all d_checkpoint (frBody fr) = Inr (i, cp)"
    using x fr by (simp add: went_fits_def went_body_def decode_checkpoint)
  then show ?thesis
    using WCheckpoint fr replayCheckpoint_view [OF m, of i cp ref]
    by (simp add: applyEntry_def Let_def went_typ_def ent_defs apply_decoded_def v_apply_def) metis
next
  case (WRequeue i replace cp)
  then have "decode_all d_requeue (frBody fr) = Inr (i, replace, cp)"
    using x fr decode_requeue [of i cp replace] by (simp add: went_fits_def went_body_def)
  then show ?thesis
    using WRequeue fr replayRequeue_view [OF m, of i replace cp ref]
    by (simp add: applyEntry_def Let_def went_typ_def ent_defs apply_decoded_def) metis
next
  case (WAck i)
  then have "decode_all d_str (frBody fr) = Inr i" using x fr by (simp add: went_fits_def went_body_def decode_str)
  then show ?thesis
    using WAck fr wf_replay(1) [OF m] replayAck_view [OF m]
    by (intro on_m_entry [where f = "replayAck i"])
      (simp_all add: applyEntry_def Let_def went_typ_def ent_defs apply_decoded_def v_apply_def)
next
  case (WRelease i)
  then have "decode_all d_str (frBody fr) = Inr i" using x fr by (simp add: went_fits_def went_body_def decode_str)
  then show ?thesis
    using WRelease fr wf_replay(3) [OF m] replayRelease_view [OF m]
    by (intro on_m_entry [where f = "replayRelease i"])
      (simp_all add: applyEntry_def Let_def went_typ_def ent_defs apply_decoded_def v_apply_def)
next
  case (WDiscard i)
  then have "decode_all d_str (frBody fr) = Inr i" using x fr by (simp add: went_fits_def went_body_def decode_str)
  then show ?thesis
    using WDiscard fr wf_replay(5) [OF m] replayDiscard_view [OF m]
    by (intro on_m_entry [where f = "replayDiscard i"])
      (simp_all add: applyEntry_def Let_def went_typ_def ent_defs apply_decoded_def v_apply_def)
next
  case (WNack i t nxt why blocked refund)
  then have "decode_all d_nack (frBody fr) = Inr (i, t, nxt, why, blocked, refund)"
    using x fr decode_nack [of i t nxt why blocked refund] by (simp add: went_fits_def went_body_def)
  then show ?thesis
    using WNack fr wf_replay(2) [OF m] replayNack_view [OF m]
    by (intro on_m_entry [where f = "replayNack i t nxt why blocked refund"])
      (simp_all add: applyEntry_def Let_def went_typ_def ent_defs apply_decoded_def v_apply_def)
next
  case (WPark i t reason)
  then have "decode_all d_park (frBody fr) = Inr (i, t, reason)"
    using x fr by (simp add: went_fits_def went_body_def decode_park)
  then show ?thesis
    using WPark fr wf_replay(4) [OF m] replayPark_view [OF m]
    by (intro on_m_entry [where f = "replayPark i t reason"])
      (simp_all add: applyEntry_def Let_def went_typ_def ent_defs apply_decoded_def v_apply_def)
qed

end
