(* ===== verification/GG_Wal_Log.thy ===== *)
theory GG_Wal_Log
  imports GG_Wal_View
begin

text \<open>
  How a log lies on disk, and what recovery makes of it.  A segment file is a header and the frames of consecutive
  entries; \<open>placed\<close> pairs every entry with the reference to its frame.  Replaying a segment applies its entries to the
  view in order; frames that are cut off are reported as torn and removed.  Signing is off throughout.
\<close>

section \<open>Content as a function of the view\<close>

definition view_item :: "Record \<times> blobRef \<times> blobRef \<Rightarrow> memItem" where
  "view_item x = zero_item\<lparr>irec := fst x, bodyRef := fst (snd x), ckptRef := snd (snd x)\<rparr>"

definition view_content :: "WALStore \<Rightarrow> lview \<Rightarrow> string \<rightharpoonup> Record" where
  "view_content w v i = (case map_of (vItems v) i of None \<Rightarrow> None
     | Some p \<Rightarrow> (case hydrate (\<lambda>_. ok) w (view_item (vAt v p)) of Inl _ \<Rightarrow> None | Inr r \<Rightarrow> Some (end_rec r)))"

lemma end_rec_upd [simp]:
  "end_rec (r\<lparr>rKey := a\<rparr>) = (end_rec r)\<lparr>rKey := a\<rparr>" "end_rec (r\<lparr>rValue := a\<rparr>) = (end_rec r)\<lparr>rValue := a\<rparr>"
  "end_rec (r\<lparr>rHeaders := h\<rparr>) = (end_rec r)\<lparr>rHeaders := h\<rparr>" "end_rec (r\<lparr>rCheckpoint := a\<rparr>) = (end_rec r)\<lparr>rCheckpoint := a\<rparr>"
  by (simp_all add: end_rec_def)

lemma hydrate_view:
  "hydrate rd w (view_item (end_rec (irec it), bodyRef it, ckptRef it)) = map_sum (\<lambda>e. e) end_rec (hydrate rd w it)"
  by (simp add: hydrate_def Let_def view_item_def split: sum.split)

lemma wal_content_view: "wal_content w = view_content w (lview_of (wM w))"
proof
  fix i
  show "wal_content w i = view_content w (lview_of (wM w)) i"
  proof (cases "lookup (wM w) i")
    case None
    then show ?thesis by (simp add: wal_content_def view_content_def lookup_def)
  next
    case (Some p)
    then show ?thesis
      using hydrate_view [of "\<lambda>_. ok" w "heap (wM w) p"]
      by (cases "hydrate (\<lambda>_. ok) w (heap (wM w) p)") (simp_all add: wal_content_def view_content_def lookup_def)
  qed
qed

text \<open>Only the options and the directory matter, and of the directory only what references of the view read.\<close>

definition same_reads :: "WALStore \<Rightarrow> WALStore \<Rightarrow> blobRef \<Rightarrow> bool" where
  "same_reads w w' ref \<longleftrightarrow> valid_ref ref \<longrightarrow> loadFrame (\<lambda>_. ok) w ref = loadFrame (\<lambda>_. ok) w' ref"

lemma hydrate_cong:
  assumes "same_reads w w' (bodyRef it)" and "same_reads w w' (ckptRef it)"
  shows "hydrate (\<lambda>_. ok) w it = hydrate (\<lambda>_. ok) w' it"
proof -
  have "loadRecord (\<lambda>_. ok) w ref i = loadRecord (\<lambda>_. ok) w' ref i" if "same_reads w w' ref" "valid_ref ref" for ref i
    using that by (simp add: loadRecord_def same_reads_def)
  moreover have "loadCheckpoint (\<lambda>_. ok) w ref i = loadCheckpoint (\<lambda>_. ok) w' ref i" if "same_reads w w' ref" "valid_ref ref" for ref i
    using that calculation [OF that] by (simp add: loadCheckpoint_def same_reads_def)
  ultimately show ?thesis using assms by (auto simp: hydrate_def Let_def split: sum.split)
qed

text \<open>All references of a view are in a set.\<close>

definition refs_in :: "lview \<Rightarrow> blobRef set \<Rightarrow> bool" where
  "refs_in v R \<longleftrightarrow> (\<forall>p. fst (snd (vAt v p)) \<in> R \<union> {zero_ref} \<and> snd (snd (vAt v p)) \<in> R \<union> {zero_ref})"

lemma refs_inD: "refs_in v R \<Longrightarrow> fst (snd (vAt v p)) \<in> R \<union> {zero_ref} \<and> snd (snd (vAt v p)) \<in> R \<union> {zero_ref}"
  by (simp add: refs_in_def)

lemma zero_ref_invalid [simp]: "\<not> valid_ref zero_ref"
  by (simp add: valid_ref_def zero_ref_def)

lemma view_content_cong:
  assumes "refs_in v R" and "\<And>ref. ref \<in> R \<Longrightarrow> same_reads w w' ref"
  shows "view_content w v = view_content w' v"
proof
  fix i
  have "hydrate (\<lambda>_. ok) w (view_item (vAt v p)) = hydrate (\<lambda>_. ok) w' (view_item (vAt v p))" for p
    using refs_inD [OF assms(1), of p] assms(2) by (intro hydrate_cong) (auto simp: view_item_def same_reads_def)
  then show "view_content w v i = view_content w' v i" by (simp add: view_content_def split: option.split)
qed

lemma refs_in_mono: "refs_in v R \<Longrightarrow> R \<subseteq> S \<Longrightarrow> refs_in v S"
  by (auto simp: refs_in_def)

lemma refs_in_upd:
  assumes "refs_in v R" and "\<And>x. fst (snd x) \<in> R \<union> {zero_ref} \<and> snd (snd x) \<in> R \<union> {zero_ref} \<Longrightarrow>
    fst (snd (f x)) \<in> R \<union> {zero_ref} \<and> snd (snd (f x)) \<in> R \<union> {zero_ref}"
  shows "refs_in (v_upd i f v) R"
proof (cases "map_of (vItems v) i")
  case (Some p)
  then show ?thesis
    using assms(1) assms(2) [OF refs_inD [OF assms(1), of p]] by (simp add: v_upd_def refs_in_def)
qed (use assms in \<open>simp add: v_upd_def\<close>)

lemma refs_in_on_rec: "refs_in v R \<Longrightarrow> refs_in (v_upd i (on_rec g) v) R"
  by (rule refs_in_upd) (auto simp: on_rec_def)

lemma refs_in_apply:
  assumes "refs_in v R"
  shows "refs_in (v_apply off x ref v) (insert ref R)"
proof -
  have R: "refs_in v (insert ref R)" by (rule refs_in_mono [OF assms]) blast
  have ck: "refs_in (v_upd i (\<lambda>x. ckpt_v off cp ref (on_rec g x)) v) (insert ref R)" for i cp g
    by (rule refs_in_upd [OF R]) (auto simp: ckpt_v_def on_rec_def split: prod.splits if_splits)
  have del: "refs_in (v\<lparr>vItems := its\<rparr>) (insert ref R)" for its using R by (simp add: refs_in_def)
  show ?thesis
  proof (cases x)
    case (WAppend r)
    with R show ?thesis by (simp add: v_apply_def v_insert_def refs_in_def)
  next
    case (WLease ids)
    have "refs_in (fold (\<lambda>i. v_upd i (on_rec lease_r)) ids u) (insert ref R)" if "refs_in u (insert ref R)" for u
      using that by (induction ids arbitrary: u) (simp_all add: refs_in_on_rec)
    with WLease R show ?thesis by (simp add: v_apply_def)
  next
    case (WCheckpoint i cp)
    have "(\<lambda>x. ckpt_v off cp ref (on_rec (\<lambda>r. r) x)) = ckpt_v off cp ref" by (simp add: on_rec_def)
    with ck [of i cp "\<lambda>r. r"] WCheckpoint show ?thesis by (simp add: v_apply_def)
  next
    case (WRequeue i replace cp)
    then show ?thesis using R ck [of i cp requeue_r] refs_in_on_rec [OF R, of i requeue_r]
      by (cases replace) (simp_all add: v_apply_def)
  qed (use R del in \<open>simp_all add: v_apply_def refs_in_on_rec\<close>)
qed

section \<open>Layout\<close>

definition frame_of :: "nat \<Rightarrow> went \<Rightarrow> string" where
  "frame_of lsn x = appendFrame [] lsn (went_typ x) (went_body x)"

fun frames :: "nat \<Rightarrow> went list \<Rightarrow> string" where
  "frames lsn [] = []"
| "frames lsn (x # xs) = frame_of lsn x @ frames (Suc lsn) xs"

definition seg_image :: "nat \<Rightarrow> went list \<Rightarrow> string" where
  "seg_image k es = encodeHeaderFlags walMagic k 0 @ frames k es"

definition mk_ref :: "nat \<Rightarrow> nat \<Rightarrow> nat \<Rightarrow> went \<Rightarrow> blobRef" where
  "mk_ref k pos lsn x = \<lparr>brKind = went_typ x, brSigned = False, brSnap = False, brFile = k, brOff = int pos,
     brN = int32 (int (length (frame_of lsn x)))\<rparr>"

fun placed :: "nat \<Rightarrow> nat \<Rightarrow> nat \<Rightarrow> went list \<Rightarrow> (went \<times> blobRef) list" where
  "placed k pos lsn [] = []"
| "placed k pos lsn (x # xs) = (x, mk_ref k pos lsn x) # placed k (pos + length (frame_of lsn x)) (Suc lsn) xs"

text \<open>The views after each entry, the last of them, and that every entry is what the store would log there.\<close>

fun v_trace :: "bool \<Rightarrow> (went \<times> blobRef) list \<Rightarrow> lview \<Rightarrow> lview list" where
  "v_trace off [] v = []"
| "v_trace off (e # es) v = (let v' = v_apply off (fst e) (snd e) v in v' # v_trace off es v')"

fun v_run :: "bool \<Rightarrow> (went \<times> blobRef) list \<Rightarrow> lview \<Rightarrow> lview" where
  "v_run off [] v = v"
| "v_run off (e # es) v = v_run off es (v_apply off (fst e) (snd e) v)"

fun v_ok :: "bool \<Rightarrow> (went \<times> blobRef) list \<Rightarrow> lview \<Rightarrow> bool" where
  "v_ok off [] v \<longleftrightarrow> True"
| "v_ok off (e # es) v \<longleftrightarrow> went_fits (fst e) \<and> went_fresh (fst e) (vSeq v) \<and> v_ok off es (v_apply off (fst e) (snd e) v)"

lemma frames_append: "frames lsn (xs @ ys) = frames lsn xs @ frames (lsn + length xs) ys"
  by (induction xs arbitrary: lsn) simp_all

lemma placed_append: "placed k pos lsn (xs @ ys) = placed k pos lsn xs @ placed k (pos + length (frames lsn xs)) (lsn + length xs) ys"
  by (induction xs arbitrary: pos lsn) (simp_all add: add.assoc)

lemma length_placed [simp]: "length (placed k pos lsn es) = length es"
  by (induction es arbitrary: pos lsn) simp_all

lemma map_fst_placed [simp]: "map fst (placed k pos lsn es) = es"
  by (induction es arbitrary: pos lsn) simp_all

lemma v_run_append: "v_run off (xs @ ys) v = v_run off ys (v_run off xs v)"
  by (induction xs arbitrary: v) simp_all

lemma v_trace_append: "v_trace off (xs @ ys) v = v_trace off xs v @ v_trace off ys (v_run off xs v)"
  by (induction xs arbitrary: v) (simp_all add: Let_def)

lemma v_ok_append: "v_ok off (xs @ ys) v \<longleftrightarrow> v_ok off xs v \<and> v_ok off ys (v_run off xs v)"
  by (induction xs arbitrary: v) auto

lemma length_v_trace [simp]: "length (v_trace off es v) = length es"
  by (induction es arbitrary: v) (simp_all add: Let_def)

definition entry_small :: "int \<Rightarrow> went \<Rightarrow> bool" where
  "entry_small mx x \<longleftrightarrow> int (length (went_body x)) \<le> mx"

lemma frame_of_nonempty [simp]: "frame_of lsn x \<noteq> []"
  by (simp add: frame_of_def)

lemma length_frame_of: "length (frame_of lsn x) = frameOverhead + frameMeta + length (went_body x)"
  by (simp add: frame_of_def)

lemma small_fits: "entry_small mx x \<Longrightarrow> mx \<le> 2 ^ 30 \<Longrightarrow> frame_fits mx (went_body x)"
  by (simp add: entry_small_def frame_fits_def frameMeta_def)

lemma small_length: "entry_small mx x \<Longrightarrow> mx \<le> 2 ^ 30 \<Longrightarrow> int32 (int (length (frame_of lsn x))) = int (length (frame_of lsn x))"
  by (simp add: entry_small_def length_frame_of frameMeta_def frameOverhead_def is_int32_def)

lemma read_frame_of:
  assumes "entry_small mx x" and "mx \<le> 2 ^ 30" and "lsn < 2 ^ 64"
  shows "readFrame (frame_of lsn x @ rest) (int (length (frame_of lsn x @ rest))) mx =
    Inr (\<lparr>frLsn = lsn, frTyp = went_typ x, frBody = went_body x, frSize = int (length (frame_of lsn x))\<rparr>, rest)"
  unfolding frame_of_def
  using readFrame_append [OF small_fits [OF assms(1,2)] assms(3), of "went_typ x"] went_typ_range [of x] by simp

text \<open>The options and the directory are all that contents depend on besides the view.\<close>

lemma loadFrame_cong: "wOpts w = wOpts w' \<Longrightarrow> wDisk w = wDisk w' \<Longrightarrow> loadFrame rd w ref = loadFrame rd w' ref"
proof -
  assume a: "wOpts w = wOpts w'" "wDisk w = wDisk w'"
  show ?thesis unfolding loadFrame_def a ..
qed

lemma view_content_store: "wOpts w = wOpts w' \<Longrightarrow> wDisk w = wDisk w' \<Longrightarrow> view_content w = view_content w'"
proof
  fix v
  assume a: "wOpts w = wOpts w'" "wDisk w = wDisk w'"
  have "refs_in v UNIV" by (simp add: refs_in_def)
  then show "view_content w v = view_content w' v"
    by (rule view_content_cong) (simp add: same_reads_def loadFrame_cong [OF a])
qed

section \<open>Replaying segments\<close>

text \<open>\<open>advanced w w' ps\<close>: the entries \<open>ps\<close> were applied, and their contents noted.\<close>

definition advanced :: "WALStore \<Rightarrow> WALStore \<Rightarrow> (went \<times> blobRef) list \<Rightarrow> bool" where
  "advanced w w' ps \<longleftrightarrow> (\<exists>m rr. w' = w\<lparr>wM := m, wRecovery := rr,
       wHist := wHist w @ map (view_content w) (v_trace (wOffload w) ps (lview_of (wM w)))\<rparr>
     \<and> wf m \<and> lview_of m = v_run (wOffload w) ps (lview_of (wM w)))"

lemma advanced_refl: "wf (wM w) \<Longrightarrow> advanced w w []"
  unfolding advanced_def by (rule exI [of _ "wM w"], rule exI [of _ "wRecovery w"]) simp

lemma advanced_trans:
  assumes "advanced w w1 ps" and "advanced w1 w2 qs"
  shows "advanced w w2 (ps @ qs)"
proof -
  obtain m1 rr1 where w1: "w1 = w\<lparr>wM := m1, wRecovery := rr1,
      wHist := wHist w @ map (view_content w) (v_trace (wOffload w) ps (lview_of (wM w)))\<rparr>"
    and l1: "lview_of m1 = v_run (wOffload w) ps (lview_of (wM w))" using assms(1) by (auto simp: advanced_def)
  have c: "view_content w1 = view_content w" by (rule view_content_store) (simp_all add: w1)
  obtain m2 rr2 where "w2 = w1\<lparr>wM := m2, wRecovery := rr2,
      wHist := wHist w1 @ map (view_content w1) (v_trace (wOffload w1) qs (lview_of (wM w1)))\<rparr>"
    and "wf m2" "lview_of m2 = v_run (wOffload w1) qs (lview_of (wM w1))" using assms(2) by (auto simp: advanced_def)
  then show ?thesis
    unfolding c unfolding advanced_def w1
    by (intro exI [of _ m2] exI [of _ rr2]) (simp add: l1 v_run_append v_trace_append)
qed

lemma advanced_sel:
  assumes "advanced w w' ps"
  shows "wOpts w' = wOpts w" "wDisk w' = wDisk w" "wOffload w' = wOffload w" "wSnapLSN w' = wSnapLSN w" "wf (wM w')"
    "wLastSegSigned w' = wLastSegSigned w"
    "lview_of (wM w') = v_run (wOffload w) ps (lview_of (wM w))"
    "wHist w' = wHist w @ map (view_content w) (v_trace (wOffload w) ps (lview_of (wM w)))"
  using assms by (auto simp: advanced_def)

lemma advanced_entry:
  assumes m: "wf (wM w)" and x: "went_fits x" "went_fresh x (vSeq (lview_of (wM w)))"
    and fr: "frTyp fr = went_typ x" "frBody fr = went_body x"
  shows "\<exists>w'. applyEntry fr ref w = Inr w' \<and> (\<forall>rr. advanced w (noted (w'\<lparr>wRecovery := rr\<rparr>)) [(x, ref)])"
proof -
  obtain m' where m': "applyEntry fr ref w = Inr (w\<lparr>wM := m'\<rparr>)" "wf m'" "lview_of m' = v_apply (wOffload w) x ref (lview_of (wM w))"
    using applyEntry_view [OF m x(1) _ fr] x(2) by auto
  have "noted (w\<lparr>wM := m', wRecovery := rr\<rparr>) = w\<lparr>wM := m', wRecovery := rr,
      wHist := wHist w @ map (view_content w) (v_trace (wOffload w) [(x, ref)] (lview_of (wM w)))\<rparr>" for rr
  proof -
    let ?w = "w\<lparr>wM := m', wRecovery := rr\<rparr>"
    have "wal_content ?w = view_content w (lview_of m')"
      unfolding wal_content_view by (simp add: view_content_store [of ?w w])
    then show ?thesis using m'(3) by (simp add: noted_def)
  qed
  with m' show ?thesis by (auto simp: advanced_def)
qed

text \<open>Reading on after the entries at the front of a segment.\<close>

lemma replay_frames_entries:
  assumes "woSigner (wOpts w) = None" and "woMaxEntryBytes (wOpts w) \<le> 2 ^ 30" and "wSnapLSN w < lsn" and "lsn + length es \<le> 2 ^ 64"
    and "list_all (entry_small (woMaxEntryBytes (wOpts w))) es" and "wf (wM w)"
    and "v_ok (wOffload w) (placed k pos lsn es) (lview_of (wM w))"
  shows "\<exists>w'. replay_frames e k isLast False pos lsn (frames lsn es @ rest) w
      = replay_frames e k isLast False (pos + length (frames lsn es)) (lsn + length es) rest w'
    \<and> advanced w w' (placed k pos lsn es)"
  using assms
proof (induction es arbitrary: w pos lsn)
  case Nil
  then show ?case using advanced_refl by auto
next
  case (Cons x es)
  let ?fr = "\<lparr>frLsn = lsn, frTyp = went_typ x, frBody = went_body x, frSize = int (length (frame_of lsn x))\<rparr>"
  let ?pos = "pos + length (frame_of lsn x)"
  have small: "entry_small (woMaxEntryBytes (wOpts w)) x" and lsn: "lsn < 2 ^ 64" using Cons.prems by auto
  note rd = read_frame_of [OF small Cons.prems(2) lsn, of "frames (Suc lsn) es @ rest"]
  obtain w1 where w1: "applyEntry ?fr (mk_ref k pos lsn x) w = Inr w1"
      "advanced w (noted (w1\<lparr>wRecovery := (wRecovery w1)\<lparr>rrEntries := rrEntries (wRecovery w1) + 1\<rparr>\<rparr>)) [(x, mk_ref k pos lsn x)]"
    using advanced_entry [of w x ?fr "mk_ref k pos lsn x"] Cons.prems(6,7) by auto
  define w2 where "w2 = noted (w1\<lparr>wRecovery := (wRecovery w1)\<lparr>rrEntries := rrEntries (wRecovery w1) + 1\<rparr>\<rparr>)"
  note sel = advanced_sel [OF w1(2), folded w2_def]
  have step: "replay_frames e k isLast False pos lsn (frame_of lsn x @ frames (Suc lsn) es @ rest) w
      = replay_frames e k isLast False ?pos (Suc lsn) (frames (Suc lsn) es @ rest) w2"
    using w1(1) Cons.prems(3) rd by (subst replay_frames.simps) (simp add: openBody_def mk_ref_def w2_def)
  have "\<exists>w'. replay_frames e k isLast False ?pos (Suc lsn) (frames (Suc lsn) es @ rest) w2
      = replay_frames e k isLast False (?pos + length (frames (Suc lsn) es)) (Suc lsn + length es) rest w'
    \<and> advanced w2 w' (placed k ?pos (Suc lsn) es)"
    using Cons.prems sel by (intro Cons.IH) auto
  then obtain w' where w': "replay_frames e k isLast False ?pos (Suc lsn) (frames (Suc lsn) es @ rest) w2
      = replay_frames e k isLast False (?pos + length (frames (Suc lsn) es)) (Suc lsn + length es) rest w'"
    "advanced w2 w' (placed k ?pos (Suc lsn) es)" by blast
  have "advanced w w' (placed k pos lsn (x # es))"
    using advanced_trans [OF w1(2) [folded w2_def] w'(2)] by simp
  with step w'(1) show ?case by (auto simp: add.assoc)
qed

section \<open>Reading entries back\<close>

text \<open>\<open>holds w k pre lsn es\<close>: the file \<open>k\<close> holds \<open>pre\<close>, then the frames of \<open>es\<close>, then anything.\<close>

definition holds :: "WALStore \<Rightarrow> nat \<Rightarrow> nat \<Rightarrow> nat \<Rightarrow> went list \<Rightarrow> bool" where
  "holds w k pos lsn es \<longleftrightarrow> (\<exists>pre junk. map_of (dSegs (wDisk w)) k = Some (pre @ frames lsn es @ junk) \<and> length pre = pos)"

definition plain_opts :: "WALOptions \<Rightarrow> bool" where
  "plain_opts opts \<longleftrightarrow> woSigner opts = None \<and> 1 \<le> woMaxEntryBytes opts \<and> woMaxEntryBytes opts \<le> 2 ^ 30"

lemma holds_Cons: "holds w k pos lsn (x # es) \<Longrightarrow> holds w k (pos + length (frame_of lsn x)) (Suc lsn) es"
  unfolding holds_def by (metis append.assoc frames.simps(2) length_append)

lemma loadFrame_front:
  assumes "plain_opts (wOpts w)" and "entry_small (woMaxEntryBytes (wOpts w)) x" and "lsn < 2 ^ 64" and "holds w k pos lsn (x # es)"
  shows "loadFrame (\<lambda>_. ok) w (mk_ref k pos lsn x)
    = Inr \<lparr>frLsn = lsn, frTyp = went_typ x, frBody = went_body x, frSize = int (length (frame_of lsn x))\<rparr>"
proof -
  obtain pre junk where f: "map_of (dSegs (wDisk w)) k = Some (pre @ frame_of lsn x @ frames (Suc lsn) es @ junk)" "length pre = pos"
    using assms(4) by (auto simp: holds_def)
  have o: "woSigner (wOpts w) = None" "woMaxEntryBytes (wOpts w) \<le> 2 ^ 30" using assms(1) by (simp_all add: plain_opts_def)
  have "readAt (wDisk w) ok False k (int pos) (int32 (int (length (frame_of lsn x)))) = Inr (frame_of lsn x)"
    using f by (simp add: readAt_def Let_def small_length [OF assms(2) o(2)])
  then show ?thesis
    using read_frame_of [OF assms(2) o(2) assms(3), of "[]"] by (simp add: loadFrame_def mk_ref_def openBody_def)
qed

lemma loadFrame_placed:
  assumes "(x, ref) \<in> set (placed k pos lsn es)" and "list_all (entry_small mx) es" and "lsn + length es \<le> 2 ^ 64"
  shows "\<exists>fr. frTyp fr = went_typ x \<and> frBody fr = went_body x \<and> brKind ref = went_typ x
    \<and> (\<forall>w. plain_opts (wOpts w) \<and> woMaxEntryBytes (wOpts w) = mx \<and> holds w k pos lsn es \<longrightarrow> loadFrame (\<lambda>_. ok) w ref = Inr fr)"
  using assms
proof (induction es arbitrary: pos lsn)
  case (Cons y es)
  show ?case
  proof (cases "(x, ref) = (y, mk_ref k pos lsn y)")
    case True
    have lsn: "lsn < 2 ^ 64" using Cons.prems by simp
    show ?thesis
      using True loadFrame_front [OF _ _ lsn] Cons.prems(2)
      by (intro exI [of _ "\<lparr>frLsn = lsn, frTyp = went_typ x, frBody = went_body x, frSize = int (length (frame_of lsn x))\<rparr>"])
        (auto simp: mk_ref_def)
  next
    case False
    then have "(x, ref) \<in> set (placed k (pos + length (frame_of lsn y)) (Suc lsn) es)" using Cons.prems by auto
    from Cons.IH [OF this] Cons.prems(2,3) show ?thesis by (auto intro: holds_Cons)
  qed
qed simp

section \<open>Torn tails\<close>

lemma readFrame_torn_tail:
  assumes "entry_small mx x" and "mx \<le> 2 ^ 30" and "t < length (frame_of lsn x)"
  shows "readFrame (take t (frame_of lsn x)) (int (length (take t (frame_of lsn x)))) mx
    = Inl (EVar (if t = 0 then io_EOF else errTorn))"
  using readFrame_torn [OF small_fits [OF assms(1,2)], of t lsn "went_typ x"] assms(3) by (simp add: frame_of_def)

text \<open>Cutting a sequence of frames anywhere leaves whole frames and the beginning of one more.\<close>

lemma cut_frames:
  assumes "c < length (frames lsn es)"
  shows "\<exists>n t. n < length es \<and> t < length (frame_of (lsn + n) (es ! n))
    \<and> take c (frames lsn es) = frames lsn (take n es) @ take t (frame_of (lsn + n) (es ! n))
    \<and> (\<forall>j. j \<le> length es \<longrightarrow> length (frames lsn (take j es)) \<le> c \<longrightarrow> j \<le> n)"
  using assms
proof (induction es arbitrary: lsn c)
  case (Cons x es)
  let ?f = "frame_of lsn x"
  show ?case
  proof (cases "c < length ?f")
    case True
    have "j = 0" if "j \<le> length (x # es)" "length (frames lsn (take j (x # es))) \<le> c" for j
      using that True by (cases j) auto
    with True show ?thesis by (intro exI [of _ 0] exI [of _ c]) auto
  next
    case False
    with Cons.prems have "c - length ?f < length (frames (Suc lsn) es)" by simp
    from Cons.IH [OF this] obtain n t where n: "n < length es" "t < length (frame_of (Suc lsn + n) (es ! n))"
      "take (c - length ?f) (frames (Suc lsn) es) = frames (Suc lsn) (take n es) @ take t (frame_of (Suc lsn + n) (es ! n))"
      "\<forall>j. j \<le> length es \<longrightarrow> length (frames (Suc lsn) (take j es)) \<le> c - length ?f \<longrightarrow> j \<le> n" by blast
    have "j \<le> Suc n" if "j \<le> length (x # es)" "length (frames lsn (take j (x # es))) \<le> c" for j
      using that n(4) False by (cases j) auto
    with n False show ?thesis by (intro exI [of _ "Suc n"] exI [of _ t]) auto
  qed
qed simp

section \<open>Recovering a segment\<close>

definition rec_calm :: "rec_env \<Rightarrow> bool" where
  "rec_calm e \<longleftrightarrow> rvList e = ok \<and> (\<forall>k. rvOpen e k = ok) \<and> rvOpenSnap e = ok \<and> rvQuarantine e = ok \<and> rvRepair e = ok
     \<and> rvRemove e = ok \<and> svFault (rvSegment e) = None \<and> rvActive e = ok"

lemma update_same: "map_of xs k = Some v \<Longrightarrow> AList.update k v xs = xs"
  by (induction xs) (auto split: if_splits)

lemma length_seg_image: "length (seg_image k es) = headerSize + length (frames k es)"
  by (simp add: seg_image_def)

lemma header_ok:
  assumes "k < 2 ^ 64"
  shows "decodeHeaderFlags (take headerSize (seg_image k es @ rest)) walMagic = Inr (k, 0)"
  using header_roundtrip [of walMagic k 0 "[]"] assms by (simp add: seg_image_def walMagic_def)

lemma drop_header: "drop headerSize (seg_image k es @ rest) = frames k es @ rest"
  by (simp add: seg_image_def)

text \<open>A segment that ends with the beginning of a further frame is replayed and cut back to its whole frames.\<close>

lemma replaySegment_image:
  assumes e: "rec_calm e" and o: "plain_opts (wOpts w)" and snap: "wSnapLSN w = 0" "wLastSegSigned w = False"
    and k: "0 < k" "k + length es < 2 ^ 64" and small: "list_all (entry_small (woMaxEntryBytes (wOpts w))) (es @ [x])"
    and m: "wf (wM w)" and v: "v_ok (wOffload w) (placed k headerSize k es) (lview_of (wM w))"
    and t: "t < length (frame_of (k + length es) x)"
    and bytes: "map_of (dSegs (wDisk w)) k = Some (seg_image k es @ take t (frame_of (k + length es) x))"
    and last: "t = 0 \<or> isLast \<and> \<not> woFailOnTruncation (wOpts w) \<and> (woForceRepair (wOpts w)
      \<or> \<not> validFrameAfter (woMaxEntryBytes (wOpts w)) (length (seg_image k es)) (seg_image k es @ take t (frame_of (k + length es) x)) (k + length es))"
  shows "\<exists>w1 d rr ev. replaySegment e k k isLast w = Inr (Some (length (seg_image k es)), k + length es, w1\<lparr>wDisk := d, wRecovery := rr, wEvents := ev\<rparr>)
    \<and> advanced w w1 (placed k headerSize k es) \<and> dSegs d = AList.update k (seg_image k es) (dSegs (wDisk w)) \<and> dSnaps d = dSnaps (wDisk w)
    \<and> dSynced d = (if t = 0 then dSynced (wDisk w) else length (seg_image k es))
    \<and> (t = 0 \<longrightarrow> w1\<lparr>wDisk := d, wRecovery := rr, wEvents := ev\<rparr> = w1)"
proof -
  let ?torn = "take t (frame_of (k + length es) x)" and ?img = "seg_image k es"
  have sb: "seg_bytes w k = ?img @ ?torn" using bytes by (simp add: seg_bytes_def)
  have w: "w\<lparr>wLastSegSigned := False\<rparr> = w" using snap(2) by simp
  have k64: "k < 2 ^ 64" using k(2) by simp
  have mx: "woSigner (wOpts w) = None" "woMaxEntryBytes (wOpts w) \<le> 2 ^ 30" using o by (simp_all add: plain_opts_def)
  obtain w1 where w1: "replay_frames e k isLast False headerSize k (frames k es @ ?torn) w
      = replay_frames e k isLast False (length ?img) (k + length es) ?torn w1" "advanced w w1 (placed k headerSize k es)"
    using replay_frames_entries [OF mx, of k es k headerSize e isLast ?torn] snap k small m v by (auto simp: length_seg_image)
  note sel = advanced_sel [OF w1(2)]
  have rs: "replaySegment e k k isLast w = (case replay_frames e k isLast False (length ?img) (k + length es) ?torn w1 of
      Inl err \<Rightarrow> Inl err | Inr (pos, nxt, w2) \<Rightarrow> Inr (Some pos, nxt, w2))"
    unfolding replaySegment_def Let_def sb drop_header header_ok [OF k64, of es ?torn]
    using e w1(1) mx(1) by (simp add: rec_calm_def checkFileFlags_def w)
  have torn: "readFrame ?torn (int (length ?torn)) (woMaxEntryBytes (wOpts w1)) = Inl (EVar (if t = 0 then io_EOF else errTorn))"
    using readFrame_torn_tail [OF _ mx(2) t] small by (simp add: sel)
  show ?thesis
  proof (cases "t = 0")
    case True
    have "AList.update k ?img (dSegs (wDisk w)) = dSegs (wDisk w)" using bytes True by (simp add: update_same)
    then show ?thesis using True torn rs w1(2) sel
      by (intro exI [of _ w1] exI [of _ "wDisk w1"] exI [of _ "wRecovery w1"] exI [of _ "wEvents w1"])
        (simp add: replay_frames.simps)
  next
    case False
    have sb1: "seg_bytes w1 k = ?img @ ?torn" using sb sel by (simp add: seg_bytes_def)
    have q: "quarantine k (length ?img) e w1 = (ok, wal_emit StoreQuarantined (w1\<lparr>wDisk := (wDisk w1)\<lparr>dQuarantine := dQuarantine (wDisk w1) @ [?torn]\<rparr>\<rparr>))"
      using e False t by (simp add: quarantine_def sb1 rec_calm_def)
    define d where "d = (wDisk w1)\<lparr>dQuarantine := dQuarantine (wDisk w1) @ [?torn], dSegs := AList.update k ?img (dSegs (wDisk w1)),
      dSynced := length ?img\<rparr>"
    define rr where "rr = (wRecovery w1)\<lparr>rrTruncatedBytes := int (length ?torn)\<rparr>"
    have "\<not> woFailOnTruncation (wOpts w1)"
      "\<not> (\<not> woForceRepair (wOpts w1) \<and> validFrameAfter (woMaxEntryBytes (wOpts w1)) (length ?img) (?img @ ?torn) (k + length es))"
      using last False sel(1) by auto
    then have "repairTail e k (length ?img) (k + length es) w1
        = Inr (length ?img, k + length es, w1\<lparr>wDisk := d, wRecovery := rr, wEvents := wEvents w1 @ [StoreQuarantined]\<rparr>)"
      unfolding repairTail_def sb1 Let_def q
      using e by (simp add: rec_calm_def wal_emit_def set_synced_def put_seg_def d_def rr_def)
    then have "replaySegment e k k isLast w
        = Inr (Some (length ?img), k + length es, w1\<lparr>wDisk := d, wRecovery := rr, wEvents := wEvents w1 @ [StoreQuarantined]\<rparr>)"
      using rs torn False last by (simp add: replay_frames.simps)
    moreover have "dSegs d = AList.update k ?img (dSegs (wDisk w))" "dSnaps d = dSnaps (wDisk w)" "dSynced d = length ?img"
      using sel(2) by (simp_all add: d_def)
    ultimately show ?thesis using w1(2) False by auto
  qed
qed

section \<open>Recovering a log\<close>

text \<open>A log as a list of segments, each with its first LSN and its entries.\<close>

type_synonym chunks = "(nat \<times> went list) list"

fun contig :: "nat \<Rightarrow> chunks \<Rightarrow> bool" where
  "contig s [] \<longleftrightarrow> True"
| "contig s (c # cs) \<longleftrightarrow> fst c = s \<and> contig (s + length (snd c)) cs"

definition entries :: "chunks \<Rightarrow> went list" where
  "entries cs = concat (map snd cs)"

definition log_of :: "chunks \<Rightarrow> (went \<times> blobRef) list" where
  "log_of cs = concat (map (\<lambda>c. placed (fst c) headerSize (fst c) (snd c)) cs)"

definition segs_of :: "chunks \<Rightarrow> (nat \<times> string) list" where
  "segs_of cs = map (\<lambda>c. (fst c, seg_image (fst c) (snd c))) cs"

lemma log_of_simps [simp]:
  "log_of [] = []" "log_of (c # cs) = placed (fst c) headerSize (fst c) (snd c) @ log_of cs" "log_of (cs @ ds) = log_of cs @ log_of ds"
  by (simp_all add: log_of_def)

lemma entries_simps [simp]: "entries [] = []" "entries (c # cs) = snd c @ entries cs" "entries (cs @ ds) = entries cs @ entries ds"
  by (simp_all add: entries_def)

lemma length_log_of [simp]: "length (log_of cs) = length (entries cs)"
  by (induction cs) simp_all

lemma map_fst_log_of [simp]: "map fst (log_of cs) = entries cs"
  by (induction cs) simp_all

lemma contig_append: "contig s (cs @ ds) \<longleftrightarrow> contig s cs \<and> contig (s + length (entries cs)) ds"
  by (induction cs arbitrary: s) (auto simp: add.assoc)

lemma small_ack: "plain_opts opts \<Longrightarrow> entry_small (woMaxEntryBytes opts) (WAck [])"
  by (simp add: plain_opts_def entry_small_def went_body_def e_str_def e_uvarint_def AppendUvarint.simps)

lemma replaySegment_whole:
  assumes "rec_calm e" and "plain_opts (wOpts w)" and "wSnapLSN w = 0" "wLastSegSigned w = False"
    and "0 < k" "k + length es < 2 ^ 64" and "list_all (entry_small (woMaxEntryBytes (wOpts w))) es"
    and "wf (wM w)" and "v_ok (wOffload w) (placed k headerSize k es) (lview_of (wM w))"
    and "map_of (dSegs (wDisk w)) k = Some (seg_image k es)"
  shows "\<exists>w1. replaySegment e k k isLast w = Inr (Some (length (seg_image k es)), k + length es, w1) \<and> advanced w w1 (placed k headerSize k es)"
  using replaySegment_image [OF assms(1-6), of "WAck []" 0 isLast] assms(7-10) small_ack [OF assms(2)] by fastforce

lemma advanced_recovery: "advanced w w' ps \<Longrightarrow> advanced w (w'\<lparr>wRecovery := rr\<rparr>) ps"
proof -
  assume "advanced w w' ps"
  then obtain m rr1 where "w' = w\<lparr>wM := m, wRecovery := rr1,
       wHist := wHist w @ map (view_content w) (v_trace (wOffload w) ps (lview_of (wM w)))\<rparr>"
     "wf m" "lview_of m = v_run (wOffload w) ps (lview_of (wM w))" by (auto simp: advanced_def)
  then show ?thesis unfolding advanced_def by (intro exI [of _ m] exI [of _ rr]) simp
qed

lemma replay_whole:
  assumes "rec_calm e" and "plain_opts (wOpts w)" and "wSnapLSN w = 0" "wLastSegSigned w = False" and "contig s cs" and "0 < s"
    and "s + length (entries cs) < 2 ^ 64" and "list_all (entry_small (woMaxEntryBytes (wOpts w))) (entries cs)"
    and "wf (wM w)" and "v_ok (wOffload w) (log_of cs) (lview_of (wM w))"
    and "\<And>k es. (k, es) \<in> set cs \<Longrightarrow> map_of (dSegs (wDisk w)) k = Some (seg_image k es)"
  shows "\<exists>w'. replay_segments e (map fst cs @ ks) s lastEnd kept w = replay_segments e ks (s + length (entries cs))
      (if cs = [] then lastEnd else length (seg_image (fst (last cs)) (snd (last cs)))) (kept @ map fst cs) w'
    \<and> advanced w w' (log_of cs)"
  using assms(3-) assms(2)
proof (induction cs arbitrary: s lastEnd kept w)
  case Nil
  then show ?case using advanced_refl by auto
next
  case (Cons c cs)
  obtain k es where c: "c = (k, es)" by (cases c) auto
  have k: "k = s" using Cons.prems by (simp add: c)
  have v: "v_ok (wOffload w) (placed s headerSize s es) (lview_of (wM w))"
    "v_ok (wOffload w) (log_of cs) (v_run (wOffload w) (placed s headerSize s es) (lview_of (wM w)))"
    using Cons.prems(8) by (simp_all add: c k v_ok_append)
  have small: "list_all (entry_small (woMaxEntryBytes (wOpts w))) es" "list_all (entry_small (woMaxEntryBytes (wOpts w))) (entries cs)"
    using Cons.prems(6) by (simp_all add: c)
  have "s + length es < 2 ^ 64" using Cons.prems(5) by (simp add: c)
  from replaySegment_whole [OF assms(1) Cons.prems(10,1,2,4) this small(1) Cons.prems(7) v(1)]
  have "\<exists>w1. replaySegment e s s (map fst cs @ ks = []) w = Inr (Some (length (seg_image s es)), s + length es, w1)
    \<and> advanced w w1 (placed s headerSize s es)" using Cons.prems(9) c k by simp
  then obtain w1 where w1: "replaySegment e s s (map fst cs @ ks = []) w = Inr (Some (length (seg_image s es)), s + length es, w1)"
    "advanced w w1 (placed s headerSize s es)" by blast
  define w2 where "w2 = w1\<lparr>wRecovery := (wRecovery w1)\<lparr>rrSegments := rrSegments (wRecovery w1) + 1\<rparr>\<rparr>"
  have a2: "advanced w w2 (placed s headerSize s es)" unfolding w2_def by (rule advanced_recovery [OF w1(2)])
  note sel = advanced_sel [OF a2]
  let ?stop = "length (seg_image s es)"
  have "\<exists>w'. replay_segments e (map fst cs @ ks) (s + length es) ?stop (kept @ [s]) w2 = replay_segments e ks (s + length es + length (entries cs))
      (if cs = [] then ?stop else length (seg_image (fst (last cs)) (snd (last cs)))) (kept @ [s] @ map fst cs) w'
    \<and> advanced w2 w' (log_of cs)"
    using Cons.IH [of w2 "s + length es" ?stop "kept @ [s]"] Cons.prems v(2) small(2) by (simp add: sel c)
  then obtain w' where w': "replay_segments e (map fst cs @ ks) (s + length es) ?stop (kept @ [s]) w2 = replay_segments e ks (s + length es + length (entries cs))
      (if cs = [] then ?stop else length (seg_image (fst (last cs)) (snd (last cs)))) (kept @ [s] @ map fst cs) w'"
    "advanced w2 w' (log_of cs)" by blast
  have "advanced w w' (log_of (c # cs))" using advanced_trans [OF a2 w'(2)] by (simp add: c k)
  moreover have "replay_segments e (map fst (c # cs) @ ks) s lastEnd kept w
      = replay_segments e (map fst cs @ ks) (s + length es) ?stop (kept @ [s]) w2"
    using w1(1) by (simp add: c k w2_def)
  ultimately show ?case using w'(1) by (auto simp: c k add.assoc)
qed

end
