(* ===== verification/GG_Wal_Recover.thy ===== *)
theory GG_Wal_Recover
  imports GG_Wal_Log
begin

text \<open>
  Recovery of a whole directory.  Whatever a crash leaves of a log (a last segment that ends in the middle of a frame, or a new
  segment file without a complete header), opening the directory brings back the entries that are there, in order,
  and a directory that is laid out as the running store keeps it.
\<close>

section \<open>Segments in order\<close>

text \<open>Only the last segment may be empty.\<close>

definition tidy :: "chunks \<Rightarrow> bool" where
  "tidy cs \<longleftrightarrow> (\<forall>c \<in> set (butlast cs). snd c \<noteq> [])"

lemma tidy_Cons: "tidy (c # cs) \<longleftrightarrow> cs = [] \<or> snd c \<noteq> [] \<and> tidy cs"
  by (auto simp: tidy_def)

lemma contig_ge: "contig s cs \<Longrightarrow> c \<in> set cs \<Longrightarrow> s \<le> fst c \<and> fst c + length (snd c) \<le> s + length (entries cs)"
  by (induction cs arbitrary: s) fastforce+

lemma contig_strict: "contig s cs \<Longrightarrow> tidy cs \<Longrightarrow> sorted_wrt (<) (map fst cs)"
proof (induction cs arbitrary: s)
  case (Cons c cs)
  show ?case
  proof (cases "cs = []")
    case False
    have "fst c < fst d" if "d \<in> set cs" for d
      using contig_ge [of "s + length (snd c)" cs d] Cons.prems False that by (cases "snd c") (auto simp: tidy_Cons)
    with Cons False show ?thesis by (auto simp: tidy_Cons)
  qed simp
qed simp

lemma contig_sorted:
  assumes "contig s cs" and "tidy cs"
  shows "sorted (map fst cs)" "distinct (map fst cs)"
  using contig_strict [OF assms] by (simp_all add: strict_sorted_iff)

lemma map_of_segs:
  assumes "distinct (map fst cs)" and "(k, es) \<in> set cs"
  shows "map_of (segs_of cs @ rest) k = Some (seg_image k es)"
proof -
  have "map_of (segs_of cs) k = Some (seg_image k es)"
    using assms by (induction cs) (auto simp: segs_of_def image_iff)
  then show ?thesis by simp
qed

lemma segs_of_simps [simp]: "segs_of [] = []" "segs_of (c # cs) = (fst c, seg_image (fst c) (snd c)) # segs_of cs"
  "segs_of (cs @ ds) = segs_of cs @ segs_of ds" "map fst (segs_of cs) = map fst cs"
  by (simp_all add: segs_of_def)

lemma fst_segs_of [simp]: "fst ` set (segs_of cs) = fst ` set cs"
  by (force simp: segs_of_def)

section \<open>What is read back\<close>

text \<open>The store's directory has every segment, perhaps with something behind its frames.\<close>

definition holds_all :: "WALStore \<Rightarrow> chunks \<Rightarrow> bool" where
  "holds_all w cs \<longleftrightarrow> (\<forall>c \<in> set cs. holds w (fst c) headerSize (fst c) (snd c))"

definition log_fits :: "int \<Rightarrow> chunks \<Rightarrow> bool" where
  "log_fits mx cs \<longleftrightarrow> contig 1 cs \<and> list_all (entry_small mx) (entries cs) \<and> Suc (length (entries cs)) < 2 ^ 64"

lemma log_of_chunk: "y \<in> set (log_of cs) \<Longrightarrow> \<exists>c \<in> set cs. y \<in> set (placed (fst c) headerSize (fst c) (snd c))"
  by (auto simp: log_of_def)

lemma entries_chunk: "list_all P (entries cs) \<Longrightarrow> c \<in> set cs \<Longrightarrow> list_all P (snd c)"
  by (auto simp: entries_def list_all_iff)

lemma same_reads_log:
  assumes "plain_opts (wOpts w)" "plain_opts (wOpts w')" and "woMaxEntryBytes (wOpts w) = mx" "woMaxEntryBytes (wOpts w') = mx"
    and "holds_all w cs" "holds_all w' cs" and "log_fits mx cs" and "ref \<in> snd ` set (log_of cs)"
  shows "same_reads w w' ref"
proof -
  obtain x c where c: "c \<in> set cs" "(x, ref) \<in> set (placed (fst c) headerSize (fst c) (snd c))"
    using assms(8) log_of_chunk by fastforce
  have "list_all (entry_small mx) (snd c)" "fst c + length (snd c) \<le> 2 ^ 64"
    using assms(7) c(1) contig_ge [of 1 cs c] by (auto simp: log_fits_def entries_chunk)
  from loadFrame_placed [OF c(2) this] show ?thesis
    using assms(1-6) c(1) unfolding same_reads_def holds_all_def by metis
qed

lemma refs_in_trace: "refs_in v R \<Longrightarrow> u \<in> set (v # v_trace off ps v) \<Longrightarrow> refs_in u (R \<union> snd ` set ps)"
proof (induction ps arbitrary: v R)
  case (Cons y ps)
  have v: "refs_in (v_apply off (fst y) (snd y) v) (insert (snd y) R)" by (rule refs_in_apply [OF Cons.prems(1)])
  show ?case
  proof (cases "u = v")
    case True
    then show ?thesis using refs_in_mono [OF Cons.prems(1)] by blast
  next
    case False
    then have "u \<in> set (v_apply off (fst y) (snd y) v # v_trace off ps (v_apply off (fst y) (snd y) v))"
      using Cons.prems(2) by (simp add: Let_def)
    from Cons.IH [OF v this] show ?thesis by simp
  qed
qed simp

definition v_init :: lview where
  "v_init = lview_of (newMachine \<lparr>maxRecords = 0, maxBytes = 0, maxRecordBytes = 0\<rparr>)"

lemma lview_new: "lview_of (newMachine l) = v_init"
  by (simp add: v_init_def newMachine_def lview_of_def)

lemma refs_in_init: "refs_in v_init {}"
  by (simp add: v_init_def newMachine_def refs_in_def zero_item_def)

text \<open>The contents after each entry of a log, the empty one first, as a store reads them.\<close>

definition contents :: "WALStore \<Rightarrow> chunks \<Rightarrow> (string \<rightharpoonup> Record) list" where
  "contents w cs = map (view_content w) (v_init # v_trace (wOffload w) (log_of cs) v_init)"

lemma view_content_same:
  assumes "plain_opts (wOpts w)" "plain_opts (wOpts w')" and "woMaxEntryBytes (wOpts w) = mx" "woMaxEntryBytes (wOpts w') = mx"
    and "holds_all w cs" "holds_all w' cs" and "log_fits mx cs" and "refs_in v (snd ` set (log_of cs))"
  shows "view_content w v = view_content w' v"
  using assms(8) by (rule view_content_cong) (rule same_reads_log [OF assms(1-7)])

lemma contents_same:
  assumes "plain_opts (wOpts w)" "plain_opts (wOpts w')" and "woMaxEntryBytes (wOpts w) = mx" "woMaxEntryBytes (wOpts w') = mx"
    and "holds_all w cs" "holds_all w' cs" and "log_fits mx cs" and "wOffload w' = wOffload w"
  shows "contents w cs = contents w' cs"
  unfolding contents_def assms(8)
proof (rule map_cong [OF refl])
  fix v assume "v \<in> set (v_init # v_trace (wOffload w) (log_of cs) v_init)"
  then have "refs_in v (snd ` set (log_of cs))" using refs_in_trace [OF refs_in_init] by fastforce
  then show "view_content w v = view_content w' v" by (rule view_content_same [OF assms(1-7)])
qed

lemma length_contents [simp]: "length (contents w cs) = Suc (length (entries cs))"
  by (simp add: contents_def)

section \<open>Opening a directory\<close>

text \<open>The state of a store whose log is \<open>cs\<close>, apart from failures and what is on stable storage.\<close>

definition live :: "WALStore \<Rightarrow> chunks \<Rightarrow> bool" where
  "live w cs \<longleftrightarrow> plain_opts (wOpts w) \<and> wOffload w = (\<not> woPayloadsInMemory (wOpts w)) \<and> wSnapLSN w = 0 \<and> dSnaps (wDisk w) = []
     \<and> cs \<noteq> [] \<and> tidy cs \<and> log_fits (woMaxEntryBytes (wOpts w)) cs \<and> v_ok (wOffload w) (log_of cs) v_init
     \<and> wSegments w = map fst cs \<and> wNextLSN w = Suc (length (entries cs))
     \<and> wActiveSize w = int (length (seg_image (fst (last cs)) (snd (last cs))))
     \<and> wf (wM w) \<and> lview_of (wM w) = v_run (wOffload w) (log_of cs) v_init \<and> wHist w = contents w cs"

definition fresh_run :: "WALStore \<Rightarrow> bool" where
  "fresh_run w \<longleftrightarrow> wFailure w = ok \<and> \<not> wClosed w \<and> wWritten w = 0 \<and> wDurable w = 0 \<and> \<not> wSyncing w"

lemma drop_covered_none: "contig 1 cs \<Longrightarrow> tidy cs \<Longrightarrow> drop_covered 1 (map fst cs) = ([], map fst cs)"
proof (induction cs rule: induct_list012)
  case (3 c d cs)
  then show ?case by (cases "snd c") (auto simp: tidy_Cons)
qed simp_all

lemma holds_all_segs:
  assumes "distinct (map fst (ds @ [(k, es)]))" and "dSegs (wDisk w) = segs_of ds @ (k, seg_image k es @ junk) # rest"
  shows "holds_all w (ds @ [(k, es)])"
  unfolding holds_all_def holds_def
proof
  fix c assume c: "c \<in> set (ds @ [(k, es)])"
  have "map_of (dSegs (wDisk w)) (fst c) = Some (seg_image (fst c) (snd c) @ (if c = (k, es) then junk else []))"
  proof (cases "c = (k, es)")
    case True
    have "k \<notin> fst ` set (segs_of ds)" using assms(1) by simp
    then have "map_of (segs_of ds) k = None" by (simp add: map_of_eq_None_iff)
    with True assms(2) show ?thesis by (simp add: map_add_def)
  next
    case False
    with c have "(fst c, snd c) \<in> set ds" by auto
    with False show ?thesis using map_of_segs [of ds "fst c" "snd c" "(k, seg_image k es @ junk) # rest"] assms by simp
  qed
  then show "\<exists>pre junk. map_of (dSegs (wDisk w)) (fst c) = Some (pre @ frames (fst c) (snd c) @ junk) \<and> length pre = headerSize"
    by (intro exI [of _ "encodeHeaderFlags walMagic (fst c) 0"] exI [of _ "if c = (k, es) then junk else []"]) (simp add: seg_image_def)
qed

lemma map_of_last: "k \<notin> fst ` set xs \<Longrightarrow> map_of (xs @ [(k, v)]) k = Some v"
  by (induction xs) auto

lemma update_last: "k \<notin> fst ` set xs \<Longrightarrow> AList.update k v (xs @ [(k, u)]) = xs @ [(k, v)]"
  by (induction xs) auto

text \<open>The end of a log as a crash can leave it, and when its damage is repaired.\<close>

definition torn_ok :: "WALOptions \<Rightarrow> nat \<Rightarrow> went list \<Rightarrow> string \<Rightarrow> bool" where
  "torn_ok opts k es torn \<longleftrightarrow> torn = [] \<or> \<not> woFailOnTruncation opts \<and> (woForceRepair opts
     \<or> \<not> validFrameAfter (woMaxEntryBytes opts) (length (seg_image k es)) (seg_image k es @ torn) (k + length es))"

definition torn_at :: "int \<Rightarrow> nat \<Rightarrow> string \<Rightarrow> bool" where
  "torn_at mx lsn torn \<longleftrightarrow> (\<exists>x t. torn = take t (frame_of lsn x) \<and> t < length (frame_of lsn x) \<and> entry_small mx x)"

lemma replay_image:
  fixes ds :: chunks and k :: nat and es :: "went list"
  defines "cs \<equiv> ds @ [(k, es)]"
  assumes e: "rec_calm e" and o: "plain_opts (wOpts w)" and snap: "wSnapLSN w = 0" "wLastSegSigned w = False"
    and m: "wf (wM w)" and fits: "log_fits (woMaxEntryBytes (wOpts w)) cs" and tidy: "tidy cs"
    and v: "v_ok (wOffload w) (log_of cs) (lview_of (wM w))"
    and d: "dSegs (wDisk w) = segs_of ds @ [(k, seg_image k es @ torn)]"
    and torn: "torn_at (woMaxEntryBytes (wOpts w)) (k + length es) torn" "torn_ok (wOpts w) k es torn"
  shows "\<exists>w1 d' rr ev. replay_segments e (map fst cs) 1 0 [] w
      = Inr (Suc (length (entries cs)), length (seg_image k es), map fst cs, w1\<lparr>wDisk := d', wRecovery := rr, wEvents := ev\<rparr>)
    \<and> advanced w w1 (log_of cs) \<and> dSegs d' = segs_of cs \<and> dSnaps d' = dSnaps (wDisk w)
    \<and> dSynced d' = (if torn = [] then dSynced (wDisk w) else length (seg_image k es))"
proof -
  have dist: "distinct (map fst cs)" using contig_sorted(2) fits tidy by (auto simp: log_fits_def)
  then have new: "k \<notin> fst ` set (segs_of ds)" by (simp add: cs_def)
  have c: "contig 1 ds" "k = Suc (length (entries ds))" using fits by (simp_all add: log_fits_def cs_def contig_append)
  have small: "list_all (entry_small (woMaxEntryBytes (wOpts w))) (entries ds)" "list_all (entry_small (woMaxEntryBytes (wOpts w))) es"
    and lsn: "1 + length (entries ds) < 2 ^ 64" "k + length es < 2 ^ 64"
    using fits c by (simp_all add: log_fits_def cs_def)
  have v1: "v_ok (wOffload w) (log_of ds) (lview_of (wM w))"
    "v_ok (wOffload w) (placed k headerSize k es) (v_run (wOffload w) (log_of ds) (lview_of (wM w)))"
    using v by (simp_all add: cs_def v_ok_append)
  have "map_of (dSegs (wDisk w)) k' = Some (seg_image k' es')" if "(k', es') \<in> set ds" for k' es'
    using map_of_segs [of ds k' es' "[(k, seg_image k es @ torn)]"] that dist d by (simp add: cs_def)
  from replay_whole [OF e o snap c(1) _ lsn(1) small(1) m v1(1) this, of "[k]" 0 "[]"]
  obtain w4 lastEnd where w4: "replay_segments e (map fst cs) 1 0 [] w = replay_segments e [k] k lastEnd (map fst ds) w4"
    "advanced w w4 (log_of ds)" using c(2) by (auto simp: cs_def)
  note sel = advanced_sel [OF w4(2)]
  obtain x t where x: "torn = take t (frame_of (k + length es) x)" "t < length (frame_of (k + length es) x)"
    "entry_small (woMaxEntryBytes (wOpts w)) x" using torn(1) by (auto simp: torn_at_def)
  have "\<exists>w1 d' rr ev. replaySegment e k k True w4 = Inr (Some (length (seg_image k es)), k + length es, w1\<lparr>wDisk := d', wRecovery := rr, wEvents := ev\<rparr>)
    \<and> advanced w4 w1 (placed k headerSize k es) \<and> dSegs d' = AList.update k (seg_image k es) (dSegs (wDisk w4)) \<and> dSnaps d' = dSnaps (wDisk w4)
    \<and> dSynced d' = (if t = 0 then dSynced (wDisk w4) else length (seg_image k es))
    \<and> (t = 0 \<longrightarrow> w1\<lparr>wDisk := d', wRecovery := rr, wEvents := ev\<rparr> = w1)"
  proof (rule replaySegment_image [OF e _ _ _ _ lsn(2) _ _ _ x(2)])
    show "map_of (dSegs (wDisk w4)) k = Some (seg_image k es @ take t (frame_of (k + length es) x))"
      using d map_of_last [OF new] x(1) by (simp add: sel del: map_of_append)
    show "t = 0 \<or> True \<and> \<not> woFailOnTruncation (wOpts w4) \<and> (woForceRepair (wOpts w4) \<or> \<not> validFrameAfter (woMaxEntryBytes (wOpts w4))
        (length (seg_image k es)) (seg_image k es @ take t (frame_of (k + length es) x)) (k + length es))"
      using torn(2) x by (auto simp: torn_ok_def sel)
  qed (use o snap c(2) small x(3) v1(2) in \<open>simp_all add: sel\<close>)
  then obtain w1 d' rr ev where w1: "replaySegment e k k True w4 = Inr (Some (length (seg_image k es)), k + length es, w1\<lparr>wDisk := d', wRecovery := rr, wEvents := ev\<rparr>)"
    "advanced w4 w1 (placed k headerSize k es)" "dSegs d' = AList.update k (seg_image k es) (dSegs (wDisk w4))" "dSnaps d' = dSnaps (wDisk w4)"
    "dSynced d' = (if t = 0 then dSynced (wDisk w4) else length (seg_image k es))" by blast
  have "advanced w w1 (log_of cs)" using advanced_trans [OF w4(2) w1(2)] by (simp add: cs_def)
  moreover have "dSegs d' = segs_of cs" using w1(3) d new by (simp add: sel update_last cs_def)
  moreover have "torn = [] \<longleftrightarrow> t = 0" using x by auto
  moreover have "replay_segments e (map fst cs) 1 0 [] w = Inr (Suc (length (entries cs)), length (seg_image k es), map fst cs,
      w1\<lparr>wDisk := d', wRecovery := rr\<lparr>rrSegments := rrSegments rr + 1\<rparr>, wEvents := ev\<rparr>)"
    using w4(1) w1(1) c(2) by (simp add: cs_def)
  ultimately show ?thesis using w1(4,5) sel(2)
    by (intro exI [of _ w1] exI [of _ d'] exI [of _ "rr\<lparr>rrSegments := rrSegments rr + 1\<rparr>"] exI [of _ ev]) simp
qed

text \<open>The store when the segments are about to be replayed.\<close>

definition recover_start :: "WALOptions \<Rightarrow> disk \<Rightarrow> WALStore" where
  "recover_start o1 d = noted (set_m (newMachine \<lparr>maxRecords = woMaxRecords o1, maxBytes = woMaxBytes o1,
     maxRecordBytes = woMaxRecordBytes o1\<rparr>) (wal_zero o1 d))"

lemma recover_start_sel [simp]:
  "wOpts (recover_start o1 d) = o1" "wDisk (recover_start o1 d) = d" "wOffload (recover_start o1 d) = (\<not> woPayloadsInMemory o1)"
  "wSnapLSN (recover_start o1 d) = 0" "wLastSegSigned (recover_start o1 d) = False" "wf (wM (recover_start o1 d))"
  "lview_of (wM (recover_start o1 d)) = v_init" "fresh_run (recover_start o1 d)"
  by (simp_all add: recover_start_def noted_def set_m_def wal_zero_def wf_newMachine lview_new fresh_run_def)

lemma recover_start_hist: "wHist (recover_start o1 d) = [view_content (recover_start o1 d) v_init]"
proof -
  let ?m = "newMachine \<lparr>maxRecords = woMaxRecords o1, maxBytes = woMaxBytes o1, maxRecordBytes = woMaxRecordBytes o1\<rparr>"
  let ?w = "set_m ?m (wal_zero o1 d)"
  have "view_content ?w = view_content (recover_start o1 d)"
    by (rule view_content_store) (simp_all add: set_m_def wal_zero_def)
  then have "wal_content ?w = view_content (recover_start o1 d) v_init"
    unfolding wal_content_view by (simp add: set_m_def lview_new)
  then show ?thesis by (simp add: recover_start_def noted_def) (simp add: set_m_def wal_zero_def)
qed

text \<open>Replaying leaves the group commit, the failure and the closed flag alone.\<close>

lemma advanced_run:
  assumes "advanced (recover_start o1 d) w ps"
  shows "fresh_run w"
  using assms recover_start_sel(8) [of o1 d] by (auto simp: advanced_def fresh_run_def)

lemma noted_snap [simp]: "wSnapLSN (noted w) = wSnapLSN w"
  by (simp add: noted_def)

lemma recover_unfold:
  assumes "rvList e = ok" and "dSnaps d = []" and "sort (map fst (dSegs d)) = ks" and "drop_covered 1 ks = ([], ks)"
  shows "recover e (wal_zero o1 d) = (case replay_segments e ks 1 0 [] (recover_start o1 d) of
      Inl err \<Rightarrow> Inl err | Inr (expected, lastEnd, kept, w4) \<Rightarrow> open_active e expected lastEnd kept w4)"
  using assms unfolding recover_def recover_start_def
  by (simp add: Let_def wal_zero_def set_m_def)

lemma open_active_kept:
  assumes "woSigner (wOpts w) = None" and "kept \<noteq> []" and "rvActive e = ok"
  shows "\<exists>lb rr. open_active e expected lastEnd kept w = Inr (w\<lparr>wNextLSN := expected, wSegments := kept, wActiveSize := int lastEnd,
    wLogBytes := lb, wRecovery := rr, wM := endReplay (wM w)\<rparr>)"
  unfolding open_active_def Let_def set_m_def using assms by (simp del: sum_list.Cons) (intro exI, rule refl)

text \<open>
  A store into which a log was replayed is live.  (The log that was replayed, \<open>cs0\<close>, and the log of the store differ when a first, empty
  segment was created.)
\<close>

lemma live_recovered:
  assumes a: "advanced (recover_start o1 d) w1 (log_of cs)" and cs0: "log_of cs0 = log_of cs" "log_fits (woMaxEntryBytes o1) cs0"
    "holds_all (recover_start o1 d) cs0" "holds_all w cs0"
    and o: "plain_opts o1" and cs: "cs \<noteq> []" "tidy cs" "log_fits (woMaxEntryBytes o1) cs" "v_ok (\<not> woPayloadsInMemory o1) (log_of cs) v_init"
    and w: "wOpts w = o1" "wOffload w = (\<not> woPayloadsInMemory o1)" "dSnaps (wDisk w) = []" "wSnapLSN w = 0" "wHist w = wHist w1"
      "wM w = endReplay (wM w1)" "wSegments w = map fst cs" "wNextLSN w = Suc (length (entries cs))"
      "wActiveSize w = int (length (seg_image (fst (last cs)) (snd (last cs))))"
  shows "live w cs"
proof -
  let ?w3 = "recover_start o1 d"
  note sel = advanced_sel [OF a]
  have "contents w' cs = contents w' cs0" for w' by (simp add: contents_def cs0(1))
  moreover have "contents ?w3 cs0 = contents w cs0"
    using o cs0 w by (intro contents_same [where mx = "woMaxEntryBytes o1"]) simp_all
  moreover have "wHist w1 = contents ?w3 cs" using sel(8) by (simp add: contents_def recover_start_hist)
  ultimately have "wHist w = contents w cs" using w(5) by simp
  then show ?thesis using o cs w sel wf_endReplay endReplay_view by (simp add: live_def)
qed

text \<open>A log of whole segments with a torn end.\<close>

lemma recover_image:
  fixes ds :: chunks and k :: nat and es :: "went list"
  defines "cs \<equiv> ds @ [(k, es)]"
  assumes e: "rec_calm e" and o: "plain_opts o1" and fits: "log_fits (woMaxEntryBytes o1) cs" and tidy: "tidy cs"
    and v: "v_ok (\<not> woPayloadsInMemory o1) (log_of cs) v_init"
    and d: "dSegs d = segs_of ds @ [(k, seg_image k es @ torn)]" "dSnaps d = []"
    and torn: "torn_at (woMaxEntryBytes o1) (k + length es) torn" "torn_ok o1 k es torn"
  shows "\<exists>w. recover e (wal_zero o1 d) = Inr w \<and> live w cs \<and> fresh_run w \<and> wOpts w = o1 \<and> dSegs (wDisk w) = segs_of cs
    \<and> dSynced (wDisk w) = (if torn = [] then dSynced d else length (seg_image k es))"
proof -
  let ?w3 = "recover_start o1 d"
  have ks: "sort (map fst (dSegs d)) = map fst cs" and dist: "distinct (map fst cs)" and dc: "drop_covered 1 (map fst cs) = ([], map fst cs)"
    using contig_sorted [of 1 cs] drop_covered_none [of cs] fits tidy d by (simp_all add: log_fits_def cs_def sorted_sort_id)
  obtain w1 d' rr ev where w1: "replay_segments e (map fst cs) 1 0 [] ?w3
      = Inr (Suc (length (entries cs)), length (seg_image k es), map fst cs, w1\<lparr>wDisk := d', wRecovery := rr, wEvents := ev\<rparr>)"
    "advanced ?w3 w1 (log_of cs)" "dSegs d' = segs_of cs" "dSnaps d' = []"
    "dSynced d' = (if torn = [] then dSynced d else length (seg_image k es))"
    using replay_image [of e ?w3 ds k es torn] e o fits tidy v d torn by (auto simp: cs_def)
  note a = advanced_sel [OF w1(2)] advanced_run [OF w1(2)]
  let ?w4 = "w1\<lparr>wDisk := d', wRecovery := rr, wEvents := ev\<rparr>"
  have "recover e (wal_zero o1 d) = open_active e (Suc (length (entries cs))) (length (seg_image k es)) (map fst cs) ?w4"
    using e w1(1) by (subst recover_unfold [OF _ d(2) ks dc]) (simp_all add: rec_calm_def)
  moreover have "\<exists>lb rr. open_active e (Suc (length (entries cs))) (length (seg_image k es)) (map fst cs) ?w4
      = Inr (?w4\<lparr>wNextLSN := Suc (length (entries cs)), wSegments := map fst cs, wActiveSize := int (length (seg_image k es)),
        wLogBytes := lb, wRecovery := rr, wM := endReplay (wM ?w4)\<rparr>)"
    by (rule open_active_kept) (use e o in \<open>simp_all add: a rec_calm_def plain_opts_def cs_def\<close>)
  ultimately obtain w lb rr where w: "recover e (wal_zero o1 d) = Inr w" "w = ?w4\<lparr>wNextLSN := Suc (length (entries cs)),
      wSegments := map fst cs, wActiveSize := int (length (seg_image k es)), wLogBytes := lb, wRecovery := rr, wM := endReplay (wM ?w4)\<rparr>"
    by auto
  have d': "wDisk w = d'" by (simp add: w(2))
  have "holds_all ?w3 cs" "holds_all w cs"
    unfolding cs_def using dist d(1) w1(3) holds_all_segs [of ds k es ?w3 torn "[]"] holds_all_segs [of ds k es w "[]" "[]"] d'
    by (simp_all add: cs_def)
  then have "live w cs"
    by (intro live_recovered [OF w1(2) refl fits])
      (use o tidy fits v w1(4) in \<open>simp_all add: w(2) a\<close>, simp_all add: cs_def)
  moreover have "fresh_run w" using a(9-) by (simp add: w(2) fresh_run_def)
  moreover have "wOpts w = o1" by (simp add: w(2) a)
  ultimately show ?thesis using w(1) d' w1(3,5) by auto
qed

text \<open>A last segment file whose header does not decode, such as one that was being created, is set aside.\<close>

definition image_end :: "chunks \<Rightarrow> nat" where
  "image_end cs = (if cs = [] then 0 else length (seg_image (fst (last cs)) (snd (last cs))))"

lemma delete_last: "k \<notin> fst ` set xs \<Longrightarrow> AList.delete k (xs @ [(k, u)]) = xs"
  by (induction xs) auto

lemma short_header: "length b < headerSize \<Longrightarrow> isl (decodeHeaderFlags (take headerSize b) walMagic)"
  by (simp add: decodeHeaderFlags_def)

lemma replay_stray:
  assumes e: "rec_calm e" and o: "plain_opts (wOpts w)" and snap: "wSnapLSN w = 0" "wLastSegSigned w = False" and m: "wf (wM w)"
    and fits: "log_fits (woMaxEntryBytes (wOpts w)) cs" and new: "k = Suc (length (entries cs))" "distinct (map fst cs @ [k])"
    and v: "v_ok (wOffload w) (log_of cs) (lview_of (wM w))"
    and d: "dSegs (wDisk w) = segs_of cs @ [(k, b)]" "isl (decodeHeaderFlags (take headerSize b) walMagic)"
  shows "\<exists>w1 d' ev. replay_segments e (map fst cs @ [k]) 1 0 [] w = Inr (k, image_end cs, map fst cs, w1\<lparr>wDisk := d', wEvents := ev\<rparr>)
    \<and> advanced w w1 (log_of cs) \<and> dSegs d' = segs_of cs \<and> dSnaps d' = dSnaps (wDisk w) \<and> dSynced d' = image_end cs"
proof -
  have c: "contig 1 cs" "1 + length (entries cs) < 2 ^ 64" "list_all (entry_small (woMaxEntryBytes (wOpts w))) (entries cs)"
    using fits by (simp_all add: log_fits_def)
  have "map_of (dSegs (wDisk w)) k' = Some (seg_image k' es')" if "(k', es') \<in> set cs" for k' es'
    using map_of_segs [of cs k' es' "[(k, b)]"] that new(2) d(1) by simp
  from replay_whole [OF e o snap c(1) _ c(2,3) m v this, of "[k]" 0 "[]"]
  obtain w1 where w1: "replay_segments e (map fst cs @ [k]) 1 0 [] w = replay_segments e [k] k (image_end cs) (map fst cs) w1"
    "advanced w w1 (log_of cs)" using new(1) by (auto simp: image_end_def)
  note sel = advanced_sel [OF w1(2)]
  have nk: "k \<notin> fst ` set (segs_of cs)" using new(2) by simp
  have sb: "seg_bytes w1 k = b" using d(1) map_of_last [OF nk] by (simp add: seg_bytes_def sel del: map_of_append)
  obtain herr where h: "decodeHeaderFlags (take headerSize b) walMagic = Inl herr" using d(2) by (auto simp: isl_def)
  obtain q ev where q: "quarantine k 0 e w1 = (ok, w1\<lparr>wDisk := (wDisk w1)\<lparr>dQuarantine := q\<rparr>, wEvents := ev\<rparr>)"
  proof (cases "b = []")
    case True
    then show ?thesis using sb by (intro that [where q = "dQuarantine (wDisk w1)" and ev = "wEvents w1"]) (simp add: quarantine_def)
  next
    case False
    then show ?thesis using sb e
      by (intro that [where q = "dQuarantine (wDisk w1) @ [b]" and ev = "wEvents w1 @ [StoreQuarantined]"])
        (simp add: quarantine_def rec_calm_def wal_emit_def)
  qed
  define d' where "d' = (wDisk w)\<lparr>dQuarantine := q, dSegs := segs_of cs, dSynced := image_end cs\<rparr>"
  have del: "AList.delete k (dSegs (wDisk w)) = segs_of cs" using d(1) delete_last [OF nk] by simp
  have "replay_segments e [k] k (image_end cs) (map fst cs) w1 = Inr (k, image_end cs, map fst cs, w1\<lparr>wDisk := d', wEvents := ev\<rparr>)"
    using e h q del by (simp add: replaySegment_def Let_def sb rec_calm_def set_synced_def d'_def sel)
  then show ?thesis using w1 by (intro exI [of _ w1] exI [of _ d'] exI [of _ ev]) (simp add: d'_def)
qed

lemma recover_stray:
  assumes e: "rec_calm e" and o: "plain_opts o1" and fits: "log_fits (woMaxEntryBytes o1) cs" and cs: "cs \<noteq> []"
    and new: "k = Suc (length (entries cs))" "tidy (cs @ [(k, [])])"
    and v: "v_ok (\<not> woPayloadsInMemory o1) (log_of cs) v_init"
    and d: "dSegs d = segs_of cs @ [(k, b)]" "isl (decodeHeaderFlags (take headerSize b) walMagic)" "dSnaps d = []"
  shows "\<exists>w. recover e (wal_zero o1 d) = Inr w \<and> live w cs \<and> fresh_run w \<and> wOpts w = o1 \<and> dSegs (wDisk w) = segs_of cs
    \<and> dSynced (wDisk w) = image_end cs"
proof -
  let ?w3 = "recover_start o1 d" and ?cs = "cs @ [(k, [])]"
  have "contig 1 ?cs" using fits new(1) by (simp add: log_fits_def contig_append)
  note C = contig_sorted [OF this new(2)] drop_covered_none [OF this new(2)]
  have ks: "sort (map fst (dSegs d)) = map fst cs @ [k]" and dc: "drop_covered 1 (map fst cs @ [k]) = ([], map fst cs @ [k])"
    and dist: "distinct (map fst cs @ [k])" using C d(1) by (simp_all add: sorted_sort_id)
  have tidy: "tidy cs" using new(2) by (auto simp: tidy_def dest: in_set_butlastD)
  obtain w1 d' ev where w1: "replay_segments e (map fst cs @ [k]) 1 0 [] ?w3 = Inr (k, image_end cs, map fst cs, w1\<lparr>wDisk := d', wEvents := ev\<rparr>)"
    "advanced ?w3 w1 (log_of cs)" "dSegs d' = segs_of cs" "dSnaps d' = []" "dSynced d' = image_end cs"
    using replay_stray [OF e _ _ _ _ _ new(1) dist, of ?w3 b] o fits v d by auto
  note a = advanced_sel [OF w1(2)] advanced_run [OF w1(2)]
  let ?w4 = "w1\<lparr>wDisk := d', wEvents := ev\<rparr>"
  have "recover e (wal_zero o1 d) = open_active e k (image_end cs) (map fst cs) ?w4"
    using e w1(1) by (subst recover_unfold [OF _ d(3) ks dc]) (simp_all add: rec_calm_def)
  moreover have "\<exists>lb rr. open_active e k (image_end cs) (map fst cs) ?w4 = Inr (?w4\<lparr>wNextLSN := k, wSegments := map fst cs,
      wActiveSize := int (image_end cs), wLogBytes := lb, wRecovery := rr, wM := endReplay (wM ?w4)\<rparr>)"
    by (rule open_active_kept) (use e o cs in \<open>simp_all add: a rec_calm_def plain_opts_def\<close>)
  ultimately obtain w lb rr where w: "recover e (wal_zero o1 d) = Inr w" "w = ?w4\<lparr>wNextLSN := k, wSegments := map fst cs,
      wActiveSize := int (image_end cs), wLogBytes := lb, wRecovery := rr, wM := endReplay (wM ?w4)\<rparr>" by auto
  have d': "wDisk w = d'" by (simp add: w(2))
  obtain ds j es where c: "cs = ds @ [(j, es)]" using cs by (metis append_butlast_last_id prod.collapse)
  have "holds_all ?w3 cs" "holds_all w cs"
    using dist d(1) w1(3) holds_all_segs [of ds j es ?w3 "[]" "[(k, b)]"] holds_all_segs [of ds j es w "[]" "[]"] d'
    by (simp_all add: c)
  then have "live w cs"
    by (intro live_recovered [OF w1(2) refl fits]) (use o cs tidy fits v w1(4) new(1) in \<open>simp_all add: w(2) a image_end_def\<close>)
  moreover have "fresh_run w" using a(9-) by (simp add: w(2) fresh_run_def)
  moreover have "wOpts w = o1" by (simp add: w(2) a)
  ultimately show ?thesis using w(1) d' w1(3,5) by auto
qed

text \<open>A directory without segments, or only with one that was being created.\<close>

lemma open_active_new:
  assumes "woSigner (wOpts w) = None" and "svFault (rvSegment e) = None" and "dSegs (wDisk w) = []"
  shows "\<exists>lb rr. open_active e 1 lastEnd [] w = Inr (w\<lparr>wNextLSN := 1, wDisk := (wDisk w)\<lparr>dSegs := [(1, seg_image 1 [])], dSynced := headerSize\<rparr>,
    wActiveSize := int headerSize, wSegments := [1], wLogBytes := lb, wRecovery := rr, wM := endReplay (wM w)\<rparr>)"
proof -
  have "fileFlags (wOpts w) = 0" using assms(1) by (simp add: fileFlags_def)
  then show ?thesis
    unfolding open_active_def Let_def set_m_def newSegmentLocked_def createSegment_def put_seg_def set_synced_def seg_image_def
    using assms by (simp del: sum_list.Cons filter.simps) (intro exI, rule refl)
qed

lemma recover_first:
  assumes e: "rec_calm e" and o: "plain_opts o1" and d: "dSegs d = [] \<or> (\<exists>b. dSegs d = [(1, b)] \<and> isl (decodeHeaderFlags (take headerSize b) walMagic))"
    "dSnaps d = []"
  shows "\<exists>w. recover e (wal_zero o1 d) = Inr w \<and> live w [(1, [])] \<and> fresh_run w \<and> wOpts w = o1 \<and> dSegs (wDisk w) = segs_of [(1, [])]
    \<and> dSynced (wDisk w) = image_end [(1, [])]"
proof -
  let ?w3 = "recover_start o1 d" and ?ks = "map fst (dSegs d)"
  have ks: "sort ?ks = ?ks" "drop_covered 1 ?ks = ([], ?ks)" using d(1) by auto
  have "\<exists>w1 d' ev. replay_segments e ?ks 1 0 [] ?w3 = Inr (1, 0, [], w1\<lparr>wDisk := d', wEvents := ev\<rparr>) \<and> advanced ?w3 w1 [] \<and> dSegs d' = [] \<and> dSnaps d' = []"
  proof (cases "dSegs d = []")
    case True
    have "?w3\<lparr>wDisk := wDisk ?w3, wEvents := wEvents ?w3\<rparr> = ?w3" by (rule WALStore.equality) simp_all
    then show ?thesis using True advanced_refl [of ?w3] d(2)
      by (intro exI [of _ ?w3] exI [of _ "wDisk ?w3"] exI [of _ "wEvents ?w3"]) simp
  next
    case False
    then obtain b where b: "dSegs d = [(1, b)]" "isl (decodeHeaderFlags (take headerSize b) walMagic)" using d(1) by auto
    show ?thesis using replay_stray [OF e _ _ _ _ _ _ _ _ _ b(2), of ?w3 "[]" 1] o b(1) d(2)
      by (auto simp: log_fits_def image_end_def)
  qed
  then obtain w1 d' ev where w1: "replay_segments e ?ks 1 0 [] ?w3 = Inr (1, 0, [], w1\<lparr>wDisk := d', wEvents := ev\<rparr>)"
    "advanced ?w3 w1 []" "dSegs d' = []" "dSnaps d' = []" by blast
  note a = advanced_sel [OF w1(2)] advanced_run [OF w1(2)]
  let ?w4 = "w1\<lparr>wDisk := d', wEvents := ev\<rparr>"
  have "recover e (wal_zero o1 d) = open_active e 1 0 [] ?w4"
    using e w1(1) by (subst recover_unfold [OF _ d(2) ks]) (simp_all add: rec_calm_def)
  moreover obtain lb rr where "open_active e 1 0 [] ?w4 = Inr (?w4\<lparr>wNextLSN := 1, wDisk := (wDisk ?w4)\<lparr>dSegs := [(1, seg_image 1 [])], dSynced := headerSize\<rparr>,
    wActiveSize := int headerSize, wSegments := [1], wLogBytes := lb, wRecovery := rr, wM := endReplay (wM ?w4)\<rparr>)"
    using open_active_new [of ?w4 e 0] e o w1(3) by (auto simp: a rec_calm_def plain_opts_def)
  ultimately obtain w where w: "recover e (wal_zero o1 d) = Inr w" "w = ?w4\<lparr>wNextLSN := 1, wDisk := (wDisk ?w4)\<lparr>dSegs := [(1, seg_image 1 [])], dSynced := headerSize\<rparr>,
    wActiveSize := int headerSize, wSegments := [1], wLogBytes := lb, wRecovery := rr, wM := endReplay (wM ?w4)\<rparr>" by auto
  have "live w [(1, [])]"
    by (rule live_recovered [of o1 d w1 _ "[]"])
      (use o w1(2,4) in \<open>simp_all add: w(2) a log_fits_def holds_all_def tidy_def seg_image_def\<close>)
  moreover have "fresh_run w" using a(9-) by (simp add: w(2) fresh_run_def)
  ultimately show ?thesis using w(1) by (simp add: w(2) a image_end_def seg_image_def)
qed

end
