(* ===== verification/GG_Wal_Content.thy ===== *)
theory GG_Wal_Content
  imports GG_Wal_Recover
begin

text \<open>
  What a log means.  The content of the store is a map from identifiers to records with their payloads; every entry changes it
  by \<open>c_apply\<close>, which knows nothing of files, references or the index.  The contents that a store noted are those of its entries.
\<close>

section \<open>The abstract store\<close>

type_synonym content = "string \<rightharpoonup> Record"

definition c_upd :: "string \<Rightarrow> (Record \<Rightarrow> Record) \<Rightarrow> content \<Rightarrow> content" where
  "c_upd i f c = c(i := map_option f (c i))"

definition c_parked :: "content \<Rightarrow> string \<Rightarrow> bool" where
  "c_parked c i \<longleftrightarrow> map_option rState (c i) = Some Parked"

definition c_apply :: "went \<Rightarrow> content \<Rightarrow> content" where
  "c_apply x c = (case x of
       WAppend r \<Rightarrow> if c (rID r) = None then c(rID r \<mapsto> r) else c
     | WLease ids \<Rightarrow> fold (\<lambda>i. c_upd i lease_r) ids c
     | WCheckpoint i cp \<Rightarrow> c_upd i (\<lambda>r. r\<lparr>rCheckpoint := cp\<rparr>) c
     | WAck i \<Rightarrow> c(i := None)
     | WNack i t nxt text blocked refund \<Rightarrow> c_upd i (nack_r t nxt text blocked refund) c
     | WRelease i \<Rightarrow> c_upd i release_r c
     | WPark i t reason \<Rightarrow> c_upd i (park_r t reason) c
     | WRequeue i replace cp \<Rightarrow>
         if c_parked c i then c_upd i (\<lambda>r. (if replace then (\<lambda>r. r\<lparr>rCheckpoint := cp\<rparr>) else (\<lambda>r. r)) (requeue_r r)) c else c
     | WDiscard i \<Rightarrow> if c_parked c i then c(i := None) else c)"

fun c_trace :: "went list \<Rightarrow> content \<Rightarrow> content list" where
  "c_trace [] c = [c]"
| "c_trace (x # xs) c = c # c_trace xs (c_apply x c)"

lemma c_trace_snoc: "c_trace (xs @ [x]) c = c_trace xs c @ [c_apply x (last (c_trace xs c))]"
proof (induction xs arbitrary: c)
  case (Cons y xs)
  have "c_trace xs (c_apply y c) \<noteq> []" by (cases xs) simp_all
  with Cons show ?case by simp
qed simp

section \<open>Items that can be read\<close>

abbreviation read_item :: "WALStore \<Rightarrow> Record \<times> blobRef \<times> blobRef \<Rightarrow> gerror + Record" where
  "read_item w x \<equiv> hydrate (\<lambda>_. ok) w (view_item x)"

definition item_ok :: "WALStore \<Rightarrow> string \<Rightarrow> Record \<times> blobRef \<times> blobRef \<Rightarrow> bool" where
  "item_ok w i x \<longleftrightarrow> rID (fst x) = i \<and> brKind (fst (snd x)) \<in> {0, entAppend} \<and> (\<not> wOffload w \<longrightarrow> fst (snd x) = zero_ref)
     \<and> (\<exists>q. read_item w x = Inr q)"

definition view_ok :: "WALStore \<Rightarrow> lview \<Rightarrow> bool" where
  "view_ok w v \<longleftrightarrow> (\<forall>i p. map_of (vItems v) i = Some p \<longrightarrow> p < vNext v \<and> item_ok w i (vAt v p))"

text \<open>Reading an item keeps everything but the payload.\<close>

lemma read_item_keeps:
  assumes "read_item w (r, b, c) = Inr q"
  shows "rState q = rState r" "rID q = rID r"
  using assms by (auto simp: hydrate_def Let_def view_item_def split: sum.splits if_splits)

text \<open>Changes of a record that do not look at its payload.\<close>

definition plain_change :: "(Record \<Rightarrow> Record) \<Rightarrow> bool" where
  "plain_change f \<longleftrightarrow> (\<forall>r. rID (f r) = rID r \<and> rState (f r) \<noteq> Leased \<and> f (end_rec r) = f r) \<and>
     (\<forall>r a. f (r\<lparr>rKey := a\<rparr>) = (f r)\<lparr>rKey := a\<rparr>) \<and> (\<forall>r a. f (r\<lparr>rValue := a\<rparr>) = (f r)\<lparr>rValue := a\<rparr>) \<and>
     (\<forall>r a. f (r\<lparr>rHeaders := a\<rparr>) = (f r)\<lparr>rHeaders := a\<rparr>) \<and> (\<forall>r a. f (r\<lparr>rCheckpoint := a\<rparr>) = (f r)\<lparr>rCheckpoint := a\<rparr>)"

lemma plain_changes: "plain_change (nack_r t nxt text blocked refund)" "plain_change release_r" "plain_change (park_r t reason)"
  "plain_change requeue_r" "plain_change lease_r"
  by (simp_all add: plain_change_def nack_r_def release_r_def park_r_def requeue_r_def lease_r_def end_rec_def)

lemma read_item_change:
  assumes "plain_change f"
  shows "read_item w (on_rec f x) = map_sum (\<lambda>e. e) f (read_item w x)"
proof -
  obtain r b c where x: "x = (r, b, c)" by (cases x)
  have f: "f (r\<lparr>rKey := k, rValue := v, rHeaders := h\<rparr>) = (f r)\<lparr>rKey := k, rValue := v, rHeaders := h\<rparr>"
    "f (s\<lparr>rCheckpoint := cp\<rparr>) = (f s)\<lparr>rCheckpoint := cp\<rparr>" "rID (f s) = rID s" for k v h cp s
    using assms by (simp_all add: plain_change_def)
  show ?thesis by (simp add: x on_rec_def hydrate_def Let_def view_item_def f split: sum.split)
qed

text \<open>A new checkpoint behind a reference to a later entry.\<close>

lemma read_item_ckpt:
  assumes ok: "item_ok w i (r, b, c)" "read_item w (r, b, c) = Inr q"
    and ref: "loadCheckpoint (\<lambda>_. ok) w ref i = Inr cp" "brKind ref \<notin> {0, entAppend}"
  shows "read_item w (ckpt_v (wOffload w) cp ref (r, b, c)) = Inr (q\<lparr>rCheckpoint := cp\<rparr>)"
proof -
  let ?off = "wOffload w"
  have i: "rID r = i" and b: "brKind b \<in> {0, entAppend}" using ok(1) by (simp_all add: item_ok_def)
  have nb: "ref \<noteq> b" "valid_ref ref" using b ref(2) by (auto simp: valid_ref_def)
  show ?thesis
  proof (cases "valid_ref b")
    case True
    then obtain full where full: "loadRecord (\<lambda>_. ok) w b i = Inr full" "q\<lparr>rCheckpoint := cp\<rparr> = r\<lparr>rKey := rKey full, rValue := rValue full, rHeaders := rHeaders full, rCheckpoint := cp\<rparr>"
      using ok(2) i by (auto simp: hydrate_def Let_def view_item_def split: sum.splits if_splits)
    have off: ?off using ok(1) True zero_ref_invalid by (auto simp: item_ok_def)
    have zb: "zero_ref \<noteq> b" using True by auto
    show ?thesis using True full off nb ref(1) i zb
      by (cases cp) (simp_all add: ckpt_v_def hydrate_def Let_def view_item_def)
  next
    case False
    then have "q\<lparr>rCheckpoint := cp\<rparr> = r\<lparr>rCheckpoint := cp\<rparr>"
      using ok(2) by (auto simp: hydrate_def Let_def view_item_def split: sum.splits if_splits)
    then show ?thesis using False nb ref(1) i
      by (cases ?off; cases cp) (simp_all add: ckpt_v_def hydrate_def Let_def view_item_def)
  qed
qed

section \<open>One entry\<close>

definition readable :: "WALStore \<Rightarrow> went \<Rightarrow> blobRef \<Rightarrow> bool" where
  "readable w x ref \<longleftrightarrow> brKind ref = went_typ x
     \<and> (\<exists>fr. loadFrame (\<lambda>_. ok) w ref = Inr fr \<and> frTyp fr = went_typ x \<and> frBody fr = went_body x)"

lemma load_append:
  assumes "readable w (WAppend r) ref" and "record_fits r"
  shows "loadRecord (\<lambda>_. ok) w ref (rID r) = Inr r" "brKind ref = entAppend"
proof -
  have "decode_all decodeRecord (encodeRecord r) = Inr r" using recordc.decodes_end [OF assms(2)] by (rule decode_all_append)
  with assms(1) show "loadRecord (\<lambda>_. ok) w ref (rID r) = Inr r" "brKind ref = entAppend"
    by (auto simp: readable_def loadRecord_def went_body_def went_typ_def)
qed

lemma load_checkpoint:
  "readable w (WCheckpoint i cp) ref \<Longrightarrow> went_fits (WCheckpoint i cp) \<Longrightarrow> loadCheckpoint (\<lambda>_. ok) w ref i = Inr cp"
  "readable w (WRequeue i True cp) ref \<Longrightarrow> went_fits (WRequeue i True cp) \<Longrightarrow> loadCheckpoint (\<lambda>_. ok) w ref i = Inr cp"
  using decode_checkpoint [of i cp] decode_requeue [of i cp True]
  by (auto simp: readable_def loadCheckpoint_def went_body_def went_typ_def went_fits_def ent_defs)

lemma view_content_at:
  "map_of (vItems v) i = Some p \<Longrightarrow> read_item w (vAt v p) = Inr q \<Longrightarrow> view_content w v i = Some (end_rec q)"
  by (simp add: view_content_def)

lemma view_content_None: "map_of (vItems v) i = None \<Longrightarrow> view_content w v i = None"
  by (simp add: view_content_def)

lemma upd_content:
  assumes v: "view_ok w v" and f: "\<And>x q. item_ok w i x \<Longrightarrow> read_item w x = Inr q \<Longrightarrow>
      item_ok w i (f x) \<and> (\<exists>q'. read_item w (f x) = Inr q' \<and> end_rec q' = g (end_rec q))"
  shows "view_ok w (v_upd i f v) \<and> view_content w (v_upd i f v) = c_upd i g (view_content w v)"
proof (cases "map_of (vItems v) i")
  case None
  then show ?thesis using v view_content_None [OF None, of w] by (auto simp: v_upd_def c_upd_def)
next
  case (Some p)
  let ?v = "v_upd i f v"
  have u: "?v = v\<lparr>vAt := (vAt v)(p := f (vAt v p))\<rparr>" using Some by (simp add: v_upd_def)
  have ok: "item_ok w i (vAt v p)" using v Some by (simp add: view_ok_def)
  then obtain q where q: "read_item w (vAt v p) = Inr q" by (auto simp: item_ok_def)
  from f [OF ok q] obtain q' where q': "item_ok w i (f (vAt v p))" "read_item w (f (vAt v p)) = Inr q'" "end_rec q' = g (end_rec q)" by blast
  have other: "p' \<noteq> p" if "map_of (vItems v) j = Some p'" "j \<noteq> i" for j p'
    using v that ok by (auto simp: view_ok_def item_ok_def)
  have "view_ok w ?v" using v q'(1) other Some by (auto simp: u view_ok_def)
  moreover have "view_content w ?v j = c_upd i g (view_content w v) j" for j
  proof (cases "j = i")
    case True
    then show ?thesis using view_content_at [OF Some q] view_content_at [of ?v i p w q'] Some q' by (simp add: u c_upd_def)
  next
    case False
    then show ?thesis using other [of j] by (auto simp: view_content_def u c_upd_def split: option.split)
  qed
  ultimately show ?thesis by blast
qed

lemma change_content:
  assumes "view_ok w v" and "plain_change f"
  shows "view_ok w (v_upd i (on_rec f) v) \<and> view_content w (v_upd i (on_rec f) v) = c_upd i f (view_content w v)"
proof (rule upd_content [OF assms(1)])
  fix x q assume x: "item_ok w i x" "read_item w x = Inr q"
  have e: "end_rec (f q) = f (end_rec q)" using assms(2) by (simp add: plain_change_def end_rec_def)
  have "read_item w (on_rec f x) = Inr (f q)" using read_item_change [OF assms(2)] x(2) by simp
  then show "item_ok w i (on_rec f x) \<and> (\<exists>q'. read_item w (on_rec f x) = Inr q' \<and> end_rec q' = f (end_rec q))"
    using x(1) e assms(2) by (auto simp: item_ok_def on_rec_def plain_change_def)
qed

lemma delete_content:
  assumes "view_ok w v"
  shows "view_ok w (v\<lparr>vItems := AList.delete i (vItems v)\<rparr>) \<and> view_content w (v\<lparr>vItems := AList.delete i (vItems v)\<rparr>) = (view_content w v)(i := None)"
  using assms by (auto simp: view_ok_def view_content_def fun_eq_iff delete_conv' split: if_splits option.split)

lemma parked_content: "view_ok w v \<Longrightarrow> v_state v i = Some Parked \<longleftrightarrow> c_parked (view_content w v) i"
proof (cases "map_of (vItems v) i")
  case (Some p)
  assume v: "view_ok w v"
  then obtain q where q: "read_item w (vAt v p) = Inr q" using Some by (auto simp: view_ok_def item_ok_def)
  have "rState q = rState (fst (vAt v p))" using read_item_keeps(1) q by (metis prod.collapse)
  then show ?thesis using view_content_at [OF Some q] Some by (simp add: v_state_def c_parked_def)
qed (simp add: v_state_def c_parked_def view_content_None)

lemma ckpt_content:
  assumes "item_ok w i x" and "read_item w x = Inr q" and "loadCheckpoint (\<lambda>_. ok) w ref i = Inr cp" and "brKind ref \<notin> {0, entAppend}"
  shows "item_ok w i (ckpt_v (wOffload w) cp ref x) \<and> read_item w (ckpt_v (wOffload w) cp ref x) = Inr (q\<lparr>rCheckpoint := cp\<rparr>)"
proof -
  obtain r b c where x: "x = (r, b, c)" by (cases x)
  have "read_item w (ckpt_v (wOffload w) cp ref x) = Inr (q\<lparr>rCheckpoint := cp\<rparr>)"
    using read_item_ckpt [where cp = cp and ref = ref] assms unfolding x by blast
  then show ?thesis using assms(1) by (auto simp: item_ok_def ckpt_v_def x)
qed

lemma append_content:
  assumes v: "view_ok w v" and r: "record_fits r" "rState r \<noteq> Leased" and ref: "readable w (WAppend r) ref"
  shows "view_ok w (v_insert (wOffload w) r ref v) \<and> view_content w (v_insert (wOffload w) r ref v) = c_apply (WAppend r) (view_content w v)"
proof (cases "map_of (vItems v) (rID r)")
  case (Some p)
  then obtain q where "read_item w (vAt v p) = Inr q" using v by (auto simp: view_ok_def item_ok_def)
  then show ?thesis using Some v view_content_at [OF Some] by (simp add: v_insert_def c_apply_def)
next
  case None
  let ?x = "if wOffload w then (end_rec (strip r), ref, if rCheckpoint r \<noteq> None then ref else zero_ref) else (end_rec r, zero_ref, zero_ref)"
  let ?v = "v_insert (wOffload w) r ref v"
  note l = load_append [OF ref r(1)]
  have e: "end_rec r = r" "end_rec (strip r) = strip r" using r(2) by (simp_all add: end_rec_def strip_def)
  have vr: "valid_ref ref" using l(2) by (simp add: valid_ref_def ent_defs)
  then have nz: "zero_ref \<noteq> ref" by auto
  have rd: "read_item w ?x = Inr r"
    using l(1) vr nz e by (cases "rCheckpoint r") (auto simp: hydrate_def Let_def view_item_def strip_def)
  have u: "vItems ?v = AList.update (rID r) (vNext v) (vItems v)" "vNext ?v = Suc (vNext v)" "vAt ?v = (vAt v)(vNext v := ?x)"
    using None by (simp_all add: v_insert_def)
  have k: "item_ok w (rID r) ?x" using rd l(2) by (auto simp: item_ok_def strip_def zero_ref_def)
  have "view_ok w ?v" using v k unfolding view_ok_def u by (auto simp: update_conv' less_Suc_eq split: if_splits)
  moreover have "view_content w ?v j = c_apply (WAppend r) (view_content w v) j" for j
  proof (cases "j = rID r")
    case True
    then show ?thesis using view_content_at [of ?v "rID r" "vNext v" w r] rd e view_content_None [OF None] by (simp add: u update_conv' c_apply_def)
  next
    case False
    then have "map_of (vItems ?v) j = map_of (vItems v) j" by (simp add: u update_conv')
    moreover have "vAt ?v p = vAt v p" if "map_of (vItems v) j = Some p" for p using v that by (auto simp: u view_ok_def)
    ultimately have "view_content w ?v j = view_content w v j" by (auto simp: view_content_def split: option.split)
    then show ?thesis using False by (simp add: c_apply_def)
  qed
  ultimately show ?thesis by blast
qed

lemma entry_content:
  assumes v: "view_ok w v" and x: "went_fits x" and ref: "readable w x ref"
  shows "view_ok w (v_apply (wOffload w) x ref v) \<and> view_content w (v_apply (wOffload w) x ref v) = c_apply x (view_content w v)"
proof (cases x)
  case (WAppend r)
  then show ?thesis using append_content [OF v] x ref by (simp add: v_apply_def went_fits_def)
next
  case (WLease ids)
  have "view_ok w (fold (\<lambda>i. v_upd i (on_rec lease_r)) ids u) \<and> view_content w (fold (\<lambda>i. v_upd i (on_rec lease_r)) ids u) = fold (\<lambda>i. c_upd i lease_r) ids (view_content w u)"
    if "view_ok w u" for u
    using that
  proof (induction ids arbitrary: u)
    case (Cons i ids)
    from change_content [OF Cons.prems plain_changes(5), of i] Cons.IH [of "v_upd i (on_rec lease_r) u"] show ?case by simp
  qed simp
  with WLease v show ?thesis by (simp add: v_apply_def c_apply_def)
next
  case (WCheckpoint i cp)
  have k: "brKind ref \<notin> {0, entAppend}" using ref WCheckpoint by (simp add: readable_def went_typ_def ent_defs)
  have "view_ok w (v_upd i (ckpt_v (wOffload w) cp ref) v) \<and> view_content w (v_upd i (ckpt_v (wOffload w) cp ref) v) = c_upd i (\<lambda>r. r\<lparr>rCheckpoint := cp\<rparr>) (view_content w v)"
    using ckpt_content [OF _ _ load_checkpoint(1) k] ref x WCheckpoint by (intro upd_content [OF v]) auto
  then show ?thesis by (simp add: WCheckpoint v_apply_def c_apply_def)
next
  case (WRequeue i replace cp)
  show ?thesis
  proof (cases "v_state v i = Some Parked")
    case True
    let ?f = "\<lambda>x. (if replace then ckpt_v (wOffload w) cp ref else (\<lambda>y. y)) (on_rec requeue_r x)"
    let ?g = "\<lambda>r. (if replace then (\<lambda>r. r\<lparr>rCheckpoint := cp\<rparr>) else (\<lambda>r. r)) (requeue_r r)"
    have k: "brKind ref \<notin> {0, entAppend}" using ref WRequeue by (simp add: readable_def went_typ_def ent_defs)
    have "view_ok w (v_upd i ?f v) \<and> view_content w (v_upd i ?f v) = c_upd i ?g (view_content w v)"
    proof (rule upd_content [OF v])
      fix y q assume y: "item_ok w i y" "read_item w y = Inr q"
      have rd: "read_item w (on_rec requeue_r y) = Inr (requeue_r q)" using read_item_change [OF plain_changes(4)] y(2) by simp
      then have ok: "item_ok w i (on_rec requeue_r y)" using y(1) by (auto simp: item_ok_def on_rec_def requeue_r_def)
      have e: "end_rec (requeue_r q) = requeue_r (end_rec q)" by (simp add: requeue_r_def end_rec_def)
      show "item_ok w i (?f y) \<and> (\<exists>q'. read_item w (?f y) = Inr q' \<and> end_rec q' = ?g (end_rec q))"
      proof (cases replace)
        case r: True
        with ckpt_content [OF ok rd load_checkpoint(2) k] ref x WRequeue e show ?thesis by auto
      qed (use ok rd e in auto)
    qed
    then show ?thesis using True parked_content [OF v] by (simp add: WRequeue v_apply_def c_apply_def)
  next
    case False
    then show ?thesis using v parked_content [OF v] by (simp add: WRequeue v_apply_def c_apply_def)
  qed
next
  case (WDiscard i)
  then show ?thesis using v delete_content [OF v] parked_content [OF v] by (simp add: v_apply_def c_apply_def)
next
  case (WAck i)
  then show ?thesis using delete_content [OF v] by (simp add: v_apply_def c_apply_def)
qed (use change_content [OF v plain_changes(1)] change_content [OF v plain_changes(2)] change_content [OF v plain_changes(3)]
    in \<open>simp_all add: v_apply_def c_apply_def\<close>)

section \<open>A whole log\<close>

lemma log_content:
  assumes "view_ok w v" and "\<And>x ref. (x, ref) \<in> set ps \<Longrightarrow> went_fits x \<and> readable w x ref"
  shows "map (view_content w) (v # v_trace (wOffload w) ps v) = c_trace (map fst ps) (view_content w v)"
  using assms
proof (induction ps arbitrary: v)
  case (Cons y ps)
  obtain x ref where y: "y = (x, ref)" by (cases y)
  have "went_fits x" "readable w x ref" using Cons.prems(2) y by auto
  note e = entry_content [OF Cons.prems(1) this]
  have "\<And>x ref. (x, ref) \<in> set ps \<Longrightarrow> went_fits x \<and> readable w x ref" by (rule Cons.prems(2)) simp
  from Cons.IH [OF conjunct1 [OF e] this] e show ?case by (simp add: Let_def y)
qed simp

lemma v_ok_fits: "v_ok off ps v \<Longrightarrow> (x, ref) \<in> set ps \<Longrightarrow> went_fits x"
  by (induction ps arbitrary: v) auto

lemma log_view_ok:
  "view_ok w v \<Longrightarrow> (\<And>x ref. (x, ref) \<in> set ps \<Longrightarrow> went_fits x \<and> readable w x ref) \<Longrightarrow> view_ok w (v_run (wOffload w) ps v)"
proof (induction ps arbitrary: v)
  case (Cons y ps)
  obtain x ref where y: "y = (x, ref)" by (cases y)
  have "went_fits x" "readable w x ref" using Cons.prems(2) y by auto
  note e = entry_content [OF Cons.prems(1) this]
  have "\<And>x ref. (x, ref) \<in> set ps \<Longrightarrow> went_fits x \<and> readable w x ref" by (rule Cons.prems(2)) simp
  from Cons.IH [OF conjunct1 [OF e] this] show ?case by (simp add: y)
qed simp

lemma v_init_ok: "view_ok w v_init" "view_content w v_init = Map.empty"
  by (auto simp: view_ok_def view_content_def v_init_def newMachine_def fun_eq_iff)

lemma live_readable:
  assumes "live w cs" and "holds_all w cs" and r: "(x, ref) \<in> set (log_of cs)"
  shows "went_fits x \<and> readable w x ref"
proof -
  have o: "plain_opts (wOpts w)" "log_fits (woMaxEntryBytes (wOpts w)) cs" "v_ok (wOffload w) (log_of cs) v_init"
    using assms(1) unfolding live_def by blast+
  have "readable w x ref"
  proof -
    obtain c where c: "c \<in> set cs" "(x, ref) \<in> set (placed (fst c) headerSize (fst c) (snd c))" using log_of_chunk [OF r] by blast
    have "list_all (entry_small (woMaxEntryBytes (wOpts w))) (snd c)" "fst c + length (snd c) \<le> 2 ^ 64"
      using o(2) c(1) contig_ge [of 1 cs c] by (auto simp: log_fits_def entries_chunk)
    from loadFrame_placed [OF c(2) this] show ?thesis using o(1) assms(2) c(1) unfolding readable_def holds_all_def by blast
  qed
  with v_ok_fits [OF o(3) r] show ?thesis by blast
qed

lemma contents_abstract:
  assumes "live w cs" and "holds_all w cs"
  shows "wHist w = c_trace (entries cs) Map.empty"
proof -
  have "wHist w = contents w cs" using assms(1) unfolding live_def by blast
  then show ?thesis using log_content [OF v_init_ok(1) live_readable [OF assms]] v_init_ok(2) by (simp add: contents_def)
qed

lemma live_view_ok:
  assumes "live w cs" and "holds_all w cs"
  shows "view_ok w (v_run (wOffload w) (log_of cs) v_init)"
  by (rule log_view_ok [OF v_init_ok(1) live_readable [OF assms]])

end
