(* ===== verification/GG_Wal_Live.thy ===== *)
theory GG_Wal_Live
  imports GG_Wal_Content
begin

text \<open>
  The running store.  Its invariant ties the log on disk, the index in memory and the group commit together: the
  view of the machine is what replaying the log gives, the bytes of the segments are the frames of the log, and a position that was
  reported durable is within what is on stable storage.  Every operation keeps it, whatever fails on the way.
\<close>

section \<open>Invariant\<close>

abbreviation last_start :: "chunks \<Rightarrow> nat" where "last_start cs \<equiv> fst (last cs)"
abbreviation last_entries :: "chunks \<Rightarrow> went list" where "last_entries cs \<equiv> snd (last cs)"

text \<open>
  The bytes of the directory.  Only a store that failed closed has something behind its log: a part of a frame, or a part of the header of a segment it could
  not create.
\<close>

definition stray_ok :: "WALStore \<Rightarrow> chunks \<Rightarrow> (nat \<times> string) list \<Rightarrow> bool" where
  "stray_ok w cs stray \<longleftrightarrow> stray = [] \<or> last_entries cs \<noteq> [] \<and> dSynced (wDisk w) = 0 \<and> \<not> wSyncing w
     \<and> (\<exists>n. stray = [(wNextLSN w, take n (encodeHeaderFlags walMagic (wNextLSN w) 0))])"

definition laid_out :: "WALStore \<Rightarrow> chunks \<Rightarrow> string \<Rightarrow> (nat \<times> string) list \<Rightarrow> bool" where
  "laid_out w cs torn stray \<longleftrightarrow>
     dSegs (wDisk w) = segs_of (butlast cs) @ (last_start cs, seg_image (last_start cs) (last_entries cs) @ torn) # stray
     \<and> (wFailure w = ok \<longrightarrow> torn = [] \<and> stray = []) \<and> (torn = [] \<or> stray = [])
     \<and> torn_at (woMaxEntryBytes (wOpts w)) (wNextLSN w) torn \<and> stray_ok w cs stray"

text \<open>The first \<open>n\<close> entries are within the first bytes of the last segment (or in the segments before it).\<close>

definition within_bytes :: "chunks \<Rightarrow> nat \<Rightarrow> nat \<Rightarrow> bool" where
  "within_bytes cs bytes n \<longleftrightarrow>
     headerSize + length (frames (last_start cs) (take (n - length (entries (butlast cs))) (last_entries cs))) \<le> bytes"

definition covers :: "WALStore \<Rightarrow> chunks \<Rightarrow> (nat \<times> string) list \<Rightarrow> nat \<Rightarrow> bool" where
  "covers w cs stray n \<longleftrightarrow> n \<le> length (entries cs) \<and> (stray \<noteq> [] \<or> within_bytes cs (dSynced (wDisk w)) n)"

text \<open>\<open>a\<close> entries are on stable storage; so is what the group commit of this run reported.\<close>

definition base_of :: "nat \<Rightarrow> chunks \<Rightarrow> nat" where
  "base_of n cs = length (entries cs) - n"

definition synced_ok :: "WALStore \<Rightarrow> chunks \<Rightarrow> (nat \<times> string) list \<Rightarrow> nat \<Rightarrow> bool" where
  "synced_ok w cs stray a \<longleftrightarrow> wDurable w \<le> wWritten w \<and> wWritten w \<le> length (entries cs) \<and> covers w cs stray a
     \<and> (0 < wDurable w \<longrightarrow> covers w cs stray (base_of (wWritten w) cs + wDurable w))
     \<and> (wSyncing w \<longrightarrow> wSyncTarget w \<le> wWritten w \<and> within_bytes cs (wSyncBytes w) (base_of (wWritten w) cs + wSyncTarget w))"

definition wal_inv :: "WALStore \<Rightarrow> chunks \<Rightarrow> nat \<Rightarrow> bool" where
  "wal_inv w cs a \<longleftrightarrow> live w cs \<and> (\<exists>torn stray. laid_out w cs torn stray \<and> synced_ok w cs stray a)"

lemma liveD:
  assumes "live w cs"
  shows "plain_opts (wOpts w)" "wOffload w = (\<not> woPayloadsInMemory (wOpts w))" "wSnapLSN w = 0" "dSnaps (wDisk w) = []"
     "cs \<noteq> []" "tidy cs" "log_fits (woMaxEntryBytes (wOpts w)) cs" "v_ok (wOffload w) (log_of cs) v_init"
     "wSegments w = map fst cs" "wNextLSN w = Suc (length (entries cs))"
     "wf (wM w)" "lview_of (wM w) = v_run (wOffload w) (log_of cs) v_init" "wHist w = contents w cs"
     "wActiveSize w = int (length (seg_image (last_start cs) (last_entries cs)))"
  using assms unfolding live_def by (blast+)

section \<open>Changes the invariant does not see\<close>

text \<open>Contents depend on the files, not on how much of them is on stable storage.\<close>

lemma view_content_dir:
  assumes "wOpts w = wOpts w'" and "dSegs (wDisk w) = dSegs (wDisk w')" and "dSnaps (wDisk w) = dSnaps (wDisk w')"
  shows "view_content w = view_content w'"
proof
  fix v
  have "readAt (wDisk w) = readAt (wDisk w')" unfolding readAt_def fun_eq_iff assms(2,3) by simp
  then have "loadFrame rd w ref = loadFrame rd w' ref" for rd ref unfolding loadFrame_def assms(1) by simp
  moreover have "refs_in v UNIV" by (simp add: refs_in_def)
  ultimately show "view_content w v = view_content w' v"
    by (intro view_content_cong) (simp_all add: same_reads_def)
qed

definition same_state :: "WALStore \<Rightarrow> WALStore \<Rightarrow> bool" where
  "same_state w w' \<longleftrightarrow> wOpts w' = wOpts w \<and> wOffload w' = wOffload w \<and> wSnapLSN w' = wSnapLSN w \<and> dSegs (wDisk w') = dSegs (wDisk w)
     \<and> dSnaps (wDisk w') = dSnaps (wDisk w) \<and> wSegments w' = wSegments w \<and> wNextLSN w' = wNextLSN w \<and> wActiveSize w' = wActiveSize w
     \<and> wHist w' = wHist w \<and> wf (wM w') \<and> lview_of (wM w') = lview_of (wM w)"

lemma live_same:
  assumes "live w cs" and "same_state w w'"
  shows "live w' cs"
proof -
  have e: "wOpts w' = wOpts w" "wOffload w' = wOffload w" "wSnapLSN w' = wSnapLSN w" "dSegs (wDisk w') = dSegs (wDisk w)"
     "dSnaps (wDisk w') = dSnaps (wDisk w)" "wSegments w' = wSegments w" "wNextLSN w' = wNextLSN w" "wActiveSize w' = wActiveSize w"
     "wHist w' = wHist w" "wf (wM w')" "lview_of (wM w') = lview_of (wM w)"
    using assms(2) by (simp_all add: same_state_def)
  have "contents w' cs = contents w cs" unfolding contents_def e view_content_dir [OF e(1,4,5)] ..
  with assms(1) e(10) show ?thesis unfolding live_def e by auto
qed

definition same_log :: "WALStore \<Rightarrow> WALStore \<Rightarrow> bool" where
  "same_log w w' \<longleftrightarrow> wOpts w' = wOpts w \<and> wOffload w' = wOffload w \<and> wSnapLSN w' = wSnapLSN w \<and> wDisk w' = wDisk w
     \<and> wSegments w' = wSegments w \<and> wNextLSN w' = wNextLSN w \<and> wActiveSize w' = wActiveSize w \<and> wHist w' = wHist w
     \<and> wWritten w' = wWritten w \<and> wDurable w' = wDurable w \<and> wSyncing w' = wSyncing w \<and> wSyncTarget w' = wSyncTarget w
     \<and> wSyncBytes w' = wSyncBytes w \<and> (wFailure w = ok \<or> wFailure w' \<noteq> ok) \<and> wf (wM w') \<and> lview_of (wM w') = lview_of (wM w)"

lemma wal_inv_same:
  assumes "wal_inv w cs a" and "same_log w w'"
  shows "wal_inv w' cs a"
proof -
  have e: "wOpts w' = wOpts w" "wOffload w' = wOffload w" "wSnapLSN w' = wSnapLSN w" "wDisk w' = wDisk w"
     "wSegments w' = wSegments w" "wNextLSN w' = wNextLSN w" "wActiveSize w' = wActiveSize w" "wHist w' = wHist w"
     "wWritten w' = wWritten w" "wDurable w' = wDurable w" "wSyncing w' = wSyncing w" "wSyncTarget w' = wSyncTarget w"
     "wSyncBytes w' = wSyncBytes w" "wFailure w = ok \<or> wFailure w' \<noteq> ok" "wf (wM w')" "lview_of (wM w') = lview_of (wM w)"
    using assms(2) by (simp_all add: same_log_def)
  have "live w cs \<Longrightarrow> live w' cs" using e by (elim live_same) (simp add: same_state_def)
  moreover have "laid_out w cs torn stray \<Longrightarrow> laid_out w' cs torn stray" for torn stray
    using e(14) by (auto simp: laid_out_def stray_ok_def e)
  moreover have "synced_ok w cs stray a \<Longrightarrow> synced_ok w' cs stray a" for stray
    unfolding synced_ok_def covers_def e .
  ultimately show ?thesis using assms(1) unfolding wal_inv_def by blast
qed

lemma same_log_refl: "wf (wM w) \<Longrightarrow> same_log w w"
  by (cases "wFailure w") (simp_all add: same_log_def)

lemma same_log_trans: "same_log w w1 \<Longrightarrow> same_log w1 w2 \<Longrightarrow> same_log w w2"
  by (auto simp: same_log_def)

lemma wal_inv_wf: "wal_inv w cs a \<Longrightarrow> wf (wM w)"
  by (simp add: wal_inv_def live_def)

lemma same_log_failure: "wf (wM w) \<Longrightarrow> same_log w (snd (setFailure c w))"
  by (auto simp: same_log_def setFailure_def wal_emit_def Let_def split: option.split)

lemma same_log_disk: "wf (wM w) \<Longrightarrow> same_log w (snd (checkDiskLocked e n w))"
  by (auto simp: same_log_def checkDiskLocked_def wal_emit_def Let_def)

lemma same_log_compact: "wf (wM w) \<Longrightarrow> same_log w (maybeCompactLocked w)"
  by (auto simp: same_log_def maybeCompactLocked_def Let_def)

lemma same_log_machine: "wf m \<Longrightarrow> lview_of m = lview_of (wM w) \<Longrightarrow> same_log w (set_m m w)"
  by (auto simp: same_log_def set_m_def)

lemma setFailure_sel [simp]: "wFailure (snd (setFailure c w)) \<noteq> ok" "wM (snd (setFailure c w)) = wM w"
  "wNextLSN (snd (setFailure c w)) = wNextLSN w" "wOffload (snd (setFailure c w)) = wOffload w"
  by (auto simp: setFailure_def wal_emit_def Let_def split: option.split)

lemma setFailure_frame:
  obtains f ev where "snd (setFailure c w) = w\<lparr>wFailure := Some f, wEvents := ev\<rparr>"
proof (cases "wFailure w")
  case None
  then show ?thesis using that by (simp add: setFailure_def wal_emit_def Let_def)
next
  case (Some f)
  then have "snd (setFailure c w) = w\<lparr>wFailure := Some f, wEvents := wEvents w\<rparr>" by (simp add: setFailure_def)
  then show ?thesis by (rule that)
qed

section \<open>Group commit\<close>

lemma take_frames_mono: "i \<le> j \<Longrightarrow> length (frames k (take i es)) \<le> length (frames k (take j es))"
proof -
  assume "i \<le> j"
  then have "take j es = take i es @ take (j - i) (drop i es)" by (metis le_add_diff_inverse take_add)
  then show ?thesis by (simp add: frames_append)
qed

lemma within_mono: "within_bytes cs b n \<Longrightarrow> n' \<le> n \<Longrightarrow> b \<le> b' \<Longrightarrow> within_bytes cs b' n'"
  unfolding within_bytes_def using take_frames_mono [of "n' - length (entries (butlast cs))" "n - length (entries (butlast cs))"]
  by (meson add_left_mono diff_le_mono le_trans)

lemma within_all: "within_bytes cs (length (seg_image (last_start cs) (last_entries cs)) + t) n"
proof -
  have "length (frames (last_start cs) (take i (last_entries cs))) \<le> length (frames (last_start cs) (last_entries cs))" for i
    using take_frames_mono [of i "max i (length (last_entries cs))" "last_start cs" "last_entries cs"] by (simp add: max_def split: if_splits)
  then show ?thesis by (simp add: within_bytes_def length_seg_image add_increasing2)
qed

lemma wal_inv_parts:
  assumes "wal_inv w cs a" and "wFailure w = ok"
  shows "live w cs" "laid_out w cs [] []" "synced_ok w cs [] a" "dSegs (wDisk w) = segs_of cs"
    "seg_bytes w (active_file w) = seg_image (last_start cs) (last_entries cs)" "active_file w = last_start cs"
proof -
  show l: "live w cs" and o: "laid_out w cs [] []" "synced_ok w cs [] a"
    using assms by (auto simp: wal_inv_def laid_out_def)
  have cs: "cs \<noteq> []" using l by (simp add: live_def)
  have "segs_of cs = segs_of (butlast cs) @ segs_of [last cs]" using cs by (metis append_butlast_last_id segs_of_simps(3))
  then show segs: "dSegs (wDisk w) = segs_of cs" using o(1) by (simp add: laid_out_def)
  show act: "active_file w = last_start cs" using l cs by (simp add: active_file_def live_def last_map)
  have "distinct (map fst cs)" using l contig_sorted(2) by (auto simp: live_def log_fits_def)
  then have "map_of (segs_of cs) (last_start cs) = Some (seg_image (last_start cs) (last_entries cs))"
    using map_of_segs [of cs "last_start cs" "last_entries cs" "[]"] cs by simp
  then show "seg_bytes w (active_file w) = seg_image (last_start cs) (last_entries cs)"
    by (simp add: seg_bytes_def segs act)
qed

lemma sync_begin_inv:
  assumes "wal_inv w cs a" and "wFailure w = ok"
  shows "wal_inv (sync_begin w) cs a"
proof -
  note p = wal_inv_parts [OF assms]
  have "within_bytes cs (length (seg_bytes w (active_file w))) n" for n using within_all [of cs 0] by (simp add: p(5))
  then have "synced_ok (sync_begin w) cs [] a" using p(3) by (simp add: synced_ok_def sync_begin_def covers_def)
  moreover have "laid_out (sync_begin w) cs [] []" using p(2) by (simp add: laid_out_def sync_begin_def stray_ok_def)
  moreover have "live (sync_begin w) cs"
    using wal_inv_wf [OF assms(1)] by (intro live_same [OF p(1)]) (simp add: same_state_def sync_begin_def)
  ultimately show ?thesis by (auto simp: wal_inv_def)
qed

lemma sync_end_inv:
  assumes "wal_inv w cs a" and "wSyncing w"
  shows "wal_inv (sync_end res w) cs a"
proof -
  obtain torn stray where p: "live w cs" "laid_out w cs torn stray" "synced_ok w cs stray a" using assms(1) by (auto simp: wal_inv_def)
  have stray: "stray = []" using p(2) assms(2) by (auto simp: laid_out_def stray_ok_def)
  let ?w = "w\<lparr>wSyncing := False\<rparr>"
  have m: "wf (wM w)" by (rule wal_inv_wf [OF assms(1)])
  show ?thesis
  proof (cases res)
    case (Some err)
    have "live ?w cs" using m by (intro live_same [OF p(1)]) (simp add: same_state_def)
    moreover have "laid_out ?w cs torn stray" using p(2) stray by (simp add: laid_out_def stray_ok_def)
    moreover have "synced_ok ?w cs stray a" using p(3) by (simp add: synced_ok_def covers_def)
    ultimately have "wal_inv ?w cs a" unfolding wal_inv_def by blast
    with same_log_failure [of ?w] m Some show ?thesis by (auto simp: sync_end_def intro: wal_inv_same)
  next
    case None
    let ?d = "max (dSynced (wDisk w)) (wSyncBytes w)"
    have t: "wSyncTarget w \<le> wWritten w" "within_bytes cs (wSyncBytes w) (base_of (wWritten w) cs + wSyncTarget w)"
      using p(3) assms(2) by (simp_all add: synced_ok_def)
    have s: "sync_end res w = ?w\<lparr>wDisk := (wDisk w)\<lparr>dSynced := ?d\<rparr>, wDurable := max (wDurable w) (wSyncTarget w)\<rparr>"
      using None by (simp add: sync_end_def Let_def set_synced_def max_def)
    have "live (sync_end res w) cs" unfolding s using m by (intro live_same [OF p(1)]) (simp add: same_state_def)
    moreover have "laid_out (sync_end res w) cs torn stray" unfolding s using p(2) stray by (simp add: laid_out_def stray_ok_def)
    moreover have "synced_ok (sync_end res w) cs stray a"
    proof -
      have c: "covers (sync_end res w) cs stray n" if "covers w cs stray n" for n
        using that stray unfolding s covers_def by (auto elim: within_mono)
      have "base_of (wWritten w) cs + wSyncTarget w \<le> length (entries cs)" using t(1) p(3) by (simp add: base_of_def synced_ok_def)
      then have "covers (sync_end res w) cs stray (base_of (wWritten w) cs + wSyncTarget w)"
        using t(2) stray unfolding s covers_def by (auto elim: within_mono)
      then show ?thesis using p(3) c t(1) unfolding synced_ok_def by (auto simp: s max_def split: if_splits)
    qed
    ultimately show ?thesis unfolding wal_inv_def by blast
  qed
qed

text \<open>An \<open>fsync\<close> that the writer waits for covers all that was written.\<close>

definition synced_all :: "WALStore \<Rightarrow> WALStore" where
  "synced_all w = set_synced (length (seg_bytes w (active_file w))) (w\<lparr>wDurable := wWritten w\<rparr>)"

lemma synced_all_inv:
  assumes "wal_inv w cs a" and "wFailure w = ok"
  shows "wal_inv (synced_all w) cs a" "within_bytes cs (dSynced (wDisk (synced_all w))) n"
proof -
  note p = wal_inv_parts [OF assms]
  show w: "within_bytes cs (dSynced (wDisk (synced_all w))) n" for n
    using within_all [of cs 0] by (simp add: synced_all_def set_synced_def p(5))
  have "live (synced_all w) cs"
    using wal_inv_wf [OF assms(1)] by (intro live_same [OF p(1)]) (simp add: same_state_def synced_all_def set_synced_def)
  moreover have "laid_out (synced_all w) cs [] []" using p(2) by (simp add: laid_out_def stray_ok_def synced_all_def set_synced_def)
  moreover have "synced_ok (synced_all w) cs [] a"
  proof -
    have "wWritten (synced_all w) = wWritten w" "wDurable (synced_all w) = wWritten w" "wSyncing (synced_all w) = wSyncing w"
      "wSyncTarget (synced_all w) = wSyncTarget w" "wSyncBytes (synced_all w) = wSyncBytes w"
      by (simp_all add: synced_all_def set_synced_def)
    then show ?thesis using p(3) w by (auto simp: synced_ok_def covers_def base_of_def)
  qed
  ultimately show "wal_inv (synced_all w) cs a" unfolding wal_inv_def by blast
qed

section \<open>New segments\<close>

lemma update_absent: "k \<notin> fst ` set xs \<Longrightarrow> AList.update k v xs = xs @ [(k, v)]"
  by (induction xs) auto

definition full_chunks :: "chunks \<Rightarrow> bool" where
  "full_chunks cs \<longleftrightarrow> (\<forall>c \<in> set cs. snd c \<noteq> [])"

lemma tidy_snoc: "tidy (cs @ [c]) \<longleftrightarrow> full_chunks cs"
  by (simp add: tidy_def full_chunks_def)

lemma full_chunksI: "tidy cs \<Longrightarrow> cs \<noteq> [] \<Longrightarrow> last_entries cs \<noteq> [] \<Longrightarrow> full_chunks cs"
  by (cases cs rule: rev_cases) (auto simp: tidy_def full_chunks_def)

lemma next_new:
  assumes "live w cs" and "full_chunks cs"
  shows "wNextLSN w \<notin> fst ` set cs"
proof -
  have "contig 1 (cs @ [(wNextLSN w, [])])" using assms(1) by (simp add: live_def log_fits_def contig_append)
  from contig_sorted(2) [OF this] assms(2) show ?thesis by (simp add: tidy_snoc)
qed

text \<open>The files may grow.\<close>

lemma live_files:
  assumes "live w cs" and "holds_all w cs" "holds_all w' cs"
    and s: "same_state w (w'\<lparr>wDisk := wDisk w\<rparr>)" and "dSnaps (wDisk w') = []"
  shows "live w' cs"
proof -
  have e: "wOpts w' = wOpts w" "wOffload w' = wOffload w" "wSnapLSN w' = wSnapLSN w"
     "wSegments w' = wSegments w" "wNextLSN w' = wNextLSN w" "wActiveSize w' = wActiveSize w"
     "wHist w' = wHist w" "wf (wM w')" "lview_of (wM w') = lview_of (wM w)"
    using s by (simp_all add: same_state_def)
  have "contents w cs = contents w' cs"
    using assms(1-3) e by (intro contents_same [where mx = "woMaxEntryBytes (wOpts w)"]) (auto simp: live_def)
  with assms(1,5) e(8) show ?thesis unfolding live_def e by auto
qed

lemma holds_live:
  assumes "live w cs" and "dSegs (wDisk w') = segs_of (butlast cs) @ (last_start cs, seg_image (last_start cs) (last_entries cs) @ junk) # rest"
  shows "holds_all w' cs"
proof -
  have cs: "cs \<noteq> []" "distinct (map fst cs)" using assms(1) contig_sorted(2) by (auto simp: live_def log_fits_def)
  then have c: "butlast cs @ [(last_start cs, last_entries cs)] = cs" by simp
  show ?thesis using holds_all_segs [of "butlast cs" "last_start cs" "last_entries cs" w' junk rest] assms(2) cs(2) unfolding c by blast
qed

lemma segs_of_last: "cs \<noteq> [] \<Longrightarrow> segs_of cs = segs_of (butlast cs) @ [(last_start cs, seg_image (last_start cs) (last_entries cs))]"
  by (cases cs rule: rev_cases) simp_all

lemma torn_none: "plain_opts opts \<Longrightarrow> torn_at (woMaxEntryBytes opts) lsn []"
  using small_ack unfolding torn_at_def by (intro exI [of _ "WAck []"] exI [of _ 0]) auto

lemma stray_inv:
  assumes "wal_inv w cs a" and "wFailure w = ok" and "\<not> wSyncing w" and "full_chunks cs"
  shows "wal_inv (snd (setFailure c (w\<lparr>wDisk := (wDisk w)\<lparr>dSegs := segs_of cs @ [(wNextLSN w, take n (encodeHeaderFlags walMagic (wNextLSN w) 0))],
    dSynced := 0\<rparr>\<rparr>))) cs a"
proof -
  let ?s = "[(wNextLSN w, take n (encodeHeaderFlags walMagic (wNextLSN w) 0))]"
  let ?w = "snd (setFailure c (w\<lparr>wDisk := (wDisk w)\<lparr>dSegs := segs_of cs @ ?s, dSynced := 0\<rparr>\<rparr>))"
  note p = wal_inv_parts [OF assms(1,2)]
  have cs: "cs \<noteq> []" "plain_opts (wOpts w)" "wf (wM w)" "dSnaps (wDisk w) = []" using p(1) by (simp_all add: live_def)
  then have last: "last_entries cs \<noteq> []" using assms(4) by (simp add: full_chunks_def)
  obtain f ev where "?w = (w\<lparr>wDisk := (wDisk w)\<lparr>dSegs := segs_of cs @ ?s, dSynced := 0\<rparr>\<rparr>)\<lparr>wFailure := Some f, wEvents := ev\<rparr>"
    by (rule setFailure_frame)
  then obtain w' where w: "?w = w'" "w' = w\<lparr>wDisk := (wDisk w)\<lparr>dSegs := segs_of cs @ ?s, dSynced := 0\<rparr>, wFailure := Some f, wEvents := ev\<rparr>" by simp
  have "holds_all w cs" "holds_all w' cs"
    using holds_live [OF p(1), of w "[]" "[]"] holds_live [OF p(1), of w' "[]" ?s] segs_of_last [OF cs(1)] p(4) w(2) by simp_all
  then have "live w' cs" by (rule live_files [OF p(1)]) (use cs in \<open>simp_all add: same_state_def w(2)\<close>)
  moreover have "laid_out w' cs [] ?s"
    using segs_of_last [OF cs(1)] last assms(3) torn_none [OF cs(2)] by (auto simp: laid_out_def stray_ok_def w(2))
  moreover have "synced_ok w' cs ?s a" using p(3) assms(3) by (simp add: synced_ok_def covers_def w(2))
  ultimately show ?thesis unfolding wal_inv_def w(1) by blast
qed

lemma createSegment_inv:
  assumes "wal_inv w cs a" and "wFailure w = ok" and "\<not> wSyncing w" and "full_chunks cs"
    and r: "createSegment e (wNextLSN w) w = (r, w1)"
  shows "r \<noteq> ok \<Longrightarrow> wal_inv w1 cs a \<and> wM w1 = wM w \<and> wOffload w1 = wOffload w \<and> wNextLSN w1 = wNextLSN w"
    "r = ok \<Longrightarrow> w1 = w\<lparr>wDisk := (wDisk w)\<lparr>dSegs := segs_of (cs @ [(wNextLSN w, [])]), dSynced := headerSize\<rparr>\<rparr>"
proof -
  note p = wal_inv_parts [OF assms(1,2)]
  have cs: "cs \<noteq> []" "woSigner (wOpts w) = None" using p(1) by (simp_all add: live_def plain_opts_def)
  have upd: "AList.update (wNextLSN w) b (dSegs (wDisk w)) = segs_of cs @ [(wNextLSN w, b)]" for b
    using next_new [OF p(1) assms(4)] by (simp add: p(4) update_absent)
  show "r = ok \<Longrightarrow> w1 = w\<lparr>wDisk := (wDisk w)\<lparr>dSegs := segs_of (cs @ [(wNextLSN w, [])]), dSynced := headerSize\<rparr>\<rparr>"
    using r upd cs(2)
    by (auto simp: createSegment_def Let_def set_synced_def put_seg_def seg_image_def fileFlags_def split: option.splits if_splits)
  assume f: "r \<noteq> ok"
  show "wal_inv w1 cs a \<and> wM w1 = wM w \<and> wOffload w1 = wOffload w \<and> wNextLSN w1 = wNextLSN w"
  proof (cases "w1 = w")
    case False
    obtain n c where w1: "w1 = snd (setFailure c (set_synced 0 (put_seg (wNextLSN w) (take n (encodeHeaderFlags walMagic (wNextLSN w) 0)) w)))"
    proof -
      let ?h = "encodeHeaderFlags walMagic (wNextLSN w) 0"
      obtain ft rerr where ft: "svFault e = Some ft" "\<not> is_OpenFails ft" "svRemove e = Some rerr"
        using r f False by (auto simp: createSegment_def Let_def split: option.splits if_splits)
      have "\<exists>n. (case ft of HeaderFails n _ \<Rightarrow> take n ?h | _ \<Rightarrow> ?h) = take n ?h"
        by (cases ft) (auto intro: exI [of _ headerSize])
      then obtain n where n: "(case ft of HeaderFails n _ \<Rightarrow> take n ?h | _ \<Rightarrow> ?h) = take n ?h" by blast
      have "w1 = snd (setFailure (EWrap ''cannot clean up new segment'' [rerr, fault_error ft]) (set_synced 0 (put_seg (wNextLSN w) (take n ?h) w)))"
        using r ft cs(2) n by (auto simp: createSegment_def Let_def fileFlags_def)
      then show ?thesis by (rule that)
    qed
    let ?b = "take n (encodeHeaderFlags walMagic (wNextLSN w) 0)"
    define w2 where "w2 = snd (setFailure c (w\<lparr>wDisk := (wDisk w)\<lparr>dSegs := segs_of cs @ [(wNextLSN w, ?b)], dSynced := 0\<rparr>\<rparr>))"
    have "w1 = w2" using upd by (simp add: w1 w2_def set_synced_def put_seg_def)
    then show ?thesis using stray_inv [OF assms(1-4), of c n] by (simp add: w2_def)
  qed (use assms(1) in simp)
qed

text \<open>What no step of the log writer changes.\<close>

definition same_mem :: "WALStore \<Rightarrow> WALStore \<Rightarrow> bool" where
  "same_mem w w' \<longleftrightarrow> wM w' = wM w \<and> wOffload w' = wOffload w \<and> wOpts w' = wOpts w \<and> wClosed w' = wClosed w \<and> wHist w' = wHist w"

lemma same_mem_trans: "same_mem w w1 \<Longrightarrow> same_mem w1 w2 \<Longrightarrow> same_mem w w2"
  by (simp add: same_mem_def)

lemma same_mem_failure [simp]: "same_mem w (snd (setFailure c w))"
  by (rule setFailure_frame [of c w]) (simp add: same_mem_def)

lemma same_mem_sync_end: "same_mem w (sync_end res w)"
proof (cases res)
  case (Some err)
  have "same_mem (w\<lparr>wSyncing := False\<rparr>) (sync_end res w)" using Some by (simp add: sync_end_def)
  then show ?thesis by (simp add: same_mem_def)
qed (simp add: sync_end_def Let_def set_synced_def same_mem_def)

lemma sync_end_sel [simp]: "wSyncing (sync_end res w) = False" "wNextLSN (sync_end res w) = wNextLSN w"
  by (auto simp: sync_end_def Let_def set_synced_def setFailure_def wal_emit_def split: option.split)

lemma same_mem_create: "same_mem w (snd (createSegment e k w))"
proof -
  have "same_mem w (set_synced n (put_seg k b w))" for n b by (simp add: same_mem_def set_synced_def put_seg_def)
  moreover have "same_mem w w" by (simp add: same_mem_def)
  ultimately show ?thesis
    by (auto simp: createSegment_def Let_def split: option.split intro: same_mem_trans [OF _ same_mem_failure])
qed

lemma new_segment_inv:
  assumes "wal_inv w cs a" and "wFailure w = ok" and "full_chunks cs" and "\<not> wSyncing w"
    and w1: "w1 = w\<lparr>wDisk := (wDisk w)\<lparr>dSegs := segs_of (cs @ [(wNextLSN w, [])]), dSynced := headerSize\<rparr>, wActiveSize := int headerSize,
      wSegments := wSegments w @ [wNextLSN w]\<rparr>"
  shows "wal_inv w1 (cs @ [(wNextLSN w, [])]) a"
proof -
  let ?cs = "cs @ [(wNextLSN w, [])]"
  note p = wal_inv_parts [OF assms(1,2)]
  note l = liveD [OF p(1)]
  have "holds_all w cs" "holds_all w1 cs"
    using holds_live [OF p(1), of w "[]" "[]"] holds_live [OF p(1), of w1 "[]" "segs_of [(wNextLSN w, [])]"] segs_of_last [OF l(5)] p(4)
    by (simp_all add: w1)
  then have "contents w cs = contents w1 cs"
    using l by (intro contents_same [where mx = "woMaxEntryBytes (wOpts w)"]) (simp_all add: w1)
  then have "contents w1 ?cs = wHist w1" using l(13) by (simp add: contents_def) (simp add: w1 contents_def)
  moreover have "log_fits (woMaxEntryBytes (wOpts w)) ?cs" using l(7,10) by (simp add: log_fits_def contig_append)
  moreover have "v_ok (wOffload w1) (log_of ?cs) v_init" "wOffload w1 = (\<not> woPayloadsInMemory (wOpts w1))"
    "lview_of (wM w1) = v_run (wOffload w1) (log_of ?cs) v_init" using l(2,8,12) by (simp_all add: w1)
  ultimately have "live w1 ?cs" unfolding live_def
    using l(1,3-7,9-11) assms(3) by (simp add: w1 tidy_snoc seg_image_def)
  moreover have "laid_out w1 ?cs [] []" using torn_none [OF l(1)] by (simp add: laid_out_def w1 stray_ok_def)
  moreover have "synced_ok w1 ?cs [] a"
    using p(3) assms(4) by (auto simp: synced_ok_def covers_def within_bytes_def w1 base_of_def)
  ultimately show ?thesis unfolding wal_inv_def by blast
qed

lemma rotate_inv:
  assumes "wal_inv w cs a" and "wFailure w = ok" and "full_chunks cs" and r: "rotateLocked e w = (r, w1)"
  shows "r \<noteq> ok \<Longrightarrow> wal_inv w1 cs a" "r = ok \<Longrightarrow> wal_inv w1 (cs @ [(wNextLSN w, [])]) a \<and> wFailure w1 = ok" "same_mem w w1" "wNextLSN w1 = wNextLSN w"
proof -
  define w2 where "w2 = (if wSyncing w then sync_end (lvPending e) w else w)"
  have w2: "wal_inv w2 cs a" "\<not> wSyncing w2" "same_mem w w2" "wNextLSN w2 = wNextLSN w"
    using assms(1) by (auto simp: w2_def sync_end_inv same_mem_sync_end) (simp add: same_mem_def)
  have inv: "(r \<noteq> ok \<longrightarrow> wal_inv w1 cs a) \<and> (r = ok \<longrightarrow> wal_inv w1 (cs @ [(wNextLSN w, [])]) a \<and> wFailure w1 = ok)
    \<and> same_mem w w1 \<and> wNextLSN w1 = wNextLSN w"
  proof (cases "wFailure w2")
    case (Some f)
    then have "r = Some f" "w1 = w2" using r assms(2) by (simp_all add: rotateLocked_def Let_def w2_def [symmetric])
    with w2 show ?thesis by simp
  next
    case None
    show ?thesis
    proof (cases "lvSync e")
      case (Some err)
      then have "r \<noteq> ok" "w1 = snd (setFailure (EWrap ''fsync on rotation'' [err]) w2)"
        using r assms(2) None by (auto simp: rotateLocked_def Let_def w2_def [symmetric])
      with w2 wal_inv_same [OF w2(1) same_log_failure [OF wal_inv_wf [OF w2(1)]]] show ?thesis
        by (auto intro: same_mem_trans [OF w2(3)])
    next
      case N: None
      let ?s = "synced_all w2"
      obtain r3 w3 where r3: "createSegment (lvSegment e) (wNextLSN ?s) ?s = (r3, w3)" by fastforce
      have s: "wFailure ?s = ok" "\<not> wSyncing ?s" "wNextLSN ?s = wNextLSN w" "same_mem w2 ?s"
        using None w2 by (simp_all add: synced_all_def set_synced_def same_mem_def)
      have "max (wDurable w2) (wWritten w2) = wWritten w2"
        using w2(1) by (auto simp: wal_inv_def synced_ok_def)
      then have rl: "(r, w1) = (case r3 of Some err \<Rightarrow> (Some err, w3)
          | None \<Rightarrow> (ok, w3\<lparr>wActiveSize := int headerSize, wSegments := wSegments w3 @ [wNextLSN w3]\<rparr>))"
        using r assms(2) None N r3 by (simp add: rotateLocked_def Let_def w2_def [symmetric] synced_all_def split: option.splits)
      note si = synced_all_inv [OF w2(1) None]
      note ci = createSegment_inv [OF si(1) s(1,2) assms(3) r3]
      have m3: "same_mem w w3" using same_mem_create [of ?s "lvSegment e" "wNextLSN ?s"] r3 s(4) w2(3) by (auto intro: same_mem_trans)
      show ?thesis
      proof (cases r3)
        case (Some err)
        with ci(1) rl m3 s(3) show ?thesis by (auto simp: same_mem_def)
      next
        case None
        let ?cs = "cs @ [(wNextLSN w, [])]"
        have w3: "w3 = ?s\<lparr>wDisk := (wDisk ?s)\<lparr>dSegs := segs_of ?cs, dSynced := headerSize\<rparr>\<rparr>" using ci(2) [OF None] s(3) by simp
        have w1: "w1 = w3\<lparr>wActiveSize := int headerSize, wSegments := wSegments w3 @ [wNextLSN w3]\<rparr>" "r = ok" using rl None by simp_all
        have "wal_inv w1 ?cs a"
        proof (rule new_segment_inv [OF si(1) s(1) assms(3) s(2), of w1, unfolded s(3)])
          show "w1 = ?s\<lparr>wDisk := (wDisk ?s)\<lparr>dSegs := segs_of ?cs, dSynced := headerSize\<rparr>, wActiveSize := int headerSize,
            wSegments := wSegments ?s @ [wNextLSN w]\<rparr>" using w1(1) s(3) by (simp add: w3)
        qed
        with w1 w3 m3 s show ?thesis by (simp add: same_mem_def)
      qed
    qed
  qed
  from inv show "r \<noteq> ok \<Longrightarrow> wal_inv w1 cs a" "r = ok \<Longrightarrow> wal_inv w1 (cs @ [(wNextLSN w, [])]) a \<and> wFailure w1 = ok" "same_mem w w1" "wNextLSN w1 = wNextLSN w"
    by auto
qed

section \<open>Writing an entry\<close>

definition add_entry :: "chunks \<Rightarrow> went \<Rightarrow> chunks" where
  "add_entry cs x = butlast cs @ [(last_start cs, last_entries cs @ [x])]"

lemma seg_image_snoc: "seg_image k (es @ [x]) = seg_image k es @ frame_of (k + length es) x"
  by (simp add: seg_image_def frames_append)

lemma add_entry_simps [simp]:
  "butlast (add_entry cs x) = butlast cs" "last (add_entry cs x) = (last_start cs, last_entries cs @ [x])" "add_entry cs x \<noteq> []"
  "tidy (add_entry cs x) = tidy cs"
  by (simp_all add: add_entry_def tidy_def)

lemma add_entry_log:
  assumes "cs \<noteq> []"
  shows "entries (add_entry cs x) = entries cs @ [x]" "map fst (add_entry cs x) = map fst cs"
    "log_of (add_entry cs x) = log_of cs @ [(x, mk_ref (last_start cs) (length (seg_image (last_start cs) (last_entries cs)))
       (last_start cs + length (last_entries cs)) x)]"
proof -
  obtain ds c where cs: "cs = ds @ [c]" using assms by (cases cs rule: rev_cases) auto
  show "entries (add_entry cs x) = entries cs @ [x]" "map fst (add_entry cs x) = map fst cs" by (simp_all add: cs add_entry_def)
  show "log_of (add_entry cs x) = log_of cs @ [(x, mk_ref (last_start cs) (length (seg_image (last_start cs) (last_entries cs)))
       (last_start cs + length (last_entries cs)) x)]"
    by (simp add: cs add_entry_def placed_append length_seg_image)
qed

lemma next_lsn:
  assumes "live w cs"
  shows "last_start cs + length (last_entries cs) = wNextLSN w"
proof -
  obtain ds c where cs: "cs = ds @ [c]" using liveD(5) [OF assms] by (cases cs rule: rev_cases) auto
  show ?thesis using liveD(7,10) [OF assms] by (auto simp: cs log_fits_def contig_append)
qed

text \<open>The entry is in the log and only has to be applied.\<close>

definition logged :: "WALStore \<Rightarrow> chunks \<Rightarrow> nat \<Rightarrow> went \<Rightarrow> blobRef \<Rightarrow> bool" where
  "logged w cs a x ref \<longleftrightarrow> cs \<noteq> [] \<and> (\<forall>m. went_fits x \<and> went_fresh x (seq (wM w)) \<and> wf m \<and> lview_of m = v_apply (wOffload w) x ref (lview_of (wM w))
     \<longrightarrow> wal_inv (noted (set_m m w)) (add_entry cs x) a)"

lemma entry_live:
  assumes l: "live w cs" and segs: "dSegs (wDisk w) = segs_of cs" and small: "entry_small (woMaxEntryBytes (wOpts w)) x"
    and x: "went_fits x" "went_fresh x (seq (wM w))" and room: "Suc (wNextLSN w) < 2 ^ 64"
    and ref: "ref = mk_ref (last_start cs) (length (seg_image (last_start cs) (last_entries cs))) (wNextLSN w) x"
    and m: "wf m" "lview_of m = v_apply (wOffload w) x ref (lview_of (wM w))"
    and w1: "wOpts w1 = wOpts w" "wOffload w1 = wOffload w" "wSnapLSN w1 = 0" "dSnaps (wDisk w1) = []" "wSegments w1 = wSegments w"
      "wNextLSN w1 = Suc (wNextLSN w)" "wActiveSize w1 = wActiveSize w + int (length (frame_of (wNextLSN w) x))" "wHist w1 = wHist w"
      "dSegs (wDisk w1) = segs_of (add_entry cs x)"
  shows "live (noted (set_m m w1)) (add_entry cs x)"
proof -
  let ?cs = "add_entry cs x" and ?w2 = "noted (set_m m w1)" and ?off = "wOffload w"
  note L = liveD [OF l] and E = add_entry_log [OF liveD(5) [OF l], of x] and n = next_lsn [OF l]
  have e2: "wOpts ?w2 = wOpts w" "wOffload ?w2 = ?off" "wDisk ?w2 = wDisk w1" by (simp_all add: noted_def set_m_def w1)
  have log: "log_of ?cs = log_of cs @ [(x, ref)]" using E(3) n ref by simp
  have sg: "segs_of ?cs = segs_of (butlast cs) @ [(last_start cs, seg_image (last_start cs) (last_entries cs) @ frame_of (wNextLSN w) x)]"
    by (simp add: add_entry_def seg_image_snoc n)
  have "holds_all w cs" "holds_all ?w2 cs"
    using holds_live [OF l, of w "[]" "[]"] holds_live [OF l, of ?w2 "frame_of (wNextLSN w) x" "[]"] segs_of_last [OF L(5)] segs sg e2 w1(9)
    by simp_all
  then have "contents w cs = contents ?w2 cs"
    using L e2 by (intro contents_same [where mx = "woMaxEntryBytes (wOpts w)"]) simp_all
  moreover have "contents ?w2 ?cs = contents ?w2 cs @ [view_content ?w2 (lview_of m)]"
    using L(12) m(2) by (simp add: contents_def log v_trace_append e2(2))
  moreover have "wHist ?w2 = wHist w @ [view_content ?w2 (lview_of m)]"
  proof -
    have "view_content (set_m m w1) = view_content ?w2" by (rule view_content_store) (simp_all add: noted_def)
    then show ?thesis using wal_content_view [of "set_m m w1"] by (simp add: noted_def w1(8)) (simp add: set_m_def w1(8))
  qed
  ultimately have h: "wHist ?w2 = contents ?w2 ?cs" using L(13) by simp
  have fits: "log_fits (woMaxEntryBytes (wOpts w)) ?cs"
  proof -
    obtain ds c where cs: "cs = ds @ [c]" using L(5) by (cases cs rule: rev_cases) auto
    then have "contig 1 ?cs" using L(7) by (simp add: log_fits_def contig_append add_entry_def)
    then show ?thesis using L(7,10) room small E(1) by (simp add: log_fits_def)
  qed
  have run: "v_run ?off (log_of ?cs) v_init = lview_of m" using m(2) L(12) by (simp add: log v_run_append)
  have "v_ok ?off (log_of ?cs) v_init" using x L(8) L(12) [symmetric] by (simp add: log v_ok_append)
  then show ?thesis
    unfolding live_def e2 using h fits run m(1) L(1,2,4-6,9,10,14) w1(3-7) E
    by (simp add: noted_def set_m_def seg_image_snoc n)
qed

lemma entry_synced:
  assumes "synced_ok w cs [] a" and "cs \<noteq> []" and "wWritten w1 = Suc (wWritten w)" "wDurable w1 = wDurable w" "wSyncing w1 = wSyncing w"
    "wSyncTarget w1 = wSyncTarget w" "wSyncBytes w1 = wSyncBytes w" "dSynced (wDisk w1) = dSynced (wDisk w)"
  shows "synced_ok w1 (add_entry cs x) [] a"
proof -
  have E: "length (entries (add_entry cs x)) = Suc (length (entries cs))" using add_entry_log(1) [OF assms(2)] by simp
  have len: "length (entries cs) = length (entries (butlast cs)) + length (last_entries cs)"
    using assms(2) by (cases cs rule: rev_cases) simp_all
  have w: "within_bytes (add_entry cs x) b n" if "within_bytes cs b n" "n \<le> length (entries cs)" for b n
    using that len by (simp add: within_bytes_def)
  have c: "covers w1 (add_entry cs x) [] n" if "covers w cs [] n" for n using that w E assms(8) by (auto simp: covers_def)
  have b: "base_of (Suc (wWritten w)) (add_entry cs x) = base_of (wWritten w) cs" by (simp add: base_of_def E)
  have "base_of (wWritten w) cs + wSyncTarget w \<le> length (entries cs)" if "wSyncing w"
    using assms(1) that by (auto simp: synced_ok_def base_of_def)
  then show ?thesis using assms(1) c w unfolding synced_ok_def assms(3-7) b E by auto
qed

lemma write_inv:
  assumes "wal_inv w cs a" and "wFailure w = ok" and small: "entry_small (woMaxEntryBytes (wOpts w)) x" and room: "Suc (wNextLSN w) < 2 ^ 64"
    and r: "write_frame e (went_typ x) (frame_of (wNextLSN w) x) w = (r, w1)"
  shows "isl r \<Longrightarrow> wal_inv w1 cs a" "same_mem w w1" "wNextLSN w1 \<le> Suc (wNextLSN w)"
    "r = Inr (sq, ref) \<Longrightarrow> logged w1 cs a x ref \<and> wFailure w1 = ok \<and> sq = wWritten w1"
proof -
  note p = wal_inv_parts [OF assms(1,2)]
  note L = liveD [OF p(1)]
  let ?img = "seg_image (last_start cs) (last_entries cs)" and ?f = "frame_of (wNextLSN w) x"
  have "last_start cs \<notin> fst ` set (butlast cs)"
    using contig_sorted(2) [of 1 cs] L(5-7) by (cases cs rule: rev_cases) (auto simp: log_fits_def)
  then have upd: "AList.update (last_start cs) b (dSegs (wDisk w)) = segs_of (butlast cs) @ [(last_start cs, b)]" for b
    unfolding p(4) segs_of_last [OF L(5)] by (intro update_last) simp
  have undo: "AList.update (last_start cs) ?img (dSegs (wDisk w)) = dSegs (wDisk w)" using upd p(4) segs_of_last [OF L(5)] by simp
  note W = r [unfolded write_frame_def Let_def p(5), unfolded p(6) put_seg_def]
  show "same_mem w w1" "wNextLSN w1 \<le> Suc (wNextLSN w)"
    using W by (auto simp: same_mem_def setFailure_def wal_emit_def Let_def split: option.splits prod.splits)
  {
    assume i: "isl r"
    then obtain n err where lw: "lvWrite e = Some (n, err)" using W by (auto split: option.splits)
    show "wal_inv w1 cs a"
    proof (cases "lvTruncate e")
      case None
      have d: "(wDisk w)\<lparr>dSegs := dSegs (wDisk w)\<rparr> = wDisk w" by simp
      have "w1 = w" using W lw None L(14) undo by (simp add: d)
      with assms(1) show ?thesis by simp
    next
      case (Some terr)
      let ?torn = "take (min n (length ?f - 1)) ?f"
      obtain c where "w1 = snd (setFailure c (w\<lparr>wDisk := (wDisk w)\<lparr>dSegs := segs_of (butlast cs) @ [(last_start cs, ?img @ ?torn)]\<rparr>\<rparr>))"
        using W lw Some upd by auto
      then obtain f ev where w1: "w1 = w\<lparr>wDisk := (wDisk w)\<lparr>dSegs := segs_of (butlast cs) @ [(last_start cs, ?img @ ?torn)]\<rparr>,
          wFailure := Some f, wEvents := ev\<rparr>"
        by (metis setFailure_frame)
      have "holds_all w cs" "holds_all w1 cs"
        using holds_live [OF p(1), of w "[]" "[]"] holds_live [OF p(1), of w1 ?torn "[]"] segs_of_last [OF L(5)] p(4)
        by (simp_all add: w1)
      then have "live w1 cs" by (rule live_files [OF p(1)]) (use L in \<open>simp_all add: same_state_def w1\<close>)
      moreover have "torn_at (woMaxEntryBytes (wOpts w)) (wNextLSN w) ?torn"
        using small unfolding torn_at_def by (intro exI [of _ x] exI [of _ "min n (length ?f - 1)"]) (simp add: min_less_iff_disj)
      then have "laid_out w1 cs ?torn []" by (simp add: laid_out_def stray_ok_def w1)
      moreover have "synced_ok w1 cs [] a" using p(3) by (simp add: synced_ok_def covers_def w1)
      ultimately show ?thesis unfolding wal_inv_def by blast
    qed
  }
  assume i: "r = Inr (sq, ref)"
  then have "lvWrite e = None" using W by (auto split: option.splits prod.splits)
  with W i have w1: "w1 = w\<lparr>wDisk := (wDisk w)\<lparr>dSegs := segs_of (add_entry cs x)\<rparr>, wActiveSize := wActiveSize w + int (length ?f),
        wLogBytes := wLogBytes w + int (length ?f), wDiskWritten := wDiskWritten w + length ?f, wNextLSN := wNextLSN w + 1, wWritten := wWritten w + 1\<rparr>"
    and sq: "sq = wWritten w1" and ref: "ref = mk_ref (last_start cs) (length ?img) (wNextLSN w) x"
    using L(1,14) next_lsn [OF p(1)] by (auto simp: upd add_entry_def seg_image_snoc mk_ref_def plain_opts_def)
  have "wal_inv (noted (set_m m w1)) (add_entry cs x) a"
    if m: "went_fits x" "went_fresh x (seq (wM w1))" "wf m" "lview_of m = v_apply (wOffload w1) x ref (lview_of (wM w1))" for m
  proof -
    let ?w2 = "noted (set_m m w1)"
    have "live ?w2 (add_entry cs x)"
      by (rule entry_live [OF p(1,4) small m(1) _ room ref]) (use m L in \<open>simp_all add: w1\<close>)
    moreover have "laid_out ?w2 (add_entry cs x) [] []"
      using torn_none [OF L(1)] by (simp add: laid_out_def stray_ok_def w1 noted_def set_m_def add_entry_def)
    moreover have "synced_ok ?w2 (add_entry cs x) [] a"
      by (rule entry_synced [OF p(3) L(5)]) (simp_all add: noted_def set_m_def w1)
    ultimately show ?thesis unfolding wal_inv_def by blast
  qed
  with assms(2) sq L(5) show "logged w1 cs a x ref \<and> wFailure w1 = ok \<and> sq = wWritten w1" by (simp add: logged_def) (simp add: w1)
qed

definition good :: "WALStore \<Rightarrow> nat \<Rightarrow> bool" where
  "good w a \<longleftrightarrow> (\<exists>cs. wal_inv w cs a)"

lemma goodI: "wal_inv w cs a \<Longrightarrow> good w a"
  by (auto simp: good_def)

lemma wal_good_same: "good w a \<Longrightarrow> same_log w w' \<Longrightarrow> good w' a"
  by (auto simp: good_def intro: wal_inv_same)

lemma good_wf: "good w a \<Longrightarrow> wf (wM w)"
  by (auto simp: good_def dest: wal_inv_wf)

lemma log_inv:
  assumes "wal_inv w cs a" and "wFailure w = ok" and room: "Suc (wNextLSN w) < 2 ^ 64"
    and r: "logLocked e (went_typ x) (went_body x) w = (r, w1)"
  shows "isl r \<Longrightarrow> good w1 a" "same_mem w w1" "wNextLSN w1 \<le> Suc (wNextLSN w)"
    "r = Inr (sq, ref) \<Longrightarrow> entry_small (woMaxEntryBytes (wOpts w)) x \<and> (\<exists>cs'. logged w1 cs' a x ref) \<and> wFailure w1 = ok \<and> sq = wWritten w1"
proof -
  note p = wal_inv_parts [OF assms(1,2)]
  note L = liveD [OF p(1)]
  let ?le = "wvLog e (wNextLSN w)" and ?f = "frame_of (wNextLSN w) x"
  have seal: "sealBody (wOpts w) False (wNextLSN w) (went_typ x) (went_body x) = went_body x"
    using L(1) by (simp add: sealBody_def plain_opts_def)
  note R = r [unfolded logLocked_def Let_def seal frame_of_def [symmetric]]
  have "(isl r \<longrightarrow> good w1 a) \<and> same_mem w w1 \<and> wNextLSN w1 \<le> Suc (wNextLSN w) \<and> (\<forall>sq ref. r = Inr (sq, ref) \<longrightarrow>
     entry_small (woMaxEntryBytes (wOpts w)) x \<and> (\<exists>cs'. logged w1 cs' a x ref) \<and> wFailure w1 = ok \<and> sq = wWritten w1)"
  proof (cases "entry_small (woMaxEntryBytes (wOpts w)) x")
    case False
    then have "isl r" "w1 = w" using R by (auto simp: entry_small_def)
    with assms(1) show ?thesis by (auto simp: same_mem_def intro: goodI)
  next
    case small: True
    have wr: ?thesis if "wal_inv w' cs' a" "wFailure w' = ok" "same_mem w w'" "wNextLSN w' = wNextLSN w"
        "write_frame ?le (went_typ x) ?f w' = (r, w1)" for w' cs'
    proof -
      have o: "wOpts w' = wOpts w" using that(3) by (simp add: same_mem_def)
      have "write_frame ?le (went_typ x) (frame_of (wNextLSN w') x) w' = (r, w1)" using that(4,5) by simp
      note I = write_inv [OF that(1,2) _ _ this, unfolded o that(4), OF small room]
      show ?thesis using small I that(3) same_mem_trans [OF that(3) I(2)] by (auto intro: goodI)
    qed
    show ?thesis
    proof (cases "int headerSize < wActiveSize w \<and> woSegmentBytes (wOpts w) < wActiveSize w + int (length ?f)")
      case False
      then have "write_frame ?le (went_typ x) ?f w = (r, w1)" using R small by (auto simp: entry_small_def)
      then show ?thesis using assms(1,2) by (intro wr) (simp_all add: same_mem_def)
    next
      case True
      then have "last_entries cs \<noteq> []" using L(14) by (auto simp: length_seg_image)
      then have full: "full_chunks cs" using full_chunksI L(5,6) by blast
      obtain r' w' where r': "rotateLocked ?le w = (r', w')" by fastforce
      note I = rotate_inv [OF assms(1,2) full r']
      have R': "(case r' of Some err \<Rightarrow> (Inl err, w') | None \<Rightarrow> write_frame ?le (went_typ x) ?f w') = (r, w1)"
        using R True small r' by (auto simp: entry_small_def split: option.splits)
      show ?thesis
      proof (cases r')
        case (Some err)
        with R' I show ?thesis by (auto intro: goodI)
      next
        case None
        with I R' show ?thesis by (intro wr [of w' "cs @ [(wNextLSN w, [])]"]) auto
      qed
    qed
  qed
  then show "isl r \<Longrightarrow> good w1 a" "same_mem w w1" "wNextLSN w1 \<le> Suc (wNextLSN w)"
    "r = Inr (sq, ref) \<Longrightarrow> entry_small (woMaxEntryBytes (wOpts w)) x \<and> (\<exists>cs'. logged w1 cs' a x ref) \<and> wFailure w1 = ok \<and> sq = wWritten w1"
    by auto
qed

section \<open>Entries that fit\<close>

text \<open>An entry that is short enough has no string that is too long; times and numbers have to be in range.\<close>

definition stamps_fit :: "went \<Rightarrow> bool" where
  "stamps_fit x = (case x of WAppend r \<Rightarrow> record_fits r \<and> rState r \<noteq> Leased | WNack _ t nxt _ _ _ \<Rightarrow> time_fits t \<and> time_fits nxt
     | WPark _ t _ \<Rightarrow> time_fits t | WRequeue _ replace cp \<Rightarrow> \<not> replace \<longrightarrow> cp = None | _ \<Rightarrow> True)"

lemma str_small: "length (e_str s) \<le> 2 ^ 30 \<Longrightarrow> str_fits s"
  by (simp add: e_str_def str_fits_def)

lemma bytes_small: "length (e_nullable b) \<le> 2 ^ 30 \<Longrightarrow> bytes_fit b"
  by (cases b) (simp_all add: e_nullable_def bytes_fit_def str_fits_def)

lemma strs_small: "length (concat (map e_str ids)) \<le> 2 ^ 30 \<Longrightarrow> list_all str_fits ids \<and> is_uint64 (length ids)"
proof -
  assume s: "length (concat (map e_str ids)) \<le> 2 ^ 30"
  have "length (e_str i) \<le> length (concat (map e_str ids))" if "i \<in> set ids" for i
    using that by (induction ids) auto
  with s have "list_all str_fits ids" unfolding list_all_iff by (metis le_trans str_small)
  then show ?thesis using length_strs [of ids] s by (simp add: is_uint64_def)
qed

lemma small_went_fits:
  assumes "entry_small mx x" and "mx \<le> 2 ^ 30" and "stamps_fit x"
  shows "went_fits x"
proof -
  have l: "length (went_body x) \<le> 2 ^ 30" using assms(1,2) by (simp add: entry_small_def)
  show ?thesis
  proof (cases x)
    case (WLease ids)
    with l strs_small [of ids] show ?thesis by (simp add: went_fits_def went_body_def del: length_concat)
  next
    case (WRequeue i replace cp)
    with l assms(3) show ?thesis
      by (cases replace) (auto simp: went_fits_def went_body_def stamps_fit_def bytes_fit_def intro!: str_small bytes_small [unfolded bytes_fit_def])
  qed (use l assms(3) in \<open>auto simp: went_fits_def went_body_def stamps_fit_def intro!: str_small bytes_small\<close>)
qed

section \<open>Contents\<close>

lemma last_trace: "last (v # v_trace off ps v) = v_run off ps v"
  by (induction ps arbitrary: v) (simp_all add: Let_def)

text \<open>The present content is the last that was noted.\<close>

lemma inv_content:
  assumes "wal_inv w cs a"
  shows "wal_content w = last (wHist w)" "length (wHist w) = Suc (length (entries cs))" "wHist w = c_trace (entries cs) Map.empty"
proof -
  have l: "live w cs" using assms by (simp add: wal_inv_def)
  have "last (contents w cs) = view_content w (v_run (wOffload w) (log_of cs) v_init)"
    using last_trace [of v_init "wOffload w" "log_of cs"] unfolding contents_def by (subst last_map) simp_all
  then show "wal_content w = last (wHist w)" using liveD(12,13) [OF l] by (simp add: wal_content_view)
  show "length (wHist w) = Suc (length (entries cs))" using liveD(13) [OF l] by simp
  obtain torn stray where "laid_out w cs torn stray" using assms by (auto simp: wal_inv_def)
  then have "holds_all w cs" using holds_live [OF l] by (auto simp: laid_out_def)
  then show "wHist w = c_trace (entries cs) Map.empty" by (rule contents_abstract [OF l])
qed

text \<open>Every item of the index can be read.\<close>

lemma inv_view_ok:
  assumes "wal_inv w cs a"
  shows "view_ok w (lview_of (wM w))"
proof -
  have l: "live w cs" using assms by (simp add: wal_inv_def)
  obtain torn stray where "laid_out w cs torn stray" using assms by (auto simp: wal_inv_def)
  then have "holds_all w cs" using holds_live [OF l] by (auto simp: laid_out_def)
  then show ?thesis using live_view_ok [OF l] liveD(12) [OF l] by simp
qed

end
