(* ===== verification/GG_Wal_Ops.thy ===== *)
theory GG_Wal_Ops
  imports GG_Wal_Live GG_Memory
begin

text \<open>
  Every operation of the log-backed store keeps its invariant: it logs one entry (or, for a lease, one per unreadable record and one
  for the batch) and then changes the machine exactly as replaying the entry would.
\<close>

section \<open>Log, then apply\<close>

definition room :: "nat \<Rightarrow> WALStore \<Rightarrow> bool" where
  "room n w \<longleftrightarrow> wNextLSN w + n < 2 ^ 64"

text \<open>
  What an operation promises: the invariant, and that on success the content changed as its entry says, while an error leaves it
  as it was.
\<close>

definition does :: "nat \<Rightarrow> went \<Rightarrow> 'a locked \<Rightarrow> WALStore \<Rightarrow> bool" where
  "does a x res w \<longleftrightarrow> good (snd res) a \<and> wal_content (snd res) = (if isl (fst res) then wal_content w else c_apply x (wal_content w))"

lemma does_good: "does a x res w \<Longrightarrow> good (snd res) a"
  by (simp add: does_def)

lemma does_nothing: "good w a \<Longrightarrow> does a x (Inl err, w) w"
  by (simp add: does_def)

lemma good_content: "good w a \<Longrightarrow> wal_content w = last (wHist w)"
  using inv_content(1) by (auto simp: good_def)

lemma same_content: "good w a \<Longrightarrow> good w' a \<Longrightarrow> wHist w' = wHist w \<Longrightarrow> wal_content w' = wal_content w"
  using good_content by metis

lemma begin_ok: "wal_begin ctx w = ok \<Longrightarrow> wFailure w = ok"
  by (auto simp: wal_begin_def split: option.splits if_splits)

lemma good_opts: "good w a \<Longrightarrow> plain_opts (wOpts w)"
  by (auto simp: good_def wal_inv_def live_def)

lemma applied:
  assumes "logged w cs a x ref" and "entry_small (woMaxEntryBytes (wOpts w)) x" "plain_opts (wOpts w)"
    and "stamps_fit x" and "went_fresh x (seq (wM w))" and "wf m" "lview_of m = v_apply (wOffload w) x ref (lview_of (wM w))"
  shows "good (noted (set_m m w)) a \<and> wal_content (noted (set_m m w)) = c_apply x (last (wHist w))"
proof -
  have "went_fits x" using small_went_fits assms(2-4) by (auto simp: plain_opts_def)
  with assms have i: "wal_inv (noted (set_m m w)) (add_entry cs x) a" "cs \<noteq> []" unfolding logged_def by blast+
  have "wHist (noted (set_m m w)) = c_trace (entries cs) Map.empty @ [c_apply x (last (c_trace (entries cs) Map.empty))]"
    using inv_content(3) [OF i(1)] add_entry_log(1) [OF i(2)] by (simp add: c_trace_snoc)
  moreover have "wHist (noted (set_m m w)) = wHist w @ [wal_content (set_m m w)]" by (simp add: noted_def set_m_def)
  ultimately show ?thesis using inv_content(1) [OF i(1)] goodI [OF i(1)] by simp
qed

lemma log_apply_good:
  assumes "good w a" and "wFailure w = ok" and "room 1 w" and x: "stamps_fit x" "went_fresh x (seq (wM w))"
    and app: "\<And>ref w'. same_mem w w' \<Longrightarrow> \<exists>m. app ref w' = set_m m w' \<and> wf m \<and> lview_of m = v_apply (wOffload w') x ref (lview_of (wM w'))"
  shows "does a x (log_apply e (went_typ x) (went_body x) app w) w"
proof -
  obtain cs where cs: "wal_inv w cs a" using assms(1) by (auto simp: good_def)
  obtain r w1 where r: "logLocked e (went_typ x) (went_body x) w = (r, w1)" by fastforce
  have lsn: "Suc (wNextLSN w) < 2 ^ 64" using assms(3) by (simp add: room_def)
  note I = log_inv [OF cs assms(2) lsn r]
  show ?thesis
  proof (cases r)
    case (Inl err)
    have "good w1 a" "wHist w1 = wHist w" using I(1,2) Inl by (simp_all add: same_mem_def)
    with same_content [OF assms(1)] r Inl show ?thesis by (simp add: log_apply_def does_def)
  next
    case (Inr sr)
    obtain sq ref where sr: "sr = (sq, ref)" by fastforce
    obtain cs' where l: "entry_small (woMaxEntryBytes (wOpts w)) x" "logged w1 cs' a x ref" using I(4) Inr sr by blast
    have s: "wOpts w1 = wOpts w" "wM w1 = wM w" "wHist w1 = wHist w" using I(2) by (simp_all add: same_mem_def)
    obtain m where m: "app ref w1 = set_m m w1" "wf m" "lview_of m = v_apply (wOffload w1) x ref (lview_of (wM w1))"
      using app [OF I(2)] by blast
    have g: "good (noted (app ref w1)) a \<and> wal_content (noted (app ref w1)) = c_apply x (last (wHist w1))"
      unfolding m(1) using l x good_opts [OF assms(1)] m by (intro applied) (simp_all add: s)
    have "same_log (noted (app ref w1)) (maybeCompactLocked (noted (app ref w1)))" using g good_wf same_log_compact by blast
    then have "good (maybeCompactLocked (noted (app ref w1))) a" "wHist (maybeCompactLocked (noted (app ref w1))) = wHist (noted (app ref w1))"
      using g wal_good_same by (auto simp: same_log_def)
    with same_content g have "wal_content (maybeCompactLocked (noted (app ref w1))) = c_apply x (wal_content w)"
      using good_content [OF assms(1)] s(3) by metis
    with \<open>good (maybeCompactLocked (noted (app ref w1))) a\<close> r Inr sr show ?thesis by (simp add: log_apply_def does_def)
  qed
qed

text \<open>The machine part of an operation on a held or parked item.\<close>

lemma on_item:
  assumes "wf m" and "lookup m i = Some p" and "item_acts p f m (g p m)" and "wf (g p m)"
  shows "wf (g p m) \<and> lview_of (g p m) = v_upd i f (lview_of m)"
  using assms item_acts_upd by blast

section \<open>Operations\<close>

lemma withLease_good:
  assumes "good w a" and "room 1 w" and x: "stamps_fit x" "went_fresh x (seq (wM w))" and body: "went_typ x = typ" "went_body x = e_str i @ body"
    and app: "\<And>p ref off. held (wM w) i tok = Inr p \<Longrightarrow> wf (app p (wM w)) \<and> lview_of (app p (wM w)) = v_apply off x ref (lview_of (wM w))"
  shows "does a x (withLease e i tok typ body app w) w"
proof (cases "wal_begin (wvCtx e) w")
  case None
  show ?thesis
  proof (cases "held (wM w) i tok")
    case (Inr p)
    have "does a x (log_apply e (went_typ x) (went_body x) (\<lambda>_ w. set_m (app p (wM w)) w) w) w"
    proof (rule log_apply_good [OF assms(1) begin_ok [OF None] assms(2) x])
      fix ref w' assume "same_mem w w'"
      then show "\<exists>m. set_m (app p (wM w')) w' = set_m m w' \<and> wf m \<and> lview_of m = v_apply (wOffload w') x ref (lview_of (wM w'))"
        using app [OF Inr] by (auto simp: same_mem_def)
    qed
    then show ?thesis using None Inr body by (simp add: withLease_def)
  qed (use does_nothing [OF assms(1)] None in \<open>simp add: withLease_def\<close>)
qed (use does_nothing [OF assms(1)] in \<open>simp add: withLease_def\<close>)

lemma wal_Ack_good: "good w a \<Longrightarrow> room 1 w \<Longrightarrow> does a (WAck i) (wal_Ack e i tok w) w"
  unfolding wal_Ack_def
  by (rule withLease_good [where x = "WAck i"])
    (auto simp: stamps_fit_def went_fresh_def went_typ_def went_body_def v_apply_def
      dest: held_order(6) [OF good_wf] held_order(1) [OF good_wf] intro: wf_machine_remove good_wf remove_view)

lemma wal_Release_good: "good w a \<Longrightarrow> room 1 w \<Longrightarrow> does a (WRelease i) (wal_Release e i tok w) w"
proof -
  assume g: "good w a" "room 1 w"
  have "wf (applyRelease p (wM w)) \<and> lview_of (applyRelease p (wM w)) = v_upd i (on_rec release_r) (lview_of (wM w))"
    if "held (wM w) i tok = Inr p" for p
    using held_order [OF good_wf [OF g(1)] that] good_wf [OF g(1)] by (intro on_item item_acts_Release wf_applyRelease)
  then show ?thesis unfolding wal_Release_def using g
    by (intro withLease_good [where x = "WRelease i"]) (auto simp: stamps_fit_def went_fresh_def went_typ_def went_body_def v_apply_def)
qed

lemma wal_Nack_good:
  assumes g: "good w a" "room 1 w" and t: "time_fits (wvNow e)" "time_fits (wvNow e + nDelay opts)"
  shows "does a (WNack i (wvNow e) (wvNow e + nDelay opts) (nErr opts) (nBlockedOn opts) (nRefund opts)) (wal_Nack e i tok opts w) w"
proof -
  let ?x = "WNack i (wvNow e) (wvNow e + nDelay opts) (nErr opts) (nBlockedOn opts) (nRefund opts)"
  let ?f = "\<lambda>p. applyNack p (wvNow e) (wvNow e + nDelay opts) (nErr opts) (nBlockedOn opts) (nRefund opts)"
  have "wf (?f p (wM w)) \<and> lview_of (?f p (wM w)) = v_upd i (on_rec (nack_r (wvNow e) (wvNow e + nDelay opts) (nErr opts) (nBlockedOn opts) (nRefund opts))) (lview_of (wM w))"
    if "held (wM w) i tok = Inr p" for p
    using held_order [OF good_wf [OF g(1)] that] good_wf [OF g(1)] by (intro on_item item_acts_Nack wf_applyNack)
  then show ?thesis unfolding wal_Nack_def Let_def using g t
    by (intro withLease_good [where x = ?x]) (auto simp: stamps_fit_def went_fresh_def went_typ_def went_body_def v_apply_def)
qed

lemma park_view:
  assumes "wf m" and "lookup m i = Some p"
  shows "wf (applyPark p t reason m) \<and> lview_of (applyPark p t reason m) = v_apply off (WPark i t reason) ref (lview_of m)"
proof -
  have "p \<in> set (order m)" using lookup_order [OF assms] by simp
  then have "wf (applyPark p t reason m) \<and> lview_of (applyPark p t reason m) = v_upd i (on_rec (park_r t reason)) (lview_of m)"
    using assms by (intro on_item item_acts_Park wf_applyPark)
  then show ?thesis by (simp add: v_apply_def)
qed

lemma wal_Park_good:
  assumes g: "good w a" "room 1 w" and t: "time_fits (wvNow e)"
  shows "does a (WPark i (wvNow e) reason) (wal_Park e i tok reason w) w"
  unfolding wal_Park_def Let_def using g t park_view [OF good_wf [OF g(1)] held_order(6) [OF good_wf [OF g(1)]]]
  by (intro withLease_good [where x = "WPark i (wvNow e) reason"]) (auto simp: stamps_fit_def went_fresh_def went_typ_def went_body_def)

lemma disk_mem: "same_mem w (snd (checkDiskLocked e n w))" "wNextLSN (snd (checkDiskLocked e n w)) = wNextLSN w"
  "wFailure (snd (checkDiskLocked e n w)) = wFailure w"
  by (simp_all add: same_mem_def checkDiskLocked_def wal_emit_def Let_def)

lemma wal_Checkpoint_good:
  assumes g: "good w a" "room 1 w"
  shows "does a (WCheckpoint i cp) (wal_Checkpoint e i tok cp w) w"
proof (cases "wal_begin (wvCtx e) w = ok \<and> \<not> isl (held (wM w) i tok) \<and> checkCheckpoint (wM w) (projr (held (wM w) i tok)) cp = ok")
  case True
  then obtain p where p: "held (wM w) i tok = Inr p" by (cases "held (wM w) i tok") auto
  obtain r w1 where d: "checkDiskLocked e 0 w = (r, w1)" by fastforce
  have w1: "good w1 a" "same_mem w w1" "wNextLSN w1 = wNextLSN w" "wFailure w1 = wFailure w"
    using wal_good_same [OF g(1) same_log_disk [OF good_wf [OF g(1)]], of e 0] disk_mem [where w = w and e = e and n = 0] d by simp_all
  have m: "wM w1 = wM w" using w1(2) by (simp add: same_mem_def)
  have c1: "wal_content w1 = wal_content w" using same_content [OF g(1) w1(1)] w1(2) by (simp add: same_mem_def)
  show ?thesis
  proof (cases r)
    case None
    have "does a (WCheckpoint i cp) (log_apply e (went_typ (WCheckpoint i cp)) (went_body (WCheckpoint i cp)) (setCheckpointAt p cp) w1) w1"
    proof (rule log_apply_good [OF w1(1)])
      fix ref w' assume "same_mem w1 w'"
      then have w': "wM w' = wM w" using m by (simp add: same_mem_def)
      note h = held_order [OF good_wf [OF g(1)] p]
      have "wf (wM (setCheckpointAt p cp ref w'))" using wf_setCheckpointAt [of w' p cp ref] h(1) good_wf [OF g(1)] w' by simp
      moreover have "lview_of (wM (setCheckpointAt p cp ref w')) = v_apply (wOffload w') (WCheckpoint i cp) ref (lview_of (wM w'))"
        using item_acts_upd [OF item_acts_setCheckpointAt, of w' i p cp ref] h(6) w' by (simp add: v_apply_def)
      moreover have "setCheckpointAt p cp ref w' = set_m (wM (setCheckpointAt p cp ref w')) w'"
        unfolding set_m_def by (rule setCheckpointAt_frame)
      ultimately show "\<exists>m. setCheckpointAt p cp ref w' = set_m m w' \<and> wf m \<and> lview_of m = v_apply (wOffload w') (WCheckpoint i cp) ref (lview_of (wM w'))"
        by blast
    qed (use w1 True g(2) begin_ok [of "wvCtx e" w] in \<open>simp_all add: room_def stamps_fit_def went_fresh_def\<close>)
    then show ?thesis using True p d None c1 by (simp add: wal_Checkpoint_def went_typ_def went_body_def does_def)
  qed (use True p d w1 c1 in \<open>simp add: wal_Checkpoint_def does_def\<close>)
next
  case False
  then show ?thesis using does_nothing [OF g(1)] by (auto simp: wal_Checkpoint_def split: option.split sum.split)
qed

lemma wal_Discard_good:
  assumes g: "good w a" "room 1 w"
  shows "does a (WDiscard i) (wal_Discard e i w) w"
proof (cases "wal_begin (wvCtx e) w")
  case None
  show ?thesis
  proof (cases "parked_item (wM w) i")
    case (Inr p)
    then have p: "lookup (wM w) i = Some p" "state_at (wM w) p = Parked" by (auto simp: parked_item_def split: option.splits if_splits)
    have "does a (WDiscard i) (log_apply e (went_typ (WDiscard i)) (went_body (WDiscard i)) (\<lambda>_ w. set_m (machine_remove p (wM w)) w) w) w"
    proof (rule log_apply_good [OF g(1) begin_ok [OF None] g(2)])
      fix ref w' assume "same_mem w w'"
      then show "\<exists>m. set_m (machine_remove p (wM w')) w' = set_m m w' \<and> wf m \<and> lview_of m = v_apply (wOffload w') (WDiscard i) ref (lview_of (wM w'))"
        using wf_machine_remove [OF good_wf [OF g(1)], of p] remove_view [OF good_wf [OF g(1)] p(1)] lookup_order [OF good_wf [OF g(1)] p(1)] p
        by (auto simp: same_mem_def v_apply_def v_state_lview)
    qed (simp_all add: stamps_fit_def went_fresh_def)
    then show ?thesis using None Inr by (simp add: wal_Discard_def withParked_def went_typ_def went_body_def)
  qed (use does_nothing [OF g(1)] None in \<open>simp add: wal_Discard_def withParked_def\<close>)
qed (use does_nothing [OF g(1)] in \<open>simp add: wal_Discard_def withParked_def\<close>)

lemma wal_RequeueWith_good:
  assumes g: "good w a" "room 1 w"
  shows "does a (WRequeue i (qReplaceCheckpoint opts) (if qReplaceCheckpoint opts then qCheckpoint opts else None)) (wal_RequeueWith e i opts w) w"
proof (cases "wal_begin (wvCtx e) w = ok \<and> \<not> isl (parked_item (wM w) i)
    \<and> (qReplaceCheckpoint opts \<longrightarrow> checkCheckpoint (wM w) (projr (parked_item (wM w) i)) (qCheckpoint opts) = ok)")
  case True
  then obtain p where pi: "parked_item (wM w) i = Inr p" by (cases "parked_item (wM w) i") auto
  then have p: "lookup (wM w) i = Some p" "state_at (wM w) p = Parked" by (auto simp: parked_item_def split: option.splits if_splits)
  let ?cp = "if qReplaceCheckpoint opts then qCheckpoint opts else None"
  let ?x = "WRequeue i (qReplaceCheckpoint opts) ?cp"
  let ?app = "\<lambda>ref w. let w1 = set_m (applyRequeue p False None (wM w)) w in if qReplaceCheckpoint opts then setCheckpointAt p (qCheckpoint opts) ref w1 else w1"
  have "does a ?x (log_apply e (went_typ ?x) (went_body ?x) ?app w) w"
  proof (rule log_apply_good [OF g(1) begin_ok [of "wvCtx e"] g(2)])
    fix ref w' assume "same_mem w w'"
    then have w': "wM w' = wM w" by (simp add: same_mem_def)
    note R = requeue_view [of w' i p "qReplaceCheckpoint opts" "qCheckpoint opts" ref, unfolded w', OF good_wf [OF g(1)] p(1)]
    have "?app ref w' = set_m (wM (?app ref w')) w'" using R unfolding set_m_def Let_def w' by simp
    moreover have "lview_of (wM (?app ref w')) = v_apply (wOffload w') ?x ref (lview_of (wM w'))"
      using R p unfolding set_m_def Let_def w' by (simp add: v_apply_def v_state_lview)
    moreover have "wf (wM (?app ref w'))" using R unfolding set_m_def Let_def w' by simp
    ultimately show "\<exists>m. ?app ref w' = set_m m w' \<and> wf m \<and> lview_of m = v_apply (wOffload w') ?x ref (lview_of (wM w'))" by blast
  qed (use True in \<open>simp_all add: stamps_fit_def went_fresh_def\<close>)
  then show ?thesis using True pi
    by (cases "qReplaceCheckpoint opts") (simp_all add: wal_RequeueWith_def went_typ_def went_body_def)
next
  case False
  then show ?thesis using does_nothing [OF g(1)] by (auto simp: wal_RequeueWith_def split: option.split sum.split)
qed

lemma prepare_filled: "prepare m r now = PrepNew r' \<Longrightarrow> r' = filled r (seq m + 1) now"
  unfolding prepare_def fill_in by (simp only: prepared.distinct prepared.inject split: option.splits if_split_asm)

text \<open>Every record of the machine is in the content.\<close>

lemma content_present: "good w a \<Longrightarrow> lookup (wM w) i \<noteq> None \<Longrightarrow> wal_content w i \<noteq> None"
  using inv_view_ok unfolding good_def wal_content_view
  by (fastforce simp: lookup_def view_ok_def item_ok_def view_content_def)

lemma filled_fits: "record_fits r \<Longrightarrow> is_uint64 n \<Longrightarrow> time_fits now \<Longrightarrow> record_fits (filled r n now)"
  by (simp add: record_fits_def filled_def CurrentSchema_def is_int64_def)

lemma wal_Append_good:
  assumes g: "good w a" "room 1 w" and r: "record_fits r" "time_fits (wvNow e)" "seq (wM w) + 1 < 2 ^ 64"
  shows "does a (WAppend (filled r (seq (wM w) + 1) (wvNow e))) (wal_Append e r w) w"
proof (cases "wal_begin (wvCtx e) w")
  case started: None
  show ?thesis
  proof (cases "prepare (wM w) r (wvNow e)")
    case (PrepNew rec)
    note P = prepare_new [OF PrepNew]
    have rec: "rec = filled r (seq (wM w) + 1) (wvNow e)" by (rule prepare_filled [OF PrepNew])
    have fits: "record_fits rec" using filled_fits r prepare_filled [OF PrepNew] by (simp add: is_uint64_def)
    obtain res w1 where d: "checkDiskLocked e 0 w = (res, w1)" by fastforce
    have w1: "good w1 a" "same_mem w w1" "wNextLSN w1 = wNextLSN w" "wFailure w1 = wFailure w"
      using wal_good_same [OF g(1) same_log_disk [OF good_wf [OF g(1)]], of e 0] disk_mem [where w = w and e = e and n = 0] d by simp_all
    have m: "wM w1 = wM w" using w1(2) by (simp add: same_mem_def)
    have c1: "wal_content w1 = wal_content w" using same_content [OF g(1) w1(1)] w1(2) by (simp add: same_mem_def)
    show ?thesis
    proof (cases res)
      case None
      have "does a (WAppend rec) (log_apply e (went_typ (WAppend rec)) (went_body (WAppend rec)) (insertRecord rec) w1) w1"
      proof (rule log_apply_good [OF w1(1)])
        fix ref w' assume "same_mem w1 w'"
        then have w': "wM w' = wM w" using m by (simp add: same_mem_def)
        have "wf (wM (insertRecord rec ref w'))"
          using insertRecord_wf [of w' rec ref] good_wf [OF g(1)] P(3,5) w' by auto
        moreover have "insertRecord rec ref w' = set_m (wM (insertRecord rec ref w')) w'"
          unfolding set_m_def by (rule insertRecord_frame)
        ultimately show "\<exists>m. insertRecord rec ref w' = set_m m w' \<and> wf m \<and> lview_of m = v_apply (wOffload w') (WAppend rec) ref (lview_of (wM w'))"
          using insertRecord_view [of rec ref w'] by (auto simp: v_apply_def)
      qed (use w1 g(2) begin_ok [OF started] fits P(3,5) m in \<open>auto simp: room_def stamps_fit_def went_fresh_def\<close>)
      moreover have "wal_Append e r w = log_apply e (went_typ (WAppend rec)) (went_body (WAppend rec)) (insertRecord rec) w1"
        using started PrepNew d None
        by (auto simp: wal_Append_def log_apply_def went_typ_def went_body_def split: sum.split prod.split)
      ultimately show ?thesis using c1 rec by (simp add: does_def)
    qed (use started PrepNew d w1 c1 in \<open>simp add: wal_Append_def does_def\<close>)
  next
    case PrepDup
    have "wal_content w (rID r) \<noteq> None" using prepare_dup [OF PrepDup] content_present [OF g(1)] by blast
    then show ?thesis using PrepDup g(1) started by (auto simp: wal_Append_def does_def c_apply_def)
  qed (use does_nothing [OF g(1)] started in \<open>simp_all add: wal_Append_def\<close>)
qed (use does_nothing [OF g(1)] in \<open>simp add: wal_Append_def\<close>)

section \<open>Leases\<close>

lemma same_queue_view: "same_queue m m' \<Longrightarrow> lview_of m' = lview_of m"
  by (simp add: same_queue_def lview_of_def)

lemma reserve_all: "wf m \<Longrightarrow> wf (fold reserve ps m) \<and> lview_of (fold reserve ps m) = lview_of m"
  by (induction ps arbitrary: m) (simp_all add: wf_reserve)

lemma unreserve_all: "wf m \<Longrightarrow> wf (fold (\<lambda>c. unreserve (lcIt c)) cs m) \<and> lview_of (fold (\<lambda>c. unreserve (lcIt c)) cs m) = lview_of m"
  by (induction cs arbitrary: m) (simp_all add: wf_unreserve)

lemma lease_select_good:
  assumes g: "good w a" and t: "0 \<le> wvNow e" and ks: "distinct (wvOrder e)" "set (wvOrder e) = dom (groups (wM w))"
  shows "good (snd (lease_select e req w)) a"
proof (cases "validateLease req = ok \<and> wal_begin (wvCtx e) w = ok")
  case True
  then have "1 \<le> lrMax req" by (auto simp: validateLease_def split: if_splits)
  note S = selectLease_spec [OF good_wf [OF g] t this ks]
  obtain ps m where pm: "selectLease (wvOrder e) (wvNow e) req (wM w) = (ps, m)" by fastforce
  have m: "wf m" "lview_of m = lview_of (wM w)" using S pm same_queue_view by auto
  have "good (set_m (fold reserve ps m) w) a"
    by (rule wal_good_same [OF g same_log_machine]) (use reserve_all [OF m(1)] m(2) in simp_all)
  then show ?thesis using True pm by (simp add: lease_select_def)
next
  case False
  then show ?thesis using g by (auto simp: lease_select_def split: option.split)
qed

lemma item_acts_ID:
  assumes "item_acts p (on_rec f) m m'" and "\<And>r. rID (f r) = rID r"
  shows "rID (rec_at m' q) = rID (rec_at m q)"
proof -
  have "vAt (lview_of m') q = ((vAt (lview_of m))(p := on_rec f (vAt (lview_of m) p))) q" using assms(1) by (simp add: item_acts_def)
  then have "end_rec (rec_at m' q) = (if q = p then f (end_rec (rec_at m p)) else end_rec (rec_at m q))" by (simp add: on_rec_def split: if_splits)
  then show ?thesis using assms(2) by (metis end_rec_sel(1))
qed

lemma grant_view:
  "wf m \<Longrightarrow> set ps \<subseteq> set (order m) \<Longrightarrow> length ps \<le> length draws \<Longrightarrow>
    lview_of (snd (grant ps draws now ttl m)) = fold (\<lambda>i. v_upd i (on_rec lease_r)) (map (\<lambda>p. rID (rec_at m p)) ps) (lview_of m)"
proof (induction ps draws now ttl m rule: grant.induct)
  case (1 p ps draw draws now ttl m)
  let ?m = "grant_one p (newToken draw) now ttl m"
  have p: "p \<in> set (order m)" using 1 by simp
  note a = item_acts_grant [OF 1(2) p, of "newToken draw" now ttl]
  have "lview_of ?m = v_upd (rID (rec_at m p)) (on_rec lease_r) (lview_of m)" by (rule item_acts_upd [OF a order_lookup [OF 1(2) p]])
  moreover have "rID (rec_at ?m q) = rID (rec_at m q)" for q by (rule item_acts_ID [OF a]) (simp add: lease_r_def)
  moreover have "wf ?m" using wf_grant [OF 1(2), of "[p]" "[draw]" now ttl] p by (simp add: Let_def)
  ultimately show ?case using 1 by (simp add: Let_def case_prod_unfold)
qed simp_all

lemma parkUnreadable_good:
  assumes g: "good w a" "wFailure w = ok" "room 1 w" and p: "p \<in> set (order (wM w))" and t: "time_fits now"
    and r: "parkUnreadableLocked e p now w = (r, w1)"
  shows "good w1 a" "wNextLSN w1 \<le> Suc (wNextLSN w)" "\<not> isl r \<Longrightarrow> wFailure w1 = ok \<and> order (wM w1) = order (wM w)"
proof -
  obtain cs where cs: "wal_inv w cs a" using g(1) by (auto simp: good_def)
  let ?x = "WPark (rID (rec_at (wM w) p)) now unreadableReason"
  obtain lr w2 where l: "logLocked e (went_typ ?x) (went_body ?x) w = (lr, w2)" by fastforce
  have lsn: "Suc (wNextLSN w) < 2 ^ 64" using g(3) by (simp add: room_def)
  note I = log_inv [OF cs g(2) lsn l]
  have s: "wOpts w2 = wOpts w" "wM w2 = wM w" using I(2) by (simp_all add: same_mem_def)
  have "good w1 a \<and> wNextLSN w1 \<le> Suc (wNextLSN w) \<and> (\<not> isl r \<longrightarrow> wFailure w1 = ok \<and> order (wM w1) = order (wM w))"
  proof (cases lr)
    case (Inl err)
    with I(1,3) r l show ?thesis by (auto simp: parkUnreadableLocked_def went_typ_def went_body_def)
  next
    case (Inr sr)
    obtain sq ref where sr: "sr = (sq, ref)" by fastforce
    obtain cs' where lg: "entry_small (woMaxEntryBytes (wOpts w)) ?x" "logged w2 cs' a ?x ref" "wFailure w2 = ok" using I(4) Inr sr by blast
    let ?m = "applyPark p now unreadableReason (wM w)"
    have m: "wf ?m \<and> lview_of ?m = v_apply (wOffload w2) ?x ref (lview_of (wM w2))"
      unfolding s by (rule park_view [OF good_wf [OF g(1)] order_lookup [OF good_wf [OF g(1)] p]])
    have "good (noted (set_m ?m w2)) a"
      using lg(1,2) t good_opts [OF g(1)] m by (intro conjunct1 [OF applied]) (simp_all add: s stamps_fit_def went_fresh_def)
    moreover have w1: "w1 = noted (set_m ?m (w2\<lparr>wUnreadable := wUnreadable w2 + 1\<rparr>))" "\<not> isl r"
      using r l Inr sr s by (auto simp: parkUnreadableLocked_def went_typ_def went_body_def)
    moreover have "same_log (noted (set_m ?m w2)) w1"
    proof -
      have "wal_content (set_m ?m (w2\<lparr>wUnreadable := wUnreadable w2 + 1\<rparr>)) = wal_content (set_m ?m w2)"
        unfolding wal_content_view using view_content_store [of "set_m ?m (w2\<lparr>wUnreadable := wUnreadable w2 + 1\<rparr>)" "set_m ?m w2"]
        by (simp add: set_m_def)
      then show ?thesis using m lg(3) by (simp add: w1 same_log_def noted_def) (simp add: set_m_def)
    qed
    moreover have "order ?m = order (wM w)" using acts_applyPark [OF good_wf [OF g(1)] p] by (simp add: acts_def)
    ultimately show ?thesis using wal_good_same lg(3) I(3) by (auto simp: noted_def set_m_def)
  qed
  then show "good w1 a" "wNextLSN w1 \<le> Suc (wNextLSN w)" "\<not> isl r \<Longrightarrow> wFailure w1 = ok \<and> order (wM w1) = order (wM w)" by auto
qed

lemma park_bad_good:
  "good w a \<Longrightarrow> wFailure w = ok \<Longrightarrow> room (length ps) w \<Longrightarrow> set ps \<subseteq> set (order (wM w)) \<Longrightarrow> time_fits now \<Longrightarrow>
    good (snd (park_bad e now sq ps w)) a \<and> (\<not> isl (fst (park_bad e now sq ps w)) \<longrightarrow> wFailure (snd (park_bad e now sq ps w)) = ok
      \<and> order (wM (snd (park_bad e now sq ps w))) = order (wM w) \<and> wNextLSN (snd (park_bad e now sq ps w)) \<le> wNextLSN w + length ps)"
proof (induction ps arbitrary: w sq)
  case (Cons p ps)
  obtain r w1 where r: "parkUnreadableLocked e p now w = (r, w1)" by fastforce
  have "room 1 w" using Cons.prems(3) by (simp add: room_def)
  note P = parkUnreadable_good [OF Cons.prems(1,2) this _ Cons.prems(5) r]
  show ?case
  proof (cases r)
    case (Inl err)
    with P(1) r Cons.prems(4) show ?thesis by simp
  next
    case (Inr sq1)
    have w1: "good w1 a" "wFailure w1 = ok" "order (wM w1) = order (wM w)" "wNextLSN w1 \<le> Suc (wNextLSN w)"
      using P Inr Cons.prems(4) by auto
    then have "room (length ps) w1" using Cons.prems(3) by (simp add: room_def)
    from Cons.IH [OF w1(1,2) this _ Cons.prems(5), of sq1] w1(3,4) Cons.prems(4) r Inr show ?thesis by (auto split: sum.split)
  qed
qed simp

lemma judge_order:
  assumes "wf (wM w)"
  shows "set (map fst (fst (judge e now w cands))) \<union> set (snd (judge e now w cands)) \<subseteq> set (order (wM w))
    \<and> length (fst (judge e now w cands)) + length (snd (judge e now w cands)) \<le> length cands"
proof (induction cands)
  case (Cons c cands)
  have "lookup (wM w) (lcId c) = Some (lcIt c) \<Longrightarrow> lcIt c \<in> set (order (wM w))" using lookup_order [OF assms] by blast
  with Cons show ?case by (auto simp: Let_def split: sum.splits if_splits)
qed simp

lemma commitLease_good:
  assumes g: "good w a" "room (Suc (length cands)) w" and t: "time_fits (wvNowCommit e)" and draws: "length cands \<le> length (wvDraws e)"
  shows "good (snd (commitLease e req cands w)) a"
proof -
  define w0 where "w0 = set_m (fold (\<lambda>c. unreserve (lcIt c)) cands (wM w)) w"
  have w0: "good w0 a" "wNextLSN w0 = wNextLSN w" "wFailure w0 = wFailure w"
    using wal_good_same [OF g(1) same_log_machine] unreserve_all [OF good_wf [OF g(1)], of cands] by (simp_all add: w0_def) (simp_all add: set_m_def)
  show ?thesis
  proof (cases "wal_begin (wvCtxCommit e) w")
    case None
    let ?now = "wvNowCommit e"
    define j where "j = judge e ?now w0 cands"
    define ps where "ps = map fst (fst j)"
    note J = judge_order [OF good_wf [OF w0(1)], of e ?now cands, folded j_def]
    have jl: "length ps + length (snd j) \<le> length cands" "set ps \<subseteq> set (order (wM w0))" "set (snd j) \<subseteq> set (order (wM w0))"
      using J by (auto simp: ps_def)
    have "room (length (snd j)) w0" using g(2) jl(1) w0(2) by (simp add: room_def)
    note P = park_bad_good [OF w0(1) _ this jl(3) t, of e 0, unfolded w0(3), OF begin_ok [OF None]]
    obtain r w1 where r: "park_bad e ?now 0 (snd j) w0 = (r, w1)" by fastforce
    show ?thesis
    proof (cases r)
      case (Inl err)
      with P r None show ?thesis by (simp add: commitLease_def Let_def w0_def [symmetric] j_def [symmetric])
    next
      case (Inr lastSeq)
      have w1: "good w1 a" "wFailure w1 = ok" "order (wM w1) = order (wM w0)" "wNextLSN w1 \<le> wNextLSN w0 + length (snd j)"
        using P r Inr by auto
      show ?thesis
      proof (cases "ps = []")
        case True
        then show ?thesis
          using r Inr None w1(1) wal_good_same [OF w1(1) same_log_compact [OF good_wf [OF w1(1)]]]
          by (simp add: commitLease_def Let_def w0_def [symmetric] j_def [symmetric] ps_def)
      next
        case False
        let ?ids = "map (\<lambda>p. rID (rec_at (wM w1) p)) ps"
        obtain cs where cs: "wal_inv w1 cs a" using w1(1) by (auto simp: good_def)
        obtain lr w2 where l: "logLocked e (went_typ (WLease ?ids)) (went_body (WLease ?ids)) w1 = (lr, w2)" by fastforce
        have "1 \<le> length ps" using False by (cases ps) auto
        then have "Suc (wNextLSN w1) < 2 ^ 64" using g(2) w1(4) w0(2) jl(1) by (simp add: room_def)
        note I = log_inv [OF cs w1(2) this l]
        have body: "went_body (WLease ?ids) = e_uvarint (length ps) @ concat (map (\<lambda>p. e_str (rID (rec_at (wM w1) p))) ps)"
          by (simp add: went_body_def comp_def)
        have c: "snd (commitLease e req cands w) = (case lr of Inl err \<Rightarrow> w2
            | Inr _ \<Rightarrow> maybeCompactLocked (noted (set_m (snd (grant ps (wvDraws e) ?now (lrTTL req) (wM w2))) w2)))"
          using r Inr None False l unfolding body
          by (auto simp: commitLease_def Let_def w0_def [symmetric] j_def [symmetric] ps_def went_typ_def split: sum.split prod.split)
        show ?thesis
        proof (cases lr)
          case (Inl err)
          with c I(1) show ?thesis by simp
        next
          case (Inr sr)
          obtain sq ref where sr: "sr = (sq, ref)" by fastforce
          obtain cs' where lg: "entry_small (woMaxEntryBytes (wOpts w1)) (WLease ?ids)" "logged w2 cs' a (WLease ?ids) ref"
            using I(4) Inr sr by blast
          have s: "wOpts w2 = wOpts w1" "wM w2 = wM w1" using I(2) by (simp_all add: same_mem_def)
          let ?m = "snd (grant ps (wvDraws e) ?now (lrTTL req) (wM w2))"
          have sub: "set ps \<subseteq> set (order (wM w1))" using jl(2) w1(3) by simp
          have "wf ?m" "lview_of ?m = v_apply (wOffload w2) (WLease ?ids) ref (lview_of (wM w2))"
            using wf_grant [OF good_wf [OF w1(1)] sub, of "wvDraws e" ?now "lrTTL req"]
              grant_view [OF good_wf [OF w1(1)] sub, of "wvDraws e" ?now "lrTTL req"] draws jl(1) s
            by (simp_all add: v_apply_def)
          then have "good (noted (set_m ?m w2)) a"
            using lg good_opts [OF w1(1)] by (intro conjunct1 [OF applied]) (simp_all add: s stamps_fit_def went_fresh_def)
          then show ?thesis using c Inr same_log_compact good_wf wal_good_same by fastforce
        qed
      qed
    qed
  next
    case (Some err)
    then show ?thesis using w0(1) by (simp add: commitLease_def Let_def w0_def [symmetric])
  qed
qed

section \<open>The options stay\<close>

lemma opts_simps [simp]:
  "wOpts (set_m m w) = wOpts w" "wOpts (noted w) = wOpts w" "wOpts (maybeCompactLocked w) = wOpts w" "wOpts (insertRecord r ref w) = wOpts w"
  "wOpts (setCheckpointAt p cp ref w) = wOpts w" "wOpts (snd (checkDiskLocked e n w)) = wOpts w" "wOpts (snd (setFailure c w)) = wOpts w"
  "wOpts (sync_begin w) = wOpts w" "wOpts (sync_end res w) = wOpts w" "wOpts (wal_emit ev w) = wOpts w"
  using disk_mem(1) [where w = w and e = e and n = n] same_mem_failure [of w c] same_mem_sync_end [of w res]
  by (simp_all add: set_m_def noted_def maybeCompactLocked_def insertRecord_def setCheckpointAt_def same_mem_def sync_begin_def wal_emit_def Let_def)

lemma opts_rotate [simp]: "wOpts (snd (rotateLocked e w)) = wOpts w"
proof -
  define w2 where "w2 = (if wSyncing w \<and> wFailure w = ok then sync_end (lvPending e) w else w)"
  have w2: "wOpts w2 = wOpts w" by (simp add: w2_def)
  have "wOpts w3 = wOpts w'" if "createSegment s k w' = (r, w3)" for s k w' r w3
    using same_mem_create [of w' s k] that by (simp add: same_mem_def)
  then show ?thesis
    unfolding rotateLocked_def Let_def w2_def [symmetric] using w2
    by (auto simp: set_synced_def split: option.split prod.split)
qed

lemma opts_rotated: "rotateLocked e w = (r, w1) \<Longrightarrow> wOpts w1 = wOpts w"
  using opts_rotate [of e w] by simp

lemma opts_write [simp]: "wOpts (snd (write_frame e typ b w)) = wOpts w"
  by (auto simp: write_frame_def Let_def put_seg_def split: option.split)

lemma opts_log: "logLocked e typ body w = (r, w1) \<Longrightarrow> wOpts w1 = wOpts w"
proof -
  have "wOpts (snd (logLocked e typ body w)) = wOpts w"
    by (auto simp: logLocked_def Let_def dest!: opts_rotated split: prod.split option.split)
  then show "logLocked e typ body w = (r, w1) \<Longrightarrow> wOpts w1 = wOpts w" by simp
qed

lemma opts_log_apply: "(\<And>ref w'. wOpts (app ref w') = wOpts w') \<Longrightarrow> wOpts (snd (log_apply e typ body app w)) = wOpts w"
  by (auto simp: log_apply_def dest!: opts_log split: prod.split sum.split)

lemma opts_withLease [simp]: "wOpts (snd (withLease e i tok typ body app w)) = wOpts w"
  by (auto simp: withLease_def opts_log_apply split: option.split sum.split)

lemma opts_park: "parkUnreadableLocked e p now w = (r, w1) \<Longrightarrow> wOpts w1 = wOpts w"
  by (auto simp: parkUnreadableLocked_def dest!: opts_log split: prod.splits sum.splits)

lemma opts_park_bad: "park_bad e now sq ps w = (r, w1) \<Longrightarrow> wOpts w1 = wOpts w"
  by (induction ps arbitrary: w sq) (auto dest!: opts_park split: prod.splits sum.splits)

lemma opts_ops [simp]:
  "wOpts (snd (wal_Ack e i tok w)) = wOpts w" "wOpts (snd (wal_Release e i tok w)) = wOpts w" "wOpts (snd (wal_Nack e i tok no w)) = wOpts w"
  "wOpts (snd (wal_Park e i tok reason w)) = wOpts w" "wOpts (snd (wal_Discard e i w)) = wOpts w" "wOpts (snd (lease_select e req w)) = wOpts w"
  by (auto simp: wal_Ack_def wal_Release_def wal_Nack_def wal_Park_def wal_Discard_def withParked_def lease_select_def Let_def opts_log_apply
      split: option.split sum.split prod.split)

lemma opts_disk: "checkDiskLocked e n w = (r, w1) \<Longrightarrow> wOpts w1 = wOpts w"
  using opts_simps(6) [of e n w] by simp

lemma opts_Append [simp]: "wOpts (snd (wal_Append e r w)) = wOpts w"
  by (auto simp: wal_Append_def dest!: opts_log opts_disk split: option.split prepared.split prod.split sum.split)

lemma opts_Checkpoint [simp]: "wOpts (snd (wal_Checkpoint e i tok cp w)) = wOpts w"
  by (auto simp: wal_Checkpoint_def opts_log_apply dest!: opts_disk split: option.split prod.split sum.split)

lemma opts_Requeue [simp]: "wOpts (snd (wal_RequeueWith e i qo w)) = wOpts w"
  by (auto simp: wal_RequeueWith_def Let_def opts_log_apply split: option.split sum.split)

lemma opts_commit [simp]: "wOpts (snd (commitLease e req cands w)) = wOpts w"
  by (auto simp: commitLease_def Let_def dest!: opts_log opts_park_bad split: option.split prod.split sum.split)

end
