(* ===== verification/GG_Wal_Props.thy ===== *)
theory GG_Wal_Props
  imports GG_Wal_Ops
begin

text \<open>
  What the log-backed store promises: over every sequence of operations, \<open>fsync\<close>s, failures and crashes, what was acknowledged as durable survives
  a power failure, and what is found after a crash is the store as it was after some entry.
\<close>

section \<open>Waiting and closing\<close>

lemma waitDurable_good: "good w a \<Longrightarrow> good (snd (waitDurable ctx sq w)) a"
proof -
  assume g: "good w a"
  let ?w = "wal_emit StoreSyncTimeout w"
  have "same_log w ?w" using same_log_refl [OF good_wf [OF g]] by (simp add: same_log_def wal_emit_def)
  then have "good ?w a" by (rule wal_good_same [OF g])
  then have "good (snd (setFailure c ?w)) a" for c using same_log_failure good_wf wal_good_same by blast
  with g show ?thesis by (auto simp: waitDurable_def Let_def split: option.split)
qed

lemma sync_begin_good: "good w a \<Longrightarrow> wFailure w = ok \<Longrightarrow> good (sync_begin w) a"
  unfolding good_def using sync_begin_inv by blast

lemma sync_end_good: "good w a \<Longrightarrow> wSyncing w \<Longrightarrow> good (sync_end res w) a"
  unfolding good_def using sync_end_inv by blast

lemma wal_Close_good:
  assumes "good w a"
  shows "good (snd (wal_Close e w)) a"
proof -
  let ?w = "w\<lparr>wClosed := True\<rparr>"
  have g1: "good ?w a" using same_log_refl [OF good_wf [OF assms]] by (intro wal_good_same [OF assms]) (simp add: same_log_def)
  define w1 where "w1 = (if wSyncing ?w then sync_end (cvPending e) ?w else ?w)"
  have g2: "good w1 a" using g1 sync_end_good by (simp add: w1_def)
  have g3: "good (snd (setFailure c w1)) a" for c using same_log_failure [OF good_wf [OF g2]] wal_good_same [OF g2] by blast
  have g4: "good (synced_all w1) a" if "wFailure w1 = ok" using g2 synced_all_inv(1) that by (auto simp: good_def)
  show ?thesis
    using assms g1 g2 g3 g4
    unfolding wal_Close_def Let_def w1_def [symmetric] synced_all_def by (auto split: option.split)
qed

section \<open>The log a crash leaves\<close>

definition cut_at :: "nat \<Rightarrow> chunks \<Rightarrow> chunks" where
  "cut_at n cs = butlast cs @ [(last_start cs, take n (last_entries cs))]"

lemma cut_at_log:
  assumes "cs \<noteq> []"
  shows "\<exists>ps. log_of cs = log_of (cut_at n cs) @ ps" "\<exists>es. entries cs = entries (cut_at n cs) @ es"
    "contig s cs \<Longrightarrow> contig s (cut_at n cs)" "tidy (cut_at n cs) = tidy cs" "map fst (cut_at n cs) = map fst cs"
proof -
  obtain ds c where cs: "cs = ds @ [c]" using assms by (cases cs rule: rev_cases) auto
  have "placed k pos l (snd c) = placed k pos l (take n (snd c)) @ placed k (pos + length (frames l (take n (snd c)))) (l + length (take n (snd c))) (drop n (snd c))"
    for k pos l by (metis append_take_drop_id placed_append)
  then show "\<exists>ps. log_of cs = log_of (cut_at n cs) @ ps" by (auto simp: cs cut_at_def)
  show "\<exists>es. entries cs = entries (cut_at n cs) @ es"
    by (simp add: cs cut_at_def) (metis append_take_drop_id)
  show "contig s cs \<Longrightarrow> contig s (cut_at n cs)" "tidy (cut_at n cs) = tidy cs" "map fst (cut_at n cs) = map fst cs"
    by (simp_all add: cs cut_at_def contig_append tidy_def)
qed

lemma contents_prefix:
  assumes "log_of cs = log_of ds @ ps"
  shows "contents w ds = take (Suc (length (entries ds))) (contents w cs)"
  by (simp add: contents_def assms v_trace_append take_map)

lemma cut_at_fits:
  assumes "live w cs"
  shows "log_fits (woMaxEntryBytes (wOpts w)) (cut_at n cs)" "v_ok (wOffload w) (log_of (cut_at n cs)) v_init"
    "length (entries (cut_at n cs)) \<le> length (entries cs)"
proof -
  note L = liveD [OF assms] and C = cut_at_log [OF liveD(5) [OF assms], where n = n]
  obtain ps es where p: "log_of cs = log_of (cut_at n cs) @ ps" "entries cs = entries (cut_at n cs) @ es" using C(1,2) by blast
  show "log_fits (woMaxEntryBytes (wOpts w)) (cut_at n cs)" using L(7) C(3) [where s = 1] p(2) by (simp add: log_fits_def)
  show "v_ok (wOffload w) (log_of (cut_at n cs)) v_init" using L(8) p(1) by (simp add: v_ok_append)
  show "length (entries (cut_at n cs)) \<le> length (entries cs)" using p(2) by simp
qed

lemma holds_cut: "holds_all w cs \<Longrightarrow> cs \<noteq> [] \<Longrightarrow> holds_all w (cut_at n cs)"
proof -
  assume h: "holds_all w cs" "cs \<noteq> []"
  have "holds w (last_start cs) headerSize (last_start cs) (take n (last_entries cs))"
  proof -
    have f: "frames (last_start cs) (last_entries cs) = frames (last_start cs) (take n (last_entries cs))
        @ frames (last_start cs + length (take n (last_entries cs))) (drop n (last_entries cs))"
      by (metis append_take_drop_id frames_append)
    have "holds w (last_start cs) headerSize (last_start cs) (last_entries cs)" using h by (simp add: holds_all_def)
    then show ?thesis unfolding holds_def f by (metis append.assoc)
  qed
  then show ?thesis using h by (auto simp: holds_all_def cut_at_def dest: in_set_butlastD)
qed

section \<open>Restarting\<close>

text \<open>
  A power failure leaves every segment but the last whole, and of the last one what was on stable storage and perhaps more; a
  file of which nothing was on stable storage may be gone.  What is left is on stable storage.
\<close>

definition power_cut :: "disk \<Rightarrow> disk \<Rightarrow> bool" where
  "power_cut d d' \<longleftrightarrow> dSegs d \<noteq> [] \<and> dSnaps d' = dSnaps d \<and>
     ((\<exists>c \<ge> dSynced d. let b = take c (snd (last (dSegs d))) in
         dSegs d' = butlast (dSegs d) @ [(fst (last (dSegs d)), b)] \<and> dSynced d' = length b)
      \<or> dSynced d = 0 \<and> dSegs d' = butlast (dSegs d) \<and> dSynced d' = length (snd (last (dSegs d'))))"

text \<open>
  Opening may cut off a torn frame: the options allow it, and no later entry seems to follow the damage.  (A torn frame
  whose payload contains a valid frame looks like that; \<open>ForceRepair\<close> overrides the check.)
\<close>

definition repairable :: "WALOptions \<Rightarrow> disk \<Rightarrow> bool" where
  "repairable opts d \<longleftrightarrow> (\<forall>k es torn. dSegs d \<noteq> [] \<and> last (dSegs d) = (k, seg_image k es @ torn)
     \<and> torn_at (woMaxEntryBytes opts) (k + length es) torn \<longrightarrow> torn_ok opts k es torn)"

lemma force_repairs: "woForceRepair opts \<Longrightarrow> \<not> woFailOnTruncation opts \<Longrightarrow> repairable opts d"
  by (simp add: repairable_def torn_ok_def)

lemma hist_prefix:
  assumes l: "live w cs" "live w' cs'" and o: "wOpts w' = wOpts w"
    and c: "log_of cs = log_of cs0 @ ps" "log_of cs' = log_of cs0" "log_fits (woMaxEntryBytes (wOpts w)) cs0"
    and h: "holds_all w cs0" "holds_all w' cs0"
  shows "wHist w' = take (Suc (length (entries cs0))) (wHist w)"
proof -
  have off: "wOffload w' = wOffload w" using liveD(2) [OF l(1)] liveD(2) [OF l(2)] o by simp
  have "contents w' cs' = contents w' cs0" by (simp add: contents_def c(2))
  also have "\<dots> = contents w cs0"
    using liveD(1) [OF l(1)] o h c(3) off by (intro contents_same [where mx = "woMaxEntryBytes (wOpts w)"]) simp_all
  also have "\<dots> = take (Suc (length (entries cs0))) (wHist w)" using contents_prefix [OF c(1)] liveD(13) [OF l(1)] by simp
  finally show ?thesis using liveD(13) [OF l(2)] by simp
qed

lemma fresh_inv:
  assumes "live w cs" and "fresh_run w" and "dSegs (wDisk w) = segs_of cs" and "within_bytes cs (dSynced (wDisk w)) a" "a \<le> length (entries cs)"
  shows "wal_inv w cs a"
proof -
  have "laid_out w cs [] []"
    using assms(3) segs_of_last [OF liveD(5) [OF assms(1)]] torn_none [OF liveD(1) [OF assms(1)]] by (simp add: laid_out_def stray_ok_def)
  moreover have "synced_ok w cs [] a" using assms(2,4,5) by (simp add: synced_ok_def covers_def fresh_run_def)
  ultimately show ?thesis using assms(1) unfolding wal_inv_def by blast
qed

definition restarted :: "WALStore \<Rightarrow> WALStore \<Rightarrow> chunks \<Rightarrow> nat \<Rightarrow> bool" where
  "restarted w w' cs' a \<longleftrightarrow> wal_inv w' cs' a \<and> wOpts w' = wOpts w \<and> fresh_run w'
     \<and> wHist w' = take (Suc (length (entries cs'))) (wHist w)"

lemma restart_image:
  assumes l: "live w cs" and e: "rec_calm e"
    and c: "cs' \<noteq> []" "tidy cs'" "log_fits (woMaxEntryBytes (wOpts w)) cs'"
    and cs0: "log_of cs = log_of bs @ ps" "log_of cs' = log_of bs" "log_fits (woMaxEntryBytes (wOpts w)) bs" "length (entries bs) = length (entries cs')"
      "holds_all w bs" "\<And>w'. holds_all w' cs' \<Longrightarrow> holds_all w' bs"
    and d: "dSegs d = segs_of (butlast cs') @ [(last_start cs', seg_image (last_start cs') (last_entries cs') @ torn)]" "dSnaps d = []"
    and torn: "torn_at (woMaxEntryBytes (wOpts w)) (last_start cs' + length (last_entries cs')) torn" "repairable (wOpts w) d"
    and a: "a \<le> length (entries cs')" "torn = [] \<Longrightarrow> within_bytes cs' (dSynced d) a"
  shows "\<exists>w'. recover e (wal_zero (wOpts w) d) = Inr w' \<and> restarted w w' cs' a"
proof -
  have c': "butlast cs' @ [(last_start cs', last_entries cs')] = cs'" using c(1) by simp
  have "v_ok (wOffload w) (log_of cs') v_init" using liveD(8) [OF l] cs0(1,2) by (simp add: v_ok_append)
  then have v: "v_ok (\<not> woPayloadsInMemory (wOpts w)) (log_of cs') v_init" unfolding liveD(2) [OF l] .
  have "torn_ok (wOpts w) (last_start cs') (last_entries cs') torn" using torn d(1) by (auto simp: repairable_def)
  from recover_image [OF e liveD(1) [OF l], of "butlast cs'" "last_start cs'" "last_entries cs'", unfolded c', OF c(3,2) v d torn(1) this]
  obtain w' where w': "recover e (wal_zero (wOpts w) d) = Inr w'" "live w' cs'" "fresh_run w'" "wOpts w' = wOpts w" "dSegs (wDisk w') = segs_of cs'"
    "dSynced (wDisk w') = (if torn = [] then dSynced d else length (seg_image (last_start cs') (last_entries cs')))" by blast
  have "within_bytes cs' (dSynced (wDisk w')) a" using a(2) within_all [of cs' 0 a] w'(6) by simp
  then have "wal_inv w' cs' a" using fresh_inv [OF w'(2,3,5)] a(1) by blast
  moreover have "holds_all w' bs"
    using holds_live [OF w'(2), of w' "[]" "[]"] w'(5) segs_of_last [OF c(1)] by (intro cs0(6)) simp
  then have "wHist w' = take (Suc (length (entries cs'))) (wHist w)"
    using hist_prefix [OF l w'(2,4) cs0(1-3,5)] cs0(4) by simp
  ultimately show ?thesis using w' by (auto simp: restarted_def)
qed

lemma torn_take: "torn_at mx lsn torn \<Longrightarrow> torn_at mx lsn (take i torn)"
  unfolding torn_at_def by (metis min_less_iff_disj take_take)

text \<open>The last segment cut somewhere behind what was on stable storage.\<close>

lemma cut_recovers:
  assumes l: "live w cs" and o: "laid_out w cs torn []" and s: "covers w cs [] a" and e: "rec_calm e"
    and c: "dSynced (wDisk w) \<le> c" and b: "b = take c (seg_image (last_start cs) (last_entries cs) @ torn)"
    and d: "dSegs d = segs_of (butlast cs) @ [(last_start cs, b)]" "dSnaps d = []" "dSynced d = length b" and rep: "repairable (wOpts w) d"
  shows "\<exists>w' cs'. recover e (wal_zero (wOpts w) d) = Inr w' \<and> restarted w w' cs' (length (entries cs')) \<and> a \<le> length (entries cs')
    \<and> length (entries cs') \<le> length (entries cs)"
proof -
  note L = liveD [OF l]
  let ?k = "last_start cs" and ?es = "last_entries cs"
  have t: "torn_at (woMaxEntryBytes (wOpts w)) (?k + length ?es) torn" using o next_lsn [OF l] by (simp add: laid_out_def)
  have h: "holds_all w cs" using holds_live [OF l, of w torn "[]"] o by (simp add: laid_out_def)
  have a: "a \<le> length (entries cs)" "headerSize + length (frames ?k (take (a - length (entries (butlast cs))) ?es)) \<le> c"
    using s c by (auto simp: covers_def within_bytes_def)
  have len: "length (entries cs) = length (entries (butlast cs)) + length ?es" using L(5) by (cases cs rule: rev_cases) simp_all
  show ?thesis
  proof (cases "length (seg_image ?k ?es) \<le> c")
    case True
    let ?t = "take (c - length (seg_image ?k ?es)) torn"
    have b': "b = seg_image ?k ?es @ ?t" using True b by simp
    have "\<exists>w'. recover e (wal_zero (wOpts w) d) = Inr w' \<and> restarted w w' cs (length (entries cs))"
      by (rule restart_image [where cs' = cs and bs = cs and torn = ?t, OF l e L(5,6,7) _ _ L(7) _ h _ _ d(2) torn_take [OF t] rep])
        (use d b' within_all [of cs] in simp_all)
    then show ?thesis using a(1) by blast
  next
    case False
    then have lt: "c - headerSize < length (frames ?k ?es)" using a(2) by (simp add: length_seg_image)
    from cut_frames [OF lt] obtain n i where n: "n < length ?es" "i < length (frame_of (?k + n) (?es ! n))"
      "take (c - headerSize) (frames ?k ?es) = frames ?k (take n ?es) @ take i (frame_of (?k + n) (?es ! n))"
      "\<forall>j \<le> length ?es. length (frames ?k (take j ?es)) \<le> c - headerSize \<longrightarrow> j \<le> n" by blast
    let ?cs = "cut_at n cs" and ?t = "take i (frame_of (?k + n) (?es ! n))"
    have lc: "last ?cs = (?k, take n ?es)" "butlast ?cs = butlast cs" "?cs \<noteq> []" by (simp_all add: cut_at_def)
    have b': "b = seg_image ?k (take n ?es) @ ?t"
      using b False a(2) n(3) by (simp add: seg_image_def)
    have t': "torn_at (woMaxEntryBytes (wOpts w)) (last_start ?cs + length (last_entries ?cs)) ?t"
    proof -
      have "list_all (entry_small (woMaxEntryBytes (wOpts w))) ?es" using L(5,7) by (auto simp: log_fits_def intro: entries_chunk)
      then have "entry_small (woMaxEntryBytes (wOpts w)) (?es ! n)" using n(1) by (simp add: list_all_length)
      then show ?thesis using n(1,2) unfolding torn_at_def by (auto simp: lc)
    qed
    obtain ps where ps: "log_of cs = log_of ?cs @ ps" using cut_at_log(1) [OF L(5)] by blast
    have "\<exists>w'. recover e (wal_zero (wOpts w) d) = Inr w' \<and> restarted w w' ?cs (length (entries ?cs))"
      by (rule restart_image [where cs' = ?cs and bs = ?cs and torn = ?t, OF l e lc(3) _ cut_at_fits(1) [OF l] ps _ cut_at_fits(1) [OF l] _ holds_cut [OF h L(5)] _ _ d(2) t' rep])
        (use d b' L(6) cut_at_log(4) [OF L(5)] within_all [of ?cs 0] in \<open>simp_all add: lc\<close>)
    moreover have "a \<le> length (entries ?cs)"
    proof -
      have "a - length (entries (butlast cs)) \<le> n" using n(4) a len by auto
      then show ?thesis using n(1) by (simp add: cut_at_def)
    qed
    ultimately show ?thesis using cut_at_fits(3) [OF l] by blast
  qed
qed

text \<open>A segment that could not be created, and what a power failure left of it.\<close>

lemma stray_recovers:
  assumes l: "live w cs" and o: "laid_out w cs [] [(k, b0)]" and a: "a \<le> length (entries cs)" and e: "rec_calm e"
    and d: "dSegs d = segs_of cs @ [(k, take c b0)]" "dSnaps d = []" "dSynced d = length (take c b0)" and rep: "repairable (wOpts w) d"
  shows "\<exists>w' cs'. recover e (wal_zero (wOpts w) d) = Inr w' \<and> restarted w w' cs' (length (entries cs')) \<and> a \<le> length (entries cs')
    \<and> length (entries cs') \<le> length (entries cs)"
proof -
  note L = liveD [OF l]
  obtain n where k: "k = wNextLSN w" "b0 = take n (encodeHeaderFlags walMagic k 0)" "last_entries cs \<noteq> []"
    using o by (auto simp: laid_out_def stray_ok_def)
  have full: "full_chunks cs" using full_chunksI [OF L(6,5)] k(3) .
  have h: "holds_all w cs" using holds_live [OF l, of w "[]" "[(k, b0)]"] o by (simp add: laid_out_def)
  have kk: "k = Suc (length (entries cs))" using k(1) L(10) by simp
  show ?thesis
  proof (cases "length (take c b0) < headerSize")
    case True
    have v: "v_ok (\<not> woPayloadsInMemory (wOpts w)) (log_of cs) v_init" using L(8) unfolding L(2) .
    from recover_stray [OF e L(1,7,5) kk _ v d(1) short_header [OF True] d(2)] full
    obtain w' where w': "recover e (wal_zero (wOpts w) d) = Inr w'" "live w' cs" "fresh_run w'" "wOpts w' = wOpts w" "dSegs (wDisk w') = segs_of cs"
      "dSynced (wDisk w') = image_end cs" by (auto simp: tidy_snoc)
    have "wal_inv w' cs (length (entries cs))"
      using fresh_inv [OF w'(2,3,5)] within_all [of cs 0] L(5) w'(6) by (simp add: image_end_def)
    moreover have "wHist w' = take (Suc (length (entries cs))) (wHist w)"
      using hist_prefix [OF l w'(2,4), of cs "[]"] L(7) h holds_live [OF w'(2), of w' "[]" "[]"] w'(5) segs_of_last [OF L(5)] by simp
    ultimately show ?thesis using w' a by (auto simp: restarted_def)
  next
    case False
    let ?cs = "cs @ [(k, [])]"
    have b: "take c b0 = seg_image k []" using False k(2) by (simp add: seg_image_def)
    have fits: "log_fits (woMaxEntryBytes (wOpts w)) ?cs" using L(7) kk by (simp add: log_fits_def contig_append)
    have "\<exists>w'. recover e (wal_zero (wOpts w) d) = Inr w' \<and> restarted w w' ?cs (length (entries ?cs))"
      by (rule restart_image [where cs' = ?cs and bs = cs and torn = "[]" and ps = "[]", OF l e _ _ fits _ _ L(7) _ h _ _ d(2) torn_none [OF L(1)] rep])
        (use d b full within_all [of ?cs 0] in \<open>auto simp: tidy_snoc holds_all_def\<close>)
    then show ?thesis using a by fastforce
  qed
qed

lemma power_cut_recovers:
  assumes inv: "wal_inv w cs a" and cut: "power_cut (wDisk w) d" and e: "rec_calm e" and rep: "repairable (wOpts w) d"
  shows "\<exists>w' cs'. recover e (wal_zero (wOpts w) d) = Inr w' \<and> restarted w w' cs' (length (entries cs')) \<and> a \<le> length (entries cs')
    \<and> length (entries cs') \<le> length (entries cs)"
proof -
  obtain torn stray where p: "live w cs" "laid_out w cs torn stray" "synced_ok w cs stray a" using inv by (auto simp: wal_inv_def)
  note L = liveD [OF p(1)]
  have ca: "covers w cs stray a" using p(3) by (simp add: synced_ok_def)
  have sn: "dSnaps d = []" using cut L(4) by (simp add: power_cut_def)
  have segs: "dSegs (wDisk w) = segs_of (butlast cs) @ (last_start cs, seg_image (last_start cs) (last_entries cs) @ torn) # stray"
    using p(2) by (simp add: laid_out_def)
  show ?thesis
  proof (cases "stray = []")
    case True
    have "headerSize \<le> dSynced (wDisk w)" using ca True by (auto simp: covers_def within_bytes_def)
    then have "dSynced (wDisk w) \<noteq> 0" by (simp add: headerSize_def)
    then obtain c where c: "dSynced (wDisk w) \<le> c" "dSegs d = segs_of (butlast cs) @ [(last_start cs, take c (seg_image (last_start cs) (last_entries cs) @ torn))]"
      "dSynced d = length (take c (seg_image (last_start cs) (last_entries cs) @ torn))"
      using cut segs True unfolding power_cut_def Let_def by auto
    show ?thesis using cut_recovers [OF p(1) _ _ e c(1) refl c(2) sn c(3) rep] p(2) ca True by blast
  next
    case False
    then obtain k b0 where st: "stray = [(k, b0)]" "torn = []" using p(2) by (auto simp: laid_out_def stray_ok_def)
    have segs': "dSegs (wDisk w) = segs_of cs @ [(k, b0)]" using segs st segs_of_last [OF L(5)] by simp
    have a: "a \<le> length (entries cs)" using ca by (simp add: covers_def)
    consider c where "dSegs d = segs_of cs @ [(k, take c b0)]" "dSynced d = length (take c b0)"
      | "dSegs d = segs_of cs" "dSynced d = length (snd (last (segs_of cs)))"
      using cut segs' unfolding power_cut_def Let_def by auto
    then show ?thesis
    proof cases
      case 1
      then show ?thesis using stray_recovers [OF p(1) _ a e _ sn _ rep] p(2) st by blast
    next
      case 2
      have h: "holds_all w cs" using holds_live [OF p(1), of w "[]" "[(k, b0)]"] segs st by simp
      have "\<exists>w'. recover e (wal_zero (wOpts w) d) = Inr w' \<and> restarted w w' cs (length (entries cs))"
        by (rule restart_image [where cs' = cs and bs = cs and torn = "[]", OF p(1) e L(5,6,7) _ _ L(7) _ h _ _ sn torn_none [OF L(1)] rep])
          (use 2 segs_of_last [OF L(5)] within_all [of cs 0] in simp_all)
      then show ?thesis using a by blast
    qed
  qed
qed

text \<open>A crash of the process alone: the files are as the store left them.\<close>

lemma crash_recovers:
  assumes inv: "wal_inv w cs a" and s: "0 < dSynced (wDisk w)" and e: "rec_calm e" and rep: "repairable (wOpts w) (wDisk w)"
  shows "\<exists>w'. recover e (wal_zero (wOpts w) (wDisk w)) = Inr w' \<and> restarted w w' cs a"
proof -
  obtain torn stray where p: "live w cs" "laid_out w cs torn stray" "synced_ok w cs stray a" using inv by (auto simp: wal_inv_def)
  note L = liveD [OF p(1)]
  have st: "stray = []" using p(2) s by (auto simp: laid_out_def stray_ok_def)
  have d: "dSegs (wDisk w) = segs_of (butlast cs) @ [(last_start cs, seg_image (last_start cs) (last_entries cs) @ torn)]"
    using p(2) st by (simp add: laid_out_def)
  have t: "torn_at (woMaxEntryBytes (wOpts w)) (last_start cs + length (last_entries cs)) torn" using p(2) next_lsn [OF p(1)] by (simp add: laid_out_def)
  have h: "holds_all w cs" using holds_live [OF p(1), of w torn "[]"] d by simp
  have a: "a \<le> length (entries cs)" "within_bytes cs (dSynced (wDisk w)) a" using p(3) st by (simp_all add: synced_ok_def covers_def)
  show ?thesis
    by (rule restart_image [where cs' = cs and bs = cs and torn = torn and ps = "[]", OF p(1) e L(5,6,7) _ _ L(7) _ h _ d L(4) t rep a])
      simp_all
qed

section \<open>The system\<close>

text \<open>The operations that change records, what they log, and inputs in the range of their Go types.\<close>

datatype wal_op =
    OpAppendW Record
  | OpCheckpointW string string bytes
  | OpAckW string string
  | OpReleaseW string string
  | OpNackW string string NackOptions
  | OpParkW string string string
  | OpRequeueW string RequeueOptions
  | OpDiscardW string

definition wal_do :: "wal_env \<Rightarrow> wal_op \<Rightarrow> WALStore \<Rightarrow> nat locked" where
  "wal_do e op = (case op of OpAppendW r \<Rightarrow> wal_Append e r | OpCheckpointW i tok cp \<Rightarrow> wal_Checkpoint e i tok cp
     | OpAckW i tok \<Rightarrow> wal_Ack e i tok | OpReleaseW i tok \<Rightarrow> wal_Release e i tok | OpNackW i tok no \<Rightarrow> wal_Nack e i tok no
     | OpParkW i tok reason \<Rightarrow> wal_Park e i tok reason | OpRequeueW i qo \<Rightarrow> wal_RequeueWith e i qo | OpDiscardW i \<Rightarrow> wal_Discard e i)"

definition op_entry :: "wal_env \<Rightarrow> wal_op \<Rightarrow> WALStore \<Rightarrow> went" where
  "op_entry e op w = (case op of OpAppendW r \<Rightarrow> WAppend (filled r (seq (wM w) + 1) (wvNow e)) | OpCheckpointW i tok cp \<Rightarrow> WCheckpoint i cp
     | OpAckW i tok \<Rightarrow> WAck i | OpReleaseW i tok \<Rightarrow> WRelease i
     | OpNackW i tok no \<Rightarrow> WNack i (wvNow e) (wvNow e + nDelay no) (nErr no) (nBlockedOn no) (nRefund no)
     | OpParkW i tok reason \<Rightarrow> WPark i (wvNow e) reason
     | OpRequeueW i qo \<Rightarrow> WRequeue i (qReplaceCheckpoint qo) (if qReplaceCheckpoint qo then qCheckpoint qo else None)
     | OpDiscardW i \<Rightarrow> WDiscard i)"

definition op_fits :: "wal_env \<Rightarrow> wal_op \<Rightarrow> WALStore \<Rightarrow> bool" where
  "op_fits e op w \<longleftrightarrow> room 1 w \<and> (case op of OpAppendW r \<Rightarrow> record_fits r \<and> time_fits (wvNow e) \<and> seq (wM w) + 1 < 2 ^ 64
     | OpNackW i tok no \<Rightarrow> time_fits (wvNow e) \<and> time_fits (wvNow e + nDelay no) | OpParkW i tok reason \<Rightarrow> time_fits (wvNow e) | _ \<Rightarrow> True)"

lemma wal_do_does: "good w a \<Longrightarrow> op_fits e op w \<Longrightarrow> does a (op_entry e op w) (wal_do e op w) w"
  by (cases op) (simp_all add: wal_do_def op_entry_def op_fits_def wal_Append_good wal_Checkpoint_good wal_Ack_good wal_Release_good
      wal_Nack_good wal_Park_good wal_RequeueWith_good wal_Discard_good del: One_nat_def)

lemma opts_do [simp]: "wOpts (snd (wal_do e op w)) = wOpts w"
  by (cases op) (simp_all add: wal_do_def)

text \<open>
  One step of a running store: an operation, the two halves of a lease, a round of the background \<open>fsync\<close>, the end of a wait, or \<open>Close\<close>.
  Counters are below their 64-bit limit.
\<close>

inductive wal_step :: "WALStore \<Rightarrow> WALStore \<Rightarrow> bool" where
  st_op: "op_fits e op w \<Longrightarrow> wal_step w (snd (wal_do e op w))"
| st_select: "0 \<le> wvNow e \<Longrightarrow> distinct (wvOrder e) \<Longrightarrow> set (wvOrder e) = dom (groups (wM w)) \<Longrightarrow> wal_step w (snd (lease_select e req w))"
| st_commit: "room (Suc (length cands)) w \<Longrightarrow> time_fits (wvNowCommit e) \<Longrightarrow> length cands \<le> length (wvDraws e) \<Longrightarrow>
    wal_step w (snd (commitLease e req cands w))"
| st_sync_begin: "wFailure w = ok \<Longrightarrow> \<not> wSyncing w \<Longrightarrow> wWritten w \<noteq> wDurable w \<Longrightarrow> wal_step w (sync_begin w)"
| st_sync_end: "wSyncing w \<Longrightarrow> wal_step w (sync_end res w)"
| st_wait: "wait_over ctx timeout sq w \<Longrightarrow> wal_step w (snd (waitDurable ctx sq w))"
| st_close: "wal_step w (snd (wal_Close ce w))"

lemma opts_wait_close [simp]: "wOpts (snd (waitDurable ctx sq w)) = wOpts w" "wOpts (snd (wal_Close ce w)) = wOpts w"
proof -
  show "wOpts (snd (waitDurable ctx sq w)) = wOpts w"
    using opts_simps(7,10) by (auto simp: waitDurable_def Let_def split: option.split)
  define w1 where "w1 = (if wSyncing (w\<lparr>wClosed := True\<rparr>) then sync_end (cvPending ce) (w\<lparr>wClosed := True\<rparr>) else w\<lparr>wClosed := True\<rparr>)"
  have "wOpts w1 = wOpts w" by (simp add: w1_def)
  then show "wOpts (snd (wal_Close ce w)) = wOpts w"
    unfolding wal_Close_def Let_def w1_def [symmetric] by (auto simp: set_synced_def split: option.split)
qed

lemma wal_step_good: "wal_step w w' \<Longrightarrow> good w a \<Longrightarrow> good w' a \<and> wOpts w' = wOpts w"
  by (induction rule: wal_step.induct)
    (simp_all add: does_good [OF wal_do_does] lease_select_good commitLease_good sync_begin_good sync_end_good waitDurable_good wal_Close_good)

text \<open>
  The life of a directory.  The number counts the log entries that were acknowledged as durable: those before a position for which
  \<open>waitDurable\<close> returned success under \<open>SyncAlways\<close>, and those found after a power failure.  A crash of the process leaves it alone.
\<close>

inductive wal_sys :: "WALOptions \<Rightarrow> WALStore \<Rightarrow> nat \<Rightarrow> bool" for opts :: WALOptions where
  sys_create: "dSegs d = [] \<Longrightarrow> dSnaps d = [] \<Longrightarrow> rec_calm e \<Longrightarrow> OpenWAL ok e opts d = Inr w \<Longrightarrow> wal_sys opts w 0"
| sys_step: "wal_sys opts w a \<Longrightarrow> wal_step w w' \<Longrightarrow> wal_sys opts w' a"
| sys_ack: "wal_sys opts w a \<Longrightarrow> woSync (wOpts w) = SyncAlways \<Longrightarrow> 0 < sq \<Longrightarrow> sq \<le> wWritten w \<Longrightarrow> waitDurable ctx sq w = (ok, w') \<Longrightarrow>
    wal_sys opts w' (max a (length (wHist w) - 1 - (wWritten w - sq)))"
| sys_crash: "wal_sys opts w a \<Longrightarrow> 0 < dSynced (wDisk w) \<Longrightarrow> rec_calm e \<Longrightarrow> repairable (wOpts w) (wDisk w) \<Longrightarrow>
    OpenWAL ok e opts (wDisk w) = Inr w' \<Longrightarrow> wal_sys opts w' a"
| sys_power: "wal_sys opts w a \<Longrightarrow> power_cut (wDisk w) d \<Longrightarrow> rec_calm e \<Longrightarrow> repairable (wOpts w) d \<Longrightarrow>
    OpenWAL ok e opts d = Inr w' \<Longrightarrow> wal_sys opts w' (length (wHist w') - 1)"

lemma ack_good:
  assumes "wal_inv w cs a" and "woSync (wOpts w) = SyncAlways" and "0 < sq" "sq \<le> wWritten w" and "waitDurable ctx sq w = (ok, w')"
  shows "w' = w" "wal_inv w cs (max a (length (wHist w) - 1 - (wWritten w - sq)))"
proof -
  have d: "sq \<le> wDurable w \<and> w' = w"
    using assms(2,5) by (auto simp: waitDurable_def Let_def split: if_splits option.splits)
  then show "w' = w" by simp
  obtain torn stray where p: "live w cs" "laid_out w cs torn stray" "synced_ok w cs stray a" using assms(1) by (auto simp: wal_inv_def)
  have n: "length (wHist w) - 1 - (wWritten w - sq) = base_of (wWritten w) cs + sq"
    using inv_content(2) [OF assms(1)] p(3) assms(4) by (simp add: base_of_def synced_ok_def)
  have "covers w cs stray (base_of (wWritten w) cs + wDurable w)" using p(3) d assms(3) by (simp add: synced_ok_def)
  then have "covers w cs stray (base_of (wWritten w) cs + sq)" using d by (auto simp: covers_def elim: within_mono)
  then have "synced_ok w cs stray (max a (base_of (wWritten w) cs + sq))" using p(3) by (simp add: synced_ok_def max_def)
  then show "wal_inv w cs (max a (length (wHist w) - 1 - (wWritten w - sq)))" using p unfolding wal_inv_def n by blast
qed

lemma wal_sys_good:
  assumes "wal_sys opts w a" and "wo_applyDefaults opts = Inr o1" and "plain_opts o1"
  shows "good w a \<and> wOpts w = o1"
  using assms(1)
proof (induction rule: wal_sys.induct)
  case (sys_create d e w)
  have "recover e (wal_zero o1 d) = Inr w" using sys_create(4) assms(2) by (simp add: OpenWAL_def)
  with recover_first [OF sys_create(3) assms(3), of d] sys_create(1,2)
  have w: "live w [(1, [])]" "fresh_run w" "wOpts w = o1" "dSegs (wDisk w) = segs_of [(1, [])]" "dSynced (wDisk w) = image_end [(1, [])]"
    by auto
  have "wal_inv w [(1, [])] 0" using fresh_inv [OF w(1,2,4)] w(5) within_all [of "[(1, [])]" 0] by (simp add: image_end_def)
  then show ?case using w(3) by (auto intro: goodI)
next
  case (sys_step w a w')
  then show ?case using wal_step_good by auto
next
  case (sys_ack w a sq ctx w')
  then show ?case using ack_good unfolding good_def by metis
next
  case (sys_crash w a e w')
  then obtain cs where cs: "wal_inv w cs a" by (auto simp: good_def)
  have "recover e (wal_zero (wOpts w) (wDisk w)) = Inr w'" using sys_crash assms(2) by (simp add: OpenWAL_def)
  with crash_recovers [OF cs sys_crash(2,3,4)] sys_crash.IH show ?case by (auto simp: restarted_def intro: goodI)
next
  case (sys_power w a d e w')
  then obtain cs where cs: "wal_inv w cs a" by (auto simp: good_def)
  have r: "recover e (wal_zero (wOpts w) d) = Inr w'" using sys_power assms(2) by (simp add: OpenWAL_def)
  obtain cs' where "restarted w w' cs' (length (entries cs'))" using power_cut_recovers [OF cs sys_power(2,3,4)] r by auto
  then have i: "wal_inv w' cs' (length (entries cs'))" "wOpts w' = o1" using sys_power.IH by (simp_all add: restarted_def)
  then have "length (wHist w') - 1 = length (entries cs')" using inv_content(2) [OF i(1)] by simp
  with i show ?case by (metis goodI)
qed

section \<open>Properties\<close>

text \<open>
  C3: the log-backed store does not lose what it acknowledged.  Take any history of a directory: operations that succeed or fail half-way, rotations,
  background \<open>fsync\<close>s that may fail, waits, crashes of the process and power failures.  After one more power failure at any moment,
  opening the directory succeeds, and the store that is found is exactly the store as it was after some log entry \<open>n\<close>, at or after
  every entry that was acknowledged as durable (no entry is skipped, reordered or half applied).
\<close>

theorem acknowledged_survives_power_failure:
  assumes "wal_sys opts w a" and "wo_applyDefaults opts = Inr o1" "plain_opts o1"
    and "power_cut (wDisk w) d" and "rec_calm e" and "repairable o1 d"
  shows "\<exists>w' n. OpenWAL ok e opts d = Inr w' \<and> a \<le> n \<and> n < length (wHist w) \<and> wal_content w' = wHist w ! n
    \<and> wal_content w = last (wHist w)"
proof -
  from wal_sys_good [OF assms(1-3)] obtain cs where cs: "wal_inv w cs a" and o: "wOpts w = o1" by (auto simp: good_def)
  from power_cut_recovers [OF cs assms(4,5), unfolded o, OF assms(6)] obtain w' cs'
    where r: "recover e (wal_zero o1 d) = Inr w'" "restarted w w' cs' (length (entries cs'))" "a \<le> length (entries cs')"
      "length (entries cs') \<le> length (entries cs)" by blast
  let ?n = "length (entries cs')"
  have i: "wal_inv w' cs' ?n" "wHist w' = take (Suc ?n) (wHist w)" using r(2) by (simp_all add: restarted_def)
  have n: "?n < length (wHist w)" using r(4) inv_content(2) [OF cs] by simp
  have "wal_content w' = wHist w ! ?n" using inv_content(1) [OF i(1)] i(2) n by (simp add: take_Suc_conv_app_nth)
  then show ?thesis using r(1,3) n assms(2) inv_content(1) [OF cs] by (intro exI [of _ w'] exI [of _ ?n]) (simp add: OpenWAL_def)
qed

definition ex_wopts :: WALOptions where
  "ex_wopts = \<lparr>woMaxRecords = 0, woMaxBytes = 0, woMaxRecordBytes = 0, woSync = SyncAlways, woSyncEvery = 0, woSegmentBytes = 0,
     woCompactMinBytes = 0, woCompactRatio = 0, woDisableAutoCompact = True, woFailOnTruncation = False, woForceRepair = True, woSigner = None,
     woAcceptUnsignedLegacy = False, woMinFreeBytes = -1, woPayloadsInMemory = False, woSyncTimeout = 0, woMaxEntryBytes = 0\<rparr>"

definition ex_wopts1 :: WALOptions where
  "ex_wopts1 = projr (wo_applyDefaults ex_wopts)"

definition ex_calm :: rec_env where
  "ex_calm = \<lparr>rvList = ok, rvOpen = (\<lambda>_. ok), rvOpenSnap = ok, rvQuarantine = ok, rvRepair = ok, rvRemove = ok,
     rvSegment = \<lparr>svFault = None, svRemove = ok\<rparr>, rvActive = ok\<rparr>"

definition ex_dir :: disk where
  "ex_dir = \<lparr>dSegs = [], dSnaps = [], dQuarantine = [], dSynced = 0\<rparr>"

definition ex_wenv :: wal_env where
  "ex_wenv = \<lparr>wvCtx = ok, wvCtxCommit = ok, wvNow = unix_epoch + second, wvNowCommit = unix_epoch + second, wvOrder = [], wvDraws = [],
     wvLog = (\<lambda>_. \<lparr>lvPending = ok, lvSync = ok, lvSegment = \<lparr>svFault = None, svRemove = ok\<rparr>, lvWrite = None, lvTruncate = ok\<rparr>),
     wvRead = (\<lambda>_. ok), wvReread = (\<lambda>_. ok), wvWall = 0, wvFree = Inr 0\<rparr>"

definition ex_w0 :: WALStore where "ex_w0 = projr (OpenWAL ok ex_calm ex_wopts ex_dir)"
definition ex_w1 :: WALStore where "ex_w1 = snd (wal_Append ex_wenv ex_codec_record ex_w0)"

lemmas ex_open_defs = ex_w0_def OpenWAL_def wo_applyDefaults_def ex_wopts_def ex_wopts1_def Let_def DefaultMaxEntryBytes_def
  defaultMaxRecordBytes_def recover_def ex_calm_def ex_dir_def wal_zero_def set_m_def noted_def open_active_def newSegmentLocked_def
  createSegment_def set_synced_def put_seg_def endReplay_def newMachine_def

lemma ex_opened: "OpenWAL ok ex_calm ex_wopts ex_dir = Inr ex_w0"
  by (simp add: ex_open_defs)

lemma ex_wopts1: "wo_applyDefaults ex_wopts = Inr ex_wopts1" "plain_opts ex_wopts1" "repairable ex_wopts1 d" "woSync ex_wopts1 = SyncAlways"
  by (simp_all add: ex_open_defs plain_opts_def force_repairs)

lemma ex_w0_sel:
  "wFailure ex_w0 = ok" "\<not> wClosed ex_w0" "wActiveSize ex_w0 = 32" "wOpts ex_w0 = ex_wopts1" "wNextLSN ex_w0 = 1" "wWritten ex_w0 = 0"
  "wDurable ex_w0 = 0" "\<not> wSyncing ex_w0" "length (wHist ex_w0) = 1" "\<exists>b. dSegs (wDisk ex_w0) = [(1, b)]" "wSegments ex_w0 = [1]" "dSynced (wDisk ex_w0) = headerSize"
  "wM ex_w0 = newMachine \<lparr>maxRecords = 1000000, maxBytes = 512 * 2 ^ 20, maxRecordBytes = 8 * 2 ^ 20\<rparr>"
  by (simp_all add: ex_open_defs headerSize_def DefaultWALMaxRecords_def DefaultWALMaxBytes_def)

lemma ex_prepared: "prepare (wM ex_w0) ex_codec_record (wvNow ex_wenv) = PrepNew (filled ex_codec_record 1 (wvNow ex_wenv))"
  unfolding prepare_def fill_in
  by (simp add: ex_w0_sel newMachine_def ex_codec_record_def zero_record_def zero_source_def Validate_def maxIDLen_def Size_def headers_size_def lookup_def len_items_def blen_def)

lemma ex_short: "length (encodeRecord (filled ex_codec_record 1 (wvNow ex_wenv))) \<le> 100"
  by (simp add: encodeRecord_def filled_def ex_codec_record_def zero_record_def zero_source_def ex_wenv_def e_str_def e_uvarint_def e_u8_def
      e_varint_def e_nullable_def e_time_def e_header_def AppendVarint_def AppendUvarint.simps zigzag_def UnixNano_def int64_def unix_epoch_def
      second_def zero_time_def uint64_def)

lemma ex_w1_sel: "wFailure ex_w1 = ok" "wWritten ex_w1 = 1" "wDurable ex_w1 = 0" "\<not> wSyncing ex_w1" "length (wHist ex_w1) = 2"
    "\<exists>b. dSegs (wDisk ex_w1) = [(1, b)]" "dSynced (wDisk ex_w1) = headerSize"
  and ex_appended: "\<not> isl (fst (wal_do ex_wenv (OpAppendW ex_codec_record) ex_w0))"
proof -
  let ?b = "encodeRecord (filled ex_codec_record 1 (wvNow ex_wenv))"
  have o: "woMinFreeBytes ex_wopts1 = -1" "woMaxEntryBytes ex_wopts1 = 64 * 2 ^ 20" "woDisableAutoCompact ex_wopts1" by (simp_all add: ex_open_defs)
  have b: "wal_begin (wvCtx ex_wenv) ex_w0 = ok" by (simp add: wal_begin_def ex_w0_sel ex_wenv_def)
  have d: "checkDiskLocked ex_wenv 0 ex_w0 = (ok, ex_w0)" by (simp add: checkDiskLocked_def ex_w0_sel o)
  have "\<not> woMaxEntryBytes (wOpts ex_w0) < int (length ?b)" using ex_short by (simp add: ex_w0_sel o)
  moreover obtain b0 where "dSegs (wDisk ex_w0) = [(1, b0)]" using ex_w0_sel(10) by blast
  ultimately have "\<exists>sr w2. logLocked ex_wenv entAppend ?b ex_w0 = (Inr sr, w2) \<and> wFailure w2 = ok \<and> wWritten w2 = 1 \<and> wDurable w2 = 0 \<and> \<not> wSyncing w2
      \<and> length (wHist w2) = 1 \<and> wOpts w2 = ex_wopts1 \<and> (\<exists>b. dSegs (wDisk w2) = [(1, b)])
      \<and> dSynced (wDisk w2) = headerSize"
    by (simp add: logLocked_def Let_def write_frame_def ex_w0_sel headerSize_def ex_wenv_def put_seg_def active_file_def)
  then obtain sq ref w2 where l: "logLocked ex_wenv entAppend ?b ex_w0 = (Inr (sq, ref), w2)" "wFailure w2 = ok" "wWritten w2 = 1" "wDurable w2 = 0"
    "\<not> wSyncing w2" "length (wHist w2) = 1" "wOpts w2 = ex_wopts1" "\<exists>b. dSegs (wDisk w2) = [(1, b)]"
    "dSynced (wDisk w2) = headerSize" by auto
  have r: "wal_Append ex_wenv ex_codec_record ex_w0 = (Inr sq, maybeCompactLocked (noted (insertRecord (filled ex_codec_record 1 (wvNow ex_wenv)) ref w2)))"
    unfolding wal_Append_def b ex_prepared using d l(1) by simp
  then show "\<not> isl (fst (wal_do ex_wenv (OpAppendW ex_codec_record) ex_w0))" by (simp add: wal_do_def)
  from r show "wFailure ex_w1 = ok" "wWritten ex_w1 = 1" "wDurable ex_w1 = 0" "\<not> wSyncing ex_w1" "length (wHist ex_w1) = 2"
    "\<exists>b. dSegs (wDisk ex_w1) = [(1, b)]" "dSynced (wDisk ex_w1) = headerSize"
    using l(2-) o by (simp_all add: ex_w1_def maybeCompactLocked_def noted_def insertRecord_def set_m_def)
qed

lemma ex_opened_sys: "wal_sys ex_wopts ex_w0 0"
  by (rule sys_create [OF _ _ _ ex_opened]) (simp_all add: ex_dir_def rec_calm_def ex_calm_def)

lemma ex_append_fits: "op_fits ex_wenv (OpAppendW ex_codec_record) ex_w0"
  using ex_codec_record_fits
  by (simp add: op_fits_def room_def ex_w0_sel newMachine_def time_fits_def ex_wenv_def is_int64_def second_def)

lemma ex_appended_sys: "wal_sys ex_wopts ex_w1 0"
  using sys_step [OF ex_opened_sys st_op [OF ex_append_fits]] by (simp add: wal_do_def ex_w1_def)

lemma ex_synced: "wal_sys ex_wopts (sync_end ok (sync_begin ex_w1)) 1"
proof -
  let ?w = "sync_end ok (sync_begin ex_w1)"
  note ex_appended_sys
  moreover have "wal_step ex_w1 (sync_begin ex_w1)" by (rule st_sync_begin) (simp_all add: ex_w1_sel)
  moreover have "wal_step (sync_begin ex_w1) ?w" by (rule st_sync_end) (simp add: sync_begin_def)
  ultimately have s: "wal_sys ex_wopts ?w 0" by (meson sys_step)
  have w: "wWritten ?w = 1" "wDurable ?w = 1" "length (wHist ?w) = 2"
    by (simp_all add: sync_end_def Let_def set_synced_def sync_begin_def ex_w1_sel)
  have "wOpts ?w = ex_wopts1" by (simp add: ex_w1_def ex_w0_sel)
  then have "waitDurable ok 1 ?w = (ok, ?w)" using w ex_wopts1(4) by (simp add: waitDurable_def)
  from sys_ack [OF s _ _ _ this] w show ?thesis using \<open>wOpts ?w = ex_wopts1\<close> ex_wopts1(4) by simp
qed

theorem acknowledged_survives_power_failure_witness:
  "\<exists>w d w'. wal_sys ex_wopts w 1 \<and> length (wHist w) = 2 \<and> power_cut (wDisk w) d \<and> OpenWAL ok ex_calm ex_wopts d = Inr w'
    \<and> wal_content w' = wHist w ! 1"
proof -
  let ?w = "sync_end ok (sync_begin ex_w1)"
  let ?b = "snd (last (dSegs (wDisk ?w)))"
  define d where "d = (wDisk ?w)\<lparr>dSynced := length ?b\<rparr>"
  obtain cs where cs: "wal_inv ?w cs 1" using wal_sys_good [OF ex_synced ex_wopts1(1,2)] by (auto simp: good_def)
  then have "dSegs (wDisk ?w) \<noteq> []" by (auto simp: wal_inv_def laid_out_def)
  then have cut: "power_cut (wDisk ?w) d"
    unfolding power_cut_def d_def Let_def by (auto intro!: exI [of _ "max (dSynced (wDisk ?w)) (length ?b)"])
  have "rec_calm ex_calm" by (simp add: rec_calm_def ex_calm_def)
  from acknowledged_survives_power_failure [OF ex_synced ex_wopts1(1,2) cut this ex_wopts1(3)] obtain w' n
    where w': "OpenWAL ok ex_calm ex_wopts d = Inr w'" "1 \<le> n" "n < length (wHist ?w)" "wal_content w' = wHist ?w ! n" by blast
  have "length (wHist ?w) = 2" by (simp add: sync_end_def Let_def set_synced_def sync_begin_def ex_w1_sel)
  moreover from this w'(2,3) have "n = 1" by simp
  ultimately show ?thesis using ex_synced cut w' by blast
qed



text \<open>
  A damaged header of the newest segment is taken for a file that was being created.  Whatever the settings, \<open>FailOnTruncation\<close> included, opening a
  directory in which the bytes of that header no longer decode succeeds, sets the whole file aside, and the store that is found ends just before
  the first entry of that segment, acknowledged or not.
\<close>

theorem damaged_header_drops_segment:
  assumes "wal_sys opts w a" and "wo_applyDefaults opts = Inr o1" "plain_opts o1" and "wFailure w = ok" and "dSegs (wDisk w) = before @ [(k, b)]"
    and "isl (decodeHeaderFlags (take headerSize b') walMagic)" and "rec_calm e"
  shows "\<exists>w'. OpenWAL ok e opts ((wDisk w)\<lparr>dSegs := before @ [(k, b')]\<rparr>) = Inr w' \<and> wal_content w' = wHist w ! (k - 1)"
proof -
  let ?d = "(wDisk w)\<lparr>dSegs := before @ [(k, b')]\<rparr>"
  obtain cs where inv: "wal_inv w cs a" and o: "wOpts w = o1" using wal_sys_good [OF assms(1-3)] by (auto simp: good_def)
  obtain torn stray where p: "live w cs" "laid_out w cs torn stray" using inv by (auto simp: wal_inv_def)
  note L = liveD [OF p(1)]
  have "dSegs (wDisk w) = segs_of (butlast cs) @ [(last_start cs, seg_image (last_start cs) (last_entries cs))]"
    using p(2) assms(4) by (simp add: laid_out_def)
  then have s: "before = segs_of (butlast cs)" "k = last_start cs" using assms(5) by simp_all
  have c: "cs = butlast cs @ [(k, last_entries cs)]" using L(5) s(2) by simp
  have "contig 1 (butlast cs @ [(k, last_entries cs)])" using L(7) c by (simp add: log_fits_def)
  then have k: "k = Suc (length (entries (butlast cs)))" by (simp add: contig_append)
  define bs where "bs = (if butlast cs = [] then [(1, [])] else butlast cs)"
  have full: "full_chunks (butlast cs)" using L(6) by (simp add: tidy_def full_chunks_def)
  have bs: "log_of cs = log_of bs @ placed k headerSize k (last_entries cs)"
    by (subst c) (simp add: bs_def)
  have fits: "log_fits (woMaxEntryBytes o1) bs"
    using L(7) unfolding o by (subst (asm) c) (auto simp: bs_def log_fits_def contig_append)
  have n: "length (entries bs) = k - 1" using k by (simp add: bs_def)
  have "holds_all w cs" using holds_live [OF p(1), of w torn stray] p(2) by (simp add: laid_out_def)
  from holds_cut [OF this L(5), of 0] have h: "holds_all w bs" using s(2) k by (auto simp: holds_all_def cut_at_def bs_def)
  obtain w' where w': "recover e (wal_zero o1 ?d) = Inr w'" "live w' bs" "wOpts w' = o1" "dSegs (wDisk w') = segs_of bs"
    "fresh_run w'" "dSynced (wDisk w') = image_end bs"
  proof (cases "butlast cs = []")
    case True
    show ?thesis using recover_first [OF assms(7,3), of ?d] True s k assms(6) L(4) that by (auto simp: bs_def)
  next
    case False
    have "v_ok (\<not> woPayloadsInMemory o1) (log_of (butlast cs)) v_init" using L(8) bs False unfolding L(2) o by (simp add: v_ok_append bs_def)
    with recover_stray [OF assms(7,3) _ False k _ _ _ assms(6), of ?d] fits full False s L(4) that show ?thesis by (auto simp: bs_def tidy_snoc)
  qed
  have "wHist w' = take (Suc (length (entries bs))) (wHist w)"
    using hist_prefix [OF p(1) w'(2) _ bs _ _ h] w'(3) o fits holds_live [OF w'(2), of w' "[]" "[]"] w'(4) segs_of_last [OF liveD(5) [OF w'(2)]] by simp
  moreover have "length (entries (butlast cs)) \<le> length (entries cs)" by (subst (2) c) simp
  then have "k - 1 < length (wHist w)" using inv_content(2) [OF inv] k by simp
  moreover have "wal_inv w' bs 0"
    using fresh_inv [OF w'(2,5,4)] within_all [of bs 0] liveD(5) [OF w'(2)] w'(6) by (simp add: image_end_def)
  then have "wal_content w' = last (wHist w')" by (rule inv_content(1))
  ultimately have "wal_content w' = wHist w ! (k - 1)" by (simp add: n take_Suc_conv_app_nth)
  then show ?thesis using w'(1) assms(2) by (simp add: OpenWAL_def)
qed

lemma ex_synced_sel:
  "wFailure (sync_end ok (sync_begin ex_w1)) = ok" "dSegs (wDisk (sync_end ok (sync_begin ex_w1))) = dSegs (wDisk ex_w1)"
  "wHist (sync_end ok (sync_begin ex_w1)) = wHist ex_w1"
  by (simp_all add: sync_end_def Let_def set_synced_def sync_begin_def ex_w1_sel)

lemma ex_w1_content: "wal_content ex_w1 (rID ex_codec_record) \<noteq> None"
proof -
  have "good ex_w0 0" using wal_sys_good [OF ex_opened_sys ex_wopts1(1,2)] by blast
  then have "wal_content ex_w1 = c_apply (op_entry ex_wenv (OpAppendW ex_codec_record) ex_w0) (wal_content ex_w0)"
    using wal_do_does [OF _ ex_append_fits] ex_appended by (auto simp: does_def wal_do_def ex_w1_def)
  then show ?thesis by (simp add: c_apply_def op_entry_def filled_def)
qed

theorem damaged_header_drops_segment_witness:
  "\<exists>w w'. wal_sys ex_wopts w 1 \<and> wal_content w (rID ex_codec_record) \<noteq> None
    \<and> OpenWAL ok ex_calm ex_wopts ((wDisk w)\<lparr>dSegs := [(1, [])]\<rparr>) = Inr w' \<and> wal_content w' = Map.empty"
proof -
  let ?w = "sync_end ok (sync_begin ex_w1)"
  obtain b where "dSegs (wDisk ?w) = [] @ [(1, b)]" using ex_w1_sel(6) ex_synced_sel(2) by auto
  moreover have "isl (decodeHeaderFlags (take headerSize []) walMagic)" "rec_calm ex_calm"
    by (rule short_header) (simp_all add: headerSize_def rec_calm_def ex_calm_def)
  ultimately obtain w' where w': "OpenWAL ok ex_calm ex_wopts ((wDisk ?w)\<lparr>dSegs := [] @ [(1, [])]\<rparr>) = Inr w'" "wal_content w' = wHist ?w ! (1 - 1)"
    using damaged_header_drops_segment [OF ex_synced ex_wopts1(1,2) ex_synced_sel(1)] by blast
  obtain cs where cs: "wal_inv ?w cs 1" using wal_sys_good [OF ex_synced ex_wopts1(1,2)] by (auto simp: good_def)
  obtain cs1 where "wal_inv ex_w1 cs1 0" using wal_sys_good [OF ex_appended_sys ex_wopts1(1,2)] by (auto simp: good_def)
  then have "wal_content ?w = wal_content ex_w1" using inv_content(1) cs ex_synced_sel(3) by metis
  moreover have "wHist ?w ! 0 = Map.empty" using inv_content(3) [OF cs] by (cases "entries cs") simp_all
  ultimately show ?thesis using w' ex_synced ex_w1_content by (intro exI [of _ ?w] exI [of _ w']) simp
qed

end
