(* ===== verification/GG_Wal_Gaps.thy ===== *)
theory GG_Wal_Gaps
  imports GG_Wal_Props
begin

text \<open>The limits of a store after a restart, and where the store reports a record safe that is not.\<close>

section \<open>Limits after a restart\<close>

lemma lim_machine:
  "lim (applyNack p t nxt tx bl rf m) = lim m" "lim (applyRelease p m) = lim m" "lim (applyPark p t reason m) = lim m" "lim (applyRequeue p b cp m) = lim m"
  "lim (machine_remove p m) = lim m" "lim (insertOffloaded rec ref m) = lim m" "lim (machine_insert rec m) = lim m" "lim (replayLease i m) = lim m"
  "lim (end_lease p m) = lim m" "lim (setCheckpoint p cp m) = lim m" "lim (setCheckpointRef p n ref m) = lim m"
  by (auto simp: applyNack_def applyRelease_def applyPark_def applyRequeue_def machine_remove_def insertOffloaded_def machine_insert_def
      replayLease_def with_item_def end_lease_def setCheckpoint_def setCheckpointRef_def Let_def enter_def resize_def unlease_def
      split: option.splits)

lemma lim_replay:
  "lim (replayAck i m) = lim m" "lim (replayRelease i m) = lim m" "lim (replayDiscard i m) = lim m"
  "lim (replayNack i t nxt tx bl rf m) = lim m" "lim (replayPark i t reason m) = lim m"
  by (simp_all add: replayAck_def replayRelease_def replayDiscard_def replayNack_def replayPark_def with_item_def lim_machine split: option.splits)

lemma lim_fold: "(\<And>x m. lim (f x m) = lim m) \<Longrightarrow> lim (fold f xs m) = lim m"
  by (induction xs arbitrary: m) simp_all

lemma lim_endReplay: "lim (endReplay m) = lim m"
  unfolding endReplay_def by (rule lim_fold) (rule lim_machine)

lemma lim_store:
  "lim (wM (insertRecord rec ref w)) = lim (wM w)" "lim (wM (replayCheckpoint i cp ref w)) = lim (wM w)"
  "lim (wM (replayRequeue i replace cp ref w)) = lim (wM w)"
  by (simp_all add: insertRecord_def replayCheckpoint_def replayRequeue_def setCheckpointAt_def set_m_def Let_def lim_machine split: option.splits)

lemma lim_decoded: "apply_decoded r f w = Inr w1 \<Longrightarrow> (\<And>x. lim (wM (f x w)) = lim (wM w)) \<Longrightarrow> lim (wM w1) = lim (wM w)"
  by (auto simp: apply_decoded_def split: sum.splits)

lemma lim_on_m: "(\<And>m. lim (f m) = lim m) \<Longrightarrow> lim (wM (on_m f w)) = lim (wM w)"
  by (simp add: on_m_def set_m_def)

lemma lim_applyEntry:
  assumes "applyEntry fr ref w = Inr w1"
  shows "lim (wM w1) = lim (wM w)"
proof -
  have f: "lim (fold replayLease ids m) = lim m" for ids m by (intro lim_fold lim_machine)
  note step = lim_on_m [of "fold replayLease _", OF f] lim_replay [THEN lim_on_m] lim_store
  show ?thesis
    using assms unfolding applyEntry_def Let_def
    by (simp only: split: if_split_asm) (erule lim_decoded, simp add: step split: prod.splits | auto simp: lim_store split: sum.splits if_splits)+
qed

lemma lim_quarantine: "quarantine k n e w = (err, w1) \<Longrightarrow> lim (wM w1) = lim (wM w)"
  by (auto simp: quarantine_def Let_def wal_emit_def split: if_splits option.splits)

lemma lim_repairTail: "repairTail e k off nxt w = Inr (x, y, w1) \<Longrightarrow> lim (wM w1) = lim (wM w)"
  by (auto simp: repairTail_def Let_def set_synced_def put_seg_def split: if_splits option.splits prod.splits dest: lim_quarantine)

lemma lim_replay_frames: "replay_frames e k isLast sg off nxt rest w = Inr (x, y, w1) \<Longrightarrow> lim (wM w1) = lim (wM w)"
proof (induction e k isLast sg off nxt rest w arbitrary: x y w1 rule: replay_frames.induct)
  case (1 e k isLast sg off nxt rest w)
  show ?case
  proof (cases "readFrame rest (int (length rest)) (woMaxEntryBytes (wOpts w))")
    case (Inl err)
    then show ?thesis using "1.prems" lim_repairTail by (subst (asm) replay_frames.simps) (auto split: if_splits)
  next
    case (Inr p)
    obtain fr rest1 where p: "p = (fr, rest1)" by (cases p)
    show ?thesis
      using "1.prems" "1.IH" lim_applyEntry Inr p
      by (subst (asm) replay_frames.simps) (fastforce simp: Let_def noted_def split: if_splits sum.splits)
  qed
qed

lemma lim_replaySegment: "replaySegment e k ex isLast w = Inr (x, y, w1) \<Longrightarrow> lim (wM w1) = lim (wM w)"
  by (auto simp: replaySegment_def Let_def checkFileFlags_def wal_emit_def split: if_splits option.splits sum.splits prod.splits
      dest!: lim_quarantine lim_replay_frames)

lemma lim_replay_segments: "replay_segments e ks ex le kept w = Inr (x, y, z, w1) \<Longrightarrow> lim (wM w1) = lim (wM w)"
  by (induction e ks ex le kept w rule: replay_segments.induct)
    (auto simp: set_synced_def split: sum.splits option.splits dest!: lim_replaySegment)

lemma lim_open_active: "open_active e ex le kept w = Inr w1 \<Longrightarrow> lim (wM w1) = lim (wM w)"
  by (auto simp: open_active_def Let_def set_m_def lim_endReplay newSegmentLocked_def createSegment_def put_seg_def set_synced_def
      split: if_splits option.splits prod.splits)

text \<open>A directory without snapshot opens to a store with the limits of its options.\<close>

lemma lim_recover:
  assumes "recover e (wal_zero o1 d) = Inr w" and "dSnaps d = []"
  shows "lim (wM w) = \<lparr>maxRecords = woMaxRecords o1, maxBytes = woMaxBytes o1, maxRecordBytes = woMaxRecordBytes o1\<rparr>"
  using assms
  by (auto simp: recover_def Let_def wal_zero_def noted_def set_m_def newMachine_def split: option.splits sum.splits prod.splits
      dest!: lim_replay_segments lim_open_active)

section \<open>A duplicate that is reported safe\<close>

text \<open>The store found when the process dies between the write and the \<open>fsync\<close> of the record.\<close>

lemma ex_reopened:
  "\<exists>w es. OpenWAL ok ex_calm ex_wopts (wDisk ex_w1) = Inr w \<and> wal_sys ex_wopts w 0 \<and> live w [(1, es)] \<and> fresh_run w
     \<and> dSegs (wDisk w) = segs_of [(1, es)] \<and> dSynced (wDisk w) = headerSize \<and> wOpts w = ex_wopts1 \<and> wal_content w (rID ex_codec_record) \<noteq> None"
proof -
  obtain cs where inv: "wal_inv ex_w1 cs 0" and o: "wOpts ex_w1 = ex_wopts1"
    using wal_sys_good [OF ex_appended_sys ex_wopts1(1,2)] by (auto simp: good_def)
  obtain torn stray where p: "live ex_w1 cs" "laid_out ex_w1 cs torn stray" using inv by (auto simp: wal_inv_def)
  note L = liveD [OF p(1)]
  have t: "torn = []" "stray = []" "torn_at (woMaxEntryBytes ex_wopts1) (last_start cs + length (last_entries cs)) []"
    using p(2) ex_w1_sel(1) torn_none [OF ex_wopts1(2)] by (simp_all add: laid_out_def)
  obtain es where cs: "cs = [(1, es)]"
    using p(2) t ex_w1_sel(6) L(5) by (cases cs rule: rev_cases) (auto simp: laid_out_def segs_of_def)
  have rc: "rec_calm ex_calm" by (simp add: rec_calm_def ex_calm_def)
  have d: "dSegs (wDisk ex_w1) = segs_of [] @ [(1, seg_image 1 es @ [])]" using p(2) t cs by (simp add: laid_out_def)
  have v: "v_ok (\<not> woPayloadsInMemory ex_wopts1) (log_of cs) v_init" using L(8) unfolding L(2) o .
  have ok: "torn_ok ex_wopts1 1 es []" by (simp add: torn_ok_def)
  from recover_image [OF rc ex_wopts1(2), of "[]" 1 es, OF _ _ _ d L(4) _ ok] L(6,7) v t(3) cs o
  obtain w where w: "recover ex_calm (wal_zero ex_wopts1 (wDisk ex_w1)) = Inr w" "live w [(1, es)]" "fresh_run w" "wOpts w = ex_wopts1"
    "dSegs (wDisk w) = segs_of [(1, es)]" "dSynced (wDisk w) = dSynced (wDisk ex_w1)" by auto
  have op: "OpenWAL ok ex_calm ex_wopts (wDisk ex_w1) = Inr w" using w(1) ex_wopts1(1) by (simp add: OpenWAL_def)
  have pos: "0 < dSynced (wDisk ex_w1)" by (simp add: ex_w1_sel(7) headerSize_def)
  have rep: "repairable (wOpts ex_w1) (wDisk ex_w1)" using ex_wopts1(3) o by simp
  have sys: "wal_sys ex_wopts w 0" by (rule sys_crash [OF ex_appended_sys pos rc rep op])
  obtain cs' where i: "wal_inv w cs' 0" using wal_sys_good [OF sys ex_wopts1(1,2)] by (auto simp: good_def)
  from crash_recovers [OF inv pos rc rep] w(1) o have "restarted ex_w1 w cs 0" by auto
  then have "wHist w = wHist ex_w1" using inv_content(2) [OF inv] by (simp add: restarted_def)
  then have "wal_content w = wal_content ex_w1" using inv_content(1) [OF inv] inv_content(1) [OF i] by simp
  then show ?thesis using op sys w ex_w1_sel(7) ex_w1_content by (intro exI [of _ w] exI [of _ es]) simp
qed

lemma ex_repeat_dup:
  assumes "lookup m (rID ex_codec_record) \<noteq> None" and "lim m = \<lparr>maxRecords = 1000000, maxBytes = 512 * 2 ^ 20, maxRecordBytes = 8 * 2 ^ 20\<rparr>"
  shows "prepare m ex_codec_record now = PrepDup"
  using assms
  by (simp add: prepare_def ex_codec_record_def zero_record_def zero_source_def Validate_def maxIDLen_def Size_def headers_size_def blen_def)

text \<open>
  A record that was written but not yet synced when the process died is reported safe to the caller that appends it again.  There is a store, found by
  opening the directory, in which \<open>Append\<close> of that record succeeds at once as a duplicate with \<open>SyncAlways\<close>, without any \<open>fsync\<close> in between,
  and a power failure right after that loses the record.
\<close>

theorem recovered_duplicate_not_durable:
  "\<exists>w sq d w'. wal_sys ex_wopts w 0 \<and> woSync (wOpts w) = SyncAlways \<and> wal_Append ex_wenv ex_codec_record w = (Inr sq, w) \<and> waitDurable ok sq w = (ok, w)
    \<and> power_cut (wDisk w) d \<and> OpenWAL ok ex_calm ex_wopts d = Inr w' \<and> wal_content w' (rID ex_codec_record) = None"
proof -
  obtain w es where w: "OpenWAL ok ex_calm ex_wopts (wDisk ex_w1) = Inr w" "wal_sys ex_wopts w 0" "live w [(1, es)]" "fresh_run w"
    "dSegs (wDisk w) = segs_of [(1, es)]" "dSynced (wDisk w) = headerSize" "wOpts w = ex_wopts1" "wal_content w (rID ex_codec_record) \<noteq> None"
    using ex_reopened by blast
  define d where "d = (wDisk w)\<lparr>dSegs := [(1, seg_image 1 [])], dSynced := headerSize\<rparr>"
  have "take headerSize (seg_image 1 es) = seg_image 1 []" by (simp add: seg_image_def)
  then have cut: "power_cut (wDisk w) d"
    using w(5,6) unfolding power_cut_def d_def by (auto simp: segs_of_def length_seg_image intro!: exI [of _ headerSize])
  have snaps: "dSnaps (wDisk ex_w1) = []" "dSnaps (wDisk w) = []"
    using wal_sys_good [OF ex_appended_sys ex_wopts1(1,2)] liveD(4) [OF w(3)] liveD(4) by (auto simp: good_def wal_inv_def)
  have "recover ex_calm (wal_zero ex_wopts1 (wDisk ex_w1)) = Inr w" using w(1) ex_wopts1(1) by (simp add: OpenWAL_def)
  from lim_recover [OF this snaps(1)]
  have "lim (wM w) = \<lparr>maxRecords = 1000000, maxBytes = 512 * 2 ^ 20, maxRecordBytes = 8 * 2 ^ 20\<rparr>"
    by (simp add: ex_open_defs DefaultWALMaxRecords_def DefaultWALMaxBytes_def)
  moreover have "lookup (wM w) (rID ex_codec_record) \<noteq> None" using w(8) by (auto simp: wal_content_def split: option.splits)
  ultimately have "prepare (wM w) ex_codec_record (wvNow ex_wenv) = PrepDup" by (intro ex_repeat_dup)
  then have app: "wal_Append ex_wenv ex_codec_record w = (Inr 0, w)"
    using w(4) by (simp add: wal_Append_def wal_begin_def ex_wenv_def fresh_run_def)
  have rc: "rec_calm ex_calm" by (simp add: rec_calm_def ex_calm_def)
  have d: "dSegs d = segs_of [] @ [(1, seg_image 1 [] @ [])]" "dSnaps d = []" by (simp_all add: d_def snaps(2))
  have t: "torn_at (woMaxEntryBytes ex_wopts1) (1 + length ([] :: went list)) []" "torn_ok ex_wopts1 1 [] []"
    using torn_none [OF ex_wopts1(2)] by (simp_all add: torn_ok_def)
  from recover_image [OF rc ex_wopts1(2), of "[]" 1 "[]", OF _ _ _ d t]
  obtain w' where w': "recover ex_calm (wal_zero ex_wopts1 d) = Inr w'" "live w' [(1, [])]" "fresh_run w'" "dSegs (wDisk w') = segs_of [(1, [])]"
    "dSynced (wDisk w') = headerSize" by (auto simp: log_fits_def tidy_def d_def)
  have "wal_inv w' [(1, [])] 0" using fresh_inv [OF w'(2,3,4)] within_all [of "[(1, [])]" 0] w'(5) by (simp add: length_seg_image)
  then have "wal_content w' = Map.empty" using inv_content by fastforce
  moreover have "OpenWAL ok ex_calm ex_wopts d = Inr w'" using w'(1) ex_wopts1(1) by (simp add: OpenWAL_def)
  moreover have "waitDurable ok 0 w = (ok, w)" using w(7) ex_wopts1(4) by (simp add: waitDurable_def)
  ultimately show ?thesis using w(2,7) ex_wopts1(4) app cut
    by (intro exI [of _ w] exI [of _ 0] exI [of _ d] exI [of _ w']) simp
qed

end
