(* ===== verification/GG_Crypt.thy ===== *)
theory GG_Crypt
  imports GG_Errors
begin

text \<open>
  Encryption and signing at rest (\<open>secure/aesgcm.go\<close>, \<open>secure/hmac.go\<close>): keys and their validation, the layout of sealed
  data and of signatures, sealing and opening under rotation.  The primitives of the standard library are the record
  \<open>crypto\<close>: AES-256-GCM with a 12-byte nonce and a 16-byte tag, HKDF-SHA256 and HMAC-SHA256.  What is relied on
  (\<open>crypto_ok\<close>) is their documented behaviour: opening inverts sealing and accepts nothing else, lengths are as specified.
\<close>

section \<open>Primitives\<close>

record crypto =
  gcmSeal :: "string \<Rightarrow> string \<Rightarrow> string \<Rightarrow> string \<Rightarrow> string"
  gcmOpen :: "string \<Rightarrow> string \<Rightarrow> string \<Rightarrow> string \<Rightarrow> string option"
  hkdfKey :: "string \<Rightarrow> string \<Rightarrow> string \<Rightarrow> gerror + string"
  hmac256 :: "string \<Rightarrow> string \<Rightarrow> string"

definition gcmNonceSize :: nat where "gcmNonceSize = 12"
definition gcmOverhead :: nat where "gcmOverhead = 16"
definition sha256Size :: nat where "sha256Size = 32"

definition crypto_ok :: "crypto \<Rightarrow> bool" where
  "crypto_ok c \<longleftrightarrow>
     (\<forall>k n p a. gcmOpen c k n (gcmSeal c k n p a) a = Some p \<and> length (gcmSeal c k n p a) = length p + gcmOverhead)
     \<and> (\<forall>k n x a p. gcmOpen c k n x a = Some p \<longrightarrow> x = gcmSeal c k n p a)
     \<and> (\<forall>k x. length (hmac256 c k x) = sha256Size)"

section \<open>Keys\<close>

definition KeySize :: nat where "KeySize = 32"
definition MinHMACKeySize :: nat where "MinHMACKeySize = 32"
definition formatV1 :: nat where "formatV1 = 1"
definition formatV2 :: nat where "formatV2 = 2"
definition saltSize :: nat where "saltSize = 16"
definition maxKeyID :: nat where "maxKeyID = 255"

record Key =
  kyID :: string
  kyMaterial :: string

definition key_validate :: "nat \<Rightarrow> bool \<Rightarrow> Key \<Rightarrow> goerr" where
  "key_validate minLen exact k =
     (if kyID k = '''' \<or> maxKeyID < length (kyID k) then Some (EWrap ''id must be 1 to 255 bytes'' [EVar ErrInvalidKey])
      else if exact \<and> length (kyMaterial k) \<noteq> minLen \<or> \<not> exact \<and> length (kyMaterial k) < minLen
      then Some (EWrap ''key has the wrong length'' [EVar ErrInvalidKey])
      else ok)"

text \<open>The map from key names to key material, filled key by key.\<close>

type_synonym keyring = "(string \<times> string) list"

fun add_keys :: "nat \<Rightarrow> bool \<Rightarrow> Key list \<Rightarrow> keyring \<Rightarrow> gerror + keyring" where
  "add_keys minLen exact [] ring = Inr ring"
| "add_keys minLen exact (k # ks) ring =
     (case key_validate minLen exact k of
        Some err \<Rightarrow> Inl err
      | None \<Rightarrow> if map_of ring (kyID k) \<noteq> None then Inl (EWrap ''duplicate key id'' [EVar ErrInvalidKey])
          else add_keys minLen exact ks (ring @ [(kyID k, kyMaterial k)]))"

section \<open>AES-GCM\<close>

record AESGCM =
  acActive :: string
  acKeys :: keyring
  acDerive :: bool

text \<open>\<open>aes.NewCipher\<close> and \<open>cipher.NewGCM\<close> accept every key of 32 bytes.\<close>

definition NewAESGCM :: "Key \<Rightarrow> Key list \<Rightarrow> gerror + AESGCM" where
  "NewAESGCM active retired =
     (case add_keys KeySize True (active # retired) [] of
        Inl err \<Rightarrow> Inl err
      | Inr ring \<Rightarrow> Inr \<lparr>acActive = kyID active, acKeys = ring, acDerive = False\<rparr>)"

definition NewAESGCMDerived :: "Key \<Rightarrow> Key list \<Rightarrow> gerror + AESGCM" where
  "NewAESGCMDerived active retired =
     (case NewAESGCM active retired of Inl err \<Rightarrow> Inl err | Inr e \<Rightarrow> Inr (e\<lparr>acDerive := True\<rparr>))"

definition ActiveKeyID :: "AESGCM \<Rightarrow> string" where
  "ActiveKeyID e = acActive e"

definition headerV :: "nat \<Rightarrow> string \<Rightarrow> string" where
  "headerV version keyID = char_of version # char_of (length keyID) # keyID"

definition withHeader :: "string \<Rightarrow> string \<Rightarrow> string" where
  "withHeader h aad = h @ aad"

definition derivedAEAD :: "crypto \<Rightarrow> string \<Rightarrow> string \<Rightarrow> gerror + string" where
  "derivedAEAD c master salt = hkdfKey c master salt ''goguard/secure/v2/aes256gcm''"

text \<open>What \<open>rand.Read\<close> answers when the salt and the nonce of one message are drawn.\<close>

record rnd =
  rnSalt :: "gerror + string"
  rnNonce :: "gerror + string"

definition rnd_ok :: "rnd \<Rightarrow> bool" where
  "rnd_ok r \<longleftrightarrow> (\<forall>s. rnSalt r = Inr s \<longrightarrow> length s = saltSize) \<and> (\<forall>n. rnNonce r = Inr n \<longrightarrow> length n = gcmNonceSize)"

definition material :: "keyring \<Rightarrow> string \<Rightarrow> string" where
  "material ring i = (case map_of ring i of Some m \<Rightarrow> m | None \<Rightarrow> [])"

definition aes_Seal :: "crypto \<Rightarrow> AESGCM \<Rightarrow> rnd \<Rightarrow> string \<Rightarrow> string \<Rightarrow> gerror + string" where
  "aes_Seal c e r plaintext aad =
     (let master = material (acKeys e) (acActive e);
          keyed = (if acDerive e
                   then (case rnSalt r of
                           Inl err \<Rightarrow> Inl (EWrap ''secure: reading random salt'' [err])
                         | Inr salt \<Rightarrow> (case derivedAEAD c master salt of
                                          Inl err \<Rightarrow> Inl (EWrap ''secure: deriving key'' [err])
                                        | Inr k \<Rightarrow> Inr (formatV2, k, salt)))
                   else Inr (formatV1, master, []))
      in case keyed of
           Inl err \<Rightarrow> Inl err
         | Inr (version, k, salt) \<Rightarrow>
            (let h = headerV version (acActive e) in
             case rnNonce r of
               Inl err \<Rightarrow> Inl (EWrap ''secure: reading random nonce'' [err])
             | Inr nonce \<Rightarrow> Inr (h @ salt @ nonce @ gcmSeal c k nonce plaintext (withHeader h aad))))"

definition aes_Open :: "crypto \<Rightarrow> AESGCM \<Rightarrow> string \<Rightarrow> string \<Rightarrow> gerror + string" where
  "aes_Open c e sealed aad =
     (if length sealed < 2 \<or> of_char (sealed ! 0) \<noteq> formatV1 \<and> of_char (sealed ! 0) \<noteq> formatV2
      then Inl (EVar ErrMalformed)
      else
       (let version = of_char (sealed ! 0) :: nat; idLen = of_char (sealed ! 1) :: nat in
        if length sealed < 2 + idLen then Inl (EVar ErrMalformed)
        else
         (let h = take (2 + idLen) sealed; keyID = drop 2 h; rest0 = drop (2 + idLen) sealed in
          case map_of (acKeys e) keyID of
            None \<Rightarrow> Inl (EVar ErrUnknownKey)
          | Some master \<Rightarrow>
             (let keyed = (if version = formatV2
                           then (if length rest0 < saltSize then Inl (EVar ErrMalformed)
                                 else case derivedAEAD c master (take saltSize rest0) of
                                        Inl _ \<Rightarrow> Inl (EVar ErrDecrypt)
                                      | Inr k \<Rightarrow> Inr (k, drop saltSize rest0))
                           else Inr (master, rest0))
              in case keyed of
                   Inl err \<Rightarrow> Inl err
                 | Inr (k, rest) \<Rightarrow>
                    if length rest < gcmNonceSize + gcmOverhead then Inl (EVar ErrMalformed)
                    else (case gcmOpen c k (take gcmNonceSize rest) (drop gcmNonceSize rest) (withHeader h aad) of
                            None \<Rightarrow> Inl (EVar ErrDecrypt)
                          | Some pt \<Rightarrow> Inr pt)))))"

section \<open>HMAC signatures\<close>

record HMACSigner =
  hsActive :: string
  hsKeys :: keyring

definition NewHMAC :: "Key \<Rightarrow> Key list \<Rightarrow> gerror + HMACSigner" where
  "NewHMAC active retired =
     (case add_keys MinHMACKeySize False (active # retired) [] of
        Inl err \<Rightarrow> Inl err
      | Inr ring \<Rightarrow> Inr \<lparr>hsActive = kyID active, hsKeys = ring\<rparr>)"

definition hs_mac :: "crypto \<Rightarrow> string \<Rightarrow> string \<Rightarrow> string \<Rightarrow> string" where
  "hs_mac c key h data = hmac256 c key (h @ data)"

definition hs_Sign :: "crypto \<Rightarrow> HMACSigner \<Rightarrow> string \<Rightarrow> string" where
  "hs_Sign c s data = (let h = headerV formatV1 (hsActive s) in h @ hs_mac c (material (hsKeys s) (hsActive s)) h data)"

definition hs_Verify :: "crypto \<Rightarrow> HMACSigner \<Rightarrow> string \<Rightarrow> string \<Rightarrow> goerr" where
  "hs_Verify c s data sig =
     (if length sig < 2 \<or> of_char (sig ! 0) \<noteq> formatV1 then Some (EVar ErrMalformed)
      else
       (let idLen = of_char (sig ! 1) :: nat in
        if length sig \<noteq> 2 + idLen + sha256Size then Some (EVar ErrMalformed)
        else case map_of (hsKeys s) (drop 2 (take (2 + idLen) sig)) of
               None \<Rightarrow> Some (EVar ErrUnknownKey)
             | Some key \<Rightarrow>
                 if hs_mac c key (take (2 + idLen) sig) data \<noteq> drop (2 + idLen) sig then Some (EVar ErrBadSignature) else ok))"

section \<open>Lemmas\<close>

text \<open>Key rings made by the constructors: names of 1 to 255 bytes, each once, the active key among them.\<close>

definition ring_ok :: "keyring \<Rightarrow> bool" where
  "ring_ok ring \<longleftrightarrow> (\<forall>i m. map_of ring i = Some m \<longrightarrow> i \<noteq> '''' \<and> length i \<le> maxKeyID)"

lemma ring_ok_Nil [simp]: "ring_ok []"
  by (simp add: ring_ok_def)

lemma ring_ok_snoc: "ring_ok ring \<Longrightarrow> i \<noteq> '''' \<Longrightarrow> length i \<le> maxKeyID \<Longrightarrow> ring_ok (ring @ [(i, m)])"
  by (auto simp: ring_ok_def map_add_def split: option.splits if_splits)

lemma add_keys_ok:
  assumes "add_keys minLen exact ks ring = Inr ring'" and "ring_ok ring"
  shows "ring_ok ring' \<and> (\<exists>new. ring' = ring @ new \<and> map fst new = map kyID ks) \<and> (\<forall>i m. map_of ring i = Some m \<longrightarrow> map_of ring' i = Some m)
    \<and> (\<forall>k \<in> set ks. map_of ring' (kyID k) = Some (kyMaterial k))"
  using assms
proof (induction ks arbitrary: ring)
  case (Cons k ks)
  have v: "key_validate minLen exact k = ok" "map_of ring (kyID k) = None"
    and rec: "add_keys minLen exact ks (ring @ [(kyID k, kyMaterial k)]) = Inr ring'"
    using Cons.prems(1) by (auto split: option.splits if_splits)
  have k: "kyID k \<noteq> ''''" "length (kyID k) \<le> maxKeyID" using v(1) by (auto simp: key_validate_def split: if_splits)
  note IH = Cons.IH [OF rec ring_ok_snoc [OF Cons.prems(2) k]]
  then have "map_of ring' (kyID k) = Some (kyMaterial k)" using v(2) by (simp add: map_add_def)
  moreover have "map_of (ring @ [(kyID k, kyMaterial k)]) i = Some m" if "map_of ring i = Some m" for i m
    using that by (simp add: map_add_def)
  ultimately show ?case using IH by auto
qed simp

lemma add_keys_known:
  assumes "add_keys minLen exact ks [] = Inr ring" and "map_of ring i = Some m"
  shows "\<exists>k \<in> set ks. i = kyID k \<and> m = kyMaterial k"
proof -
  note A = add_keys_ok [OF assms(1) ring_ok_Nil]
  have "i \<in> set (map fst ring)" using map_of_SomeD [OF assms(2)] by force
  moreover have "map fst ring = map kyID ks" using A by simp
  ultimately have "i \<in> set (map kyID ks)" by simp
  then obtain k where k: "k \<in> set ks" "i = kyID k" by auto
  then have "map_of ring i = Some (kyMaterial k)" using A by simp
  then show ?thesis using k assms(2) by auto
qed

lemma headerV_sel [simp]:
  assumes "version < 256" and "length i \<le> maxKeyID"
  shows "of_char (headerV version i ! 0) = version" "of_char (headerV version i ! Suc 0) = length i" "length (headerV version i) = 2 + length i"
    "drop 2 (headerV version i) = i"
  using assms by (simp_all add: headerV_def maxKeyID_def)

lemma headerV_exact:
  assumes "2 + of_char (s ! 1) \<le> length s" and "of_char (s ! 0) = version"
  shows "take (2 + of_char (s ! 1)) s = headerV version (drop 2 (take (2 + of_char (s ! 1)) s))"
proof -
  obtain a b t where s: "s = a # b # t" using assms(1) by (cases s; cases "tl s") auto
  then show ?thesis using assms by (auto simp: headerV_def min_def)
qed

text \<open>The layout of sealed data: how the key of a message follows from its format.\<close>

definition message_key :: "crypto \<Rightarrow> string \<Rightarrow> nat \<Rightarrow> string \<Rightarrow> string \<Rightarrow> bool" where
  "message_key c master version salt k \<longleftrightarrow>
     version = formatV1 \<and> salt = [] \<and> k = master
     \<or> version = formatV2 \<and> length salt = saltSize \<and> derivedAEAD c master salt = Inr k"

definition sealed_as :: "crypto \<Rightarrow> string \<Rightarrow> string \<Rightarrow> string \<Rightarrow> string \<Rightarrow> string \<Rightarrow> bool" where
  "sealed_as c i master plain aad x \<longleftrightarrow> (\<exists>version salt nonce k. message_key c master version salt k \<and> length nonce = gcmNonceSize
     \<and> x = headerV version i @ salt @ nonce @ gcmSeal c k nonce plain (withHeader (headerV version i) aad))"

lemmas format_defs = formatV1_def formatV2_def saltSize_def gcmNonceSize_def gcmOverhead_def

lemma open_layout:
  assumes "crypto_ok c" and "length i \<le> maxKeyID" and "message_key c master version salt k" and "length nonce = gcmNonceSize"
    and "map_of (acKeys e) i = Some master" and "length ct \<ge> gcmOverhead"
  shows "aes_Open c e (headerV version i @ salt @ nonce @ ct) aad
    = (case gcmOpen c k nonce ct (withHeader (headerV version i) aad) of None \<Rightarrow> Inl (EVar ErrDecrypt) | Some p \<Rightarrow> Inr p)"
proof -
  let ?h = "headerV version i" and ?x = "headerV version i @ salt @ nonce @ ct"
  have v: "version < 256" "version = formatV1 \<or> version = formatV2" using assms(3) by (auto simp: message_key_def format_defs)
  note H = headerV_sel [OF v(1) assms(2)]
  have x: "of_char (?x ! 0) = version" "of_char (?x ! 1) = length i" "take (2 + length i) ?x = ?h" "drop (2 + length i) ?x = salt @ nonce @ ct"
    "2 + length i \<le> length ?x" using H by (simp_all add: nth_append)
  from v(2) show ?thesis
  proof
    assume f: "version = formatV1"
    then have "salt = []" "k = master" using assms(3) by (auto simp: message_key_def format_defs)
    then show ?thesis using x H assms(4-6) f unfolding aes_Open_def Let_def by (simp add: format_defs)
  next
    assume f: "version = formatV2"
    then have "length salt = saltSize" "derivedAEAD c master salt = Inr k" using assms(3) by (auto simp: message_key_def format_defs)
    then show ?thesis using x H assms(4-6) f unfolding aes_Open_def Let_def by (simp add: format_defs)
  qed
qed

lemma sealed_opens:
  assumes "crypto_ok c" and "sealed_as c i master plain aad x" and "length i \<le> maxKeyID" and "map_of (acKeys e) i = Some master"
  shows "aes_Open c e x aad = Inr plain"
  using assms open_layout [OF assms(1,3) _ _ assms(4)] unfolding sealed_as_def crypto_ok_def by fastforce

lemma seal_sealed:
  assumes "aes_Seal c e r plain aad = Inr x" and "rnd_ok r" and "map_of (acKeys e) (acActive e) = Some master"
  shows "sealed_as c (acActive e) master plain aad x"
  using assms
  by (auto simp: aes_Seal_def Let_def material_def sealed_as_def message_key_def rnd_ok_def split: if_splits sum.splits prod.splits)

lemma open_sealed:
  assumes "crypto_ok c" and "aes_Open c e x aad = Inr plain"
  shows "\<exists>i master. map_of (acKeys e) i = Some master \<and> sealed_as c i master plain aad x"
proof -
  let ?v = "of_char (x ! 0) :: nat" and ?n = "2 + of_char (x ! 1) :: nat"
  let ?h = "take ?n x" and ?rest = "drop ?n x"
  have l: "?n \<le> length x" "?v = formatV1 \<or> ?v = formatV2"
    using assms(2) by (auto simp: aes_Open_def Let_def split: if_splits)
  obtain master where m: "map_of (acKeys e) (drop 2 ?h) = Some master"
    using assms(2) l by (cases "map_of (acKeys e) (drop 2 ?h)") (auto simp: aes_Open_def Let_def split: if_splits)
  have h: "?h = headerV ?v (drop 2 ?h)" by (rule headerV_exact [OF l(1) refl])
  have "\<exists>salt k body. message_key c master ?v salt k \<and> ?rest = salt @ body \<and> gcmNonceSize + gcmOverhead \<le> length body
      \<and> gcmOpen c k (take gcmNonceSize body) (drop gcmNonceSize body) (withHeader ?h aad) = Some plain"
    using l(2)
  proof
    assume f: "?v = formatV1"
    then show ?thesis using assms(2) l m unfolding aes_Open_def Let_def
      by (intro exI [of _ "[]"] exI [of _ master] exI [of _ ?rest]) (auto simp: message_key_def format_defs split: if_splits option.splits)
  next
    assume f: "?v = formatV2"
    then obtain k where "derivedAEAD c master (take saltSize ?rest) = Inr k" "saltSize \<le> length ?rest"
      using assms(2) l m unfolding aes_Open_def Let_def by (auto simp: format_defs split: if_splits sum.splits)
    moreover have "?rest = take saltSize ?rest @ drop saltSize ?rest" by (rule append_take_drop_id [symmetric])
    moreover have "gcmNonceSize + gcmOverhead \<le> length (drop saltSize ?rest) \<and> gcmOpen c k (take gcmNonceSize (drop saltSize ?rest))
        (drop gcmNonceSize (drop saltSize ?rest)) (withHeader ?h aad) = Some plain"
      using assms(2) l m f calculation unfolding aes_Open_def Let_def by (auto simp: format_defs split: if_splits option.splits)
    ultimately show ?thesis using f unfolding message_key_def by (metis length_take min.absorb2)
  qed
  then obtain salt k body where b: "message_key c master ?v salt k" "?rest = salt @ body" "gcmNonceSize \<le> length body"
    "gcmOpen c k (take gcmNonceSize body) (drop gcmNonceSize body) (withHeader ?h aad) = Some plain" by auto
  have "drop gcmNonceSize body = gcmSeal c k (take gcmNonceSize body) plain (withHeader ?h aad)"
    using assms(1) b(4) unfolding crypto_ok_def by blast
  moreover have "x = ?h @ salt @ take gcmNonceSize body @ drop gcmNonceSize body" using b(2) by (metis append_take_drop_id)
  ultimately have x: "x = headerV ?v (drop 2 ?h) @ salt @ take gcmNonceSize body
      @ gcmSeal c k (take gcmNonceSize body) plain (withHeader (headerV ?v (drop 2 ?h)) aad)"
    using h by metis
  have "sealed_as c (drop 2 ?h) master plain aad x"
    unfolding sealed_as_def
    by (rule exI [of _ ?v], rule exI [of _ salt], rule exI [of _ "take gcmNonceSize body"], rule exI [of _ k])
      (use b(1,3) x in \<open>simp add: min.absorb2\<close>)
  with m show ?thesis by blast
qed

lemma NewAESGCM_opens:
  assumes "crypto_ok c" and "NewAESGCM active retired = Inr e0" and "NewAESGCM active' retired' = Inr e1" and "active \<in> set (active' # retired')"
    and "rnd_ok r" and "aes_Seal c (e0\<lparr>acDerive := d\<rparr>) r plain aad = Inr x"
  shows "aes_Open c (e1\<lparr>acDerive := d'\<rparr>) x aad = Inr plain"
proof -
  obtain ring where ring: "add_keys KeySize True (active # retired) [] = Inr ring" "e0 = \<lparr>acActive = kyID active, acKeys = ring, acDerive = False\<rparr>"
    using assms(2) by (auto simp: NewAESGCM_def split: sum.splits)
  obtain ring' where ring': "add_keys KeySize True (active' # retired') [] = Inr ring'" "acKeys e1 = ring'"
    using assms(3) by (auto simp: NewAESGCM_def split: sum.splits)
  note A = add_keys_ok [OF ring(1) ring_ok_Nil] and B = add_keys_ok [OF ring'(1) ring_ok_Nil]
  have act: "map_of ring (kyID active) = Some (kyMaterial active)" "length (kyID active) \<le> maxKeyID"
    using A by (auto simp: ring_ok_def)
  show ?thesis
  proof (rule sealed_opens [OF assms(1) _ act(2)])
    show "sealed_as c (kyID active) (kyMaterial active) plain aad x"
      using seal_sealed [OF assms(6,5), of "kyMaterial active"] ring(2) act(1) by simp
    show "map_of (acKeys (e1\<lparr>acDerive := d'\<rparr>)) (kyID active) = Some (kyMaterial active)" using B ring'(2) assms(4) by auto
  qed
qed

section \<open>Properties\<close>

text \<open>
  Data sealed under one key opens, as what was sealed, under every encryptor that holds that key, active or retired, in either format; so keys can be
  rotated.  Conversely an encryptor opens nothing but what sealing that same text with the same associated data, under a key it
  holds, produces: not a changed byte, not another record's or field's data.
\<close>

theorem sealed_data_opens_exactly:
  assumes "crypto_ok c" and "NewAESGCM active retired = Inr e0" and "e = e0\<lparr>acDerive := d\<rparr>" and "rnd_ok r"
    and "NewAESGCM active' retired' = Inr e1" and "active \<in> set (active' # retired')"
  shows "(\<forall>x. aes_Seal c e r plain aad = Inr x \<longrightarrow> aes_Open c (e1\<lparr>acDerive := d'\<rparr>) x aad = Inr plain)
    \<and> (\<forall>x. aes_Open c (e1\<lparr>acDerive := d'\<rparr>) x aad = Inr plain \<longrightarrow>
         (\<exists>k \<in> set (active' # retired'). sealed_as c (kyID k) (kyMaterial k) plain aad x))"
proof (intro conjI allI impI)
  show "aes_Open c (e1\<lparr>acDerive := d'\<rparr>) x aad = Inr plain" if "aes_Seal c e r plain aad = Inr x" for x
    using NewAESGCM_opens [OF assms(1,2,5,6,4)] that assms(3) by blast
  show "\<exists>k \<in> set (active' # retired'). sealed_as c (kyID k) (kyMaterial k) plain aad x"
    if o: "aes_Open c (e1\<lparr>acDerive := d'\<rparr>) x aad = Inr plain" for x
  proof -
    obtain ring' where ring': "add_keys KeySize True (active' # retired') [] = Inr ring'" "acKeys e1 = ring'"
      using assms(5) by (auto simp: NewAESGCM_def split: sum.splits)
    obtain i master where "map_of ring' i = Some master" "sealed_as c i master plain aad x"
      using open_sealed [OF assms(1) o] ring'(2) by auto
    then show ?thesis using add_keys_known [OF ring'(1)] by blast
  qed
qed

definition ex_crypto :: crypto where
  "ex_crypto = \<lparr>gcmSeal = (\<lambda>k n p a. p @ replicate 16 (CHR ''t'')),
     gcmOpen = (\<lambda>k n x a. if 16 \<le> length x \<and> drop (length x - 16) x = replicate 16 (CHR ''t'') then Some (take (length x - 16) x) else None),
     hkdfKey = (\<lambda>m s i. Inr m), hmac256 = (\<lambda>k x. take 32 (k @ x @ replicate 32 (CHR ''m'')))\<rparr>"

lemma ex_crypto_ok: "crypto_ok ex_crypto"
proof -
  have "x = gcmSeal ex_crypto k n p a" if "gcmOpen ex_crypto k n x a = Some p" for k n x a p
  proof -
    have "drop (length x - 16) x = replicate 16 (CHR ''t'')" "p = take (length x - 16) x" using that by (auto simp: ex_crypto_def split: if_splits)
    then show ?thesis using append_take_drop_id [of "length x - 16" x, symmetric] by (simp add: ex_crypto_def)
  qed
  then show ?thesis unfolding crypto_ok_def sha256Size_def gcmOverhead_def by (auto simp: ex_crypto_def)
qed

definition ex_key :: "string \<Rightarrow> Key" where
  "ex_key i = \<lparr>kyID = i, kyMaterial = replicate 32 (CHR ''k'')\<rparr>"

definition ex_rnd :: rnd where
  "ex_rnd = \<lparr>rnSalt = Inr (replicate 16 (CHR ''s'')), rnNonce = Inr (replicate 12 (CHR ''n''))\<rparr>"

lemma ex_rnd_ok: "rnd_ok ex_rnd"
  by (simp add: ex_rnd_def rnd_ok_def saltSize_def gcmNonceSize_def)

theorem sealed_data_opens_exactly_witness:
  "\<exists>x. aes_Seal ex_crypto \<lparr>acActive = ''a'', acKeys = [(''a'', replicate 32 (CHR ''k''))], acDerive = True\<rparr> ex_rnd ''body'' ''aad'' = Inr x
    \<and> aes_Open ex_crypto \<lparr>acActive = ''b'', acKeys = [(''b'', replicate 32 (CHR ''k'')), (''a'', replicate 32 (CHR ''k''))], acDerive = False\<rparr> x ''aad'' = Inr ''body''"
proof -
  note new = NewAESGCM_def key_validate_def KeySize_def maxKeyID_def ex_key_def
  let ?e = "\<lparr>acActive = ''a'', acKeys = [(''a'', replicate 32 (CHR ''k''))], acDerive = False\<rparr>"
  let ?f = "\<lparr>acActive = ''b'', acKeys = [(''b'', replicate 32 (CHR ''k'')), (''a'', replicate 32 (CHR ''k''))], acDerive = False\<rparr>"
  have n: "NewAESGCM (ex_key ''a'') [] = Inr ?e" "NewAESGCM (ex_key ''b'') [ex_key ''a''] = Inr ?f" by (simp_all add: new)
  obtain x where "aes_Seal ex_crypto (?e\<lparr>acDerive := True\<rparr>) ex_rnd ''body'' ''aad'' = Inr x"
    by (simp add: aes_Seal_def ex_crypto_def ex_rnd_def derivedAEAD_def material_def)
  with sealed_data_opens_exactly [OF ex_crypto_ok n(1) refl ex_rnd_ok n(2), where plain = "''body''" and aad = "''aad''" and d = True and d' = False]
  show ?thesis by simp
qed

text \<open>
  A signature verifies under every signer that holds the key that made it, active or retired; and a signer accepts exactly the signatures
  that a key it holds makes for those data.
\<close>

theorem signatures_verify_exactly:
  assumes "crypto_ok c" and "NewHMAC active retired = Inr s" and "NewHMAC active' retired' = Inr s'"
  shows "(active \<in> set (active' # retired') \<longrightarrow> hs_Verify c s' data (hs_Sign c s data) = ok)
    \<and> (hs_Verify c s' data sig = ok \<longleftrightarrow>
         (\<exists>k \<in> set (active' # retired'). sig = headerV formatV1 (kyID k) @ hs_mac c (kyMaterial k) (headerV formatV1 (kyID k)) data))"
proof (intro conjI impI)
  obtain ring where ring: "add_keys MinHMACKeySize False (active # retired) [] = Inr ring" "s = \<lparr>hsActive = kyID active, hsKeys = ring\<rparr>"
    using assms(2) by (auto simp: NewHMAC_def split: sum.splits)
  obtain ring' where ring': "add_keys MinHMACKeySize False (active' # retired') [] = Inr ring'" "hsKeys s' = ring'"
    using assms(3) by (auto simp: NewHMAC_def split: sum.splits)
  note A = add_keys_ok [OF ring(1) ring_ok_Nil] and B = add_keys_ok [OF ring'(1) ring_ok_Nil]
  have made: "hs_Verify c s' data (headerV formatV1 (kyID k) @ hs_mac c (kyMaterial k) (headerV formatV1 (kyID k)) data) = ok"
    if "k \<in> set (active' # retired')" for k
  proof -
    have k: "map_of ring' (kyID k) = Some (kyMaterial k)" using B that by auto
    then have "length (kyID k) \<le> maxKeyID" using B by (auto simp: ring_ok_def)
    note H = headerV_sel [OF _ this, of formatV1]
    show ?thesis using k ring'(2) H assms(1) by (simp add: hs_Verify_def Let_def nth_append crypto_ok_def hs_mac_def formatV1_def)
  qed
  show "hs_Verify c s' data (hs_Sign c s data) = ok" if "active \<in> set (active' # retired')"
    using made [OF that] A ring(2) by (auto simp: hs_Sign_def Let_def material_def)
  show "(hs_Verify c s' data sig = ok) \<longleftrightarrow>
      (\<exists>k \<in> set (active' # retired'). sig = headerV formatV1 (kyID k) @ hs_mac c (kyMaterial k) (headerV formatV1 (kyID k)) data)"
  proof
    assume v: "hs_Verify c s' data sig = ok"
    let ?n = "2 + of_char (sig ! 1) :: nat"
    have l: "?n \<le> length sig" "of_char (sig ! 0) = formatV1" using v by (auto simp: hs_Verify_def Let_def split: if_splits)
    let ?i = "drop 2 (take ?n sig)"
    have h: "take ?n sig = headerV formatV1 ?i" by (rule headerV_exact [OF l])
    obtain m where m: "map_of ring' ?i = Some m" "drop ?n sig = hs_mac c m (take ?n sig) data"
      using v l ring'(2) by (auto simp: hs_Verify_def Let_def split: if_splits option.splits)
    obtain k where k: "k \<in> set (active' # retired')" "?i = kyID k" "m = kyMaterial k" using add_keys_known [OF ring'(1) m(1)] by blast
    have h2: "take ?n sig = headerV formatV1 (kyID k)" using h unfolding k(2) .
    have "drop ?n sig = hs_mac c (kyMaterial k) (headerV formatV1 (kyID k)) data" using m(2) k(3) h2 by (simp only:)
    then have "sig = headerV formatV1 (kyID k) @ hs_mac c (kyMaterial k) (headerV formatV1 (kyID k)) data"
      using append_take_drop_id [of ?n sig, symmetric] h2 by (simp only:)
    then show "\<exists>k \<in> set (active' # retired'). sig = headerV formatV1 (kyID k) @ hs_mac c (kyMaterial k) (headerV formatV1 (kyID k)) data"
      using k(1) by blast
  qed (use made in auto)
qed

theorem signatures_verify_exactly_witness:
  "hs_Verify ex_crypto \<lparr>hsActive = ''b'', hsKeys = [(''b'', replicate 32 (CHR ''k'')), (''a'', replicate 32 (CHR ''k''))]\<rparr> ''data''
     (hs_Sign ex_crypto \<lparr>hsActive = ''a'', hsKeys = [(''a'', replicate 32 (CHR ''k''))]\<rparr> ''data'') = ok"
proof -
  note new = NewHMAC_def key_validate_def MinHMACKeySize_def maxKeyID_def ex_key_def
  let ?s = "\<lparr>hsActive = ''a'', hsKeys = [(''a'', replicate 32 (CHR ''k''))]\<rparr>"
  let ?t = "\<lparr>hsActive = ''b'', hsKeys = [(''b'', replicate 32 (CHR ''k'')), (''a'', replicate 32 (CHR ''k''))]\<rparr>"
  have "NewHMAC (ex_key ''a'') [] = Inr ?s" "NewHMAC (ex_key ''b'') [ex_key ''a''] = Inr ?t" by (simp_all add: new)
  from signatures_verify_exactly [OF ex_crypto_ok this, of "''data''"] show ?thesis by simp
qed

end
