(* ===== verification/GG_Secure.thy ===== *)
theory GG_Secure
  imports GG_Crypt GG_Consumer_Exec
begin

text \<open>
  The sealing store (\<open>dlq/secure.go\<close>): payload fields are encrypted before they reach the inner store and decrypted when they
  leave it, bound to record and field; error texts are redacted; order keys are replaced by keyed hashes under peppers that can be
  rotated.  Each operation takes the operations of the inner store that it calls; \<open>svCall n\<close> is the environment of the \<open>n\<close>-th
  inner call, \<open>svRnd f\<close> the random bytes drawn to seal field \<open>f\<close>.  The redactor is a function on texts.
\<close>

section \<open>Configuration\<close>

record Encryptor =
  enSeal :: "rnd \<Rightarrow> string \<Rightarrow> string \<Rightarrow> gerror + string"
  enOpen :: "string \<Rightarrow> string \<Rightarrow> gerror + string"

definition aesgcm :: "crypto \<Rightarrow> AESGCM \<Rightarrow> Encryptor" where
  "aesgcm c e = \<lparr>enSeal = aes_Seal c e, enOpen = aes_Open c e\<rparr>"

record SecureOptions =
  soEncryptor :: "Encryptor option"
  soRedactor :: "(string \<Rightarrow> string) option"
  soOrderKeyPepper :: string
  soOrderKeyPeppers :: "string list"

record secureStore =
  ssEnc :: Encryptor
  ssRedact :: "string \<Rightarrow> string"
  ssPeppers :: "string list"

definition Secure :: "(string \<Rightarrow> string) \<Rightarrow> SecureOptions \<Rightarrow> gerror + secureStore" where
  "Secure defaultRedactor so =
     (case soEncryptor so of
        None \<Rightarrow> Inl (EText ''dlq: SecureOptions.Encryptor is required'')
      | Some enc \<Rightarrow>
         if list_ex (\<lambda>p. p = '''') (soOrderKeyPeppers so)
         then Inl (EText ''dlq: an empty entry in SecureOptions.OrderKeyPeppers'')
         else Inr \<lparr>ssEnc = enc, ssRedact = (case soRedactor so of Some f \<Rightarrow> f | None \<Rightarrow> defaultRedactor),
                ssPeppers = (if soOrderKeyPeppers so = [] \<and> soOrderKeyPepper so \<noteq> '''' then [soOrderKeyPepper so]
                             else soOrderKeyPeppers so)\<rparr>)"

record 'e sec_env =
  svCall :: "nat \<Rightarrow> 'e"
  svRnd :: "string \<Rightarrow> rnd"

section \<open>Fields\<close>

definition aad :: "string \<Rightarrow> string \<Rightarrow> string" where
  "aad i field = ''goguard/dlq/v1'' @ [char_of (0 :: nat)] @ i @ [char_of (0 :: nat)] @ field"

definition sec_seal :: "secureStore \<Rightarrow> (string \<Rightarrow> rnd) \<Rightarrow> string \<Rightarrow> string \<Rightarrow> bytes \<Rightarrow> gerror + bytes" where
  "sec_seal ss rn i field plain =
     (case plain of None \<Rightarrow> Inr None
      | Some p \<Rightarrow> (case enSeal (ssEnc ss) (rn field) p (aad i field) of Inl err \<Rightarrow> Inl err | Inr x \<Rightarrow> Inr (Some x)))"

definition sec_open :: "secureStore \<Rightarrow> string \<Rightarrow> string \<Rightarrow> bytes \<Rightarrow> gerror + bytes" where
  "sec_open ss i field sealed =
     (case sealed of None \<Rightarrow> Inr None
      | Some x \<Rightarrow> (case enOpen (ssEnc ss) x (aad i field) of Inl err \<Rightarrow> Inl err | Inr p \<Rightarrow> Inr (Some p)))"

definition headerField :: "nat \<Rightarrow> string" where
  "headerField i = ''header:'' @ FormatInt (int i)"

fun seal_headers :: "secureStore \<Rightarrow> (string \<Rightarrow> rnd) \<Rightarrow> string \<Rightarrow> nat \<Rightarrow> Header list \<Rightarrow> gerror + Header list" where
  "seal_headers ss rn i n [] = Inr []"
| "seal_headers ss rn i n (h # hs) =
     (case sec_seal ss rn i (headerField n) (hValue h) of
        Inl err \<Rightarrow> Inl err
      | Inr v \<Rightarrow> (case seal_headers ss rn i (n + 1) hs of Inl err \<Rightarrow> Inl err | Inr hs' \<Rightarrow> Inr (h\<lparr>hValue := v\<rparr> # hs')))"

fun open_headers :: "secureStore \<Rightarrow> string \<Rightarrow> nat \<Rightarrow> Header list \<Rightarrow> gerror + Header list" where
  "open_headers ss i n [] = Inr []"
| "open_headers ss i n (h # hs) =
     (case sec_open ss i (headerField n) (hValue h) of
        Inl err \<Rightarrow> Inl err
      | Inr v \<Rightarrow> (case open_headers ss i (n + 1) hs of Inl err \<Rightarrow> Inl err | Inr hs' \<Rightarrow> Inr (h\<lparr>hValue := v\<rparr> # hs')))"

section \<open>Order keys\<close>

definition hashKey :: "crypto \<Rightarrow> string \<Rightarrow> string \<Rightarrow> string" where
  "hashKey c pepper k = hexEncode (hmac256 c pepper k)"

definition candidates :: "crypto \<Rightarrow> secureStore \<Rightarrow> string \<Rightarrow> string list" where
  "candidates c ss k = map (\<lambda>p. hashKey c p k) (ssPeppers ss)"

text \<open>The first of some keys that the inner store holds records for.\<close>

fun first_held :: "('e \<Rightarrow> string \<Rightarrow> 's \<Rightarrow> gerror + bool) \<Rightarrow> (nat \<Rightarrow> 'e) \<Rightarrow> nat \<Rightarrow> string list \<Rightarrow> 's \<Rightarrow> gerror + string option" where
  "first_held has_op ev n [] s = Inr None"
| "first_held has_op ev n (h # hs) s =
     (case has_op (ev n) h s of
        Inl err \<Rightarrow> Inl err
      | Inr b \<Rightarrow> if b then Inr (Some h) else first_held has_op ev (n + 1) hs s)"

definition orderKey :: "crypto \<Rightarrow> secureStore \<Rightarrow> ('e \<Rightarrow> string \<Rightarrow> 's \<Rightarrow> gerror + bool) \<Rightarrow> (nat \<Rightarrow> 'e) \<Rightarrow> string \<Rightarrow> 's \<Rightarrow> gerror + string" where
  "orderKey c ss has_op ev k s =
     (case ssPeppers ss of
        [] \<Rightarrow> Inr k
      | p # ps \<Rightarrow>
         if k = '''' then Inr k
         else if ps = [] then Inr (hashKey c p k)
         else case first_held has_op ev 0 (candidates c ss k) s of
                Inl err \<Rightarrow> Inl err
              | Inr (Some h) \<Rightarrow> Inr h
              | Inr None \<Rightarrow> Inr (hashKey c p k))"

section \<open>Records\<close>

definition sealRecord :: "crypto \<Rightarrow> secureStore \<Rightarrow> ('e \<Rightarrow> string \<Rightarrow> 's \<Rightarrow> gerror + bool) \<Rightarrow> 'e sec_env \<Rightarrow> Record \<Rightarrow> 's \<Rightarrow> gerror + Record" where
  "sealRecord c ss has_op e r0 s =
     (let r = Clone r0 in
      case sec_seal ss (svRnd e) (rID r) ''key'' (rKey r) of Inl err \<Rightarrow> Inl err | Inr k \<Rightarrow>
     (case sec_seal ss (svRnd e) (rID r) ''value'' (rValue r) of Inl err \<Rightarrow> Inl err | Inr v \<Rightarrow>
     (case sec_seal ss (svRnd e) (rID r) ''checkpoint'' (rCheckpoint r) of Inl err \<Rightarrow> Inl err | Inr cp \<Rightarrow>
     (case seal_headers ss (svRnd e) (rID r) 0 (rHeaders r) of Inl err \<Rightarrow> Inl err | Inr hs \<Rightarrow>
     (case orderKey c ss has_op (svCall e) (rOrderKey r) s of Inl err \<Rightarrow> Inl err | Inr ok' \<Rightarrow>
        Inr (r\<lparr>rKey := k, rValue := v, rCheckpoint := cp, rHeaders := hs, rLastError := ssRedact ss (rLastError r), rOrderKey := ok'\<rparr>))))))"

definition openRecord :: "secureStore \<Rightarrow> Record \<Rightarrow> gerror + Record" where
  "openRecord ss r =
     (case sec_open ss (rID r) ''key'' (rKey r) of Inl err \<Rightarrow> Inl err | Inr k \<Rightarrow>
     (case sec_open ss (rID r) ''value'' (rValue r) of Inl err \<Rightarrow> Inl err | Inr v \<Rightarrow>
     (case sec_open ss (rID r) ''checkpoint'' (rCheckpoint r) of Inl err \<Rightarrow> Inl err | Inr cp \<Rightarrow>
     (case open_headers ss (rID r) 0 (rHeaders r) of Inl err \<Rightarrow> Inl err | Inr hs \<Rightarrow>
        Inr (r\<lparr>rKey := k, rValue := v, rCheckpoint := cp, rHeaders := hs\<rparr>)))))"

section \<open>Operations\<close>

text \<open>
  \<open>Append\<close>.  The order key is chosen with calls of its own, so other work may come between the choice and the write:
  \<open>mid\<close> is what that work does to the inner store.
\<close>

definition sec_Append :: "crypto \<Rightarrow> secureStore \<Rightarrow> ('e \<Rightarrow> Record \<Rightarrow> 's \<Rightarrow> goerr \<times> 's) \<Rightarrow> ('e \<Rightarrow> string \<Rightarrow> 's \<Rightarrow> gerror + bool) \<Rightarrow>
    ('s \<Rightarrow> 's) \<Rightarrow> 'e sec_env \<Rightarrow> 'e \<Rightarrow> Record \<Rightarrow> 's \<Rightarrow> goerr \<times> 's" where
  "sec_Append c ss append_op has_op mid e ae r s =
     (case Validate r of
        Some err \<Rightarrow> (Some err, s)
      | None \<Rightarrow>
         (case sealRecord c ss has_op e r s of
            Inl err \<Rightarrow> (Some (EWrap ''dlq: sealing record'' [err]), mid s)
          | Inr sealed \<Rightarrow> append_op ae sealed (mid s)))"

definition decryptKind :: "gerror \<Rightarrow> string" where
  "decryptKind err = (if errors_Is err ErrUnknownKey then ''unknown key'' else if errors_Is err ErrMalformed then ''malformed''
     else ''authentication failed'')"

text \<open>\<open>Lease\<close>: what is handed out, what \<open>OnUndecryptable\<close> is told, and the inner store.\<close>

fun open_leases :: "secureStore \<Rightarrow> ('e \<Rightarrow> string \<Rightarrow> string \<Rightarrow> string \<Rightarrow> 's \<Rightarrow> goerr \<times> 's) \<Rightarrow> (nat \<Rightarrow> 'e) \<Rightarrow> nat \<Rightarrow> Lease list \<Rightarrow> 's \<Rightarrow>
    Lease list \<times> (string \<times> gerror) list \<times> 's" where
  "open_leases ss park_op ev n [] s = ([], [], s)"
| "open_leases ss park_op ev n (l # ls) s =
     (case openRecord ss (lRecord l) of
        Inl err \<Rightarrow>
          (let s1 = snd (park_op (ev n) (rID (lRecord l)) (lToken l) (''payload could not be decrypted: '' @ decryptKind err) s)
           in case open_leases ss park_op ev (n + 1) ls s1 of (out, reps, s2) \<Rightarrow> (out, (rID (lRecord l), err) # reps, s2))
      | Inr plain \<Rightarrow>
          (case open_leases ss park_op ev (n + 1) ls s of (out, reps, s2) \<Rightarrow> (l\<lparr>lRecord := plain\<rparr> # out, reps, s2)))"

definition sec_Lease :: "secureStore \<Rightarrow> ('e \<Rightarrow> LeaseRequest \<Rightarrow> 's \<Rightarrow> (gerror + Lease list) \<times> 's) \<Rightarrow>
    ('e \<Rightarrow> string \<Rightarrow> string \<Rightarrow> string \<Rightarrow> 's \<Rightarrow> goerr \<times> 's) \<Rightarrow> 'e \<Rightarrow> (nat \<Rightarrow> 'e) \<Rightarrow> LeaseRequest \<Rightarrow> 's \<Rightarrow>
    (gerror + Lease list) \<times> (string \<times> gerror) list \<times> 's" where
  "sec_Lease ss lease_op park_op le ev req s =
     (case lease_op le req s of
        (Inl err, s1) \<Rightarrow> (Inl err, [], s1)
      | (Inr ls, s1) \<Rightarrow> (case open_leases ss park_op ev 0 ls s1 of (out, reps, s2) \<Rightarrow> (Inr out, reps, s2)))"

definition sec_Checkpoint :: "secureStore \<Rightarrow> ('e \<Rightarrow> string \<Rightarrow> string \<Rightarrow> bytes \<Rightarrow> 's \<Rightarrow> goerr \<times> 's) \<Rightarrow> 'e sec_env \<Rightarrow> string \<Rightarrow> string \<Rightarrow> bytes \<Rightarrow>
    's \<Rightarrow> goerr \<times> 's" where
  "sec_Checkpoint ss checkpoint_op e i tok cp s =
     (case sec_seal ss (svRnd e) i ''checkpoint'' cp of
        Inl err \<Rightarrow> (Some (EWrap ''dlq: sealing checkpoint'' [err]), s)
      | Inr x \<Rightarrow> checkpoint_op (svCall e 0) i tok x s)"

definition sec_Nack :: "secureStore \<Rightarrow> ('e \<Rightarrow> string \<Rightarrow> string \<Rightarrow> NackOptions \<Rightarrow> 's \<Rightarrow> goerr \<times> 's) \<Rightarrow> 'e \<Rightarrow> string \<Rightarrow> string \<Rightarrow> NackOptions \<Rightarrow>
    's \<Rightarrow> goerr \<times> 's" where
  "sec_Nack ss nack_op e i tok no s = nack_op e i tok (no\<lparr>nErr := ssRedact ss (nErr no)\<rparr>) s"

definition sec_Park :: "secureStore \<Rightarrow> ('e \<Rightarrow> string \<Rightarrow> string \<Rightarrow> string \<Rightarrow> 's \<Rightarrow> goerr \<times> 's) \<Rightarrow> 'e \<Rightarrow> string \<Rightarrow> string \<Rightarrow> string \<Rightarrow> 's \<Rightarrow>
    goerr \<times> 's" where
  "sec_Park ss park_op e i tok reason s = park_op e i tok (ssRedact ss reason) s"

definition sec_RequeueWith :: "secureStore \<Rightarrow> ('e \<Rightarrow> string \<Rightarrow> RequeueOptions \<Rightarrow> 's \<Rightarrow> goerr \<times> 's) \<Rightarrow> 'e sec_env \<Rightarrow> string \<Rightarrow> RequeueOptions \<Rightarrow>
    's \<Rightarrow> goerr \<times> 's" where
  "sec_RequeueWith ss requeue_op e i qo s =
     (if qReplaceCheckpoint qo
      then (case sec_seal ss (svRnd e) i ''checkpoint'' (qCheckpoint qo) of
              Inl err \<Rightarrow> (Some (EWrap ''dlq: sealing checkpoint'' [err]), s)
            | Inr x \<Rightarrow> requeue_op (svCall e 0) i (qo\<lparr>qCheckpoint := x\<rparr>) s)
      else requeue_op (svCall e 0) i qo s)"

definition sec_Get :: "secureStore \<Rightarrow> ('e \<Rightarrow> string \<Rightarrow> 's \<Rightarrow> gerror + Record) \<Rightarrow> 'e \<Rightarrow> string \<Rightarrow> 's \<Rightarrow> gerror + Record" where
  "sec_Get ss get_op e i s =
     (case get_op e i s of
        Inl err \<Rightarrow> Inl err
      | Inr rec \<Rightarrow> (case openRecord ss rec of
                      Inl err \<Rightarrow> Inl (EWrap (''dlq: record '' @ i @ '' cannot be decrypted ('' @ decryptKind err @ '')'') [err])
                    | Inr plain \<Rightarrow> Inr plain))"

definition blank :: "Record \<Rightarrow> Record" where
  "blank r = r\<lparr>rKey := None, rValue := None, rCheckpoint := None, rHeaders := map (\<lambda>h. h\<lparr>hValue := None\<rparr>) (rHeaders r)\<rparr>"

definition sec_Parked :: "secureStore \<Rightarrow> ('e \<Rightarrow> ParkedQuery \<Rightarrow> 's \<Rightarrow> gerror + Record list) \<Rightarrow> 'e \<Rightarrow> ParkedQuery \<Rightarrow> 's \<Rightarrow> gerror + Record list" where
  "sec_Parked ss parked_op e q s =
     (case parked_op e q s of
        Inl err \<Rightarrow> Inl err
      | Inr recs \<Rightarrow> Inr (map (\<lambda>r. case openRecord ss r of Inl _ \<Rightarrow> blank r | Inr plain \<Rightarrow> plain) recs))"

definition sec_HasOrderKey :: "crypto \<Rightarrow> secureStore \<Rightarrow> ('e \<Rightarrow> string \<Rightarrow> 's \<Rightarrow> gerror + bool) \<Rightarrow> (nat \<Rightarrow> 'e) \<Rightarrow> string \<Rightarrow> 's \<Rightarrow> gerror + bool" where
  "sec_HasOrderKey c ss has_op ev k s =
     (if k = '''' \<or> ssPeppers ss = [] then has_op (ev 0) k s
      else case first_held has_op ev 0 (candidates c ss k) s of
             Inl err \<Rightarrow> Inl err
           | Inr h \<Rightarrow> Inr (h \<noteq> None))"

section \<open>Changing the keys of a store\<close>

record ResealReport =
  reRecords :: nat
  reParked :: nat

definition reseal_out :: "Record \<Rightarrow> Record \<Rightarrow> Record" where
  "reseal_out r out0 =
     (let out1 = out0\<lparr>rOrderKey := rOrderKey r, rLastError := rLastError r\<rparr>
      in if rState out1 = Leased then out1\<lparr>rState := Pending\<rparr> else out1)"

text \<open>\<open>Reseal\<close>: \<open>recs\<close> is what \<open>Scan\<close> of the source goes through, with the state of the context before each.\<close>

fun reseal_loop :: "crypto \<Rightarrow> secureStore \<Rightarrow> secureStore \<Rightarrow> ('e \<Rightarrow> Record \<Rightarrow> 's \<Rightarrow> goerr \<times> 's) \<Rightarrow> ('e \<Rightarrow> string \<Rightarrow> 's \<Rightarrow> gerror + bool) \<Rightarrow>
    (goerr \<times> 'e sec_env \<times> 'e \<times> Record) list \<Rightarrow> ResealReport \<Rightarrow> 's \<Rightarrow> goerr \<times> ResealReport \<times> 's" where
  "reseal_loop c from to append_op has_op [] rep s = (ok, rep, s)"
| "reseal_loop c from to append_op has_op ((ctx, e, ae, r) # recs) rep s =
     (case ctx of Some err \<Rightarrow> (Some err, rep, s)
      | None \<Rightarrow>
     (case openRecord from r of
        Inl err \<Rightarrow> (Some (EWrap (''dlq: record '' @ rID r @ '' cannot be opened with the old keys'') [err]), rep, s)
      | Inr plain \<Rightarrow>
     (case sealRecord c to has_op e plain s of
        Inl err \<Rightarrow> (Some (EWrap (''dlq: sealing record '' @ rID r) [err]), rep, s)
      | Inr out0 \<Rightarrow>
         (let out2 = reseal_out r out0
          in case append_op ae out2 s of
               (Some err, s1) \<Rightarrow> (Some (EWrap (''dlq: writing record '' @ rID r) [err]), rep, s1)
             | (None, s1) \<Rightarrow> reseal_loop c from to append_op has_op recs
                 \<lparr>reRecords = reRecords rep + 1, reParked = reParked rep + (if rState out2 = Parked then 1 else 0)\<rparr> s1))))"

definition Reseal :: "crypto \<Rightarrow> (string \<Rightarrow> string) \<Rightarrow> Encryptor option \<Rightarrow> Encryptor option \<Rightarrow> ('e \<Rightarrow> Record \<Rightarrow> 's \<Rightarrow> goerr \<times> 's) \<Rightarrow>
    ('e \<Rightarrow> string \<Rightarrow> 's \<Rightarrow> gerror + bool) \<Rightarrow> (goerr \<times> 'e sec_env \<times> 'e \<times> Record) list \<Rightarrow> 's \<Rightarrow> goerr \<times> ResealReport \<times> 's" where
  "Reseal c redactor from to append_op has_op recs s =
     (case (from, to) of
        (Some f, Some t) \<Rightarrow> reseal_loop c \<lparr>ssEnc = f, ssRedact = redactor, ssPeppers = []\<rparr> \<lparr>ssEnc = t, ssRedact = redactor, ssPeppers = []\<rparr>
           append_op has_op recs \<lparr>reRecords = 0, reParked = 0\<rparr> s
      | _ \<Rightarrow> (Some (EText ''dlq: Reseal needs both encryptors''), \<lparr>reRecords = 0, reParked = 0\<rparr>, s))"

section \<open>Sealing and opening\<close>

text \<open>Encryptor \<open>E'\<close> opens what \<open>E\<close> seals.\<close>

definition opens_sealed :: "Encryptor \<Rightarrow> Encryptor \<Rightarrow> bool" where
  "opens_sealed E E' \<longleftrightarrow> (\<forall>r p a x. rnd_ok r \<longrightarrow> enSeal E r p a = Inr x \<longrightarrow> enOpen E' x a = Inr p)"

lemma sec_open_seal:
  assumes "opens_sealed (ssEnc ss) (ssEnc ss')" and "rnd_ok (rn field)" and "sec_seal ss rn i field plain = Inr x"
  shows "sec_open ss' i field x = Inr plain"
  using assms by (auto simp: sec_seal_def sec_open_def opens_sealed_def split: option.splits sum.splits)

lemma open_seal_headers:
  assumes "opens_sealed (ssEnc ss) (ssEnc ss')" and "\<And>f. rnd_ok (rn f)" and "seal_headers ss rn i n hs = Inr hs'"
  shows "open_headers ss' i n hs' = Inr hs"
  using assms(3)
proof (induction hs arbitrary: n hs')
  case (Cons h hs)
  then show ?case using sec_open_seal [OF assms(1,2)] by (auto split: sum.splits)
qed simp

lemma sealRecord_cases:
  assumes "sealRecord c ss has_op e r s = Inr x"
  obtains k v cp hs key where "sec_seal ss (svRnd e) (rID r) ''key'' (rKey r) = Inr k" "sec_seal ss (svRnd e) (rID r) ''value'' (rValue r) = Inr v"
    "sec_seal ss (svRnd e) (rID r) ''checkpoint'' (rCheckpoint r) = Inr cp" "seal_headers ss (svRnd e) (rID r) 0 (rHeaders r) = Inr hs"
    "orderKey c ss has_op (svCall e) (rOrderKey r) s = Inr key"
    "x = r\<lparr>rKey := k, rValue := v, rCheckpoint := cp, rHeaders := hs, rLastError := ssRedact ss (rLastError r), rOrderKey := key\<rparr>"
  using assms by (auto simp: sealRecord_def Let_def split: sum.splits)

lemma openRecord_sealed:
  assumes "opens_sealed (ssEnc ss) (ssEnc ss')" and "\<And>f. rnd_ok (svRnd e f)" and "sealRecord c ss has_op e r s = Inr x"
  shows "openRecord ss' x = Inr (r\<lparr>rLastError := rLastError x, rOrderKey := rOrderKey x\<rparr>)"
proof -
  from assms(3) obtain k v cp hs key where S: "sec_seal ss (svRnd e) (rID r) ''key'' (rKey r) = Inr k" "sec_seal ss (svRnd e) (rID r) ''value'' (rValue r) = Inr v"
    "sec_seal ss (svRnd e) (rID r) ''checkpoint'' (rCheckpoint r) = Inr cp" "seal_headers ss (svRnd e) (rID r) 0 (rHeaders r) = Inr hs"
    and x: "x = r\<lparr>rKey := k, rValue := v, rCheckpoint := cp, rHeaders := hs, rLastError := ssRedact ss (rLastError r), rOrderKey := key\<rparr>"
    by (rule sealRecord_cases)
  note U = sec_open_seal [OF assms(1,2)]
  show ?thesis using U [OF S(1)] U [OF S(2)] U [OF S(3)] open_seal_headers [OF assms(1,2) S(4)] by (simp add: openRecord_def x)
qed

text \<open>Opening looks at the payload fields and the identifier only.\<close>

lemma openRecord_cong:
  assumes "rID y = rID x" "rKey y = rKey x" "rValue y = rValue x" "rCheckpoint y = rCheckpoint x" "rHeaders y = rHeaders x" and "openRecord ss x = Inr p"
  shows "openRecord ss y = Inr (y\<lparr>rKey := rKey p, rValue := rValue p, rCheckpoint := rCheckpoint p, rHeaders := rHeaders p\<rparr>)"
  using assms by (auto simp: openRecord_def split: sum.splits)

text \<open>What a caller finds of a record behind the sealing store.\<close>

definition same_clear :: "Record \<Rightarrow> Record \<Rightarrow> bool" where
  "same_clear r p \<longleftrightarrow> rID p = rID r \<and> rSource p = rSource r \<and> rKey p = rKey r \<and> rValue p = rValue r \<and> rHeaders p = rHeaders r
     \<and> rCheckpoint p = rCheckpoint r \<and> rState p = rState r \<and> rBlockedOn p = rBlockedOn r \<and> rAttempts p = rAttempts r"

lemma stored_sealed_opens:
  assumes "opens_sealed (ssEnc ss) (ssEnc ss')" and "\<And>f. rnd_ok (svRnd e f)" and "sealRecord c ss has_op e r s = Inr x" and "stored_as x y"
  shows "\<exists>p. openRecord ss' y = Inr p \<and> same_clear r p"
proof -
  from assms(3) have x: "rID x = rID r" "rSource x = rSource r" "rState x = rState r" "rBlockedOn x = rBlockedOn r" "rAttempts x = rAttempts r"
    by (auto elim!: sealRecord_cases)
  have "openRecord ss' y = Inr (y\<lparr>rKey := rKey r, rValue := rValue r, rCheckpoint := rCheckpoint r, rHeaders := rHeaders r\<rparr>)"
    using openRecord_cong [OF _ _ _ _ _ openRecord_sealed [OF assms(1-3)], of y] assms(4) by (simp add: stored_as_def same_payload_def)
  then show ?thesis using x assms(4) by (simp add: same_clear_def stored_as_def same_payload_def)
qed

lemma resealed_opens:
  assumes "opens_sealed (ssEnc to) (ssEnc to')" and "\<And>f. rnd_ok (svRnd e f)" and "sealRecord c to has_op e plain s = Inr out"
    and "st = (if rState plain = Leased then Pending else rState plain)" and "stored_as (reseal_out r out) y"
  shows "\<exists>p. openRecord to' y = Inr p \<and> same_clear (plain\<lparr>rState := st\<rparr>) p"
proof -
  have x: "rID out = rID plain" "rSource out = rSource plain" "rState out = rState plain" "rBlockedOn out = rBlockedOn plain" "rAttempts out = rAttempts plain"
    using assms(3) by (auto elim!: sealRecord_cases)
  have y: "same_payload (reseal_out r out) y" "rState y = st" "rBlockedOn y = rBlockedOn plain" "rAttempts y = rAttempts plain" "rCheckpoint y = rCheckpoint out"
    using assms(4,5) x by (simp_all add: stored_as_def reseal_out_def Let_def)
  then have "openRecord to' y = Inr (y\<lparr>rKey := rKey plain, rValue := rValue plain, rCheckpoint := rCheckpoint plain, rHeaders := rHeaders plain\<rparr>)"
    using openRecord_cong [OF _ _ _ _ _ openRecord_sealed [OF assms(1-3)], of y] by (auto simp: same_payload_def reseal_out_def Let_def split: if_splits)
  then show ?thesis using x y by (auto simp: same_clear_def same_payload_def reseal_out_def Let_def split: if_splits)
qed

lemma aesgcm_opens:
  assumes "crypto_ok c" and "NewAESGCM active retired = Inr e0" and "NewAESGCM active' retired' = Inr e1" and "active \<in> set (active' # retired')"
  shows "opens_sealed (aesgcm c (e0\<lparr>acDerive := d\<rparr>)) (aesgcm c (e1\<lparr>acDerive := d'\<rparr>))"
  unfolding opens_sealed_def aesgcm_def using NewAESGCM_opens [OF assms] by simp

section \<open>The contract of the inner store, carried over\<close>

context append_store
begin

lemma secure_append_new:
  assumes "inv s" and "opens_sealed (ssEnc ss) (ssEnc ss')" and "\<And>f. rnd_ok (svRnd e f)"
    and "sec_Append c ss append_op has_op mid e ae r s = (ok, s')" and "inv (mid s)" and "content (mid s) (rID r) = None"
  shows "\<exists>x y p. sealRecord c ss has_op e r s = Inr x \<and> stored_as x y \<and> content s' = (content (mid s))(rID r \<mapsto> y)
    \<and> openRecord ss' y = Inr p \<and> same_clear r p"
proof -
  obtain x where x: "sealRecord c ss has_op e r s = Inr x" "append_op ae x (mid s) = (ok, s')"
    using assms(4) by (auto simp: sec_Append_def split: option.splits sum.splits)
  have i: "rID x = rID r" using x(1) by (auto elim!: sealRecord_cases)
  obtain y where y: "stored_as x y" "content s' = (content (mid s))(rID x \<mapsto> y)" using append_new [OF assms(5) x(2)] assms(6) i by auto
  from stored_sealed_opens [OF assms(2,3) x(1) y(1)] show ?thesis using x y i by auto
qed

end

text \<open>
  The messages of a key may be stored under the hash of any pepper in use.  They form one queue when at most one of these hashes is
  in the store; the hashes of different keys of a set \<open>K\<close> are taken to differ (no collision of HMAC-SHA256).
\<close>

definition holds_key :: "content \<Rightarrow> string \<Rightarrow> bool" where
  "holds_key ct h \<longleftrightarrow> (\<exists>i r. ct i = Some r \<and> rOrderKey r = h)"

definition one_queue :: "crypto \<Rightarrow> secureStore \<Rightarrow> string set \<Rightarrow> content \<Rightarrow> bool" where
  "one_queue c ss K ct \<longleftrightarrow> (\<forall>k \<in> K. \<forall>h \<in> set (candidates c ss k). \<forall>h' \<in> set (candidates c ss k). holds_key ct h \<and> holds_key ct h' \<longrightarrow> h = h')"

definition hash_apart :: "crypto \<Rightarrow> secureStore \<Rightarrow> string set \<Rightarrow> bool" where
  "hash_apart c ss K \<longleftrightarrow> (\<forall>k \<in> K. \<forall>k' \<in> K. set (candidates c ss k) \<inter> set (candidates c ss k') \<noteq> {} \<longrightarrow> k = k')"

lemma candidate_nonempty:
  assumes "crypto_ok c" and "h \<in> set (candidates c ss k)"
  shows "h \<noteq> ''''"
proof -
  obtain p where h: "h = hexEncode (hmac256 c p k)" using assms(2) by (auto simp: candidates_def hashKey_def)
  have "hmac256 c p k \<noteq> []" using assms(1) unfolding crypto_ok_def sha256Size_def by (metis list.size(3) zero_neq_numeral)
  then show ?thesis by (cases "hmac256 c p k") (simp_all add: h hexEncode_def)
qed

context keyed_store
begin

lemma first_held_exact:
  assumes "inv s" and "first_held has_key_op ev n hs s = Inr res" and "\<And>h. h \<in> set hs \<Longrightarrow> h \<noteq> ''''"
  shows "case res of None \<Rightarrow> \<forall>h \<in> set hs. \<not> holds_key (content s) h | Some h \<Rightarrow> h \<in> set hs \<and> holds_key (content s) h"
  using assms(2,3)
proof (induction hs arbitrary: n)
  case (Cons h hs)
  obtain b where b: "has_key_op (ev n) h s = Inr b" using Cons.prems(1) by (auto split: sum.splits)
  have "b \<longleftrightarrow> holds_key (content s) h" using has_key_exact [OF assms(1) b] Cons.prems(2) by (simp add: holds_key_def)
  with b Cons show ?case by (cases b; cases res) auto
qed auto

lemma orderKey_queue:
  assumes "inv s" and "crypto_ok c" and "ssPeppers ss \<noteq> []" and "k \<noteq> ''''" and "orderKey c ss has_key_op ev k s = Inr h"
    and "k \<in> K" and "one_queue c ss K (content s)"
  shows "h \<in> set (candidates c ss k)" "\<And>h'. h' \<in> set (candidates c ss k) \<Longrightarrow> holds_key (content s) h' \<Longrightarrow> h = h'"
proof -
  obtain p ps where p: "ssPeppers ss = p # ps" using assms(3) by (cases "ssPeppers ss") auto
  have "h \<in> set (candidates c ss k) \<and> (\<forall>h' \<in> set (candidates c ss k). holds_key (content s) h' \<longrightarrow> h = h')"
  proof (cases "ps = []")
    case True
    then show ?thesis using assms(4,5) p by (auto simp: orderKey_def candidates_def)
  next
    case False
    then obtain res where r: "first_held has_key_op ev 0 (candidates c ss k) s = Inr res" "h = (case res of Some h \<Rightarrow> h | None \<Rightarrow> hashKey c p k)"
      using assms(4,5) p by (auto simp: orderKey_def split: sum.splits option.splits)
    have "hashKey c p k \<in> set (candidates c ss k)" using p by (simp add: candidates_def)
    then show ?thesis
      using first_held_exact [OF assms(1) r(1) candidate_nonempty [OF assms(2)]] r(2) assms(6,7)
      by (cases res) (auto simp: one_queue_def)
  qed
  then show "h \<in> set (candidates c ss k)" "\<And>h'. h' \<in> set (candidates c ss k) \<Longrightarrow> holds_key (content s) h' \<Longrightarrow> h = h'" by blast+
qed

lemma secure_append_queue:
  assumes "inv s" and "crypto_ok c" and "ssPeppers ss \<noteq> []" and "rOrderKey r \<noteq> ''''" and "rOrderKey r \<in> K"
    and "one_queue c ss K (content s)" and "hash_apart c ss K" and "sec_Append c ss append_op has_key_op id e ae r s = (ok, s')"
  shows "one_queue c ss K (content s') \<and> (content s (rID r) = None \<longrightarrow>
    (\<exists>y. content s' (rID r) = Some y \<and> rOrderKey y \<in> set (candidates c ss (rOrderKey r))
      \<and> (\<forall>h \<in> set (candidates c ss (rOrderKey r)). holds_key (content s) h \<longrightarrow> rOrderKey y = h)))"
proof -
  obtain x where x: "sealRecord c ss has_key_op e r s = Inr x" "append_op ae x s = (ok, s')"
    using assms(8) by (auto simp: sec_Append_def split: option.splits sum.splits)
  have i: "rID x = rID r" and key: "orderKey c ss has_key_op (svCall e) (rOrderKey r) s = Inr (rOrderKey x)"
    using x(1) by (auto elim!: sealRecord_cases)
  note Q = orderKey_queue [OF assms(1-4) key assms(5,6)]
  show ?thesis
  proof (cases "content s (rID r)")
    case None
    then obtain y where y: "stored_as x y" "content s' = (content s)(rID r \<mapsto> y)" using append_new [OF assms(1) x(2)] i by auto
    then have k: "rOrderKey y = rOrderKey x" by (simp add: stored_as_def same_payload_def)
    have hk: "holds_key (content s') h \<longleftrightarrow> holds_key (content s) h \<or> h = rOrderKey x" for h
      unfolding holds_key_def y(2) using None k by (metis fun_upd_apply option.distinct(1) option.inject)
    have "one_queue c ss K (content s')"
      unfolding one_queue_def
    proof (intro ballI impI)
      fix k' h h' assume a: "k' \<in> K" "h \<in> set (candidates c ss k')" "h' \<in> set (candidates c ss k')" "holds_key (content s') h \<and> holds_key (content s') h'"
      show "h = h'"
      proof (cases "rOrderKey x \<in> set (candidates c ss k')")
        case True
        then have "k' = rOrderKey r" using assms(5,7) a(1) Q(1) unfolding hash_apart_def by blast
        then show ?thesis using a hk Q(2) by metis
      next
        case False
        then show ?thesis using a hk assms(6) unfolding one_queue_def by metis
      qed
    qed
    then show ?thesis using y(2) k Q by auto
  next
    case (Some r0)
    then have "content s' = content s" using append_known [OF assms(1) x(2)] i by simp
    then show ?thesis using assms(6) Some by simp
  qed
qed

end

section \<open>Handing out leases\<close>

context dlq_store
begin

lemma open_leases_safe:
  assumes "open_leases ss park_op ev n ls s = (out, reps, s')" and "inv s"
  shows "inv s' \<and> keeps (content s) (content s') \<and> keeps (content s') (content s)
    \<and> (\<forall>l' \<in> set out. \<exists>l \<in> set ls. openRecord ss (lRecord l) = Inr (lRecord l') \<and> lToken l' = lToken l)
    \<and> (\<forall>l \<in> set ls. (\<exists>p. openRecord ss (lRecord l) = Inr p \<and> l\<lparr>lRecord := p\<rparr> \<in> set out) \<or> (\<exists>err. openRecord ss (lRecord l) = Inl err \<and> (rID (lRecord l), err) \<in> set reps))"
  using assms
proof (induction ls arbitrary: n s out reps s')
  case (Cons l ls)
  show ?case
  proof (cases "openRecord ss (lRecord l)")
    case (Inl err)
    let ?why = "''payload could not be decrypted: '' @ decryptKind err"
    obtain res s1 where pk: "park_op (ev n) (rID (lRecord l)) (lToken l) ?why s = (res, s1)" by (cases "park_op (ev n) (rID (lRecord l)) (lToken l) ?why s")
    note P = park_law [OF Cons.prems(2) pk]
    obtain reps' where o: "open_leases ss park_op ev (n + 1) ls s1 = (out, reps', s')" "reps = (rID (lRecord l), err) # reps'"
      using Cons.prems(1) Inl pk by (auto simp: Let_def split: prod.splits)
    from Cons.IH [OF o(1)] P have "inv s' \<and> keeps (content s) (content s') \<and> keeps (content s') (content s)" using keeps_trans by blast
    then show ?thesis using Cons.IH [OF o(1)] P o(2) Inl by auto
  next
    case (Inr p)
    then obtain out' where o: "open_leases ss park_op ev (n + 1) ls s = (out', reps, s')" "out = l\<lparr>lRecord := p\<rparr> # out'"
      using Cons.prems(1) by (auto split: prod.splits)
    from Cons.IH [OF o(1) Cons.prems(2)] o(2) Inr show ?thesis by auto
  qed
qed simp

lemma secure_lease_safe:
  assumes "inv s" and "env_ok le s" and "sec_Lease ss lease_op park_op le ev req s = (Inr out, reps, s')"
  shows "inv s' \<and> keeps (content s) (content s') \<and> (\<exists>s1 ls. lease_op le req s = (Inr ls, s1)
    \<and> (\<forall>l' \<in> set out. \<exists>r. content s1 (rID r) = Some r \<and> rState r = Leased \<and> openRecord ss r = Inr (lRecord l'))
    \<and> (\<forall>l \<in> set ls. (\<exists>p. openRecord ss (lRecord l) = Inr p \<and> l\<lparr>lRecord := p\<rparr> \<in> set out)
         \<or> (\<exists>err r'. openRecord ss (lRecord l) = Inl err \<and> (rID (lRecord l), err) \<in> set reps \<and> content s' (rID (lRecord l)) = Some r')))"
proof -
  obtain ls s1 where l: "lease_op le req s = (Inr ls, s1)" "open_leases ss park_op ev 0 ls s1 = (out, reps, s')"
    using assms(3) by (auto simp: sec_Lease_def split: sum.splits prod.splits)
  note G = lease_granted [OF assms(1,2) l(1)] and L = lease_law [OF assms(1,2) l(1)]
  note O = open_leases_safe [OF l(2)]
  have "keeps (content s) (content s')" using O L keeps_trans by blast
  moreover have "\<exists>r'. content s' (rID (lRecord l)) = Some r'" if "l \<in> set ls" for l
    using G [OF that] O L unfolding keeps_def by blast
  ultimately show ?thesis using O L G l(1) by blast
qed

end

section \<open>Moving to new keys\<close>

context append_store
begin

lemma reseal_exact:
  assumes "reseal_loop c from to append_op has_op recs rep s = (ok, rep', s')" and "inv s" and "opens_sealed (ssEnc to) (ssEnc to')"
    and "distinct (map (\<lambda>(_, _, _, r). rID r) recs)" and "\<forall>(ctx, e, ae, r) \<in> set recs. (\<forall>f. rnd_ok (svRnd e f)) \<and> content s (rID r) = None"
  shows "inv s' \<and> (\<forall>i r0. content s i = Some r0 \<longrightarrow> content s' i = Some r0) \<and> reRecords rep' = reRecords rep + length recs
    \<and> (\<forall>(ctx, e, ae, r) \<in> set recs. \<exists>plain y p. openRecord from r = Inr plain \<and> content s' (rID r) = Some y \<and> openRecord to' y = Inr p
         \<and> same_clear (plain\<lparr>rState := if rState r = Leased then Pending else rState r\<rparr>) p \<and> rOrderKey y = rOrderKey r \<and> rLastError y = rLastError r)"
  using assms(1,2,4-)
proof (induction recs arbitrary: rep s)
  case (Cons rc recs)
  obtain ctx e ae r where rc: "rc = (ctx, e, ae, r)" by (cases rc) auto
  obtain plain out s1 where st: "openRecord from r = Inr plain" "sealRecord c to has_op e plain s = Inr out" "append_op ae (reseal_out r out) s = (ok, s1)"
    and lp: "reseal_loop c from to append_op has_op recs \<lparr>reRecords = reRecords rep + 1,
      reParked = reParked rep + (if rState (reseal_out r out) = Parked then 1 else 0)\<rparr> s1 = (ok, rep', s')"
    using Cons.prems(1) rc by (auto simp: Let_def split: option.splits sum.splits prod.splits)
  obtain rep1 where rest: "reRecords rep1 = reRecords rep + 1" "reseal_loop c from to append_op has_op recs rep1 s1 = (ok, rep', s')"
    using lp by (metis ResealReport.select_convs(1))
  have pl: "rID plain = rID r" "rState plain = rState r" using st(1) by (auto simp: openRecord_def split: sum.splits)
  have rn: "\<And>f. rnd_ok (svRnd e f)" and new: "content s (rID r) = None" using Cons.prems(4) rc by auto
  have i: "rID (reseal_out r out) = rID r" using st(2) pl by (auto simp: reseal_out_def Let_def elim!: sealRecord_cases)
  obtain y where y: "stored_as (reseal_out r out) y" "content s1 = (content s)(rID r \<mapsto> y)" using append_new [OF Cons.prems(2) st(3)] i new by auto
  obtain p where p: "openRecord to' y = Inr p" "same_clear (plain\<lparr>rState := if rState r = Leased then Pending else rState r\<rparr>) p"
    using resealed_opens [OF assms(3) rn st(2) _ y(1), unfolded pl(2), OF refl] by blast
  have inv1: "inv s1" using append_inv [OF Cons.prems(2) st(3)] .
  have dist: "distinct (map (\<lambda>(_, _, _, r). rID r) recs)" using Cons.prems(3) by simp
  have "\<forall>(ctx', e', ae', r') \<in> set recs. (\<forall>f. rnd_ok (svRnd e' f)) \<and> content s1 (rID r') = None"
  proof (intro ballI, clarify)
    fix ctx' e' ae' r' assume m: "(ctx', e', ae', r') \<in> set recs"
    then have "rID r' \<in> (\<lambda>(_, _, _, r). rID r) ` set recs" by force
    moreover have "rID r \<notin> (\<lambda>(_, _, _, r). rID r) ` set recs" using Cons.prems(3) rc by simp
    ultimately have "rID r' \<noteq> rID r" by metis
    then show "(\<forall>f. rnd_ok (svRnd e' f)) \<and> content s1 (rID r') = None" using Cons.prems(4) m y(2) by auto
  qed
  note IH = Cons.IH [OF rest(2) inv1 dist this]
  have "rOrderKey y = rOrderKey r" "rLastError y = rLastError r"
    using y(1) by (auto simp: stored_as_def same_payload_def reseal_out_def Let_def)
  moreover have old: "content s' i = Some r0" if "content s i = Some r0" for i r0
  proof -
    have "content s1 i = Some r0" using that new y(2) by (cases "i = rID r") simp_all
    then show ?thesis using IH by blast
  qed
  moreover have "content s' (rID r) = Some y" using IH y(2) by auto
  ultimately show ?case using IH st(1) p rc rest(1) by auto
qed simp

end

section \<open>Properties\<close>

lemma ms_Get_content:
  assumes "ms_ok s" and "ms_begin e s = ok"
  shows "ms_Get e i s = (case ms_content s i of None \<Rightarrow> Inl (EVar ErrNotFound) | Some r \<Rightarrow> Inr r)"
  using assms by (auto simp: ms_Get_def ms_content_lookup split: option.splits)


definition ex_aes :: "string \<Rightarrow> string list \<Rightarrow> AESGCM" where
  "ex_aes a is = \<lparr>acActive = a, acKeys = map (\<lambda>i. (i, replicate 32 (CHR ''k''))) (a # is), acDerive = False\<rparr>"

definition ex_ss :: "AESGCM \<Rightarrow> secureStore" where
  "ex_ss e = \<lparr>ssEnc = aesgcm ex_crypto e, ssRedact = id, ssPeppers = [''new'', ''old'']\<rparr>"

definition ex_se :: "call_env sec_env" where
  "ex_se = \<lparr>svCall = (\<lambda>n. ex_env 1 []), svRnd = (\<lambda>f. ex_rnd)\<rparr>"

definition ex_clear :: "string \<Rightarrow> Record" where
  "ex_clear i = (ex_rec i ''k'' ''db'')\<lparr>rValue := Some ''body'', rCheckpoint := Some ''cp''\<rparr>"

definition ex_sealing :: "string \<Rightarrow> MemoryStore \<Rightarrow> goerr \<times> MemoryStore" where
  "ex_sealing i s = sec_Append ex_crypto (ex_ss (ex_aes ''a'' [])) ms_Append ms_HasOrderKey id ex_se (ex_env 1 []) (ex_clear i) s"

lemma ex_se_ok: "rnd_ok (svRnd ex_se f)"
  using ex_rnd_ok by (simp add: ex_se_def)



definition ex_old_waiting :: MemoryStore where
  "ex_old_waiting = snd (ms_Append (ex_env 1 []) ((ex_rec ''m0'' ''k'' ''db'')\<lparr>rOrderKey := hashKey ex_crypto ''old'' ''k''\<rparr>) (NewMemoryStore ex_opts))"




text \<open>
  C17: moving a store to new keys is complete when it reports success: every record of the source is in the destination, opens with the new keys to
  what the old keys open it to, keeps its stored order key and error text, and a leased one arrives pending.
\<close>

theorem reseal_complete:
  assumes "crypto_ok c" and "NewAESGCM active retired = Inr e0" and "ms_ok s"
    and "Reseal c redactor (Some f) (Some (aesgcm c (e0\<lparr>acDerive := d\<rparr>))) ms_Append ms_HasOrderKey recs s = (ok, rep, s')"
    and "distinct (map (\<lambda>(_, _, _, r). rID r) recs)" and "\<forall>(ctx, e, ae, r) \<in> set recs. (\<forall>f. rnd_ok (svRnd e f)) \<and> ms_content s (rID r) = None"
  shows "reRecords rep = length recs \<and> (\<forall>(ctx, e, ae, r) \<in> set recs. \<exists>plain y p.
       openRecord \<lparr>ssEnc = f, ssRedact = redactor, ssPeppers = []\<rparr> r = Inr plain \<and> ms_content s' (rID r) = Some y
     \<and> openRecord \<lparr>ssEnc = aesgcm c (e0\<lparr>acDerive := d\<rparr>), ssRedact = redactor, ssPeppers = []\<rparr> y = Inr p
     \<and> same_clear (plain\<lparr>rState := if rState r = Leased then Pending else rState r\<rparr>) p \<and> rOrderKey y = rOrderKey r \<and> rLastError y = rLastError r)"
proof -
  have "opens_sealed (aesgcm c (e0\<lparr>acDerive := d\<rparr>)) (aesgcm c (e0\<lparr>acDerive := d\<rparr>))" using aesgcm_opens [OF assms(1,2,2)] by simp
  with mem.reseal_exact [OF assms(4) [unfolded Reseal_def prod.case option.case] assms(3) _ assms(5,6),
      where to' = "\<lparr>ssEnc = aesgcm c (e0\<lparr>acDerive := d\<rparr>), ssRedact = redactor, ssPeppers = []\<rparr>"]
  show ?thesis by simp
qed

definition ex_resealed :: Record where
  "ex_resealed = projr (sealRecord ex_crypto (ex_ss (ex_aes ''a'' [])) ms_HasOrderKey ex_se (ex_clear ''m1'') (NewMemoryStore ex_opts))"

theorem reseal_complete_witness:
  "\<exists>rep s' y p. Reseal ex_crypto id (Some (aesgcm ex_crypto (ex_aes ''a'' []))) (Some (aesgcm ex_crypto (ex_aes ''b'' []))) ms_Append ms_HasOrderKey
       [(ok, ex_se, ex_env 1 [], ex_resealed)] (NewMemoryStore ex_opts) = (ok, rep, s')
     \<and> ms_content s' ''m1'' = Some y \<and> openRecord \<lparr>ssEnc = aesgcm ex_crypto (ex_aes ''b'' []), ssRedact = id, ssPeppers = []\<rparr> y = Inr p \<and> rState p = Pending"
proof -
  let ?recs = "[(ok, ex_se, ex_env 1 [], ex_resealed)]"
  let ?q = "Reseal ex_crypto id (Some (aesgcm ex_crypto (ex_aes ''a'' []))) (Some (aesgcm ex_crypto ((ex_aes ''b'' [])\<lparr>acDerive := False\<rparr>))) ms_Append ms_HasOrderKey
       ?recs (NewMemoryStore ex_opts)"
  have e: "fst ?q = ok" by code_simp
  then have q: "?q = (ok, fst (snd ?q), snd (snd ?q))" by (metis prod.collapse)
  have r: "rID ex_resealed = ''m1''" "rState ex_resealed = Pending" by code_simp+
  have n: "ms_content (NewMemoryStore ex_opts) ''m1'' = None" by code_simp
  have new: "NewAESGCM (ex_key ''b'') [] = Inr (ex_aes ''b'' [])"
    by (simp add: NewAESGCM_def key_validate_def KeySize_def maxKeyID_def ex_key_def ex_aes_def)
  from reseal_complete [OF ex_crypto_ok new ms_ok_new q] ex_se_ok n r
  obtain y p where "ms_content (snd (snd ?q)) ''m1'' = Some y" "openRecord \<lparr>ssEnc = aesgcm ex_crypto ((ex_aes ''b'' [])\<lparr>acDerive := False\<rparr>), ssRedact = id, ssPeppers = []\<rparr> y = Inr p"
    "rState p = Pending" by (auto simp: same_clear_def)
  moreover have "(ex_aes ''b'' [])\<lparr>acDerive := False\<rparr> = ex_aes ''b'' []" by (simp add: ex_aes_def)
  ultimately show ?thesis using q by (intro exI [of _ "fst (snd ?q)"] exI [of _ "snd (snd ?q)"] exI [of _ y] exI [of _ p]) simp
qed

end
