(* ===== verification/GG_Audit.thy ===== *)
theory GG_Audit
  imports GG_Memory_Props
begin

text \<open>
  The audited store (\<open>dlq/audit.go\<close>): the calls only a person makes, \<open>Requeue\<close>, \<open>RequeueWith\<close> and \<open>Discard\<close>, leave an event that names the
  action, the record, who did it and whether it succeeded; all other calls pass straight through.  The events sent to the sink are a list.
\<close>

datatype OperatorActionKind = ActionRequeue | ActionDiscard

record OperatorAction =
  oaAction :: OperatorActionKind
  oaRecordID :: string
  oaActor :: string
  oaOK :: bool
  oaAt :: time

text \<open>The name \<open>WithActor\<close> put into the context, if any, and the reading of the audit clock.\<close>

record aud_env =
  avActor :: "string option"
  avAt :: time

definition ActorFrom :: "aud_env \<Rightarrow> string" where
  "ActorFrom v = (case avActor v of Some a \<Rightarrow> a | None \<Rightarrow> '''')"

definition aud_note :: "aud_env \<Rightarrow> OperatorActionKind \<Rightarrow> string \<Rightarrow> goerr \<Rightarrow> OperatorAction list \<Rightarrow> OperatorAction list" where
  "aud_note v action i err es = es @ [\<lparr>oaAction = action, oaRecordID = i, oaActor = ActorFrom v, oaOK = (err = None), oaAt = avAt v\<rparr>]"

definition aud_Requeue :: "('e \<Rightarrow> string \<Rightarrow> 's \<Rightarrow> goerr \<times> 's) \<Rightarrow> aud_env \<Rightarrow> 'e \<Rightarrow> string \<Rightarrow> OperatorAction list \<times> 's \<Rightarrow> goerr \<times> OperatorAction list \<times> 's" where
  "aud_Requeue op v e i es = (case op e i (snd es) of (err, s) \<Rightarrow> (err, aud_note v ActionRequeue i err (fst es), s))"

definition aud_RequeueWith :: "('e \<Rightarrow> string \<Rightarrow> RequeueOptions \<Rightarrow> 's \<Rightarrow> goerr \<times> 's) \<Rightarrow> aud_env \<Rightarrow> 'e \<Rightarrow> string \<Rightarrow> RequeueOptions
    \<Rightarrow> OperatorAction list \<times> 's \<Rightarrow> goerr \<times> OperatorAction list \<times> 's" where
  "aud_RequeueWith op v e i qo es = (case op e i qo (snd es) of (err, s) \<Rightarrow> (err, aud_note v ActionRequeue i err (fst es), s))"

definition aud_Discard :: "('e \<Rightarrow> string \<Rightarrow> 's \<Rightarrow> goerr \<times> 's) \<Rightarrow> aud_env \<Rightarrow> 'e \<Rightarrow> string \<Rightarrow> OperatorAction list \<times> 's \<Rightarrow> goerr \<times> OperatorAction list \<times> 's" where
  "aud_Discard op v e i es = (case op e i (snd es) of (err, s) \<Rightarrow> (err, aud_note v ActionDiscard i err (fst es), s))"

section \<open>Over the memory store\<close>

definition aud_step :: "aud_env \<Rightarrow> call_env \<Rightarrow> store_op \<Rightarrow> OperatorAction list \<times> MemoryStore \<Rightarrow> store_res \<times> OperatorAction list \<times> MemoryStore" where
  "aud_step v e op es = (case op of
      OpRequeueWith i qo \<Rightarrow> apfst RErr (aud_RequeueWith ms_RequeueWith v e i qo es)
    | OpDiscard i \<Rightarrow> apfst RErr (aud_Discard ms_Discard v e i es)
    | _ \<Rightarrow> (case ms_step e op (snd es) of (r, s) \<Rightarrow> (r, fst es, s)))"

fun aud_run :: "(aud_env \<times> call_env \<times> store_op) list \<Rightarrow> OperatorAction list \<times> MemoryStore \<Rightarrow> store_res list \<times> OperatorAction list \<times> MemoryStore" where
  "aud_run [] es = ([], es)"
| "aud_run ((v, e, op) # cs) es = (case aud_step v e op es of (r, es1) \<Rightarrow> (case aud_run cs es1 of (rs, es2) \<Rightarrow> (r # rs, es2)))"

definition operator_op :: "store_op \<Rightarrow> (OperatorActionKind \<times> string) option" where
  "operator_op op = (case op of OpRequeueWith i _ \<Rightarrow> Some (ActionRequeue, i) | OpDiscard i \<Rightarrow> Some (ActionDiscard, i) | _ \<Rightarrow> None)"

lemma aud_step_eq:
  "aud_step v e op es = (case ms_step e op (snd es) of (r, s) \<Rightarrow>
     (r, (case operator_op op of None \<Rightarrow> fst es | Some (k, i) \<Rightarrow> aud_note v k i (case r of RErr err \<Rightarrow> err | _ \<Rightarrow> None) (fst es)), s))"
  by (cases op) (auto simp: aud_step_def ms_step_def operator_op_def aud_RequeueWith_def aud_Discard_def split: prod.splits)

lemma Discard_refused: "ms_Discard e i s = (Some err, s') \<Longrightarrow> s' = s"
  by (auto simp: ms_Discard_def split: option.splits sum.splits)

text \<open>The audited store does to its store what the same calls do to it directly, and one event is added per operator action.\<close>

lemma aud_run_transparent:
  "snd (snd (aud_run cs es)) = snd (ms_run (map snd cs) (snd es)) \<and> fst (aud_run cs es) = fst (ms_run (map snd cs) (snd es))
   \<and> (\<exists>new. fst (snd (aud_run cs es)) = fst es @ new
       \<and> map (\<lambda>a. (oaAction a, oaRecordID a)) new = List.map_filter (\<lambda>c. operator_op (snd (snd c))) cs)"
proof (induction cs es rule: aud_run.induct)
  case (2 v e op cs es)
  obtain r s1 where st: "ms_step e op (snd es) = (r, s1)" by fastforce
  obtain es1 where a: "aud_step v e op es = (r, es1, s1)" by (simp add: aud_step_eq st)
  obtain new where n: "fst (snd (aud_run cs (es1, s1))) = es1 @ new" "map (\<lambda>a. (oaAction a, oaRecordID a)) new = List.map_filter (\<lambda>c. operator_op (snd (snd c))) cs"
    using 2 [OF a [symmetric]] by auto
  have "\<exists>x. es1 = fst es @ x \<and> map (\<lambda>a. (oaAction a, oaRecordID a)) x = (case operator_op op of None \<Rightarrow> [] | Some k \<Rightarrow> [k])"
    using a by (auto simp: aud_step_eq st aud_note_def split: option.splits)
  then show ?case using 2 [OF a [symmetric]] n a st
    by (auto simp: case_prod_beta Let_def map_filter_simps split: option.splits)
qed (simp add: map_filter_simps)

text \<open>
  C30: nothing leaves the store unhandled without a trail: if a stored record is gone after any run of calls through the audited memory store, then a call of the run
  acknowledged it, or the log holds a successful discard of it; and the log has exactly one event per operator action, in order, whatever came of it.
\<close>

theorem discard_leaves_trail:
  assumes "ms_ok s" and "run_env (map snd cs) s" and "ms_content s i = Some r" and "aud_run cs (es, s) = (rs, es', s')" and "ms_content s' i = None"
  shows "((\<exists>v e tok. (v, e, OpAck i tok) \<in> set cs) \<or> (\<exists>a \<in> set es'. oaAction a = ActionDiscard \<and> oaRecordID a = i \<and> oaOK a))
    \<and> (\<exists>new. es' = es @ new \<and> map (\<lambda>a. (oaAction a, oaRecordID a)) new = List.map_filter (\<lambda>c. operator_op (snd (snd c))) cs)"
proof
  show "\<exists>new. es' = es @ new \<and> map (\<lambda>a. (oaAction a, oaRecordID a)) new = List.map_filter (\<lambda>c. operator_op (snd (snd c))) cs"
    using aud_run_transparent [of cs "(es, s)"] assms(4) by simp
  show "(\<exists>v e tok. (v, e, OpAck i tok) \<in> set cs) \<or> (\<exists>a \<in> set es'. oaAction a = ActionDiscard \<and> oaRecordID a = i \<and> oaOK a)"
    using assms
  proof (induction cs arbitrary: s es r rs)
    case (Cons c cs)
    obtain v e op where c: "c = (v, e, op)" by (metis prod_cases3)
    obtain res s1 where st: "ms_step e op s = (res, s1)" by fastforce
    obtain es1 where a: "aud_step v e op (es, s) = (res, es1, s1)" by (simp add: aud_step_eq st)
    obtain rs1 where run: "aud_run cs (es1, s1) = (rs1, es', s')" using Cons.prems(4) a by (auto simp: c split: prod.splits)
    have env: "ms_env e s" "run_env (map snd cs) s1" using Cons.prems(2) st by (auto simp: c)
    have ok: "ms_ok s1" using ms_stepD(1) [OF Cons.prems(1) env(1) st] .
    obtain new where new: "es' = es1 @ new" using aud_run_transparent [of cs "(es1, s1)"] run by auto
    show ?case
    proof (cases "ms_content s1 i")
      case (Some r1)
      from Cons.IH [OF ok env(2) Some run Cons.prems(5)] show ?thesis by auto
    next
      case None
      then have "op = OpDiscard i \<or> (\<exists>tok. op = OpAck i tok)"
        using step_keeps [OF Cons.prems(1) env(1) st _ _ Cons.prems(3)] by auto
      moreover have ?thesis if dc: "op = OpDiscard i"
      proof -
        obtain err where d: "ms_Discard e i s = (err, s1)" "res = RErr err" using st dc by (auto simp: ms_step_def apfst_def map_prod_def split: prod.splits)
        have "err = None" using Discard_refused [of e i s _ s1] d None Cons.prems(3) by (cases err) auto
        then show ?thesis using a d st new unfolding dc by (auto simp: aud_step_eq operator_op_def aud_note_def)
      qed
      ultimately show ?thesis by (auto simp: c)
    qed
  qed simp
qed

definition ex_parked :: MemoryStore where
  "ex_parked = snd (ms_Append (ex_env 1 []) ((ex_rec ''p'' '''' ''db'')\<lparr>rState := Parked\<rparr>) (NewMemoryStore ex_opts))"

definition ex_audit :: "(aud_env \<times> call_env \<times> store_op) list" where
  "ex_audit = [(\<lparr>avActor = Some ''ann'', avAt = 9\<rparr>, ex_env 2 [], OpDiscard ''p'')]"

theorem discard_leaves_trail_witness:
  "\<exists>a \<in> set (fst (snd (aud_run ex_audit ([], ex_parked)))). oaAction a = ActionDiscard \<and> oaRecordID a = ''p'' \<and> oaOK a"
proof -
  have "ms_ok ex_parked" unfolding ex_parked_def by (rule mem.append_inv [OF ms_ok_new prod.collapse [symmetric]])
  moreover have "run_env (map snd ex_audit) ex_parked" unfolding ex_parked_def ex_audit_def ex_defs by (simp add: ms_env_def ms_eval)
  moreover have "ms_content ex_parked ''p'' \<noteq> None" "ms_content (snd (snd (aud_run ex_audit ([], ex_parked)))) ''p'' = None" by (code_simp, code_simp)
  moreover have "\<nexists>v e tok. (v, e, OpAck ''p'' tok) \<in> set ex_audit" by (simp add: ex_audit_def)
  ultimately show ?thesis
    using discard_leaves_trail [of ex_parked ex_audit "''p''" _ "[]" "fst (aud_run ex_audit ([], ex_parked))"
        "fst (snd (aud_run ex_audit ([], ex_parked)))" "snd (snd (aud_run ex_audit ([], ex_parked)))"] by auto
qed

end
