(* ===== verification/GG_Http.thy ===== *)
theory GG_Http
  imports GG_Breaker GG_Codec
begin

text \<open>
  The vocabulary of the guarded HTTP client (\<open>policy.go\<close>, \<open>match.go\<close>, the small functions of \<open>goguard.go\<close>): requests and
  responses as far as the code looks at them, policies, endpoints and matchers, the canonical form of hosts and header names,
  which attempts may be repeated, and how long a server may make the client wait.  Hosts and header names are bytes; lower and upper
  case is that of ASCII.
\<close>

section \<open>Text\<close>

definition to_lower :: "char \<Rightarrow> char" where
  "to_lower ch = (let n = of_char ch :: nat in if 65 \<le> n \<and> n \<le> 90 then char_of (n + 32) else ch)"

definition to_upper :: "char \<Rightarrow> char" where
  "to_upper ch = (let n = of_char ch :: nat in if 97 \<le> n \<and> n \<le> 122 then char_of (n - 32) else ch)"

definition ToLower :: "string \<Rightarrow> string" where
  "ToLower s = map to_lower s"

definition HasPrefix :: "string \<Rightarrow> string \<Rightarrow> bool" where
  "HasPrefix s p \<longleftrightarrow> take (length p) s = p"

definition HasSuffix :: "string \<Rightarrow> string \<Rightarrow> bool" where
  "HasSuffix s p \<longleftrightarrow> length p \<le> length s \<and> drop (length s - length p) s = p"

definition TrimSuffix :: "string \<Rightarrow> string \<Rightarrow> string" where
  "TrimSuffix s p = (if HasSuffix s p then take (length s - length p) s else s)"

definition is_space :: "char \<Rightarrow> bool" where
  "is_space ch \<longleftrightarrow> of_char ch \<in> {9, 10, 11, 12, 13, 32 :: nat}"

definition TrimSpace :: "string \<Rightarrow> string" where
  "TrimSpace s = rev (dropWhile is_space (rev (dropWhile is_space s)))"

text \<open>\<open>strconv.Atoi\<close>: an optional sign and decimal digits, within the range of an \<open>int\<close>.\<close>

definition is_digit :: "char \<Rightarrow> bool" where
  "is_digit ch \<longleftrightarrow> 48 \<le> (of_char ch :: nat) \<and> (of_char ch :: nat) \<le> 57"

fun digits_val :: "string \<Rightarrow> int \<Rightarrow> int" where
  "digits_val [] acc = acc"
| "digits_val (c # cs) acc = digits_val cs (acc * 10 + (of_char c - 48))"

definition Atoi :: "string \<Rightarrow> int option" where
  "Atoi s =
     (let neg = (s \<noteq> [] \<and> hd s = CHR ''-'');
          ds = (if s \<noteq> [] \<and> (hd s = CHR ''-'' \<or> hd s = CHR ''+'') then tl s else s);
          v = (if neg then - digits_val ds 0 else digits_val ds 0)
      in if ds = [] \<or> \<not> list_all is_digit ds \<or> \<not> is_int64 v then None else Some v)"

text \<open>\<open>textproto.CanonicalMIMEHeaderKey\<close>: names with a byte that is not allowed in a header name are left alone.\<close>

definition is_token :: "char \<Rightarrow> bool" where
  "is_token ch \<longleftrightarrow> (let n = of_char ch :: nat in
     48 \<le> n \<and> n \<le> 57 \<or> 65 \<le> n \<and> n \<le> 90 \<or> 97 \<le> n \<and> n \<le> 122
     \<or> n \<in> {33, 35, 36, 37, 38, 39, 42, 43, 45, 46, 94, 95, 96, 124, 126})"

fun canon_from :: "bool \<Rightarrow> string \<Rightarrow> string" where
  "canon_from up [] = []"
| "canon_from up (c # cs) = (if up then to_upper c else to_lower c) # canon_from (c = CHR ''-'') cs"

definition CanonicalMIMEHeaderKey :: "string \<Rightarrow> string" where
  "CanonicalMIMEHeaderKey s = (if list_all is_token s then canon_from True s else s)"

section \<open>Requests and responses\<close>

datatype req_body = BodyNil | BodyNone | BodyData string

text \<open>
  A request: \<open>hqURL\<close> is what \<open>URL.String()\<close> gives, \<open>hqUser\<close> says that the URL has user information, \<open>hqGetBody\<close> that \<open>GetBody\<close> is set.
  The header is the map in the order in which a range over it goes.  The last fields are what the context carries.
\<close>

record httpReq =
  hqMethod :: string
  hqScheme :: string
  hqHost :: string
  hqPath :: string
  hqURL :: string
  hqUser :: bool
  hqHeader :: "(string \<times> string list) list"
  hqBody :: req_body
  hqGetBody :: bool
  hqSkip :: bool
  hqUse :: "string option"
  hqVIP :: bool
  hqReplay :: bool

record httpResp =
  hrStatus :: int
  hrRetryAfter :: string

definition Header_Get :: "(string \<times> string list) list \<Rightarrow> string \<Rightarrow> string" where
  "Header_Get h name = (case map_of h (CanonicalMIMEHeaderKey name) of Some (v # _) \<Rightarrow> v | _ \<Rightarrow> '''')"

section \<open>Policies and endpoints\<close>

text \<open>The settings of a health check, and whether its \<open>Check\<close> is set.\<close>

type_synonym health_cfg = "HConfig \<times> bool"

record Defer =
  dfStore :: "nat option"
  dfBound :: "nat option"
  dfBindLater :: bool
  dfIdempotencyHeader :: string
  dfOrderKey :: "(httpReq \<Rightarrow> string) option"
  dfMaxBodyBytes :: int
  dfEnabled :: bool

record GPolicy =
  gpFailureThreshold :: rat
  gpMinSamples :: int
  gpSamplingWindow :: duration
  gpBucketDuration :: duration
  gpSleepWindow :: duration
  gpMaxLatency :: duration
  gpOutlierFactor :: rat
  gpRequestTimeout :: duration
  gpMaxInflight :: int
  gpBulkheadWaitTimeout :: duration
  gpMaxRetries :: int
  gpRetryBudget :: rat
  gpRetryBackoff :: "(int \<Rightarrow> duration) option"
  gpIsFailure :: "(httpResp option \<Rightarrow> goerr \<Rightarrow> bool) option"
  gpHealth :: "health_cfg option"
  gpHealthPath :: string
  gpHealthHeader :: "(string \<times> string list) list"
  gpDefer :: "Defer option"
  gpDryRun :: bool

definition defaultIsFailure :: "httpResp option \<Rightarrow> goerr \<Rightarrow> bool" where
  "defaultIsFailure resp err \<longleftrightarrow> err \<noteq> ok \<or> (case resp of None \<Rightarrow> False | Some r \<Rightarrow> 500 \<le> hrStatus r)"

definition gp_validate :: "string \<Rightarrow> GPolicy \<Rightarrow> goerr" where
  "gp_validate name p =
     (if (case gpHealth p of None \<Rightarrow> False | Some h \<Rightarrow> \<not> snd h \<and> gpHealthPath p = '''')
      then Some (EText (''goguard: endpoint '' @ name @ '' sets Health without a Check or HealthPath''))
      else if gpHealthPath p \<noteq> '''' \<and> \<not> HasPrefix (gpHealthPath p) ''/''
      then Some (EText (''goguard: endpoint '' @ name @ '' HealthPath must start with a slash''))
      else if (case gpDefer p of None \<Rightarrow> False | Some d \<Rightarrow> dfStore d = None \<and> \<not> dfBindLater d)
      then Some (EText (''goguard: endpoint '' @ name @ '' sets Defer without a Store (or BindLater)''))
      else ok)"

definition gp_applyDefaults :: "GPolicy \<Rightarrow> GPolicy" where
  "gp_applyDefaults p = (if gpIsFailure p = None then p\<lparr>gpIsFailure := Some defaultIsFailure\<rparr> else p)"

definition breakerConfig :: "string \<Rightarrow> GPolicy \<Rightarrow> BConfig" where
  "breakerConfig name p = \<lparr>cName = name, cFailureThreshold = gpFailureThreshold p, cMinSamples = gpMinSamples p,
     cSamplingWindow = gpSamplingWindow p, cBucketDuration = gpBucketDuration p, cSleepWindow = gpSleepWindow p,
     cMaxInflight = gpMaxInflight p, cWaitTimeout = gpBulkheadWaitTimeout p, cRetryBudget = gpRetryBudget p, cDryRun = gpDryRun p,
     cIsFailure = None, cHealth = None\<rparr>"

record Endpoint =
  edName :: string
  edMatch :: "(httpReq \<Rightarrow> bool) option"
  edPolicy :: GPolicy
  edPerHost :: bool

definition guardAllName :: string where "guardAllName = ''*''"

section \<open>Hosts\<close>

definition canonHost :: "string \<Rightarrow> string" where
  "canonHost h0 =
     (let h = ToLower h0;
          h1 = (if HasSuffix h '':443'' then TrimSuffix h '':443'' else if HasSuffix h '':80'' then TrimSuffix h '':80'' else h)
      in TrimSuffix h1 ''.'')"

definition Host :: "string list \<Rightarrow> httpReq \<Rightarrow> bool" where
  "Host hosts r \<longleftrightarrow> canonHost (hqHost r) \<in> set (map canonHost hosts)"

definition HostPath :: "string \<Rightarrow> string \<Rightarrow> httpReq \<Rightarrow> bool" where
  "HostPath host pathPrefix r \<longleftrightarrow> canonHost (hqHost r) = canonHost host \<and> HasPrefix (hqPath r) pathPrefix"

definition ctx_Use :: "string \<Rightarrow> httpReq \<Rightarrow> httpReq" where
  "ctx_Use name r = r\<lparr>hqUse := Some name\<rparr>"

definition ctx_Skip :: "httpReq \<Rightarrow> httpReq" where
  "ctx_Skip r = r\<lparr>hqSkip := True\<rparr>"

section \<open>Repeating an attempt\<close>

definition can_resend :: "httpReq \<Rightarrow> bool" where
  "can_resend req \<longleftrightarrow> hqBody req = BodyNil \<or> hqGetBody req"

definition isRetryable :: "httpReq \<Rightarrow> goerr \<Rightarrow> httpResp option \<Rightarrow> bool" where
  "isRetryable req err resp =
     (if hqMethod req \<notin> {''GET'', ''HEAD'', ''OPTIONS'', ''TRACE''} then False
      else case err of
        Some e \<Rightarrow> as_net e = Some True \<and> can_resend req
      | None \<Rightarrow> (case resp of None \<Rightarrow> False | Some r \<Rightarrow> (hrStatus r = 503 \<or> hrStatus r = 504) \<and> can_resend req))"

definition maxRetryAfter :: duration where "maxRetryAfter = 30 * second"

text \<open>\<open>parseTime\<close> is \<open>http.ParseTime\<close>; the product of a number of seconds wraps around as an \<open>int64\<close>.\<close>

definition retryAfter :: "(string \<Rightarrow> time option) \<Rightarrow> httpResp option \<Rightarrow> time \<Rightarrow> duration" where
  "retryAfter parseTime r now =
     (case r of None \<Rightarrow> 0
      | Some resp \<Rightarrow>
         (let v = TrimSpace (hrRetryAfter resp) in
          if v = '''' then 0
          else let d = (case Atoi v of Some secs \<Rightarrow> int64 (secs * second)
                        | None \<Rightarrow> (case parseTime v of Some t \<Rightarrow> time_sub t now | None \<Rightarrow> 0))
               in min (max d 0) maxRetryAfter))"

lemma retryAfter_bounds: "0 \<le> retryAfter pt r now \<and> retryAfter pt r now \<le> maxRetryAfter"
  by (auto simp: retryAfter_def Let_def maxRetryAfter_def second_def split: option.splits)

text \<open>A wait of more than about 292 years wraps around and counts as none, where the cap is meant to apply.\<close>

theorem huge_retry_after_ignored:
  "retryAfter parseTime (Some \<lparr>hrStatus = 503, hrRetryAfter = ''10000000000''\<rparr>) now = 0
   \<and> retryAfter parseTime (Some \<lparr>hrStatus = 503, hrRetryAfter = ''9000000000''\<rparr>) now = maxRetryAfter"
proof -
  have "retryAfter (\<lambda>_. None) (Some \<lparr>hrStatus = 503, hrRetryAfter = ''10000000000''\<rparr>) 0 = 0"
    "retryAfter (\<lambda>_. None) (Some \<lparr>hrStatus = 503, hrRetryAfter = ''9000000000''\<rparr>) 0 = maxRetryAfter"
    "Atoi (TrimSpace ''10000000000'') \<noteq> None" "Atoi (TrimSpace ''9000000000'') \<noteq> None" by (code_simp, code_simp, code_simp, code_simp)
  then show ?thesis by (auto simp: retryAfter_def Let_def)
qed

section \<open>Lemmas\<close>

lemma to_lower_idem [simp]: "to_lower (to_lower ch) = to_lower ch"
  by (auto simp: to_lower_def Let_def)

lemma isRetryable_safe:
  "isRetryable req err resp \<Longrightarrow> hqMethod req \<in> {''GET'', ''HEAD'', ''OPTIONS'', ''TRACE''} \<and> can_resend req"
  by (auto simp: isRetryable_def split: if_splits option.splits)

end
