(* ===== verification/GG_Circuits.thy ===== *)
theory GG_Circuits
  imports GG_Http "HOL-Library.AList"
begin

text \<open>
  The circuits of the guarded transport (\<open>goguard.go\<close>): endpoints, one circuit per endpoint or per host, kept in lock shards with a
  bounded list by time of use.  Entries and list elements are pointers into a heap, since a request goes on using a circuit that was
  evicted meanwhile.  Under a shard's lock a function is one step; between the read lock and the write lock of \<open>getEntry\<close> other
  goroutines work (\<open>geMid\<close>).
\<close>

unbundle bit_operations_syntax

section \<open>State\<close>

record endpoint =
  enName :: string
  enIdx :: nat
  enPerHost :: bool
  enMatch :: "httpReq \<Rightarrow> bool"
  enPolicy :: GPolicy
  enBcfg :: BConfig

type_synonym ckey = "nat \<times> string"

record centry =
  ceKey :: ckey
  ceName :: string
  ceEp :: nat
  ceBreaker :: PBreaker
  ceLastAccess :: int
  ceClosed :: bool

record shard =
  shEntries :: "(ckey \<times> nat) list"
  shLru :: "nat list"

record transport =
  rtShards :: "shard list"
  rtEndpoints :: "endpoint list"
  rtGuardAll :: "endpoint option"
  rtByName :: "(string \<times> endpoint) list"
  rtShared :: "nat \<Rightarrow> nat option"
  rtHeap :: "nat \<Rightarrow> centry"
  rtNext :: nat
  rtMaxBreakers :: int
  rtMaxIdleTime :: duration
  rtPassthru :: nat
  rtClosed :: bool

definition touchInterval :: int where "touchInterval = second"

definition circuitName :: "endpoint \<Rightarrow> string \<Rightarrow> string" where
  "circuitName ep host = (if \<not> enPerHost ep then enName ep else if enName ep = guardAllName then host else enName ep @ ''@'' @ host)"

text \<open>FNV-1a over the host, cut to the number of shards.\<close>

definition fnv64a :: "string \<Rightarrow> 64 word" where
  "fnv64a s = foldl (\<lambda>h ch. (h XOR of_nat (of_char ch)) * 1099511628211) 14695981039346656037 s"

definition shardFor :: "transport \<Rightarrow> string \<Rightarrow> nat" where
  "shardFor t name = unat (fnv64a name AND (of_nat (length (rtShards t)) - 1))"

section \<open>Entries\<close>

text \<open>\<open>probeOk\<close>: \<open>health.HTTP\<close> accepts the address as an absolute \<open>http\<close> or \<open>https\<close> URL.\<close>

definition zero_hconfig :: HConfig where
  "zero_hconfig = \<lparr>hcInterval = 0, hcMaxInterval = 0, hcTimeout = 0, hcSuccessThreshold = 0, hcJitter = 0, hcMaxOpen = 0, hcTrustHealth = False\<rparr>"

definition healthFor :: "(string \<Rightarrow> bool) \<Rightarrow> endpoint \<Rightarrow> string \<Rightarrow> string \<Rightarrow> HConfig option" where
  "healthFor probeOk ep scheme host =
     (let pol = enPolicy ep in
      if gpHealth pol = None \<and> gpHealthPath pol = '''' then None
      else let (hc, check) = (case gpHealth pol of Some h \<Rightarrow> h | None \<Rightarrow> (zero_hconfig, False)) in
        if check then Some hc
        else if probeOk (scheme @ ''://'' @ host @ gpHealthPath pol) then Some hc else None)"

definition newEntry :: "(string \<Rightarrow> bool) \<Rightarrow> endpoint \<Rightarrow> ckey \<Rightarrow> string \<Rightarrow> string \<Rightarrow> string \<Rightarrow> int \<Rightarrow> centry" where
  "newEntry probeOk ep k scheme host canon now =
     (let name = circuitName ep canon;
          cfg = (enBcfg ep)\<lparr>cName := name, cHealth := healthFor probeOk ep scheme host\<rparr>
      in \<lparr>ceKey = k, ceName = name, ceEp = enIdx ep, ceBreaker = New now cfg, ceLastAccess = now, ceClosed = False\<rparr>)"

definition upd_entry :: "nat \<Rightarrow> (centry \<Rightarrow> centry) \<Rightarrow> transport \<Rightarrow> transport" where
  "upd_entry p f t = t\<lparr>rtHeap := (rtHeap t)(p := f (rtHeap t p))\<rparr>"

definition upd_shard :: "nat \<Rightarrow> (shard \<Rightarrow> shard) \<Rightarrow> transport \<Rightarrow> transport" where
  "upd_shard n f t = t\<lparr>rtShards := (rtShards t)[n := f (rtShards t ! n)]\<rparr>"

text \<open>\<open>retire\<close>: the breaker is closed, at once or by a goroutine of its own.\<close>

definition retire :: "nat \<Rightarrow> transport \<Rightarrow> transport" where
  "retire p t = upd_entry p (\<lambda>e. e\<lparr>ceClosed := True\<rparr>) t"

definition alloc :: "centry \<Rightarrow> transport \<Rightarrow> nat \<times> transport" where
  "alloc e t = (rtNext t, t\<lparr>rtHeap := (rtHeap t)(rtNext t := e), rtNext := rtNext t + 1\<rparr>)"

text \<open>\<open>MoveToFront\<close> does nothing for an element that is no longer in the list.\<close>

definition MoveToFront :: "nat \<Rightarrow> nat list \<Rightarrow> nat list" where
  "MoveToFront p xs = (if p \<in> set xs then p # remove1 p xs else xs)"

definition touch :: "nat \<Rightarrow> int \<Rightarrow> nat \<Rightarrow> transport \<Rightarrow> transport" where
  "touch n now p t = upd_shard n (\<lambda>s. s\<lparr>shLru := MoveToFront p (shLru s)\<rparr>) (upd_entry p (\<lambda>e. e\<lparr>ceLastAccess := now\<rparr>) t)"

definition closed_at :: "transport \<Rightarrow> nat \<Rightarrow> bool" where
  "closed_at t p \<longleftrightarrow> bState (pIn (ceBreaker (rtHeap t p))) = StateClosed"

definition victim :: "transport \<Rightarrow> nat list \<Rightarrow> nat option" where
  "victim t lru = (case find (closed_at t) (take 16 (rev lru)) of
     Some p \<Rightarrow> Some p
   | None \<Rightarrow> (if lru = [] then None else Some (last lru)))"

definition drop_entry :: "nat \<Rightarrow> nat \<Rightarrow> transport \<Rightarrow> transport" where
  "drop_entry n p t = retire p (upd_shard n (\<lambda>s. s\<lparr>shLru := remove1 p (shLru s), shEntries := AList.delete (ceKey (rtHeap t p)) (shEntries s)\<rparr>) t)"

definition evict :: "nat \<Rightarrow> transport \<Rightarrow> transport" where
  "evict n t =
     (if rtMaxBreakers t \<le> int (length (shLru (rtShards t ! n)))
      then (case victim t (shLru (rtShards t ! n)) of None \<Rightarrow> t | Some p \<Rightarrow> drop_entry n p t)
      else t)"

record ge_env =
  geNow :: int
  geMid :: "transport \<Rightarrow> transport"
  geProbeOk :: "string \<Rightarrow> bool"

definition create :: "ge_env \<Rightarrow> endpoint \<Rightarrow> ckey \<Rightarrow> string \<Rightarrow> string \<Rightarrow> string \<Rightarrow> nat \<Rightarrow> transport \<Rightarrow> nat \<times> transport" where
  "create g ep k scheme host canon n t =
     (case alloc (newEntry (geProbeOk g) ep k scheme host canon (geNow g)) t of
        (p, t1) \<Rightarrow> (p, upd_shard n (\<lambda>s. s\<lparr>shEntries := AList.update k p (shEntries s), shLru := p # shLru s\<rparr>) t1))"

text \<open>What \<open>getEntry\<close> does under the lock of the endpoint, and under the write lock of a shard when the circuit was not found before.\<close>

definition getShared :: "ge_env \<Rightarrow> endpoint \<Rightarrow> string \<Rightarrow> string \<Rightarrow> transport \<Rightarrow> nat \<times> transport" where
  "getShared g ep scheme host t =
     (case rtShared t (enIdx ep) of
        Some p \<Rightarrow> (p, t)
      | None \<Rightarrow> (case alloc (newEntry (geProbeOk g) ep (enIdx ep, []) scheme host host (geNow g)) t of
                   (p, t1) \<Rightarrow> (p, t1\<lparr>rtShared := (rtShared t1)(enIdx ep := Some p)\<rparr>)))"

definition getMissing :: "ge_env \<Rightarrow> endpoint \<Rightarrow> string \<Rightarrow> string \<Rightarrow> transport \<Rightarrow> nat \<times> transport" where
  "getMissing g ep scheme host t =
     (let canon = canonHost host; k = (enIdx ep, canon); n = shardFor t canon in
      case map_of (shEntries (rtShards t ! n)) k of
        Some p \<Rightarrow> (p, touch n (geNow g) p t)
      | None \<Rightarrow> create g ep k scheme host canon n (evict n t))"

definition getEntry :: "ge_env \<Rightarrow> endpoint \<Rightarrow> string \<Rightarrow> string \<Rightarrow> transport \<Rightarrow> nat \<times> transport" where
  "getEntry g ep scheme host t =
     (if \<not> enPerHost ep
      then (case rtShared t (enIdx ep) of Some p \<Rightarrow> (p, t) | None \<Rightarrow> getShared g ep scheme host (geMid g t))
      else
       (let canon = canonHost host; n = shardFor t canon in
        case map_of (shEntries (rtShards t ! n)) (enIdx ep, canon) of
          Some p \<Rightarrow> if touchInterval < geNow g - ceLastAccess (rtHeap t p) then (p, touch n (geNow g) p (geMid g t)) else (p, t)
        | None \<Rightarrow> getMissing g ep scheme host (geMid g t)))"

section \<open>Pruning and closing\<close>

text \<open>From the back of the list, as long as the entries are idle for too long.\<close>

fun prune_from :: "nat \<Rightarrow> int \<Rightarrow> nat list \<Rightarrow> transport \<Rightarrow> transport" where
  "prune_from n now [] t = t"
| "prune_from n now (p # ps) t =
     (if rtMaxIdleTime t < now - ceLastAccess (rtHeap t p) then prune_from n now ps (drop_entry n p t) else t)"

definition prune_shard :: "int \<Rightarrow> nat \<Rightarrow> transport \<Rightarrow> transport" where
  "prune_shard now n t = prune_from n now (rev (shLru (rtShards t ! n))) t"

definition pruneIdle :: "int \<Rightarrow> transport \<Rightarrow> transport" where
  "pruneIdle now t = fold (prune_shard now) [0..<length (rtShards t)] t"

definition rt_entries :: "transport \<Rightarrow> nat list" where
  "rt_entries t = List.map_filter (\<lambda>ep. rtShared t (enIdx ep)) (rtEndpoints t) @ concat (map (\<lambda>s. map snd (shEntries s)) (rtShards t))"

definition rt_Close :: "transport \<Rightarrow> transport" where
  "rt_Close t = (if rtClosed t then t else fold retire (rt_entries t) (t\<lparr>rtClosed := True\<rparr>))"

definition rt_Breakers :: "transport \<Rightarrow> (string \<times> PBreaker) list" where
  "rt_Breakers t = map (\<lambda>p. (ceName (rtHeap t p), ceBreaker (rtHeap t p))) (rt_entries t)"

section \<open>Construction\<close>

record GConfig =
  gcEndpoints :: "Endpoint list"
  gcGuardAll :: "GPolicy option"
  gcMaxBreakers :: int
  gcMaxIdleTime :: duration
  gcShardCount :: int

definition WithEndpoint :: "string \<Rightarrow> (httpReq \<Rightarrow> bool) \<Rightarrow> GPolicy \<Rightarrow> (GPolicy \<Rightarrow> GPolicy) list \<Rightarrow> GConfig \<Rightarrow> GConfig" where
  "WithEndpoint name m p opts c = c\<lparr>gcEndpoints := gcEndpoints c @ [\<lparr>edName = name, edMatch = Some m, edPolicy = fold (\<lambda>f. f) opts p, edPerHost = False\<rparr>]\<rparr>"

definition opt_GuardAll :: "GPolicy \<Rightarrow> (GPolicy \<Rightarrow> GPolicy) list \<Rightarrow> GConfig \<Rightarrow> GConfig" where
  "opt_GuardAll p opts c = c\<lparr>gcGuardAll := Some (fold (\<lambda>f. f) opts p)\<rparr>"

definition newEndpoint :: "nat \<Rightarrow> string \<Rightarrow> (httpReq \<Rightarrow> bool) \<Rightarrow> GPolicy \<Rightarrow> bool \<Rightarrow> endpoint" where
  "newEndpoint idx name m p perHost =
     \<lparr>enName = name, enIdx = idx, enPerHost = perHost, enMatch = m, enPolicy = gp_applyDefaults p, enBcfg = breakerConfig name (gp_applyDefaults p)\<rparr>"

text \<open>The heap is read only at pointers that were handed out; elsewhere it holds any entry.\<close>

definition zero_policy :: GPolicy where
  "zero_policy = \<lparr>gpFailureThreshold = 0, gpMinSamples = 0, gpSamplingWindow = 0, gpBucketDuration = 0, gpSleepWindow = 0, gpMaxLatency = 0,
     gpOutlierFactor = 0, gpRequestTimeout = 0, gpMaxInflight = 0, gpBulkheadWaitTimeout = 0, gpMaxRetries = 0, gpRetryBudget = 0,
     gpRetryBackoff = None, gpIsFailure = None, gpHealth = None, gpHealthPath = [], gpHealthHeader = [], gpDefer = None, gpDryRun = False\<rparr>"

definition no_entry :: centry where
  "no_entry = \<lparr>ceKey = (0, []), ceName = [], ceEp = 0, ceBreaker = New 0 (breakerConfig [] zero_policy), ceLastAccess = 0, ceClosed = False\<rparr>"

fun add_endpoints :: "Endpoint list \<Rightarrow> endpoint list \<Rightarrow> gerror + endpoint list" where
  "add_endpoints [] eps = Inr eps"
| "add_endpoints (e # es) eps =
     (if edName e = '''' \<or> edName e = guardAllName then Inl (EText ''goguard: endpoint needs a unique name'')
      else case edMatch e of
        None \<Rightarrow> Inl (EText (''goguard: endpoint '' @ edName e @ '' has no Match''))
      | Some m \<Rightarrow>
          if edName e \<in> set (map enName eps) then Inl (EText (''goguard: duplicate endpoint name '' @ edName e))
          else case gp_validate (edName e) (edPolicy e) of
                 Some err \<Rightarrow> Inl err
               | None \<Rightarrow> add_endpoints es (eps @ [newEndpoint (length eps) (edName e) m (edPolicy e) (edPerHost e)]))"

definition rt_New :: "GConfig \<Rightarrow> (GConfig \<Rightarrow> GConfig) list \<Rightarrow> gerror + transport" where
  "rt_New cfg0 opts =
     (let cfg = fold (\<lambda>f. f) opts cfg0;
          count = (if gcShardCount cfg \<le> 0 \<or> gcShardCount cfg AND (gcShardCount cfg - 1) \<noteq> 0 then 64 else gcShardCount cfg);
          mx = (if gcMaxBreakers cfg = 0 then 1000 else gcMaxBreakers cfg)
      in case add_endpoints (gcEndpoints cfg) [] of
           Inl err \<Rightarrow> Inl err
         | Inr eps \<Rightarrow>
            (let all = (case gcGuardAll cfg of
                   None \<Rightarrow> Inr None
                 | Some p \<Rightarrow>
                    (case gp_validate guardAllName p of
                       Some err \<Rightarrow> Inl err
                     | None \<Rightarrow> if gpHealthHeader p \<noteq> []
                         then Inl (EText ''goguard: GuardAll cannot set HealthHeader'')
                         else Inr (Some (newEndpoint (length eps) guardAllName (\<lambda>_. True) p True))))
             in case all of
                  Inl err \<Rightarrow> Inl err
                | Inr ga \<Rightarrow>
                   Inr \<lparr>rtShards = replicate (nat count) \<lparr>shEntries = [], shLru = []\<rparr>, rtEndpoints = eps, rtGuardAll = ga,
                        rtByName = map (\<lambda>ep. (enName ep, ep)) (eps @ (case ga of None \<Rightarrow> [] | Some ep \<Rightarrow> [ep])),
                        rtShared = (\<lambda>_. None), rtHeap = (\<lambda>_. no_entry), rtNext = 0, rtMaxBreakers = mx,
                        rtMaxIdleTime = gcMaxIdleTime cfg, rtPassthru = 0, rtClosed = False\<rparr>))"

section \<open>The registry stays consistent\<close>

definition sh_ok :: "(nat \<Rightarrow> ckey) \<Rightarrow> nat \<Rightarrow> (string \<Rightarrow> nat) \<Rightarrow> int \<Rightarrow> nat \<Rightarrow> shard \<Rightarrow> bool" where
  "sh_ok key nxt sf mx n s \<longleftrightarrow> distinct (shLru s) \<and> distinct (map fst (shEntries s)) \<and> set (shLru s) = snd ` set (shEntries s)
     \<and> (\<forall>(k, p) \<in> set (shEntries s). key p = k \<and> p < nxt \<and> sf (snd k) = n) \<and> int (length (shLru s)) \<le> max 1 mx"

definition shard_ok :: "transport \<Rightarrow> nat \<Rightarrow> bool" where
  "shard_ok t n \<longleftrightarrow> sh_ok (\<lambda>p. ceKey (rtHeap t p)) (rtNext t) (shardFor t) (rtMaxBreakers t) n (rtShards t ! n)"

definition circuits_ok :: "transport \<Rightarrow> bool" where
  "circuits_ok t \<longleftrightarrow> (\<exists>j \<le> 63. length (rtShards t) = 2 ^ j) \<and> (\<forall>n < length (rtShards t). shard_ok t n)"

lemma shardFor_less:
  assumes "\<exists>j \<le> 63. length (rtShards t) = 2 ^ j"
  shows "shardFor t name < length (rtShards t)"
proof -
  obtain j where j: "j \<le> 63" "length (rtShards t) = 2 ^ j" using assms by blast
  have m: "(of_nat (length (rtShards t)) - 1 :: 64 word) = mask j" by (simp add: j(2) mask_eq_exp_minus_1)
  have "unat (fnv64a name AND mask j) = take_bit j (unat (fnv64a name))" by (simp add: take_bit_eq_mask [symmetric] unsigned_take_bit_eq)
  then show ?thesis unfolding shardFor_def m unfolding j(2) by (simp add: take_bit_nat_less_exp)
qed

lemma shardFor_frame:
  "shardFor (t\<lparr>rtHeap := h\<rparr>) = shardFor t" "shardFor (upd_entry p f t) = shardFor t" "shardFor (upd_shard n g t) = shardFor t"
  "shardFor (retire p t) = shardFor t" "shardFor (drop_entry n p t) = shardFor t" "shardFor (touch n now p t) = shardFor t"
  by (simp_all add: fun_eq_iff shardFor_def upd_entry_def upd_shard_def retire_def drop_entry_def touch_def)

text \<open>The changes of one shard.\<close>

lemma sh_ok_mono: "sh_ok key nxt sf mx n s \<Longrightarrow> nxt \<le> nxt' \<Longrightarrow> (\<And>p. p < nxt \<Longrightarrow> key' p = key p) \<Longrightarrow> sh_ok key' nxt' sf mx n s"
  by (fastforce simp: sh_ok_def)

lemma sh_ok_front: "sh_ok key nxt sf mx n s \<Longrightarrow> sh_ok key nxt sf mx n (s\<lparr>shLru := MoveToFront p (shLru s)\<rparr>)"
  by (auto simp: sh_ok_def MoveToFront_def length_remove1)

lemma sh_ok_drop:
  assumes "sh_ok key nxt sf mx n s" and "p \<in> set (shLru s)"
  shows "sh_ok key nxt sf mx n (s\<lparr>shLru := remove1 p (shLru s), shEntries := AList.delete (key p) (shEntries s)\<rparr>)"
proof -
  have k: "\<And>k q. (k, q) \<in> set (shEntries s) \<Longrightarrow> key q = k" using assms(1) by (auto simp: sh_ok_def)
  have "snd ` set (AList.delete (key p) (shEntries s)) = snd ` set (shEntries s) - {p}"
  proof -
    have "(k, q) \<in> set (AList.delete (key p) (shEntries s)) \<longleftrightarrow> (k, q) \<in> set (shEntries s) \<and> q \<noteq> p" for k q
    proof -
      have "q = p" if "(key p, q) \<in> set (shEntries s)"
      proof -
        have "(key p, p) \<in> set (shEntries s)" using assms k by (fastforce simp: sh_ok_def)
        then show ?thesis using that assms(1) by (auto simp: sh_ok_def dest: eq_key_imp_eq_value)
      qed
      then show ?thesis using k [of k q] by (auto simp: AList.delete_eq)
    qed
    then show ?thesis by force
  qed
  moreover have "distinct (map fst (AList.delete (key p) (shEntries s)))" using assms(1) by (simp add: sh_ok_def AList.distinct_delete)
  ultimately show ?thesis using assms by (auto simp: sh_ok_def AList.delete_eq length_remove1)
qed

lemma update_new: "map_of xs k = None \<Longrightarrow> AList.update k v xs = xs @ [(k, v)]"
  by (induction xs) (auto split: if_splits)

lemma sh_ok_add:
  assumes "sh_ok key nxt sf mx n s" and "map_of (shEntries s) k = None" and "sf (snd k) = n" and "int (length (shLru s)) < max 1 mx"
  shows "sh_ok (key(nxt := k)) (Suc nxt) sf mx n (s\<lparr>shEntries := AList.update k nxt (shEntries s), shLru := nxt # shLru s\<rparr>)"
proof -
  have u: "AList.update k nxt (shEntries s) = shEntries s @ [(k, nxt)]" using assms(2) by (rule update_new)
  have "\<And>p. p \<in> set (shLru s) \<Longrightarrow> p < nxt" using assms(1) by (auto simp: sh_ok_def)
  then show ?thesis using assms unfolding u by (fastforce simp: sh_ok_def map_of_eq_None_iff)
qed

lemma circuitsI:
  assumes "\<exists>j \<le> 63. length (rtShards t) = 2 ^ j" and "\<And>n. n < length (rtShards t) \<Longrightarrow> shard_ok t n"
  shows "circuits_ok t"
  using assms by (simp add: circuits_ok_def)

lemma circuits_shards: "circuits_ok t \<Longrightarrow> \<exists>j \<le> 63. length (rtShards t) = 2 ^ j"
  by (simp add: circuits_ok_def)

lemma ok_entry:
  assumes "circuits_ok t" and "\<And>e. ceKey (f e) = ceKey e"
  shows "circuits_ok (upd_entry p f t)"
proof (rule circuitsI)
  fix n assume "n < length (rtShards (upd_entry p f t))"
  then have "shard_ok t n" using assms(1) by (simp add: circuits_ok_def upd_entry_def)
  moreover have "(\<lambda>q. ceKey (rtHeap (upd_entry p f t) q)) = (\<lambda>q. ceKey (rtHeap t q))" using assms(2) by (auto simp: upd_entry_def)
  ultimately show "shard_ok (upd_entry p f t) n" by (simp add: shard_ok_def shardFor_frame) (simp add: upd_entry_def)
qed (use circuits_shards [OF assms(1)] in \<open>simp add: upd_entry_def\<close>)

lemma ok_shard:
  assumes "circuits_ok t" and "\<And>s. sh_ok (\<lambda>p. ceKey (rtHeap t p)) (rtNext t) (shardFor t) (rtMaxBreakers t) n s \<Longrightarrow> s = rtShards t ! n \<Longrightarrow>
    sh_ok (\<lambda>p. ceKey (rtHeap t p)) (rtNext t) (shardFor t) (rtMaxBreakers t) n (f s)"
  shows "circuits_ok (upd_shard n f t)"
proof (rule circuitsI)
  fix m assume m: "m < length (rtShards (upd_shard n f t))"
  then have "shard_ok t m" using assms(1) by (simp add: circuits_ok_def upd_shard_def)
  then show "shard_ok (upd_shard n f t) m"
    using assms(2) [of "rtShards t ! n"] m by (cases "m = n") (simp_all add: shard_ok_def shardFor_frame, simp_all add: upd_shard_def)
qed (use circuits_shards [OF assms(1)] in \<open>simp add: upd_shard_def\<close>)

lemma ok_retire: "circuits_ok t \<Longrightarrow> circuits_ok (retire p t)"
  unfolding retire_def by (rule ok_entry) simp_all

lemma ok_touch: "circuits_ok t \<Longrightarrow> circuits_ok (touch n now p t)"
  unfolding touch_def by (intro ok_shard ok_entry sh_ok_front) simp_all

lemma ok_drop: "circuits_ok t \<Longrightarrow> p \<in> set (shLru (rtShards t ! n)) \<Longrightarrow> circuits_ok (drop_entry n p t)"
  unfolding drop_entry_def by (intro ok_retire ok_shard sh_ok_drop) simp_all

lemma find_in: "find P xs = Some x \<Longrightarrow> x \<in> set xs \<and> P x"
  by (induction xs) (auto split: if_splits)

lemma victim_in: "victim t lru = Some p \<Longrightarrow> p \<in> set lru"
  by (auto simp: victim_def split: option.splits if_splits dest!: find_in in_set_takeD)

lemma drop_entry_shard:
  "n < length (rtShards t) \<Longrightarrow> shLru (rtShards (drop_entry n p t) ! n) = remove1 p (shLru (rtShards t ! n))"
  "length (rtShards (drop_entry n p t)) = length (rtShards t)" "rtMaxBreakers (drop_entry n p t) = rtMaxBreakers t"
  "m \<noteq> n \<Longrightarrow> rtShards (drop_entry n p t) ! m = rtShards t ! m"
  by (simp_all add: drop_entry_def retire_def upd_entry_def upd_shard_def)

lemma ok_evict:
  assumes "circuits_ok t" and "n < length (rtShards t)"
  shows "circuits_ok (evict n t) \<and> length (rtShards (evict n t)) = length (rtShards t)
    \<and> int (length (shLru (rtShards (evict n t) ! n))) < max 1 (rtMaxBreakers t)"
proof -
  let ?l = "shLru (rtShards t ! n)"
  have len: "int (length ?l) \<le> max 1 (rtMaxBreakers t)" using assms by (auto simp: circuits_ok_def shard_ok_def sh_ok_def)
  show ?thesis
  proof (cases "rtMaxBreakers t \<le> int (length ?l)")
    case True
    show ?thesis
    proof (cases "victim t ?l")
      case None
      then have "?l = []" by (auto simp: victim_def split: option.splits if_splits)
      then show ?thesis using True None assms(1) by (simp add: evict_def)
    next
      case (Some p)
      then have "p \<in> set ?l" by (rule victim_in)
      then show ?thesis
        using True Some len ok_drop [OF assms(1)] assms(2) by (auto simp: evict_def drop_entry_shard length_remove1)
    qed
  qed (use assms in \<open>simp add: evict_def\<close>)
qed

lemma ok_create:
  assumes "circuits_ok t" and "map_of (shEntries (rtShards t ! shardFor t (snd k))) k = None"
    and "int (length (shLru (rtShards t ! shardFor t (snd k)))) < max 1 (rtMaxBreakers t)"
  shows "circuits_ok (snd (create g ep k scheme host canon (shardFor t (snd k)) t))"
proof -
  let ?n = "shardFor t (snd k)" and ?e = "newEntry (geProbeOk g) ep k scheme host canon (geNow g)" and ?p = "rtNext t"
  let ?t = "snd (create g ep k scheme host canon ?n t)"
  have k: "ceKey ?e = k" by (simp add: newEntry_def Let_def)
  have key: "(\<lambda>p. ceKey (rtHeap ?t p)) = (\<lambda>p. ceKey (rtHeap t p))(?p := k)"
    using k by (auto simp: create_def alloc_def upd_shard_def fun_eq_iff)
  have sel: "rtNext ?t = Suc ?p" "rtMaxBreakers ?t = rtMaxBreakers t" "length (rtShards ?t) = length (rtShards t)" "shardFor ?t = shardFor t"
    by (simp_all add: create_def alloc_def upd_shard_def shardFor_def fun_eq_iff)
  show ?thesis
  proof (rule circuitsI)
    fix m assume m: "m < length (rtShards ?t)"
    have ok: "sh_ok (\<lambda>p. ceKey (rtHeap t p)) ?p (shardFor t) (rtMaxBreakers t) m (rtShards t ! m)" using assms(1) m sel(3) by (simp add: circuits_ok_def shard_ok_def)
    show "shard_ok ?t m"
    proof (cases "m = ?n")
      case True
      have "rtShards ?t ! m = (rtShards t ! m)\<lparr>shEntries := AList.update k ?p (shEntries (rtShards t ! m)), shLru := ?p # shLru (rtShards t ! m)\<rparr>"
        using True m sel(3) by (simp add: create_def alloc_def upd_shard_def)
      then show ?thesis unfolding shard_ok_def key sel using sh_ok_add [OF ok] True assms(2,3) by simp
    next
      case False
      then have "rtShards ?t ! m = rtShards t ! m" by (simp add: create_def alloc_def upd_shard_def)
      then show ?thesis unfolding shard_ok_def key sel using sh_ok_mono [OF ok] by simp
    qed
  qed (use circuits_shards [OF assms(1)] sel(3) in simp)
qed

lemma evict_keys:
  assumes "map_of (shEntries (rtShards t ! n)) k = None" and "n < length (rtShards t)"
  shows "map_of (shEntries (rtShards (evict n t) ! n)) k = None"
proof -
  have "map_of (shEntries (rtShards (drop_entry n p t) ! n)) k = None" for p
    using assms by (auto simp: drop_entry_def retire_def upd_entry_def upd_shard_def AList.delete_eq map_of_eq_None_iff)
  then show ?thesis using assms by (simp add: evict_def split: option.splits)
qed

lemma evict_frame: "shardFor (evict n t) = shardFor t" "rtMaxBreakers (evict n t) = rtMaxBreakers t"
  by (simp_all add: evict_def shardFor_frame drop_entry_shard split: option.splits)

lemma ok_getMissing:
  assumes "circuits_ok t"
  shows "circuits_ok (snd (getMissing g ep scheme host t))"
proof -
  let ?k = "(enIdx ep, canonHost host)" and ?n = "shardFor t (canonHost host)"
  have n: "?n < length (rtShards t)" using shardFor_less [OF circuits_shards [OF assms]] .
  show ?thesis
  proof (cases "map_of (shEntries (rtShards t ! ?n)) ?k")
    case None
    note E = ok_evict [OF assms n]
    have "circuits_ok (snd (create g ep ?k scheme host (canonHost host) (shardFor (evict ?n t) (snd ?k)) (evict ?n t)))"
      by (rule ok_create) (use E None evict_keys [OF None n] in \<open>simp_all add: evict_frame\<close>)
    then show ?thesis using None by (simp add: getMissing_def Let_def evict_frame)
  qed (use assms in \<open>simp add: getMissing_def Let_def ok_touch\<close>)
qed

lemma circuits_grow:
  assumes "circuits_ok t" and "rtShards t' = rtShards t" "rtMaxBreakers t' = rtMaxBreakers t" "rtNext t \<le> rtNext t'"
    and "\<And>p. p < rtNext t \<Longrightarrow> ceKey (rtHeap t' p) = ceKey (rtHeap t p)"
  shows "circuits_ok t'"
proof (rule circuitsI)
  fix n assume "n < length (rtShards t')"
  then have "shard_ok t n" using assms(1,2) by (simp add: circuits_ok_def)
  moreover have "shardFor t' = shardFor t" using assms(2) by (simp add: shardFor_def fun_eq_iff)
  ultimately show "shard_ok t' n"
    unfolding shard_ok_def using assms(2-) by (auto intro: sh_ok_mono)
qed (use circuits_shards [OF assms(1)] assms(2) in simp)

lemma ok_getShared: "circuits_ok t \<Longrightarrow> circuits_ok (snd (getShared g ep scheme host t))"
  by (rule circuits_grow [of t]) (auto simp: getShared_def alloc_def split: option.splits)

lemma ok_prune_from:
  assumes "circuits_ok t" and "n < length (rtShards t)" and "distinct ps" and "set ps \<subseteq> set (shLru (rtShards t ! n))"
  shows "circuits_ok (prune_from n now ps t) \<and> length (rtShards (prune_from n now ps t)) = length (rtShards t)"
  using assms
proof (induction ps arbitrary: t)
  case (Cons p ps)
  have "set ps \<subseteq> set (shLru (rtShards (drop_entry n p t) ! n))"
    using Cons.prems by (auto simp: drop_entry_shard circuits_ok_def shard_ok_def sh_ok_def)
  then show ?case using Cons ok_drop [OF Cons.prems(1)] by (simp add: drop_entry_shard)
qed simp

lemma ok_pruneIdle: "circuits_ok t \<Longrightarrow> circuits_ok (pruneIdle now t)"
proof -
  assume ok: "circuits_ok t"
  have "circuits_ok (fold (prune_shard now) ns t) \<and> length (rtShards (fold (prune_shard now) ns t)) = length (rtShards t)"
    if "set ns \<subseteq> {0..<length (rtShards t)}" "circuits_ok t" for ns t
    using that
  proof (induction ns arbitrary: t)
    case (Cons n ns)
    have "distinct (rev (shLru (rtShards t ! n)))" using Cons.prems by (auto simp: circuits_ok_def shard_ok_def sh_ok_def)
    then have P: "circuits_ok (prune_shard now n t) \<and> length (rtShards (prune_shard now n t)) = length (rtShards t)"
      unfolding prune_shard_def using Cons.prems by (intro ok_prune_from) auto
    then show ?case using Cons.IH [of "prune_shard now n t"] Cons.prems(1) by simp
  qed simp
  then show ?thesis using ok by (auto simp: pruneIdle_def)
qed

lemma ok_Close: "circuits_ok t \<Longrightarrow> circuits_ok (rt_Close t)"
proof -
  assume ok: "circuits_ok t"
  have "circuits_ok (fold retire ps t)" if "circuits_ok t" for ps t
    using that by (induction ps arbitrary: t) (simp_all add: ok_retire)
  moreover have "circuits_ok (t\<lparr>rtClosed := True\<rparr>)" using ok by (rule circuits_grow) simp_all
  ultimately show ?thesis using ok by (simp add: rt_Close_def)
qed

lemma ok_pass: "circuits_ok t \<Longrightarrow> circuits_ok (t\<lparr>rtPassthru := n\<rparr>)"
  by (rule circuits_grow) simp_all

section \<open>All interleavings\<close>

text \<open>
  What goroutines do to the circuits, in any order: the write-locked parts of \<open>getEntry\<close> (the touch may come after the element was
  evicted), calls that change a breaker, pruning, closing, and counting a request that is not guarded.
\<close>

inductive rt_step :: "transport \<Rightarrow> transport \<Rightarrow> bool" where
  rs_missing: "rt_step t (snd (getMissing g ep scheme host t))"
| rs_shared: "rt_step t (snd (getShared g ep scheme host t))"
| rs_touch: "rt_step t (touch n now p t)"
| rs_breaker: "rt_step t (upd_entry p (\<lambda>e. e\<lparr>ceBreaker := f (ceBreaker e)\<rparr>) t)"
| rs_prune: "rt_step t (pruneIdle now t)"
| rs_close: "rt_step t (rt_Close t)"
| rs_pass: "rt_step t (t\<lparr>rtPassthru := n\<rparr>)"

lemma rt_steps_ok: "rt_step\<^sup>*\<^sup>* t t' \<Longrightarrow> circuits_ok t \<Longrightarrow> circuits_ok t'"
proof (induction rule: rtranclp_induct)
  case (step u v)
  from step(2) step.IH [OF step.prems] show ?case
    by cases (simp_all add: ok_getMissing ok_getShared ok_touch ok_entry ok_pruneIdle ok_Close ok_pass)
qed simp

lemma bit_double_odd: "bit (2 * f + 1) n \<longleftrightarrow> n = 0 \<or> bit f (n - 1)" for f :: int
  by (cases n) (simp_all add: bit_Suc bit_0)

lemma and_double_odd: "(2 * d) AND (2 * f + 1) = 2 * (d AND f)" for d f :: int
  by (rule bit_eqI) (auto simp: bit_and_iff bit_double_iff bit_double_odd)

lemma power_of_two:
  fixes c :: int
  assumes "0 < c" and "c AND (c - 1) = 0"
  shows "\<exists>j. c = 2 ^ j"
  using assms
proof (induction "nat c" arbitrary: c rule: less_induct)
  case less
  show ?case
  proof (cases "even c")
    case True
    then obtain d where d: "c = 2 * d" by blast
    have "2 * (d AND (d - 1)) = 0"
    proof -
      have "c - 1 = 2 * (d - 1) + 1" using d by simp
      then have "c AND (c - 1) = (2 * d) AND (2 * (d - 1) + 1)" using d by simp
      also have "\<dots> = 2 * (d AND (d - 1))" by (rule and_double_odd)
      finally have "c AND (c - 1) = 2 * (d AND (d - 1))" .
      then show ?thesis using less.prems(2) by simp
    qed
    then have "\<exists>j. d = 2 ^ j" using less d by simp
    then show ?thesis using d by (metis power_Suc)
  next
    case False
    then obtain d where d: "c = 2 * d + 1" by (metis oddE)
    have "c AND (c - 1) = c - 1" unfolding d by (rule bit_eqI) (auto simp: bit_and_iff bit_double_iff bit_double_odd)
    then have "c = 1" using less.prems(2) by simp
    then show ?thesis by (intro exI [of _ 0]) simp
  qed
qed

lemma rt_New_ok:
  assumes "rt_New cfg opts = Inr t" and "\<And>c. is_int64 (gcShardCount (fold (\<lambda>f. f) opts cfg))"
  shows "circuits_ok t"
proof -
  let ?cfg = "fold (\<lambda>f. f) opts cfg"
  let ?count = "if gcShardCount ?cfg \<le> 0 \<or> gcShardCount ?cfg AND (gcShardCount ?cfg - 1) \<noteq> 0 then 64 else gcShardCount ?cfg"
  have t: "rtShards t = replicate (nat ?count) \<lparr>shEntries = [], shLru = []\<rparr>"
    using assms(1) by (auto simp: rt_New_def Let_def split: sum.splits)
  have "\<exists>j \<le> 63. nat ?count = 2 ^ j"
  proof (cases "gcShardCount ?cfg \<le> 0 \<or> gcShardCount ?cfg AND (gcShardCount ?cfg - 1) \<noteq> 0")
    case True
    then show ?thesis by (intro exI [of _ 6]) simp
  next
    case False
    then obtain j where j: "gcShardCount ?cfg = 2 ^ j" using power_of_two by force
    then have "(2 :: int) ^ j < 2 ^ 63" using assms(2) by (simp add: is_int64_def)
    then have "j < 63" by (rule power_less_imp_less_exp [rotated]) simp
    moreover have "nat ?count = 2 ^ j" using False j by (simp add: nat_power_eq)
    ultimately show ?thesis by (intro exI [of _ j]) simp
  qed
  moreover have "int 0 \<le> max 1 (rtMaxBreakers t)" by simp
  ultimately show ?thesis unfolding circuits_ok_def t by (simp add: shard_ok_def sh_ok_def t)
qed

lemma sh_ok_lookup:
  assumes "sh_ok key nxt sf mx n s"
  shows "map_of (shEntries s) k = Some p \<longleftrightarrow> p \<in> set (shLru s) \<and> key p = k"
proof
  assume "map_of (shEntries s) k = Some p"
  then have "(k, p) \<in> set (shEntries s)" by (rule map_of_SomeD)
  then show "p \<in> set (shLru s) \<and> key p = k" using assms by (force simp: sh_ok_def)
next
  assume p: "p \<in> set (shLru s) \<and> key p = k"
  then obtain k' where "(k', p) \<in> set (shEntries s)" using assms by (auto simp: sh_ok_def)
  moreover from this have "k' = k" using p assms by (auto simp: sh_ok_def)
  ultimately show "map_of (shEntries s) k = Some p" using assms by (simp add: sh_ok_def map_of_eq_Some_iff)
qed

lemma sh_ok_home: "sh_ok key nxt sf mx n s \<Longrightarrow> p \<in> set (shLru s) \<Longrightarrow> sf (snd (key p)) = n"
  by (auto simp: sh_ok_def)

lemma sh_ok_size: "sh_ok key nxt sf mx n s \<Longrightarrow> int (length (shLru s)) \<le> max 1 mx"
  by (simp add: sh_ok_def)

section \<open>Properties\<close>

definition ex_gcfg :: "int \<Rightarrow> GConfig" where
  "ex_gcfg mx = \<lparr>gcEndpoints = [], gcGuardAll = Some zero_policy, gcMaxBreakers = mx, gcMaxIdleTime = 0, gcShardCount = 1\<rparr>"

definition ex_all :: endpoint where
  "ex_all = newEndpoint 0 guardAllName (\<lambda>_. True) zero_policy True"

definition ex_rt :: "int \<Rightarrow> transport" where
  "ex_rt mx = \<lparr>rtShards = [\<lparr>shEntries = [], shLru = []\<rparr>], rtEndpoints = [], rtGuardAll = Some ex_all, rtByName = [(guardAllName, ex_all)],
     rtShared = (\<lambda>_. None), rtHeap = (\<lambda>_. no_entry), rtNext = 0, rtMaxBreakers = mx, rtMaxIdleTime = 0, rtPassthru = 0, rtClosed = False\<rparr>"

definition ex_ge :: ge_env where "ex_ge = \<lparr>geNow = 0, geMid = id, geProbeOk = (\<lambda>_. True)\<rparr>"

lemma ex_rt_New: "mx \<noteq> 0 \<Longrightarrow> rt_New (ex_gcfg mx) [] = Inr (ex_rt mx)"
  by (simp add: rt_New_def ex_gcfg_def ex_rt_def ex_all_def newEndpoint_def gp_validate_def zero_policy_def guardAllName_def)

lemma ex_shard: "length (rtShards t) = 1 \<Longrightarrow> shardFor t h = 0"
  by (simp add: shardFor_def)

lemma ex_missing:
  assumes "mx \<noteq> 0"
  shows "snd (getMissing ex_ge ex_all sc h (ex_rt mx)) = (ex_rt mx)\<lparr>rtShards := [\<lparr>shEntries = [((0, canonHost h), 0)], shLru = [0]\<rparr>],
    rtHeap := (\<lambda>_. no_entry)(0 := newEntry (\<lambda>_. True) ex_all (0, canonHost h) sc h (canonHost h) 0), rtNext := 1\<rparr>"
  using assms by (simp add: getMissing_def ex_shard Let_def ex_rt_def evict_def victim_def create_def alloc_def upd_shard_def ex_ge_def ex_all_def newEndpoint_def)

text \<open>
  C11: the circuits stay bounded and consistent under every interleaving of requests, breaker calls, pruning and closing: a shard never holds more than
  \<open>MaxBreakers\<close> circuits (one, if that is set below one), the map and the list of a shard hold the same circuits, no two of them for
  the same endpoint and host, and the shard a host is looked up in exists and is the only one that can hold its circuit.
\<close>

theorem circuits_bounded:
  assumes "rt_New cfg opts = Inr t0" and "is_int64 (gcShardCount (fold (\<lambda>f. f) opts cfg))" and "rt_step\<^sup>*\<^sup>* t0 t"
  shows "(\<forall>n < length (rtShards t). int (length (shLru (rtShards t ! n))) \<le> max 1 (rtMaxBreakers t)
      \<and> (\<forall>k p. map_of (shEntries (rtShards t ! n)) k = Some p \<longleftrightarrow> p \<in> set (shLru (rtShards t ! n)) \<and> ceKey (rtHeap t p) = k)
      \<and> (\<forall>p \<in> set (shLru (rtShards t ! n)). shardFor t (snd (ceKey (rtHeap t p))) = n))
    \<and> (\<forall>host. shardFor t host < length (rtShards t))"
proof -
  have ok: "circuits_ok t" using rt_steps_ok [OF assms(3) rt_New_ok [OF assms(1,2)]] .
  have "int (length (shLru (rtShards t ! n))) \<le> max 1 (rtMaxBreakers t)
      \<and> (\<forall>k p. map_of (shEntries (rtShards t ! n)) k = Some p \<longleftrightarrow> p \<in> set (shLru (rtShards t ! n)) \<and> ceKey (rtHeap t p) = k)
      \<and> (\<forall>p \<in> set (shLru (rtShards t ! n)). shardFor t (snd (ceKey (rtHeap t p))) = n)" if "n < length (rtShards t)" for n
  proof -
    have s: "sh_ok (\<lambda>p. ceKey (rtHeap t p)) (rtNext t) (shardFor t) (rtMaxBreakers t) n (rtShards t ! n)"
      using ok that by (simp add: circuits_ok_def shard_ok_def)
    show ?thesis using sh_ok_size [OF s] sh_ok_lookup [OF s] sh_ok_home [OF s] by simp
  qed
  then show ?thesis using shardFor_less [OF circuits_shards [OF ok]] by blast
qed

lemma ex_reach: "rt_step\<^sup>*\<^sup>* (ex_rt mx) (snd (getMissing ex_ge ex_all ''https'' ''a.com'' (ex_rt mx)))"
  by (rule r_into_rtranclp) (rule rs_missing)

theorem circuits_bounded_witness:
  "length (shLru (rtShards (snd (getMissing ex_ge ex_all ''https'' ''a.com'' (ex_rt 2))) ! 0)) \<le> 2"
  using circuits_bounded [of "ex_gcfg 2" "[]", OF ex_rt_New _ ex_reach]
  by (simp add: is_int64_def ex_gcfg_def ex_missing)

lemma set_MoveToFront: "set (MoveToFront p xs) = set xs"
  using set_remove1_subset [of p xs] by (auto simp: MoveToFront_def) (metis in_set_remove1)

lemma touch_frame:
  "shEntries (rtShards (touch n now p t) ! m) = shEntries (rtShards t ! m)" "shardFor (touch n now p t) = shardFor t"
  "ceKey (rtHeap (touch n now p t) q) = ceKey (rtHeap t q)" "set (shLru (rtShards (touch n now p t) ! m)) = set (shLru (rtShards t ! m))"
proof -
  show "shEntries (rtShards (touch n now p t) ! m) = shEntries (rtShards t ! m)"
    by (cases "m = n"; cases "n < length (rtShards t)") (simp_all add: touch_def upd_shard_def upd_entry_def list_update_beyond)
  show "set (shLru (rtShards (touch n now p t) ! m)) = set (shLru (rtShards t ! m))"
    by (cases "m = n"; cases "n < length (rtShards t)") (auto simp: touch_def upd_shard_def upd_entry_def list_update_beyond set_MoveToFront)
qed (simp_all add: touch_def upd_shard_def upd_entry_def shardFor_def fun_eq_iff)

lemma create_frame:
  assumes "n < length (rtShards t)"
  shows "fst (create g ep k scheme host canon n t) = rtNext t"
    "map_of (shEntries (rtShards (snd (create g ep k scheme host canon n t)) ! n)) k = Some (rtNext t)"
    "shardFor (snd (create g ep k scheme host canon n t)) = shardFor t"
    "ceKey (rtHeap (snd (create g ep k scheme host canon n t)) (rtNext t)) = k"
    "set (shLru (rtShards t ! m)) \<subseteq> set (shLru (rtShards (snd (create g ep k scheme host canon n t)) ! m))"
  using assms by (auto simp: create_def alloc_def upd_shard_def shardFor_def fun_eq_iff newEntry_def Let_def update_conv nth_list_update)

lemma getEntry_registered:
  assumes "circuits_ok t" and "enPerHost ep" and "geMid g = id" and "getEntry g ep scheme host t = (p, t1)"
  shows "map_of (shEntries (rtShards t1 ! shardFor t1 (canonHost host))) (enIdx ep, canonHost host) = Some p
    \<and> ceKey (rtHeap t1 p) = (enIdx ep, canonHost host)"
proof -
  let ?k = "(enIdx ep, canonHost host)" and ?n = "shardFor t (canonHost host)"
  have n: "?n < length (rtShards t)" using shardFor_less [OF circuits_shards [OF assms(1)]] .
  show ?thesis
  proof (cases "map_of (shEntries (rtShards t ! ?n)) ?k")
    case None
    have m: "(p, t1) = create g ep ?k scheme host (canonHost host) ?n (evict ?n t)"
      using assms(2-4) None by (simp add: getEntry_def getMissing_def Let_def)
    have l: "?n < length (rtShards (evict ?n t))" using ok_evict [OF assms(1) n] n by simp
    show ?thesis using create_frame(1-4) [OF l, of g ep ?k scheme host "canonHost host"] unfolding m [symmetric] by (simp add: evict_frame)
  next
    case (Some q)
    have "sh_ok (\<lambda>p. ceKey (rtHeap t p)) (rtNext t) (shardFor t) (rtMaxBreakers t) ?n (rtShards t ! ?n)"
      using assms(1) n by (simp add: circuits_ok_def shard_ok_def)
    then have "ceKey (rtHeap t q) = ?k" using sh_ok_lookup Some by blast
    then show ?thesis using assms(2-4) Some by (auto simp: getEntry_def Let_def touch_frame split: if_splits)
  qed
qed

text \<open>
  Requests of an endpoint to the same host, however it is spelled, use the same circuit: between two of them nothing but an eviction can change which.
  An endpoint without \<open>PerHost\<close> has one circuit for all its hosts.
\<close>

theorem same_host_same_circuit:
  assumes "rt_New cfg opts = Inr t0" and "is_int64 (gcShardCount (fold (\<lambda>f. f) opts cfg))" and "rt_step\<^sup>*\<^sup>* t0 t"
    and "geMid g = id" and "geMid g' = id" and "enPerHost ep \<longrightarrow> canonHost host' = canonHost host" and "getEntry g ep scheme host t = (p, t1)"
  shows "fst (getEntry g' ep scheme' host' t1) = p \<and> (enPerHost ep \<longrightarrow> ceKey (rtHeap t1 p) = (enIdx ep, canonHost host))"
proof (cases "enPerHost ep")
  case True
  have ok: "circuits_ok t" using rt_steps_ok [OF assms(3) rt_New_ok [OF assms(1,2)]] .
  from getEntry_registered [OF ok True assms(4,7)] show ?thesis
    using True assms(5,6) by (auto simp: getEntry_def Let_def)
next
  case False
  then show ?thesis using assms(4,5,7) by (auto simp: getEntry_def getShared_def alloc_def split: option.splits)
qed

theorem same_host_same_circuit_witness:
  "fst (getEntry ex_ge ex_all ''https'' ''EXAMPLE.com:443'' (snd (getEntry ex_ge ex_all ''https'' ''example.com.'' (ex_rt 2))))
     = fst (getEntry ex_ge ex_all ''https'' ''example.com.'' (ex_rt 2))"
proof -
  have c: "canonHost ''EXAMPLE.com:443'' = canonHost ''example.com.''" by code_simp
  show ?thesis
    using same_host_same_circuit [of "ex_gcfg 2" "[]", OF ex_rt_New _ rtranclp.rtrancl_refl, of ex_ge ex_ge ex_all "''EXAMPLE.com:443''"
        "''example.com.''" "''https''" "fst (getEntry ex_ge ex_all ''https'' ''example.com.'' (ex_rt 2))"
        "snd (getEntry ex_ge ex_all ''https'' ''example.com.'' (ex_rt 2))" "''https''"] c
    by (simp add: is_int64_def ex_gcfg_def ex_ge_def)
qed

text \<open>
  C12: a flood of new hosts cannot wash away what is known about services that are down: when a request makes room for a new circuit, a circuit that is not closed is
  evicted only if the shard is full, it was the least recently used one, and none of the sixteen least recently used circuits is closed.
\<close>

theorem open_circuit_evicted_last:
  assumes "rt_New cfg opts = Inr t0" and "is_int64 (gcShardCount (fold (\<lambda>f. f) opts cfg))" and "rt_step\<^sup>*\<^sup>* t0 t"
    and "geMid g = id" and "n < length (rtShards t)" and "q \<in> set (shLru (rtShards t ! n))" and "\<not> closed_at t q"
    and "q \<notin> set (shLru (rtShards (snd (getEntry g ep scheme host t)) ! n))"
  shows "q = last (shLru (rtShards t ! n)) \<and> rtMaxBreakers t \<le> int (length (shLru (rtShards t ! n)))
    \<and> (\<forall>p \<in> set (take 16 (rev (shLru (rtShards t ! n)))). \<not> closed_at t p)"
proof -
  let ?n = "shardFor t (canonHost host)" and ?l = "shLru (rtShards t ! n)"
  have ok: "circuits_ok t" using rt_steps_ok [OF assms(3) rt_New_ok [OF assms(1,2)]] .
  have sn: "?n < length (rtShards t)" using shardFor_less [OF circuits_shards [OF ok]] .
  have "shLru (rtShards (snd (getShared g ep scheme host t)) ! n) = ?l"
    by (simp add: getShared_def alloc_def split: option.splits)
  then have ev: "q \<notin> set (shLru (rtShards (evict ?n t) ! n))"
    using assms(4,6,8) create_frame(5) [of ?n "evict ?n t" n g ep "(enIdx ep, canonHost host)" scheme host "canonHost host"] ok_evict [OF ok sn] sn
    by (auto simp: getEntry_def getMissing_def Let_def touch_frame split: option.splits if_splits)
  then have full: "rtMaxBreakers t \<le> int (length (shLru (rtShards t ! ?n)))" using assms(6) by (auto simp: evict_def split: if_splits)
  then obtain p where p: "victim t (shLru (rtShards t ! ?n)) = Some p" "q \<notin> set (shLru (rtShards (drop_entry ?n p t) ! n))"
    using ev assms(6) by (auto simp: evict_def split: option.splits)
  then have nn: "n = ?n" using assms(6) by (metis drop_entry_shard(4))
  have "q = p" using p(2) assms(6) sn in_set_remove1 [of q p] by (fastforce simp: nn [symmetric] drop_entry_shard assms(5))
  then show ?thesis using p(1) full assms(7) unfolding nn [symmetric] victim_def
    by (auto split: option.splits if_splits dest: find_in simp: find_None_iff)
qed

text \<open>A full shard with one open circuit.\<close>

definition ex_full :: transport where
  "ex_full = upd_entry 0 (\<lambda>e. e\<lparr>ceBreaker := (\<lambda>b. b\<lparr>pIn := (pIn b)\<lparr>bState := StateOpen\<rparr>\<rparr>) (ceBreaker e)\<rparr>)
     (snd (getMissing ex_ge ex_all ''https'' ''a.com'' (ex_rt 1)))"

lemma ex_full_eq:
  "rtShards ex_full = [\<lparr>shEntries = [((0, canonHost ''a.com''), 0)], shLru = [0]\<rparr>]" "rtMaxBreakers ex_full = 1" "rtNext ex_full = 1"
  "\<not> closed_at ex_full 0" "ceKey (rtHeap ex_full 0) = (0, canonHost ''a.com'')"
  unfolding ex_full_def ex_missing [OF one_neq_zero] by (simp_all add: ex_rt_def upd_entry_def closed_at_def newEntry_def Let_def)

theorem open_circuit_evicted_last_witness:
  "list_all (\<lambda>p. \<not> closed_at ex_full p) (take 16 (rev (shLru (rtShards ex_full ! 0))))"
proof -
  have c: "canonHost ''a.com'' \<noteq> canonHost ''b.com''" by code_simp
  have s: "rt_step\<^sup>*\<^sup>* (ex_rt 1) ex_full"
    unfolding ex_full_def by (rule rtranclp.rtrancl_into_rtrancl [OF ex_reach]) (rule rs_breaker)
  have g: "0 \<notin> set (shLru (rtShards (snd (getEntry ex_ge ex_all ''https'' ''b.com'' ex_full)) ! 0))"
    using c by (simp add: getEntry_def getMissing_def Let_def ex_shard ex_full_eq ex_all_def newEndpoint_def ex_ge_def evict_def victim_def
        drop_entry_def retire_def upd_entry_def upd_shard_def create_def alloc_def)
  show ?thesis
    using open_circuit_evicted_last [of "ex_gcfg 1" "[]", OF ex_rt_New _ s, of ex_ge 0 0 ex_all "''https''" "''b.com''"] g
    by (simp add: is_int64_def ex_gcfg_def ex_ge_def ex_full_eq)
qed

end
