(* ===== verification/GG_Defer.thy ===== *)
theory GG_Defer
  imports GG_Circuits GG_Memory_Props GG_Redrive
begin

text \<open>
  Saving requests that could not be sent, and sending them later (\<open>defer.go\<close>, with \<open>IsSensitiveHeader\<close> of \<open>secure/redact.go\<close>).
  A store is known by a number; \<open>ap\<close> is the \<open>Append\<close> of the store with that number, on the state of all stores.  SHA-256, the parser of
  URLs and the client that sends a replayed request are arguments.
\<close>

section \<open>Settings\<close>

definition deferMethodHeader :: string where "deferMethodHeader = ''x-goguard-http-method''"
definition deferURLHeader :: string where "deferURLHeader = ''x-goguard-http-url''"
definition defaultDeferBody :: int where "defaultDeferBody = 1048576"

definition df_store :: "Defer \<Rightarrow> nat option" where
  "df_store d = (case dfStore d of Some s \<Rightarrow> Some s | None \<Rightarrow> dfBound d)"

definition idemHeader :: "Defer \<Rightarrow> string" where
  "idemHeader d = (if dfIdempotencyHeader d \<noteq> '''' then dfIdempotencyHeader d else ''Idempotency-Key'')"

definition maxBody :: "Defer \<Rightarrow> int" where
  "maxBody d = (if 0 < dfMaxBodyBytes d then dfMaxBodyBytes d else defaultDeferBody)"

definition defaultSensitiveHeaders :: "string list" where
  "defaultSensitiveHeaders = [''Authorization'', ''Proxy-Authorization'', ''Cookie'', ''Set-Cookie'', ''X-Api-Key'', ''Api-Key'', ''X-Auth-Token'',
     ''X-Amz-Security-Token'', ''X-Csrf-Token'']"

definition IsSensitiveHeader :: "string \<Rightarrow> bool" where
  "IsSensitiveHeader name \<longleftrightarrow> CanonicalMIMEHeaderKey name \<in> set (map CanonicalMIMEHeaderKey defaultSensitiveHeaders)"

section \<open>Saving\<close>

text \<open>
  \<open>deBodyErr\<close>: \<open>GetBody\<close>, or reading what it returned, fails.  The limit given to the reader is an \<open>int64\<close> and may wrap around; a reader
  with a limit that is not positive is at its end at once.
\<close>

record de_env =
  deSha :: "string \<Rightarrow> string"
  deBodyErr :: bool

definition read_body :: "de_env \<Rightarrow> Defer \<Rightarrow> httpReq \<Rightarrow> bytes option" where
  "read_body e d req =
     (case hqBody req of
        BodyNil \<Rightarrow> Some None
      | BodyNone \<Rightarrow> Some None
      | BodyData b \<Rightarrow>
          if \<not> hqGetBody req \<or> deBodyErr e then None
          else (let body = take (nat (int64 (maxBody d + 1))) b
                in if maxBody d < slen body then None else Some (Some body)))"

definition skip_header :: "string \<Rightarrow> bool" where
  "skip_header name \<longleftrightarrow> IsSensitiveHeader name \<or> HasPrefix (ToLower name) ''x-goguard-''"

definition saved_headers :: "(string \<times> string list) list \<Rightarrow> Header list" where
  "saved_headers hs = concat (map (\<lambda>(name, values). if skip_header name then [] else map (\<lambda>v. \<lparr>hKey = name, hValue = Some v\<rparr>) values) hs)"

definition df_record :: "de_env \<Rightarrow> Defer \<Rightarrow> httpReq \<Rightarrow> string \<Rightarrow> Record option" where
  "df_record e d req host =
     (let idem = Header_Get (hqHeader req) (idemHeader d) in
      if idem = '''' \<or> hqUser req then None
      else case read_body e d req of
        None \<Rightarrow> None
      | Some body \<Rightarrow> Some (zero_record\<lparr>rID := DeterministicID (deSha e) [''goguard-http'', hqMethod req, hqURL req, idem],
           rSource := zero_source\<lparr>sKind := ''http'', sName := host\<rparr>, rValue := body,
           rHeaders := [\<lparr>hKey = deferMethodHeader, hValue = Some (hqMethod req)\<rparr>, \<lparr>hKey = deferURLHeader, hValue = Some (hqURL req)\<rparr>]
             @ saved_headers (hqHeader req),
           rOrderKey := (case dfOrderKey d of None \<Rightarrow> '''' | Some f \<Rightarrow> f req)\<rparr>))"

definition tryDefer :: "de_env \<Rightarrow> (nat \<Rightarrow> Record \<Rightarrow> 's \<Rightarrow> goerr \<times> 's) \<Rightarrow> string \<Rightarrow> GPolicy \<Rightarrow> httpReq \<Rightarrow> gerror \<Rightarrow> 's \<Rightarrow> goerr \<times> 's" where
  "tryDefer e ap name pol req cause s =
     (case gpDefer pol of
        None \<Rightarrow> (None, s)
      | Some d \<Rightarrow>
          if gpDryRun pol \<or> \<not> dfEnabled d then (None, s)
          else if hqReplay req then (None, s)
          else case df_record e d req name of
            None \<Rightarrow> (None, s)
          | Some rec0 \<Rightarrow>
             (let rec = rec0\<lparr>rBlockedOn := name\<rparr> in
              case df_store d of
                None \<Rightarrow> (None, s)
              | Some n \<Rightarrow>
                 (case ap n rec s of
                    (Some err, s1) \<Rightarrow> (None, s1)
                  | (None, s1) \<Rightarrow> (Some (EDeferred (rID rec) cause), s1))))"

section \<open>Sending again\<close>

text \<open>
  What \<open>http.NewRequestWithContext\<close> makes of a method, a URL and a body: \<open>parseURL\<close> gives the parts of a URL and the text its \<open>String\<close> returns.
\<close>

record url_parts =
  upScheme :: string
  upHost :: string
  upPath :: string
  upString :: string
  upUser :: bool

definition NewRequest :: "(string \<Rightarrow> url_parts option) \<Rightarrow> string \<Rightarrow> string \<Rightarrow> string option \<Rightarrow> gerror + httpReq" where
  "NewRequest parseURL method target body =
     (let m = (if method = '''' then ''GET'' else method) in
      if \<not> list_all is_token m then Inl (EText (''net/http: invalid method '' @ m))
      else case parseURL target of
        None \<Rightarrow> Inl (EText (''parse '' @ target))
      | Some u \<Rightarrow> Inr \<lparr>hqMethod = m, hqScheme = upScheme u, hqHost = upHost u, hqPath = upPath u, hqURL = upString u, hqUser = upUser u,
           hqHeader = [], hqBody = (case body of None \<Rightarrow> BodyNil | Some b \<Rightarrow> BodyData b), hqGetBody = (body \<noteq> None), hqSkip = False,
           hqUse = None, hqVIP = False, hqReplay = False\<rparr>)"

definition Header_Add :: "string \<Rightarrow> string \<Rightarrow> (string \<times> string list) list \<Rightarrow> (string \<times> string list) list" where
  "Header_Add name v h =
     (let k = CanonicalMIMEHeaderKey name in AList.update k ((case map_of h k of None \<Rightarrow> [] | Some vs \<Rightarrow> vs) @ [v]) h)"

definition as_string :: "bytes \<Rightarrow> string" where
  "as_string b = (case b of None \<Rightarrow> '''' | Some s \<Rightarrow> s)"

text \<open>The value of the last header with a key, as the loop over the headers leaves it.\<close>

definition last_header :: "string \<Rightarrow> Header list \<Rightarrow> string" where
  "last_header k hs = foldl (\<lambda>acc h. if hKey h = k then as_string (hValue h) else acc) '''' hs"

definition add_saved :: "Header list \<Rightarrow> (string \<times> string list) list \<Rightarrow> (string \<times> string list) list" where
  "add_saved hs h0 = foldl (\<lambda>h x. if hKey x \<noteq> deferMethodHeader \<and> hKey x \<noteq> deferURLHeader then Header_Add (hKey x) (as_string (hValue x)) h else h) h0 hs"

definition rebuild :: "(string \<Rightarrow> url_parts option) \<Rightarrow> Record \<Rightarrow> gerror + httpReq" where
  "rebuild parseURL rec =
     (let method = last_header deferMethodHeader (rHeaders rec); target = last_header deferURLHeader (rHeaders rec) in
      if sKind (rSource rec) \<noteq> ''http'' \<or> method = '''' \<or> target = ''''
      then Inl (EPermanent (EText ''goguard: record was not saved by Policy.Defer''))
      else case NewRequest parseURL method target (if as_string (rValue rec) = '''' then None else rValue rec) of
        Inl err \<Rightarrow> Inl (EPermanent (EWrap ''goguard: rebuilding the request'' [err]))
      | Inr req \<Rightarrow> Inr (req\<lparr>hqReplay := True, hqHeader := add_saved (rHeaders rec) (hqHeader req)\<rparr>))"

text \<open>
  \<open>prep\<close> is the application's hook, \<open>client\<close> what \<open>Client.Do\<close> does with the request; a response is its status and the host that answered.
\<close>

definition ReplayHandler :: "(string \<Rightarrow> url_parts option) \<Rightarrow> (httpReq \<Rightarrow> gerror + httpReq) option
    \<Rightarrow> (httpReq \<Rightarrow> 's \<Rightarrow> (gerror + int \<times> string) \<times> 's) \<Rightarrow> 's handler" where
  "ReplayHandler parseURL prep client rec tok s =
     (case rebuild parseURL rec of
        Inl err \<Rightarrow> (FnErr err, s)
      | Inr req0 \<Rightarrow>
         (case (case prep of None \<Rightarrow> Inr req0 | Some f \<Rightarrow> f req0) of
            Inl err \<Rightarrow> (FnErr err, s)
          | Inr req \<Rightarrow>
             (case client req s of
                (Inl err, s1) \<Rightarrow>
                  (case as_circuit err of
                     Some (host, _) \<Rightarrow> if errors_Is err ErrOpen then (FnErr (EBlocked host err True), s1) else (FnErr err, s1)
                   | None \<Rightarrow> (FnErr err, s1))
              | (Inr resp, s1) \<Rightarrow> (case FromHTTP (Some resp) None of None \<Rightarrow> (FnOk, s1) | Some err \<Rightarrow> (FnErr err, s1)))))"

section \<open>Lemmas\<close>

lemma last_header_append: "last_header k (hs @ hs') = (if \<exists>h \<in> set hs'. hKey h = k then last_header k hs' else last_header k hs)"
proof -
  have "foldl (\<lambda>acc h. if hKey h = k then as_string (hValue h) else acc) a hs' =
      (if \<exists>h \<in> set hs'. hKey h = k then last_header k hs' else a)" for a
    unfolding last_header_def by (induction hs' rule: rev_induct) auto
  from this [of "last_header k hs"] show ?thesis by (simp add: last_header_def)
qed

lemma saved_headers_in: "h \<in> set (saved_headers hs) \<Longrightarrow> \<not> skip_header (hKey h) \<and> (\<exists>vs. (hKey h, vs) \<in> set hs \<and> (\<exists>v \<in> set vs. hValue h = Some v))"
  by (auto simp: saved_headers_def split: if_splits)

lemma skip_own: "skip_header deferMethodHeader" "skip_header deferURLHeader"
  unfolding skip_header_def by (code_simp, code_simp)

lemma own_distinct: "deferMethodHeader \<noteq> deferURLHeader"
  by (simp add: deferMethodHeader_def deferURLHeader_def)

lemma last_header_saved:
  "last_header deferMethodHeader ([\<lparr>hKey = deferMethodHeader, hValue = Some m\<rparr>, \<lparr>hKey = deferURLHeader, hValue = Some u\<rparr>] @ saved_headers hs) = m"
  "last_header deferURLHeader ([\<lparr>hKey = deferMethodHeader, hValue = Some m\<rparr>, \<lparr>hKey = deferURLHeader, hValue = Some u\<rparr>] @ saved_headers hs) = u"
proof -
  have "\<not> (\<exists>h \<in> set (saved_headers hs). hKey h = deferMethodHeader)" "\<not> (\<exists>h \<in> set (saved_headers hs). hKey h = deferURLHeader)"
    using saved_headers_in skip_own by metis+
  then show
    "last_header deferMethodHeader ([\<lparr>hKey = deferMethodHeader, hValue = Some m\<rparr>, \<lparr>hKey = deferURLHeader, hValue = Some u\<rparr>] @ saved_headers hs) = m"
    "last_header deferURLHeader ([\<lparr>hKey = deferMethodHeader, hValue = Some m\<rparr>, \<lparr>hKey = deferURLHeader, hValue = Some u\<rparr>] @ saved_headers hs) = u"
    using own_distinct by (simp_all only: last_header_append) (simp_all add: last_header_def as_string_def)
qed

lemma saved_not_own: "\<forall>h \<in> set (saved_headers hs). hKey h \<noteq> deferMethodHeader \<and> hKey h \<noteq> deferURLHeader"
  using saved_headers_in skip_own by metis

text \<open>The values a list of headers gives a name, in order.\<close>

definition values_of :: "string \<Rightarrow> Header list \<Rightarrow> string list" where
  "values_of k hs = map (\<lambda>h. as_string (hValue h)) (filter (\<lambda>h. CanonicalMIMEHeaderKey (hKey h) = k) hs)"

lemma map_of_Header_Add:
  "map_of (Header_Add n v h) k = (if k = CanonicalMIMEHeaderKey n then Some ((case map_of h k of None \<Rightarrow> [] | Some vs \<Rightarrow> vs) @ [v]) else map_of h k)"
  by (simp add: Header_Add_def Let_def update_conv)

lemma map_of_add_saved:
  assumes "\<forall>h \<in> set hs. hKey h \<noteq> deferMethodHeader \<and> hKey h \<noteq> deferURLHeader"
  shows "map_of (add_saved hs []) k = (if values_of k hs = [] then None else Some (values_of k hs))"
  using assms
proof (induction hs rule: rev_induct)
  case (snoc h hs)
  have "add_saved (hs @ [h]) [] = Header_Add (hKey h) (as_string (hValue h)) (add_saved hs [])"
    using snoc.prems by (simp add: add_saved_def)
  then show ?case using snoc by (auto simp: map_of_Header_Add values_of_def)
qed (simp add: add_saved_def values_of_def)

lemma add_saved_own: "add_saved (\<lparr>hKey = deferMethodHeader, hValue = m\<rparr> # \<lparr>hKey = deferURLHeader, hValue = u\<rparr> # hs) h = add_saved hs h"
  by (simp add: add_saved_def)

text \<open>Header maps as \<open>net/http\<close> keeps them: canonical names, each once.\<close>

definition header_ok :: "(string \<times> string list) list \<Rightarrow> bool" where
  "header_ok h \<longleftrightarrow> distinct (map fst h) \<and> (\<forall>(k, vs) \<in> set h. CanonicalMIMEHeaderKey k = k)"

lemma values_of_saved:
  assumes "header_ok h"
  shows "values_of k (saved_headers h) = (if skip_header k then [] else (case map_of h k of None \<Rightarrow> [] | Some vs \<Rightarrow> vs))"
  using assms
proof (induction h)
  case (Cons x h)
  obtain n vs where x: "x = (n, vs)" by (cases x)
  have n: "CanonicalMIMEHeaderKey n = n" and h: "header_ok h" and nn: "n \<notin> fst ` set h" using Cons.prems x by (auto simp: header_ok_def)
  have s: "saved_headers (x # h) = (if skip_header n then [] else map (\<lambda>v. \<lparr>hKey = n, hValue = Some v\<rparr>) vs) @ saved_headers h"
    by (simp add: saved_headers_def x)
  have "map_of h n = None" using nn by (simp add: map_of_eq_None_iff)
  moreover have "values_of k (map (\<lambda>v. \<lparr>hKey = n, hValue = Some v\<rparr>) vs) = (if k = n then vs else [])"
    using n by (auto simp: values_of_def as_string_def comp_def filter_map)
  moreover have "values_of k (xs @ ys) = values_of k xs @ values_of k ys" for xs ys by (simp add: values_of_def)
  moreover have "values_of k [] = []" by (simp add: values_of_def)
  ultimately show ?case using Cons.IH [OF h] by (auto simp: s [unfolded x] x)
qed (simp add: saved_headers_def values_of_def)

section \<open>Header names ignore case\<close>


lemma to_lower_code: "(of_char (to_lower ch) :: nat) = (if 65 \<le> (of_char ch :: nat) \<and> (of_char ch :: nat) \<le> 90 then of_char ch + 32 else of_char ch)"
  by (simp add: to_lower_def Let_def)

lemma to_upper_lower: "to_upper (to_lower ch) = to_upper ch"
  by (auto simp: to_upper_def Let_def to_lower_code) (auto simp: to_lower_def Let_def)

lemma is_token_lower: "is_token (to_lower ch) \<longleftrightarrow> is_token ch"
  unfolding is_token_def Let_def to_lower_code by auto

lemma dash_lower: "to_lower ch = CHR ''-'' \<longleftrightarrow> ch = CHR ''-''"
proof -
  have "(of_char (to_lower ch) :: nat) = 45 \<longleftrightarrow> (of_char ch :: nat) = 45" by (auto simp: to_lower_code)
  moreover have "(of_char c :: nat) = 45 \<longleftrightarrow> c = CHR ''-''" for c
  proof -
    have "(of_char c :: nat) = of_char (CHR ''-'') \<longleftrightarrow> c = CHR ''-''" by (rule of_char_eq_iff)
    then show ?thesis by simp
  qed
  ultimately show ?thesis by simp
qed

lemma case_letters:
  assumes "to_lower c = to_lower c'"
  shows "to_upper c = to_upper c'" "(c = CHR ''-'') = (c' = CHR ''-'')" "is_token c \<longleftrightarrow> is_token c'"
  using assms to_upper_lower dash_lower is_token_lower by metis+

lemma canon_from_cases: "ToLower a = ToLower b \<Longrightarrow> canon_from up a = canon_from up b"
proof (induction up a arbitrary: b rule: canon_from.induct)
  case (2 up c cs)
  obtain c' cs' where b: "b = c' # cs'" using 2(2) by (cases b) (auto simp: ToLower_def)
  have e: "to_lower c = to_lower c'" using 2(2) b by (simp add: ToLower_def)
  have "canon_from (c = CHR ''-'') cs = canon_from (c = CHR ''-'') cs'" using 2(1) 2(2) b by (simp add: ToLower_def)
  then show ?case unfolding b using case_letters [OF e] e by simp
qed (auto simp: ToLower_def)

lemma canon_cases:
  assumes "ToLower a = ToLower b" and "list_all is_token b"
  shows "CanonicalMIMEHeaderKey a = CanonicalMIMEHeaderKey b"
proof -
  have "list_all is_token (ToLower s) \<longleftrightarrow> list_all is_token s" for s by (simp add: ToLower_def list_all_iff is_token_lower)
  from this [of a] this [of b] have "list_all is_token a" using assms by simp
  then show ?thesis using assms canon_from_cases [OF assms(1)] by (simp add: CanonicalMIMEHeaderKey_def)
qed

section \<open>Properties\<close>

definition url_of :: "httpReq \<Rightarrow> url_parts" where
  "url_of req = \<lparr>upScheme = hqScheme req, upHost = hqHost req, upPath = hqPath req, upString = hqURL req, upUser = hqUser req\<rparr>"

definition body_text :: "httpReq \<Rightarrow> string" where
  "body_text req = (case hqBody req of BodyData b \<Rightarrow> b | _ \<Rightarrow> '''')"

lemma read_body_exact:
  assumes "read_body e d req = Some b" and "dfMaxBodyBytes d < 2 ^ 63 - 1"
  shows "as_string b = body_text req"
proof -
  have m: "int64 (maxBody d + 1) = maxBody d + 1" "0 \<le> maxBody d" using assms(2) by (auto simp: maxBody_def defaultDeferBody_def int64_id is_int64_def)
  have "take (nat (maxBody d + 1)) x = x" if "\<not> maxBody d < slen (take (nat (maxBody d + 1)) x)" for x :: string
    using that m(2) by (auto simp: min_def split: if_splits)
  then show ?thesis using assms(1) m
    by (auto simp: read_body_def body_text_def as_string_def Let_def split: req_body.splits if_splits)
qed

text \<open>
  C9: a saved request is rebuilt for its replay as it was: the same method, URL and body, and for every header name the values it had, except that
  the credentials and the library's own headers are left out; the rebuilt request is marked as a replay.
\<close>

theorem deferred_request_rebuilt:
  assumes "df_record e d req host = Some rec" and "same_payload rec rec'" and "dfMaxBodyBytes d < 2 ^ 63 - 1"
    and "hqMethod req \<noteq> ''''" and "list_all is_token (hqMethod req)" and "hqURL req \<noteq> ''''" and "parseURL (hqURL req) = Some (url_of req)"
    and "header_ok (hqHeader req)"
  shows "\<exists>req'. rebuild parseURL rec' = Inr req' \<and> hqMethod req' = hqMethod req \<and> url_of req' = url_of req \<and> body_text req' = body_text req
    \<and> hqReplay req' \<and> can_resend req'
    \<and> (\<forall>k. map_of (hqHeader req') k = (if skip_header k then None else case map_of (hqHeader req) k of Some (v # vs) \<Rightarrow> Some (v # vs) | _ \<Rightarrow> None))"
proof -
  obtain b where b: "read_body e d req = Some b" using assms(1) by (auto simp: df_record_def Let_def split: if_splits option.splits)
  let ?own = "[\<lparr>hKey = deferMethodHeader, hValue = Some (hqMethod req)\<rparr>, \<lparr>hKey = deferURLHeader, hValue = Some (hqURL req)\<rparr>]"
  have rec: "rHeaders rec' = ?own @ saved_headers (hqHeader req)" "sKind (rSource rec') = ''http''" "rValue rec' = b"
    using assms(1,2) b by (auto simp: df_record_def Let_def same_payload_def split: if_splits)
  let ?h = "add_saved (saved_headers (hqHeader req)) []"
  have h: "map_of ?h k = (if skip_header k then None else case map_of (hqHeader req) k of Some (v # vs) \<Rightarrow> Some (v # vs) | _ \<Rightarrow> None)" for k
    unfolding map_of_add_saved [OF saved_not_own] values_of_saved [OF assms(8)] by (simp split: option.splits list.splits)
  let ?req' = "\<lparr>hqMethod = hqMethod req, hqScheme = hqScheme req, hqHost = hqHost req, hqPath = hqPath req, hqURL = hqURL req, hqUser = hqUser req,
           hqHeader = ?h, hqBody = (if as_string b = '''' then BodyNil else BodyData (as_string b)), hqGetBody = (as_string b \<noteq> ''''), hqSkip = False,
           hqUse = None, hqVIP = False, hqReplay = True\<rparr>"
  have "rebuild parseURL rec' = Inr ?req'"
    using assms(4-7) rec last_header_saved
    by (cases b) (simp_all add: rebuild_def Let_def NewRequest_def url_of_def add_saved_own [simplified] as_string_def)
  moreover have "body_text ?req' = body_text req" using read_body_exact [OF b assms(3)] by (simp add: body_text_def)
  ultimately show ?thesis using h by (intro exI [of _ ?req']) (simp add: url_of_def can_resend_def)
qed

definition ex_hreq :: httpReq where
  "ex_hreq = \<lparr>hqMethod = ''POST'', hqScheme = ''https'', hqHost = ''api.example'', hqPath = ''/hook'', hqURL = ''https://api.example/hook'', hqUser = False,
     hqHeader = [(''Authorization'', [''Bearer x'']), (''Idempotency-Key'', [''42'']), (''Accept'', [''a'', ''b''])], hqBody = BodyData ''hi'',
     hqGetBody = True, hqSkip = False, hqUse = None, hqVIP = False, hqReplay = False\<rparr>"

definition ex_defer :: Defer where
  "ex_defer = \<lparr>dfStore = Some 0, dfBound = None, dfBindLater = False, dfIdempotencyHeader = '''', dfOrderKey = None, dfMaxBodyBytes = 9, dfEnabled = True\<rparr>"

definition ex_de :: de_env where "ex_de = \<lparr>deSha = (\<lambda>s. ''0123456789abcdef''), deBodyErr = False\<rparr>"

definition ex_hsaved :: Record where
  "ex_hsaved = zero_record\<lparr>rID := formatUUID (stamp 8 64 128 (stamp 6 16 128 ''0123456789abcdef'')), rSource := zero_source\<lparr>sKind := ''http'', sName := ''api''\<rparr>,
     rValue := Some ''hi'', rHeaders := [\<lparr>hKey = deferMethodHeader, hValue = Some ''POST''\<rparr>, \<lparr>hKey = deferURLHeader, hValue = Some ''https://api.example/hook''\<rparr>,
       \<lparr>hKey = ''Idempotency-Key'', hValue = Some ''42''\<rparr>, \<lparr>hKey = ''Accept'', hValue = Some ''a''\<rparr>, \<lparr>hKey = ''Accept'', hValue = Some ''b''\<rparr>]\<rparr>"

lemma ex_parts:
  "Header_Get (hqHeader ex_hreq) (idemHeader ex_defer) = ''42''" "read_body ex_de ex_defer ex_hreq = Some (Some ''hi'')"
  "saved_headers (hqHeader ex_hreq) = [\<lparr>hKey = ''Idempotency-Key'', hValue = Some ''42''\<rparr>, \<lparr>hKey = ''Accept'', hValue = Some ''a''\<rparr>, \<lparr>hKey = ''Accept'', hValue = Some ''b''\<rparr>]"
  by (code_simp, code_simp, code_simp)

lemma ex_id: "DeterministicID (deSha ex_de) parts = formatUUID (stamp 8 64 128 (stamp 6 16 128 ''0123456789abcdef''))"
  by (simp add: DeterministicID_def ex_de_def)

lemma ex_hsaved: "df_record ex_de ex_defer ex_hreq ''api'' = Some ex_hsaved"
  unfolding df_record_def Let_def ex_parts ex_id by (simp add: ex_hsaved_def) (simp add: ex_hreq_def ex_defer_def zero_record_def)

theorem deferred_request_rebuilt_witness:
  "\<exists>req'. rebuild (\<lambda>_. Some (url_of ex_hreq)) ex_hsaved = Inr req' \<and> body_text req' = ''hi'' \<and> map_of (hqHeader req') ''Authorization'' = None
     \<and> map_of (hqHeader req') ''Accept'' = Some [''a'', ''b'']"
proof -
  have "dfMaxBodyBytes ex_defer < 2 ^ 63 - 1" "header_ok (hqHeader ex_hreq)" "list_all is_token (hqMethod ex_hreq)" "hqMethod ex_hreq \<noteq> ''''"
    "hqURL ex_hreq \<noteq> ''''" by (simp add: ex_defer_def, code_simp, code_simp, code_simp, code_simp)
  moreover have "skip_header ''Authorization''" "\<not> skip_header ''Accept''" by (code_simp, code_simp)
  ultimately show ?thesis
    using deferred_request_rebuilt [OF ex_hsaved same_payload_refl, of "\<lambda>_. Some (url_of ex_hreq)"] by (force simp: ex_hreq_def body_text_def)
qed

text \<open>
  C10: credentials are never stored: no saved header has the name of one, in any spelling, and a request whose URL carries a password is not saved.
\<close>

theorem credentials_never_stored:
  assumes "df_record e d req host = Some rec"
  shows "\<not> hqUser req \<and> (\<forall>h \<in> set (rHeaders rec). ToLower (hKey h) \<notin> ToLower ` set defaultSensitiveHeaders)"
proof -
  have t: "\<forall>s \<in> set defaultSensitiveHeaders. list_all is_token s" by code_simp
  have own: "\<not> IsSensitiveHeader deferMethodHeader" "\<not> IsSensitiveHeader deferURLHeader" by (code_simp, code_simp)
  have "\<not> IsSensitiveHeader (hKey h)" if "h \<in> set (rHeaders rec)" for h
  proof -
    have "h \<in> {\<lparr>hKey = deferMethodHeader, hValue = Some (hqMethod req)\<rparr>, \<lparr>hKey = deferURLHeader, hValue = Some (hqURL req)\<rparr>} \<union> set (saved_headers (hqHeader req))"
      using assms that by (auto simp: df_record_def Let_def split: if_splits option.splits)
    then show ?thesis using own saved_headers_in by (auto simp: skip_header_def)
  qed
  moreover have "IsSensitiveHeader n" if nm: "ToLower n \<in> ToLower ` set defaultSensitiveHeaders" for n
  proof -
    obtain s where s: "s \<in> set defaultSensitiveHeaders" "ToLower n = ToLower s" using nm by blast
    then have "CanonicalMIMEHeaderKey n = CanonicalMIMEHeaderKey s" using t by (intro canon_cases) blast+
    then show ?thesis using s(1) by (simp only: IsSensitiveHeader_def set_map) blast
  qed
  moreover have "\<not> hqUser req" using assms by (auto simp: df_record_def Let_def split: if_splits)
  ultimately show ?thesis by blast
qed

theorem credentials_never_stored_witness: "''authorization'' \<notin> set (map (\<lambda>h. ToLower (hKey h)) (rHeaders ex_hsaved))"
proof -
  have "ToLower ''Authorization'' = ''authorization''" "''Authorization'' \<in> set defaultSensitiveHeaders" by (code_simp, code_simp)
  then have "''authorization'' \<in> ToLower ` set defaultSensitiveHeaders" by (metis imageI)
  then show ?thesis using credentials_never_stored [OF ex_hsaved] by auto
qed

text \<open>The stores of a process as memory stores.\<close>

definition mem_append :: "call_env \<Rightarrow> nat \<Rightarrow> Record \<Rightarrow> (nat \<Rightarrow> MemoryStore) \<Rightarrow> goerr \<times> (nat \<Rightarrow> MemoryStore)" where
  "mem_append e n rec s = (case ms_Append e rec (s n) of (r, m) \<Rightarrow> (r, s(n := m)))"

text \<open>
  With memory stores, a caller is told that its request was saved only if it is in the store of the endpoint, under the identifier it is given and
  blocked on the circuit; if it is told nothing of the kind, no store has changed its content.  A replay is never saved again.
\<close>

lemma tryDefer_mem:
  assumes "\<forall>n. ms_ok (s n)" and "tryDefer e (mem_append ce) name pol req cause s = (res, s')"
  shows "(\<forall>n. ms_ok (s' n)) \<and> (hqReplay req \<longrightarrow> res = None)
    \<and> (case res of
         None \<Rightarrow> \<forall>n. ms_content (s' n) = ms_content (s n)
       | Some err \<Rightarrow> (\<exists>d n rec. gpDefer pol = Some d \<and> df_store d = Some n \<and> df_record e d req name = Some rec \<and> err = EDeferred (rID rec) cause
           \<and> errors_Is err ErrDeferred \<and> (\<forall>m. m \<noteq> n \<longrightarrow> s' m = s m)
           \<and> (case ms_content (s n) (rID rec) of
                Some old \<Rightarrow> ms_content (s' n) = ms_content (s n)
              | None \<Rightarrow> \<exists>rec'. same_payload rec rec' \<and> rBlockedOn rec' = name \<and> ms_content (s' n) = (ms_content (s n))(rID rec \<mapsto> rec'))))"
proof (cases "\<exists>d rec n. gpDefer pol = Some d \<and> \<not> gpDryRun pol \<and> dfEnabled d \<and> \<not> hqReplay req \<and> df_record e d req name = Some rec \<and> df_store d = Some n")
  case False
  then have "res = None \<and> s' = s" using assms(2) by (auto simp: tryDefer_def Let_def split: option.splits if_splits)
  then show ?thesis using assms(1) by simp
next
  case True
  then obtain d rec n where c: "gpDefer pol = Some d" "\<not> gpDryRun pol" "dfEnabled d" "\<not> hqReplay req" "df_record e d req name = Some rec" "df_store d = Some n"
    by blast
  let ?rec = "rec\<lparr>rBlockedOn := name\<rparr>"
  obtain r m where a: "ms_Append ce ?rec (s n) = (r, m)" by fastforce
  have s': "s' = s(n := m)" and res: "res = (case r of None \<Rightarrow> Some (EDeferred (rID rec) cause) | Some _ \<Rightarrow> None)"
    using assms(2) c a by (auto simp: tryDefer_def Let_def mem_append_def split: option.splits)
  have ok: "ms_ok (s n)" and ok': "ms_ok m" using assms(1) mem.append_inv [OF _ a] by auto
  show ?thesis
  proof (cases r)
    case None
    show ?thesis
    proof (cases "ms_content (s n) (rID rec)")
      case N: None
      then obtain rec' where "stored_as ?rec rec'" "ms_content m = (ms_content (s n))(rID rec \<mapsto> rec')"
        using mem.append_new [OF ok a [unfolded None]] by auto
      then show ?thesis using None N c assms(1) ok' s' res by (auto simp: stored_as_def same_payload_def intro!: exI [of _ rec'])
    next
      case (Some old)
      then show ?thesis using None c assms(1) ok' s' res mem.append_known [OF ok a [unfolded None]] by auto
    qed
  next
    case (Some err)
    then show ?thesis using c assms(1) ok' s' res mem.append_error [OF ok a [unfolded Some]] by auto
  qed
qed

text \<open>
  What a replay reports: a record that was not saved by \<open>Defer\<close> is permanent (it is parked); while the circuit is open the record waits without
  spending an attempt; an answer below 400 finishes it; timeouts, overload and server errors can be tried again; every other answer is permanent.
\<close>

theorem replay_outcomes:
  shows "(sKind (rSource rec) \<noteq> ''http'' \<or> last_header deferMethodHeader (rHeaders rec) = '''' \<or> last_header deferURLHeader (rHeaders rec) = '''' \<longrightarrow>
      (\<exists>err. ReplayHandler parseURL prep client rec tok s = (FnErr err, s) \<and> IsPermanent (Some err)))
    \<and> (\<forall>req. rebuild parseURL rec = Inr req \<and> prep = None \<longrightarrow>
        (case client req s of
           (Inl err, s1) \<Rightarrow> (case as_circuit err of
               Some (host, _) \<Rightarrow> errors_Is err ErrOpen \<longrightarrow> ReplayHandler parseURL prep client rec tok s = (FnErr (EBlocked host err True), s1)
             | None \<Rightarrow> ReplayHandler parseURL prep client rec tok s = (FnErr err, s1))
         | (Inr (code, host), s1) \<Rightarrow>
             if code < 400 then ReplayHandler parseURL prep client rec tok s = (FnOk, s1)
             else \<exists>err. ReplayHandler parseURL prep client rec tok s = (FnErr err, s1)
               \<and> (IsPermanent (Some err) \<longleftrightarrow> code < 500 \<and> code \<notin> {408, 425, 429})))"
  by (auto simp: ReplayHandler_def rebuild_def Let_def IsPermanent_def FromHTTP_def Permanent_def split: option.splits sum.splits prod.splits if_splits)

theorem replay_outcomes_witness:
  "\<exists>err. ReplayHandler (\<lambda>_. None) None (\<lambda>r s. (Inr (200, ''h''), s)) zero_record ''t'' () = (FnErr err, ()) \<and> IsPermanent (Some err)"
  using replay_outcomes [of zero_record "\<lambda>_. None" None "\<lambda>r s. (Inr (200, ''h''), s)" "''t''" "()"]
  by (simp add: zero_record_def zero_source_def)

text \<open>
  With \<open>MaxBodyBytes\<close> set to the largest \<open>int\<close> (\<open>no limit\<close>), the limit of the reader wraps around and a request is saved, and reported
  as saved, without its body.
\<close>

theorem unlimited_body_saved_empty:
  "df_record ex_de (ex_defer\<lparr>dfMaxBodyBytes := 2 ^ 63 - 1\<rparr>) ex_hreq ''api'' = Some (ex_hsaved\<lparr>rValue := Some ''''\<rparr>)"
proof -
  let ?d = "ex_defer\<lparr>dfMaxBodyBytes := 2 ^ 63 - 1\<rparr>"
  have p: "Header_Get (hqHeader ex_hreq) (idemHeader ?d) = ''42''" "read_body ex_de ?d ex_hreq = Some (Some '''')" by (code_simp, code_simp)
  show ?thesis unfolding df_record_def Let_def p ex_parts(3) ex_id by (simp add: ex_hsaved_def) (simp add: ex_hreq_def ex_defer_def zero_record_def)
qed

text \<open>
  A request without a method, which \<open>net/http\<close> takes as a \<open>GET\<close>, is saved, but its replay is refused as not saved by \<open>Defer\<close>.
\<close>

theorem empty_method_never_replayed:
  assumes "df_record e d req host = Some rec" and "hqMethod req = ''''"
  shows "\<exists>err. ReplayHandler parseURL prep client rec tok s = (FnErr (EPermanent err), s)"
proof -
  have "last_header deferMethodHeader (rHeaders rec) = ''''"
    using assms last_header_saved(1) [of "''''" "hqURL req" "hqHeader req"] by (auto simp: df_record_def Let_def split: if_splits option.splits)
  then show ?thesis by (simp add: ReplayHandler_def rebuild_def Let_def)
qed

theorem empty_method_never_replayed_witness:
  "\<exists>rec. df_record ex_de ex_defer (ex_hreq\<lparr>hqMethod := ''''\<rparr>) ''api'' = Some rec
     \<and> (\<exists>err. ReplayHandler (\<lambda>_. None) None (\<lambda>r s. (Inr (200, ''h''), s)) rec ''t'' () = (FnErr (EPermanent err), ()))"
proof -
  have "Header_Get (hqHeader (ex_hreq\<lparr>hqMethod := ''''\<rparr>)) (idemHeader ex_defer) = ''42''"
    "read_body ex_de ex_defer (ex_hreq\<lparr>hqMethod := ''''\<rparr>) = Some (Some ''hi'')" "\<not> hqUser ex_hreq" by (code_simp, code_simp, code_simp)
  then have "df_record ex_de ex_defer (ex_hreq\<lparr>hqMethod := ''''\<rparr>) ''api'' \<noteq> None" by (simp add: df_record_def Let_def)
  then obtain rec where r: "df_record ex_de ex_defer (ex_hreq\<lparr>hqMethod := ''''\<rparr>) ''api'' = Some rec" by blast
  show ?thesis using empty_method_never_replayed [OF r] r by auto
qed

end
