(* ===== verification/GG_Transport.thy ===== *)
theory GG_Transport
  imports GG_Defer
begin

text \<open>
  The guarded round trip (\<open>goguard.go\<close>) and the client built on it (\<open>client.go\<close>): which endpoint protects a request, the loop of attempts under one
  permit of its circuit, retries, and what is done with a request that could not be sent.  What the underlying transport, the clock and other
  goroutines do in an attempt is its environment; what the code does to the outside is the list \<open>gwTrace\<close>.
\<close>

section \<open>Choosing the endpoint\<close>

definition resolve :: "transport \<Rightarrow> httpReq \<Rightarrow> gerror + endpoint option" where
  "resolve t req =
     (if hqSkip req then Inr None
      else case hqUse req of
        Some name \<Rightarrow> (case map_of (rtByName t) name of
            Some ep \<Rightarrow> Inr (Some ep)
          | None \<Rightarrow> Inl (EWrap name [EVar ErrUnknownEndpoint]))
      | None \<Rightarrow> (case find (\<lambda>ep. enMatch ep req) (rtEndpoints t) of
            Some ep \<Rightarrow> Inr (Some ep)
          | None \<Rightarrow> Inr (rtGuardAll t)))"

section \<open>One attempt\<close>

text \<open>
  A round trip of the underlying transport gives a response or an error (not both, as \<open>http.RoundTripper\<close> asks), or panics.
\<close>

datatype rt_outcome = RtResp httpResp | RtErr gerror | RtPanic

datatype rt_event = EvSend httpReq | EvResp | EvCloseResp | EvCloseReqBody | EvRetried int duration

text \<open>
  \<open>atCtxErr\<close>: the caller's context has ended when the outcome is looked at; \<open>atWaitEnds\<close>: it ends before the backoff does; \<open>atGetBody\<close>: \<open>GetBody\<close>
  succeeds; \<open>atMeanwhile\<close>: what other goroutines do to the circuits during the attempt.
\<close>

record attempt_env =
  atOutcome :: rt_outcome
  atLatency :: duration
  atCtxErr :: bool
  atNow :: int
  atNow2 :: int
  atNowR :: int
  atTime :: time
  atWaitEnds :: bool
  atGetBody :: bool
  atMeanwhile :: "transport \<Rightarrow> transport"

record 's gworld =
  gwT :: transport
  gwS :: 's
  gwTrace :: "rt_event list"

record 's guard_env =
  guGet :: ge_env
  guAllow :: allow_env
  guTry :: "nat \<Rightarrow> attempt_env"
  guParseTime :: "string \<Rightarrow> time option"
  guDe :: de_env
  guAppend :: "nat \<Rightarrow> Record \<Rightarrow> 's \<Rightarrow> goerr \<times> 's"

definition set_br :: "nat \<Rightarrow> (PBreaker \<Rightarrow> PBreaker) \<Rightarrow> transport \<Rightarrow> transport" where
  "set_br p f t = upd_entry p (\<lambda>e. e\<lparr>ceBreaker := f (ceBreaker e)\<rparr>) t"

abbreviation br_at :: "transport \<Rightarrow> nat \<Rightarrow> PBreaker" where
  "br_at t p \<equiv> ceBreaker (rtHeap t p)"

abbreviation pst :: "PBreaker \<Rightarrow> BreakerState" where "pst b \<equiv> bState (pIn b)"

definition gw_emit :: "rt_event list \<Rightarrow> 's gworld \<Rightarrow> 's gworld" where
  "gw_emit evs w = w\<lparr>gwTrace := gwTrace w @ evs\<rparr>"

definition closeResponse :: "rt_outcome \<Rightarrow> 's gworld \<Rightarrow> 's gworld" where
  "closeResponse r w = (case r of RtResp _ \<Rightarrow> gw_emit [EvCloseResp] w | _ \<Rightarrow> w)"

definition closeRequestBody :: "httpReq \<Rightarrow> 's gworld \<Rightarrow> 's gworld" where
  "closeRequestBody req w = (if hqBody req \<noteq> BodyNil then gw_emit [EvCloseReqBody] w else w)"

definition out_resp :: "rt_outcome \<Rightarrow> httpResp option" where
  "out_resp r = (case r of RtResp x \<Rightarrow> Some x | _ \<Rightarrow> None)"

definition out_err :: "rt_outcome \<Rightarrow> goerr" where
  "out_err r = (case r of RtErr e \<Rightarrow> Some e | _ \<Rightarrow> None)"

definition is_fail :: "GPolicy \<Rightarrow> duration \<Rightarrow> duration \<Rightarrow> rt_outcome \<Rightarrow> bool" where
  "is_fail pol avg lat r \<longleftrightarrow>
     (case gpIsFailure pol of Some f \<Rightarrow> f (out_resp r) (out_err r) | None \<Rightarrow> defaultIsFailure (out_resp r) (out_err r))
     \<or> 0 < gpMaxLatency pol \<and> gpMaxLatency pol < lat
     \<or> 0 < gpOutlierFactor pol \<and> 0 < avg \<and> of_int avg * gpOutlierFactor pol < (of_int lat :: rat)"

datatype attemptResult = ArRetry | ArAbandoned gerror | ArFailed rt_outcome | ArOk rt_outcome duration | ArPanic

definition cancelled :: "attempt_env \<Rightarrow> rt_outcome \<Rightarrow> goerr" where
  "cancelled a r = (case out_err r of Some e \<Rightarrow> if errors_Is e Canceled \<and> atCtxErr a then Some e else None | None \<Rightarrow> None)"

text \<open>
  The end of a failed attempt that may be repeated; a request that is sent again has a new copy of the same body.
\<close>

definition again :: "'s guard_env \<Rightarrow> GPolicy \<Rightarrow> nat \<Rightarrow> httpReq \<Rightarrow> int \<Rightarrow> attempt_env \<Rightarrow> 's gworld \<Rightarrow> attemptResult \<times> int \<times> 's gworld" where
  "again g pol p req n a w =
     (let r = atOutcome a;
          b0 = (case gpRetryBackoff pol of None \<Rightarrow> 0 | Some f \<Rightarrow> f n);
          ra = retryAfter (guParseTime g) (out_resp r) (atTime a);
          backoff = (if b0 < ra then ra else b0);
          w2 = gw_emit [EvRetried n backoff] (w\<lparr>gwT := set_br p (\<lambda>b. b\<lparr>pIn := br_RecordRetry (atNow a) (pIn b)\<rparr>) (gwT w)\<rparr>)
      in if 0 < backoff \<and> atWaitEnds a then (ArFailed r, n, w2)
         else if (if hqGetBody req then atGetBody a else hqBody req = BodyNil) then (ArRetry, n, closeResponse r w2)
         else (ArFailed r, n, w2))"

text \<open>The body of the loop: the result and the number of retries so far.\<close>

definition one_attempt :: "'s guard_env \<Rightarrow> GPolicy \<Rightarrow> nat \<Rightarrow> httpReq \<Rightarrow> int \<Rightarrow> 's gworld \<Rightarrow> attemptResult \<times> int \<times> 's gworld" where
  "one_attempt g pol p req attempts w0 =
     (let a = guTry g (nat attempts);
          r = atOutcome a;
          w1 = gw_emit (EvSend req # (case r of RtResp _ \<Rightarrow> [EvResp] | _ \<Rightarrow> [])) w0;
          w = w1\<lparr>gwT := atMeanwhile a (gwT w1)\<rparr>;
          br = br_at (gwT w) p
      in if r = RtPanic then (ArPanic, attempts, w)
         else case cancelled a r of
           Some e \<Rightarrow> (ArAbandoned e, attempts, w)
         | None \<Rightarrow>
             if \<not> is_fail pol (AvgLatency (pIn br)) (atLatency a) r then (ArOk r (atLatency a), attempts, w)
             else if attempts < gpMaxRetries pol \<and> isRetryable req (out_err r) (out_resp r) \<and> CanRetry (pIn br)
             then again g pol p req (attempts + 1) a w
             else (ArFailed r, attempts, w))"

lemma again_result:
  "again g pol p req n a w = (r, k, w') \<Longrightarrow> k = n \<and> (r = ArRetry \<and> (hqGetBody req \<or> hqBody req = BodyNil) \<or> r = ArFailed (atOutcome a))"
  by (auto simp: again_def Let_def split: if_splits)

lemma one_attempt_retry:
  assumes "one_attempt g pol p req n w = (ArRetry, k, w')"
  shows "k = n + 1 \<and> n < gpMaxRetries pol \<and> hqMethod req \<in> {''GET'', ''HEAD'', ''OPTIONS'', ''TRACE''} \<and> can_resend req"
  using assms by (auto simp: one_attempt_def Let_def split: if_splits option.splits dest!: again_result dest: isRetryable_safe)

section \<open>The loop\<close>

text \<open>The result, the index of the last attempt and the world; a retry count is bounded by \<open>MaxRetries\<close>, so the loop ends.\<close>

function attempt_loop :: "'s guard_env \<Rightarrow> GPolicy \<Rightarrow> nat \<Rightarrow> httpReq \<Rightarrow> int \<Rightarrow> 's gworld \<Rightarrow> attemptResult \<times> int \<times> 's gworld" where
  "attempt_loop g pol p req n w =
     (case one_attempt g pol p req n w of
        (out, k, w') \<Rightarrow> if out = ArRetry then attempt_loop g pol p req k w' else (out, n, w'))"
  by pat_completeness auto
termination
  by (relation "measure (\<lambda>(g, pol, p, req, n, w). nat (gpMaxRetries pol - n))") (auto dest: one_attempt_retry [OF sym])

declare attempt_loop.simps [simp del]

datatype rt_result = RtReturns httpResp | RtFails gerror | RtPanics

definition give :: "rt_outcome \<Rightarrow> rt_result" where
  "give r = (case r of RtResp x \<Rightarrow> RtReturns x | RtErr e \<Rightarrow> RtFails e | RtPanic \<Rightarrow> RtPanics)"

definition cause_of :: "rt_outcome \<Rightarrow> gerror" where
  "cause_of r = (case r of RtErr e \<Rightarrow> e | RtResp x \<Rightarrow> EText (''status '' @ FormatInt (hrStatus x)) | RtPanic \<Rightarrow> EText [])"

text \<open>What \<open>guarded\<close> does after the loop; a panic is passed on by the deferred function.\<close>

definition conclude :: "'s guard_env \<Rightarrow> GPolicy \<Rightarrow> nat \<Rightarrow> httpReq \<Rightarrow> Permit \<Rightarrow> attempt_env \<Rightarrow> attemptResult \<Rightarrow> 's gworld \<Rightarrow> rt_result \<times> 's gworld" where
  "conclude g pol p req pm a out w =
     (let name = ceName (rtHeap (gwT w) p);
          failure = w\<lparr>gwT := set_br p (\<lambda>b. snd (Permit_Failure (atNow a) (atNow2 a) (atNowR a) pm b)) (gwT w)\<rparr>
      in case out of
           ArRetry \<Rightarrow> (RtPanics, w)
         | ArPanic \<Rightarrow> (RtPanics, failure)
         | ArAbandoned e \<Rightarrow>
             (let w1 = w\<lparr>gwT := set_br p (\<lambda>b. snd (Permit_Abandon pm b)) (gwT w)\<rparr>
              in (RtFails (ECircuit name (pst (br_at (gwT w1) p)) e False), w1))
         | ArOk r lat \<Rightarrow>
             (give r, w\<lparr>gwT := set_br p (\<lambda>b. snd (Permit_Success (atNow a) (atNowR a) lat pm b)) (gwT w)\<rparr>)
         | ArFailed r \<Rightarrow>
             (case tryDefer (guDe g) (guAppend g) name pol req (cause_of r) (gwS failure) of
                (Some de, s) \<Rightarrow> (RtFails de, closeResponse r (failure\<lparr>gwS := s\<rparr>))
              | (None, s) \<Rightarrow>
                 (case out_err r of
                    Some e \<Rightarrow> (RtFails (ECircuit name (pst (br_at (gwT failure) p)) e (isRetryable req (out_err r) (out_resp r))), failure\<lparr>gwS := s\<rparr>)
                  | None \<Rightarrow> (give r, failure\<lparr>gwS := s\<rparr>))))"

definition rt_refused :: "'s guard_env \<Rightarrow> GPolicy \<Rightarrow> nat \<Rightarrow> httpReq \<Rightarrow> gerror \<Rightarrow> 's gworld \<Rightarrow> rt_result \<times> 's gworld" where
  "rt_refused g pol p req err w =
     (let name = ceName (rtHeap (gwT w) p);
          st = pst (br_at (gwT w) p);
          cerr = (if errors_Is err ErrBulkhead then ECircuit name st (EVar ErrBulkhead) True else ECircuit name st (EVar ErrOpen) False)
      in case tryDefer (guDe g) (guAppend g) name pol req cerr (gwS w) of
           (de, s) \<Rightarrow> (RtFails (case de of Some e \<Rightarrow> e | None \<Rightarrow> cerr), closeRequestBody req (w\<lparr>gwS := s\<rparr>)))"

definition rt_guarded :: "'s guard_env \<Rightarrow> endpoint \<Rightarrow> httpReq \<Rightarrow> 's gworld \<Rightarrow> rt_result \<times> 's gworld" where
  "rt_guarded g ep req w0 =
     (case getEntry (guGet g) ep (hqScheme req) (hqHost req) (gwT w0) of
        (p, t1) \<Rightarrow>
          (case Acquire (guAllow g) (hqVIP req) (br_at t1 p) of
             (acq, b) \<Rightarrow>
               (let w = w0\<lparr>gwT := set_br p (\<lambda>_. b) t1\<rparr> in
                case acq of
                  Inl err \<Rightarrow> rt_refused g (enPolicy ep) p req err w
                | Inr pm \<Rightarrow>
                    (case attempt_loop g (enPolicy ep) p req 0 w of
                       (out, k, w1) \<Rightarrow> conclude g (enPolicy ep) p req pm (guTry g (nat k)) out w1))))"

definition passthrough :: "'s guard_env \<Rightarrow> httpReq \<Rightarrow> 's gworld \<Rightarrow> rt_result \<times> 's gworld" where
  "passthrough g req w =
     (let r = atOutcome (guTry g 0) in
      (give r, gw_emit (EvSend req # (case r of RtResp _ \<Rightarrow> [EvResp] | _ \<Rightarrow> [])) (w\<lparr>gwT := (gwT w)\<lparr>rtPassthru := rtPassthru (gwT w) + 1\<rparr>\<rparr>)))"

definition RoundTrip :: "'s guard_env \<Rightarrow> httpReq \<Rightarrow> 's gworld \<Rightarrow> rt_result \<times> 's gworld" where
  "RoundTrip g req w =
     (if rtClosed (gwT w) then (RtFails (EVar Canceled), closeRequestBody req w)
      else case resolve (gwT w) req of
        Inl err \<Rightarrow> (RtFails err, closeRequestBody req w)
      | Inr None \<Rightarrow> passthrough g req w
      | Inr (Some ep) \<Rightarrow> rt_guarded g ep req w)"

section \<open>The client\<close>

definition bindDefer :: "nat \<Rightarrow> GPolicy \<Rightarrow> GPolicy" where
  "bindDefer store p = p\<lparr>gpDefer := map_option (\<lambda>d. if dfStore d = None \<and> dfBindLater d then d\<lparr>dfBound := Some store\<rparr> else d) (gpDefer p)\<rparr>"

definition bind_endpoint :: "nat \<Rightarrow> endpoint \<Rightarrow> endpoint" where
  "bind_endpoint store ep = ep\<lparr>enPolicy := bindDefer store (enPolicy ep)\<rparr>"

text \<open>An endpoint and its name in the map share one \<open>Defer\<close>.\<close>

definition bindStore :: "nat \<Rightarrow> transport \<Rightarrow> transport" where
  "bindStore store t = t\<lparr>rtEndpoints := map (bind_endpoint store) (rtEndpoints t), rtGuardAll := map_option (bind_endpoint store) (rtGuardAll t),
     rtByName := map (\<lambda>(n, ep). (n, bind_endpoint store ep)) (rtByName t)\<rparr>"

definition bindLater :: "GPolicy \<Rightarrow> GPolicy" where
  "bindLater p = p\<lparr>gpDefer := map_option (\<lambda>d. if dfStore d = None then d\<lparr>dfBindLater := True\<rparr> else d) (gpDefer p)\<rparr>"

definition NewClientWithConfig :: "GConfig \<Rightarrow> (GConfig \<Rightarrow> GConfig) list \<Rightarrow> gerror + transport" where
  "NewClientWithConfig cfg0 opts =
     (let cfg = fold (\<lambda>f. f) opts cfg0 in
      rt_New (cfg\<lparr>gcEndpoints := map (\<lambda>e. e\<lparr>edPolicy := bindLater (edPolicy e)\<rparr>) (gcEndpoints cfg), gcGuardAll := map_option bindLater (gcGuardAll cfg)\<rparr>) [])"

definition zero_gconfig :: GConfig where
  "zero_gconfig = \<lparr>gcEndpoints = [], gcGuardAll = None, gcMaxBreakers = 0, gcMaxIdleTime = 0, gcShardCount = 0\<rparr>"

definition NewClient :: "GPolicy \<Rightarrow> (GConfig \<Rightarrow> GConfig) list \<Rightarrow> gerror + transport" where
  "NewClient p opts = NewClientWithConfig zero_gconfig (opt_GuardAll p [] # opts)"

section \<open>Lemmas\<close>

abbreviation inflight_at :: "transport \<Rightarrow> nat \<Rightarrow> int" where
  "inflight_at t p \<equiv> inflight (pIn (br_at t p))"

lemma set_br_at [simp]: "br_at (set_br p f t) p = f (br_at t p)" "ceName (rtHeap (set_br p f t) q) = ceName (rtHeap t q)"
  by (simp_all add: set_br_def upd_entry_def)

lemma gw_emit_sel [simp]: "gwT (gw_emit evs w) = gwT w" "gwS (gw_emit evs w) = gwS w" "gwTrace (gw_emit evs w) = gwTrace w @ evs"
  by (simp_all add: gw_emit_def)

lemma close_sel [simp]:
  "gwT (closeResponse r w) = gwT w" "gwS (closeResponse r w) = gwS w" "gwT (closeRequestBody req w) = gwT w" "gwS (closeRequestBody req w) = gwS w"
  "gwTrace (closeResponse r w) = gwTrace w @ (case r of RtResp _ \<Rightarrow> [EvCloseResp] | _ \<Rightarrow> [])"
  "gwTrace (closeRequestBody req w) = gwTrace w @ (if hqBody req \<noteq> BodyNil then [EvCloseReqBody] else [])"
  by (auto simp: closeResponse_def closeRequestBody_def split: rt_outcome.splits)

text \<open>The parts of the loop under one step: an invariant of the transport that other goroutines and a recorded retry keep is kept by the loop.\<close>

lemma one_attempt_inv:
  assumes "one_attempt g pol p req n w = (r, k, w')" and "P (gwT w)" and "\<And>t. P t \<Longrightarrow> P (atMeanwhile (guTry g (nat n)) t)"
    and "\<And>now t. P t \<Longrightarrow> P (set_br p (\<lambda>b. b\<lparr>pIn := br_RecordRetry now (pIn b)\<rparr>) t)"
  shows "P (gwT w') \<and> gwS w' = gwS w"
  using assms by (auto simp: one_attempt_def again_def Let_def split: if_splits option.splits)

lemma attempt_loop_induct [case_names step]:
  assumes "\<And>n w. (\<And>k w'. one_attempt g pol p req n w = (ArRetry, k, w') \<Longrightarrow> P k w') \<Longrightarrow> P n w"
  shows "P n w"
proof (induction "nat (gpMaxRetries pol - n)" arbitrary: n w rule: less_induct)
  case less
  show ?case by (rule assms, rule less) (auto dest: one_attempt_retry)
qed

lemma attempt_loop_cases:
  assumes "attempt_loop g pol p req n w = (r, k, w')"
  obtains (retry) w1 where "one_attempt g pol p req n w = (ArRetry, n + 1, w1)" "attempt_loop g pol p req (n + 1) w1 = (r, k, w')"
  | (last) k1 where "one_attempt g pol p req n w = (r, k1, w')" "r \<noteq> ArRetry" "k = n"
proof -
  obtain r1 k1 w1 where o: "one_attempt g pol p req n w = (r1, k1, w1)" by (metis prod_cases3)
  show thesis
  proof (cases "r1 = ArRetry")
    case True
    then have "k1 = n + 1" using one_attempt_retry o by blast
    have "attempt_loop g pol p req n w = attempt_loop g pol p req k1 w1" unfolding attempt_loop.simps [of g pol p req n w] o using True by simp
    then show thesis using o True assms \<open>k1 = n + 1\<close> by (intro retry) simp_all
  next
    case False
    have "attempt_loop g pol p req n w = (r1, n, w1)" unfolding attempt_loop.simps [of g pol p req n w] o using False by simp
    then have "r1 = r" "k = n" "w1 = w'" using assms by simp_all
    then show thesis using o False by (intro last) simp_all
  qed
qed

lemma attempt_loop_inv:
  assumes "attempt_loop g pol p req n w = (r, k, w')" and "P (gwT w)" and "\<And>m t. P t \<Longrightarrow> P (atMeanwhile (guTry g m) t)"
    and "\<And>now t. P t \<Longrightarrow> P (set_br p (\<lambda>b. b\<lparr>pIn := br_RecordRetry now (pIn b)\<rparr>) t)"
  shows "P (gwT w') \<and> gwS w' = gwS w"
  using assms(1,2)
proof (induction n w rule: attempt_loop_induct [of g pol p req])
  case (step n w)
  from step.prems(1) show ?case
  proof (cases rule: attempt_loop_cases)
    case (retry w1)
    then have w1: "P (gwT w1) \<and> gwS w1 = gwS w" using one_attempt_inv [of g pol p req n w ArRetry "n + 1" w1 P] step.prems(2) assms(3,4) by blast
    then show ?thesis using step.IH [OF retry(1) retry(2)] by simp
  next
    case (last k1)
    then show ?thesis using one_attempt_inv [of g pol p req n w r k1 w' P] step.prems(2) assms(3,4) by blast
  qed
qed

text \<open>Every event of the loop: the sends are all of the same request, one more than there were retries, and at most one response is left open.\<close>

definition sends :: "rt_event list \<Rightarrow> nat" where "sends evs = length (filter (\<lambda>e. \<exists>r. e = EvSend r) evs)"
definition got :: "rt_event list \<Rightarrow> nat" where "got evs = count_list evs EvResp"
definition shut :: "rt_event list \<Rightarrow> nat" where "shut evs = count_list evs EvCloseResp"

lemmas trace_defs = sends_def got_def shut_def

definition left_open :: "attemptResult \<Rightarrow> nat" where
  "left_open r = (case r of ArFailed (RtResp _) \<Rightarrow> 1 | ArOk (RtResp _) _ \<Rightarrow> 1 | _ \<Rightarrow> 0)"

lemma one_attempt_trace:
  assumes "one_attempt g pol p req n w = (r, k, w')"
  shows "\<exists>evs. gwTrace w' = gwTrace w @ evs \<and> sends evs = 1 \<and> (\<forall>x. EvSend x \<in> set evs \<longrightarrow> x = req) \<and> got evs = shut evs + left_open r
    \<and> EvCloseReqBody \<notin> set evs"
  using assms
  by (cases "atOutcome (guTry g (nat n))")
    (auto simp: one_attempt_def again_def Let_def trace_defs left_open_def cancelled_def out_err_def split: if_splits option.splits)

lemma attempt_loop_trace:
  assumes "attempt_loop g pol p req n w = (r, k, w')"
  shows "n \<le> k \<and> k \<le> max n (gpMaxRetries pol) \<and> (n < k \<longrightarrow> hqMethod req \<in> {''GET'', ''HEAD'', ''OPTIONS'', ''TRACE''} \<and> can_resend req)
    \<and> r \<noteq> ArRetry
    \<and> (\<exists>evs. gwTrace w' = gwTrace w @ evs \<and> int (sends evs) = k - n + 1 \<and> (\<forall>x. EvSend x \<in> set evs \<longrightarrow> x = req) \<and> got evs = shut evs + left_open r
      \<and> EvCloseReqBody \<notin> set evs)"
  using assms
proof (induction n w rule: attempt_loop_induct [of g pol p req])
  case (step n w)
  from step.prems(1) show ?case
  proof (cases rule: attempt_loop_cases)
    case (retry w1)
    obtain evs where e: "gwTrace w1 = gwTrace w @ evs" "sends evs = 1" "\<forall>x. EvSend x \<in> set evs \<longrightarrow> x = req" "got evs = shut evs" "EvCloseReqBody \<notin> set evs"
      using one_attempt_trace [OF retry(1)] by (auto simp: left_open_def)
    obtain evs' where e': "gwTrace w' = gwTrace w1 @ evs'" "int (sends evs') = k - (n + 1) + 1" "\<forall>x. EvSend x \<in> set evs' \<longrightarrow> x = req"
      "got evs' = shut evs' + left_open r" "EvCloseReqBody \<notin> set evs'"
      using step.IH [OF retry(1) retry(2)] by blast
    have "gwTrace w' = gwTrace w @ (evs @ evs')" "int (sends (evs @ evs')) = k - n + 1" "\<forall>x. EvSend x \<in> set (evs @ evs') \<longrightarrow> x = req"
      "got (evs @ evs') = shut (evs @ evs') + left_open r" "EvCloseReqBody \<notin> set (evs @ evs')"
      using e e' by (auto simp: trace_defs)
    then show ?thesis using step.IH [OF retry(1) retry(2)] one_attempt_retry [OF retry(1)] by (intro conjI exI [of _ "evs @ evs'"]) auto
  next
    case (last k1)
    then show ?thesis using one_attempt_trace [OF last(1)] by auto
  qed
qed

lemma Acquire_inflight:
  assumes "aDuring e = id" and "Acquire e vip b = (acq, b')"
  shows "case acq of Inl err \<Rightarrow> inflight (pIn b') = inflight (pIn b) | Inr pm \<Rightarrow> \<not> permit_done pm \<and> inflight (pIn b') = inflight (pIn b) + 1"
proof -
  let ?e = "e\<lparr>aWait := cWaitTimeout (pCfg b), aSeed := pSeed b, aVIP := vip\<rparr>"
  obtain v sd b1 where a: "AllowEx ?e (pIn b) = (v, sd, b1)" by (metis prod.collapse)
  show ?thesis using AllowEx_cases [OF _ a] assms a by (cases v) (auto simp: Acquire_def Let_def)
qed

lemma permit_inflight:
  assumes "\<not> permit_done pm"
  shows "inflight (pIn (snd (Permit_Failure n n2 nr pm b))) = inflight (pIn b) - 1"
    "inflight (pIn (snd (Permit_Success n nr l pm b))) = inflight (pIn b) - 1"
    "inflight (pIn (snd (Permit_Abandon pm b))) = inflight (pIn b) - 1"
  using assms by (auto simp: Permit_Success_def Permit_Failure_def Permit_Abandon_def MarkSuccess_def MarkFailure_def Abandon_def Let_def)

lemma conclude_inflight:
  assumes "\<not> permit_done pm" and "out \<noteq> ArRetry" and "conclude g pol p req pm a out w = (res, w')"
  shows "inflight_at (gwT w') p = inflight_at (gwT w) p - 1"
  using assms permit_inflight [OF assms(1)] by (auto simp: conclude_def Let_def split: attemptResult.splits option.splits prod.splits)

lemma conclude_trace:
  assumes "out \<noteq> ArRetry" and "conclude g pol p req pm a out w = (res, w')"
  shows "\<exists>evs. gwTrace w' = gwTrace w @ evs \<and> sends evs = 0 \<and> got evs = 0 \<and> left_open out = shut evs + (case res of RtReturns _ \<Rightarrow> 1 | _ \<Rightarrow> 0)
    \<and> (\<forall>x. EvSend x \<notin> set evs)"
  using assms
  by (auto simp: conclude_def Let_def trace_defs left_open_def give_def out_err_def split: attemptResult.splits option.splits prod.splits rt_outcome.splits)

lemma guarded_cases:
  assumes "rt_guarded g ep req w = (res, w')" and "getEntry (guGet g) ep (hqScheme req) (hqHost req) (gwT w) = (p, t1)"
  obtains (refuse) err b where "Acquire (guAllow g) (hqVIP req) (br_at t1 p) = (Inl err, b)"
      "rt_refused g (enPolicy ep) p req err (w\<lparr>gwT := set_br p (\<lambda>_. b) t1\<rparr>) = (res, w')"
  | (admit) pm b out k w1 where "Acquire (guAllow g) (hqVIP req) (br_at t1 p) = (Inr pm, b)"
      "attempt_loop g (enPolicy ep) p req 0 (w\<lparr>gwT := set_br p (\<lambda>_. b) t1\<rparr>) = (out, k, w1)"
      "conclude g (enPolicy ep) p req pm (guTry g (nat k)) out w1 = (res, w')"
proof -
  obtain acq b where a: "Acquire (guAllow g) (hqVIP req) (br_at t1 p) = (acq, b)" by fastforce
  show thesis
  proof (cases acq)
    case (Inl err)
    then show thesis using a assms by (intro refuse) (simp_all add: rt_guarded_def Let_def)
  next
    case (Inr pm)
    obtain out k w1 where "attempt_loop g (enPolicy ep) p req 0 (w\<lparr>gwT := set_br p (\<lambda>_. b) t1\<rparr>) = (out, k, w1)" by (metis prod_cases3)
    then show thesis using Inr a assms by (intro admit) (simp_all add: rt_guarded_def Let_def)
  qed
qed

lemma refused_trace:
  assumes "rt_refused g pol p req err w = (res, w')"
  shows "gwT w' = gwT w \<and> (\<exists>e. res = RtFails e) \<and> gwTrace w' = gwTrace w @ (if hqBody req \<noteq> BodyNil then [EvCloseReqBody] else [])"
  using assms by (auto simp: rt_refused_def Let_def split: prod.splits)

section \<open>Properties\<close>

text \<open>
  C6: a guarded request gives its in-flight slot back on every path: refused by the circuit or the bulkhead, answered, failed after any number of
  retries, saved for later, abandoned by its caller, or ended by a panic, which is passed on.
\<close>

theorem guarded_releases_slot:
  assumes "aDuring (guAllow g) = id" and "\<forall>k t q. inflight_at (atMeanwhile (guTry g k) t) q = inflight_at t q"
    and "getEntry (guGet g) ep (hqScheme req) (hqHost req) (gwT w) = (p, t1)" and "rt_guarded g ep req w = (res, w')"
  shows "inflight_at (gwT w') p = inflight_at t1 p"
  using assms(4,3)
proof (cases rule: guarded_cases)
  case (refuse err b)
  then show ?thesis using Acquire_inflight [OF assms(1) refuse(1)] refused_trace [OF refuse(2)] by simp
next
  case (admit pm b out k w1)
  have "inflight_at (gwT w1) p = inflight_at t1 p + 1"
    using attempt_loop_inv [OF admit(2), of "\<lambda>t. inflight_at t p = inflight_at t1 p + 1"] Acquire_inflight [OF assms(1) admit(1)] assms(2)
    by (simp add: br_RecordRetry_def)
  then show ?thesis
    using conclude_inflight [OF _ _ admit(3)] Acquire_inflight [OF assms(1) admit(1)] attempt_loop_trace [OF admit(2)] by simp
qed

definition ex_try :: attempt_env where
  "ex_try = \<lparr>atOutcome = RtErr (EText ''refused''), atLatency = 5, atCtxErr = False, atNow = 7, atNow2 = 7, atNowR = 7, atTime = 7, atWaitEnds = False,
     atGetBody = True, atMeanwhile = id\<rparr>"

definition ex_gu :: "(nat \<Rightarrow> MemoryStore) guard_env" where
  "ex_gu = \<lparr>guGet = ex_ge, guAllow = ex_allow 1, guTry = (\<lambda>_. ex_try), guParseTime = (\<lambda>_. None), guDe = ex_de, guAppend = mem_append (ex_env 5 [])\<rparr>"

definition ex_w :: "(nat \<Rightarrow> MemoryStore) gworld" where
  "ex_w = \<lparr>gwT = ex_rt 2, gwS = (\<lambda>_. NewMemoryStore ex_opts), gwTrace = []\<rparr>"

definition ex_got :: "nat \<times> transport" where
  "ex_got = getEntry ex_ge ex_all ''https'' ''api.example'' (ex_rt 2)"

lemma ex_got: "getEntry (guGet ex_gu) ex_all (hqScheme ex_hreq) (hqHost ex_hreq) (gwT ex_w) = (fst ex_got, snd ex_got)"
  by (simp add: ex_got_def ex_gu_def ex_hreq_def ex_w_def)

theorem guarded_releases_slot_witness:
  "inflight_at (gwT (snd (rt_guarded ex_gu ex_all ex_hreq ex_w))) (fst ex_got) = inflight_at (snd ex_got) (fst ex_got)"
  by (rule guarded_releases_slot [OF _ _ ex_got prod.collapse [symmetric]]) (simp_all add: ex_gu_def ex_allow_def ex_try_def)

text \<open>
  C7: an attempt is repeated at most \<open>MaxRetries\<close> times, always with the same request, and only for methods that are safe to repeat with a body that can be sent
  again; a request that is refused sends nothing and closes its body.
\<close>

theorem retries_bounded_and_safe:
  assumes "getEntry (guGet g) ep (hqScheme req) (hqHost req) (gwT w) = (p, t1)" and "rt_guarded g ep req w = (res, w')"
  shows "\<exists>evs. gwTrace w' = gwTrace w @ evs \<and> (\<forall>x. EvSend x \<in> set evs \<longrightarrow> x = req)
    \<and> (case fst (Acquire (guAllow g) (hqVIP req) (br_at t1 p)) of
         Inl err \<Rightarrow> sends evs = 0 \<and> (EvCloseReqBody \<in> set evs \<longleftrightarrow> hqBody req \<noteq> BodyNil) \<and> (\<exists>e. res = RtFails e)
       | Inr pm \<Rightarrow> 1 \<le> sends evs \<and> int (sends evs) \<le> 1 + max 0 (gpMaxRetries (enPolicy ep))
           \<and> (1 < sends evs \<longrightarrow> hqMethod req \<in> {''GET'', ''HEAD'', ''OPTIONS'', ''TRACE''} \<and> can_resend req))"
  using assms(2,1)
proof (cases rule: guarded_cases)
  case (refuse err b)
  then show ?thesis using refused_trace [OF refuse(2)]
    by (intro exI [of _ "if hqBody req \<noteq> BodyNil then [EvCloseReqBody] else []"]) (auto simp: sends_def)
next
  case (admit pm b out k w1)
  note L = attempt_loop_trace [OF admit(2)]
  then obtain evs where e: "gwTrace w1 = gwTrace w @ evs" "int (sends evs) = k + 1" "\<forall>x. EvSend x \<in> set evs \<longrightarrow> x = req" by auto
  obtain evs' where e': "gwTrace w' = gwTrace w1 @ evs'" "sends evs' = 0" "\<forall>x. EvSend x \<notin> set evs'" using conclude_trace [OF _ admit(3)] L by blast
  have "sends (evs @ evs') = sends evs" using e'(2) by (simp add: sends_def)
  then show ?thesis using admit(1) L e e' by (intro exI [of _ "evs @ evs'"]) auto
qed

theorem retries_bounded_and_safe_witness:
  "\<exists>evs. gwTrace (snd (rt_guarded ex_gu ex_all ex_hreq ex_w)) = [] @ evs \<and> {x. EvSend x \<in> set evs} \<subseteq> {ex_hreq}"
proof -
  have "gwTrace ex_w = []" by (simp add: ex_w_def)
  then show ?thesis using retries_bounded_and_safe [OF ex_got prod.collapse [symmetric]] by fastforce
qed

text \<open>
  C8: no response is leaked: every response a guarded request received is closed by the guard, except the one it returns.
\<close>

theorem responses_not_leaked:
  assumes "rt_guarded g ep req w = (res, w')"
  shows "\<exists>evs. gwTrace w' = gwTrace w @ evs \<and> got evs = shut evs + (case res of RtReturns _ \<Rightarrow> 1 | _ \<Rightarrow> 0)"
proof -
  obtain p t1 where en: "getEntry (guGet g) ep (hqScheme req) (hqHost req) (gwT w) = (p, t1)" by fastforce
  from assms en show ?thesis
  proof (cases rule: guarded_cases)
    case (refuse err b)
    then show ?thesis using refused_trace [OF refuse(2)]
      by (intro exI [of _ "if hqBody req \<noteq> BodyNil then [EvCloseReqBody] else []"]) (auto simp: trace_defs)
  next
    case (admit pm b out k w1)
    note L = attempt_loop_trace [OF admit(2)]
    then obtain evs where e: "gwTrace w1 = gwTrace w @ evs" "got evs = shut evs + left_open out" by auto
    obtain evs' where e': "gwTrace w' = gwTrace w1 @ evs'" "got evs' = 0" "left_open out = shut evs' + (case res of RtReturns _ \<Rightarrow> 1 | _ \<Rightarrow> 0)"
      using conclude_trace [OF _ admit(3)] L by blast
    show ?thesis using e e' by (intro exI [of _ "evs @ evs'"]) (simp add: got_def shut_def)
  qed
qed

theorem responses_not_leaked_witness:
  "\<exists>evs. gwTrace (snd (rt_guarded ex_gu ex_all ex_hreq ex_w)) = gwTrace ex_w @ evs
     \<and> got evs = shut evs + (case fst (rt_guarded ex_gu ex_all ex_hreq ex_w) of RtReturns _ \<Rightarrow> 1 | _ \<Rightarrow> 0)"
  by (rule responses_not_leaked [OF prod.collapse [symmetric]])

definition saved_in :: "de_env \<Rightarrow> httpReq \<Rightarrow> string \<Rightarrow> (nat \<Rightarrow> MemoryStore) \<Rightarrow> (nat \<Rightarrow> MemoryStore) \<Rightarrow> bool" where
  "saved_in e req i s s' \<longleftrightarrow> \<not> hqReplay req \<and> (\<exists>d n rec name. df_store d = Some n \<and> df_record e d req name = Some rec \<and> rID rec = i
     \<and> (\<forall>m. m \<noteq> n \<longrightarrow> s' m = s m)
     \<and> (case ms_content (s n) i of
          Some old \<Rightarrow> ms_content (s' n) = ms_content (s n)
        | None \<Rightarrow> \<exists>rec'. same_payload rec rec' \<and> rBlockedOn rec' = name \<and> ms_content (s' n) = (ms_content (s n))(i \<mapsto> rec')))"

definition told :: "de_env \<Rightarrow> httpReq \<Rightarrow> rt_result \<Rightarrow> (nat \<Rightarrow> MemoryStore) \<Rightarrow> (nat \<Rightarrow> MemoryStore) \<Rightarrow> bool" where
  "told e req res s s' \<longleftrightarrow> (\<forall>n. ms_ok (s' n)) \<and> (case res of
       RtFails (EDeferred i c) \<Rightarrow> saved_in e req i s s'
     | _ \<Rightarrow> \<forall>n. ms_content (s' n) = ms_content (s n))"

lemma tryDefer_told:
  assumes "\<forall>n. ms_ok (s n)" and "tryDefer e (mem_append ce) name pol req cause s = (de, s')"
  shows "case de of Some err \<Rightarrow> told e req (RtFails err) s s' | None \<Rightarrow> \<forall>n. ms_ok (s' n) \<and> ms_content (s' n) = ms_content (s n)"
proof (cases de)
  case (Some err)
  with tryDefer_mem [OF assms] obtain d n rec where c: "df_store d = Some n" "df_record e d req name = Some rec" "err = EDeferred (rID rec) cause"
      "\<forall>m. m \<noteq> n \<longrightarrow> s' m = s m" "\<not> hqReplay req" "\<forall>n. ms_ok (s' n)"
      "case ms_content (s n) (rID rec) of Some old \<Rightarrow> ms_content (s' n) = ms_content (s n)
         | None \<Rightarrow> \<exists>rec'. same_payload rec rec' \<and> rBlockedOn rec' = name \<and> ms_content (s' n) = (ms_content (s n))(rID rec \<mapsto> rec')"
    by auto
  then have "saved_in e req (rID rec) s s'" unfolding saved_in_def by blast
  then show ?thesis using c Some by (simp add: told_def)
qed (use tryDefer_mem [OF assms] in auto)

lemma told_same: "\<forall>n. ms_ok (s n) \<Longrightarrow> (\<And>i c. res \<noteq> RtFails (EDeferred i c)) \<Longrightarrow> told e req res s s"
  by (auto simp: told_def split: rt_result.splits gerror.splits)

lemma told_other:
  "\<forall>n. ms_ok (s' n) \<and> ms_content (s' n) = ms_content (s n) \<Longrightarrow> (\<And>i c. res \<noteq> RtFails (EDeferred i c)) \<Longrightarrow> told e req res s s'"
  by (auto simp: told_def split: rt_result.splits gerror.splits)

lemma refused_told:
  assumes "\<forall>n. ms_ok (gwS w n)" and "guAppend g = mem_append ce" and "rt_refused g pol p req err w = (res, w')"
  shows "told (guDe g) req res (gwS w) (gwS w')"
proof -
  obtain cerr de s where d: "tryDefer (guDe g) (mem_append ce) (ceName (rtHeap (gwT w) p)) pol req cerr (gwS w) = (de, s)"
      "res = RtFails (case de of Some e \<Rightarrow> e | None \<Rightarrow> cerr)" "gwS w' = s" "\<And>i c. cerr \<noteq> EDeferred i c"
    using assms(2,3) by (fastforce simp: rt_refused_def Let_def split: prod.splits if_splits)
  show ?thesis using tryDefer_told [OF assms(1) d(1)] d(2-4) by (cases de) (auto intro: told_other)
qed

lemma conclude_told:
  assumes "\<forall>n. ms_ok (gwS w n)" and "guAppend g = mem_append ce" and "conclude g pol p req pm a out w = (res, w')"
    and "\<And>r l i c. out = ArOk r l \<or> out = ArFailed r \<Longrightarrow> r \<noteq> RtErr (EDeferred i c)"
  shows "told (guDe g) req res (gwS w) (gwS w')"
proof (cases out)
  case (ArFailed r)
  obtain de s where d: "tryDefer (guDe g) (mem_append ce) (ceName (rtHeap (gwT w) p)) pol req (cause_of r) (gwS w) = (de, s)" by fastforce
  note T = tryDefer_told [OF assms(1) d]
  show ?thesis
  proof (cases de)
    case None
    then have "gwS w' = s" "\<And>i c. res \<noteq> RtFails (EDeferred i c)"
      using assms(2,3) d ArFailed by (auto simp: conclude_def Let_def give_def out_err_def split: option.splits rt_outcome.splits)
    then show ?thesis using T None by (auto intro: told_other)
  next
    case (Some err)
    then have "gwS w' = s" "res = RtFails err" using assms(2,3) d ArFailed by (auto simp: conclude_def Let_def)
    then show ?thesis using T Some by simp
  qed
next
  case (ArOk r l)
  then have "gwS w' = gwS w" "\<And>i c. res \<noteq> RtFails (EDeferred i c)"
    using assms(3) assms(4) [of r l] by (auto simp: conclude_def Let_def give_def split: rt_outcome.splits)
  then show ?thesis using assms(1) by (auto intro: told_same)
qed (use assms(1,3) in \<open>auto simp: conclude_def Let_def intro: told_same\<close>)

lemma attempt_loop_out:
  assumes "attempt_loop g pol p req n w = (out, k, w')" and "out = ArOk r l \<or> out = ArFailed r"
  shows "\<exists>m. r = atOutcome (guTry g m)"
  using assms(1)
proof (induction n w rule: attempt_loop_induct [of g pol p req])
  case (step n w)
  from step.prems show ?case
  proof (cases rule: attempt_loop_cases)
    case (last k1)
    then show ?thesis using assms(2) by (auto simp: one_attempt_def Let_def split: if_splits option.splits dest!: again_result)
  qed (rule step.IH)
qed



lemma set_br_step: "rt_step t (set_br p f t)"
  unfolding set_br_def by (rule rs_breaker)

lemma getEntry_steps:
  assumes "\<forall>t. rt_step\<^sup>*\<^sup>* t (geMid g t)"
  shows "rt_step\<^sup>*\<^sup>* t (snd (getEntry g ep sc h t))"
proof -
  have "rt_step\<^sup>*\<^sup>* t (f (geMid g t))" if "\<And>u. rt_step u (f u)" for f
    using assms that by (meson rtranclp.rtrancl_into_rtrancl)
  from this [of "\<lambda>u. snd (getShared g ep sc h u)"] this [of "\<lambda>u. snd (getMissing g ep sc h u)"] this [of "\<lambda>u. touch n now p u" for n now p]
  show ?thesis
    by (auto simp: getEntry_def Let_def rs_shared rs_missing rs_touch split: option.splits)
qed

lemma guarded_steps:
  assumes "\<forall>t. rt_step\<^sup>*\<^sup>* t (geMid (guGet g) t)" and "\<forall>k t. rt_step\<^sup>*\<^sup>* t (atMeanwhile (guTry g k) t)" and "rt_guarded g ep req w = (res, w')"
  shows "rt_step\<^sup>*\<^sup>* (gwT w) (gwT w')"
proof -
  obtain p t1 where en: "getEntry (guGet g) ep (hqScheme req) (hqHost req) (gwT w) = (p, t1)" by fastforce
  have t1: "rt_step\<^sup>*\<^sup>* (gwT w) t1" using getEntry_steps [OF assms(1)] en by (metis snd_conv)
  have br: "rt_step\<^sup>*\<^sup>* (gwT w) u \<Longrightarrow> rt_step\<^sup>*\<^sup>* (gwT w) (set_br p f u)" for f u
    by (rule rtranclp.rtrancl_into_rtrancl) (assumption, rule set_br_step)
  from assms(3) en show ?thesis
  proof (cases rule: guarded_cases)
    case (refuse err b)
    then show ?thesis using br [OF t1] refused_trace [OF refuse(2)] by simp
  next
    case (admit pm b out k w1)
    have "rt_step\<^sup>*\<^sup>* (gwT w) (gwT w1)"
      using attempt_loop_inv [OF admit(2), of "\<lambda>t. rt_step\<^sup>*\<^sup>* (gwT w) t"] br br [OF t1] assms(2) by (simp add: rtranclp_trans)
    moreover have "gwT w' = gwT w1 \<or> (\<exists>f. gwT w' = set_br p f (gwT w1))"
      using admit(3) by (auto simp: conclude_def Let_def split: attemptResult.splits option.splits prod.splits)
    ultimately show ?thesis using br by metis
  qed
qed

text \<open>
  C13: a whole request is a sequence of the steps that keep the circuits bounded and consistent, whatever other goroutines do meanwhile.
\<close>

theorem requests_keep_circuits:
  assumes "rt_New cfg opts = Inr (gwT w0)" and "is_int64 (gcShardCount (fold (\<lambda>f. f) opts cfg))"
    and "\<forall>(g, req) \<in> set reqs. \<forall>t. rt_step\<^sup>*\<^sup>* t (geMid (guGet g) t) \<and> (\<forall>k. rt_step\<^sup>*\<^sup>* t (atMeanwhile (guTry g k) t))"
  shows "circuits_ok (gwT (fold (\<lambda>(g, req) w. snd (RoundTrip g req w)) reqs w0))"
proof -
  have "rt_step\<^sup>*\<^sup>* (gwT w) (gwT (snd (RoundTrip g req w)))" if "(g, req) \<in> set reqs" for g req w
  proof -
    have m: "\<forall>t. rt_step\<^sup>*\<^sup>* t (geMid (guGet g) t)" "\<forall>k t. rt_step\<^sup>*\<^sup>* t (atMeanwhile (guTry g k) t)" using assms(3) that by auto
    show ?thesis using guarded_steps [OF m, of _ req w]
      by (auto simp: RoundTrip_def passthrough_def Let_def split: sum.splits option.splits intro: r_into_rtranclp rs_pass) (metis prod.collapse)
  qed
  then have "rt_step\<^sup>*\<^sup>* (gwT w) (gwT (fold (\<lambda>(g, req) w. snd (RoundTrip g req w)) rs w))" if "set rs \<subseteq> set reqs" for rs w
    using that by (induction rs arbitrary: w) (auto, meson rtranclp_trans)
  then show ?thesis using rt_steps_ok rt_New_ok [OF assms(1,2)] by blast
qed

theorem requests_keep_circuits_witness:
  "circuits_ok (gwT (fold (\<lambda>(g, req) w. snd (RoundTrip g req w)) [(ex_gu, ex_hreq), (ex_gu, ex_hreq)] ex_w))"
proof (rule requests_keep_circuits [of "ex_gcfg 2" "[]"])
  show "rt_New (ex_gcfg 2) [] = Inr (gwT ex_w)" by (simp add: ex_w_def ex_rt_New)
  show "is_int64 (gcShardCount (fold (\<lambda>f. f) [] (ex_gcfg 2)))" by (simp add: is_int64_def ex_gcfg_def)
qed (simp add: ex_gu_def ex_ge_def ex_try_def)

text \<open>
  The choice a caller made with \<open>Use\<close> is not saved: whatever endpoint protected the request, its replay is matched afresh, so a request that only \<open>Use\<close> gave
  an endpoint is replayed without any protection (or under \<open>GuardAll\<close>), although the record is blocked on the endpoint's circuit.
\<close>

theorem replay_forgets_endpoint:
  assumes "rebuild parseURL rec = Inr req'" and "\<forall>ep \<in> set (rtEndpoints t). \<not> enMatch ep req'"
  shows "resolve t req' = Inr (rtGuardAll t)"
proof -
  have "hqUse req' = None" "\<not> hqSkip req'"
    using assms(1) by (auto simp: rebuild_def Let_def NewRequest_def split: if_splits sum.splits option.splits)
  moreover have "find (\<lambda>ep. enMatch ep req') (rtEndpoints t) = None" using assms(2) by (simp add: find_None_iff)
  ultimately show ?thesis by (simp add: resolve_def)
qed

end
