(* ===== verification/Spec2Isabelle.thy ===== *)
theory Spec2Isabelle
  imports GG_Retry GG_Memory_Props GG_Breaker GG_Pipeline_Props GG_Redrive_Props GG_Consumer_Exec GG_Consumer_Stop GG_Wal_Gaps
    GG_Secure GG_Audit GG_Transport
begin

text \<open>
  GoGuardLib keeps message processing going while the services it calls are down.  A message is read from
  Kafka (\<open>kafka\<close>), run through the steps of a pipeline (\<open>pipeline\<close>) whose calls go through circuit breakers
  (\<open>breaker\<close>, \<open>internal/breaker\<close>, \<open>internal/engine\<close>, \<open>health\<close>) and retries (\<open>retry\<close>), and, when a step cannot
  be finished, is kept with its progress in a dead-letter store (\<open>dlq\<close>), in memory or in a log on disk, sealed or in clear, from which
  the redriver runs it again when its dependency is back.  Outgoing HTTP requests are guarded in the same way (\<open>goguard.go\<close>), and can be
  saved and sent later.  The promise of the whole is that no message is lost or skipped, that a finished
  step is not run again, and that messages of one key keep their order.

  \<^bold>\<open>How code is modelled.\<close>  A struct is a record with the fields of the source, an error is a value of
  \<open>gerror\<close>, a method is a function on the state that returns it updated; a call that fails returns its error.
  State guarded by a mutex or owned by one goroutine changes in atomic steps; where goroutines interleave, the
  system is an inductive step relation over the functions (\<open>slot_step\<close>, \<open>rd_step\<close>, \<open>cs_step\<close>, \<open>rt_step\<close>, the histories of the log).  What is
  outside the repository (the Kafka client, sha256, AES-GCM, JSON, URLs, random bytes, the clock, a context, system calls, map iteration order, the user's
  functions) is an argument, read from an environment or a world.  Durations and instants are integers of
  nanoseconds, with the saturation of \<open>Time.Sub\<close>; conversions to fixed widths are written out where they can wrap around; the state of the random
  generator, checksums and hashes are words; counters that only count up are natural numbers; \<open>float64\<close> rates are rationals.

  \<^bold>\<open>The theories and the code.\<close>
  \<^item> \<open>GG_Prelude\<close>, \<open>GG_Errors\<close>: shared vocabulary; the error values and \<open>errors.Is\<close>, \<open>errors.As\<close>.
  \<^item> \<open>GG_Retry\<close> (\<open>retry/\<close>): backoffs, the retry budget, the retry loop, the classification of HTTP replies.
  \<^item> \<open>GG_Record\<close> (\<open>dlq/record.go\<close>, \<open>dlq/store.go\<close>): records, validation, identifiers, requests.
  \<^item> \<open>GG_Machine\<close> (\<open>dlq/machine.go\<close>): the index of a store as an explicit heap; \<open>GG_Machine_Wf\<close>, \<open>GG_Machine_Ops\<close> and
    \<open>GG_Select\<close> prove its invariant kept by every operation and the selection of leases exact; \<open>GG_Queue\<close> is the
    abstract queue it implements.
  \<^item> \<open>GG_Store\<close>: the contract of \<open>dlq.Store\<close> as the locales \<open>append_store\<close> and \<open>dlq_store\<close>.
  \<^item> \<open>GG_Memory\<close>, \<open>GG_Memory_Props\<close> (\<open>dlq/memory.go\<close>): the memory store refines the abstract queue and interprets
    the contract.
  \<^item> \<open>GG_Codec\<close> (\<open>dlq/wal_codec.go\<close>): the format of the log byte by byte: varints, CRC-32C, headers, frames, records.
  \<^item> \<open>GG_Wal\<close> (\<open>dlq/wal_store.go\<close>, \<open>wal_write.go\<close>, \<open>wal_blob.go\<close>, \<open>wal_sign.go\<close>, reading of \<open>wal_snapshot.go\<close>): the log-backed store over a directory
    of files, its operations, group commit, rotation, failing closed, and recovery.  \<open>GG_Wal_View\<close>, \<open>GG_Wal_Log\<close>, \<open>GG_Wal_Recover\<close>, \<open>GG_Wal_Content\<close>,
    \<open>GG_Wal_Live\<close> and \<open>GG_Wal_Ops\<close> relate the files to the entries written and those to the content; \<open>GG_Wal_Props\<close> and \<open>GG_Wal_Gaps\<close> state the results.
  \<^item> \<open>GG_Crypt\<close> (\<open>secure/aesgcm.go\<close>, \<open>secure/hmac.go\<close>), \<open>GG_Secure\<close> (\<open>dlq/secure.go\<close>), \<open>GG_Audit\<close> (\<open>dlq/audit.go\<close>): sealing and signing with key rotation,
    the store that seals payloads and hashes order keys, re-sealing, the store that records operator actions.
  \<^item> \<open>GG_Engine\<close> (\<open>internal/engine\<close>), \<open>GG_IBreaker\<close> (\<open>internal/breaker\<close>), \<open>GG_Health\<close> (\<open>health\<close>), \<open>GG_Breaker\<close>
    (\<open>breaker\<close>): the rolling window, the breaker's state machine and bulkhead, probes, permits and \<open>Do\<close>.
  \<^item> \<open>GG_Pipeline\<close>, \<open>GG_Pipeline_Props\<close> (\<open>pipeline/pipeline.go\<close>): steps, checkpoints, live execution, resuming, saga
    compensation, rewinding.
  \<^item> \<open>GG_Redrive\<close>, \<open>GG_Redrive_Props\<close> (\<open>dlq/redrive.go\<close>): the token bucket, the dispatcher, the workers and
    how a lease is settled.
  \<^item> \<open>GG_Consumer\<close>, \<open>GG_Consumer_Props\<close>, \<open>GG_Consumer_Exec\<close>, \<open>GG_Consumer_Stop\<close> (\<open>kafka/consumer.go\<close>): accepting, dispatching, completing, committing,
    rebalancing, pausing, shutting down, and the consumer together with pipeline and store (locale \<open>keyed_store\<close>).
  \<^item> \<open>GG_Http\<close> (\<open>policy.go\<close>, \<open>match.go\<close>), \<open>GG_Circuits\<close>, \<open>GG_Transport\<close> (\<open>goguard.go\<close>, \<open>client.go\<close>), \<open>GG_Defer\<close> (\<open>defer.go\<close>): policies and endpoints, the
    circuits in their shards, the guarded round trip with its retries, saving requests and replaying them.

  \<^bold>\<open>What is shown.\<close>  The memory store answers every sequence of calls as the abstract queue does, one lease per order key,
  oldest due record first, nothing dropped but by an acknowledgement or a discard, limits never exceeded.  The log-backed store changes the map from identifiers to
  records as its entries say, and what it acknowledged under \<open>SyncAlways\<close> is there after a power failure; frames and records decode to what was
  encoded and damage is noticed.  The sealing store gives back what it was given, keeps the order of a key across a rotation of its secret, and never hands out what it cannot open.
  \<open>Execute\<close> answers that a message is handled only when it is; resuming runs no completed step; compensation undoes each step once.  The redriver never works on a
  record twice at once and removes it only after success.  A consumer commits no offset past an unhandled message.  The
  breaker admits no more calls than its bulkhead, its window counts exactly the recent events, an open circuit refuses.  A guarded request releases its slot on every
  path, is repeated only within its limits and only if that is safe, leaks no response, and is reported as saved exactly if it is in the store; a replay is the request
  that was saved, without its credentials; the circuits stay bounded and consistent.  Theorems without a number of their own state what the components further do, and the
  places where the code does not do what it says.

  \<^bold>\<open>Bounds and fuel.\<close>  Recursive definitions are structural or have a measure (the finished offsets left, the backlog, the
  results not yet applied, the retries left, the bytes of a file not yet read); the only loop without one, \<open>final_loop\<close>, is a partial function whose value \<open>None\<close> means that
  it does not return.  The results about the log assume fewer than \<open>2 ^ 64\<close> entries, a limit of entries between one byte and \<open>2 ^ 30\<close>, and, for recovery, no
  signer; a power failure keeps, of what was not synced, any prefix.  Those about saved requests assume a body limit below the largest \<open>int\<close>, where the code wraps around.

  \<^bold>\<open>Not modelled.\<close>  Writing snapshots and compaction of the log, its cache of open files, lock file, permissions and backup; the settings of the default
  \<open>http.Transport\<close>, the janitor's ticker and the event dispatcher; the redaction of texts by regular expressions; the HTTP steps of pipelines and the
  adapters to Kafka client libraries, which are glue around \<open>net/http\<close> and those libraries; command line, demo and test support.
\<close>

end
